(* ===== verification/Prelude.thy ===== *)
theory Prelude
  imports Main "HOL-Library.Word"
begin

text \<open>
  What every component of the development shares: the names of the machine integer types, the
  result type of an operation that can throw, the little-endian reading of two adjacent bytes,
  and the lemma collections that the component theories fill.

  \<^item> \<open>core_simps\<close> collects the read-over-write equations of the simulator's state;
  \<^item> \<open>isa_simps\<close> collects the bounds of the operand fields of an instruction word;
  \<^item> \<open>wf_intros\<close> collects "this operation keeps the well-formedness invariant".
\<close>

unbundle bit_operations_syntax

named_theorems core_simps
named_theorems isa_simps
named_theorems wf_intros

type_synonym u8 = "8 word"
type_synonym u16 = "16 word"
type_synonym u32 = "32 word"
type_synonym u64 = "64 word"

section \<open>Results that may be errors\<close>

text \<open>
  A call that may throw has type \<open>'e + 'a\<close>: \<open>Inl\<close> carries the exception, \<open>Inr\<close> the value.
  \<open>bindE\<close> is the sequencing of two such calls: an exception of the first one is the result of
  the whole.
\<close>

definition bindE :: "'e + 'a \<Rightarrow> ('a \<Rightarrow> 'e + 'b) \<Rightarrow> 'e + 'b" where
  "bindE r f = (case r of Inl e \<Rightarrow> Inl e | Inr a \<Rightarrow> f a)"

lemma bindE_simps [simp]:
  "bindE (Inl e) f = Inl e"
  "bindE (Inr a) f = f a"
  by (simp_all add: bindE_def)

lemma bindE_Inr_iff: "bindE r f = Inr b \<longleftrightarrow> (\<exists>a. r = Inr a \<and> f a = Inr b)"
  by (cases r) auto

lemma bindE_InrE [elim!]:
  assumes "bindE r f = Inr b"
  obtains a where "r = Inr a" "f a = Inr b"
  using assms by (auto simp: bindE_Inr_iff)

definition mapE :: "('a \<Rightarrow> 'b) \<Rightarrow> 'e + 'a \<Rightarrow> 'e + 'b" where
  "mapE f r = bindE r (\<lambda>a. Inr (f a))"

lemma mapE_simps [simp]:
  "mapE f (Inl e) = Inl e"
  "mapE f (Inr a) = Inr (f a)"
  by (simp_all add: mapE_def)

lemma mapE_Inr_iff: "mapE f r = Inr b \<longleftrightarrow> (\<exists>a. r = Inr a \<and> b = f a)"
  by (cases r) auto

lemma bindE_Inl_iff: "bindE r f = Inl e \<longleftrightarrow> r = Inl e \<or> (\<exists>a. r = Inr a \<and> f a = Inl e)"
  by (cases r) auto

lemma mapE_Inl_iff: "mapE f r = Inl e \<longleftrightarrow> r = Inl e"
  by (cases r) auto

section \<open>Bytes and words\<close>

text \<open>The two bytes of a 16-bit word in the order of a little-endian machine.\<close>

definition lo8 :: "u16 \<Rightarrow> u8" where
  "lo8 w = ucast w"

definition hi8 :: "u16 \<Rightarrow> u8" where
  "hi8 w = ucast (drop_bit 8 w)"

definition join16 :: "u8 \<Rightarrow> u8 \<Rightarrow> u16" where
  "join16 l h = ucast l OR push_bit 8 (ucast h)"

lemma join16_split [simp]: "join16 (lo8 w) (hi8 w) = w"
  unfolding join16_def lo8_def hi8_def by (rule bit_word_eqI) (auto simp: bit_simps)

lemma lo8_join16 [simp]: "lo8 (join16 l h) = l"
  unfolding join16_def lo8_def by (rule bit_word_eqI) (auto simp: bit_simps)

lemma hi8_join16 [simp]: "hi8 (join16 l h) = h"
  unfolding join16_def hi8_def
  by (rule bit_word_eqI) (auto simp: bit_simps dest: bit_imp_le_length)

lemma uint_join16: "uint (join16 l h) = uint l + 256 * uint h"
proof -
  have "join16 l h = ucast l + push_bit 8 (ucast h)"
    unfolding join16_def
  proof (rule disjunctive_add_eq_or [symmetric], rule bit_word_eqI)
    fix n assume "n < LENGTH(16)"
    show "bit ((ucast l :: u16) AND push_bit 8 (ucast h)) n = bit (0 :: u16) n"
      using bit_imp_le_length [of l n] by (auto simp: bit_simps)
  qed
  moreover have "uint (push_bit 8 (ucast h) :: u16) = 256 * uint h"
    using uint_bounded [of h]
    by (simp add: push_bit_eq_mult uint_word_ariths unsigned_ucast_eq take_bit_eq_mod)
  ultimately show ?thesis
    using uint_bounded [of h] uint_bounded [of l]
    by (simp add: uint_word_ariths unsigned_ucast_eq take_bit_eq_mod)
qed

lemma unat_join16: "unat (join16 l h) = unat l + 256 * unat h"
proof -
  have "int (unat (join16 l h)) = int (unat l + 256 * unat h)"
    by (simp add: uint_join16)
  then show ?thesis by linarith
qed

lemma join16_eq_iff [simp]: "join16 a b = join16 c d \<longleftrightarrow> a = c \<and> b = d"
  by (metis hi8_join16 lo8_join16)

text \<open>What an \<open>int\<close> leaves in a byte when it is masked with \<open>0xFF\<close>.\<close>

lemma word_of_int_bytes: "join16 (word_of_int n) (word_of_int (n div 256)) = word_of_int n"
proof -
  have "uint (join16 (word_of_int n) (word_of_int (n div 256))) = n mod 256 + 256 * (n div 256 mod 256)"
    by (simp add: uint_join16 uint_word_of_int)
  also have "\<dots> = n mod 65536"
    using mod_mult2_eq' [of n 256 256] by (simp add: add.commute)
  finally show ?thesis
    by (simp add: word_uint_eq_iff uint_word_of_int)
qed

text \<open>The four bytes of a 32-bit word in memory, little-endian.\<close>

definition bytes_of_u32 :: "u32 \<Rightarrow> u8 list" where
  "bytes_of_u32 w = [ucast w, ucast (drop_bit 8 w), ucast (drop_bit 16 w), ucast (drop_bit 24 w)]"

definition u32_at :: "nat \<Rightarrow> u8 list \<Rightarrow> u32" where
  "u32_at k bs = ucast (bs ! k) OR push_bit 8 (ucast (bs ! (k + 1))) OR push_bit 16 (ucast (bs ! (k + 2))) OR
     push_bit 24 (ucast (bs ! (k + 3)))"

lemma u32_of_bytes:
  fixes w :: u32
  shows "ucast (ucast w :: u8) OR push_bit 8 (ucast (ucast (drop_bit 8 w) :: u8)) OR
     push_bit 16 (ucast (ucast (drop_bit 16 w) :: u8)) OR push_bit 24 (ucast (ucast (drop_bit 24 w) :: u8)) = w" (is "?l = w")
proof (rule bit_word_eqI)
  fix n assume n: "n < LENGTH(32)"
  show "bit ?l n = bit w n"
    by (cases "n < 16"; cases "n < 24") (use n in \<open>auto simp: bit_simps\<close>)
qed

lemma u32_at_bytes: "u32_at (length xs) (xs @ bytes_of_u32 w @ ys) = w"
proof -
  have n: "(xs @ bytes_of_u32 w @ ys) ! length xs = ucast w"
    "(xs @ bytes_of_u32 w @ ys) ! (length xs + 1) = ucast (drop_bit 8 w)"
    "(xs @ bytes_of_u32 w @ ys) ! (length xs + 2) = ucast (drop_bit 16 w)"
    "(xs @ bytes_of_u32 w @ ys) ! (length xs + 3) = ucast (drop_bit 24 w)"
    by (simp_all add: nth_append bytes_of_u32_def)
  show ?thesis unfolding u32_at_def n by (rule u32_of_bytes)
qed

lemma length_bytes_of_u32 [simp]: "length (bytes_of_u32 w) = 4"
  by (simp add: bytes_of_u32_def)

text \<open>The bounds of the machine integers.\<close>

lemma unat_less_256: "unat (a :: u8) < 256"
  using unsigned_less [of a, where ?'a = nat] by simp

lemma unat_less_65536: "unat (a :: u16) < 65536"
  using unsigned_less [of a, where ?'a = nat] by simp

lemma unat_less_u32: "unat (a :: u32) < 4294967296"
  using unsigned_less [of a, where ?'a = nat] by simp

text \<open>Words as their bits, for goals that are decided bit by bit.\<close>

lemma all_less_8:
  "(\<forall>n < 8. P n) \<longleftrightarrow> P 0 \<and> P 1 \<and> P 2 \<and> P 3 \<and> P 4 \<and> P 5 \<and> P 6 \<and> P (7 :: nat)"
  by (simp add: numeral_eq_Suc All_less_Suc) auto

lemma all_less_16:
  "(\<forall>n < 16. P n) \<longleftrightarrow> P 0 \<and> P 1 \<and> P 2 \<and> P 3 \<and> P 4 \<and> P 5 \<and> P 6 \<and> P 7 \<and> P 8 \<and> P 9 \<and>
    P 10 \<and> P 11 \<and> P 12 \<and> P 13 \<and> P 14 \<and> P (15 :: nat)"
  by (simp add: numeral_eq_Suc All_less_Suc) auto

lemma word8_eq_bits: "(a :: u8) = b \<longleftrightarrow> (\<forall>n < 8. bit a n = bit b n)"
  by (auto intro: bit_word_eqI)

lemma word16_eq_bits: "(a :: u16) = b \<longleftrightarrow> (\<forall>n < 16. bit a n = bit b n)"
  by (auto intro: bit_word_eqI)

lemmas word8_bits = word8_eq_bits all_less_8 bit_simps
lemmas word16_bits = word16_eq_bits all_less_16 bit_simps

end
