(* ===== verification/Avr_Chip.thy ===== *)
theory Avr_Chip
  imports Prelude
begin

text \<open>
  The two simulated chips: \<open>sim/src/common.h\<close>, the constants of the structs \<open>Atmega8\<close> and
  \<open>Atmega16\<close> of \<open>sim/src/atmega8_def.h\<close> and \<open>sim/src/atmega16_def.h\<close> that the simulator reads,
  and the bit numbers of the status register from the macros of \<open>sim/src/cpu.cpp\<close>.

  The sizes and the interrupt vectors differ between the chips, so they are fields of the record
  \<open>chip\<close>. The data-memory addresses of the registers are the same in both structs (the core itself
  uses those of \<open>Atmega16\<close> for either chip), so they are plain numbers; \<open>OCR0\<close> exists on the
  ATmega16 only.
\<close>

datatype MICROCONTROLLER = MC_ATMEGA8 | MC_ATMEGA16

record chip =
  CHIP :: MICROCONTROLLER
  FLASH_SIZE :: nat
  RAMEND :: nat
  PAGE_SIZE :: nat
  EEPROM_SIZE :: nat
  External_Interrupt_Request_0 :: int
  TimerCounter2_Compare_Match :: int
  TimerCounter2_Overflow :: int
  TimerCounter0_Overflow :: int
  USART_Rx_Complete :: int
  USART_Tx_Complete :: int

definition Atmega8 :: chip where
  "Atmega8 =
    \<lparr> CHIP = MC_ATMEGA8, FLASH_SIZE = 0x2000, RAMEND = 0x045F, PAGE_SIZE = 64,
      EEPROM_SIZE = 0x200,
      External_Interrupt_Request_0 = 0x001,
      TimerCounter2_Compare_Match = 0x003,
      TimerCounter2_Overflow = 0x004,
      TimerCounter0_Overflow = 0x009,
      USART_Rx_Complete = 0x00B,
      USART_Tx_Complete = 0x00D \<rparr>"

definition Atmega16 :: chip where
  "Atmega16 =
    \<lparr> CHIP = MC_ATMEGA16, FLASH_SIZE = 0x4000, RAMEND = 0x045F, PAGE_SIZE = 128,
      EEPROM_SIZE = 0x200,
      External_Interrupt_Request_0 = 0x002,
      TimerCounter2_Compare_Match = 0x006,
      TimerCounter2_Overflow = 0x008,
      TimerCounter0_Overflow = 0x012,
      USART_Rx_Complete = 0x016,
      USART_Tx_Complete = 0x01A \<rparr>"

text \<open>The vector the ATmega8 does not have (\<open>Atmega16::TimerCounter0_Compare_Match\<close>).\<close>

definition Atmega16_TimerCounter0_Compare_Match :: int where
  "Atmega16_TimerCounter0_Compare_Match = 0x026"

fun chip_of :: "MICROCONTROLLER \<Rightarrow> chip" where
  "chip_of MC_ATMEGA8 = Atmega8"
| "chip_of MC_ATMEGA16 = Atmega16"

lemma chip_sizes [simp]:
  "RAMEND (chip_of m) = 0x45F" "EEPROM_SIZE (chip_of m) = 0x200"
  by (cases m; simp add: Atmega8_def Atmega16_def)+

section \<open>Register addresses in data memory\<close>

abbreviation (input) UCSRB :: nat where "UCSRB \<equiv> 0x2A"
abbreviation (input) UCSRA :: nat where "UCSRA \<equiv> 0x2B"
abbreviation (input) UDR :: nat where "UDR \<equiv> 0x2C"
abbreviation (input) PIND :: nat where "PIND \<equiv> 0x30"
abbreviation (input) EECR :: nat where "EECR \<equiv> 0x3C"
abbreviation (input) EEDR :: nat where "EEDR \<equiv> 0x3D"
abbreviation (input) EEARL :: nat where "EEARL \<equiv> 0x3E"
abbreviation (input) EEARH :: nat where "EEARH \<equiv> 0x3F"
abbreviation (input) OCR2 :: nat where "OCR2 \<equiv> 0x43"
abbreviation (input) TCNT2 :: nat where "TCNT2 \<equiv> 0x44"
abbreviation (input) TCCR2 :: nat where "TCCR2 \<equiv> 0x45"
abbreviation (input) TCNT0 :: nat where "TCNT0 \<equiv> 0x52"
abbreviation (input) TCCR0 :: nat where "TCCR0 \<equiv> 0x53"
abbreviation (input) MCUCR :: nat where "MCUCR \<equiv> 0x55"
abbreviation (input) SPMCR :: nat where "SPMCR \<equiv> 0x57"
abbreviation (input) TIFR :: nat where "TIFR \<equiv> 0x58"
abbreviation (input) TIMSK :: nat where "TIMSK \<equiv> 0x59"
abbreviation (input) GICR :: nat where "GICR \<equiv> 0x5B"
abbreviation (input) OCR0 :: nat where "OCR0 \<equiv> 0x5C"
abbreviation (input) SPL :: nat where "SPL \<equiv> 0x5D"
abbreviation (input) SREG_ADDR :: nat where "SREG_ADDR \<equiv> 0x5F"

section \<open>Bit numbers\<close>

text \<open>\<open>#define I 7\<close> to \<open>#define C 0\<close>: the flags of the status register.\<close>

abbreviation (input) fI :: nat where "fI \<equiv> 7"
abbreviation (input) fT :: nat where "fT \<equiv> 6"
abbreviation (input) fH :: nat where "fH \<equiv> 5"
abbreviation (input) fS :: nat where "fS \<equiv> 4"
abbreviation (input) fV :: nat where "fV \<equiv> 3"
abbreviation (input) fN :: nat where "fN \<equiv> 2"
abbreviation (input) fZ :: nat where "fZ \<equiv> 1"
abbreviation (input) fC :: nat where "fC \<equiv> 0"

text \<open>\<open>#define CF 0\<close> to \<open>#define OF 11\<close>: the flags of the host's EFLAGS register.\<close>

abbreviation (input) CF :: nat where "CF \<equiv> 0"
abbreviation (input) AF :: nat where "AF \<equiv> 4"
abbreviation (input) ZF :: nat where "ZF \<equiv> 6"
abbreviation (input) SF :: nat where "SF \<equiv> 7"
abbreviation (input) OF :: nat where "OF \<equiv> 11"

text \<open>Bits of the peripheral control registers.\<close>

abbreviation (input) EERE :: nat where "EERE \<equiv> 0"
abbreviation (input) EEWE :: nat where "EEWE \<equiv> 1"
abbreviation (input) SPMEN :: nat where "SPMEN \<equiv> 0"
abbreviation (input) PGERS :: nat where "PGERS \<equiv> 1"
abbreviation (input) PGWRT :: nat where "PGWRT \<equiv> 2"
abbreviation (input) RWWSRE :: nat where "RWWSRE \<equiv> 4"
abbreviation (input) TXEN :: nat where "TXEN \<equiv> 3"
abbreviation (input) RXEN :: nat where "RXEN \<equiv> 4"
abbreviation (input) TXC :: nat where "TXC \<equiv> 6"
abbreviation (input) PD2 :: nat where "PD2 \<equiv> 2"
abbreviation (input) WGM00 :: nat where "WGM00 \<equiv> 6"
abbreviation (input) WGM01 :: nat where "WGM01 \<equiv> 3"
abbreviation (input) WGM20 :: nat where "WGM20 \<equiv> 6"
abbreviation (input) WGM21 :: nat where "WGM21 \<equiv> 3"
abbreviation (input) ISC00 :: nat where "ISC00 \<equiv> 0"
abbreviation (input) ISC01 :: nat where "ISC01 \<equiv> 1"
abbreviation (input) INT0 :: nat where "INT0 \<equiv> 6"
abbreviation (input) TOV0 :: nat where "TOV0 \<equiv> 0"
abbreviation (input) OCF0 :: nat where "OCF0 \<equiv> 1"
abbreviation (input) TOV2 :: nat where "TOV2 \<equiv> 6"
abbreviation (input) OCF2 :: nat where "OCF2 \<equiv> 7"
abbreviation (input) TOIE0 :: nat where "TOIE0 \<equiv> 0"
abbreviation (input) OCIE0 :: nat where "OCIE0 \<equiv> 1"
abbreviation (input) TOIE2 :: nat where "TOIE2 \<equiv> 6"
abbreviation (input) OCIE2 :: nat where "OCIE2 \<equiv> 7"

text \<open>
  \<open>x & (1 << n)\<close> as a condition is \<open>bit x n\<close>, \<open>x |= (1 << n)\<close> is \<open>set_bit n x\<close> and
  \<open>x &= ~(1 << n)\<close> is \<open>unset_bit n x\<close> throughout; \<open>bit8\<close> is a byte with one bit set.
\<close>

abbreviation bit8 :: "nat \<Rightarrow> u8" where "bit8 n \<equiv> push_bit n 1"

end
