(* ===== verification/Avr_Isa.thy ===== *)
theory Avr_Isa
  imports Avr_Chip
begin

text \<open>
  The instruction set of the simulator: the enumeration of \<open>sim/src/opcodes.h\<close>, the table of
  \<open>sim/src/main.cpp\<close> with its bit patterns, the start-up routine \<open>InitDll\<close> that turns the patterns
  into masks, and the linear search \<open>AVRCore::DecodeInstruction\<close> of \<open>sim/src/cpu.cpp\<close>.

  The enumeration is one datatype per run of related enumerators, in the order of the source,
  joined by \<open>AVR_OPCODE\<close>; an enumerator keeps its name (\<open>OP_ADC\<close> of the source is
  \<open>Alu OP_ADC\<close> here). The lemmas at the end show that the table is indexed by the enumeration and
  that the search is exact: the patterns are disjoint but for the four pairs in which a
  displacement load or store with displacement 0 is the plain load or store, which comes first.
\<close>

section \<open>Opcodes\<close>

datatype flag_op =
    OP_CLC | OP_CLH | OP_CLI | OP_CLN | OP_CLS | OP_CLT | OP_CLV | OP_CLZ | OP_SEC | OP_SEH
    | OP_SEI | OP_SEN | OP_SES | OP_SET | OP_SEV | OP_SEZ

datatype ctl_op =
    OP_ICALL | OP_IJMP | OP_NOP | OP_RET | OP_RETI | OP_SLEEP | OP_BREAK | OP_WDR | OP_SPM

datatype alu_op =
    OP_ADC | OP_ADD | OP_AND | OP_CP | OP_CPC | OP_CPSE | OP_EOR | OP_OR | OP_SBC | OP_SUB
    | OP_ANDI | OP_LDI | OP_ORI | OP_CPI | OP_SBCI | OP_SUBI

datatype bit_op =
    OP_SBRC | OP_SBRS | OP_BLD | OP_BST | OP_IN | OP_OUT | OP_ADIW | OP_SBIW | OP_CBI
    | OP_SBI | OP_SBIC | OP_SBIS

datatype br_op =
    OP_BRCC | OP_BRCS | OP_BREQ | OP_BRGE | OP_BRHC | OP_BRHS | OP_BRID | OP_BRIE | OP_BRLT
    | OP_BRMI | OP_BRNE | OP_BRPL | OP_BRTC | OP_BRTS | OP_BRVC | OP_BRVS

datatype jmp_op =
    OP_RCALL | OP_RJMP | OP_CALL | OP_JMP

datatype reg_op =
    OP_ASR | OP_COM | OP_DEC | OP_INC | OP_LSR | OP_NEG | OP_POP | OP_PUSH | OP_ROR
    | OP_SWAP | OP_MOV | OP_MOVW | OP_MUL | OP_MULS | OP_MULSU

datatype mem_op =
    OP_STS | OP_LDS | OP_ST_X | OP_ST_X_POST_INC | OP_ST_X_PRE_DEC | OP_ST_Y
    | OP_ST_Y_POST_INC | OP_ST_Y_PRE_DEC | OP_STD_Y | OP_ST_Z | OP_ST_Z_POST_INC
    | OP_ST_Z_PRE_DEC | OP_STD_Z | OP_LD_X | OP_LD_X_POST_INC | OP_LD_X_PRE_DEC | OP_LD_Y
    | OP_LD_Y_POST_INC | OP_LD_Y_PRE_DEC | OP_LDD_Y | OP_LD_Z | OP_LD_Z_POST_INC
    | OP_LD_Z_PRE_DEC | OP_LDD_Z | OP_LPM | OP_LPM_R | OP_LPM_R_POST_INC | OP_EICALL
    | OP_EIJMP

datatype fake_op =
    OP_FAKE_UDR_OUT | OP_FAKE_DEBUG | OP_FAKE_SIGNAL | OP_UNKNOWN

datatype AVR_OPCODE =
    Flag flag_op
  | Ctl ctl_op
  | Alu alu_op
  | Bit bit_op
  | Br br_op
  | Jmp jmp_op
  | Reg reg_op
  | Mem mem_op
  | Fake fake_op

text \<open>\<open>struct opcode_t\<close>: the opcode, its bit pattern, its mnemonic and its size in words.\<close>

datatype opcode_t =
  opcode_t (o_opcode: AVR_OPCODE) (o_op: string) (o_mnemonic: string) (o_size: nat)

section \<open>The instruction table\<close>

definition instructions :: "opcode_t list" where
  "instructions = [
    opcode_t (Flag OP_CLC) ''1001010010001000'' ''clc'' 1,
    opcode_t (Flag OP_CLH) ''1001010011011000'' ''clh'' 1,
    opcode_t (Flag OP_CLI) ''1001010011111000'' ''cli'' 1,
    opcode_t (Flag OP_CLN) ''1001010010101000'' ''cln'' 1,
    opcode_t (Flag OP_CLS) ''1001010011001000'' ''cls'' 1,
    opcode_t (Flag OP_CLT) ''1001010011101000'' ''clt'' 1,
    opcode_t (Flag OP_CLV) ''1001010010111000'' ''clv'' 1,
    opcode_t (Flag OP_CLZ) ''1001010010011000'' ''clz'' 1,
    opcode_t (Flag OP_SEC) ''1001010000001000'' ''sec'' 1,
    opcode_t (Flag OP_SEH) ''1001010001011000'' ''seh'' 1,
    opcode_t (Flag OP_SEI) ''1001010001111000'' ''sei'' 1,
    opcode_t (Flag OP_SEN) ''1001010000101000'' ''sen'' 1,
    opcode_t (Flag OP_SES) ''1001010001001000'' ''ses'' 1,
    opcode_t (Flag OP_SET) ''1001010001101000'' ''set'' 1,
    opcode_t (Flag OP_SEV) ''1001010000111000'' ''sev'' 1,
    opcode_t (Flag OP_SEZ) ''1001010000011000'' ''sez'' 1,
    opcode_t (Ctl OP_ICALL) ''1001010100001001'' ''icall'' 1,
    opcode_t (Ctl OP_IJMP) ''1001010000001001'' ''ijmp'' 1,
    opcode_t (Ctl OP_NOP) ''0000000000000000'' ''nop'' 1,
    opcode_t (Ctl OP_RET) ''1001010100001000'' ''ret'' 1,
    opcode_t (Ctl OP_RETI) ''1001010100011000'' ''reti'' 1,
    opcode_t (Ctl OP_SLEEP) ''1001010110001000'' ''sleep'' 1,
    opcode_t (Ctl OP_BREAK) ''1001010110011000'' ''break'' 1,
    opcode_t (Ctl OP_WDR) ''1001010110101000'' ''wdr'' 1,
    opcode_t (Ctl OP_SPM) ''1001010111101000'' ''spm'' 1,
    opcode_t (Alu OP_ADC) ''000111rdddddrrrr'' ''adc r, r'' 1,
    opcode_t (Alu OP_ADD) ''000011rdddddrrrr'' ''add r, r'' 1,
    opcode_t (Alu OP_AND) ''001000rdddddrrrr'' ''and r, r'' 1,
    opcode_t (Alu OP_CP) ''000101rdddddrrrr'' ''cp r, r'' 1,
    opcode_t (Alu OP_CPC) ''000001rdddddrrrr'' ''cpc r, r'' 1,
    opcode_t (Alu OP_CPSE) ''000100rdddddrrrr'' ''cpse r, r'' 1,
    opcode_t (Alu OP_EOR) ''001001rdddddrrrr'' ''eor r, r'' 1,
    opcode_t (Alu OP_OR) ''001010rdddddrrrr'' ''or r, r'' 1,
    opcode_t (Alu OP_SBC) ''000010rdddddrrrr'' ''sbc r, r'' 1,
    opcode_t (Alu OP_SUB) ''000110rdddddrrrr'' ''sub r, r'' 1,
    opcode_t (Alu OP_ANDI) ''0111KKKKddddKKKK'' ''andi d, M'' 1,
    opcode_t (Alu OP_LDI) ''1110KKKKddddKKKK'' ''ldi d, M'' 1,
    opcode_t (Alu OP_ORI) ''0110KKKKddddKKKK'' ''ori d, M'' 1,
    opcode_t (Alu OP_CPI) ''0011KKKKddddKKKK'' ''cpi d, M'' 1,
    opcode_t (Alu OP_SBCI) ''0100KKKKddddKKKK'' ''sbci d, M'' 1,
    opcode_t (Alu OP_SUBI) ''0101KKKKddddKKKK'' ''subi d, M'' 1,
    opcode_t (Bit OP_SBRC) ''1111110rrrrr0sss'' ''sbrc r, s'' 1,
    opcode_t (Bit OP_SBRS) ''1111111rrrrr0sss'' ''sbrs r, s'' 1,
    opcode_t (Bit OP_BLD) ''1111100ddddd0sss'' ''bld r, s'' 1,
    opcode_t (Bit OP_BST) ''1111101ddddd0sss'' ''bst r, s'' 1,
    opcode_t (Bit OP_IN) ''10110PPdddddPPPP'' ''in r, P'' 1,
    opcode_t (Bit OP_OUT) ''10111PPrrrrrPPPP'' ''out P, r'' 1,
    opcode_t (Bit OP_ADIW) ''10010110KKddKKKK'' ''adiw w, K'' 1,
    opcode_t (Bit OP_SBIW) ''10010111KKddKKKK'' ''sbiw w, K'' 1,
    opcode_t (Bit OP_CBI) ''10011000pppppsss'' ''cbi p, s'' 1,
    opcode_t (Bit OP_SBI) ''10011010pppppsss'' ''sbi p, s'' 1,
    opcode_t (Bit OP_SBIC) ''10011001pppppsss'' ''sbic p, s'' 1,
    opcode_t (Bit OP_SBIS) ''10011011pppppsss'' ''sbis p, s'' 1,
    opcode_t (Br OP_BRCC) ''111101lllllll000'' ''brcc l'' 1,
    opcode_t (Br OP_BRCS) ''111100lllllll000'' ''brcs l'' 1,
    opcode_t (Br OP_BREQ) ''111100lllllll001'' ''breq l'' 1,
    opcode_t (Br OP_BRGE) ''111101lllllll100'' ''brge l'' 1,
    opcode_t (Br OP_BRHC) ''111101lllllll101'' ''brhc l'' 1,
    opcode_t (Br OP_BRHS) ''111100lllllll101'' ''brhs l'' 1,
    opcode_t (Br OP_BRID) ''111101lllllll111'' ''brid l'' 1,
    opcode_t (Br OP_BRIE) ''111100lllllll111'' ''brie l'' 1,
    opcode_t (Br OP_BRLT) ''111100lllllll100'' ''brlt l'' 1,
    opcode_t (Br OP_BRMI) ''111100lllllll010'' ''brmi l'' 1,
    opcode_t (Br OP_BRNE) ''111101lllllll001'' ''brne l'' 1,
    opcode_t (Br OP_BRPL) ''111101lllllll010'' ''brpl l'' 1,
    opcode_t (Br OP_BRTC) ''111101lllllll110'' ''brtc l'' 1,
    opcode_t (Br OP_BRTS) ''111100lllllll110'' ''brts l'' 1,
    opcode_t (Br OP_BRVC) ''111101lllllll011'' ''brvc l'' 1,
    opcode_t (Br OP_BRVS) ''111100lllllll011'' ''brvs l'' 1,
    opcode_t (Jmp OP_RCALL) ''1101LLLLLLLLLLLL'' ''rcall L'' 1,
    opcode_t (Jmp OP_RJMP) ''1100LLLLLLLLLLLL'' ''rjmp L'' 1,
    opcode_t (Jmp OP_CALL) ''1001010hhhhh111h'' ''call h'' 2,
    opcode_t (Jmp OP_JMP) ''1001010hhhhh110h'' ''jmp h'' 2,
    opcode_t (Reg OP_ASR) ''1001010rrrrr0101'' ''asr r'' 1,
    opcode_t (Reg OP_COM) ''1001010rrrrr0000'' ''com r'' 1,
    opcode_t (Reg OP_DEC) ''1001010rrrrr1010'' ''dec r'' 1,
    opcode_t (Reg OP_INC) ''1001010rrrrr0011'' ''inc r'' 1,
    opcode_t (Reg OP_LSR) ''1001010rrrrr0110'' ''lsr r'' 1,
    opcode_t (Reg OP_NEG) ''1001010rrrrr0001'' ''neg r'' 1,
    opcode_t (Reg OP_POP) ''1001000rrrrr1111'' ''pop r'' 1,
    opcode_t (Reg OP_PUSH) ''1001001rrrrr1111'' ''push r'' 1,
    opcode_t (Reg OP_ROR) ''1001010rrrrr0111'' ''ror r'' 1,
    opcode_t (Reg OP_SWAP) ''1001010rrrrr0010'' ''swap r'' 1,
    opcode_t (Reg OP_MOV) ''001011rdddddrrrr'' ''mov r, r'' 1,
    opcode_t (Reg OP_MOVW) ''00000001ddddrrrr'' ''movw v, v'' 1,
    opcode_t (Reg OP_MUL) ''100111rdddddrrrr'' ''mul r, r'' 1,
    opcode_t (Reg OP_MULS) ''00000010ddddrrrr'' ''muls d, d'' 1,
    opcode_t (Reg OP_MULSU) ''000000110ddd0rrr'' ''mulsu a, a'' 1,
    opcode_t (Mem OP_STS) ''1001001ddddd0000'' ''sts i, r'' 2,
    opcode_t (Mem OP_LDS) ''1001000ddddd0000'' ''lds r, i'' 2,
    opcode_t (Mem OP_ST_X) ''1001001rrrrr1100'' ''st x, r'' 1,
    opcode_t (Mem OP_ST_X_POST_INC) ''1001001rrrrr1101'' ''st x+, r'' 1,
    opcode_t (Mem OP_ST_X_PRE_DEC) ''1001001rrrrr1110'' ''st -x, r'' 1,
    opcode_t (Mem OP_ST_Y) ''1000001rrrrr1000'' ''st y, r'' 1,
    opcode_t (Mem OP_ST_Y_POST_INC) ''1001001rrrrr1001'' ''st y+, r'' 1,
    opcode_t (Mem OP_ST_Y_PRE_DEC) ''1001001rrrrr1010'' ''st -y, r'' 1,
    opcode_t (Mem OP_STD_Y) ''10q0qq1rrrrr1qqq'' ''std y, r'' 1,
    opcode_t (Mem OP_ST_Z) ''1000001rrrrr0000'' ''st z, r'' 1,
    opcode_t (Mem OP_ST_Z_POST_INC) ''1001001rrrrr0001'' ''st z+, r'' 1,
    opcode_t (Mem OP_ST_Z_PRE_DEC) ''1001001rrrrr0010'' ''st -z, r'' 1,
    opcode_t (Mem OP_STD_Z) ''10q0qq1rrrrr0qqq'' ''std z, r'' 1,
    opcode_t (Mem OP_LD_X) ''1001000ddddd1100'' ''ld x, r'' 1,
    opcode_t (Mem OP_LD_X_POST_INC) ''1001000ddddd1101'' ''ld x+, r'' 1,
    opcode_t (Mem OP_LD_X_PRE_DEC) ''1001000ddddd1110'' ''ld -x, r'' 1,
    opcode_t (Mem OP_LD_Y) ''1000000ddddd1000'' ''ld y, r'' 1,
    opcode_t (Mem OP_LD_Y_POST_INC) ''1001000ddddd1001'' ''ld y+, r'' 1,
    opcode_t (Mem OP_LD_Y_PRE_DEC) ''1001000ddddd1010'' ''ld -y, r'' 1,
    opcode_t (Mem OP_LDD_Y) ''10q0qq0ddddd1qqq'' ''ldd y, r'' 1,
    opcode_t (Mem OP_LD_Z) ''1000000ddddd0000'' ''ld z, r'' 1,
    opcode_t (Mem OP_LD_Z_POST_INC) ''1001000ddddd0001'' ''ld z+, r'' 1,
    opcode_t (Mem OP_LD_Z_PRE_DEC) ''1001000ddddd0010'' ''ld -z, r'' 1,
    opcode_t (Mem OP_LDD_Z) ''10q0qq0ddddd0qqq'' ''ldd Rd, z+q'' 1,
    opcode_t (Mem OP_LPM) ''1001010111001000'' ''lpm'' 1,
    opcode_t (Mem OP_LPM_R) ''1001000ddddd0100'' ''lpm Rd, Z'' 1,
    opcode_t (Mem OP_LPM_R_POST_INC) ''1001000ddddd0101'' ''lpm Rd, Z+'' 1,
    opcode_t (Mem OP_EICALL) ''1001010100011001'' ''eicall'' 1,
    opcode_t (Mem OP_EIJMP) ''1001010000011001'' ''eijmp'' 1,
    opcode_t (Fake OP_FAKE_UDR_OUT) ''00000000001rrrrr'' ''fake_udr_out'' 1,
    opcode_t (Fake OP_FAKE_DEBUG) ''0000000001rrraaa'' ''fake_debug'' 1,
    opcode_t (Fake OP_FAKE_SIGNAL) ''0000000010000000'' ''fake_signal'' 1,
    opcode_t (Fake OP_UNKNOWN) ''xxxxxxxxxxxxxxxx'' ''unknown'' 0]"

text \<open>
  \<open>InitDll\<close>: a character of the pattern that is a binary digit contributes its bit to the mask, and
  its value to the pattern, at the position counted down from 15.
\<close>

definition is_binary :: "char \<Rightarrow> bool" where
  "is_binary c \<longleftrightarrow> (let diff = int (of_char c) - 48 in diff \<ge> 0 \<and> diff \<le> 1)"

fun init_bits :: "string \<Rightarrow> nat \<Rightarrow> u16 \<Rightarrow> u16 \<Rightarrow> u16 \<times> u16" where
  "init_bits [] j msk pattern = (msk, pattern)"
| "init_bits (c # cs) j msk pattern =
     (if is_binary c
      then init_bits cs (j - 1) (msk OR push_bit j 1)
             (pattern OR push_bit j (of_int (int (of_char c) - 48)))
      else init_bits cs (j - 1) msk pattern)"

definition InitDll :: "(u16 \<times> u16) list" where
  "InitDll = map (\<lambda>e. init_bits (take 16 (o_op e)) 15 0 0)
     (takeWhile (\<lambda>e. o_opcode e \<noteq> Fake OP_UNKNOWN) instructions)"

section \<open>Decoding\<close>

text \<open>
  \<open>while (((instruction & masks[i]) != patterns[i]) && (++i != OP_UNKNOWN));\<close> walks the tables from
  index \<open>i\<close>; when no entry matches, the index it returns is that of \<open>OP_UNKNOWN\<close>.
\<close>

fun decode_from :: "(u16 \<times> u16) list \<Rightarrow> nat \<Rightarrow> u16 \<Rightarrow> nat" where
  "decode_from [] i w = i"
| "decode_from ((msk, pattern) # ts) i w =
     (if w AND msk \<noteq> pattern then decode_from ts (Suc i) w else i)"

definition DecodeInstruction :: "u16 \<Rightarrow> nat" where
  "DecodeInstruction w = decode_from InitDll 0 w"

definition decode_op :: "u16 \<Rightarrow> AVR_OPCODE" where
  "decode_op w = o_opcode (instructions ! DecodeInstruction w)"

definition decode_size :: "u16 \<Rightarrow> nat" where
  "decode_size w = o_size (instructions ! DecodeInstruction w)"

section \<open>The table is the enumeration\<close>

text \<open>Row \<open>i\<close> of the table is the row of enumerator \<open>i\<close>, so \<open>assert(opcode == index)\<close> of \<open>Decode\<close> holds.\<close>

definition avr_opcodes :: "AVR_OPCODE list" where
  "avr_opcodes =
     map Flag [OP_CLC, OP_CLH, OP_CLI, OP_CLN, OP_CLS, OP_CLT, OP_CLV, OP_CLZ, OP_SEC, OP_SEH, OP_SEI, OP_SEN, OP_SES, OP_SET, OP_SEV, OP_SEZ]
     @ map Ctl [OP_ICALL, OP_IJMP, OP_NOP, OP_RET, OP_RETI, OP_SLEEP, OP_BREAK, OP_WDR, OP_SPM]
     @ map Alu [OP_ADC, OP_ADD, OP_AND, OP_CP, OP_CPC, OP_CPSE, OP_EOR, OP_OR, OP_SBC, OP_SUB, OP_ANDI, OP_LDI, OP_ORI, OP_CPI, OP_SBCI, OP_SUBI]
     @ map Bit [OP_SBRC, OP_SBRS, OP_BLD, OP_BST, OP_IN, OP_OUT, OP_ADIW, OP_SBIW, OP_CBI, OP_SBI, OP_SBIC, OP_SBIS]
     @ map Br [OP_BRCC, OP_BRCS, OP_BREQ, OP_BRGE, OP_BRHC, OP_BRHS, OP_BRID, OP_BRIE, OP_BRLT, OP_BRMI, OP_BRNE, OP_BRPL, OP_BRTC, OP_BRTS, OP_BRVC, OP_BRVS]
     @ map Jmp [OP_RCALL, OP_RJMP, OP_CALL, OP_JMP]
     @ map Reg [OP_ASR, OP_COM, OP_DEC, OP_INC, OP_LSR, OP_NEG, OP_POP, OP_PUSH, OP_ROR, OP_SWAP, OP_MOV, OP_MOVW, OP_MUL, OP_MULS, OP_MULSU]
     @ map Mem [OP_STS, OP_LDS, OP_ST_X, OP_ST_X_POST_INC, OP_ST_X_PRE_DEC, OP_ST_Y, OP_ST_Y_POST_INC, OP_ST_Y_PRE_DEC, OP_STD_Y, OP_ST_Z, OP_ST_Z_POST_INC, OP_ST_Z_PRE_DEC, OP_STD_Z, OP_LD_X, OP_LD_X_POST_INC, OP_LD_X_PRE_DEC, OP_LD_Y, OP_LD_Y_POST_INC, OP_LD_Y_PRE_DEC, OP_LDD_Y, OP_LD_Z, OP_LD_Z_POST_INC, OP_LD_Z_PRE_DEC, OP_LDD_Z, OP_LPM, OP_LPM_R, OP_LPM_R_POST_INC, OP_EICALL, OP_EIJMP]
     @ map Fake [OP_FAKE_UDR_OUT, OP_FAKE_DEBUG, OP_FAKE_SIGNAL, OP_UNKNOWN]"

lemma instructions_enum: "map o_opcode instructions = avr_opcodes"
  by (simp add: instructions_def avr_opcodes_def)

lemma length_instructions [simp]: "length instructions = 121"
  by (simp add: instructions_def)

lemma distinct_avr_opcodes: "distinct avr_opcodes"
  by (simp add: avr_opcodes_def)

lemma instructions_opcode: "i < 121 \<Longrightarrow> o_opcode (instructions ! i) = avr_opcodes ! i"
  using instructions_enum by (metis length_instructions nth_map)

lemma length_avr_opcodes [simp]: "length avr_opcodes = 121"
  using arg_cong [OF instructions_enum, of length] by simp

lemma avr_opcodes_nth_eq:
  "i < 121 \<Longrightarrow> k < 121 \<Longrightarrow> avr_opcodes ! i = avr_opcodes ! k \<longleftrightarrow> i = k"
  by (simp add: nth_eq_iff_index_eq [OF distinct_avr_opcodes])

lemma instruction_sizes: "n \<in> set (map o_size instructions) \<Longrightarrow> n \<le> 2"
  by (auto simp: instructions_def)

section \<open>The masks and patterns\<close>

lemma is_binary_chars:
  "is_binary CHR ''0''" "is_binary CHR ''1''" "\<not> is_binary CHR ''r''" "\<not> is_binary CHR ''d''"
  "\<not> is_binary CHR ''K''" "\<not> is_binary CHR ''s''" "\<not> is_binary CHR ''P''"
  "\<not> is_binary CHR ''p''" "\<not> is_binary CHR ''l''" "\<not> is_binary CHR ''L''"
  "\<not> is_binary CHR ''h''" "\<not> is_binary CHR ''q''" "\<not> is_binary CHR ''a''"
  by (simp_all add: is_binary_def)

lemma init_bits_digit:
  "init_bits (CHR ''0'' # cs) j m p = init_bits cs (j - 1) (m OR push_bit j 1) p"
  "init_bits (CHR ''1'' # cs) j m p = init_bits cs (j - 1) (m OR push_bit j 1) (p OR push_bit j 1)"
  "\<not> is_binary c \<Longrightarrow> init_bits (c # cs) j m p = init_bits cs (j - 1) m p"
  by (simp_all add: is_binary_chars)

lemma init_rows_known:
  "takeWhile (\<lambda>e. o_opcode e \<noteq> Fake OP_UNKNOWN) instructions = take 120 instructions"
  by (simp add: instructions_def)

definition mask_table :: "(u16 \<times> u16) list" where
  "mask_table =
    [(65535, 38024), (65535, 38104), (65535, 38136), (65535, 38056), (65535, 38088),
     (65535, 38120), (65535, 38072), (65535, 38040), (65535, 37896), (65535, 37976),
     (65535, 38008), (65535, 37928), (65535, 37960), (65535, 37992), (65535, 37944),
     (65535, 37912), (65535, 38153), (65535, 37897), (65535, 0), (65535, 38152),
     (65535, 38168), (65535, 38280), (65535, 38296), (65535, 38312), (65535, 38376),
     (64512, 7168), (64512, 3072), (64512, 8192), (64512, 5120), (64512, 1024),
     (64512, 4096), (64512, 9216), (64512, 10240), (64512, 2048), (64512, 6144),
     (61440, 28672), (61440, 57344), (61440, 24576), (61440, 12288), (61440, 16384),
     (61440, 20480), (65032, 64512), (65032, 65024), (65032, 63488), (65032, 64000),
     (63488, 45056), (63488, 47104), (65280, 38400), (65280, 38656), (65280, 38912),
     (65280, 39424), (65280, 39168), (65280, 39680), (64519, 62464), (64519, 61440),
     (64519, 61441), (64519, 62468), (64519, 62469), (64519, 61445), (64519, 62471),
     (64519, 61447), (64519, 61444), (64519, 61442), (64519, 62465), (64519, 62466),
     (64519, 62470), (64519, 61446), (64519, 62467), (64519, 61443), (61440, 53248),
     (61440, 49152), (65038, 37902), (65038, 37900), (65039, 37893), (65039, 37888),
     (65039, 37898), (65039, 37891), (65039, 37894), (65039, 37889), (65039, 36879),
     (65039, 37391), (65039, 37895), (65039, 37890), (64512, 11264), (65280, 256),
     (64512, 39936), (65280, 512), (65416, 768), (65039, 37376), (65039, 36864),
     (65039, 37388), (65039, 37389), (65039, 37390), (65039, 33288), (65039, 37385),
     (65039, 37386), (53768, 33288), (65039, 33280), (65039, 37377), (65039, 37378),
     (53768, 33280), (65039, 36876), (65039, 36877), (65039, 36878), (65039, 32776),
     (65039, 36873), (65039, 36874), (53768, 32776), (65039, 32768), (65039, 36865),
     (65039, 36866), (53768, 32768), (65535, 38344), (65039, 36868), (65039, 36869),
     (65535, 38169), (65535, 37913), (65504, 32), (65472, 64), (65535, 128)]"

lemma length_mask_table [simp]: "length mask_table = 120"
  by (simp add: mask_table_def)

lemma InitDll_table: "InitDll = mask_table"
  unfolding InitDll_def init_rows_known mask_table_def instructions_def
  apply (simp only: take_Suc_Cons take0 numeral_eq_Suc pred_numeral_simps list.map opcode_t.sel)
  apply (simp add: init_bits_digit is_binary_chars del: init_bits.simps(2))
  done

section \<open>The search is exact\<close>

definition matches :: "u16 \<Rightarrow> u16 \<times> u16 \<Rightarrow> bool" where
  "matches w e \<longleftrightarrow> w AND fst e = snd e"

lemma decode_from_first:
  assumes "n < length ts" "matches w (ts ! n)" "\<And>k. k < n \<Longrightarrow> \<not> matches w (ts ! k)"
  shows "decode_from ts i w = i + n"
  using assms
proof (induction ts i w arbitrary: n rule: decode_from.induct)
  case (1 i w)
  then show ?case by simp
next
  case (2 m p ts i w)
  show ?case
  proof (cases n)
    case 0
    with "2.prems"(2) show ?thesis by (simp add: matches_def)
  next
    case (Suc n')
    have head: "w AND m \<noteq> p"
      using "2.prems"(3) [of 0] Suc by (simp add: matches_def)
    have "\<not> matches w (ts ! k)" if "k < n'" for k
      using "2.prems"(3) [of "Suc k"] that Suc by simp
    then have "decode_from ts (Suc i) w = Suc i + n'"
      using "2.IH" [OF head, of n'] "2.prems" Suc by simp
    with head Suc show ?thesis by simp
  qed
qed

lemma decode_from_none:
  "(\<And>e. e \<in> set ts \<Longrightarrow> \<not> matches w e) \<Longrightarrow> decode_from ts i w = i + length ts"
proof (induction ts arbitrary: i)
  case Nil
  then show ?case by simp
next
  case (Cons e ts)
  then have "\<not> matches w e" by simp
  with Cons show ?case by (cases e) (simp add: matches_def)
qed

lemma DecodeInstruction_first:
  assumes "n < 120" "matches w (mask_table ! n)" "\<And>k. k < n \<Longrightarrow> \<not> matches w (mask_table ! k)"
  shows "DecodeInstruction w = n"
  using decode_from_first [of n mask_table w 0] assms
  by (simp add: DecodeInstruction_def InitDll_table)

lemma DecodeInstruction_none:
  "(\<And>k. k < 120 \<Longrightarrow> \<not> matches w (mask_table ! k)) \<Longrightarrow> DecodeInstruction w = 120"
  using decode_from_none [of mask_table w 0]
  by (fastforce simp: DecodeInstruction_def InitDll_table in_set_conv_nth)

lemma DecodeInstruction_cases:
  obtains (row) "DecodeInstruction w < 120" "matches w (mask_table ! DecodeInstruction w)"
      "\<And>k. k < DecodeInstruction w \<Longrightarrow> \<not> matches w (mask_table ! k)"
  | (unknown) "DecodeInstruction w = 120" "\<And>k. k < 120 \<Longrightarrow> \<not> matches w (mask_table ! k)"
proof (cases "\<exists>k < 120. matches w (mask_table ! k)")
  case False
  then show ?thesis using DecodeInstruction_none unknown by blast
next
  case True
  define n where "n = (LEAST k. matches w (mask_table ! k))"
  from True obtain k where k: "k < 120" "matches w (mask_table ! k)" by blast
  have "n \<le> k" "matches w (mask_table ! n)"
    unfolding n_def using k(2) by (rule Least_le, rule LeastI [where k = k])
  moreover have least: "\<not> matches w (mask_table ! k)" if "k < n" for k
    using that unfolding n_def by (rule not_less_Least)
  ultimately show ?thesis
    using DecodeInstruction_first [of n w] k least row by fastforce
qed

lemma DecodeInstruction_bound [simp]: "DecodeInstruction w \<le> 120" "DecodeInstruction w < 121"
  by (cases w rule: DecodeInstruction_cases; simp)+

lemma decode_size_bound [simp]: "decode_size w \<le> 2"
  by (rule instruction_sizes) (simp add: decode_size_def)

text \<open>
  Two rows clash when they require different values of a bit that both look at: no word matches
  both. All pairs of rows clash but the four of \<open>shadow\<close>, listed as (later, earlier) row.
\<close>

definition clash :: "u16 \<times> u16 \<Rightarrow> u16 \<times> u16 \<Rightarrow> bool" where
  "clash e f \<longleftrightarrow> (snd e XOR snd f) AND fst e AND fst f \<noteq> 0"

definition shadow :: "(nat \<times> nat) list" where
  "shadow = [(96, 93), (100, 97), (107, 104), (111, 108)]"

lemma clash_disjoint:
  assumes "clash e f" "matches w e" shows "\<not> matches w f"
proof
  assume "matches w f"
  with assms(2) have e: "snd e = w AND fst e" and f: "snd f = w AND fst f"
    by (simp_all add: matches_def)
  have "(snd e XOR snd f) AND fst e AND fst f = 0"
    unfolding e f by (rule bit_word_eqI) (auto simp: bit_simps)
  with assms(1) show False by (simp add: clash_def)
qed

lemma mask_rows:
  "mask_table ! 0 = (65535, 38024)"
  "mask_table ! 1 = (65535, 38104)"
  "mask_table ! 2 = (65535, 38136)"
  "mask_table ! 3 = (65535, 38056)"
  "mask_table ! 4 = (65535, 38088)"
  "mask_table ! 5 = (65535, 38120)"
  "mask_table ! 6 = (65535, 38072)"
  "mask_table ! 7 = (65535, 38040)"
  "mask_table ! 8 = (65535, 37896)"
  "mask_table ! 9 = (65535, 37976)"
  "mask_table ! 10 = (65535, 38008)"
  "mask_table ! 11 = (65535, 37928)"
  "mask_table ! 12 = (65535, 37960)"
  "mask_table ! 13 = (65535, 37992)"
  "mask_table ! 14 = (65535, 37944)"
  "mask_table ! 15 = (65535, 37912)"
  "mask_table ! 16 = (65535, 38153)"
  "mask_table ! 17 = (65535, 37897)"
  "mask_table ! 18 = (65535, 0)"
  "mask_table ! 19 = (65535, 38152)"
  "mask_table ! 20 = (65535, 38168)"
  "mask_table ! 21 = (65535, 38280)"
  "mask_table ! 22 = (65535, 38296)"
  "mask_table ! 23 = (65535, 38312)"
  "mask_table ! 24 = (65535, 38376)"
  "mask_table ! 25 = (64512, 7168)"
  "mask_table ! 26 = (64512, 3072)"
  "mask_table ! 27 = (64512, 8192)"
  "mask_table ! 28 = (64512, 5120)"
  "mask_table ! 29 = (64512, 1024)"
  "mask_table ! 30 = (64512, 4096)"
  "mask_table ! 31 = (64512, 9216)"
  "mask_table ! 32 = (64512, 10240)"
  "mask_table ! 33 = (64512, 2048)"
  "mask_table ! 34 = (64512, 6144)"
  "mask_table ! 35 = (61440, 28672)"
  "mask_table ! 36 = (61440, 57344)"
  "mask_table ! 37 = (61440, 24576)"
  "mask_table ! 38 = (61440, 12288)"
  "mask_table ! 39 = (61440, 16384)"
  "mask_table ! 40 = (61440, 20480)"
  "mask_table ! 41 = (65032, 64512)"
  "mask_table ! 42 = (65032, 65024)"
  "mask_table ! 43 = (65032, 63488)"
  "mask_table ! 44 = (65032, 64000)"
  "mask_table ! 45 = (63488, 45056)"
  "mask_table ! 46 = (63488, 47104)"
  "mask_table ! 47 = (65280, 38400)"
  "mask_table ! 48 = (65280, 38656)"
  "mask_table ! 49 = (65280, 38912)"
  "mask_table ! 50 = (65280, 39424)"
  "mask_table ! 51 = (65280, 39168)"
  "mask_table ! 52 = (65280, 39680)"
  "mask_table ! 53 = (64519, 62464)"
  "mask_table ! 54 = (64519, 61440)"
  "mask_table ! 55 = (64519, 61441)"
  "mask_table ! 56 = (64519, 62468)"
  "mask_table ! 57 = (64519, 62469)"
  "mask_table ! 58 = (64519, 61445)"
  "mask_table ! 59 = (64519, 62471)"
  "mask_table ! 60 = (64519, 61447)"
  "mask_table ! 61 = (64519, 61444)"
  "mask_table ! 62 = (64519, 61442)"
  "mask_table ! 63 = (64519, 62465)"
  "mask_table ! 64 = (64519, 62466)"
  "mask_table ! 65 = (64519, 62470)"
  "mask_table ! 66 = (64519, 61446)"
  "mask_table ! 67 = (64519, 62467)"
  "mask_table ! 68 = (64519, 61443)"
  "mask_table ! 69 = (61440, 53248)"
  "mask_table ! 70 = (61440, 49152)"
  "mask_table ! 71 = (65038, 37902)"
  "mask_table ! 72 = (65038, 37900)"
  "mask_table ! 73 = (65039, 37893)"
  "mask_table ! 74 = (65039, 37888)"
  "mask_table ! 75 = (65039, 37898)"
  "mask_table ! 76 = (65039, 37891)"
  "mask_table ! 77 = (65039, 37894)"
  "mask_table ! 78 = (65039, 37889)"
  "mask_table ! 79 = (65039, 36879)"
  "mask_table ! 80 = (65039, 37391)"
  "mask_table ! 81 = (65039, 37895)"
  "mask_table ! 82 = (65039, 37890)"
  "mask_table ! 83 = (64512, 11264)"
  "mask_table ! 84 = (65280, 256)"
  "mask_table ! 85 = (64512, 39936)"
  "mask_table ! 86 = (65280, 512)"
  "mask_table ! 87 = (65416, 768)"
  "mask_table ! 88 = (65039, 37376)"
  "mask_table ! 89 = (65039, 36864)"
  "mask_table ! 90 = (65039, 37388)"
  "mask_table ! 91 = (65039, 37389)"
  "mask_table ! 92 = (65039, 37390)"
  "mask_table ! 93 = (65039, 33288)"
  "mask_table ! 94 = (65039, 37385)"
  "mask_table ! 95 = (65039, 37386)"
  "mask_table ! 96 = (53768, 33288)"
  "mask_table ! 97 = (65039, 33280)"
  "mask_table ! 98 = (65039, 37377)"
  "mask_table ! 99 = (65039, 37378)"
  "mask_table ! 100 = (53768, 33280)"
  "mask_table ! 101 = (65039, 36876)"
  "mask_table ! 102 = (65039, 36877)"
  "mask_table ! 103 = (65039, 36878)"
  "mask_table ! 104 = (65039, 32776)"
  "mask_table ! 105 = (65039, 36873)"
  "mask_table ! 106 = (65039, 36874)"
  "mask_table ! 107 = (53768, 32776)"
  "mask_table ! 108 = (65039, 32768)"
  "mask_table ! 109 = (65039, 36865)"
  "mask_table ! 110 = (65039, 36866)"
  "mask_table ! 111 = (53768, 32768)"
  "mask_table ! 112 = (65535, 38344)"
  "mask_table ! 113 = (65039, 36868)"
  "mask_table ! 114 = (65039, 36869)"
  "mask_table ! 115 = (65535, 38169)"
  "mask_table ! 116 = (65535, 37913)"
  "mask_table ! 117 = (65504, 32)"
  "mask_table ! 118 = (65472, 64)"
  "mask_table ! 119 = (65535, 128)"
  by (simp_all add: mask_table_def)

lemmas mask_rows_num = mask_rows mask_rows(2) [unfolded One_nat_def]

fun row_ok :: "nat \<Rightarrow> nat \<Rightarrow> bool" where
  "row_ok j n = (if n = 0 then True
     else (if clash (mask_table ! (n - 1)) (mask_table ! j) then row_ok j (n - 1)
           else (j, n - 1) \<in> set shadow \<and> row_ok j (n - 1)))"

fun pairs_ok :: "nat \<Rightarrow> nat \<Rightarrow> bool" where
  "pairs_ok b n = (if n \<le> b then True else row_ok (n - 1) (n - 1) \<and> pairs_ok b (n - 1))"

declare row_ok.simps [simp del] pairs_ok.simps [simp del]

lemma row_ok_nth:
  "row_ok j n \<Longrightarrow> i < n \<Longrightarrow> clash (mask_table ! i) (mask_table ! j) \<or> (j, i) \<in> set shadow"
proof (induction n)
  case 0
  then show ?case by simp
next
  case (Suc n)
  then show ?case
    by (subst (asm) row_ok.simps) (auto simp: less_Suc_eq split: if_splits)
qed

lemma pairs_ok_nth:
  "pairs_ok b n \<Longrightarrow> b \<le> j \<Longrightarrow> j < n \<Longrightarrow> i < j \<Longrightarrow>
   clash (mask_table ! i) (mask_table ! j) \<or> (j, i) \<in> set shadow"
proof (induction n)
  case 0
  then show ?case by simp
next
  case (Suc n)
  then show ?case
    by (subst (asm) pairs_ok.simps) (auto simp: less_Suc_eq dest: row_ok_nth split: if_splits)
qed

lemmas pairs_eval = mask_rows_num row_ok.simps pairs_ok.simps clash_def shadow_def

lemma pairs_ok_60: "pairs_ok 0 60" by (simp add: pairs_eval)
lemma pairs_ok_85: "pairs_ok 60 85" by (simp add: pairs_eval)
lemma pairs_ok_104: "pairs_ok 85 104" by (simp add: pairs_eval)
lemma pairs_ok_120: "pairs_ok 104 120" by (simp add: pairs_eval)

lemma mask_table_pairs:
  assumes "i < j" "j < 120"
  shows "clash (mask_table ! i) (mask_table ! j) \<or> (j, i) \<in> set shadow"
  using pairs_ok_nth [OF pairs_ok_60, of j i] pairs_ok_nth [OF pairs_ok_85, of j i]
    pairs_ok_nth [OF pairs_ok_104, of j i] pairs_ok_nth [OF pairs_ok_120, of j i] assms
  by linarith

lemma rows_disjoint:
  assumes "i < j" "j < 120" "matches w (mask_table ! i)" "matches w (mask_table ! j)"
  shows "(j, i) \<in> set shadow"
proof -
  have "clash (mask_table ! i) (mask_table ! j) \<or> (j, i) \<in> set shadow"
    using assms(1,2) by (rule mask_table_pairs)
  then show ?thesis using clash_disjoint assms(3,4) by blast
qed

lemma DecodeInstruction_row:
  assumes "i < 120" "matches w (mask_table ! i)"
    "\<And>k. (i, k) \<in> set shadow \<Longrightarrow> \<not> matches w (mask_table ! k)"
  shows "DecodeInstruction w = i"
  using assms(1,2)
proof (rule DecodeInstruction_first)
  fix k assume "k < i"
  then show "\<not> matches w (mask_table ! k)"
    using rows_disjoint [of k i w] assms by blast
qed

lemma DecodeInstruction_iff:
  assumes "i < 120"
  shows "DecodeInstruction w = i \<longleftrightarrow>
    matches w (mask_table ! i) \<and> (\<forall>k. (i, k) \<in> set shadow \<longrightarrow> \<not> matches w (mask_table ! k))"
    (is "?L \<longleftrightarrow> ?R")
proof
  assume ?R
  then show ?L using DecodeInstruction_row assms by blast
next
  assume i: ?L
  show ?R
  proof (cases w rule: DecodeInstruction_cases)
    case row
    with i show ?thesis by (auto simp: shadow_def)
  next
    case unknown
    with i assms show ?thesis by simp
  qed
qed

text \<open>
  C10. The decoder is exact: a word decodes to row \<open>i\<close> of the table exactly when it fits the bit
  pattern of row \<open>i\<close> and, if row \<open>i\<close> is a displacement load or store, does not fit the plain
  load or store that precedes it. The order of the table is irrelevant otherwise.
\<close>

theorem decode_exact:
  assumes "i < 120"
  shows "DecodeInstruction w = i \<longleftrightarrow>
     w AND fst (InitDll ! i) = snd (InitDll ! i) \<and>
     (\<forall>k. (i, k) \<in> set [(96, 93), (100, 97), (107, 104), (111, 108)] \<longrightarrow>
          w AND fst (InitDll ! k) \<noteq> snd (InitDll ! k))"
  using DecodeInstruction_iff [OF assms, of w]
  by (simp only: matches_def InitDll_table shadow_def)

text \<open>Witness: word \<open>0x9598\<close> is \<open>break\<close>, and \<open>0x8008\<close> is \<open>ld r0, y\<close>, not \<open>ldd r0, y+0\<close>.\<close>

lemma decode_exact_witness:
  "DecodeInstruction 0x9598 = 22 \<and> DecodeInstruction 0x8008 = 104 \<and> DecodeInstruction 0x8008 \<noteq> 107"
  using decode_exact [of 22 "0x9598"] decode_exact [of 104 "0x8008"]
  by (simp add: InitDll_table mask_rows)

end
