(* ===== verification/Avr_Flash.thy ===== *)
theory Avr_Flash
  imports Avr_Isa
begin

text \<open>
  Program memory: the class \<open>Flash\<close> of \<open>sim/src/mctypes.h\<close> and \<open>AVRCore::Decode\<close> of
  \<open>sim/src/cpu.cpp\<close>, which caches the opcode and size of each word and replaces an \<open>out\<close> to the
  UART data register by the pseudo instruction that hands the byte to the medium. The errors a
  simulator run can end with are declared here as well.
\<close>

section \<open>Errors\<close>

text \<open>
  \<open>OutOfRange\<close> is \<open>std::out_of_range\<close> from \<open>at()\<close>, \<open>InvalidLpmSource\<close> and \<open>UnknownInstruction\<close> are the
  exception classes of \<open>sim/src/cpu.h\<close>, \<open>WrongToken\<close> is the hex parser's \<open>runtime_error\<close>,
  \<open>AssertFailed\<close> a failed \<open>assert\<close>, and \<open>UndefinedBehaviour\<close> an access out of the bounds of an array
  through an unchecked index or pointer.
\<close>

datatype sim_error =
    OutOfRange | InvalidLpmSource | UnknownInstruction u16 | WrongToken | FileNotFound | AssertFailed
  | UndefinedBehaviour

section \<open>The class Flash\<close>

record instruction_t =
  ins_word :: u16
  ins_op :: AVR_OPCODE
  ins_size :: nat

type_synonym flash = "instruction_t list"

text \<open>\<open>i.op = 0\<close> is the first enumerator.\<close>

definition Flash_init :: "nat \<Rightarrow> flash" where
  "Flash_init size_w = replicate size_w \<lparr>ins_word = 0xFFFF, ins_op = Flag OP_CLC, ins_size = 0\<rparr>"

definition Flash_at :: "flash \<Rightarrow> int \<Rightarrow> sim_error + instruction_t" where
  "Flash_at fl i = (if 0 \<le> i \<and> i < int (length fl) then Inr (fl ! nat i) else Inl OutOfRange)"

definition Flash_Store :: "flash \<Rightarrow> u16 \<Rightarrow> u16 \<Rightarrow> sim_error + flash" where
  "Flash_Store fl addr_b w =
     (let i = unat addr_b div 2
      in if i < length fl then Inr (fl[i := (fl ! i)\<lparr>ins_word := w\<rparr>]) else Inl UndefinedBehaviour)"

definition Flash_get_byte :: "flash \<Rightarrow> u16 \<Rightarrow> sim_error + u8" where
  "Flash_get_byte fl addr_b =
     (let i = unat addr_b div 2
      in if i < length fl
         then Inr (if unat addr_b mod 2 = 0 then lo8 (ins_word (fl ! i)) else hi8 (ins_word (fl ! i)))
         else Inl UndefinedBehaviour)"

lemma Flash_at_Inr_iff:
  "Flash_at fl i = Inr c \<longleftrightarrow> 0 \<le> i \<and> i < int (length fl) \<and> c = fl ! nat i"
  by (auto simp: Flash_at_def)

lemma Flash_Store_length: "Flash_Store fl a w = Inr fl' \<Longrightarrow> length fl' = length fl"
  by (auto simp: Flash_Store_def Let_def split: if_splits)

section \<open>Decode\<close>

text \<open>The body of the loop of \<open>Decode\<close> on one cell.\<close>

definition decode_cell :: "instruction_t \<Rightarrow> instruction_t" where
  "decode_cell cell =
     (let instruction = ins_word cell;
          index = DecodeInstruction instruction;
          opcode = o_opcode (instructions ! index);
          size = o_size (instructions ! index);
          r = drop_bit 4 instruction AND 0x1F;
          addr = (instruction AND 0x0F) OR drop_bit 5 (instruction AND 0x600)
      in if opcode = Bit OP_OUT \<and> addr = 0x0C
         then \<lparr>ins_word = 0x0020 OR r, ins_op = Fake OP_FAKE_UDR_OUT, ins_size = size\<rparr>
         else \<lparr>ins_word = instruction, ins_op = opcode, ins_size = size\<rparr>)"

function Decode_loop :: "nat \<Rightarrow> nat \<Rightarrow> flash \<Rightarrow> sim_error + flash" where
  "Decode_loop i end_w fl =
     (if i < end_w
      then (if i < length fl then Decode_loop (Suc i) end_w (fl[i := decode_cell (fl ! i)])
            else Inl OutOfRange)
      else Inr fl)"
  by pat_completeness auto
termination
  by (relation "measure (\<lambda>(i, e, fl). e - i)") auto

definition Decode :: "u16 \<Rightarrow> u16 \<Rightarrow> flash \<Rightarrow> sim_error + flash" where
  "Decode begin_w end_w fl = Decode_loop (unat begin_w) (unat end_w) fl"

declare Decode_loop.simps [simp del]

definition decoded :: "nat \<Rightarrow> nat \<Rightarrow> flash \<Rightarrow> flash" where
  "decoded b e fl =
     map (\<lambda>i. if b \<le> i \<and> i < e then decode_cell (fl ! i) else fl ! i) [0 ..< length fl]"

lemma length_decoded [simp]: "length (decoded b e fl) = length fl"
  by (simp add: decoded_def)

lemma nth_decoded:
  "i < length fl \<Longrightarrow>
   decoded b e fl ! i = (if b \<le> i \<and> i < e then decode_cell (fl ! i) else fl ! i)"
  by (simp add: decoded_def)

lemma Decode_loop_Inr:
  "e \<le> length fl \<Longrightarrow> Decode_loop i e fl = Inr (decoded i e fl)"
proof (induction i e fl rule: Decode_loop.induct)
  case (1 i e fl)
  show ?case
  proof (cases "i < e")
    case False
    then show ?thesis
      by (subst Decode_loop.simps) (auto intro!: nth_equalityI simp: nth_decoded)
  next
    case True
    then have "decoded (Suc i) e (fl[i := decode_cell (fl ! i)]) = decoded i e fl"
      using "1.prems" by (auto intro!: nth_equalityI simp: nth_decoded nth_list_update)
    then show ?thesis
      using True "1.prems" "1.IH" by (subst Decode_loop.simps) simp
  qed
qed

lemma Decode_loop_OutOfRange:
  "i < e \<Longrightarrow> length fl < e \<Longrightarrow> Decode_loop i e fl = Inl OutOfRange"
proof (induction i e fl rule: Decode_loop.induct)
  case (1 i e fl)
  then show ?case by (subst Decode_loop.simps) (cases "Suc i < e"; auto)
qed

lemma Decode_Inr: "unat e \<le> length fl \<Longrightarrow> Decode b e fl = Inr (decoded (unat b) (unat e) fl)"
  by (simp add: Decode_def Decode_loop_Inr)

lemma Decode_length: "Decode b e fl = Inr fl' \<Longrightarrow> length fl' = length fl"
proof (cases "unat e \<le> length fl \<or> unat e \<le> unat b")
  case True
  moreover assume "Decode b e fl = Inr fl'"
  ultimately show ?thesis
    by (auto simp: Decode_def Decode_loop_Inr Decode_loop.simps [of "unat b"] split: if_splits)
next
  case False
  moreover assume "Decode b e fl = Inr fl'"
  ultimately show ?thesis
    using Decode_loop_OutOfRange [of "unat b" "unat e" fl] by (simp add: Decode_def)
qed

text \<open>Cached sizes never exceed two words.\<close>

definition flash_wf :: "flash \<Rightarrow> bool" where
  "flash_wf fl \<longleftrightarrow> (\<forall>cell \<in> set fl. ins_size cell \<le> 2)"

lemma flash_wf_nth: "flash_wf fl \<longleftrightarrow> (\<forall>i < length fl. ins_size (fl ! i) \<le> 2)"
  by (auto simp: flash_wf_def set_conv_nth)

lemma decode_cell_size [simp]: "ins_size (decode_cell cell) \<le> 2"
proof -
  have "o_size (instructions ! DecodeInstruction (ins_word cell)) \<le> 2"
    by (rule instruction_sizes) (simp add: nth_mem)
  then show ?thesis by (simp add: decode_cell_def Let_def)
qed

lemma Flash_init_wf [wf_intros]: "flash_wf (Flash_init n)"
  by (simp add: flash_wf_def Flash_init_def)

lemma Flash_Store_wf [wf_intros]: "Flash_Store fl a w = Inr fl' \<Longrightarrow> flash_wf fl \<Longrightarrow> flash_wf fl'"
  by (auto simp: Flash_Store_def Let_def flash_wf_nth nth_list_update split: if_splits)

lemma Decode_loop_wf: "Decode_loop i e fl = Inr fl' \<Longrightarrow> flash_wf fl \<Longrightarrow> flash_wf fl'"
proof (induction i e fl rule: Decode_loop.induct)
  case (1 i e fl)
  have "flash_wf (fl[i := decode_cell (fl ! i)])"
    using "1.prems"(2) by (cases "i < length fl") (auto simp: flash_wf_nth nth_list_update)
  then show ?case
    using "1.IH" "1.prems" Decode_loop.simps [of i e fl] by (auto split: if_splits)
qed

lemma Decode_wf [wf_intros]: "Decode b e fl = Inr fl' \<Longrightarrow> flash_wf fl \<Longrightarrow> flash_wf fl'"
  unfolding Decode_def by (rule Decode_loop_wf)

section \<open>Decoding twice is decoding once\<close>

lemma decode_udr_word: "DecodeInstruction (0x0020 OR (x AND 0x1F)) = 117"
proof (rule DecodeInstruction_row)
  show "matches (0x0020 OR (x AND 0x1F)) (mask_table ! 117)"
    unfolding matches_def mask_rows fst_conv snd_conv
    by (simp add: bit.conj_disj_distrib2 and.assoc)
qed (simp_all add: shadow_def)

lemma instructions_udr:
  "o_opcode (instructions ! 117) = Fake OP_FAKE_UDR_OUT" "o_size (instructions ! 117) = 1"
  by (simp_all add: instructions_def)

lemma out_row_size:
  "i < 121 \<Longrightarrow> o_opcode (instructions ! i) = Bit OP_OUT \<Longrightarrow> o_size (instructions ! i) = 1"
proof -
  have "list_all (\<lambda>r. o_opcode r = Bit OP_OUT \<longrightarrow> o_size r = 1) instructions"
    by (simp add: instructions_def)
  then show "i < 121 \<Longrightarrow> o_opcode (instructions ! i) = Bit OP_OUT \<Longrightarrow> o_size (instructions ! i) = 1"
    by (simp add: list_all_length)
qed

lemma decode_cell_idem: "decode_cell (decode_cell cell) = decode_cell cell"
proof (cases "o_opcode (instructions ! DecodeInstruction (ins_word cell)) = Bit OP_OUT \<and>
    (ins_word cell AND 0x0F) OR drop_bit 5 (ins_word cell AND 0x600) = 0x0C")
  case True
  then show ?thesis
    using out_row_size [of "DecodeInstruction (ins_word cell)"]
    by (simp add: decode_cell_def Let_def decode_udr_word instructions_udr)
next
  case False
  then show ?thesis by (auto simp: decode_cell_def Let_def)
qed

text \<open>
  Decoding is idempotent, although it rewrites program memory: decoding a range that \<open>Decode\<close>
  has already processed (as \<open>LoadFlash\<close> after a page write, or a second page write with the same
  buffer) leaves words, opcodes and sizes as they are.
\<close>

theorem decode_idempotent:
  assumes "Decode b e fl = Inr fl'"
  shows "Decode b e fl' = Inr fl'"
proof (cases "unat e \<le> length fl")
  case True
  then have fl': "fl' = decoded (unat b) (unat e) fl"
    using assms by (simp add: Decode_Inr)
  have "decoded (unat b) (unat e) fl' = fl'"
    unfolding fl' by (auto intro!: nth_equalityI simp: nth_decoded decode_cell_idem)
  then show ?thesis using True by (simp add: Decode_Inr fl')
next
  case False
  then have "unat e \<le> unat b"
    using assms Decode_loop_OutOfRange [of "unat b" "unat e" fl] by (force simp: Decode_def)
  then show ?thesis
    using assms by (simp add: Decode_def Decode_loop.simps [of "unat b"])
qed

lemma decode_idempotent_witness:
  "Decode 0 2 (decoded 0 2 (Flash_init 2)) = Inr (decoded 0 2 (Flash_init 2))"
  using decode_idempotent [of 0 2 "Flash_init 2" "decoded 0 2 (Flash_init 2)"]
    Decode_Inr [of 2 "Flash_init 2" 0] by (simp add: Flash_init_def)

text \<open>The words that \<open>Decode\<close> takes for an \<open>out\<close> to the UART data register: \<open>1011 100r rrrr 1100\<close>.\<close>

definition udr_out :: "u16 \<Rightarrow> bool" where
  "udr_out w \<longleftrightarrow> w AND 0xFE0F = 0xB80C"

lemma out_row: "i < 121 \<Longrightarrow> o_opcode (instructions ! i) = Bit OP_OUT \<longleftrightarrow> i = 46"
proof -
  have "avr_opcodes ! 46 = Bit OP_OUT" by (simp add: avr_opcodes_def)
  then show "i < 121 \<Longrightarrow> o_opcode (instructions ! i) = Bit OP_OUT \<longleftrightarrow> i = 46"
    using avr_opcodes_nth_eq [of i 46] by (simp add: instructions_opcode)
qed

lemma decode_out: "DecodeInstruction w = 46 \<longleftrightarrow> w AND 0xF800 = 0xB800"
  by (simp add: DecodeInstruction_iff matches_def shadow_def mask_rows)

lemma decode_cell_word:
  "ins_word (decode_cell c) =
     (if udr_out (ins_word c) then 0x0020 OR (drop_bit 4 (ins_word c) AND 0x1F) else ins_word c)"
proof -
  have "udr_out w \<longleftrightarrow> w AND 0xF800 = 0xB800 \<and> (w AND 0x0F) OR drop_bit 5 (w AND 0x600) = 0x0C" for w
    unfolding udr_out_def by (auto simp: word16_bits)
  then show ?thesis
    by (simp add: decode_cell_def Let_def out_row decode_out)
qed

text \<open>
  What \<open>Decode\<close> does to the program image: every word of the range is kept, except those of the
  form \<open>1011 100r rrrr 1100\<close>, which become \<open>0x0020 | r\<close> with \<open>r\<close> the register field. The test looks at
  single words, so it also hits constants and second words of two-word instructions: their bits,
  as \<open>lpm\<close>, \<open>jmp\<close> or \<open>lds\<close> read them later, are no longer those of the loaded program.
\<close>

theorem decode_words:
  assumes "Decode b e fl = Inr fl'" "i < length fl" "unat b \<le> i" "i < unat e"
  shows "ins_word (fl' ! i) =
    (if ins_word (fl ! i) AND 0xFE0F = 0xB80C
     then 0x0020 OR (drop_bit 4 (ins_word (fl ! i)) AND 0x1F) else ins_word (fl ! i))"
proof -
  have "unat e \<le> length fl"
    using assms Decode_loop_OutOfRange [of "unat b" "unat e" fl] by (force simp: Decode_def)
  then show ?thesis
    using assms by (auto simp: Decode_Inr nth_decoded decode_cell_word udr_out_def)
qed

text \<open>Witness: a table word \<open>0xB94C\<close> after a two-word program is changed to \<open>0x0034\<close>.\<close>

definition data_image :: flash where
  "data_image = (Flash_init 3)[2 := \<lparr>ins_word = 0xB94C, ins_op = Flag OP_CLC, ins_size = 0\<rparr>]"

lemma decode_words_witness:
  "ins_word (data_image ! 2) = 0xB94C \<and> ins_word (decoded 0 3 data_image ! 2) = 0x0034"
  using decode_words [of 0 3 data_image "decoded 0 3 data_image" 2] Decode_Inr [of 3 data_image 0]
  by (simp add: data_image_def Flash_init_def)

end
