(* ===== verification/Avr_Core.thy ===== *)
theory Avr_Core
  imports Avr_Flash
begin

text \<open>
  The state of the simulated core: the class \<open>AVRCore\<close> of \<open>sim/src/cpu.h\<close> together with the memories
  it holds references to, its constructor, the accessors that are macros in \<open>sim/src/cpu.cpp\<close>
  (\<open>GR8\<close>, \<open>IO_GR8\<close>, \<open>GR16\<close>, \<open>SREG\<close>, \<open>STACK\<close>, \<open>IndexRegX/Y/Z\<close>), and the three memory services
  \<open>do_spm\<close>, \<open>write_eeprom\<close> and \<open>read_eeprom\<close>.

  Registers, the I/O space, the stack pointer, SREG and the index registers are all windows of
  \<open>sram_\<close>, as they are pointers into it in the code; so a store through \<open>sram_.at\<close> may change
  any of them.
\<close>

section \<open>State\<close>

text \<open>\<open>struct EventList\<close> of \<open>sim/src/event_list.h\<close>.\<close>

record EventList =
  increase_tcnt0 :: bool
  tcnt0_increased :: bool
  increase_tcnt2 :: bool
  tcnt2_increased :: bool
  tx_in_progress :: bool

definition EventList_init :: EventList where
  "EventList_init = \<lparr>increase_tcnt0 = False, tcnt0_increased = False, increase_tcnt2 = False,
     tcnt2_increased = False, tx_in_progress = False\<rparr>"

text \<open>
  What an instruction does outside the core: a byte handed to \<open>MediumState::uart_put_byte\<close>, a call
  of the host's signal handler with the data memory, or a debug line on the console.
\<close>

datatype effect =
    UartPut u8 u8
  | Signal "u8 list"
  | Debug int int "u8 list"

text \<open>
  \<open>c_mstate\<close> and \<open>c_signal\<close> say whether a medium and a signal handler are attached. \<open>c_outs\<close> is the
  list of effects so far, \<open>c_last_pc\<close> the sequence of values pushed to \<open>last_pc_\<close>, a ring buffer
  that is only printed.
\<close>

record core =
  c_mc :: MICROCONTROLLER
  c_flash :: flash
  c_sram :: "u8 list"
  c_eeprom :: "u8 list"
  c_spm_buf :: "u16 list"
  c_pc :: int
  c_cc :: u32
  c_page_size :: nat
  c_dev_addr :: u8
  c_last_pc :: "u16 list"
  c_ev :: EventList
  c_mstate :: bool
  c_signal :: bool
  c_outs :: "effect list"

definition AVRCore_init ::
    "MICROCONTROLLER \<Rightarrow> flash \<Rightarrow> u8 list \<Rightarrow> u8 list \<Rightarrow> nat \<Rightarrow> u8 \<Rightarrow> core" where
  "AVRCore_init mc fl sram eeprom page_size dev_addr =
     \<lparr> c_mc = mc, c_flash = fl, c_sram = sram, c_eeprom = eeprom,
       c_spm_buf = replicate (page_size div 2) 0xFFFF, c_pc = 0, c_cc = 1,
       c_page_size = page_size, c_dev_addr = dev_addr, c_last_pc = replicate 16 0,
       c_ev = EventList_init, c_mstate = False, c_signal = False, c_outs = [] \<rparr>"

text \<open>
  The sizes the constructor of \<open>Microcontroller_Base\<close> gives to the memories, and sizes of
  instructions that come from the table.
\<close>

definition core_wf :: "core \<Rightarrow> bool" where
  "core_wf c \<longleftrightarrow>
     length (c_sram c) = RAMEND (chip_of (c_mc c)) + 1 \<and>
     length (c_eeprom c) = EEPROM_SIZE (chip_of (c_mc c)) \<and>
     length (c_flash c) = FLASH_SIZE (chip_of (c_mc c)) div 2 \<and> flash_wf (c_flash c) \<and>
     c_page_size c = PAGE_SIZE (chip_of (c_mc c)) \<and>
     length (c_spm_buf c) = c_page_size c div 2"

section \<open>Accessors\<close>

definition gr8 :: "core \<Rightarrow> nat \<Rightarrow> u8" where
  "gr8 c n = c_sram c ! n"

definition set_gr8 :: "nat \<Rightarrow> u8 \<Rightarrow> core \<Rightarrow> core" where
  "set_gr8 n v c = c\<lparr>c_sram := (c_sram c)[n := v]\<rparr>"

definition gr16 :: "core \<Rightarrow> nat \<Rightarrow> u16" where
  "gr16 c n = join16 (c_sram c ! n) (c_sram c ! (n + 1))"

definition set_gr16 :: "nat \<Rightarrow> u16 \<Rightarrow> core \<Rightarrow> core" where
  "set_gr16 n w c = c\<lparr>c_sram := (c_sram c)[n := lo8 w, n + 1 := hi8 w]\<rparr>"

text \<open>\<open>IO_GR8(A)\<close>: the I/O space starts at data address \<open>0x20\<close>.\<close>

definition io8 :: "core \<Rightarrow> nat \<Rightarrow> u8" where
  "io8 c A = gr8 c (0x20 + A)"

definition set_io8 :: "nat \<Rightarrow> u8 \<Rightarrow> core \<Rightarrow> core" where
  "set_io8 A v c = set_gr8 (0x20 + A) v c"

definition sreg :: "core \<Rightarrow> u8" where
  "sreg c = gr8 c SREG_ADDR"

definition set_sreg :: "u8 \<Rightarrow> core \<Rightarrow> core" where
  "set_sreg v c = set_gr8 SREG_ADDR v c"

definition stack :: "core \<Rightarrow> u16" where
  "stack c = gr16 c SPL"

definition set_stack :: "u16 \<Rightarrow> core \<Rightarrow> core" where
  "set_stack w c = set_gr16 SPL w c"

abbreviation (input) IndexRegX :: nat where "IndexRegX \<equiv> 26"
abbreviation (input) IndexRegY :: nat where "IndexRegY \<equiv> 28"
abbreviation (input) IndexRegZ :: nat where "IndexRegZ \<equiv> 30"

text \<open>\<open>sram_.at(i)\<close>, read and written; a negative index is a huge \<open>size_t\<close>.\<close>

definition sram_at :: "core \<Rightarrow> int \<Rightarrow> sim_error + u8" where
  "sram_at c i =
     (if 0 \<le> i \<and> i < int (length (c_sram c)) then Inr (c_sram c ! nat i) else Inl OutOfRange)"

definition sram_put :: "int \<Rightarrow> u8 \<Rightarrow> core \<Rightarrow> sim_error + core" where
  "sram_put i v c =
     (if 0 \<le> i \<and> i < int (length (c_sram c)) then Inr (set_gr8 (nat i) v c) else Inl OutOfRange)"

text \<open>\<open>PC = PC + p; CC = CC + n;\<close>\<close>

definition adv :: "int \<Rightarrow> u32 \<Rightarrow> core \<Rightarrow> core" where
  "adv p n c = c\<lparr>c_pc := c_pc c + p, c_cc := c_cc c + n\<rparr>"

definition set_pc :: "int \<Rightarrow> core \<Rightarrow> core" where
  "set_pc p c = c\<lparr>c_pc := p\<rparr>"

definition add_cc :: "u32 \<Rightarrow> core \<Rightarrow> core" where
  "add_cc n c = c\<lparr>c_cc := c_cc c + n\<rparr>"

text \<open>\<open>SREG &= ~msk; SREG |= v;\<close>\<close>

definition update_sreg :: "u8 \<Rightarrow> u8 \<Rightarrow> core \<Rightarrow> core" where
  "update_sreg msk v c = set_sreg ((sreg c AND NOT msk) OR v) c"

text \<open>
  The sequence that pushes a return address: the low byte at the stack pointer, the high byte
  below it, then the pointer is lowered by two. The pointer is read from memory each time.
\<close>

definition push_pc :: "int \<Rightarrow> core \<Rightarrow> sim_error + core" where
  "push_pc ret c =
     bindE (sram_put (uint (stack c)) (word_of_int ret) c)
       (\<lambda>c. bindE (sram_put (uint (stack c) - 1) (word_of_int (ret div 256)) c)
         (\<lambda>c. Inr (set_stack (stack c - 2) c)))"

definition normalize_pc :: "core \<Rightarrow> core" where
  "normalize_pc c =
     (let fsize = int (length (c_flash c))
      in if fsize \<le> c_pc c then set_pc (c_pc c - fsize) c
         else if c_pc c < 0 then set_pc (c_pc c + fsize) c
         else c)"

section \<open>Self-programming and the EEPROM\<close>

text \<open>\<open>page_num\<close> and \<open>word_num\<close> of \<open>do_spm\<close>.\<close>

fun spm_page :: "MICROCONTROLLER \<Rightarrow> u16 \<Rightarrow> nat" where
  "spm_page MC_ATMEGA8 z = unat (drop_bit 6 z AND 0x7F)"
| "spm_page MC_ATMEGA16 z = unat (drop_bit 7 z AND 0x7F)"

fun spm_word :: "MICROCONTROLLER \<Rightarrow> u16 \<Rightarrow> nat" where
  "spm_word MC_ATMEGA8 z = unat (drop_bit 1 z AND 0x1F)"
| "spm_word MC_ATMEGA16 z = unat (drop_bit 1 z AND 0x3F)"

text \<open>The two loops over the words of a page.\<close>

definition page_erase :: "nat \<Rightarrow> nat \<Rightarrow> flash \<Rightarrow> sim_error + flash" where
  "page_erase b e fl =
     (if e \<le> length fl
      then Inr (map (\<lambda>i. if b \<le> i \<and> i < e
        then \<lparr>ins_word = 0xFFFF, ins_op = Fake OP_UNKNOWN, ins_size = 0\<rparr> else fl ! i)
        [0 ..< length fl])
      else Inl UndefinedBehaviour)"

definition page_fill :: "u16 list \<Rightarrow> nat \<Rightarrow> nat \<Rightarrow> flash \<Rightarrow> sim_error + flash" where
  "page_fill buf b e fl =
     (if e \<le> length fl \<and> e - b \<le> length buf
      then Inr (map (\<lambda>i. if b \<le> i \<and> i < e
        then (fl ! i)\<lparr>ins_word := buf ! (i - b)\<rparr> else fl ! i) [0 ..< length fl])
      else Inl UndefinedBehaviour)"

definition clear_spmen :: "core \<Rightarrow> core" where
  "clear_spmen c = set_gr8 SPMCR (unset_bit SPMEN (gr8 c SPMCR)) c"

text \<open>\<open>do_spm\<close> always takes 4 cycles; its result here is the state.\<close>

definition do_spm :: "core \<Rightarrow> sim_error + core" where
  "do_spm c =
     (let z = gr16 c IndexRegZ;
          page_num = spm_page (c_mc c) z;
          word_num = spm_word (c_mc c) z;
          page_begin_w = page_num * c_page_size c div 2;
          page_end_w = (page_num + 1) * c_page_size c div 2;
          spmcr = gr8 c SPMCR
      in if \<not> bit spmcr SPMEN then Inr c
         else if bit spmcr PGERS then
           bindE (page_erase page_begin_w page_end_w (c_flash c))
             (\<lambda>fl. Inr (clear_spmen
               (c\<lparr>c_flash := fl, c_spm_buf := replicate (c_page_size c div 2) 0xFFFF\<rparr>)))
         else if bit spmcr PGWRT then
           bindE (page_fill (c_spm_buf c) page_begin_w page_end_w (c_flash c))
             (\<lambda>fl. bindE (Decode (of_nat page_begin_w) (of_nat page_end_w) fl)
               (\<lambda>fl. Inr (clear_spmen (c\<lparr>c_flash := fl\<rparr>))))
         else if bit spmcr RWWSRE then Inr (clear_spmen c)
         else if word_num < length (c_spm_buf c) then
           Inr (clear_spmen (c\<lparr>c_spm_buf := (c_spm_buf c)[word_num := gr16 c 0]\<rparr>))
         else Inl UndefinedBehaviour)"

definition eeprom_addr :: "core \<Rightarrow> nat" where
  "eeprom_addr c = unat (join16 (gr8 c EEARL) (gr8 c EEARH))"

text \<open>\<open>write_eeprom\<close> takes 2 cycles, \<open>read_eeprom\<close> 4.\<close>

definition write_eeprom :: "core \<Rightarrow> sim_error + core" where
  "write_eeprom c =
     (let addr = eeprom_addr c; eedr = gr8 c EEDR
      in if addr < length (c_eeprom c)
         then Inr (set_gr8 EECR (unset_bit EEWE (gr8 c EECR))
           (c\<lparr>c_eeprom := (c_eeprom c)[addr := eedr]\<rparr>))
         else Inl UndefinedBehaviour)"

definition read_eeprom :: "core \<Rightarrow> sim_error + core" where
  "read_eeprom c =
     (let addr = eeprom_addr c
      in if addr < length (c_eeprom c)
         then (let c = set_gr8 EEDR (c_eeprom c ! addr) c
               in Inr (set_gr8 EECR (unset_bit EERE (gr8 c EECR)) c))
         else Inl UndefinedBehaviour)"

section \<open>Reading after writing\<close>

text \<open>Writes to the data memory leave every other component alone.\<close>

lemma set_gr8_frame [simp, core_simps]:
  "c_mc (set_gr8 n v c) = c_mc c"
  "c_flash (set_gr8 n v c) = c_flash c"
  "c_eeprom (set_gr8 n v c) = c_eeprom c"
  "c_spm_buf (set_gr8 n v c) = c_spm_buf c"
  "c_pc (set_gr8 n v c) = c_pc c"
  "c_cc (set_gr8 n v c) = c_cc c"
  "c_page_size (set_gr8 n v c) = c_page_size c"
  "c_dev_addr (set_gr8 n v c) = c_dev_addr c"
  "c_last_pc (set_gr8 n v c) = c_last_pc c"
  "c_ev (set_gr8 n v c) = c_ev c"
  "c_mstate (set_gr8 n v c) = c_mstate c"
  "c_signal (set_gr8 n v c) = c_signal c"
  "c_outs (set_gr8 n v c) = c_outs c"
  by (simp_all add: set_gr8_def)

lemma set_gr16_frame [simp, core_simps]:
  "c_mc (set_gr16 n w c) = c_mc c"
  "c_flash (set_gr16 n w c) = c_flash c"
  "c_eeprom (set_gr16 n w c) = c_eeprom c"
  "c_spm_buf (set_gr16 n w c) = c_spm_buf c"
  "c_pc (set_gr16 n w c) = c_pc c"
  "c_cc (set_gr16 n w c) = c_cc c"
  "c_page_size (set_gr16 n w c) = c_page_size c"
  "c_dev_addr (set_gr16 n w c) = c_dev_addr c"
  "c_last_pc (set_gr16 n w c) = c_last_pc c"
  "c_ev (set_gr16 n w c) = c_ev c"
  "c_mstate (set_gr16 n w c) = c_mstate c"
  "c_signal (set_gr16 n w c) = c_signal c"
  "c_outs (set_gr16 n w c) = c_outs c"
  by (simp_all add: set_gr16_def)

lemma set_sram_length [simp, core_simps]:
  "length (c_sram (set_gr8 n v c)) = length (c_sram c)"
  "length (c_sram (set_gr16 n w c)) = length (c_sram c)"
  by (simp_all add: set_gr8_def set_gr16_def)

lemma gr8_set_gr8 [core_simps]:
  "gr8 (set_gr8 n v c) m = (if n = m \<and> m < length (c_sram c) then v else gr8 c m)"
  by (cases "n = m") (auto simp: gr8_def set_gr8_def list_update_beyond)

lemma gr8_set_gr16 [core_simps]:
  "gr8 (set_gr16 n w c) m =
     (if m = n + 1 \<and> m < length (c_sram c) then hi8 w
      else if m = n \<and> m < length (c_sram c) then lo8 w else gr8 c m)"
  by (cases "m = n + 1"; cases "m = n") (auto simp: gr8_def set_gr16_def nth_list_update list_update_beyond)

lemma gr16_eq: "gr16 c n = join16 (gr8 c n) (gr8 c (n + 1))"
  by (simp add: gr16_def gr8_def)

lemma set_gr16_eq: "set_gr16 n w c = set_gr8 (n + 1) (hi8 w) (set_gr8 n (lo8 w) c)"
  by (simp add: set_gr16_def set_gr8_def)

lemma gr16_set_gr16 [core_simps]:
  "n + 1 < length (c_sram c) \<Longrightarrow> gr16 (set_gr16 n w c) n = w"
  by (simp add: gr16_eq gr8_set_gr16)

lemma set_gr8_collapse [core_simps]: "set_gr8 n v (set_gr8 n u c) = set_gr8 n v c"
  by (simp add: set_gr8_def)

lemma set_gr8_same [core_simps]: "set_gr8 n (gr8 c n) c = c"
  by (simp add: set_gr8_def gr8_def)

lemma set_gr8_commute: "n \<noteq> m \<Longrightarrow> set_gr8 n v (set_gr8 m u c) = set_gr8 m u (set_gr8 n v c)"
  by (simp add: set_gr8_def list_update_swap)

text \<open>Moving the program counter and counting cycles leave the memories alone.\<close>

lemma adv_frame [simp, core_simps]:
  "c_mc (adv p n c) = c_mc c"
  "c_flash (adv p n c) = c_flash c"
  "c_eeprom (adv p n c) = c_eeprom c"
  "c_spm_buf (adv p n c) = c_spm_buf c"
  "c_page_size (adv p n c) = c_page_size c"
  "c_dev_addr (adv p n c) = c_dev_addr c"
  "c_last_pc (adv p n c) = c_last_pc c"
  "c_ev (adv p n c) = c_ev c"
  "c_mstate (adv p n c) = c_mstate c"
  "c_signal (adv p n c) = c_signal c"
  "c_outs (adv p n c) = c_outs c"
  "c_sram (adv p n c) = c_sram c"
  by (simp_all add: adv_def)

lemma set_pc_frame [simp, core_simps]:
  "c_mc (set_pc p c) = c_mc c"
  "c_flash (set_pc p c) = c_flash c"
  "c_eeprom (set_pc p c) = c_eeprom c"
  "c_spm_buf (set_pc p c) = c_spm_buf c"
  "c_page_size (set_pc p c) = c_page_size c"
  "c_dev_addr (set_pc p c) = c_dev_addr c"
  "c_last_pc (set_pc p c) = c_last_pc c"
  "c_ev (set_pc p c) = c_ev c"
  "c_mstate (set_pc p c) = c_mstate c"
  "c_signal (set_pc p c) = c_signal c"
  "c_outs (set_pc p c) = c_outs c"
  "c_sram (set_pc p c) = c_sram c"
  "c_cc (set_pc p c) = c_cc c"
  by (simp_all add: set_pc_def)

lemma add_cc_frame [simp, core_simps]:
  "c_mc (add_cc n c) = c_mc c"
  "c_flash (add_cc n c) = c_flash c"
  "c_eeprom (add_cc n c) = c_eeprom c"
  "c_spm_buf (add_cc n c) = c_spm_buf c"
  "c_page_size (add_cc n c) = c_page_size c"
  "c_dev_addr (add_cc n c) = c_dev_addr c"
  "c_last_pc (add_cc n c) = c_last_pc c"
  "c_ev (add_cc n c) = c_ev c"
  "c_mstate (add_cc n c) = c_mstate c"
  "c_signal (add_cc n c) = c_signal c"
  "c_outs (add_cc n c) = c_outs c"
  "c_sram (add_cc n c) = c_sram c"
  "c_pc (add_cc n c) = c_pc c"
  by (simp_all add: add_cc_def)

lemma normalize_pc_frame [simp, core_simps]:
  "c_mc (normalize_pc c) = c_mc c"
  "c_flash (normalize_pc c) = c_flash c"
  "c_eeprom (normalize_pc c) = c_eeprom c"
  "c_spm_buf (normalize_pc c) = c_spm_buf c"
  "c_page_size (normalize_pc c) = c_page_size c"
  "c_dev_addr (normalize_pc c) = c_dev_addr c"
  "c_last_pc (normalize_pc c) = c_last_pc c"
  "c_ev (normalize_pc c) = c_ev c"
  "c_mstate (normalize_pc c) = c_mstate c"
  "c_signal (normalize_pc c) = c_signal c"
  "c_outs (normalize_pc c) = c_outs c"
  "c_sram (normalize_pc c) = c_sram c"
  "c_cc (normalize_pc c) = c_cc c"
  by (simp_all add: normalize_pc_def Let_def)

lemma pc_cc_simps [simp, core_simps]:
  "c_pc (adv p n c) = c_pc c + p" "c_cc (adv p n c) = c_cc c + n"
  "c_pc (set_pc p c) = p" "c_cc (add_cc n c) = c_cc c + n"
  by (simp_all add: adv_def set_pc_def add_cc_def)

lemma gr8_frame [simp, core_simps]:
  "gr8 (adv p n c) m = gr8 c m" "gr8 (set_pc q c) m = gr8 c m" "gr8 (add_cc n c) m = gr8 c m"
  "gr8 (normalize_pc c) m = gr8 c m"
  by (simp_all add: gr8_def)

lemma gr16_frame [simp, core_simps]:
  "gr16 (adv p n c) m = gr16 c m" "gr16 (set_pc q c) m = gr16 c m"
  "gr16 (add_cc n c) m = gr16 c m" "gr16 (normalize_pc c) m = gr16 c m"
  by (simp_all add: gr16_eq)

lemma sreg_frame [simp, core_simps]:
  "sreg (adv p n c) = sreg c" "sreg (set_pc q c) = sreg c" "sreg (add_cc n c) = sreg c"
  "sreg (normalize_pc c) = sreg c"
  by (simp_all add: sreg_def)

lemma stack_frame [simp, core_simps]:
  "stack (adv p n c) = stack c" "stack (set_pc q c) = stack c" "stack (add_cc n c) = stack c"
  "stack (normalize_pc c) = stack c"
  by (simp_all add: stack_def)

text \<open>The accessors of the named registers are writes of the memory.\<close>

lemmas reg_defs = set_sreg_def set_stack_def set_io8_def io8_def update_sreg_def sreg_def stack_def

section \<open>Well-formedness\<close>

lemma core_wf_sram: "core_wf c \<Longrightarrow> length (c_sram c) = 0x460"
  by (simp add: core_wf_def)

lemma core_wf_frame [simp]:
  "core_wf (set_gr8 n v c) = core_wf c" "core_wf (set_gr16 n w c) = core_wf c"
  "core_wf (set_sreg x c) = core_wf c" "core_wf (set_stack w c) = core_wf c"
  "core_wf (set_io8 n v c) = core_wf c" "core_wf (update_sreg m x c) = core_wf c"
  "core_wf (adv p k c) = core_wf c" "core_wf (set_pc p c) = core_wf c"
  "core_wf (add_cc k c) = core_wf c" "core_wf (normalize_pc c) = core_wf c"
  "core_wf (clear_spmen c) = core_wf c"
  "core_wf (c\<lparr>c_outs := os\<rparr>) = core_wf c" "core_wf (c\<lparr>c_ev := ev\<rparr>) = core_wf c"
  "core_wf (c\<lparr>c_last_pc := ps\<rparr>) = core_wf c"
  by (simp_all add: core_wf_def reg_defs clear_spmen_def)

lemma sram_put_wf [wf_intros]: "sram_put i v c = Inr c' \<Longrightarrow> core_wf c \<Longrightarrow> core_wf c'"
  by (auto simp: sram_put_def split: if_splits)

lemma push_pc_wf [wf_intros]: "push_pc r c = Inr c' \<Longrightarrow> core_wf c \<Longrightarrow> core_wf c'"
  by (auto simp: push_pc_def dest: sram_put_wf)

text \<open>The page a pointer selects always lies in the flash memory, and the word in the buffer.\<close>

lemma word_field_less:
  fixes z :: u16
  shows "unat (z AND 0x7F) < 128" "unat (z AND 0x3F) < 64" "unat (z AND 0x1F) < 32"
    "unat (z AND 0x0F) < 16" "unat (z AND 0x07) < 8" "unat (z AND 0x03) < 4"
proof -
  have "unat (z AND m) \<le> unat m" for m
    using word_and_le1 [of z m] by (simp add: word_le_nat_alt)
  from this [of "0x7F"] this [of "0x3F"] this [of "0x1F"] this [of "0x0F"] this [of "0x07"]
    this [of "0x03"]
  show "unat (z AND 0x7F) < 128" "unat (z AND 0x3F) < 64" "unat (z AND 0x1F) < 32"
    "unat (z AND 0x0F) < 16" "unat (z AND 0x07) < 8" "unat (z AND 0x03) < 4"
    by simp_all
qed

lemma spm_in_bounds:
  assumes "core_wf c"
  shows "(spm_page (c_mc c) z + 1) * c_page_size c div 2 \<le> length (c_flash c)"
    and "spm_word (c_mc c) z < length (c_spm_buf c)"
    and "spm_page (c_mc c) z * c_page_size c div 2 + length (c_spm_buf c) =
         (spm_page (c_mc c) z + 1) * c_page_size c div 2"
proof -
  show "(spm_page (c_mc c) z + 1) * c_page_size c div 2 \<le> length (c_flash c)"
    using assms word_field_less [of "drop_bit 6 z"] word_field_less [of "drop_bit 7 z"]
    by (cases "c_mc c") (auto simp: core_wf_def Atmega8_def Atmega16_def)
  show "spm_word (c_mc c) z < length (c_spm_buf c)"
    using assms word_field_less [of "drop_bit 1 z"]
    by (cases "c_mc c") (auto simp: core_wf_def Atmega8_def Atmega16_def)
  show "spm_page (c_mc c) z * c_page_size c div 2 + length (c_spm_buf c) =
         (spm_page (c_mc c) z + 1) * c_page_size c div 2"
    using assms by (cases "c_mc c") (auto simp: core_wf_def Atmega8_def Atmega16_def)
qed

lemma page_erase_length: "page_erase b e fl = Inr fl' \<Longrightarrow> length fl' = length fl"
  by (auto simp: page_erase_def split: if_splits)

lemma page_erase_wf: "page_erase b e fl = Inr fl' \<Longrightarrow> flash_wf fl \<Longrightarrow> flash_wf fl'"
  by (auto simp: page_erase_def flash_wf_nth split: if_splits)

lemma page_fill_wf: "page_fill buf b e fl = Inr fl' \<Longrightarrow> flash_wf fl \<Longrightarrow> flash_wf fl'"
  by (auto simp: page_fill_def flash_wf_nth split: if_splits)

lemma page_fill_length: "page_fill buf b e fl = Inr fl' \<Longrightarrow> length fl' = length fl"
  by (auto simp: page_fill_def split: if_splits)

text \<open>A flash memory of the size and with the instruction sizes of another one.\<close>

definition flash_like :: "flash \<Rightarrow> flash \<Rightarrow> bool" where
  "flash_like fl fl' \<longleftrightarrow> length fl' = length fl \<and> (flash_wf fl \<longrightarrow> flash_wf fl')"

lemma flash_like_ops:
  "page_erase b e fl = Inr fl' \<Longrightarrow> flash_like fl fl'"
  "page_fill buf b e fl = Inr fl' \<Longrightarrow> flash_like fl fl'"
  "Decode b' e' fl = Inr fl' \<Longrightarrow> flash_like fl fl'"
  unfolding flash_like_def
  by (intro conjI impI; (erule page_erase_length | erule (1) page_erase_wf))
    (intro conjI impI; (erule page_fill_length Decode_length | erule (1) page_fill_wf Decode_wf))+

lemma flash_like_trans: "flash_like a b \<Longrightarrow> flash_like b c \<Longrightarrow> flash_like a c"
  by (simp add: flash_like_def)

lemma core_wf_flash_like: "core_wf c \<Longrightarrow> flash_like (c_flash c) fl \<Longrightarrow> core_wf (c\<lparr>c_flash := fl\<rparr>)"
  by (simp add: core_wf_def flash_like_def)

lemma core_wf_spm_buf:
  "core_wf c \<Longrightarrow> length buf = length (c_spm_buf c) \<Longrightarrow> core_wf (c\<lparr>c_spm_buf := buf\<rparr>)"
  by (simp add: core_wf_def)

lemma erase_keeps_wf:
  assumes "core_wf c" "page_erase b e (c_flash c) = Inr fl"
  shows "core_wf (c\<lparr>c_flash := fl, c_spm_buf := replicate (c_page_size c div 2) 0xFFFF\<rparr>)"
proof (rule core_wf_spm_buf)
  show "core_wf (c\<lparr>c_flash := fl\<rparr>)"
    by (rule core_wf_flash_like [OF assms(1) flash_like_ops(1) [OF assms(2)]])
  show "length (replicate (c_page_size c div 2) (0xFFFF :: u16)) = length (c_spm_buf (c\<lparr>c_flash := fl\<rparr>))"
    using assms(1) by (simp add: core_wf_def)
qed

lemma program_keeps_wf:
  assumes "core_wf c" "page_fill (c_spm_buf c) b e (c_flash c) = Inr fl" "Decode b' e' fl = Inr fl'"
  shows "core_wf (c\<lparr>c_flash := fl'\<rparr>)"
  by (rule core_wf_flash_like [OF assms(1) flash_like_trans
      [OF flash_like_ops(2) [OF assms(2)] flash_like_ops(3) [OF assms(3)]]])

lemma do_spm_cases:
  assumes "do_spm c = Inr c'"
  obtains (idle) "c' = c" | (clear) "c' = clear_spmen c"
    | (erase) b e fl where "page_erase b e (c_flash c) = Inr fl"
        "c' = clear_spmen (c\<lparr>c_flash := fl, c_spm_buf := replicate (c_page_size c div 2) 0xFFFF\<rparr>)"
    | (program) b e b' e' fl fl' where "page_fill (c_spm_buf c) b e (c_flash c) = Inr fl"
        "Decode b' e' fl = Inr fl'" "c' = clear_spmen (c\<lparr>c_flash := fl'\<rparr>)"
    | (load) n w where "c' = clear_spmen (c\<lparr>c_spm_buf := (c_spm_buf c)[n := w]\<rparr>)"
proof -
  note spm = assms [unfolded do_spm_def Let_def]
  consider "\<not> bit (gr8 c SPMCR) SPMEN" | "bit (gr8 c SPMCR) SPMEN" "bit (gr8 c SPMCR) PGERS"
    | "bit (gr8 c SPMCR) SPMEN" "\<not> bit (gr8 c SPMCR) PGERS" "bit (gr8 c SPMCR) PGWRT"
    | "bit (gr8 c SPMCR) SPMEN" "\<not> bit (gr8 c SPMCR) PGERS" "\<not> bit (gr8 c SPMCR) PGWRT"
    by blast
  then show thesis
  proof cases
    case 1
    then show thesis using spm idle by (simp only: if_True not_False_eq_True sum.inject)
  next
    case 2
    then have "\<exists>b e fl. page_erase b e (c_flash c) = Inr fl \<and>
        c' = clear_spmen (c\<lparr>c_flash := fl, c_spm_buf := replicate (c_page_size c div 2) 0xFFFF\<rparr>)"
      using spm by (auto simp: bindE_Inr_iff)
    then show thesis by (elim exE conjE) (rule erase)
  next
    case 3
    then have "\<exists>b e b' e' fl fl'. page_fill (c_spm_buf c) b e (c_flash c) = Inr fl \<and>
        Decode b' e' fl = Inr fl' \<and> c' = clear_spmen (c\<lparr>c_flash := fl'\<rparr>)"
      using spm by (auto simp: bindE_Inr_iff) (intro exI conjI; (assumption | rule refl))
    then show thesis by (elim exE conjE) (rule program)
  next
    case 4
    then have "c' = clear_spmen c \<or> (\<exists>n w. c' = clear_spmen (c\<lparr>c_spm_buf := (c_spm_buf c)[n := w]\<rparr>))"
      using spm by (auto split: if_splits)
    then show thesis by (elim disjE exE) (rule clear, assumption, rule load)
  qed
qed

lemma do_spm_wf [wf_intros]: "do_spm c = Inr c' \<Longrightarrow> core_wf c \<Longrightarrow> core_wf c'"
proof (erule do_spm_cases)
  fix n w
  assume "core_wf c" "c' = clear_spmen (c\<lparr>c_spm_buf := (c_spm_buf c)[n := w]\<rparr>)"
  then show "core_wf c'"
    using core_wf_spm_buf [of c "(c_spm_buf c)[n := w]"] by simp
qed (simp_all add: erase_keeps_wf program_keeps_wf)

lemma write_eeprom_wf [wf_intros]: "write_eeprom c = Inr c' \<Longrightarrow> core_wf c \<Longrightarrow> core_wf c'"
  by (auto simp: write_eeprom_def Let_def core_wf_def split: if_splits)

lemma read_eeprom_wf [wf_intros]: "read_eeprom c = Inr c' \<Longrightarrow> core_wf c \<Longrightarrow> core_wf c'"
  by (auto simp: read_eeprom_def Let_def split: if_splits)

lemma AVRCore_init_wf:
  assumes "length sram = 0x460" "length eeprom = 0x200"
    "length fl = FLASH_SIZE (chip_of mc) div 2" "flash_wf fl"
  shows "core_wf (AVRCore_init mc fl sram eeprom (PAGE_SIZE (chip_of mc)) dev_addr)"
  using assms by (simp add: core_wf_def AVRCore_init_def)

end
