(* ===== verification/Avr_Exec.thy ===== *)
theory Avr_Exec
  imports Avr_Core
begin

text \<open>
  The instructions: the cases of the switch in \<open>AVRCore::Step\<close> of \<open>sim/src/cpu.cpp\<close>, one definition
  per case (the flag instructions and the branches, which differ in a bit number, are one function
  each), \<open>exec_op\<close> that selects the case, and \<open>Step\<close> itself.

  Inline assembly is part of the source: \<open>x86_adc\<close> and \<open>x86_sbb\<close> are the host's \<open>add\<close>/\<open>adc\<close> and
  \<open>sub\<close>/\<open>sbb\<close> with the flags they leave in EFLAGS, which \<open>__readeflags\<close> reads right after. Only the
  five flags that the source masks out of EFLAGS are represented. In an assignment the right side
  is evaluated first (C++17), so \<open>sram_.at(IndexRegX++) = GR8(Rr)\<close> reads the register, then
  increments, then stores.
\<close>

section \<open>Operand fields\<close>

text \<open>The expressions that the cases repeat to take an instruction word apart.\<close>

definition fld_d :: "u16 \<Rightarrow> nat" where
  "fld_d i = unat (drop_bit 4 i AND 0x1F)"

definition fld_r :: "u16 \<Rightarrow> nat" where
  "fld_r i = unat ((i AND 0x0F) OR drop_bit 5 (i AND 0x200))"

definition fld_dh :: "u16 \<Rightarrow> nat" where
  "fld_dh i = unat (drop_bit 4 i AND 0x0F) + 16"

definition fld_K :: "u16 \<Rightarrow> u8" where
  "fld_K i = ucast ((drop_bit 4 i AND 0xF0) OR (i AND 0x0F))"

definition fld_A :: "u16 \<Rightarrow> nat" where
  "fld_A i = unat ((i AND 0x0F) OR drop_bit 5 (i AND 0x600))"

definition fld_A5 :: "u16 \<Rightarrow> nat" where
  "fld_A5 i = unat (drop_bit 3 i AND 0x1F)"

definition fld_b :: "u16 \<Rightarrow> nat" where
  "fld_b i = unat (i AND 0x07)"

definition fld_q :: "u16 \<Rightarrow> int" where
  "fld_q i = uint (drop_bit 8 (i AND 8192) OR drop_bit 7 (i AND 3072) OR (i AND 0x07))"

definition fld_dw :: "u16 \<Rightarrow> nat" where
  "fld_dw i = unat (drop_bit 4 i AND 0x03) * 2 + 24"

definition fld_Kw :: "u16 \<Rightarrow> u8" where
  "fld_Kw i = ucast ((i AND 0x0F) OR (drop_bit 2 i AND 0x30))"

section \<open>The host's arithmetic\<close>

definition eflags_of :: "bool \<Rightarrow> bool \<Rightarrow> bool \<Rightarrow> bool \<Rightarrow> bool \<Rightarrow> u64" where
  "eflags_of cf af zf sf ovf =
     push_bit CF (of_bool cf) OR push_bit AF (of_bool af) OR push_bit ZF (of_bool zf) OR
     push_bit SF (of_bool sf) OR push_bit OF (of_bool ovf)"

definition msb_of :: "'a::len word \<Rightarrow> bool" where
  "msb_of a = bit a (LENGTH('a) - 1)"

definition x86_adc :: "bool \<Rightarrow> 'a::len word \<Rightarrow> 'a word \<Rightarrow> 'a word \<times> u64" where
  "x86_adc cf a b =
     (let r = a + b + of_bool cf
      in (r, eflags_of
           (2 ^ LENGTH('a) \<le> unat a + unat b + of_bool cf)
           (16 \<le> unat (take_bit 4 a) + unat (take_bit 4 b) + of_bool cf)
           (r = 0)
           (msb_of r)
           (msb_of a = msb_of b \<and> msb_of r \<noteq> msb_of a)))"

definition x86_sbb :: "bool \<Rightarrow> 'a::len word \<Rightarrow> 'a word \<Rightarrow> 'a word \<times> u64" where
  "x86_sbb cf a b =
     (let r = a - b - of_bool cf
      in (r, eflags_of
           (unat a < unat b + of_bool cf)
           (unat (take_bit 4 a) < unat (take_bit 4 b) + of_bool cf)
           (r = 0)
           (msb_of r)
           (msb_of a \<noteq> msb_of b \<and> msb_of r \<noteq> msb_of a)))"

text \<open>The shifts that move the host's flags to the places of the AVR's: \<open>c\<close>, \<open>z\<close>, \<open>n\<close>, \<open>v\<close>, \<open>h\<close>.\<close>

definition ef_c :: "u64 \<Rightarrow> u8" where
  "ef_c eflags = ucast (eflags AND push_bit CF 1)"

definition ef_z :: "u64 \<Rightarrow> u8" where
  "ef_z eflags = ucast (drop_bit (ZF - fZ) (eflags AND push_bit ZF 1))"

definition ef_n :: "u64 \<Rightarrow> u8" where
  "ef_n eflags = ucast (drop_bit (SF - fN) (eflags AND push_bit SF 1))"

definition ef_v :: "u64 \<Rightarrow> u8" where
  "ef_v eflags = ucast (drop_bit (OF - fV) (eflags AND push_bit OF 1))"

definition ef_h :: "u64 \<Rightarrow> u8" where
  "ef_h eflags = ucast (push_bit (fH - AF) (eflags AND push_bit AF 1))"

definition mask_alu8 :: u8 where
  "mask_alu8 = bit8 fH OR bit8 fS OR bit8 fV OR bit8 fN OR bit8 fZ OR bit8 fC"

definition mask_alu16 :: u8 where
  "mask_alu16 = bit8 fS OR bit8 fV OR bit8 fN OR bit8 fZ OR bit8 fC"

text \<open>
  The flag computation after \<open>add\<close>, \<open>sub\<close> and \<open>sbb\<close>; \<open>z\<close> is a parameter because \<open>sbc\<close>, \<open>sbci\<close> and
  \<open>cpc\<close> combine it with the old one.
\<close>

definition alu8_sreg :: "u64 \<Rightarrow> u8 \<Rightarrow> core \<Rightarrow> core" where
  "alu8_sreg eflags z c =
     (let cf = ef_c eflags; n = ef_n eflags; v = ef_v eflags;
          s = push_bit 2 n XOR push_bit 1 v; h = ef_h eflags
      in update_sreg mask_alu8 (h OR s OR v OR n OR z OR cf) c)"

definition alu16_sreg :: "u64 \<Rightarrow> core \<Rightarrow> core" where
  "alu16_sreg eflags c =
     (let cf = ef_c eflags; z = ef_z eflags; n = ef_n eflags; v = ef_v eflags;
          s = push_bit 2 n XOR push_bit 1 v
      in update_sreg mask_alu16 (s OR v OR n OR z OR cf) c)"

text \<open>\<open>GETF_CARRY()\<close> as the carry of \<open>bt\<close>, \<open>GETF_ZERO()\<close> as the masked byte.\<close>

definition getf_carry :: "core \<Rightarrow> bool" where
  "getf_carry c = bit (sreg c) fC"

definition getf_zero :: "core \<Rightarrow> u8" where
  "getf_zero c = sreg c AND bit8 fZ"

section \<open>Flag instructions\<close>

definition clear_flag :: "nat \<Rightarrow> core \<Rightarrow> core" where
  "clear_flag n c = adv 1 1 (set_sreg (unset_bit n (sreg c)) c)"

definition raise_flag :: "nat \<Rightarrow> core \<Rightarrow> core" where
  "raise_flag n c = adv 1 1 (set_sreg (set_bit n (sreg c)) c)"

fun exec_flag :: "flag_op \<Rightarrow> core \<Rightarrow> core" where
  "exec_flag OP_CLC c = clear_flag fC c"
| "exec_flag OP_CLH c = clear_flag fH c"
| "exec_flag OP_CLI c = clear_flag fI c"
| "exec_flag OP_CLN c = clear_flag fN c"
| "exec_flag OP_CLS c = clear_flag fS c"
| "exec_flag OP_CLT c = clear_flag fT c"
| "exec_flag OP_CLV c = clear_flag fV c"
| "exec_flag OP_CLZ c = clear_flag fZ c"
| "exec_flag OP_SEC c = raise_flag fC c"
| "exec_flag OP_SEH c = raise_flag fH c"
| "exec_flag OP_SEI c = raise_flag fI c"
| "exec_flag OP_SEN c = raise_flag fN c"
| "exec_flag OP_SES c = raise_flag fS c"
| "exec_flag OP_SET c = raise_flag fT c"
| "exec_flag OP_SEV c = raise_flag fV c"
| "exec_flag OP_SEZ c = raise_flag fZ c"

section \<open>One-register operations\<close>

text \<open>\<open>x ? 1 : 0\<close> on a byte.\<close>

abbreviation b2u :: "bool \<Rightarrow> u8" where "b2u \<equiv> of_bool"

definition op_LDI :: "u16 \<Rightarrow> core \<Rightarrow> core" where
  "op_LDI i c =
     (let reg_n = fld_dh i
      in adv 1 1 (set_gr8 reg_n (ucast ((i AND 0x0F) OR (drop_bit 4 i AND 0xF0))) c))"

definition op_COM :: "u16 \<Rightarrow> core \<Rightarrow> core" where
  "op_COM i c =
     (let reg_n = fld_d i;
          c = set_gr8 reg_n (NOT (gr8 c reg_n)) c;
          r = gr8 c reg_n;
          n = b2u (bit r 7);
          z = b2u (r = 0);
          cf = 1; v = 0;
          s = n XOR v
      in adv 1 1 (update_sreg (bit8 fN OR bit8 fZ OR bit8 fC OR bit8 fV OR bit8 fS)
           (push_bit fN n OR push_bit fZ z OR push_bit fC cf OR push_bit fV v OR push_bit fS s) c))"

definition op_NEG :: "u16 \<Rightarrow> core \<Rightarrow> core" where
  "op_NEG i c =
     (let reg_n = fld_d i;
          tmp8 = gr8 c reg_n;
          c = set_gr8 reg_n (NOT (gr8 c reg_n) + 1) c;
          r = gr8 c reg_n;
          h = (bit8 3 AND tmp8) OR (bit8 3 AND r);
          v = b2u (r = 0x80);
          n = bit8 7 AND r;
          z = b2u (r = 0);
          cf = b2u (z = 0);
          s = n XOR v
      in adv 1 1 (update_sreg
           (bit8 fH OR bit8 fN OR bit8 fZ OR bit8 fC OR bit8 fV OR bit8 fS)
           (push_bit fH h OR push_bit fN n OR push_bit fZ z OR push_bit fC cf OR push_bit fV v OR
            push_bit fS s) c))"

definition op_ASR :: "u16 \<Rightarrow> core \<Rightarrow> core" where
  "op_ASR i c =
     (let reg_n = fld_d i;
          cf = gr8 c reg_n AND 0x01;
          c = set_gr8 reg_n (drop_bit 1 (gr8 c reg_n) OR (gr8 c reg_n OR bit8 7)) c;
          r = gr8 c reg_n;
          n = drop_bit 7 (r AND 0x80);
          z = b2u (r = 0);
          v = n XOR cf;
          s = n XOR v
      in adv 1 1 (update_sreg (bit8 fC OR bit8 fN OR bit8 fZ OR bit8 fS OR bit8 fV)
           (push_bit fC cf OR push_bit fN n OR push_bit fZ z OR push_bit fS s OR push_bit fV v) c))"

text \<open>The flags of \<open>dec\<close> and \<open>inc\<close> are the same code on the new value.\<close>

definition incdec_sreg :: "u8 \<Rightarrow> core \<Rightarrow> core" where
  "incdec_sreg r c =
     (let v = b2u (r = 0x80);
          n = drop_bit 7 (r AND 0x80);
          z = b2u (r = 0);
          s = n XOR v
      in update_sreg (bit8 fV OR bit8 fN OR bit8 fZ OR bit8 fS)
           (push_bit fV v OR push_bit fN n OR push_bit fZ z OR push_bit fS s) c)"

definition op_DEC :: "u16 \<Rightarrow> core \<Rightarrow> core" where
  "op_DEC i c =
     (let reg_n = fld_d i; c = set_gr8 reg_n (gr8 c reg_n - 1) c
      in adv 1 1 (incdec_sreg (gr8 c reg_n) c))"

definition op_INC :: "u16 \<Rightarrow> core \<Rightarrow> core" where
  "op_INC i c =
     (let reg_n = fld_d i; c = set_gr8 reg_n (gr8 c reg_n + 1) c
      in adv 1 1 (incdec_sreg (gr8 c reg_n) c))"

definition op_LSR :: "u16 \<Rightarrow> core \<Rightarrow> core" where
  "op_LSR i c =
     (let reg_n = fld_d i;
          cf = gr8 c reg_n AND 0x01;
          c = set_gr8 reg_n (drop_bit 1 (gr8 c reg_n)) c;
          z = b2u (gr8 c reg_n = 0);
          n = 0;
          v = n XOR cf;
          s = n XOR v
      in adv 1 1 (update_sreg (bit8 fC OR bit8 fN OR bit8 fZ OR bit8 fS OR bit8 fV)
           (push_bit fC cf OR push_bit fN n OR push_bit fZ z OR push_bit fS s OR push_bit fV v) c))"

definition op_ROR :: "u16 \<Rightarrow> core \<Rightarrow> core" where
  "op_ROR i c =
     (let reg_n = fld_d i;
          cf = gr8 c reg_n AND 0x01;
          c = set_gr8 reg_n (drop_bit 1 (gr8 c reg_n) OR push_bit 7 (sreg c AND 0x01)) c;
          n = b2u (bit (gr8 c reg_n) 7);
          z = b2u (gr8 c reg_n = 0);
          v = n XOR cf;
          s = n XOR v
      in adv 1 1 (update_sreg (bit8 fC OR bit8 fN OR bit8 fZ OR bit8 fS OR bit8 fV)
           (push_bit fC cf OR push_bit fN n OR push_bit fZ z OR push_bit fS s OR push_bit fV v) c))"

definition op_SWAP :: "u16 \<Rightarrow> core \<Rightarrow> core" where
  "op_SWAP i c =
     (let Rd = fld_d i
      in adv 1 1 (set_gr8 Rd (push_bit 4 (gr8 c Rd) OR drop_bit 4 (gr8 c Rd)) c))"

section \<open>Addition, subtraction and comparison\<close>

definition op_ADD :: "u16 \<Rightarrow> core \<Rightarrow> core" where
  "op_ADD i c =
     (let Rd = fld_d i; Rr = fld_r i;
          (r, eflags) = x86_adc False (gr8 c Rd) (gr8 c Rr)
      in adv 1 1 (alu8_sreg eflags (ef_z eflags) (set_gr8 Rd r c)))"

text \<open>In this case \<open>s\<close> is assigned a second time, from the shifted \<open>n\<close> and \<open>v\<close>.\<close>

definition op_ADC :: "u16 \<Rightarrow> core \<Rightarrow> core" where
  "op_ADC i c =
     (let Rd = fld_d i; Rr = fld_r i;
          (r, eflags) = x86_adc (getf_carry c) (gr8 c Rd) (gr8 c Rr);
          cf = ef_c eflags; z = ef_z eflags; n = ef_n eflags; v = ef_v eflags; h = ef_h eflags;
          s = n XOR v
      in adv 1 1 (update_sreg mask_alu8 (h OR s OR v OR n OR z OR cf) (set_gr8 Rd r c)))"

definition op_SUB :: "u16 \<Rightarrow> core \<Rightarrow> core" where
  "op_SUB i c =
     (let Rd = fld_d i; Rr = fld_r i;
          (r, eflags) = x86_sbb False (gr8 c Rd) (gr8 c Rr)
      in adv 1 1 (alu8_sreg eflags (ef_z eflags) (set_gr8 Rd r c)))"

definition op_SBC :: "u16 \<Rightarrow> core \<Rightarrow> core" where
  "op_SBC i c =
     (let Rd = fld_d i; Rr = fld_r i; z0 = getf_zero c;
          (r, eflags) = x86_sbb (getf_carry c) (gr8 c Rd) (gr8 c Rr)
      in adv 1 1 (alu8_sreg eflags (ef_z eflags AND z0) (set_gr8 Rd r c)))"

definition op_SUBI :: "u16 \<Rightarrow> core \<Rightarrow> core" where
  "op_SUBI i c =
     (let Rd = fld_dh i; K = fld_K i;
          (r, eflags) = x86_sbb False (gr8 c Rd) K
      in adv 1 1 (alu8_sreg eflags (ef_z eflags) (set_gr8 Rd r c)))"

definition op_SBCI :: "u16 \<Rightarrow> core \<Rightarrow> core" where
  "op_SBCI i c =
     (let Rd = fld_dh i; K = fld_K i; z0 = getf_zero c;
          (r, eflags) = x86_sbb (getf_carry c) (gr8 c Rd) K
      in adv 1 1 (alu8_sreg eflags (ef_z eflags AND z0) (set_gr8 Rd r c)))"

definition op_CP :: "u16 \<Rightarrow> core \<Rightarrow> core" where
  "op_CP i c =
     (let Rd = fld_d i; Rr = fld_r i;
          (r, eflags) = x86_sbb False (gr8 c Rd) (gr8 c Rr)
      in adv 1 1 (alu8_sreg eflags (ef_z eflags) c))"

definition op_CPC :: "u16 \<Rightarrow> core \<Rightarrow> core" where
  "op_CPC i c =
     (let Rd = fld_d i; Rr = fld_r i; z0 = getf_zero c;
          (r, eflags) = x86_sbb (getf_carry c) (gr8 c Rd) (gr8 c Rr)
      in adv 1 1 (alu8_sreg eflags (ef_z eflags AND z0) c))"

definition op_CPI :: "u16 \<Rightarrow> core \<Rightarrow> core" where
  "op_CPI i c =
     (let Rd = fld_dh i; K = ucast ((i AND 0x0F) OR drop_bit 4 (i AND 0xF00));
          (r, eflags) = x86_sbb False (gr8 c Rd) K
      in adv 1 1 (alu8_sreg eflags (ef_z eflags) c))"

definition op_ADIW :: "u16 \<Rightarrow> core \<Rightarrow> core" where
  "op_ADIW i c =
     (let Rd = fld_dw i; K = fld_Kw i;
          (r, eflags) = x86_adc False (gr16 c Rd) (ucast K)
      in adv 1 2 (alu16_sreg eflags (set_gr16 Rd r c)))"

definition op_SBIW :: "u16 \<Rightarrow> core \<Rightarrow> core" where
  "op_SBIW i c =
     (let Rd = fld_dw i; K = fld_Kw i;
          (r, eflags) = x86_sbb False (gr16 c Rd) (ucast K)
      in adv 1 2 (alu16_sreg eflags (set_gr16 Rd r c)))"

section \<open>Logic, moves and multiplication\<close>

text \<open>The code that follows the operation in \<open>or\<close>, \<open>and\<close>, \<open>eor\<close>, \<open>ori\<close> and \<open>andi\<close>.\<close>

definition logic_sreg :: "u8 \<Rightarrow> core \<Rightarrow> core" where
  "logic_sreg r c =
     (let n = b2u (bit r 7); z = b2u (r = 0); s = n XOR 0
      in update_sreg (bit8 fS OR bit8 fV OR bit8 fN OR bit8 fZ)
           (push_bit fS s OR push_bit fN n OR push_bit fZ z) c)"

definition op_OR :: "u16 \<Rightarrow> core \<Rightarrow> core" where
  "op_OR i c =
     (let Rd = fld_d i; Rr = fld_r i; c = set_gr8 Rd (gr8 c Rd OR gr8 c Rr) c
      in adv 1 1 (logic_sreg (gr8 c Rd) c))"

definition op_AND :: "u16 \<Rightarrow> core \<Rightarrow> core" where
  "op_AND i c =
     (let Rd = fld_d i; Rr = fld_r i; c = set_gr8 Rd (gr8 c Rd AND gr8 c Rr) c
      in adv 1 1 (logic_sreg (gr8 c Rd) c))"

definition op_EOR :: "u16 \<Rightarrow> core \<Rightarrow> core" where
  "op_EOR i c =
     (let Rd = fld_d i; Rr = fld_r i; c = set_gr8 Rd (gr8 c Rd XOR gr8 c Rr) c
      in adv 1 1 (logic_sreg (gr8 c Rd) c))"

definition op_ORI :: "u16 \<Rightarrow> core \<Rightarrow> core" where
  "op_ORI i c =
     (let Rd = fld_dh i; K = fld_K i; c = set_gr8 Rd (gr8 c Rd OR K) c
      in adv 1 1 (logic_sreg (gr8 c Rd) c))"

definition op_ANDI :: "u16 \<Rightarrow> core \<Rightarrow> core" where
  "op_ANDI i c =
     (let Rd = fld_dh i; K = fld_K i; c = set_gr8 Rd (gr8 c Rd AND K) c
      in adv 1 1 (logic_sreg (gr8 c Rd) c))"

definition op_MOV :: "u16 \<Rightarrow> core \<Rightarrow> core" where
  "op_MOV i c = (let Rd = fld_d i; Rr = fld_r i in adv 1 1 (set_gr8 Rd (gr8 c Rr) c))"

definition op_MOVW :: "u16 \<Rightarrow> core \<Rightarrow> core" where
  "op_MOVW i c =
     (let Rd = unat (push_bit 1 (drop_bit 4 i AND 0x0F)); Rr = unat (push_bit 1 (i AND 0x0F));
          c = set_gr8 Rd (gr8 c Rr) c;
          c = set_gr8 (Rd + 1) (gr8 c (Rr + 1)) c
      in adv 1 1 c)"

text \<open>The flags of the three multiplications, from the product in \<open>r1:r0\<close>.\<close>

definition mul_sreg :: "core \<Rightarrow> core" where
  "mul_sreg c =
     (let p = gr16 c 0;
          cf = ucast (drop_bit 15 (p AND 0x8000));
          z = b2u (p = 0)
      in update_sreg (bit8 fZ OR bit8 fC) (push_bit fZ z OR push_bit fC cf) c)"

definition op_MUL :: "u16 \<Rightarrow> core \<Rightarrow> core" where
  "op_MUL i c =
     (let Rd = fld_d i; Rr = fld_r i
      in adv 1 2 (mul_sreg (set_gr16 0 (word_of_int (uint (gr8 c Rd) * uint (gr8 c Rr))) c)))"

definition op_MULS :: "u16 \<Rightarrow> core \<Rightarrow> core" where
  "op_MULS i c =
     (let Rd = fld_dh i; Rr = unat (i AND 0x0F) + 16
      in adv 1 2 (mul_sreg (set_gr16 0 (word_of_int (sint (gr8 c Rd) * sint (gr8 c Rr))) c)))"

definition op_MULSU :: "u16 \<Rightarrow> core \<Rightarrow> core" where
  "op_MULSU i c =
     (let Rd = unat (drop_bit 4 i AND 0x07) + 16; Rr = unat (i AND 0x07) + 16
      in adv 1 2 (mul_sreg (set_gr16 0 (word_of_int (sint (gr8 c Rd) * uint (gr8 c Rr))) c)))"

section \<open>Jumps, calls and branches\<close>

text \<open>\<open>int16_t offset\<close> of \<open>rcall\<close> and \<open>rjmp\<close>.\<close>

definition rjmp_offset :: "u16 \<Rightarrow> int" where
  "rjmp_offset i =
     (let offset = uint (i AND 0x0FFF)
      in if offset AND 0x800 \<noteq> 0 then - ((NOT offset AND 0xFFF) + 1) else offset)"

definition op_ICALL :: "core \<Rightarrow> sim_error + core" where
  "op_ICALL c =
     bindE (push_pc (c_pc c + 1) c)
       (\<lambda>c. Inr (add_cc 3 (set_pc (uint (join16 (gr8 c 30) (gr8 c 31))) c)))"

definition op_IJMP :: "core \<Rightarrow> core" where
  "op_IJMP c = add_cc 2 (set_pc (uint (join16 (gr8 c 30) (gr8 c 31))) c)"

definition op_RCALL :: "u16 \<Rightarrow> core \<Rightarrow> sim_error + core" where
  "op_RCALL i c =
     bindE (push_pc (c_pc c + 1) c)
       (\<lambda>c. Inr (normalize_pc (adv (rjmp_offset i + 1) 3 c)))"

definition op_RJMP :: "u16 \<Rightarrow> core \<Rightarrow> core" where
  "op_RJMP i c = normalize_pc (adv (rjmp_offset i + 1) 2 c)"

text \<open>The 22-bit target of \<open>call\<close> and \<open>jmp\<close>, read from the two words at \<open>PC\<close>.\<close>

definition long_target :: "core \<Rightarrow> sim_error + int" where
  "long_target c =
     bindE (Flash_at (c_flash c) (c_pc c)) (\<lambda>w1.
       bindE (Flash_at (c_flash c) (c_pc c + 1)) (\<lambda>w2.
         Inr (push_bit 16 (uint (ins_word w1) AND 0x01) OR
              push_bit 13 (uint (ins_word w1) AND 0x1F0) OR uint (ins_word w2))))"

definition op_CALL :: "core \<Rightarrow> sim_error + core" where
  "op_CALL c =
     bindE (push_pc (c_pc c + 2) c)
       (\<lambda>c. bindE (long_target c) (\<lambda>t. Inr (add_cc 4 (set_pc t c))))"

definition op_JMP :: "core \<Rightarrow> sim_error + core" where
  "op_JMP c = bindE (long_target c) (\<lambda>t. Inr (add_cc 3 (set_pc t c)))"

definition op_RET :: "core \<Rightarrow> sim_error + core" where
  "op_RET c =
     (let c = set_stack (stack c + 2) c
      in bindE (sram_at c (uint (stack c) - 1)) (\<lambda>h.
           bindE (sram_at c (uint (stack c))) (\<lambda>l.
             Inr (add_cc 4 (set_pc (push_bit 8 (uint h) OR uint l) c)))))"

definition op_RETI :: "core \<Rightarrow> sim_error + core" where
  "op_RETI c = op_RET (set_sreg (set_bit fI (sreg c)) c)"

definition op_POP :: "u16 \<Rightarrow> core \<Rightarrow> sim_error + core" where
  "op_POP i c =
     (let Rd = fld_d i; c = set_stack (stack c + 1) c
      in bindE (sram_at c (uint (stack c))) (\<lambda>v. Inr (adv 1 2 (set_gr8 Rd v c))))"

definition op_PUSH :: "u16 \<Rightarrow> core \<Rightarrow> sim_error + core" where
  "op_PUSH i c =
     (let Rd = fld_d i
      in bindE (sram_put (uint (stack c)) (gr8 c Rd) c)
           (\<lambda>c. Inr (adv 1 2 (set_stack (stack c - 1) c))))"

text \<open>The taken branch that the sixteen branch cases share.\<close>

definition branch :: "u16 \<Rightarrow> core \<Rightarrow> core" where
  "branch i c =
     (let offset = uint (drop_bit 3 i AND 0x7F);
          d = (if offset AND 0x40 \<noteq> 0 then - ((NOT offset AND 0x7F) + 1) + 1 else offset + 1)
      in add_cc 2 (normalize_pc (set_pc (c_pc c + d) c)))"

definition branch_if :: "bool \<Rightarrow> u16 \<Rightarrow> core \<Rightarrow> core" where
  "branch_if b i c = (if b then branch i c else adv 1 1 c)"

text \<open>The flag that each branch looks at, and the value on which it is taken.\<close>

fun exec_br :: "br_op \<Rightarrow> u16 \<Rightarrow> core \<Rightarrow> core" where
  "exec_br OP_BRCC i c = branch_if (\<not> bit (sreg c) fC) i c"
| "exec_br OP_BRCS i c = branch_if (bit (sreg c) fC) i c"
| "exec_br OP_BREQ i c = branch_if (bit (sreg c) fZ) i c"
| "exec_br OP_BRNE i c = branch_if (\<not> bit (sreg c) fZ) i c"
| "exec_br OP_BRGE i c = branch_if (\<not> bit (sreg c) fS) i c"
| "exec_br OP_BRHC i c = branch_if (\<not> bit (sreg c) fH) i c"
| "exec_br OP_BRHS i c = branch_if (bit (sreg c) fH) i c"
| "exec_br OP_BRID i c = branch_if (\<not> bit (sreg c) fI) i c"
| "exec_br OP_BRIE i c = branch_if (bit (sreg c) fI) i c"
| "exec_br OP_BRLT i c = branch_if (bit (sreg c) fS) i c"
| "exec_br OP_BRMI i c = branch_if (bit (sreg c) fN) i c"
| "exec_br OP_BRPL i c = branch_if (\<not> bit (sreg c) fN) i c"
| "exec_br OP_BRTC i c = branch_if (\<not> bit (sreg c) fT) i c"
| "exec_br OP_BRTS i c = branch_if (bit (sreg c) fT) i c"
| "exec_br OP_BRVC i c = branch_if (\<not> bit (sreg c) fV) i c"
| "exec_br OP_BRVS i c = branch_if (bit (sreg c) fV) i c"

section \<open>Skips and bits\<close>

text \<open>The skip that \<open>cpse\<close>, \<open>sbrc\<close>, \<open>sbrs\<close>, \<open>sbic\<close> and \<open>sbis\<close> share: over the next instruction.\<close>

definition skip_next :: "core \<Rightarrow> sim_error + core" where
  "skip_next c =
     bindE (Flash_at (c_flash c) (c_pc c + 1))
       (\<lambda>nx. Inr (adv (int (ins_size nx) + 1) (of_nat (ins_size nx) + 1) c))"

definition op_CPSE :: "u16 \<Rightarrow> core \<Rightarrow> sim_error + core" where
  "op_CPSE i c =
     (if gr8 c (fld_d i) \<noteq> gr8 c (fld_r i) then Inr (adv 1 1 c) else skip_next c)"

definition op_SBRC :: "u16 \<Rightarrow> core \<Rightarrow> sim_error + core" where
  "op_SBRC i c = (if bit (gr8 c (fld_d i)) (fld_b i) then Inr (adv 1 1 c) else skip_next c)"

definition op_SBRS :: "u16 \<Rightarrow> core \<Rightarrow> sim_error + core" where
  "op_SBRS i c = (if bit (gr8 c (fld_d i)) (fld_b i) then skip_next c else Inr (adv 1 1 c))"

definition op_BLD :: "u16 \<Rightarrow> core \<Rightarrow> core" where
  "op_BLD i c =
     (let bit_n = fld_b i; reg_n = fld_d i
      in adv 1 1 (if bit (sreg c) fT then set_gr8 reg_n (set_bit bit_n (gr8 c reg_n)) c
                  else set_gr8 reg_n (unset_bit bit_n (gr8 c reg_n)) c))"

definition op_BST :: "u16 \<Rightarrow> core \<Rightarrow> core" where
  "op_BST i c =
     (let bit_n = fld_b i; reg_n = fld_d i
      in adv 1 1 (if bit (gr8 c reg_n) bit_n then set_sreg (set_bit fT (sreg c)) c
                  else set_sreg (unset_bit fT (sreg c)) c))"

definition op_SBIC :: "u16 \<Rightarrow> core \<Rightarrow> sim_error + core" where
  "op_SBIC i c = (if \<not> bit (io8 c (fld_A5 i)) (fld_b i) then skip_next c else Inr (adv 1 1 c))"

definition op_SBIS :: "u16 \<Rightarrow> core \<Rightarrow> sim_error + core" where
  "op_SBIS i c = (if bit (io8 c (fld_A5 i)) (fld_b i) then skip_next c else Inr (adv 1 1 c))"

definition op_CBI :: "u16 \<Rightarrow> core \<Rightarrow> core" where
  "op_CBI i c =
     (let A = fld_A5 i; b = fld_b i in adv 1 2 (set_io8 A (unset_bit b (io8 c A)) c))"

definition op_SBI :: "u16 \<Rightarrow> core \<Rightarrow> core" where
  "op_SBI i c =
     (let A = fld_A5 i; b = fld_b i in adv 1 2 (set_io8 A (set_bit b (io8 c A)) c))"

definition op_IN :: "u16 \<Rightarrow> core \<Rightarrow> core" where
  "op_IN i c = (let Rd = fld_d i; A = fld_A i in adv 1 1 (set_gr8 Rd (io8 c A) c))"

definition op_OUT :: "u16 \<Rightarrow> core \<Rightarrow> core" where
  "op_OUT i c = (let Rr = fld_d i; A = fld_A i in adv 1 1 (set_io8 A (gr8 c Rr) c))"

section \<open>Loads and stores\<close>

definition op_STS :: "u16 \<Rightarrow> core \<Rightarrow> sim_error + core" where
  "op_STS i c =
     (let reg_n = fld_d i
      in bindE (Flash_at (c_flash c) (c_pc c + 1)) (\<lambda>w.
           mapE (adv 2 2) (sram_put (uint (ins_word w)) (gr8 c reg_n) c)))"

definition op_LDS :: "u16 \<Rightarrow> core \<Rightarrow> sim_error + core" where
  "op_LDS i c =
     (let reg_n = fld_d i
      in bindE (Flash_at (c_flash c) (c_pc c + 1)) (\<lambda>w.
           bindE (sram_at c (uint (ins_word w))) (\<lambda>v. Inr (adv 2 2 (set_gr8 reg_n v c)))))"

text \<open>
  The three addressing modes of a store through an index register \<open>X\<close>, \<open>Y\<close> or \<open>Z\<close>, and the
  displacement mode of \<open>Y\<close> and \<open>Z\<close>; then those of a load, with the cycles that differ.
\<close>

definition st_idx :: "nat \<Rightarrow> u16 \<Rightarrow> core \<Rightarrow> sim_error + core" where
  "st_idx p i c =
     (let Rr = fld_d i in mapE (adv 1 2) (sram_put (uint (gr16 c p)) (gr8 c Rr) c))"

definition st_post_inc :: "nat \<Rightarrow> u16 \<Rightarrow> core \<Rightarrow> sim_error + core" where
  "st_post_inc p i c =
     (let Rr = fld_d i; v = gr8 c Rr; x = gr16 c p; c = set_gr16 p (x + 1) c
      in mapE (adv 1 2) (sram_put (uint x) v c))"

definition st_pre_dec :: "nat \<Rightarrow> u16 \<Rightarrow> core \<Rightarrow> sim_error + core" where
  "st_pre_dec p i c =
     (let Rr = fld_d i; v = gr8 c Rr; c = set_gr16 p (gr16 c p - 1) c
      in mapE (adv 1 2) (sram_put (uint (gr16 c p)) v c))"

definition std_idx :: "nat \<Rightarrow> u16 \<Rightarrow> core \<Rightarrow> sim_error + core" where
  "std_idx p i c =
     (let Rr = fld_d i; q = fld_q i
      in mapE (adv 1 2) (sram_put (uint (gr16 c p) + q) (gr8 c Rr) c))"

definition ld_idx :: "nat \<Rightarrow> u16 \<Rightarrow> core \<Rightarrow> sim_error + core" where
  "ld_idx p i c =
     (let Rr = fld_d i
      in bindE (sram_at c (uint (gr16 c p))) (\<lambda>v. Inr (adv 1 1 (set_gr8 Rr v c))))"

definition ld_post_inc :: "nat \<Rightarrow> u16 \<Rightarrow> core \<Rightarrow> sim_error + core" where
  "ld_post_inc p i c =
     (let Rr = fld_d i; x = gr16 c p; c = set_gr16 p (x + 1) c
      in bindE (sram_at c (uint x)) (\<lambda>v. Inr (adv 1 2 (set_gr8 Rr v c))))"

definition ld_pre_dec :: "nat \<Rightarrow> u16 \<Rightarrow> core \<Rightarrow> sim_error + core" where
  "ld_pre_dec p i c =
     (let Rr = fld_d i; c = set_gr16 p (gr16 c p - 1) c
      in bindE (sram_at c (uint (gr16 c p))) (\<lambda>v. Inr (adv 1 3 (set_gr8 Rr v c))))"

definition ldd_idx :: "nat \<Rightarrow> u16 \<Rightarrow> core \<Rightarrow> sim_error + core" where
  "ldd_idx p i c =
     (let Rr = fld_d i; q = fld_q i
      in bindE (sram_at c (uint (gr16 c p) + q)) (\<lambda>v. Inr (adv 1 3 (set_gr8 Rr v c))))"

definition lpm_byte :: "u16 \<Rightarrow> core \<Rightarrow> sim_error + u8" where
  "lpm_byte z c =
     (if length (c_flash c) * 2 \<le> unat z then Inl InvalidLpmSource
      else Flash_get_byte (c_flash c) z)"

definition op_LPM :: "core \<Rightarrow> sim_error + core" where
  "op_LPM c = bindE (lpm_byte (gr16 c IndexRegZ) c) (\<lambda>v. Inr (adv 1 3 (set_gr8 0 v c)))"

definition op_LPM_R :: "u16 \<Rightarrow> core \<Rightarrow> sim_error + core" where
  "op_LPM_R i c =
     (let Rd = fld_d i
      in bindE (lpm_byte (gr16 c IndexRegZ) c) (\<lambda>v. Inr (adv 1 3 (set_gr8 Rd v c))))"

definition op_LPM_R_POST_INC :: "u16 \<Rightarrow> core \<Rightarrow> sim_error + core" where
  "op_LPM_R_POST_INC i c =
     (let Rd = fld_d i; tmp16 = gr16 c IndexRegZ; c = set_gr16 IndexRegZ (tmp16 + 1) c
      in bindE (lpm_byte tmp16 c) (\<lambda>v. Inr (adv 1 3 (set_gr8 Rd v c))))"

fun exec_st :: "mem_op \<Rightarrow> u16 \<Rightarrow> core \<Rightarrow> sim_error + core" where
  "exec_st OP_STS i c = op_STS i c"
| "exec_st OP_LDS i c = op_LDS i c"
| "exec_st OP_ST_X i c = st_idx IndexRegX i c"
| "exec_st OP_ST_X_POST_INC i c = st_post_inc IndexRegX i c"
| "exec_st OP_ST_X_PRE_DEC i c = st_pre_dec IndexRegX i c"
| "exec_st OP_ST_Y i c = st_idx IndexRegY i c"
| "exec_st OP_ST_Y_POST_INC i c = st_post_inc IndexRegY i c"
| "exec_st OP_ST_Y_PRE_DEC i c = st_pre_dec IndexRegY i c"
| "exec_st OP_STD_Y i c = std_idx IndexRegY i c"
| "exec_st OP_ST_Z i c = st_idx IndexRegZ i c"
| "exec_st OP_ST_Z_POST_INC i c = st_post_inc IndexRegZ i c"
| "exec_st OP_ST_Z_PRE_DEC i c = st_pre_dec IndexRegZ i c"
| "exec_st OP_STD_Z i c = std_idx IndexRegZ i c"
| "exec_st _ i c = Inl (UnknownInstruction i)"

fun exec_mem :: "mem_op \<Rightarrow> u16 \<Rightarrow> core \<Rightarrow> sim_error + core" where
  "exec_mem OP_LD_X i c = ld_idx IndexRegX i c"
| "exec_mem OP_LD_X_POST_INC i c = ld_post_inc IndexRegX i c"
| "exec_mem OP_LD_X_PRE_DEC i c = ld_pre_dec IndexRegX i c"
| "exec_mem OP_LD_Y i c = ld_idx IndexRegY i c"
| "exec_mem OP_LD_Y_POST_INC i c = ld_post_inc IndexRegY i c"
| "exec_mem OP_LD_Y_PRE_DEC i c = ld_pre_dec IndexRegY i c"
| "exec_mem OP_LDD_Y i c = ldd_idx IndexRegY i c"
| "exec_mem OP_LD_Z i c = ld_idx IndexRegZ i c"
| "exec_mem OP_LD_Z_POST_INC i c = ld_post_inc IndexRegZ i c"
| "exec_mem OP_LD_Z_PRE_DEC i c = ld_pre_dec IndexRegZ i c"
| "exec_mem OP_LDD_Z i c = ldd_idx IndexRegZ i c"
| "exec_mem OP_LPM i c = op_LPM c"
| "exec_mem OP_LPM_R i c = op_LPM_R i c"
| "exec_mem OP_LPM_R_POST_INC i c = op_LPM_R_POST_INC i c"
| "exec_mem op i c = exec_st op i c"

section \<open>The simulator's own instructions\<close>

definition op_FAKE_UDR_OUT :: "u16 \<Rightarrow> core \<Rightarrow> core" where
  "op_FAKE_UDR_OUT i c =
     (let c = set_gr8 UCSRA (set_bit 6 (gr8 c UCSRA)) c;
          c = (if c_mstate c
               then c\<lparr>c_outs := c_outs c @ [UartPut (gr8 c (unat (i AND 0x1F))) (c_dev_addr c)],
                      c_ev := (c_ev c)\<lparr>tx_in_progress := True\<rparr>\<rparr>
               else c)
      in adv 1 1 c)"

text \<open>
  The debug instruction prints: a number, the bytes of a frame of the firmware (at \<open>0xdd\<close> or
  \<open>0xe9\<close>, its length in the fourth byte of its header), or a marker byte.
\<close>

definition op_FAKE_DEBUG :: "u16 \<Rightarrow> core \<Rightarrow> core" where
  "op_FAKE_DEBUG i c =
     (let code = uint (drop_bit 3 i AND 0x07);
          addr = uint (i AND 0x07);
          frame = (if addr = 2 then 0xdd else 0xe9);
          shown =
            (if code = 2 \<or> code = 1 then take (unat (c_sram c ! (frame + 3))) (drop frame (c_sram c))
             else if code = 3 then [c_sram c ! 0x60]
             else [])
      in adv 1 1 (if code \<le> 3 then c\<lparr>c_outs := c_outs c @ [Debug code addr shown]\<rparr> else c))"

definition op_FAKE_SIGNAL :: "core \<Rightarrow> core" where
  "op_FAKE_SIGNAL c =
     adv 1 1 (if c_signal c then c\<lparr>c_outs := c_outs c @ [Signal (c_sram c)]\<rparr> else c)"

section \<open>The switch\<close>

text \<open>The cases by group of opcodes; an opcode without a case throws \<open>unknown_insruction\<close>.\<close>

fun exec_ctl :: "ctl_op \<Rightarrow> u16 \<Rightarrow> core \<Rightarrow> sim_error + core" where
  "exec_ctl OP_NOP i c = Inr (adv 1 1 c)"
| "exec_ctl OP_ICALL i c = op_ICALL c"
| "exec_ctl OP_IJMP i c = Inr (op_IJMP c)"
| "exec_ctl OP_RET i c = op_RET c"
| "exec_ctl OP_RETI i c = op_RETI c"
| "exec_ctl OP_WDR i c = Inr (adv 1 1 c)"
| "exec_ctl OP_SPM i c = bindE (do_spm (adv 1 0 c)) (\<lambda>c. Inr (add_cc 4 c))"
| "exec_ctl OP_SLEEP i c = Inl (UnknownInstruction i)"
| "exec_ctl OP_BREAK i c = Inl (UnknownInstruction i)"

fun exec_alu :: "alu_op \<Rightarrow> u16 \<Rightarrow> core \<Rightarrow> sim_error + core" where
  "exec_alu OP_LDI i c = Inr (op_LDI i c)"
| "exec_alu OP_ADD i c = Inr (op_ADD i c)"
| "exec_alu OP_ADC i c = Inr (op_ADC i c)"
| "exec_alu OP_SUB i c = Inr (op_SUB i c)"
| "exec_alu OP_SBC i c = Inr (op_SBC i c)"
| "exec_alu OP_SUBI i c = Inr (op_SUBI i c)"
| "exec_alu OP_SBCI i c = Inr (op_SBCI i c)"
| "exec_alu OP_OR i c = Inr (op_OR i c)"
| "exec_alu OP_AND i c = Inr (op_AND i c)"
| "exec_alu OP_EOR i c = Inr (op_EOR i c)"
| "exec_alu OP_ORI i c = Inr (op_ORI i c)"
| "exec_alu OP_ANDI i c = Inr (op_ANDI i c)"
| "exec_alu OP_CP i c = Inr (op_CP i c)"
| "exec_alu OP_CPC i c = Inr (op_CPC i c)"
| "exec_alu OP_CPI i c = Inr (op_CPI i c)"
| "exec_alu OP_CPSE i c = op_CPSE i c"

fun exec_bit :: "bit_op \<Rightarrow> u16 \<Rightarrow> core \<Rightarrow> sim_error + core" where
  "exec_bit OP_SBRC i c = op_SBRC i c"
| "exec_bit OP_SBRS i c = op_SBRS i c"
| "exec_bit OP_BLD i c = Inr (op_BLD i c)"
| "exec_bit OP_BST i c = Inr (op_BST i c)"
| "exec_bit OP_IN i c = Inr (op_IN i c)"
| "exec_bit OP_OUT i c = Inr (op_OUT i c)"
| "exec_bit OP_ADIW i c = Inr (op_ADIW i c)"
| "exec_bit OP_SBIW i c = Inr (op_SBIW i c)"
| "exec_bit OP_CBI i c = Inr (op_CBI i c)"
| "exec_bit OP_SBI i c = Inr (op_SBI i c)"
| "exec_bit OP_SBIC i c = op_SBIC i c"
| "exec_bit OP_SBIS i c = op_SBIS i c"

fun exec_jmp :: "jmp_op \<Rightarrow> u16 \<Rightarrow> core \<Rightarrow> sim_error + core" where
  "exec_jmp OP_RCALL i c = op_RCALL i c"
| "exec_jmp OP_RJMP i c = Inr (op_RJMP i c)"
| "exec_jmp OP_CALL i c = op_CALL c"
| "exec_jmp OP_JMP i c = op_JMP c"

fun exec_reg :: "reg_op \<Rightarrow> u16 \<Rightarrow> core \<Rightarrow> sim_error + core" where
  "exec_reg OP_ASR i c = Inr (op_ASR i c)"
| "exec_reg OP_COM i c = Inr (op_COM i c)"
| "exec_reg OP_DEC i c = Inr (op_DEC i c)"
| "exec_reg OP_INC i c = Inr (op_INC i c)"
| "exec_reg OP_LSR i c = Inr (op_LSR i c)"
| "exec_reg OP_NEG i c = Inr (op_NEG i c)"
| "exec_reg OP_POP i c = op_POP i c"
| "exec_reg OP_PUSH i c = op_PUSH i c"
| "exec_reg OP_ROR i c = Inr (op_ROR i c)"
| "exec_reg OP_SWAP i c = Inr (op_SWAP i c)"
| "exec_reg OP_MOV i c = Inr (op_MOV i c)"
| "exec_reg OP_MOVW i c = Inr (op_MOVW i c)"
| "exec_reg OP_MUL i c = Inr (op_MUL i c)"
| "exec_reg OP_MULS i c = Inr (op_MULS i c)"
| "exec_reg OP_MULSU i c = Inr (op_MULSU i c)"

fun exec_fake :: "fake_op \<Rightarrow> u16 \<Rightarrow> core \<Rightarrow> sim_error + core" where
  "exec_fake OP_FAKE_UDR_OUT i c = Inr (op_FAKE_UDR_OUT i c)"
| "exec_fake OP_FAKE_DEBUG i c = Inr (op_FAKE_DEBUG i c)"
| "exec_fake OP_FAKE_SIGNAL i c = Inr (op_FAKE_SIGNAL c)"
| "exec_fake OP_UNKNOWN i c = Inl (UnknownInstruction i)"

fun exec_op :: "AVR_OPCODE \<Rightarrow> u16 \<Rightarrow> core \<Rightarrow> sim_error + core" where
  "exec_op (Flag op) i c = Inr (exec_flag op c)"
| "exec_op (Ctl op) i c = exec_ctl op i c"
| "exec_op (Alu op) i c = exec_alu op i c"
| "exec_op (Bit op) i c = exec_bit op i c"
| "exec_op (Br op) i c = Inr (exec_br op i c)"
| "exec_op (Jmp op) i c = exec_jmp op i c"
| "exec_op (Reg op) i c = exec_reg op i c"
| "exec_op (Mem op) i c = exec_mem op i c"
| "exec_op (Fake op) i c = exec_fake op i c"

section \<open>Step\<close>

text \<open>The timer ticks that the peripherals have requested.\<close>

definition tick_tcnt0 :: "core \<Rightarrow> core" where
  "tick_tcnt0 c =
     (if increase_tcnt0 (c_ev c)
      then (set_gr8 TCNT0 (gr8 c TCNT0 + 1) c)
             \<lparr>c_ev := (c_ev c)\<lparr>increase_tcnt0 := False, tcnt0_increased := True\<rparr>\<rparr>
      else c)"

definition tick_tcnt2 :: "core \<Rightarrow> core" where
  "tick_tcnt2 c =
     (if increase_tcnt2 (c_ev c)
      then (set_gr8 TCNT2 (gr8 c TCNT2 + 1) c)
             \<lparr>c_ev := (c_ev c)\<lparr>increase_tcnt2 := False, tcnt2_increased := True\<rparr>\<rparr>
      else c)"

definition log_pc :: "core \<Rightarrow> core" where
  "log_pc c = c\<lparr>c_last_pc := c_last_pc c @ [word_of_int (c_pc c)]\<rparr>"

text \<open>The entry of an interrupt at vector \<open>a\<close>.\<close>

definition interrupt_entry :: "u16 \<Rightarrow> core \<Rightarrow> sim_error + core" where
  "interrupt_entry a c =
     bindE (push_pc (c_pc c) c)
       (\<lambda>c. Inr (add_cc 4 (set_sreg (unset_bit fI (sreg c)) (set_pc (uint a) c))))"

definition fetch_exec :: "core \<Rightarrow> sim_error + core" where
  "fetch_exec c =
     bindE (Flash_at (c_flash c) (c_pc c)) (\<lambda>cmd. exec_op (ins_op cmd) (ins_word cmd) c)"

text \<open>What one call does after the ticks and the interrupt check.\<close>

definition step_body :: "core \<Rightarrow> sim_error + core" where
  "step_body c =
     (if bit (gr8 c EECR) EERE then mapE (add_cc 4) (read_eeprom c)
      else if bit (gr8 c EECR) EEWE then mapE (add_cc 2) (write_eeprom c)
      else fetch_exec c)"

text \<open>
  \<open>irq\<close> is what the interrupt queue (a lock-free queue of the boost library) delivers to
  \<open>consume_one\<close>: \<open>None\<close> when it is empty. It is only consulted when the I flag is set. The result
  is the number of cycles and the new state.
\<close>

definition Step :: "u16 option \<Rightarrow> core \<Rightarrow> sim_error + (u64 \<times> core)" where
  "Step irq c0 =
     (let c = log_pc (tick_tcnt2 (tick_tcnt0 c0))
      in case (if bit (sreg c) fI then irq else None) of
           Some a \<Rightarrow> mapE (\<lambda>c'. (4, c')) (interrupt_entry a c)
         | None \<Rightarrow> mapE (\<lambda>c'. (ucast (c_cc c' - c_cc c), c')) (step_body c))"

end
