(* ===== verification/Avr_Alu.thy ===== *)
theory Avr_Alu
  imports Avr_Exec
begin

text \<open>
  The arithmetic instructions of \<open>Avr_Exec\<close> against the flag equations of the AVR instruction set
  manual. The code computes with the host's \<open>add\<close>, \<open>adc\<close>, \<open>sub\<close> and \<open>sbb\<close> and moves the host's
  flags with shifts; \<open>manual_add\<close> and \<open>manual_sub\<close> are the manual's equations over single bits of
  the operands and the result, and the lemmas show where the two agree and where the code departs
  from the manual (\<open>adc\<close>, \<open>neg\<close>, \<open>asr\<close>).
\<close>

section \<open>Operand fields are in range\<close>

lemma fld_bounds [simp, isa_simps]:
  "fld_d i < 32" "fld_r i < 32" "fld_dh i < 32" "16 \<le> fld_dh i" "fld_A i < 64" "fld_A5 i < 32"
  "fld_b i < 8" "fld_dw i + 1 < 32" "24 \<le> fld_dw i"
proof -
  have r: "(i AND 0x0F) OR drop_bit 5 (i AND 0x200) = ((i AND 0x0F) OR drop_bit 5 (i AND 0x200)) AND 0x1F"
    by (simp add: word16_bits)
  have A: "(i AND 0x0F) OR drop_bit 5 (i AND 0x600) = ((i AND 0x0F) OR drop_bit 5 (i AND 0x600)) AND 0x3F"
    by (simp add: word16_bits)
  show "fld_r i < 32" "fld_A i < 64"
    unfolding fld_r_def fld_A_def by (subst r, rule word_field_less) (subst A, rule word_field_less)
  show "fld_d i < 32" "fld_dh i < 32" "16 \<le> fld_dh i" "fld_A5 i < 32" "fld_b i < 8"
    "fld_dw i + 1 < 32" "24 \<le> fld_dw i"
    using word_field_less [of "drop_bit 4 i"] word_field_less [of "drop_bit 3 i"] word_field_less [of i]
    by (simp_all add: fld_d_def fld_dh_def fld_A5_def fld_b_def fld_dw_def)
qed

section \<open>The status register\<close>

lemma sreg_update_sreg [core_simps]:
  "core_wf c \<Longrightarrow> sreg (update_sreg m v c) = (sreg c AND NOT m) OR v"
  by (simp add: reg_defs gr8_set_gr8 core_wf_sram)

lemma sreg_set_gr8 [core_simps]: "n < 0x5F \<Longrightarrow> sreg (set_gr8 n v c) = sreg c"
  by (simp add: sreg_def gr8_set_gr8)

lemma sreg_set_fld [simp]:
  "sreg (set_gr8 (fld_d i) v c) = sreg c" "sreg (set_gr8 (fld_dh i) v c) = sreg c"
  by (rule sreg_set_gr8, rule less_trans [of _ 32]; simp)+

lemma sreg_set_gr16 [core_simps]: "n < 0x5E \<Longrightarrow> sreg (set_gr16 n v c) = sreg c"
  by (simp add: sreg_def gr8_set_gr16)

lemma sreg_set_sreg [core_simps]: "core_wf c \<Longrightarrow> sreg (set_sreg v c) = v"
  by (simp add: reg_defs gr8_set_gr8 core_wf_sram)

lemma gr8_update_sreg [core_simps]: "n < 0x5F \<Longrightarrow> gr8 (update_sreg m v c) n = gr8 c n"
  by (simp add: reg_defs gr8_set_gr8)

lemma gr8_set_sreg [core_simps]: "n < 0x5F \<Longrightarrow> gr8 (set_sreg v c) n = gr8 c n"
  by (simp add: reg_defs gr8_set_gr8)

lemma gr8_set_gr8_wf [core_simps]:
  "core_wf c \<Longrightarrow> m < 32 \<Longrightarrow> gr8 (set_gr8 n v c) m = (if n = m then v else gr8 c m)"
  by (simp add: gr8_set_gr8 core_wf_sram)

lemma update_sreg_frame [simp]:
  "c_pc (update_sreg m v c) = c_pc c" "c_cc (update_sreg m v c) = c_cc c"
  "c_flash (update_sreg m v c) = c_flash c" "c_eeprom (update_sreg m v c) = c_eeprom c"
  "c_mc (update_sreg m v c) = c_mc c" "c_outs (update_sreg m v c) = c_outs c"
  by (simp_all add: reg_defs)

text \<open>The moves of the host's flags to their AVR places.\<close>

lemma ef_simps [simp]:
  "ef_c (eflags_of cf af zf sf ovf) = of_bool cf"
  "ef_h (eflags_of cf af zf sf ovf) = push_bit 5 (of_bool af)"
  "ef_z (eflags_of cf af zf sf ovf) = push_bit 1 (of_bool zf)"
  "ef_n (eflags_of cf af zf sf ovf) = push_bit 2 (of_bool sf)"
  "ef_v (eflags_of cf af zf sf ovf) = push_bit 3 (of_bool ovf)"
  by (cases cf; cases af; cases zf; cases sf; cases ovf;
      simp add: eflags_of_def ef_c_def ef_h_def ef_z_def ef_n_def ef_v_def)+

text \<open>\<open>sreg_flags\<close> is the status byte with the six arithmetic flags of a result.\<close>

definition sreg_flags :: "u8 \<Rightarrow> bool \<Rightarrow> bool \<Rightarrow> bool \<Rightarrow> bool \<Rightarrow> bool \<Rightarrow> bool \<Rightarrow> u8" where
  "sreg_flags old h s v n z c =
     (old AND 0xC0) OR push_bit 5 (of_bool h) OR push_bit 4 (of_bool s) OR push_bit 3 (of_bool v) OR
     push_bit 2 (of_bool n) OR push_bit 1 (of_bool z) OR of_bool c"

lemma bit_sreg_flags [simp]:
  "bit (sreg_flags old h s v n z c) 0 = c" "bit (sreg_flags old h s v n z c) (Suc 0) = z"
  "bit (sreg_flags old h s v n z c) 2 = n" "bit (sreg_flags old h s v n z c) 3 = v"
  "bit (sreg_flags old h s v n z c) 4 = s" "bit (sreg_flags old h s v n z c) 5 = h"
  "bit (sreg_flags old h s v n z c) 6 = bit old 6" "bit (sreg_flags old h s v n z c) 7 = bit old 7"
  by (auto simp: sreg_flags_def bit_simps)

lemma minus_mask: "(- 64 :: u8) = 0xC0"
  by simp

lemma alu8_sreg_value:
  "alu8_sreg (eflags_of cf af zf sf ovf) (push_bit 1 (of_bool z)) c =
     set_sreg (sreg_flags (sreg c) af (sf \<noteq> ovf) ovf sf z cf) c"
  by (cases cf; cases af; cases z; cases sf; cases ovf;
      simp add: alu8_sreg_def Let_def update_sreg_def mask_alu8_def sreg_flags_def minus_mask)

lemma zero_chain:
  "push_bit 1 (of_bool zf) AND getf_zero c = push_bit 1 (of_bool (zf \<and> bit (sreg c) fZ))"
  by (auto simp: getf_zero_def word8_bits)

lemma flag_of_set_sreg [core_simps]:
  "core_wf c \<Longrightarrow> sreg (adv p k (set_sreg v c)) = v"
  by (simp add: sreg_set_sreg)

section \<open>The manual's equations\<close>

text \<open>
  The half carry, carry, overflow, sign, negative and zero flags of the manual for an addition of
  \<open>a\<close> and \<open>b\<close> with result \<open>r\<close>; for a subtraction; \<open>z\<close> is the zero flag, which \<open>sbc\<close>, \<open>sbci\<close> and
  \<open>cpc\<close> only ever clear.
\<close>

definition manual_add :: "u8 \<Rightarrow> u8 \<Rightarrow> u8 \<Rightarrow> u8 \<Rightarrow> u8" where
  "manual_add old a b r =
     (let h = (bit a 3 \<and> bit b 3) \<or> (bit b 3 \<and> \<not> bit r 3) \<or> (\<not> bit r 3 \<and> bit a 3);
          v = (bit a 7 \<and> bit b 7 \<and> \<not> bit r 7) \<or> (\<not> bit a 7 \<and> \<not> bit b 7 \<and> bit r 7);
          n = bit r 7;
          c = (bit a 7 \<and> bit b 7) \<or> (bit b 7 \<and> \<not> bit r 7) \<or> (\<not> bit r 7 \<and> bit a 7)
      in sreg_flags old h (n \<noteq> v) v n (r = 0) c)"

definition manual_sub :: "u8 \<Rightarrow> u8 \<Rightarrow> u8 \<Rightarrow> u8 \<Rightarrow> bool \<Rightarrow> u8" where
  "manual_sub old a b r z =
     (let h = (\<not> bit a 3 \<and> bit b 3) \<or> (bit b 3 \<and> bit r 3) \<or> (bit r 3 \<and> \<not> bit a 3);
          v = (bit a 7 \<and> \<not> bit b 7 \<and> \<not> bit r 7) \<or> (\<not> bit a 7 \<and> bit b 7 \<and> bit r 7);
          n = bit r 7;
          c = (\<not> bit a 7 \<and> bit b 7) \<or> (bit b 7 \<and> bit r 7) \<or> (bit r 7 \<and> \<not> bit a 7)
      in sreg_flags old h (n \<noteq> v) v n z c)"

lemma odd_div_iff: "m < 2 * k \<Longrightarrow> odd (m div k) \<longleftrightarrow> k \<le> (m :: nat)"
proof (cases "k \<le> m")
  case True
  moreover assume "m < 2 * k"
  ultimately have "m div k = 1" by (intro div_nat_eqI) simp_all
  then show ?thesis using True by simp
qed simp

lemma bit7_unat: "bit (a :: u8) 7 \<longleftrightarrow> 128 \<le> unat a"
proof -
  have "bit a 7 \<longleftrightarrow> odd (unat a div 128)"
    using bit_unsigned_iff [of a 7, where ?'a = nat] by (simp add: bit_iff_odd)
  then show ?thesis using odd_div_iff [of "unat a" 128] unat_less_256 [of a] by simp
qed

lemma bit3_unat: "bit (a :: u8) 3 \<longleftrightarrow> 8 \<le> unat a mod 16"
proof -
  have "bit a 3 \<longleftrightarrow> bit (take_bit 4 (unat a)) 3"
    using bit_unsigned_iff [of a 3, where ?'a = nat] by (simp only: bit_take_bit_iff) simp
  also have "\<dots> \<longleftrightarrow> odd (unat a mod 16 div 8)"
    by (simp only: bit_iff_odd take_bit_eq_mod) simp
  finally show ?thesis using odd_div_iff [of "unat a mod 16" 8] by simp
qed

lemma unat_nibble: "unat (take_bit 4 a :: u8) = unat a mod 16"
  by (simp only: unsigned_take_bit_eq) (simp add: take_bit_eq_mod)

lemma unat_add_carry: "unat (a + b + of_bool cf :: u8) = (unat a + unat b + of_bool cf) mod 256"
  by (simp add: unat_word_ariths mod_add_left_eq of_bool_def)

lemma unat_sub_borrow:
  "unat (a - b - of_bool cf :: u8) = (256 + unat a - unat b - of_bool cf) mod 256"
proof -
  have "a - b - of_bool cf = word_of_nat (256 + unat a - unat b - of_bool cf)"
    using unat_less_256 [of b] by (cases cf) (simp_all add: of_nat_diff)
  then show ?thesis by (simp add: unsigned_of_nat take_bit_eq_mod)
qed

text \<open>Carry and borrow of a sum, read off the top bits; once for bytes and once for nibbles.\<close>

lemma carry_out:
  fixes A B R m :: nat
  assumes "A < 2 * m" "B < 2 * m" "R = (A + B + of_bool cf) mod (2 * m)"
  shows "2 * m \<le> A + B + of_bool cf \<longleftrightarrow>
    (m \<le> A \<and> m \<le> B) \<or> (m \<le> B \<and> \<not> m \<le> R) \<or> (\<not> m \<le> R \<and> m \<le> A)"
proof (cases "2 * m \<le> A + B + of_bool cf")
  case True
  then have "R = A + B + of_bool cf - 2 * m"
    using assms by (cases cf) (simp_all add: le_mod_geq)
  then show ?thesis using True assms(1,2) by (cases cf) auto
next
  case False
  then have "R = A + B + of_bool cf" using assms by simp
  then show ?thesis using False by (cases cf) auto
qed

lemma borrow_out:
  fixes A B R m :: nat
  assumes "A < 2 * m" "B < 2 * m" "R = (2 * m + A - B - of_bool cf) mod (2 * m)"
  shows "A < B + of_bool cf \<longleftrightarrow>
    (\<not> m \<le> A \<and> m \<le> B) \<or> (m \<le> B \<and> m \<le> R) \<or> (m \<le> R \<and> \<not> m \<le> A)"
proof (cases "A < B + of_bool cf")
  case True
  then have "R = 2 * m + A - B - of_bool cf"
    using assms by (cases cf) simp_all
  then show ?thesis using True assms(1,2) by (cases cf) auto
next
  case False
  then have "2 * m + A - B - of_bool cf = 2 * m + (A - B - of_bool cf)"
    by (cases cf) auto
  then have "R = (2 * m + (A - B - of_bool cf)) mod (2 * m)"
    using assms(3) by simp
  then have "R = A - B - of_bool cf"
    using assms(1) by (simp only: mod_add_self1) simp
  then show ?thesis using False assms(1,2) by (cases cf) auto
qed

lemma nibble_sum: "(A + B + of_bool cf) mod 256 mod 16 = (A mod 16 + B mod 16 + of_bool cf) mod (16 :: nat)"
proof -
  have "(A + B + of_bool cf) mod 256 mod 16 = (A + B + of_bool cf) mod (16 :: nat)"
    by (rule mod_mod_cancel) simp
  also have "\<dots> = (A mod 16 + B mod 16 + of_bool cf) mod (16 :: nat)"
    by (metis mod_add_eq mod_add_left_eq)
  finally show ?thesis .
qed

lemma nibble_diff:
  assumes "B < 256"
  shows "(256 + A - B - of_bool cf) mod 256 mod 16 =
    (16 + A mod 16 - B mod 16 - of_bool cf) mod (16 :: nat)"
proof -
  have split: "256 + (a * 16 + a') - (b * 16 + b') - of_bool cf =
      (16 + a' - b' - of_bool cf) + 16 * (15 + a - b)"
    if "b \<le> 15" "b' < 16" "a' < 16" for a a' b b' :: nat
    using that by (cases cf) auto
  have "B div 16 \<le> 15"
    using less_mult_imp_div_less [of B 16 16] assms by simp
  then have "256 + A - B - of_bool cf =
      (16 + A mod 16 - B mod 16 - of_bool cf) + 16 * (15 + A div 16 - B div 16)"
    using split [of "B div 16" "B mod 16" "A mod 16" "A div 16"] by (simp only: div_mult_mod_eq mod_less_divisor zero_less_numeral simp_thms)
  then have "(256 + A - B - of_bool cf) mod 16 = (16 + A mod 16 - B mod 16 - of_bool cf) mod (16 :: nat)"
    by (simp only: mod_mult_self2)
  then show ?thesis by (simp add: mod_mod_cancel)
qed

lemma x86_adc_manual:
  fixes a b :: u8
  shows "x86_adc cf a b =
    (let r = a + b + of_bool cf
     in (r, eflags_of
       ((bit a 7 \<and> bit b 7) \<or> (bit b 7 \<and> \<not> bit r 7) \<or> (\<not> bit r 7 \<and> bit a 7))
       ((bit a 3 \<and> bit b 3) \<or> (bit b 3 \<and> \<not> bit r 3) \<or> (\<not> bit r 3 \<and> bit a 3))
       (r = 0) (bit r 7)
       ((bit a 7 \<and> bit b 7 \<and> \<not> bit r 7) \<or> (\<not> bit a 7 \<and> \<not> bit b 7 \<and> bit r 7))))"
proof -
  define r where "r = a + b + of_bool cf"
  have "256 \<le> unat a + unat b + of_bool cf \<longleftrightarrow>
      (bit a 7 \<and> bit b 7) \<or> (bit b 7 \<and> \<not> bit r 7) \<or> (\<not> bit r 7 \<and> bit a 7)"
    using carry_out [of "unat a" 128 "unat b" "unat r" cf] unat_less_256 [of a] unat_less_256 [of b]
    by (simp add: bit7_unat r_def unat_add_carry)
  moreover have "16 \<le> unat (take_bit 4 a) + unat (take_bit 4 b) + of_bool cf \<longleftrightarrow>
      (bit a 3 \<and> bit b 3) \<or> (bit b 3 \<and> \<not> bit r 3) \<or> (\<not> bit r 3 \<and> bit a 3)"
    using carry_out [of "unat a mod 16" 8 "unat b mod 16" "unat r mod 16" cf]
    by (simp only: unat_nibble bit3_unat r_def unat_add_carry nibble_sum) simp
  ultimately show ?thesis
    by (auto simp: x86_adc_def Let_def msb_of_def r_def [symmetric]
        intro!: arg_cong2 [where f = "\<lambda>x y. eflags_of x y _ _ _"] arg_cong [where f = "eflags_of _ _ _ _"])
qed

lemma x86_sbb_manual:
  fixes a b :: u8
  shows "x86_sbb cf a b =
    (let r = a - b - of_bool cf
     in (r, eflags_of
       ((\<not> bit a 7 \<and> bit b 7) \<or> (bit b 7 \<and> bit r 7) \<or> (bit r 7 \<and> \<not> bit a 7))
       ((\<not> bit a 3 \<and> bit b 3) \<or> (bit b 3 \<and> bit r 3) \<or> (bit r 3 \<and> \<not> bit a 3))
       (r = 0) (bit r 7)
       ((bit a 7 \<and> \<not> bit b 7 \<and> \<not> bit r 7) \<or> (\<not> bit a 7 \<and> bit b 7 \<and> bit r 7))))"
proof -
  define r where "r = a - b - of_bool cf"
  have "unat a < unat b + of_bool cf \<longleftrightarrow>
      (\<not> bit a 7 \<and> bit b 7) \<or> (bit b 7 \<and> bit r 7) \<or> (bit r 7 \<and> \<not> bit a 7)"
    using borrow_out [of "unat a" 128 "unat b" "unat r" cf] unat_less_256 [of a] unat_less_256 [of b]
    by (simp add: bit7_unat r_def unat_sub_borrow)
  moreover have "unat (take_bit 4 a) < unat (take_bit 4 b) + of_bool cf \<longleftrightarrow>
      (\<not> bit a 3 \<and> bit b 3) \<or> (bit b 3 \<and> bit r 3) \<or> (bit r 3 \<and> \<not> bit a 3)"
    using borrow_out [of "unat a mod 16" 8 "unat b mod 16" "unat r mod 16" cf] unat_less_256 [of b]
    by (simp only: unat_nibble bit3_unat r_def unat_sub_borrow nibble_diff) simp
  ultimately show ?thesis
    by (auto simp: x86_sbb_def Let_def msb_of_def r_def [symmetric]
        intro!: arg_cong2 [where f = "\<lambda>x y. eflags_of x y _ _ _"] arg_cong [where f = "eflags_of _ _ _ _"])
qed

section \<open>Addition, subtraction and comparison\<close>

lemma adc_result: "fst (x86_adc cf a b) = a + b + of_bool cf"
  by (simp add: x86_adc_def Let_def)

lemma sbb_result: "fst (x86_sbb cf a b) = a - b - of_bool cf"
  by (simp add: x86_sbb_def Let_def)

lemma adc_sreg:
  "alu8_sreg (snd (x86_adc cf a b)) (ef_z (snd (x86_adc cf a b))) c =
     set_sreg (manual_add (sreg c) a b (a + b + of_bool cf)) c"
  unfolding x86_adc_manual Let_def snd_conv ef_simps(3) alu8_sreg_value manual_add_def by (rule refl)

lemma sbb_sreg:
  "alu8_sreg (snd (x86_sbb cf a b)) (ef_z (snd (x86_sbb cf a b))) c =
     set_sreg (manual_sub (sreg c) a b (a - b - of_bool cf) (a - b - of_bool cf = 0)) c"
  unfolding x86_sbb_manual Let_def snd_conv ef_simps(3) alu8_sreg_value manual_sub_def by (rule refl)

lemma sbb_sreg_chain:
  "alu8_sreg (snd (x86_sbb cf a b)) (ef_z (snd (x86_sbb cf a b)) AND getf_zero c') c =
     set_sreg (manual_sub (sreg c) a b (a - b - of_bool cf)
       (a - b - of_bool cf = 0 \<and> bit (sreg c') fZ)) c"
  unfolding x86_sbb_manual Let_def snd_conv ef_simps(3) zero_chain alu8_sreg_value manual_sub_def
  by (rule refl)

lemmas alu_eqs = case_prod_beta Let_def adc_result sbb_result adc_sreg sbb_sreg sbb_sreg_chain
  getf_carry_def

text \<open>Each instruction as one update of the register and one of the status byte.\<close>

lemma op_ADD_manual:
  "op_ADD i c =
     (let a = gr8 c (fld_d i); b = gr8 c (fld_r i)
      in adv 1 1 (set_sreg (manual_add (sreg c) a b (a + b)) (set_gr8 (fld_d i) (a + b) c)))"
  by (simp add: op_ADD_def alu_eqs)

lemma op_SUB_manual:
  "op_SUB i c =
     (let a = gr8 c (fld_d i); b = gr8 c (fld_r i)
      in adv 1 1 (set_sreg (manual_sub (sreg c) a b (a - b) (a = b)) (set_gr8 (fld_d i) (a - b) c)))"
  by (simp add: op_SUB_def alu_eqs)

lemma op_SUBI_manual:
  "op_SUBI i c =
     (let a = gr8 c (fld_dh i); b = fld_K i
      in adv 1 1 (set_sreg (manual_sub (sreg c) a b (a - b) (a = b)) (set_gr8 (fld_dh i) (a - b) c)))"
  by (simp add: op_SUBI_def alu_eqs)

lemma op_CP_manual:
  "op_CP i c =
     (let a = gr8 c (fld_d i); b = gr8 c (fld_r i)
      in adv 1 1 (set_sreg (manual_sub (sreg c) a b (a - b) (a = b)) c))"
  by (simp add: op_CP_def alu_eqs)

lemma CPI_constant: "ucast ((i AND 0x0F) OR (drop_bit 4 i AND 0xF0)) = fld_K i"
  by (auto simp: fld_K_def word8_bits)

lemma op_CPI_manual:
  "op_CPI i c =
     (let a = gr8 c (fld_dh i); b = fld_K i
      in adv 1 1 (set_sreg (manual_sub (sreg c) a b (a - b) (a = b)) c))"
  by (simp add: op_CPI_def CPI_constant alu_eqs)

lemma op_SBC_manual:
  "op_SBC i c =
     (let a = gr8 c (fld_d i); b = gr8 c (fld_r i); r = a - b - of_bool (bit (sreg c) fC)
      in adv 1 1 (set_sreg (manual_sub (sreg c) a b r (r = 0 \<and> bit (sreg c) fZ))
           (set_gr8 (fld_d i) r c)))"
  by (simp add: op_SBC_def alu_eqs)

lemma op_SBCI_manual:
  "op_SBCI i c =
     (let a = gr8 c (fld_dh i); b = fld_K i; r = a - b - of_bool (bit (sreg c) fC)
      in adv 1 1 (set_sreg (manual_sub (sreg c) a b r (r = 0 \<and> bit (sreg c) fZ))
           (set_gr8 (fld_dh i) r c)))"
  by (simp add: op_SBCI_def alu_eqs)

lemma op_CPC_manual:
  "op_CPC i c =
     (let a = gr8 c (fld_d i); b = gr8 c (fld_r i); r = a - b - of_bool (bit (sreg c) fC)
      in adv 1 1 (set_sreg (manual_sub (sreg c) a b r (r = 0 \<and> bit (sreg c) fZ)) c))"
  by (simp add: op_CPC_def alu_eqs)

text \<open>\<open>adc\<close> is the manual's, but for the S flag, which the second assignment to \<open>s\<close> loses.\<close>

lemma adc_lost_sign:
  "update_sreg mask_alu8
     (push_bit 5 (of_bool af) OR (push_bit 2 (of_bool sf) XOR push_bit 3 (of_bool ovf)) OR
      push_bit 3 (of_bool ovf) OR push_bit 2 (of_bool sf) OR push_bit 1 (of_bool z) OR of_bool cf) c =
   set_sreg (sreg_flags (sreg c) af False ovf sf z cf) c"
  by (cases cf; cases af; cases z; cases sf; cases ovf;
      simp add: update_sreg_def mask_alu8_def sreg_flags_def minus_mask)

lemma unset_S_flags: "unset_bit fS (sreg_flags old h s v n z c) = sreg_flags old h False v n z c"
  by (auto simp: sreg_flags_def word8_bits bit_unset_bit_iff)

lemma op_ADC_manual:
  "op_ADC i c =
     (let a = gr8 c (fld_d i); b = gr8 c (fld_r i); r = a + b + of_bool (bit (sreg c) fC)
      in adv 1 1 (set_sreg (unset_bit fS (manual_add (sreg c) a b r)) (set_gr8 (fld_d i) r c)))"
  unfolding op_ADC_def Let_def x86_adc_manual case_prod_conv ef_simps adc_lost_sign
    manual_add_def unset_S_flags getf_carry_def sreg_set_fld
  by (rule refl)

text \<open>
  C8. The host's arithmetic implements the manual: \<open>add\<close>, \<open>sub\<close>, \<open>subi\<close>, \<open>cp\<close>, \<open>cpi\<close>, \<open>sbc\<close>,
  \<open>sbci\<close> and \<open>cpc\<close> store the 8-bit sum or difference in the destination register (the comparisons
  store nothing), set H, S, V, N, Z and C by the manual's equations, keep I and T, advance the
  program counter by one word and the cycle counter by one, and change nothing else.
\<close>

theorem arithmetic_manual:
  "(let a = gr8 c (fld_d i); b = gr8 c (fld_r i); a' = gr8 c (fld_dh i); k = fld_K i;
        old = sreg c; cy = of_bool (bit old fC); zf = bit old fZ
    in op_ADD i c = adv 1 1 (set_sreg (manual_add old a b (a + b)) (set_gr8 (fld_d i) (a + b) c)) \<and>
       op_SUB i c =
         adv 1 1 (set_sreg (manual_sub old a b (a - b) (a = b)) (set_gr8 (fld_d i) (a - b) c)) \<and>
       op_SUBI i c =
         adv 1 1 (set_sreg (manual_sub old a' k (a' - k) (a' = k)) (set_gr8 (fld_dh i) (a' - k) c)) \<and>
       op_CP i c = adv 1 1 (set_sreg (manual_sub old a b (a - b) (a = b)) c) \<and>
       op_CPI i c = adv 1 1 (set_sreg (manual_sub old a' k (a' - k) (a' = k)) c) \<and>
       op_SBC i c = adv 1 1 (set_sreg
         (manual_sub old a b (a - b - cy) (a - b - cy = 0 \<and> zf)) (set_gr8 (fld_d i) (a - b - cy) c)) \<and>
       op_SBCI i c = adv 1 1 (set_sreg
         (manual_sub old a' k (a' - k - cy) (a' - k - cy = 0 \<and> zf))
         (set_gr8 (fld_dh i) (a' - k - cy) c)) \<and>
       op_CPC i c = adv 1 1 (set_sreg (manual_sub old a b (a - b - cy) (a - b - cy = 0 \<and> zf)) c))"
  unfolding op_ADD_manual op_SUB_manual op_SUBI_manual op_CP_manual op_CPI_manual op_SBC_manual
    op_SBCI_manual op_CPC_manual Let_def by (intro conjI refl)

lemma arithmetic_manual_bits:
  "bit (manual_add old a b r) fT = bit old fT" "bit (manual_add old a b r) fI = bit old fI"
  "bit (manual_sub old a b r z) fT = bit old fT" "bit (manual_sub old a b r z) fI = bit old fI"
  "bit (manual_sub old a b r z) fZ = z" "bit (manual_add old a b r) fZ = (r = 0)"
  by (simp_all add: manual_add_def manual_sub_def Let_def)

lemma sint_byte: "sint (a :: u8) = int (unat a) - 256 * of_bool (128 \<le> unat a)"
  using uint_bounded [of a]
  by (simp add: sint_uint signed_take_bit_eq_take_bit_minus bit_uint_iff take_bit_eq_mod flip: bit7_unat)

lemma manual_sub_carry:
  "bit (manual_sub old a b (a - b - of_bool cf) z) fC \<longleftrightarrow> unat a < unat b + of_bool cf"
  using borrow_out [of "unat a" 128 "unat b" "unat (a - b - of_bool cf)" cf]
    unat_less_256 [of a] unat_less_256 [of b]
  by (simp add: manual_sub_def Let_def bit7_unat unat_sub_borrow)

lemma manual_add_carry:
  "bit (manual_add old a b (a + b + of_bool cf)) fC \<longleftrightarrow> 256 \<le> unat a + unat b + of_bool cf"
  using carry_out [of "unat a" 128 "unat b" "unat (a + b + of_bool cf)" cf]
    unat_less_256 [of a] unat_less_256 [of b]
  by (simp add: manual_add_def Let_def bit7_unat unat_add_carry)

text \<open>The sign of a difference with borrow: N xor V is the signed order.\<close>

lemma signed_borrow:
  fixes A B R :: nat
  assumes "A < 256" "B < 256"
    and "R = (if A < B + of_bool cf then 256 + A - B - of_bool cf else A - B - of_bool cf)"
  shows "(128 \<le> R) \<noteq> ((128 \<le> A \<and> \<not> 128 \<le> B \<and> \<not> 128 \<le> R) \<or> (\<not> 128 \<le> A \<and> 128 \<le> B \<and> 128 \<le> R)) \<longleftrightarrow>
    int A - 256 * of_bool (128 \<le> A) < int B - 256 * of_bool (128 \<le> B) + of_bool cf"
proof -
  have R: "int R = int A - int B - of_bool cf + 256 * of_bool (A < B + of_bool cf)"
    using assms by (cases cf) (auto simp: of_nat_diff)
  define x y where "x = (128 \<le> A)" "y = (128 \<le> B)"
  have "(128 \<le> R) = (128 \<le> int R)" by simp
  then show ?thesis
    unfolding R x_y_def [symmetric] using assms(1,2) x_y_def
    by (cases cf; cases x; cases y; cases "A < B + of_bool cf") (simp_all; arith)+
qed

lemma unat_sub_borrow_cases:
  "unat (a - b - of_bool cf :: u8) =
     (if unat a < unat b + of_bool cf then 256 + unat a - unat b - of_bool cf
      else unat a - unat b - of_bool cf)"
proof -
  have "(256 + A - B - of_bool cf) mod 256 =
      (if A < B + of_bool cf then 256 + A - B - of_bool cf else A - B - of_bool cf)"
    if "A < 256" "B < 256" for A B :: nat
  proof (cases "A < B + of_bool cf")
    case True
    then show ?thesis using that by (cases cf) simp_all
  next
    case False
    then have "256 + A - B - of_bool cf = 256 + (A - B - of_bool cf)"
      by (cases cf) auto
    then show ?thesis using False that(1) by (simp only: mod_add_self1) simp
  qed
  from this [OF unat_less_256 unat_less_256] show ?thesis
    unfolding unat_sub_borrow .
qed

lemma manual_sub_sign:
  "bit (manual_sub old a b (a - b - of_bool cf) z) fS \<longleftrightarrow> sint a < sint b + of_bool cf"
  using signed_borrow [OF unat_less_256 unat_less_256 unat_sub_borrow_cases, of a b cf]
  unfolding manual_sub_def Let_def bit_sreg_flags bit7_unat sint_byte .

lemma sint_join16: "sint (join16 l h) = int (unat l) + 256 * sint h"
proof -
  have "bit (join16 l h) 15 = bit h 7"
    using bit_imp_le_length [of l 15] by (auto simp: join16_def bit_simps)
  then have "sint (join16 l h) = uint (join16 l h) - 65536 * of_bool (bit h 7)"
    using uint_bounded [of "join16 l h"]
    by (simp add: sint_uint signed_take_bit_eq_take_bit_minus bit_uint_iff take_bit_eq_mod)
  then show ?thesis by (simp add: uint_join16 sint_byte bit7_unat)
qed

section \<open>Two-byte arithmetic\<close>

text \<open>
  C9. The idiom that the compiler uses for 16-bit comparisons: after \<open>cp\<close> on the low bytes and \<open>cpc\<close>
  on the high bytes, Z is equality of the 16-bit values, C is the unsigned order and S the signed
  order, so \<open>breq\<close>, \<open>brcs\<close> (\<open>brlo\<close>) and \<open>brlt\<close> branch on them; no register changes.
\<close>

theorem compare16:
  assumes "core_wf c"
    and "c2 = op_CPC i2 (op_CP i1 c)"
    and "a = join16 (gr8 c (fld_d i1)) (gr8 c (fld_d i2))"
    and "b = join16 (gr8 c (fld_r i1)) (gr8 c (fld_r i2))"
  shows "exec_br OP_BREQ k c2 = branch_if (a = b) k c2 \<and>
    exec_br OP_BRCS k c2 = branch_if (a < b) k c2 \<and>
    exec_br OP_BRLT k c2 = branch_if (a <s b) k c2 \<and>
    (\<forall>n < 32. gr8 c2 n = gr8 c n)"
proof -
  define al ah bl bh where fields: "al = gr8 c (fld_d i1)" "ah = gr8 c (fld_d i2)"
    "bl = gr8 c (fld_r i1)" "bh = gr8 c (fld_r i2)"
  define s1 where "s1 = manual_sub (sreg c) al bl (al - bl) (al = bl)"
  have c1: "sreg (op_CP i1 c) = s1" "core_wf (op_CP i1 c)" "n < 32 \<Longrightarrow> gr8 (op_CP i1 c) n = gr8 c n" for n
    using assms(1) by (simp_all add: op_CP_manual Let_def sreg_set_sreg s1_def fields gr8_set_sreg)
  define cf where "cf = (unat al < unat bl)"
  have cf: "bit s1 fC = cf"
    using manual_sub_carry [of "sreg c" al bl False "al = bl"] by (simp add: s1_def cf_def)
  have s2: "sreg c2 = manual_sub s1 ah bh (ah - bh - of_bool cf) (ah - bh - of_bool cf = 0 \<and> al = bl)"
    unfolding assms(2) op_CPC_manual using c1 cf arithmetic_manual_bits(5)
    by (simp add: Let_def sreg_set_sreg s1_def fields)
  have z: "bit (sreg c2) fZ \<longleftrightarrow> a = b"
    unfolding s2 arithmetic_manual_bits(5) assms(3,4) fields(1-4) [symmetric]
    by (cases "al = bl") (auto simp: cf_def)
  have carry: "bit (sreg c2) fC \<longleftrightarrow> a < b"
    unfolding s2 manual_sub_carry word_less_nat_alt assms(3,4) fields [symmetric] unat_join16 cf_def
    using unat_less_256 [of al] unat_less_256 [of bl] by (cases "unat al < unat bl") auto
  have sign: "bit (sreg c2) fS \<longleftrightarrow> a <s b"
    unfolding s2 manual_sub_sign word_sless_alt assms(3,4) fields [symmetric] sint_join16 cf_def
    using unat_less_256 [of al] unat_less_256 [of bl]
    by (cases "unat al < unat bl"; simp only: of_bool_eq; linarith)
  have "\<forall>n < 32. gr8 c2 n = gr8 c n"
    using c1 unfolding assms(2) op_CPC_manual by (simp add: Let_def gr8_set_sreg)
  then show ?thesis using z carry sign by simp
qed

text \<open>Witness: \<open>cp r16,r18; cpc r17,r19\<close> on \<open>0x0100\<close> and \<open>0x00FF\<close> in a fresh ATmega8.\<close>

definition fresh_core :: "u8 list \<Rightarrow> core" where
  "fresh_core regs =
     AVRCore_init MC_ATMEGA8 (Flash_init 0x1000) (regs @ replicate (0x460 - length regs) 0)
       (replicate 0x200 0) 64 0"

lemma fresh_core_wf: "length regs \<le> 0x460 \<Longrightarrow> core_wf (fresh_core regs)"
  using AVRCore_init_wf [of "regs @ replicate (0x460 - length regs) 0" "replicate 0x200 0"
      "Flash_init 0x1000" MC_ATMEGA8 0]
  by (simp add: fresh_core_def Atmega8_def Flash_init_wf) (simp add: Flash_init_def)

lemma gr8_fresh: "n < 32 \<Longrightarrow> length regs = 32 \<Longrightarrow> gr8 (fresh_core regs) n = regs ! n"
  by (simp add: gr8_def fresh_core_def AVRCore_init_def nth_append)

lemma sreg_fresh: "length regs = 32 \<Longrightarrow> sreg (fresh_core regs) = 0"
  by (simp add: sreg_def gr8_def fresh_core_def AVRCore_init_def nth_append)

abbreviation regs32 :: "u8 list \<Rightarrow> u8 list" where
  "regs32 high \<equiv> replicate 16 0 @ high @ replicate (16 - length high) 0"

lemma compare16_witness:
  "exec_br OP_BRCS 0 (op_CPC 0x0713 (op_CP 0x1702 (fresh_core (regs32 [0x00, 0x01, 0xFF, 0x00])))) =
     branch_if False 0 (op_CPC 0x0713 (op_CP 0x1702 (fresh_core (regs32 [0x00, 0x01, 0xFF, 0x00]))))"
proof -
  have "fld_d 0x1702 = 16" "fld_r 0x1702 = 18" "fld_d 0x0713 = 17" "fld_r 0x0713 = 19"
    by (simp_all add: fld_d_def fld_r_def)
  then show ?thesis
    using compare16 [OF fresh_core_wf refl refl refl, of "regs32 [0x00, 0x01, 0xFF, 0x00]" 0
        "0x0713" "0x1702"]
    by (simp add: gr8_fresh nth_append word_less_nat_alt unat_join16)
qed

lemma manual_add_bits:
  "bit (manual_add old a b r) fN = bit r 7"
  by (simp add: manual_add_def Let_def)

text \<open>
  The idiom for 16-bit addition: \<open>add\<close> on the low bytes and \<open>adc\<close> on the high bytes leave the
  16-bit sum in the two destination registers and its carry in C; but the S flag is clear after
  \<open>adc\<close> whatever the operands, so a signed branch on the sum goes wrong when N and V differ.
\<close>

theorem add16:
  assumes "core_wf c" and "fld_d i1 \<noteq> fld_d i2" "fld_d i1 \<noteq> fld_r i2"
    and "c2 = op_ADC i2 (op_ADD i1 c)"
    and "a = join16 (gr8 c (fld_d i1)) (gr8 c (fld_d i2))"
    and "b = join16 (gr8 c (fld_r i1)) (gr8 c (fld_r i2))"
  shows "join16 (gr8 c2 (fld_d i1)) (gr8 c2 (fld_d i2)) = a + b \<and>
    (bit (sreg c2) fC \<longleftrightarrow> 65536 \<le> unat a + unat b) \<and>
    (bit (sreg c2) fN \<longleftrightarrow> bit (a + b) 15) \<and>
    \<not> bit (sreg c2) fS"
proof -
  define al ah bl bh where fields: "al = gr8 c (fld_d i1)" "ah = gr8 c (fld_d i2)"
    "bl = gr8 c (fld_r i1)" "bh = gr8 c (fld_r i2)"
  define c1 where "c1 = op_ADD i1 c"
  have c1: "sreg c1 = manual_add (sreg c) al bl (al + bl)" "core_wf c1" "gr8 c1 (fld_d i1) = al + bl"
    "gr8 c1 (fld_d i2) = ah" "gr8 c1 (fld_r i2) = bh"
    using assms(1-3)
    by (simp_all add: c1_def op_ADD_manual Let_def sreg_set_sreg fields gr8_set_sreg gr8_set_gr8_wf
        less_trans [OF fld_bounds(1)] less_trans [OF fld_bounds(2)])
  define cf where "cf = (256 \<le> unat al + unat bl)"
  have cf: "bit (sreg c1) fC = cf"
    using manual_add_carry [of "sreg c" al bl False] by (simp add: c1 cf_def)
  define r where "r = ah + bh + of_bool cf"
  have c2: "sreg c2 = unset_bit fS (manual_add (sreg c1) ah bh r)"
    "gr8 c2 (fld_d i2) = r" "gr8 c2 (fld_d i1) = al + bl"
    using c1 cf assms(2)
    by (simp_all add: assms(4) c1_def [symmetric] op_ADC_manual Let_def sreg_set_sreg r_def
        gr8_set_sreg gr8_set_gr8_wf less_trans [OF fld_bounds(1)])
  have low: "unat (al + bl) + 256 * of_bool cf = unat al + unat bl"
    using unat_add_carry [of al bl False] unat_less_256 [of al] unat_less_256 [of bl]
    by (simp add: cf_def le_mod_geq)
  have high: "unat r + 256 * of_bool (256 \<le> unat ah + unat bh + of_bool cf) =
      unat ah + unat bh + of_bool cf"
    using unat_add_carry [of ah bh cf] unat_less_256 [of ah] unat_less_256 [of bh]
    by (cases cf) (simp_all add: r_def le_mod_geq)
  have carry: "65536 \<le> unat a + unat b \<longleftrightarrow> 256 \<le> unat ah + unat bh + of_bool cf"
    unfolding assms(5,6) fields [symmetric] unat_join16
    using unat_less_256 [of al] unat_less_256 [of bl] by (cases cf) (auto simp: cf_def)
  have "unat (join16 (al + bl) r) + 65536 * of_bool (65536 \<le> unat a + unat b) = unat a + unat b"
    unfolding carry unfolding assms(5,6) fields [symmetric] unat_join16
    using low high by (cases cf) auto
  moreover have "unat (a + b) + 65536 * of_bool (65536 \<le> unat a + unat b) = unat a + unat b"
    using unsigned_less [of a, where ?'a = nat] unsigned_less [of b, where ?'a = nat]
    by (simp add: unat_word_ariths le_mod_geq)
  ultimately have sum: "join16 (al + bl) r = a + b"
    by (metis add_right_cancel unsigned_word_eqI)
  have "bit (a + b) 15 = bit r 7"
    using bit_imp_le_length [of "al + bl" 15]
    unfolding sum [symmetric] by (auto simp: join16_def bit_simps)
  then show ?thesis
    using sum c2 carry manual_add_carry [of "sreg c1" ah bh cf] manual_add_bits [of "sreg c1" ah bh r]
    by (simp add: bit_unset_bit_iff r_def)
qed

lemma add16_witness:
  "\<not> bit (sreg (op_ADC 0x1F13 (op_ADD 0x0F02 (fresh_core (regs32 [0, 0x80, 0, 0]))))) fS"
proof -
  have "fld_d 0x0F02 = 16" "fld_r 0x0F02 = 18" "fld_d 0x1F13 = 17" "fld_r 0x1F13 = 19"
    by (simp_all add: fld_d_def fld_r_def)
  then show ?thesis
    using add16 [OF fresh_core_wf _ _ refl refl refl, of "regs32 [0, 0x80, 0, 0]" "0x0F02" "0x1F13"]
    by simp
qed

section \<open>Word arithmetic and multiplication\<close>

lemma alu16_sreg_value:
  "alu16_sreg (eflags_of cf af zf sf ovf) c =
     set_sreg (sreg_flags (sreg c) (bit (sreg c) fH) (sf \<noteq> ovf) ovf sf zf cf) c"
proof -
  have "(x AND NOT 0x1F) = (x AND 0xC0) OR push_bit 5 (of_bool (bit x 5))" for x :: u8
    by (auto simp: word8_bits)
  then show ?thesis
    by (cases cf; cases zf; cases sf; cases ovf;
        simp add: alu16_sreg_def Let_def update_sreg_def mask_alu16_def sreg_flags_def or.assoc)
qed

lemma fld_Kw_small: "unat (ucast (fld_Kw i) :: u16) < 64"
proof -
  have "(ucast (fld_Kw i) :: u16) = ucast (fld_Kw i) AND 0x3F"
    by (auto simp: fld_Kw_def word16_bits)
  moreover have "unat (ucast (fld_Kw i) AND 0x3F :: u16) < 64"
    by (rule word_field_less)
  ultimately show ?thesis by simp
qed

lemma bit15_unat: "bit (a :: u16) 15 \<longleftrightarrow> 32768 \<le> unat a"
proof -
  have "bit a 15 \<longleftrightarrow> odd (unat a div 32768)"
    using bit_unsigned_iff [of a 15, where ?'a = nat] by (simp add: bit_iff_odd)
  moreover have "unat a < 65536"
    using unsigned_less [of a, where ?'a = nat] by simp
  ultimately show ?thesis using odd_div_iff [of "unat a" 32768] by simp
qed

lemma sint_word16: "sint (a :: u16) = int (unat a) - 65536 * of_bool (32768 \<le> unat a)"
  using uint_bounded [of a]
  by (simp add: sint_uint signed_take_bit_eq_take_bit_minus bit_uint_iff take_bit_eq_mod flip: bit15_unat)

lemma word_small_sum:
  fixes A K R :: nat
  assumes "A < 65536" "K < 64" "R = (if A + K < 65536 then A + K else A + K - 65536)"
  shows "int A - 65536 * of_bool (32768 \<le> A) + int K < 0 \<longleftrightarrow> 32768 \<le> A \<and> 32768 \<le> R"
  using assms by (cases "32768 \<le> A"; cases "A + K < 65536") auto

lemma word_small_diff:
  fixes A K R :: nat
  assumes "A < 65536" "K < 64" "R = (if K \<le> A then A - K else A + 65536 - K)"
  shows "int A - 65536 * of_bool (32768 \<le> A) < int K \<longleftrightarrow> 32768 \<le> R \<or> 32768 \<le> A"
  using assms by (cases "32768 \<le> A"; cases "K \<le> A") auto

lemma mod_once: "x < 2 * m \<Longrightarrow> x mod m = (if x < m then x else x - m)" for x m :: nat
  by (auto simp: le_mod_geq)

lemma adiw_sign:
  fixes w k :: u16
  assumes "unat k < 64"
  shows "sint w + int (unat k) < 0 \<longleftrightarrow> bit w 15 \<and> bit (w + k) 15"
proof -
  have "unat (w + k) = (if unat w + unat k < 65536 then unat w + unat k else unat w + unat k - 65536)"
    using mod_once [of "unat w + unat k" 65536] unat_less_65536 [of w] assms
    by (simp add: unat_word_ariths)
  from word_small_sum [OF unat_less_65536 assms this]
  show ?thesis unfolding sint_word16 bit15_unat .
qed

lemma sbiw_sign:
  fixes w k :: u16
  assumes "unat k < 64"
  shows "sint w < int (unat k) \<longleftrightarrow> bit (w - k) 15 \<or> bit w 15"
proof -
  have "unat (w - k) = (if unat k \<le> unat w then unat w - unat k else unat w + 65536 - unat k)"
    using unat_less_65536 [of w] assms by (simp add: unat_sub_if')
  from word_small_diff [OF unat_less_65536 assms this]
  show ?thesis unfolding sint_word16 bit15_unat .
qed

text \<open>The host's word addition and subtraction of an operand with a clear top bit.\<close>

lemma x86_word_small:
  fixes w k :: u16
  assumes "\<not> bit k 15"
  obtains h h' where
    "x86_adc False w k = (w + k, eflags_of (65536 \<le> unat w + unat k) h (w + k = 0)
       (bit (w + k) 15) (\<not> bit w 15 \<and> bit (w + k) 15))"
    "x86_sbb False w k = (w - k, eflags_of (w < k) h' (w = k) (bit (w - k) 15)
       (bit w 15 \<and> \<not> bit (w - k) 15))"
proof
  have "(bit w 15 = bit k 15 \<and> bit (w + k) 15 \<noteq> bit w 15) = (\<not> bit w 15 \<and> bit (w + k) 15)"
    "(bit w 15 \<noteq> bit k 15 \<and> bit (w - k) 15 \<noteq> bit w 15) = (bit w 15 \<and> \<not> bit (w - k) 15)"
    using assms by auto
  then show "x86_adc False w k = (w + k, eflags_of (65536 \<le> unat w + unat k)
      (16 \<le> unat (take_bit 4 w) + unat (take_bit 4 k) + of_bool False) (w + k = 0)
      (bit (w + k) 15) (\<not> bit w 15 \<and> bit (w + k) 15))"
    "x86_sbb False w k = (w - k, eflags_of (w < k)
      (unat (take_bit 4 w) < unat (take_bit 4 k) + of_bool False) (w = k) (bit (w - k) 15)
      (bit w 15 \<and> \<not> bit (w - k) 15))"
    unfolding x86_adc_def x86_sbb_def Let_def msb_of_def
    by (simp_all add: word_less_nat_alt)
qed

lemma adiw_sbiw_flags:
  assumes "w = gr16 c (fld_dw i)" "k = ucast (fld_Kw i)"
  shows "op_ADIW i c = adv 1 2 (set_sreg
      (sreg_flags (sreg c) (bit (sreg c) fH) (sint w + int (unat k) < 0)
        (\<not> bit w 15 \<and> bit (w + k) 15) (bit (w + k) 15) (w + k = 0) (65536 \<le> unat w + unat k))
      (set_gr16 (fld_dw i) (w + k) c)) \<and>
    op_SBIW i c = adv 1 2 (set_sreg
      (sreg_flags (sreg c) (bit (sreg c) fH) (sint w < int (unat k))
        (bit w 15 \<and> \<not> bit (w - k) 15) (bit (w - k) 15) (w = k) (w < k))
      (set_gr16 (fld_dw i) (w - k) c))"
proof -
  have small: "unat k < 64" unfolding assms(2) by (rule fld_Kw_small)
  then have "\<not> bit k 15" by (simp add: bit15_unat)
  then obtain h h' where host:
    "x86_adc False w k = (w + k, eflags_of (65536 \<le> unat w + unat k) h (w + k = 0)
       (bit (w + k) 15) (\<not> bit w 15 \<and> bit (w + k) 15))"
    "x86_sbb False w k = (w - k, eflags_of (w < k) h' (w = k) (bit (w - k) 15)
       (bit w 15 \<and> \<not> bit (w - k) 15))"
    by (rule x86_word_small)
  have sreg: "sreg (set_gr16 (fld_dw i) x c) = sreg c" for x
    using fld_bounds(8) [of i] by (intro sreg_set_gr16) simp
  have "(bit (w + k) 15 \<noteq> (\<not> bit w 15 \<and> bit (w + k) 15)) = (sint w + int (unat k) < 0)"
    "(bit (w - k) 15 \<noteq> (bit w 15 \<and> \<not> bit (w - k) 15)) = (sint w < int (unat k))"
    unfolding adiw_sign [OF small] sbiw_sign [OF small] by auto
  then show ?thesis
    unfolding op_ADIW_def op_SBIW_def Let_def assms [symmetric] host case_prod_conv
      alu16_sreg_value sreg by simp
qed

text \<open>
  \<open>adiw\<close> and \<open>sbiw\<close> add and subtract a constant below 64 on the register pairs 24 to 31:
  the pair gets the 16-bit result, C is the unsigned carry or borrow, V the signed overflow, S the
  sign of the exact signed result, and H, T and I are kept.
\<close>

theorem adiw_sbiw:
  "(let w = gr16 c (fld_dw i); k = ucast (fld_Kw i)
    in op_ADIW i c = adv 1 2 (set_sreg
         (sreg_flags (sreg c) (bit (sreg c) fH) (sint w + int (unat k) < 0)
           (\<not> bit w 15 \<and> bit (w + k) 15) (bit (w + k) 15) (w + k = 0) (65536 \<le> unat w + unat k))
         (set_gr16 (fld_dw i) (w + k) c)) \<and>
       op_SBIW i c = adv 1 2 (set_sreg
         (sreg_flags (sreg c) (bit (sreg c) fH) (sint w < int (unat k))
           (bit w 15 \<and> \<not> bit (w - k) 15) (bit (w - k) 15) (w = k) (w < k))
         (set_gr16 (fld_dw i) (w - k) c)))"
  unfolding Let_def by (rule adiw_sbiw_flags [OF refl refl])

text \<open>
  The product in \<open>r1:r0\<close>: a 16-bit word holds every product of two bytes, signed or not, so nothing
  is lost.
\<close>

lemma uint_byte_bounds: "0 \<le> uint (a :: u8)" "uint (a :: u8) < 256"
  using uint_bounded [of a] by simp_all

lemma sint_byte_bounds: "- 128 \<le> sint (a :: u8)" "sint (a :: u8) < 128"
  using sint_ge [of a] sint_lt [of a] by simp_all

lemma uint_word_of_int16:
  "0 \<le> x \<Longrightarrow> x < 65536 \<Longrightarrow> uint (word_of_int x :: u16) = x"
  by (simp add: uint_word_of_int)

lemma sint_word_of_int16:
  "- 32768 \<le> x \<Longrightarrow> x < 32768 \<Longrightarrow> sint (word_of_int x :: u16) = x"
  by (simp add: signed_of_int signed_take_bit_int_eq_self)

lemma bounded_product:
  fixes x y :: int
  assumes "\<bar>x\<bar> \<le> 128" "\<bar>y\<bar> \<le> Y" "128 * Y < 32768"
  shows "- 32768 \<le> x * y" "x * y < 32768"
proof -
  have "\<bar>x * y\<bar> \<le> 128 * Y"
    unfolding abs_mult using assms by (intro mult_mono) simp_all
  then show "- 32768 \<le> x * y" "x * y < 32768" using assms(3) by linarith+
qed

lemma uint_product: "uint (word_of_int (uint a * uint b) :: u16) = uint a * uint b" for a b :: u8
proof (rule uint_word_of_int16)
  have "uint a * uint b \<le> 255 * 255"
    using uint_byte_bounds [of a] uint_byte_bounds [of b] by (intro mult_mono) simp_all
  then show "uint a * uint b < 65536" by simp
qed simp

lemma sint_product: "sint (word_of_int (sint a * sint b) :: u16) = sint a * sint b" for a b :: u8
  using bounded_product [of "sint a" "sint b" 128] sint_byte_bounds [of a] sint_byte_bounds [of b]
  by (intro sint_word_of_int16) auto

lemma sint_uint_product:
  "sint (word_of_int (sint a * uint b) :: u16) = sint a * uint b" for a b :: u8
  using bounded_product [of "sint a" "uint b" 255] sint_byte_bounds [of a] uint_byte_bounds [of b]
  by (intro sint_word_of_int16) auto

lemma mul_sreg_bits:
  assumes "core_wf c"
  shows "bit (sreg (mul_sreg c)) fC = bit (gr16 (mul_sreg c) 0) 15"
    and "bit (sreg (mul_sreg c)) fZ = (gr16 (mul_sreg c) 0 = 0)"
    and "gr16 (mul_sreg c) 0 = gr16 c 0"
  using assms
  by (auto simp: mul_sreg_def Let_def sreg_update_sreg bit_simps gr16_eq gr8_update_sreg)

text \<open>
  Multiplication: the pair \<open>r1:r0\<close> holds the exact product of the two operands, unsigned for
  \<open>mul\<close>, signed for \<open>muls\<close>, signed by unsigned for \<open>mulsu\<close>; C is its top bit, Z says it is zero.
\<close>

theorem mul_exact:
  assumes "core_wf c"
  shows "uint (gr16 (op_MUL i c) 0) = uint (gr8 c (fld_d i)) * uint (gr8 c (fld_r i)) \<and>
    sint (gr16 (op_MULS i c) 0) =
      sint (gr8 c (fld_dh i)) * sint (gr8 c (unat (i AND 0x0F) + 16)) \<and>
    sint (gr16 (op_MULSU i c) 0) =
      sint (gr8 c (unat (drop_bit 4 i AND 0x07) + 16)) * uint (gr8 c (unat (i AND 0x07) + 16)) \<and>
    (\<forall>c' \<in> {op_MUL i c, op_MULS i c, op_MULSU i c}.
       bit (sreg c') fC = bit (gr16 c' 0) 15 \<and> bit (sreg c') fZ = (gr16 c' 0 = 0))"
proof -
  have gr16: "gr16 (adv 1 2 (mul_sreg (set_gr16 0 w c))) 0 = w" for w
    using assms gr16_set_gr16 [of 0 c w] by (simp add: mul_sreg_bits core_wf_sram)
  show ?thesis
    unfolding op_MUL_def op_MULS_def op_MULSU_def Let_def gr16 uint_product sint_product
      sint_uint_product
    using assms gr16 mul_sreg_bits [unfolded One_nat_def] by simp
qed

lemma mul_exact_witness:
  "sint (gr16 (op_MULS 0x0201 (fresh_core (regs32 [0xFE, 3]))) 0) = - 6"
  using mul_exact [OF fresh_core_wf, of "regs32 [0xFE, 3]" "0x0201"]
  by (simp add: fld_dh_def gr8_fresh nth_append)

section \<open>One-register operations\<close>

lemma byte_bit_masks:
  fixes x :: u8
  shows "x AND 1 = of_bool (bit x 0)" "drop_bit 7 (x AND 0x80) = of_bool (bit x 7)"
    "bit8 7 AND x = push_bit 7 (of_bool (bit x 7))" "bit8 3 AND x = push_bit 3 (of_bool (bit x 3))"
  by (auto simp: word8_bits)

text \<open>The masks of the four shapes of flag update, as updates of the whole status byte.\<close>

lemma update_NZCVS:
  "update_sreg (bit8 fN OR bit8 fZ OR bit8 fC OR bit8 fV OR bit8 fS)
     (push_bit fN (of_bool n) OR push_bit fZ (of_bool z) OR push_bit fC (of_bool cf) OR
      push_bit fV (of_bool v) OR push_bit fS (of_bool s)) c =
   set_sreg (sreg_flags (sreg c) (bit (sreg c) fH) s v n z cf) c"
  unfolding update_sreg_def sreg_flags_def
  by (rule arg_cong [where f = "\<lambda>x. set_sreg x c"])
    (cases n; cases z; cases cf; cases v; cases s; simp add: word8_bits)

lemma update_CNZSV:
  "update_sreg (bit8 fC OR bit8 fN OR bit8 fZ OR bit8 fS OR bit8 fV)
     (push_bit fC (of_bool cf) OR push_bit fN (of_bool n) OR push_bit fZ (of_bool z) OR
      push_bit fS (of_bool s) OR push_bit fV (of_bool v)) c =
   set_sreg (sreg_flags (sreg c) (bit (sreg c) fH) s v n z cf) c"
  unfolding update_sreg_def sreg_flags_def
  by (rule arg_cong [where f = "\<lambda>x. set_sreg x c"])
    (cases n; cases z; cases cf; cases v; cases s; simp add: word8_bits)

lemma update_VNZS:
  "update_sreg (bit8 fV OR bit8 fN OR bit8 fZ OR bit8 fS)
     (push_bit fV (of_bool v) OR push_bit fN (of_bool n) OR push_bit fZ (of_bool z) OR
      push_bit fS (of_bool s)) c =
   set_sreg (sreg_flags (sreg c) (bit (sreg c) fH) s v n z (bit (sreg c) fC)) c"
  unfolding update_sreg_def sreg_flags_def
  by (rule arg_cong [where f = "\<lambda>x. set_sreg x c"])
    (cases n; cases z; cases v; cases s; simp add: word8_bits)

lemma of_bool_xor: "(of_bool a XOR of_bool b :: u8) = of_bool (a \<noteq> b)"
  by (cases a; cases b) simp_all

lemma gr8_written: "core_wf c \<Longrightarrow> gr8 (set_gr8 (fld_d i) v c) (fld_d i) = v"
  by (simp add: gr8_set_gr8_wf)

lemmas unary_eqs = Let_def gr8_written sreg_set_fld byte_bit_masks of_bool_xor
  of_bool_eq(1) [symmetric, where 'a = "8 word"]

lemma incdec_value:
  "incdec_sreg r c = set_sreg (sreg_flags (sreg c) (bit (sreg c) fH)
     (bit r 7 \<noteq> (r = 0x80)) (r = 0x80) (bit r 7) (r = 0) (bit (sreg c) fC)) c"
  unfolding incdec_sreg_def Let_def byte_bit_masks of_bool_xor update_VNZS by (rule refl)

lemma op_INC_value:
  assumes "core_wf c" and "r = gr8 c (fld_d i) + 1"
  shows "op_INC i c = adv 1 1 (set_sreg (sreg_flags (sreg c) (bit (sreg c) fH)
     (bit r 7 \<noteq> (r = 0x80)) (r = 0x80) (bit r 7) (r = 0) (bit (sreg c) fC)) (set_gr8 (fld_d i) r c))"
  using assms unfolding op_INC_def Let_def gr8_written [OF assms(1)] incdec_value sreg_set_fld by simp

lemma op_DEC_value:
  assumes "core_wf c" and "r = gr8 c (fld_d i) - 1"
  shows "op_DEC i c = adv 1 1 (set_sreg (sreg_flags (sreg c) (bit (sreg c) fH)
     (bit r 7 \<noteq> (r = 0x80)) (r = 0x80) (bit r 7) (r = 0) (bit (sreg c) fC)) (set_gr8 (fld_d i) r c))"
  using assms unfolding op_DEC_def Let_def gr8_written [OF assms(1)] incdec_value sreg_set_fld by simp

lemma op_COM_value:
  assumes "core_wf c" and "r = NOT (gr8 c (fld_d i))"
  shows "op_COM i c = adv 1 1 (set_sreg (sreg_flags (sreg c) (bit (sreg c) fH)
     (bit r 7) False (bit r 7) (r = 0) True) (set_gr8 (fld_d i) r c))"
  unfolding op_COM_def Let_def gr8_written [OF assms(1)] assms(2) [symmetric]
  using update_NZCVS [of "bit r 7" "r = 0" True False "bit r 7" "set_gr8 (fld_d i) r c"]
  by (simp add: sreg_set_fld)

text \<open>\<open>lsr\<close> and \<open>ror\<close> have the same flags: N and C are the bits shifted in and out.\<close>

lemma op_LSR_value:
  assumes "core_wf c" and "x = gr8 c (fld_d i)" "r = drop_bit 1 x"
  shows "op_LSR i c = adv 1 1 (set_sreg (sreg_flags (sreg c) (bit (sreg c) fH)
     (bit x 0) (bit x 0) False (r = 0) (bit x 0)) (set_gr8 (fld_d i) r c))"
  unfolding op_LSR_def Let_def assms(2) [symmetric] assms(3) [symmetric] gr8_written [OF assms(1)]
    byte_bit_masks
  using update_CNZSV [of "bit x 0" False "r = 0" "bit x 0" "bit x 0" "set_gr8 (fld_d i) r c"]
  by (simp add: sreg_set_fld)

lemma op_ROR_value:
  assumes "core_wf c" and "x = gr8 c (fld_d i)"
    and "r = drop_bit 1 x OR push_bit 7 (of_bool (bit (sreg c) fC))"
  shows "op_ROR i c = adv 1 1 (set_sreg (sreg_flags (sreg c) (bit (sreg c) fH)
     (bit x 0) (bit r 7 \<noteq> bit x 0) (bit r 7) (r = 0) (bit x 0)) (set_gr8 (fld_d i) r c))"
proof -
  have "(bit r 7 \<noteq> (bit r 7 \<noteq> bit x 0)) = bit x 0" by auto
  then show ?thesis
    unfolding op_ROR_def Let_def byte_bit_masks assms(2) [symmetric] assms(3) [symmetric]
      gr8_written [OF assms(1)] of_bool_xor update_CNZSV sreg_set_fld
    by simp
qed

lemma op_NEG_value:
  assumes "core_wf c" and "r = NOT (gr8 c (fld_d i)) + 1"
  shows "op_NEG i c = adv 1 1 (set_sreg
     (sreg_flags (sreg c) False (r = 0x80) (r = 0x80) False (r = 0) (r \<noteq> 0))
     (set_gr8 (fld_d i) r c))"
  unfolding op_NEG_def Let_def byte_bit_masks gr8_written [OF assms(1)] assms(2) [symmetric]
    update_sreg_def sreg_flags_def sreg_set_fld
  by (rule arg_cong [where f = "\<lambda>x. adv 1 1 (set_sreg x _)"]) (auto simp: word8_bits)

lemma op_ASR_value:
  assumes "core_wf c" and "x = gr8 c (fld_d i)" "r = drop_bit 1 x OR (x OR bit8 7)"
  shows "op_ASR i c = adv 1 1 (set_sreg (sreg_flags (sreg c) (bit (sreg c) fH)
     (bit x 0) (\<not> bit x 0) True False (bit x 0)) (set_gr8 (fld_d i) r c))"
proof -
  have r: "bit r 7" "r \<noteq> 0"
    using assms(3) by (auto simp: word8_bits)
  then have "(True \<noteq> (True \<noteq> bit x 0)) = bit x 0" by auto
  then show ?thesis
    unfolding op_ASR_def Let_def byte_bit_masks assms(2) [symmetric] assms(3) [symmetric]
      gr8_written [OF assms(1)] of_bool_xor update_CNZSV sreg_set_fld
    using r by simp
qed

text \<open>
  \<open>com\<close>, \<open>inc\<close>, \<open>lsr\<close> and \<open>ror\<close> are the manual's: complement with C set and V clear;
  increment that keeps C and overflows exactly at \<open>0x7F\<close>; shifts that move bit 0 into C and, for
  \<open>ror\<close>, the old C into bit 7, with V = N xor C and S = N xor V.
\<close>

theorem unary_manual:
  assumes "core_wf c" and "x = gr8 c (fld_d i)"
  shows "(let old = sreg c; h = bit old fH; cy = bit old fC;
        put = (\<lambda>r s v n cf. adv 1 1 (set_sreg (sreg_flags old h s v n (r = 0) cf)
                (set_gr8 (fld_d i) r c)));
        ror = drop_bit 1 x OR push_bit 7 (of_bool cy)
    in op_COM i c = put (NOT x) (bit (NOT x) 7) False (bit (NOT x) 7) True \<and>
       op_INC i c = put (x + 1) (bit (x + 1) 7 \<noteq> (x = 0x7F)) (x = 0x7F) (bit (x + 1) 7) cy \<and>
       op_LSR i c = put (drop_bit 1 x) (bit x 0) (bit x 0) False (bit x 0) \<and>
       op_ROR i c = put ror (bit x 0) (bit ror 7 \<noteq> bit x 0) (bit ror 7) (bit x 0))"
proof -
  have v: "x + 1 = 0x80 \<longleftrightarrow> x = 0x7F"
    by (simp flip: eq_diff_eq)
  show ?thesis
    unfolding Let_def
    using op_COM_value [OF assms(1) refl, of i] op_INC_value [OF assms(1) refl, of i]
      op_LSR_value [OF assms(1) refl refl, of i] op_ROR_value [OF assms(1) refl refl, of i]
    unfolding assms(2) [symmetric] v by (intro conjI)
qed

lemma unary_manual_witness:
  "gr8 (op_LSR 0x9406 (fresh_core (5 # replicate 31 0))) 0 = 2"
  using unary_manual [OF fresh_core_wf refl, of "5 # replicate 31 0" "0x9406"]
  by (simp add: Let_def fld_d_def gr8_fresh gr8_set_sreg gr8_set_gr8_wf fresh_core_wf)

lemma dec_cases:
  fixes X :: nat
  assumes "X < 256"
  shows "((128 \<le> (if X = 0 then 255 else X - 1)) \<noteq> (X = 129)) = (int X - 256 * of_bool (128 \<le> X) - 1 < 0) \<longleftrightarrow>
      X \<noteq> 128 \<and> X \<noteq> 129"
    and "int (if X = 0 then 255 else X - 1) - 256 * of_bool (128 \<le> (if X = 0 then 255 else X - 1)) \<noteq>
      int X - 256 * of_bool (128 \<le> X) - 1 \<longleftrightarrow> X = 128"
  using assms by (cases "X = 0"; cases "128 \<le> X"; auto)+

text \<open>
  The overflow flag of \<open>dec\<close>: the code tests the result against \<open>0x80\<close>, as \<open>inc\<close> does, so V is
  set when the operand was \<open>0x81\<close>, where nothing overflows, and clear when it was \<open>0x80\<close>, the only
  operand on which the decrement does overflow; S, which signed branches read, is wrong on both.
\<close>

theorem dec_overflow:
  assumes "core_wf c" and "x = gr8 c (fld_d i)"
  shows "gr8 (op_DEC i c) (fld_d i) = x - 1 \<and>
    (bit (sreg (op_DEC i c)) fV \<longleftrightarrow> x = 0x81) \<and>
    (sint (x - 1) \<noteq> sint x - 1 \<longleftrightarrow> x = 0x80) \<and>
    (bit (sreg (op_DEC i c)) fS = (sint x - 1 < 0) \<longleftrightarrow> x \<noteq> 0x80 \<and> x \<noteq> 0x81)"
proof -
  have v: "x - 1 = 0x80 \<longleftrightarrow> x = 0x81"
    by (simp add: diff_eq_eq)
  have eqs: "x = 0x80 \<longleftrightarrow> unat x = 128" "x = 0x81 \<longleftrightarrow> unat x = 129" "x = 0 \<longleftrightarrow> unat x = 0"
    by (simp_all add: unat_arith_simps)
  have pred: "unat (x - 1) = (if unat x = 0 then 255 else unat x - 1)"
    using unat_sub_borrow_cases [of x 1 False] by auto
  have S: "(bit (x - 1) 7 \<noteq> (x - 1 = 0x80)) = (sint x - 1 < 0) \<longleftrightarrow> x \<noteq> 0x80 \<and> x \<noteq> 0x81"
    unfolding v eqs bit7_unat sint_byte pred by (rule dec_cases(1) [OF unat_less_256])
  moreover have "sint (x - 1) \<noteq> sint x - 1 \<longleftrightarrow> x = 0x80"
    unfolding eqs sint_byte pred by (rule dec_cases(2) [OF unat_less_256])
  moreover have "sreg (op_DEC i c) = sreg_flags (sreg c) (bit (sreg c) fH)
     (bit (x - 1) 7 \<noteq> (x - 1 = 0x80)) (x - 1 = 0x80) (bit (x - 1) 7) (x - 1 = 0) (bit (sreg c) fC)"
    "gr8 (op_DEC i c) (fld_d i) = x - 1"
    using assms op_DEC_value [OF assms(1) refl, of i]
    by (simp_all add: sreg_set_sreg gr8_set_sreg less_trans [OF fld_bounds(1)] gr8_written)
  ultimately show ?thesis
    using v by simp
qed

lemma dec_overflow_witness:
  "\<not> bit (sreg (op_DEC 0x940A (fresh_core (0x80 # replicate 31 0)))) fV"
  using dec_overflow [OF fresh_core_wf refl, of "0x80 # replicate 31 0" "0x940A"]
  by (simp add: fld_d_def gr8_fresh)

text \<open>
  The flags of \<open>neg\<close>: the register is negated, C and V are right, but the masked bits \<open>n\<close> and
  \<open>h\<close> are shifted once more and leave the byte, so N and H are always clear and S is V: after
  negating a small positive number the result is negative and N says it is not.
\<close>

theorem neg_flags:
  assumes "core_wf c" and "x = gr8 c (fld_d i)"
  shows "gr8 (op_NEG i c) (fld_d i) = - x \<and>
    \<not> bit (sreg (op_NEG i c)) fN \<and> \<not> bit (sreg (op_NEG i c)) fH \<and>
    (bit (sreg (op_NEG i c)) fC \<longleftrightarrow> x \<noteq> 0) \<and>
    (bit (sreg (op_NEG i c)) fV \<longleftrightarrow> x = 0x80) \<and>
    (bit (sreg (op_NEG i c)) fS \<longleftrightarrow> x = 0x80)"
proof -
  have r: "- x = NOT (gr8 c (fld_d i)) + 1" by (simp add: minus_eq_not_plus_1 assms(2))
  have "sreg (op_NEG i c) = sreg_flags (sreg c) False (- x = 0x80) (- x = 0x80) False (- x = 0) (- x \<noteq> 0)"
    "gr8 (op_NEG i c) (fld_d i) = - x"
    using assms(1) op_NEG_value [OF assms(1) r]
    by (simp_all add: sreg_set_sreg gr8_set_sreg less_trans [OF fld_bounds(1)] gr8_written)
  moreover have "- x = 0x80 \<longleftrightarrow> x = 0x80"
    by (auto simp: minus_equation_iff [of x])
  ultimately show ?thesis by simp
qed

lemma neg_flags_witness:
  "gr8 (op_NEG 0x9401 (fresh_core (1 # replicate 31 0))) 0 = 0xFF \<and>
   \<not> bit (sreg (op_NEG 0x9401 (fresh_core (1 # replicate 31 0)))) fN"
  using neg_flags [OF fresh_core_wf refl, of "1 # replicate 31 0" "0x9401"]
  by (simp add: fld_d_def gr8_fresh)

text \<open>
  \<open>asr\<close> keeps the old value in the result (\<open>|\<close> where \<open>&\<close> is meant): bit 7 is always set, and the
  result is the arithmetic shift only for the operands whose bits are a run of ones from the top.
\<close>

theorem asr_wrong:
  assumes "core_wf c" and "x = gr8 c (fld_d i)"
  shows "bit (gr8 (op_ASR i c) (fld_d i)) 7 \<and> bit (sreg (op_ASR i c)) fN \<and>
    (gr8 (op_ASR i c) (fld_d i) = signed_drop_bit 1 x \<longleftrightarrow>
       bit x 7 \<and> (\<forall>n < 7. bit x n \<longrightarrow> bit x (Suc n)))"
proof -
  define r where "r = drop_bit 1 x OR (x OR bit8 7)"
  have "sreg (op_ASR i c) = sreg_flags (sreg c) (bit (sreg c) fH)
     (bit x 0) (\<not> bit x 0) True False (bit x 0)" "gr8 (op_ASR i c) (fld_d i) = r"
    using assms op_ASR_value [OF assms(1) refl refl, of i]
    by (simp_all add: r_def sreg_set_sreg gr8_set_sreg less_trans [OF fld_bounds(1)] gr8_written)
  moreover have "bit r 7" by (simp add: r_def bit_simps)
  moreover have "r = signed_drop_bit 1 x \<longleftrightarrow> bit x 7 \<and> (\<forall>n < 7. bit x n \<longrightarrow> bit x (Suc n))"
    unfolding r_def by (auto simp: word8_bits numeral_eq_Suc All_less_Suc)
  ultimately show ?thesis by simp
qed

lemma asr_wrong_witness:
  "bit (gr8 (op_ASR 0x9405 (fresh_core (4 # replicate 31 0))) 0) 7"
  using asr_wrong [OF fresh_core_wf refl, of "4 # replicate 31 0" "0x9405"]
  by (simp add: fld_d_def)

end
