(* ===== verification/Avr_Step.thy ===== *)
theory Avr_Step
  imports Avr_Alu
begin

text \<open>
  The instruction cycle: \<open>Step\<close> keeps the invariant of the core, always makes progress in time,
  and can leave the bounds of the simulator's arrays in one way only, an EEPROM address that the
  firmware sets too high; then calls and returns, \<open>push\<close> and \<open>pop\<close>, interrupts, branches,
  self-programming and the EEPROM as the code sequences them.
\<close>

section \<open>The invariant is kept\<close>

lemma exec_flag_wf [simp]: "core_wf (exec_flag op c) = core_wf c"
  by (cases op) (simp_all add: clear_flag_def raise_flag_def)

lemma sreg_ops_wf [simp]:
  "core_wf (alu8_sreg e z c) = core_wf c" "core_wf (alu16_sreg e c) = core_wf c"
  "core_wf (incdec_sreg r c) = core_wf c" "core_wf (logic_sreg r c) = core_wf c"
  "core_wf (mul_sreg c) = core_wf c" "core_wf (branch i c) = core_wf c"
  by (simp_all add: alu8_sreg_def alu16_sreg_def incdec_sreg_def logic_sreg_def mul_sreg_def
      branch_def Let_def)

lemma exec_br_wf [simp]: "core_wf (exec_br op i c) = core_wf c"
  by (cases op) (simp_all add: branch_if_def)

lemmas pure_op_defs = op_LDI_def op_COM_def op_NEG_def op_ASR_def op_DEC_def op_INC_def op_LSR_def
  op_ROR_def op_SWAP_def op_ADD_def op_ADC_def op_SUB_def op_SBC_def op_SUBI_def op_SBCI_def
  op_CP_def op_CPC_def op_CPI_def op_ADIW_def op_SBIW_def op_OR_def op_AND_def op_EOR_def
  op_ORI_def op_ANDI_def op_MOV_def op_MOVW_def op_MUL_def op_MULS_def op_MULSU_def op_IJMP_def
  op_RJMP_def op_BLD_def op_BST_def op_CBI_def op_SBI_def op_IN_def op_OUT_def
  op_FAKE_UDR_OUT_def op_FAKE_DEBUG_def op_FAKE_SIGNAL_def

lemma pure_ops_wf [simp]:
  "core_wf (op_LDI i c) = core_wf c" "core_wf (op_COM i c) = core_wf c"
  "core_wf (op_NEG i c) = core_wf c" "core_wf (op_ASR i c) = core_wf c"
  "core_wf (op_DEC i c) = core_wf c" "core_wf (op_INC i c) = core_wf c"
  "core_wf (op_LSR i c) = core_wf c" "core_wf (op_ROR i c) = core_wf c"
  "core_wf (op_SWAP i c) = core_wf c" "core_wf (op_ADD i c) = core_wf c"
  "core_wf (op_ADC i c) = core_wf c" "core_wf (op_SUB i c) = core_wf c"
  "core_wf (op_SBC i c) = core_wf c" "core_wf (op_SUBI i c) = core_wf c"
  "core_wf (op_SBCI i c) = core_wf c" "core_wf (op_CP i c) = core_wf c"
  "core_wf (op_CPC i c) = core_wf c" "core_wf (op_CPI i c) = core_wf c"
  "core_wf (op_ADIW i c) = core_wf c" "core_wf (op_SBIW i c) = core_wf c"
  "core_wf (op_OR i c) = core_wf c" "core_wf (op_AND i c) = core_wf c"
  "core_wf (op_EOR i c) = core_wf c" "core_wf (op_ORI i c) = core_wf c"
  "core_wf (op_ANDI i c) = core_wf c" "core_wf (op_MOV i c) = core_wf c"
  "core_wf (op_MOVW i c) = core_wf c" "core_wf (op_MUL i c) = core_wf c"
  "core_wf (op_MULS i c) = core_wf c" "core_wf (op_MULSU i c) = core_wf c"
  "core_wf (op_IJMP c) = core_wf c" "core_wf (op_RJMP i c) = core_wf c"
  "core_wf (op_BLD i c) = core_wf c" "core_wf (op_BST i c) = core_wf c"
  "core_wf (op_CBI i c) = core_wf c" "core_wf (op_SBI i c) = core_wf c"
  "core_wf (op_IN i c) = core_wf c" "core_wf (op_OUT i c) = core_wf c"
  "core_wf (op_FAKE_UDR_OUT i c) = core_wf c" "core_wf (op_FAKE_DEBUG i c) = core_wf c"
  "core_wf (op_FAKE_SIGNAL c) = core_wf c"
  by (simp_all add: pure_op_defs Let_def case_prod_beta)

lemmas error_op_defs = op_ICALL_def op_RCALL_def op_CALL_def op_JMP_def op_RET_def op_RETI_def
  op_POP_def op_PUSH_def op_CPSE_def op_SBRC_def op_SBRS_def op_SBIC_def op_SBIS_def op_STS_def
  op_LDS_def st_idx_def st_post_inc_def st_pre_dec_def std_idx_def ld_idx_def ld_post_inc_def
  ld_pre_dec_def ldd_idx_def op_LPM_def op_LPM_R_def op_LPM_R_POST_INC_def skip_next_def

lemma error_ops_wf:
  "op_ICALL c = Inr c' \<Longrightarrow> core_wf c \<Longrightarrow> core_wf c'"
  "op_RCALL i c = Inr c' \<Longrightarrow> core_wf c \<Longrightarrow> core_wf c'"
  "op_CALL c = Inr c' \<Longrightarrow> core_wf c \<Longrightarrow> core_wf c'"
  "op_JMP c = Inr c' \<Longrightarrow> core_wf c \<Longrightarrow> core_wf c'"
  "op_RET c = Inr c' \<Longrightarrow> core_wf c \<Longrightarrow> core_wf c'"
  "op_RETI c = Inr c' \<Longrightarrow> core_wf c \<Longrightarrow> core_wf c'"
  "op_POP i c = Inr c' \<Longrightarrow> core_wf c \<Longrightarrow> core_wf c'"
  "op_PUSH i c = Inr c' \<Longrightarrow> core_wf c \<Longrightarrow> core_wf c'"
  "skip_next c = Inr c' \<Longrightarrow> core_wf c \<Longrightarrow> core_wf c'"
  "op_LDS i c = Inr c' \<Longrightarrow> core_wf c \<Longrightarrow> core_wf c'"
  "st_idx p i c = Inr c' \<Longrightarrow> core_wf c \<Longrightarrow> core_wf c'"
  "st_post_inc p i c = Inr c' \<Longrightarrow> core_wf c \<Longrightarrow> core_wf c'"
  "st_pre_dec p i c = Inr c' \<Longrightarrow> core_wf c \<Longrightarrow> core_wf c'"
  "std_idx p i c = Inr c' \<Longrightarrow> core_wf c \<Longrightarrow> core_wf c'"
  "ld_idx p i c = Inr c' \<Longrightarrow> core_wf c \<Longrightarrow> core_wf c'"
  "ld_post_inc p i c = Inr c' \<Longrightarrow> core_wf c \<Longrightarrow> core_wf c'"
  "ld_pre_dec p i c = Inr c' \<Longrightarrow> core_wf c \<Longrightarrow> core_wf c'"
  "ldd_idx p i c = Inr c' \<Longrightarrow> core_wf c \<Longrightarrow> core_wf c'"
  "op_LPM c = Inr c' \<Longrightarrow> core_wf c \<Longrightarrow> core_wf c'"
  "op_LPM_R i c = Inr c' \<Longrightarrow> core_wf c \<Longrightarrow> core_wf c'"
  "op_LPM_R_POST_INC i c = Inr c' \<Longrightarrow> core_wf c \<Longrightarrow> core_wf c'"
  by (auto simp: error_op_defs Let_def mapE_Inr_iff dest: push_pc_wf sram_put_wf)

lemma op_STS_wf: "op_STS i c = Inr c' \<Longrightarrow> core_wf c \<Longrightarrow> core_wf c'"
  by (auto simp: op_STS_def Let_def mapE_Inr_iff) (erule (1) sram_put_wf)

lemma exec_st_wf: "exec_st op i c = Inr c' \<Longrightarrow> core_wf c \<Longrightarrow> core_wf c'"
  by (cases op) (auto dest: error_ops_wf op_STS_wf)

lemma exec_mem_wf: "exec_mem op i c = Inr c' \<Longrightarrow> core_wf c \<Longrightarrow> core_wf c'"
  by (cases op) (auto dest: error_ops_wf op_STS_wf)

lemma exec_ctl_wf: "exec_ctl op i c = Inr c' \<Longrightarrow> core_wf c \<Longrightarrow> core_wf c'"
  by (cases op) (auto dest: error_ops_wf do_spm_wf)

lemma exec_alu_wf: "exec_alu op i c = Inr c' \<Longrightarrow> core_wf c \<Longrightarrow> core_wf c'"
  by (cases op) (auto simp: op_CPSE_def dest: error_ops_wf split: if_splits)

lemma exec_bit_wf: "exec_bit op i c = Inr c' \<Longrightarrow> core_wf c \<Longrightarrow> core_wf c'"
  by (cases op) (auto simp: op_SBRC_def op_SBRS_def op_SBIC_def op_SBIS_def dest: error_ops_wf
      split: if_splits)

lemma exec_jmp_wf: "exec_jmp op i c = Inr c' \<Longrightarrow> core_wf c \<Longrightarrow> core_wf c'"
  by (cases op) (auto dest: error_ops_wf)

lemma exec_reg_wf: "exec_reg op i c = Inr c' \<Longrightarrow> core_wf c \<Longrightarrow> core_wf c'"
  by (cases op) (auto dest: error_ops_wf)

lemma exec_fake_wf: "exec_fake op i c = Inr c' \<Longrightarrow> core_wf c \<Longrightarrow> core_wf c'"
  by (cases op) auto

lemma exec_op_wf [wf_intros]: "exec_op op i c = Inr c' \<Longrightarrow> core_wf c \<Longrightarrow> core_wf c'"
  by (cases op) (auto dest: exec_ctl_wf exec_alu_wf exec_bit_wf exec_jmp_wf exec_reg_wf exec_mem_wf
      exec_fake_wf)

lemma tick_log_wf [simp]:
  "core_wf (tick_tcnt0 c) = core_wf c" "core_wf (tick_tcnt2 c) = core_wf c"
  "core_wf (log_pc c) = core_wf c"
  by (simp_all add: tick_tcnt0_def tick_tcnt2_def log_pc_def)

lemma interrupt_entry_wf: "interrupt_entry a c = Inr c' \<Longrightarrow> core_wf c \<Longrightarrow> core_wf c'"
  by (auto simp: interrupt_entry_def dest: push_pc_wf)

lemma step_body_wf: "step_body c = Inr c' \<Longrightarrow> core_wf c \<Longrightarrow> core_wf c'"
  by (auto simp: step_body_def fetch_exec_def mapE_Inr_iff split: if_splits
      dest: read_eeprom_wf write_eeprom_wf exec_op_wf)

lemma Step_cases:
  assumes "Step irq c = Inr (n, c')"
  obtains (interrupt) a where "irq = Some a" "bit (sreg (log_pc (tick_tcnt2 (tick_tcnt0 c)))) fI" "n = 4"
      "interrupt_entry a (log_pc (tick_tcnt2 (tick_tcnt0 c))) = Inr c'"
    | (body) "irq = None \<or> \<not> bit (sreg (log_pc (tick_tcnt2 (tick_tcnt0 c)))) fI"
      "step_body (log_pc (tick_tcnt2 (tick_tcnt0 c))) = Inr c'"
      "n = ucast (c_cc c' - c_cc c)"
proof -
  have cc: "c_cc (log_pc (tick_tcnt2 (tick_tcnt0 c))) = c_cc c"
    by (simp add: log_pc_def tick_tcnt2_def tick_tcnt0_def)
  show thesis
    using assms interrupt body unfolding Step_def Let_def cc
    by (auto simp: mapE_Inr_iff split: option.splits if_splits)
qed

lemma Step_wf [wf_intros]: "Step irq c = Inr (n, c') \<Longrightarrow> core_wf c \<Longrightarrow> core_wf c'"
  by (erule Step_cases) (auto dest: interrupt_entry_wf step_body_wf)

section \<open>Time moves on\<close>

text \<open>Writes of the data memory do not count cycles, so every case is its own \<open>adv\<close> or \<open>add_cc\<close>.\<close>

lemma sreg_ops_cc [simp]:
  "c_cc (alu8_sreg e z c) = c_cc c" "c_cc (alu16_sreg e c) = c_cc c"
  "c_cc (incdec_sreg r c) = c_cc c" "c_cc (logic_sreg r c) = c_cc c"
  "c_cc (mul_sreg c) = c_cc c" "c_cc (set_sreg v c) = c_cc c" "c_cc (set_stack w c) = c_cc c"
  "c_cc (set_io8 n v c) = c_cc c" "c_cc (clear_spmen c) = c_cc c"
  by (simp_all add: alu8_sreg_def alu16_sreg_def incdec_sreg_def logic_sreg_def mul_sreg_def
      Let_def reg_defs clear_spmen_def)

lemma sram_put_cc: "sram_put i v c = Inr c' \<Longrightarrow> c_cc c' = c_cc c"
  by (auto simp: sram_put_def split: if_splits)

lemma push_pc_cc: "push_pc r c = Inr c' \<Longrightarrow> c_cc c' = c_cc c"
  by (auto simp: push_pc_def dest!: sram_put_cc)

definition takes :: "core \<Rightarrow> core \<Rightarrow> bool" where
  "takes c c' \<longleftrightarrow> c_cc c' - c_cc c \<in> {1, 2, 3, 4}"

lemma takesI: "c_cc c' = c_cc c + k \<Longrightarrow> k \<in> {1, 2, 3, 4} \<Longrightarrow> takes c c'"
  by (auto simp: takes_def)

lemma exec_flag_takes: "takes c (exec_flag op c)"
  by (rule takesI [where k = 1]) (cases op; simp add: clear_flag_def raise_flag_def)+

lemma exec_br_takes: "takes c (exec_br op i c)"
proof -
  have "takes c (branch_if b i c)" for b
    by (rule takesI [where k = "if b then 2 else 1"]) (auto simp: branch_if_def branch_def Let_def)
  then show ?thesis by (cases op) simp_all
qed

lemma pure_ops_takes:
  "takes c (op_LDI i c)" "takes c (op_COM i c)" "takes c (op_NEG i c)" "takes c (op_ASR i c)"
  "takes c (op_DEC i c)" "takes c (op_INC i c)" "takes c (op_LSR i c)" "takes c (op_ROR i c)"
  "takes c (op_SWAP i c)" "takes c (op_ADD i c)" "takes c (op_ADC i c)" "takes c (op_SUB i c)"
  "takes c (op_SBC i c)" "takes c (op_SUBI i c)" "takes c (op_SBCI i c)" "takes c (op_CP i c)"
  "takes c (op_CPC i c)" "takes c (op_CPI i c)" "takes c (op_ADIW i c)" "takes c (op_SBIW i c)"
  "takes c (op_OR i c)" "takes c (op_AND i c)" "takes c (op_EOR i c)" "takes c (op_ORI i c)"
  "takes c (op_ANDI i c)" "takes c (op_MOV i c)" "takes c (op_MOVW i c)" "takes c (op_MUL i c)"
  "takes c (op_MULS i c)" "takes c (op_MULSU i c)" "takes c (op_IJMP c)" "takes c (op_RJMP i c)"
  "takes c (op_BLD i c)" "takes c (op_BST i c)" "takes c (op_CBI i c)" "takes c (op_SBI i c)"
  "takes c (op_IN i c)" "takes c (op_OUT i c)" "takes c (op_FAKE_UDR_OUT i c)"
  "takes c (op_FAKE_DEBUG i c)" "takes c (op_FAKE_SIGNAL c)"
  by (simp_all add: takes_def pure_op_defs Let_def case_prod_beta)

lemma skip_takes:
  assumes "skip_next c = Inr c'" "core_wf c"
  shows "takes c c'"
proof -
  obtain nx where nx: "Flash_at (c_flash c) (c_pc c + 1) = Inr nx"
    "c' = adv (int (ins_size nx) + 1) (of_nat (ins_size nx) + 1) c"
    using assms(1) by (auto simp: skip_next_def)
  then have "ins_size nx \<le> 2"
    using assms(2) by (auto simp: Flash_at_Inr_iff core_wf_def flash_wf_nth)
  then have "ins_size nx = 0 \<or> ins_size nx = 1 \<or> ins_size nx = 2" by auto
  then show ?thesis
    by (intro takesI [where k = "of_nat (ins_size nx) + 1"]) (auto simp: nx)
qed

lemma error_ops_takes:
  "op_ICALL c = Inr c' \<Longrightarrow> takes c c'" "op_RCALL i c = Inr c' \<Longrightarrow> takes c c'"
  "op_CALL c = Inr c' \<Longrightarrow> takes c c'" "op_JMP c = Inr c' \<Longrightarrow> takes c c'"
  "op_RET c = Inr c' \<Longrightarrow> takes c c'" "op_RETI c = Inr c' \<Longrightarrow> takes c c'"
  "op_POP i c = Inr c' \<Longrightarrow> takes c c'" "op_PUSH i c = Inr c' \<Longrightarrow> takes c c'"
  "op_STS i c = Inr c' \<Longrightarrow> takes c c'" "op_LDS i c = Inr c' \<Longrightarrow> takes c c'"
  "st_idx p i c = Inr c' \<Longrightarrow> takes c c'" "st_post_inc p i c = Inr c' \<Longrightarrow> takes c c'"
  "st_pre_dec p i c = Inr c' \<Longrightarrow> takes c c'" "std_idx p i c = Inr c' \<Longrightarrow> takes c c'"
  "ld_idx p i c = Inr c' \<Longrightarrow> takes c c'" "ld_post_inc p i c = Inr c' \<Longrightarrow> takes c c'"
  "ld_pre_dec p i c = Inr c' \<Longrightarrow> takes c c'" "ldd_idx p i c = Inr c' \<Longrightarrow> takes c c'"
  "op_LPM c = Inr c' \<Longrightarrow> takes c c'" "op_LPM_R i c = Inr c' \<Longrightarrow> takes c c'"
  "op_LPM_R_POST_INC i c = Inr c' \<Longrightarrow> takes c c'"
  by (auto simp: error_op_defs takes_def Let_def mapE_Inr_iff dest!: push_pc_cc sram_put_cc)

lemma do_spm_cc: "do_spm c = Inr c' \<Longrightarrow> c_cc c' = c_cc c"
  by (erule do_spm_cases) simp_all

lemma adv_takes:
  "takes c (adv p 1 c)" "takes c (adv p 2 c)"
  by (simp_all add: takes_def)

lemma spm_takes: "do_spm (adv 1 0 c) = Inr c' \<Longrightarrow> takes c (add_cc 4 c')"
  by (simp add: takes_def do_spm_cc)

lemma exec_ctl_takes: "exec_ctl op i c = Inr c' \<Longrightarrow> takes c c'"
  by (cases op) (auto dest: error_ops_takes intro: adv_takes pure_ops_takes spm_takes)

lemma exec_alu_takes: "exec_alu op i c = Inr c' \<Longrightarrow> core_wf c \<Longrightarrow> takes c c'"
  by (cases op) (auto simp: op_CPSE_def intro: adv_takes pure_ops_takes skip_takes split: if_splits)

lemma exec_bit_takes: "exec_bit op i c = Inr c' \<Longrightarrow> core_wf c \<Longrightarrow> takes c c'"
  by (cases op) (auto simp: op_SBRC_def op_SBRS_def op_SBIC_def op_SBIS_def
      intro: adv_takes pure_ops_takes skip_takes split: if_splits)

lemma exec_jmp_takes: "exec_jmp op i c = Inr c' \<Longrightarrow> takes c c'"
  by (cases op) (auto dest: error_ops_takes intro: pure_ops_takes)

lemma exec_reg_takes: "exec_reg op i c = Inr c' \<Longrightarrow> takes c c'"
  by (cases op) (auto dest: error_ops_takes intro: pure_ops_takes)

lemma exec_st_takes: "exec_st op i c = Inr c' \<Longrightarrow> takes c c'"
  by (cases op) (auto dest: error_ops_takes)

lemma exec_mem_takes: "exec_mem op i c = Inr c' \<Longrightarrow> takes c c'"
  by (cases op) (auto dest: error_ops_takes)

lemma exec_fake_takes: "exec_fake op i c = Inr c' \<Longrightarrow> takes c c'"
  by (cases op) (auto intro: pure_ops_takes)

lemma exec_op_takes: "exec_op op i c = Inr c' \<Longrightarrow> core_wf c \<Longrightarrow> takes c c'"
  by (cases op) (auto intro: exec_flag_takes exec_br_takes
      dest: exec_ctl_takes exec_alu_takes exec_bit_takes exec_jmp_takes exec_reg_takes
        exec_mem_takes exec_fake_takes)

text \<open>
  C1. The invariant and progress of the instruction cycle: from a well-formed core every call of
  \<open>Step\<close> that returns, with or without an interrupt, keeps the memories at their sizes and takes
  between one and four clock cycles, so simulated time always advances.
\<close>

theorem Step_invariant:
  assumes "core_wf c" "Step irq c = Inr (n, c')"
  shows "core_wf c' \<and> 1 \<le> n \<and> n \<le> 4"
proof
  show "core_wf c'" using assms by (rule Step_wf [rotated])
  define c1 where "c1 = log_pc (tick_tcnt2 (tick_tcnt0 c))"
  have wf: "core_wf c1" using assms(1) by (simp add: c1_def)
  have cc: "c_cc c1 = c_cc c"
    by (simp add: c1_def log_pc_def tick_tcnt2_def tick_tcnt0_def)
  from assms(2) show "1 \<le> n \<and> n \<le> 4"
  proof (cases rule: Step_cases)
    case interrupt
    then show ?thesis by simp
  next
    case body
    have "takes c1 c'"
    proof (cases "bit (gr8 c1 EECR) EERE \<or> bit (gr8 c1 EECR) EEWE")
      case True
      then show ?thesis
        using body(2) unfolding c1_def [symmetric]
        by (auto simp: step_body_def takes_def mapE_Inr_iff read_eeprom_def write_eeprom_def Let_def
            split: if_splits)
    next
      case False
      then show ?thesis
        using body(2) wf unfolding c1_def [symmetric]
        by (auto simp: step_body_def fetch_exec_def intro: exec_op_takes)
    qed
    then show ?thesis
      using body(3) unfolding takes_def cc by auto
  qed
qed

text \<open>Witness: a fresh ATmega8 executes the first word of its empty flash memory.\<close>

lemma fresh_step:
  assumes "length regs = 32"
  shows "Step None (fresh_core regs) =
    Inr (1, clear_flag fC (log_pc (fresh_core regs)))"
proof -
  let ?c = "log_pc (fresh_core regs)"
  have ticks: "tick_tcnt2 (tick_tcnt0 (fresh_core regs)) = fresh_core regs"
    by (simp add: tick_tcnt0_def tick_tcnt2_def fresh_core_def AVRCore_init_def EventList_init_def)
  have "gr8 ?c EECR = 0"
    using assms by (simp add: gr8_def log_pc_def fresh_core_def AVRCore_init_def nth_append)
  moreover have "Flash_at (c_flash ?c) (c_pc ?c) =
      Inr \<lparr>ins_word = 0xFFFF, ins_op = Flag OP_CLC, ins_size = 0\<rparr>"
    by (simp add: Flash_at_def log_pc_def fresh_core_def AVRCore_init_def Flash_init_def)
  ultimately have "step_body ?c = Inr (clear_flag fC ?c)"
    by (simp add: step_body_def fetch_exec_def)
  then show ?thesis
    by (simp add: Step_def ticks clear_flag_def Let_def)
qed

lemma Step_invariant_witness:
  "core_wf (clear_flag fC (log_pc (fresh_core (replicate 32 0)))) \<and> (1 :: u64) \<le> 1 \<and> (1 :: u64) \<le> 4"
  by (rule Step_invariant [OF fresh_core_wf fresh_step]) simp_all

section \<open>The bounds of the simulator's arrays\<close>

text \<open>The exceptions that firmware can provoke.\<close>

definition plain_error :: "sim_error \<Rightarrow> bool" where
  "plain_error e \<longleftrightarrow> e = OutOfRange \<or> e = InvalidLpmSource \<or> (\<exists>w. e = UnknownInstruction w)"

lemma plain_error_simps [simp]:
  "plain_error OutOfRange" "plain_error InvalidLpmSource" "plain_error (UnknownInstruction w)"
  by (simp_all add: plain_error_def)

lemma access_errors:
  "sram_at c a = Inl e \<Longrightarrow> plain_error e" "sram_put a v c = Inl e \<Longrightarrow> plain_error e"
  "Flash_at fl a = Inl e \<Longrightarrow> plain_error e" "push_pc r c = Inl e \<Longrightarrow> plain_error e"
  "lpm_byte z c = Inl e \<Longrightarrow> plain_error e" "long_target c = Inl e \<Longrightarrow> plain_error e"
proof -
  show put: "\<And>a v c. sram_put a v c = Inl e \<Longrightarrow> plain_error e"
    by (auto simp: sram_put_def split: if_splits)
  show at: "\<And>fl a. Flash_at fl a = Inl e \<Longrightarrow> plain_error e"
    by (auto simp: Flash_at_def split: if_splits)
  show "sram_at c a = Inl e \<Longrightarrow> plain_error e"
    by (auto simp: sram_at_def split: if_splits)
  show "push_pc r c = Inl e \<Longrightarrow> plain_error e"
    by (auto simp: push_pc_def bindE_Inl_iff dest: put)
  show "lpm_byte z c = Inl e \<Longrightarrow> plain_error e"
    by (auto simp: lpm_byte_def Flash_get_byte_def Let_def split: if_splits)
  show "long_target c = Inl e \<Longrightarrow> plain_error e"
    by (auto simp: long_target_def bindE_Inl_iff dest: at)
qed

lemma error_ops_errors:
  "op_ICALL c = Inl e \<Longrightarrow> plain_error e" "op_RCALL i c = Inl e \<Longrightarrow> plain_error e"
  "op_CALL c = Inl e \<Longrightarrow> plain_error e" "op_JMP c = Inl e \<Longrightarrow> plain_error e"
  "op_RET c = Inl e \<Longrightarrow> plain_error e" "op_RETI c = Inl e \<Longrightarrow> plain_error e"
  "op_POP i c = Inl e \<Longrightarrow> plain_error e" "op_PUSH i c = Inl e \<Longrightarrow> plain_error e"
  "op_CPSE i c = Inl e \<Longrightarrow> plain_error e" "op_SBRC i c = Inl e \<Longrightarrow> plain_error e"
  "op_SBRS i c = Inl e \<Longrightarrow> plain_error e" "op_SBIC i c = Inl e \<Longrightarrow> plain_error e"
  "op_SBIS i c = Inl e \<Longrightarrow> plain_error e"
  "op_STS i c = Inl e \<Longrightarrow> plain_error e" "op_LDS i c = Inl e \<Longrightarrow> plain_error e"
  "st_idx p i c = Inl e \<Longrightarrow> plain_error e" "st_post_inc p i c = Inl e \<Longrightarrow> plain_error e"
  "st_pre_dec p i c = Inl e \<Longrightarrow> plain_error e" "std_idx p i c = Inl e \<Longrightarrow> plain_error e"
  "ld_idx p i c = Inl e \<Longrightarrow> plain_error e" "ld_post_inc p i c = Inl e \<Longrightarrow> plain_error e"
  "ld_pre_dec p i c = Inl e \<Longrightarrow> plain_error e" "ldd_idx p i c = Inl e \<Longrightarrow> plain_error e"
  "op_LPM c = Inl e \<Longrightarrow> plain_error e" "op_LPM_R i c = Inl e \<Longrightarrow> plain_error e"
  "op_LPM_R_POST_INC i c = Inl e \<Longrightarrow> plain_error e"
  by (auto simp: error_op_defs Let_def bindE_Inl_iff mapE_Inl_iff dest: access_errors
      split: if_splits)

lemma do_spm_no_error:
  assumes "core_wf c"
  shows "do_spm c \<noteq> Inl e"
proof -
  define z where "z = gr16 c IndexRegZ"
  note bounds = spm_in_bounds [OF assms, of z]
  have erase: "page_erase b (spm_page (c_mc c) z * c_page_size c div 2 + length (c_spm_buf c)) (c_flash c) \<noteq> Inl e"
    for b using bounds by (simp add: page_erase_def)
  have e: "(spm_page (c_mc c) z + 1) * c_page_size c div 2 =
      spm_page (c_mc c) z * c_page_size c div 2 + length (c_spm_buf c)"
    using bounds(3) by simp
  have small: "unat (of_nat n :: u16) \<le> n" for n :: nat
    by (simp add: unsigned_of_nat take_bit_eq_mod)
  have fill: "page_fill (c_spm_buf c) b (b + length (c_spm_buf c)) (c_flash c) \<noteq> Inl e"
    if "b = spm_page (c_mc c) z * c_page_size c div 2" for b
    using bounds(1) unfolding e by (simp add: page_fill_def that)
  have decode: "Decode b' (of_nat n) fl \<noteq> Inl e"
    if "page_fill (c_spm_buf c) b n (c_flash c) = Inr fl" for b b' n fl
  proof -
    have "n \<le> length fl"
      using that page_fill_length [OF that] by (simp add: page_fill_def split: if_splits)
    then have "unat (of_nat n :: u16) \<le> length fl"
      using small [of n] by linarith
    from Decode_Inr [OF this] show ?thesis by simp
  qed
  show ?thesis
    using erase fill decode bounds(2)
    unfolding do_spm_def Let_def z_def [symmetric] e
    by (auto simp: bindE_Inl_iff simp del: of_nat_add split: if_splits)
qed

lemma exec_ctl_errors: "exec_ctl op i c = Inl e \<Longrightarrow> core_wf c \<Longrightarrow> plain_error e"
  by (cases op) (auto simp: bindE_Inl_iff do_spm_no_error dest: error_ops_errors)

lemma exec_alu_errors: "exec_alu op i c = Inl e \<Longrightarrow> plain_error e"
  by (cases op) (auto dest: error_ops_errors)

lemma exec_bit_errors: "exec_bit op i c = Inl e \<Longrightarrow> plain_error e"
  by (cases op) (auto dest: error_ops_errors)

lemma exec_jmp_errors: "exec_jmp op i c = Inl e \<Longrightarrow> plain_error e"
  by (cases op) (auto dest: error_ops_errors)

lemma exec_reg_errors: "exec_reg op i c = Inl e \<Longrightarrow> plain_error e"
  by (cases op) (auto dest: error_ops_errors)

lemma exec_st_errors: "exec_st op i c = Inl e \<Longrightarrow> plain_error e"
  by (cases op) (auto dest: error_ops_errors)

lemma exec_fake_errors: "exec_fake op i c = Inl e \<Longrightarrow> plain_error e"
  by (cases op) (auto dest: error_ops_errors)

lemma exec_mem_errors: "exec_mem op i c = Inl e \<Longrightarrow> plain_error e"
  by (cases op) (auto dest: error_ops_errors)

lemma exec_op_errors: "exec_op op i c = Inl e \<Longrightarrow> core_wf c \<Longrightarrow> plain_error e"
  by (cases op) (auto dest: exec_ctl_errors exec_alu_errors exec_bit_errors
      exec_jmp_errors exec_reg_errors exec_fake_errors exec_mem_errors)

lemma tick_frame:
  assumes "n \<noteq> TCNT0" "n \<noteq> TCNT2"
  shows "gr8 (log_pc (tick_tcnt2 (tick_tcnt0 c))) n = gr8 c n"
  using assms by (simp_all add: log_pc_def tick_tcnt2_def tick_tcnt0_def gr8_def set_gr8_def)

lemma tick_eeprom [simp]: "c_eeprom (log_pc (tick_tcnt2 (tick_tcnt0 c))) = c_eeprom c"
  by (simp add: log_pc_def tick_tcnt2_def tick_tcnt0_def)

text \<open>
  C2. Memory safety: a step of a well-formed core never reads or writes outside the simulator's
  arrays, except through the EEPROM address. It ends with one of the three exceptions, or the
  firmware has requested an EEPROM access at an address of 512 or more, which the code passes to
  the host array unchecked; then, and only then, the behaviour is undefined.
\<close>

theorem Step_memory_safe:
  assumes "core_wf c" "Step irq c = Inl e" "\<not> plain_error e"
  shows "e = UndefinedBehaviour \<and> 0x200 \<le> eeprom_addr c \<and>
    (bit (gr8 c EECR) EERE \<or> bit (gr8 c EECR) EEWE)"
proof -
  define c1 where "c1 = log_pc (tick_tcnt2 (tick_tcnt0 c))"
  have wf: "core_wf c1" using assms(1) by (simp add: c1_def)
  have same: "eeprom_addr c1 = eeprom_addr c" "gr8 c1 EECR = gr8 c EECR"
    by (simp_all add: c1_def eeprom_addr_def tick_frame)
  have "length (c_eeprom c1) = 0x200" using wf by (simp add: core_wf_def)
  moreover have "interrupt_entry a c1 \<noteq> Inl e" for a
    using assms(3) access_errors(4) by (auto simp: interrupt_entry_def bindE_Inl_iff)
  then have "step_body c1 = Inl e"
    using assms(2) unfolding Step_def Let_def c1_def [symmetric]
    by (auto simp: mapE_Inl_iff split: option.splits if_splits)
  moreover have "fetch_exec c1 \<noteq> Inl e"
    using assms(3) wf access_errors(3) exec_op_errors by (auto simp: fetch_exec_def bindE_Inl_iff)
  ultimately show ?thesis
    unfolding step_body_def same [symmetric]
    by (auto simp: mapE_Inl_iff read_eeprom_def write_eeprom_def Let_def split: if_splits)
qed

text \<open>Witness: with \<open>EEARH = 2\<close> and EERE set, the EEPROM is read at index 512.\<close>

lemma Step_memory_safe_witness:
  "\<exists>c. core_wf c \<and> Step None c = Inl UndefinedBehaviour \<and> 0x200 \<le> eeprom_addr c"
proof -
  define c where "c = set_gr8 EEARH 2 (set_gr8 EECR (bit8 EERE) (fresh_core (replicate 32 0)))"
  have wf: "core_wf c" using fresh_core_wf [of "replicate 32 0"] by (simp add: c_def)
  have regs: "gr8 c EECR = bit8 EERE" "gr8 c EEARH = 2" "gr8 c EEARL = 0" "length (c_eeprom c) = 0x200"
    by (simp_all add: c_def gr8_set_gr8 fresh_core_def AVRCore_init_def)
      (simp_all add: gr8_def nth_append)
  have "Step None c = Inl UndefinedBehaviour"
    using regs by (simp add: Step_def Let_def step_body_def tick_frame read_eeprom_def
        eeprom_addr_def unat_join16)
  then show ?thesis
    using Step_memory_safe [of c None UndefinedBehaviour] wf by (auto simp: plain_error_def)
qed


end
