(* ===== verification/Avr_Control.thy ===== *)
theory Avr_Control
  imports Avr_Step
begin

text \<open>
  Control flow and the memory services of the core: calls and returns over the stack in data
  memory, interrupts and \<open>reti\<close>, relative branches, the EEPROM, and self-programming of pages.
\<close>

section \<open>The stack\<close>

text \<open>
  A stack pointer is usable when the two bytes at and below it lie above the registers, so that a
  push does not overwrite the pointer or the status register, which are data memory too.
\<close>

definition stack_ok :: "core \<Rightarrow> bool" where
  "stack_ok c \<longleftrightarrow> core_wf c \<and> 0x60 < unat (stack c) \<and> unat (stack c) < 0x460"

lemma stack_set_gr8 [core_simps]:
  "0x5F < n \<Longrightarrow> stack (set_gr8 n v c) = stack c" "n < 0x5D \<Longrightarrow> stack (set_gr8 n v c) = stack c"
  by (simp_all add: stack_def gr16_eq gr8_set_gr8)

lemma stack_set_stack [core_simps]: "core_wf c \<Longrightarrow> stack (set_stack w c) = w"
  by (simp add: stack_def set_stack_def gr16_set_gr16 core_wf_sram)

lemma gr8_set_stack [core_simps]: "n \<noteq> 0x5D \<Longrightarrow> n \<noteq> 0x5E \<Longrightarrow> gr8 (set_stack w c) n = gr8 c n"
  by (simp add: set_stack_def gr8_set_gr16)

lemma stack_set_sreg [simp]: "stack (set_sreg v c) = stack c"
  by (simp add: stack_def set_sreg_def gr16_eq gr8_set_gr8)

lemma set_sreg_pc [simp]: "c_pc (set_sreg v c) = c_pc c" "c_pc (set_stack w c) = c_pc c"
  by (simp_all add: set_sreg_def set_stack_def)

lemma push_pc_value:
  assumes "stack_ok c"
  shows "push_pc r c = Inr (set_stack (stack c - 2)
    (set_gr8 (unat (stack c) - 1) (word_of_int (r div 256)) (set_gr8 (unat (stack c)) (word_of_int r) c)))"
proof -
  have sp: "0x60 < unat (stack c)" "unat (stack c) < 0x460" "length (c_sram c) = 0x460"
    using assms by (auto simp: stack_ok_def core_wf_sram)
  have "uint (stack c) = int (unat (stack c))" "uint (stack c) - 1 = int (unat (stack c) - 1)"
    using sp(1) by (simp_all add: of_nat_diff)
  moreover have "nat (int n - 1) = n - 1" for n by simp
  ultimately show ?thesis
    using sp by (simp add: push_pc_def sram_put_def stack_set_gr8 del: of_nat_unat)
qed

lemma op_RET_value:
  assumes "core_wf c" "stack c = w - 2" "0x60 < unat w" "unat w < 0x460"
    and "gr8 c (unat w) = word_of_int r" "gr8 c (unat w - 1) = word_of_int (r div 256)"
    and "0 \<le> r" "r < 65536"
  shows "op_RET c = Inr (add_cc 4 (set_pc r (set_stack w c)))"
proof -
  have at: "sram_at (set_stack w c) (int n) = Inr (gr8 c n)" if "0x60 \<le> n" "n < 0x460" for n
    using that assms(1) gr8_set_stack [of n w c]
    by (simp add: sram_at_def set_stack_def core_wf_sram gr8_def)
  have idx: "uint w - 1 = int (unat w - 1)" "uint w = int (unat w)"
    using assms(3) by (simp_all add: of_nat_diff)
  have "uint (join16 (word_of_int r) (word_of_int (r div 256))) = r"
    unfolding word_of_int_bytes using assms(7,8) by (rule uint_word_of_int16)
  moreover have "push_bit 8 (uint h) OR uint l = uint (join16 l h)" for l h :: u8
    unfolding join16_def
    by (rule bit_eqI) (auto simp: bit_simps bit_imp_le_length dest: bit_imp_le_length)
  ultimately have pc: "push_bit 8 (uint (word_of_int (r div 256) :: u8)) OR uint (word_of_int r :: u8) = r"
    by simp
  have "stack (set_stack (stack c + 2) c) = w" "stack c + 2 = w"
    using assms(1,2) by (simp_all add: stack_set_stack)
  then show ?thesis
    using at [of "unat w"] at [of "unat w - 1"] assms(3-6) pc
    unfolding op_RET_def Let_def by (simp add: idx del: of_nat_unat uint_word_of_int)
qed

text \<open>What a subroutine or handler may do between the call and the return.\<close>

definition keeps_frame :: "core \<Rightarrow> core \<Rightarrow> u16 \<Rightarrow> bool" where
  "keeps_frame c1 c2 w \<longleftrightarrow> core_wf c2 \<and> stack c2 = stack c1 \<and>
     gr8 c2 (unat w) = gr8 c1 (unat w) \<and> gr8 c2 (unat w - 1) = gr8 c1 (unat w - 1)"

lemma push_then_ret:
  assumes "stack_ok c" "push_pc r c = Inr c1" "keeps_frame c1 c2 (stack c)" "0 \<le> r" "r < 65536"
  shows "op_RET c2 = Inr (add_cc 4 (set_pc r (set_stack (stack c) c2)))"
proof -
  have wf: "core_wf c" and sp: "0x60 < unat (stack c)" "unat (stack c) < 0x460"
    using assms(1) by (auto simp: stack_ok_def)
  have c1: "c1 = set_stack (stack c - 2) (set_gr8 (unat (stack c) - 1) (word_of_int (r div 256))
      (set_gr8 (unat (stack c)) (word_of_int r) c))"
    using assms(2) push_pc_value [OF assms(1)] by simp
  have "stack c1 = stack c - 2" "gr8 c1 (unat (stack c)) = word_of_int r"
    "gr8 c1 (unat (stack c) - 1) = word_of_int (r div 256)"
    using wf sp unfolding c1 by (auto simp: stack_set_stack gr8_set_stack gr8_set_gr8 core_wf_sram)
  then show ?thesis
    using assms(3) unfolding keeps_frame_def by (intro op_RET_value sp assms(4,5)) simp_all
qed

text \<open>
  C6. Calls return: whichever of \<open>rcall\<close>, \<open>icall\<close> and \<open>call\<close> enters a subroutine, if the subroutine
  leaves the stack pointer and the two stacked bytes as it found them, \<open>ret\<close> continues at the
  instruction after the call, with the stack pointer of before the call and every other byte of
  memory as the subroutine left it.
\<close>

theorem call_return:
  assumes "stack_ok c" "0 \<le> c_pc c" "c_pc c < 65534"
    and "(op_RCALL i c = Inr c1 \<or> op_ICALL c = Inr c1) \<and> r = c_pc c + 1 \<or>
         op_CALL c = Inr c1 \<and> r = c_pc c + 2"
    and "keeps_frame c1 c2 (stack c)"
  shows "op_RET c2 = Inr (add_cc 4 (set_pc r (set_stack (stack c) c2)))"
proof -
  have r: "0 \<le> r" "r < 65536" using assms(2-4) by auto
  obtain c0 where push: "push_pc r c = Inr c0" and frame: "keeps_frame c0 c2 (stack c)"
    using assms(4,5)
    by (auto simp: op_RCALL_def op_ICALL_def op_CALL_def keeps_frame_def)
  show ?thesis by (rule push_then_ret [OF assms(1) push frame r])
qed

text \<open>Witness: \<open>rcall .+2\<close> at 0 with the stack at \<open>0x45F\<close>, and an empty subroutine.\<close>

definition stacked_core :: core where
  "stacked_core = set_stack 0x45F (fresh_core (replicate 32 0))"

lemma stacked_core_ok: "stack_ok stacked_core" "stack stacked_core = 0x45F"
  using fresh_core_wf [of "replicate 32 0"]
  by (simp_all add: stack_ok_def stacked_core_def stack_set_stack core_wf_frame)

lemma call_return_witness:
  "\<exists>c1. op_RCALL 0xD001 stacked_core = Inr c1 \<and>
     op_RET c1 = Inr (add_cc 4 (set_pc 1 (set_stack 0x45F c1)))"
proof -
  obtain c1 where c1: "op_RCALL 0xD001 stacked_core = Inr c1"
    using push_pc_value [OF stacked_core_ok(1)] by (auto simp: op_RCALL_def)
  then have "keeps_frame c1 c1 (stack stacked_core)"
    using stacked_core_ok error_ops_wf(2) by (auto simp: keeps_frame_def stack_ok_def)
  moreover have "c_pc stacked_core = 0"
    by (simp add: stacked_core_def set_stack_def fresh_core_def AVRCore_init_def)
  ultimately show ?thesis
    using call_return [OF stacked_core_ok(1), where r = 1] c1 stacked_core_ok(2) by auto
qed

text \<open>
  C7. Interrupts resume: entering the handler at vector \<open>a\<close> takes four cycles, clears the I flag
  and jumps to \<open>a\<close>; when the handler has kept the stack pointer and the stacked address, \<open>reti\<close>
  continues at the interrupted instruction with the I flag set and the other flags as the handler
  left them.
\<close>

theorem interrupt_return:
  assumes "stack_ok c" "0 \<le> c_pc c" "c_pc c < 65536"
    and "interrupt_entry a c = Inr c1" "keeps_frame c1 c2 (stack c)"
  shows "c_pc c1 = uint a \<and> c_cc c1 = c_cc c + 4 \<and> sreg c1 = unset_bit fI (sreg c) \<and>
    op_RETI c2 = Inr (add_cc 4 (set_pc (c_pc c) (set_stack (stack c)
      (set_sreg (set_bit fI (sreg c2)) c2))))"
proof -
  have wf: "core_wf c" and sp: "0x60 < unat (stack c)" "unat (stack c) < 0x460"
    using assms(1) by (auto simp: stack_ok_def)
  obtain c0 where push: "push_pc (c_pc c) c = Inr c0"
    and c1: "c1 = add_cc 4 (set_sreg (unset_bit fI (sreg c0)) (set_pc (uint a) c0))"
    using assms(4) by (auto simp: interrupt_entry_def)
  have c0: "core_wf c0" "sreg c0 = sreg c" "c_cc c0 = c_cc c"
    using wf sp push push_pc_wf [OF push] push_pc_cc [OF push]
    by (auto simp: push_pc_value [OF assms(1)] sreg_def gr8_set_stack gr8_set_gr8)
  have "gr8 c1 n = gr8 c0 n" if "0x5F < n" for n
    using that by (simp add: c1 set_sreg_def gr8_set_gr8)
  then have "keeps_frame c0 c2 (stack c)"
    using assms(5) sp unfolding keeps_frame_def by (simp add: c1 stack_set_sreg)
  then have "keeps_frame c0 (set_sreg (set_bit fI (sreg c2)) c2) (stack c)"
    using sp unfolding keeps_frame_def
    by (auto simp: set_sreg_def gr8_set_gr8 stack_set_sreg [unfolded set_sreg_def])
  from push_then_ret [OF assms(1) push this assms(2,3)] show ?thesis
    using c0 by (simp add: c1 op_RETI_def sreg_set_sreg)
qed

lemma interrupt_return_witness:
  "\<exists>c1. interrupt_entry 9 stacked_core = Inr c1 \<and> c_pc c1 = 9 \<and>
     op_RETI c1 = Inr (add_cc 4 (set_pc 0 (set_stack 0x45F (set_sreg (set_bit fI (sreg c1)) c1))))"
proof -
  obtain c1 where c1: "interrupt_entry 9 stacked_core = Inr c1"
    using push_pc_value [OF stacked_core_ok(1)] by (auto simp: interrupt_entry_def)
  then have "keeps_frame c1 c1 (stack stacked_core)"
    using stacked_core_ok interrupt_entry_wf by (auto simp: keeps_frame_def stack_ok_def)
  moreover have "c_pc stacked_core = 0"
    by (simp add: stacked_core_def set_stack_def fresh_core_def AVRCore_init_def)
  ultimately show ?thesis
    using interrupt_return [OF stacked_core_ok(1) _ _ c1] c1 stacked_core_ok(2) by auto
qed

section \<open>Relative branches\<close>

text \<open>The code's way to sign-extend a field: complement, mask, add one, negate.\<close>

lemma sign_extend:
  fixes x :: int
  assumes "o' = take_bit (Suc k) x"
  shows "(if o' AND 2 ^ k \<noteq> 0 then - ((NOT o' AND mask (Suc k)) + 1) else o') = signed_take_bit k x"
proof -
  have bit: "o' AND 2 ^ k \<noteq> 0 \<longleftrightarrow> bit x k"
    unfolding assms and_exp_eq_0_iff_not_bit not_not by (simp add: bit_take_bit_iff)
  have "NOT o' AND mask (Suc k) = take_bit (Suc k) (- 1 - o')"
    by (simp add: take_bit_eq_mask not_eq_complement minus_diff_commute)
  also have "\<dots> = 2 ^ Suc k - 1 - o'"
  proof -
    have "0 \<le> o'" "o' < 2 ^ Suc k" unfolding assms using take_bit_int_less_exp [of "Suc k" x] by simp_all
    then have "take_bit (Suc k) (2 ^ Suc k - 1 - o') = 2 ^ Suc k - 1 - o'"
      by (intro take_bit_int_eq_self) linarith+
    moreover have "take_bit (Suc k) (2 ^ Suc k - 1 - o') = take_bit (Suc k) (- 1 - o')"
    proof -
      have "2 ^ Suc k - 1 - o' = (- 1 - o') + 2 ^ Suc k" by simp
      then show ?thesis unfolding take_bit_eq_mod by (simp only: mod_add_self2)
    qed
    ultimately show ?thesis by simp
  qed
  finally show ?thesis
    unfolding bit by (simp add: signed_take_bit_eq_take_bit_minus assms)
qed

text \<open>One wrap is enough: offsets are smaller than the flash memory.\<close>

lemma normalize_pc_mod:
  assumes "- int (length (c_flash c)) \<le> c_pc c" "c_pc c < 2 * int (length (c_flash c))"
  shows "c_pc (normalize_pc c) = c_pc c mod int (length (c_flash c))"
proof -
  define m where "m = int (length (c_flash c))"
  have "p mod m = (if m \<le> p then p - m else if p < 0 then p + m else p)"
    if "- m \<le> p" "p < 2 * m" for p
  proof -
    have "(p - m) mod m = p mod m" "(p + m) mod m = p mod m" by simp_all
    then show ?thesis
      using that mod_pos_pos_trivial [of "p - m" m] mod_pos_pos_trivial [of "p + m" m] by auto
  qed
  then show ?thesis
    using assms by (simp add: normalize_pc_def Let_def m_def)
qed

lemma branch_pc:
  "c_pc (branch i c) =
     c_pc (normalize_pc (set_pc (c_pc c + 1 + signed_take_bit 6 (uint (drop_bit 3 i))) c))"
proof -
  define o' where "o' = uint (drop_bit 3 i AND 0x7F)"
  have "o' = take_bit (Suc 6) (uint (drop_bit 3 i))"
    by (simp add: o'_def take_bit_eq_mask mask_eq_exp_minus_1 unsigned_and_eq)
  from sign_extend [OF this]
  have "(if o' AND 0x40 \<noteq> 0 then - ((NOT o' AND 0x7F) + 1) + 1 else o' + 1) =
      signed_take_bit 6 (uint (drop_bit 3 i)) + 1"
    by (simp add: mask_eq_exp_minus_1 split: if_splits)
  then show ?thesis
    unfolding branch_def Let_def o'_def [symmetric] by (simp add: algebra_simps)
qed

lemma rjmp_offset_signed: "rjmp_offset i = signed_take_bit 11 (uint i)"
proof -
  define o' where "o' = uint (i AND 0x0FFF)"
  have "o' = take_bit (Suc 11) (uint i)"
    by (simp add: o'_def take_bit_eq_mask mask_eq_exp_minus_1 unsigned_and_eq)
  from sign_extend [OF this] have "(if o' AND 0x800 \<noteq> 0 then - ((NOT o' AND 0xFFF) + 1) else o') =
      signed_take_bit 11 (uint i)"
    by (simp add: mask_eq_exp_minus_1 split: if_splits)
  then show ?thesis
    unfolding rjmp_offset_def Let_def o'_def [symmetric] .
qed

text \<open>
  Branch targets: from a program counter inside the flash memory, a taken conditional branch
  goes to the next instruction plus the sign-extended 7-bit field, \<open>rjmp\<close> to the next one plus
  the 12-bit field, both modulo the size of the flash memory, so the program counter stays inside.
\<close>

theorem branch_target:
  assumes "core_wf c" "0 \<le> c_pc c" "c_pc c < int (length (c_flash c))"
  shows "c_pc (branch i c) =
      (c_pc c + 1 + signed_take_bit 6 (uint (drop_bit 3 i))) mod int (length (c_flash c)) \<and>
    c_pc (op_RJMP i c) = (c_pc c + 1 + signed_take_bit 11 (uint i)) mod int (length (c_flash c))"
proof -
  have size: "4096 \<le> int (length (c_flash c))"
    using assms(1) by (cases "c_mc c") (auto simp: core_wf_def Atmega8_def Atmega16_def)
  have "- 64 \<le> signed_take_bit 6 x" "signed_take_bit 6 x < 64"
    "- 2048 \<le> signed_take_bit 11 x" "signed_take_bit 11 x < 2048" for x :: int
    using signed_take_bit_int_greater_eq_minus_exp [of 6 x] signed_take_bit_int_less_exp [of 6 x]
      signed_take_bit_int_greater_eq_minus_exp [of 11 x] signed_take_bit_int_less_exp [of 11 x]
    by simp_all
  note bounds = this [of "uint (drop_bit 3 i)"] this [of "uint i"]
  show ?thesis
    using bounds size assms(2,3)
      normalize_pc_mod [of "set_pc (c_pc c + 1 + signed_take_bit 6 (uint (drop_bit 3 i))) c"]
      normalize_pc_mod [of "adv (rjmp_offset i + 1) 2 c"]
    unfolding branch_pc op_RJMP_def by (simp add: rjmp_offset_signed algebra_simps)
qed

text \<open>Witness: \<open>rjmp .-2\<close> at address 0 jumps to itself.\<close>

lemma branch_target_witness:
  "c_pc (op_RJMP 0xCFFF (fresh_core (replicate 32 0))) = 0"
  using branch_target [OF fresh_core_wf, of "replicate 32 0" "0xCFFF"]
  by (simp add: fresh_core_def AVRCore_init_def Flash_init_def signed_take_bit_eq_take_bit_minus
      take_bit_eq_mod bit_iff_odd)

section \<open>The EEPROM\<close>

text \<open>
  The EEPROM returns what was written: after a write of \<open>EEDR\<close>, a read at the same address,
  with the EEPROM untouched in between, puts the byte into \<open>EEDR\<close>; both clear their request bit,
  so the core goes on with the program, and no other cell changes.
\<close>

theorem eeprom_roundtrip:
  assumes "core_wf c" "eeprom_addr c < 0x200"
    and "core_wf c2" "eeprom_addr c2 = eeprom_addr c"
    and "write_eeprom c = Inr c1" "c_eeprom c2 = c_eeprom c1"
  shows "\<exists>c3. read_eeprom c2 = Inr c3 \<and> gr8 c3 EEDR = gr8 c EEDR \<and>
    \<not> bit (gr8 c1 EECR) EEWE \<and> \<not> bit (gr8 c3 EECR) EERE \<and>
    c_eeprom c3 = (c_eeprom c)[eeprom_addr c := gr8 c EEDR]"
  using assms core_wf_sram [OF assms(1)] core_wf_sram [OF assms(3)]
  by (auto simp: write_eeprom_def read_eeprom_def Let_def gr8_set_gr8 core_wf_def bit_unset_bit_iff)

lemma eeprom_roundtrip_witness:
  "\<exists>c1 c3. write_eeprom (set_gr8 EEDR 7 (fresh_core (replicate 32 0))) = Inr c1 \<and>
     read_eeprom c1 = Inr c3 \<and> gr8 c3 EEDR = 7"
proof -
  define c where "c = set_gr8 EEDR 7 (fresh_core (replicate 32 0))"
  have wf: "core_wf c" using fresh_core_wf [of "replicate 32 0"] by (simp add: c_def)
  have regs: "gr8 c EEDR = 7" "gr8 c EEARH = 0" "gr8 c EEARL = 0"
    by (simp_all add: c_def gr8_set_gr8 fresh_core_def AVRCore_init_def)
      (simp_all add: gr8_def nth_append)
  then have addr: "eeprom_addr c = 0" by (simp add: eeprom_addr_def join16_def)
  obtain c1 where c1: "write_eeprom c = Inr c1"
    using addr wf by (cases "c_eeprom c") (auto simp: write_eeprom_def core_wf_def)
  moreover have "eeprom_addr c1 = eeprom_addr c"
    using c1 by (auto simp: write_eeprom_def Let_def eeprom_addr_def gr8_set_gr8 gr8_def set_gr8_def split: if_splits)
  ultimately show ?thesis
    using eeprom_roundtrip [OF wf _ write_eeprom_wf [OF c1 wf] _ c1] addr regs unfolding c_def [symmetric]
    by fastforce
qed

section \<open>Self-programming\<close>

lemma decoded_page_fill:
  assumes "page_fill buf b e fl = Inr fl1" "b \<le> e"
  shows "Decode_loop b e fl1 = Inr (decoded b e fl1)"
    and "i < length fl \<Longrightarrow> decoded b e fl1 ! i =
      (if b \<le> i \<and> i < e then decode_cell ((fl ! i)\<lparr>ins_word := buf ! (i - b)\<rparr>) else fl ! i)"
  using assms by (auto simp: page_fill_def Decode_loop_Inr nth_decoded split: if_splits)

lemma clear_spmen_simps [simp]:
  "c_flash (clear_spmen c) = c_flash c" "c_spm_buf (clear_spmen c) = c_spm_buf c"
  by (simp_all add: clear_spmen_def)

lemma clear_spmen_bit: "core_wf c \<Longrightarrow> \<not> bit (gr8 (clear_spmen c) SPMCR) SPMEN"
  by (simp add: clear_spmen_def gr8_set_gr8 core_wf_sram bit_unset_bit_iff)

lemma unat_word_index: "n \<le> 0x2000 \<Longrightarrow> unat (of_nat n :: u16) = n"
  by (simp add: unsigned_of_nat take_bit_nat_eq_self)

lemma page_end_small: "core_wf c \<Longrightarrow> length (c_flash c) \<le> 0x2000"
  by (cases "c_mc c") (auto simp: core_wf_def Atmega8_def Atmega16_def)

lemma spm_erase_value:
  assumes "core_wf c" "bit (gr8 c SPMCR) SPMEN" "bit (gr8 c SPMCR) PGERS"
    and "b = spm_page (c_mc c) (gr16 c IndexRegZ) * c_page_size c div 2" "e = b + length (c_spm_buf c)"
  shows "\<exists>fl. page_erase b e (c_flash c) = Inr fl \<and> do_spm c = Inr (clear_spmen
    (c\<lparr>c_flash := fl, c_spm_buf := replicate (c_page_size c div 2) 0xFFFF\<rparr>))"
proof -
  note bounds = spm_in_bounds [OF assms(1), of "gr16 c IndexRegZ"]
  have e: "(spm_page (c_mc c) (gr16 c IndexRegZ) + 1) * c_page_size c div 2 = e"
    using bounds(3) by (simp add: assms(4,5))
  then have "e \<le> length (c_flash c)" using bounds(1) by simp
  then show ?thesis
    using assms(2,3) unfolding do_spm_def Let_def e assms(4) [symmetric]
    by (simp add: page_erase_def)
qed

lemma spm_write_value:
  assumes "core_wf c" "bit (gr8 c SPMCR) SPMEN" "\<not> bit (gr8 c SPMCR) PGERS" "bit (gr8 c SPMCR) PGWRT"
    and "b = spm_page (c_mc c) (gr16 c IndexRegZ) * c_page_size c div 2" "e = b + length (c_spm_buf c)"
  shows "\<exists>fl. page_fill (c_spm_buf c) b e (c_flash c) = Inr fl \<and>
    do_spm c = Inr (clear_spmen (c\<lparr>c_flash := decoded b e fl\<rparr>))"
proof -
  note bounds = spm_in_bounds [OF assms(1), of "gr16 c IndexRegZ"]
  have e: "(spm_page (c_mc c) (gr16 c IndexRegZ) + 1) * c_page_size c div 2 = e"
    using bounds(3) by (simp add: assms(5,6))
  then have le: "e \<le> length (c_flash c)" using bounds(1) by simp
  then obtain fl where fl: "page_fill (c_spm_buf c) b e (c_flash c) = Inr fl"
    by (simp add: page_fill_def assms(6))
  have "unat (of_nat b :: u16) = b" "unat (of_nat e :: u16) = e"
    using le page_end_small [OF assms(1)] by (rule_tac [!] unat_word_index) (simp_all add: assms(6))
  then have "Decode (of_nat b) (of_nat e) fl = Inr (decoded b e fl)"
    using Decode_Inr [of "of_nat e" fl "of_nat b"] le page_fill_length [OF fl] by simp
  then show ?thesis
    using assms(2,3,4) fl unfolding do_spm_def Let_def e assms(5) [symmetric] by simp
qed

text \<open>
  Programming a page: with SPMEN and PGWRT set, every word of the page that Z selects becomes
  the decoded word of the page buffer, and every other word of program memory stays as it is;
  with SPMEN and PGERS set, the page is erased and so is the page buffer, so that words loaded
  before the erase are lost and a following page write programs \<open>0xFFFF\<close>.
\<close>

theorem spm_page:
  assumes "core_wf c" "bit (gr8 c SPMCR) SPMEN"
    and "bit (gr8 c SPMCR) PGERS \<or> bit (gr8 c SPMCR) PGWRT"
    and "b = spm_page (c_mc c) (gr16 c IndexRegZ) * c_page_size c div 2"
    and "i < length (c_flash c)"
  shows "\<exists>c'. do_spm c = Inr c' \<and> \<not> bit (gr8 c' SPMCR) SPMEN \<and>
    (if bit (gr8 c SPMCR) PGERS
     then c_spm_buf c' = replicate (length (c_spm_buf c)) 0xFFFF \<and>
       ins_word (c_flash c' ! i) = (if b \<le> i \<and> i < b + length (c_spm_buf c) then 0xFFFF
         else ins_word (c_flash c ! i))
     else c_flash c' ! i = (if b \<le> i \<and> i < b + length (c_spm_buf c)
         then decode_cell ((c_flash c ! i)\<lparr>ins_word := c_spm_buf c ! (i - b)\<rparr>)
         else c_flash c ! i))"
proof (cases "bit (gr8 c SPMCR) PGERS")
  case True
  obtain fl where fl: "page_erase b (b + length (c_spm_buf c)) (c_flash c) = Inr fl"
    and spm: "do_spm c = Inr (clear_spmen
      (c\<lparr>c_flash := fl, c_spm_buf := replicate (c_page_size c div 2) 0xFFFF\<rparr>))"
    using spm_erase_value [OF assms(1,2) True assms(4) refl] by blast
  have "ins_word (fl ! i) = (if b \<le> i \<and> i < b + length (c_spm_buf c) then 0xFFFF
      else ins_word (c_flash c ! i))"
    using fl assms(5) by (auto simp: page_erase_def split: if_splits)
  moreover have "c_page_size c div 2 = length (c_spm_buf c)"
    using assms(1) by (simp add: core_wf_def)
  ultimately show ?thesis
    using True clear_spmen_bit [OF erase_keeps_wf [OF assms(1) fl]] unfolding spm by simp
next
  case False
  then obtain fl where fl: "page_fill (c_spm_buf c) b (b + length (c_spm_buf c)) (c_flash c) = Inr fl"
    and spm: "do_spm c = Inr (clear_spmen (c\<lparr>c_flash := decoded b (b + length (c_spm_buf c)) fl\<rparr>))"
    using spm_write_value [OF assms(1,2) False _ assms(4) refl] assms(3) by blast
  have wf: "core_wf (c\<lparr>c_flash := decoded b (b + length (c_spm_buf c)) fl\<rparr>)"
    using do_spm_wf [OF spm assms(1)] by simp
  show ?thesis
    using False clear_spmen_bit [OF wf] decoded_page_fill(2) [OF fl le_add1 assms(5)] unfolding spm
    by simp
qed

text \<open>Witness: page 0 of a fresh ATmega8 is programmed with an untouched buffer.\<close>

lemma spm_page_witness:
  "\<exists>c c'. do_spm c = Inr c' \<and> bit (gr8 c SPMCR) PGWRT \<and>
     c_flash c' ! 5 = decode_cell ((c_flash c ! 5)\<lparr>ins_word := 0xFFFF\<rparr>)"
proof -
  define c where "c = set_gr8 SPMCR (bit8 SPMEN OR bit8 PGWRT) (fresh_core (replicate 32 0))"
  have wf: "core_wf c" using fresh_core_wf [of "replicate 32 0"] by (simp add: c_def)
  have regs: "gr8 c SPMCR = bit8 SPMEN OR bit8 PGWRT" "gr8 c 30 = 0" "gr8 c 31 = 0"
    by (simp_all add: c_def gr8_set_gr8 fresh_core_def AVRCore_init_def)
      (simp_all add: gr8_def nth_append)
  then have z: "gr16 c IndexRegZ = 0" by (simp add: gr16_eq join16_def)
  have rest: "c_mc c = MC_ATMEGA8" "c_spm_buf c = replicate 32 0xFFFF" "length (c_flash c) = 0x1000"
    by (simp_all add: c_def fresh_core_def AVRCore_init_def Flash_init_def)
  show ?thesis
    using spm_page [OF wf _ _ refl, of 5] regs(1) unfolding z rest(1)
    by - (rule exI [of _ c], auto simp: rest bit_simps)
qed

end
