(* ===== verification/Sim_Medium.thy ===== *)
theory Sim_Medium
  imports Avr_Control
begin

text \<open>
  The serial line between the simulated controllers: class \<open>MediumState\<close> of
  \<open>sim/include/sim/special.h\<close>. \<open>uart_put_byte\<close> is called by the core that sends, \<open>run\<close> by the medium
  thread with the nanoseconds since its last call; the other controllers read the byte when \<open>run\<close>
  has shown it. The line is modelled at the granularity of whole calls.
\<close>

section \<open>State\<close>

text \<open>
  The three static variables of \<open>run\<close> (\<open>state\<close>, \<open>uart_data_length\<close>, \<open>time_point\<close>) are fields here:
  there is one medium in the program, a singleton. The byte to send has no initial value in the
  code; it is read only after a \<open>uart_put_byte\<close>.
\<close>

record MediumState =
  uart_byte_to_send :: u8
  uart_byte_sending :: bool
  uart_byte_sended :: bool
  tx_complete :: bool
  medium_state :: int
  int_0_state :: int
  int_0_edge :: int
  int_0_changed :: int
  run_state :: int
  uart_data_length :: int
  time_point :: u64

abbreviation (input) medium_state_low :: int where "medium_state_low \<equiv> 0"
abbreviation (input) medium_state_high :: int where "medium_state_high \<equiv> 1"
abbreviation (input) medium_state_zero :: int where "medium_state_zero \<equiv> 2"
abbreviation (input) logic_one :: int where "logic_one \<equiv> 1"
abbreviation (input) logic_zero :: int where "logic_zero \<equiv> 0"
abbreviation (input) rising_edge :: int where "rising_edge \<equiv> 1"
abbreviation (input) falling_edge :: int where "falling_edge \<equiv> 2"

definition ONE_BIT_DURATION_19200 :: u64 where
  "ONE_BIT_DURATION_19200 = 52083"

definition MediumState_init :: "u8 \<Rightarrow> MediumState" where
  "MediumState_init byte =
     \<lparr> uart_byte_to_send = byte, uart_byte_sending = False, uart_byte_sended = False,
       tx_complete = False, medium_state = medium_state_zero, int_0_state = medium_state_high,
       int_0_edge = 0, int_0_changed = 0, run_state = 0, uart_data_length = 0, time_point = 0 \<rparr>"

section \<open>Operations\<close>

text \<open>A byte put while another one is on the line collides with it: the bits are or-ed.\<close>

definition uart_put_byte :: "u8 \<Rightarrow> MediumState \<Rightarrow> MediumState" where
  "uart_put_byte byte m =
     (if \<not> uart_byte_sending m then m\<lparr>uart_byte_sending := True, uart_byte_to_send := byte\<rparr>
      else m\<lparr>uart_byte_to_send := uart_byte_to_send m OR byte\<rparr>)"

definition is_tx_complete :: "MediumState \<Rightarrow> bool" where
  "is_tx_complete m = tx_complete m"

definition get_int0_edge :: "MediumState \<Rightarrow> int" where
  "get_int0_edge m = int_0_edge m"

definition get_int0_state :: "MediumState \<Rightarrow> int" where
  "get_int0_state m = int_0_state m"

definition is_int_0_changed :: "MediumState \<Rightarrow> bool" where
  "is_int_0_changed m \<longleftrightarrow> int_0_changed m \<noteq> 0"

definition uart_get_sended_byte :: "MediumState \<Rightarrow> u8 option" where
  "uart_get_sended_byte m = (if uart_byte_sended m then Some (uart_byte_to_send m) else None)"

text \<open>The cases of the switch in \<open>run\<close>.\<close>

definition run_free :: "MediumState \<Rightarrow> MediumState" where
  "run_free m =
     (if uart_byte_sending m
      then m\<lparr>run_state := 1, medium_state := medium_state_low, int_0_state := logic_zero,
             int_0_edge := falling_edge, int_0_changed := 1, uart_data_length := 8, time_point := 0\<rparr>
      else m)"

definition run_sending :: "u64 \<Rightarrow> MediumState \<Rightarrow> MediumState" where
  "run_sending duration m =
     (let m = m\<lparr>time_point := time_point m + duration\<rparr>
      in if ONE_BIT_DURATION_19200 < time_point m
         then (let m = m\<lparr>time_point := 0\<rparr>
               in if uart_data_length m = -1
                  then m\<lparr>medium_state := medium_state_zero, run_state := 3\<rparr>
                  else (let m = m\<lparr>uart_data_length := uart_data_length m - 1\<rparr>
                        in if uart_data_length m = 0
                           then m\<lparr>medium_state := medium_state_low\<rparr>
                           else m\<lparr>medium_state := medium_state m XOR 1\<rparr>))
         else m)"

definition medium_run :: "u64 \<Rightarrow> MediumState \<Rightarrow> sim_error + MediumState" where
  "medium_run duration m0 =
     (let m = m0\<lparr>int_0_edge := 0, int_0_changed := 0\<rparr>
      in if run_state m = 0 then Inr (run_free m)
         else if run_state m = 1 then Inr (run_sending duration m)
         else if run_state m = 3 then
           Inr (m\<lparr>uart_byte_sended := True, uart_byte_sending := False, run_state := 4\<rparr>)
         else if run_state m = 4 then
           Inr (m\<lparr>tx_complete := True, uart_byte_sended := False, run_state := 5\<rparr>)
         else if run_state m = 5 then
           Inr (m\<lparr>tx_complete := False, int_0_state := logic_one, int_0_edge := rising_edge,
                  int_0_changed := 1, run_state := 0\<rparr>)
         else Inl AssertFailed)"

section \<open>Invariant\<close>

text \<open>
  The line is in one of five states; while it sends, the bit counter lies between 8 and -1; the
  byte is shown in state 4 only, completion in state 5 only.
\<close>

definition medium_wf :: "MediumState \<Rightarrow> bool" where
  "medium_wf m \<longleftrightarrow> run_state m \<in> {0, 1, 3, 4, 5} \<and>
     (run_state m = 1 \<longrightarrow> uart_data_length m \<in> {-1 .. 8} \<and> time_point m \<le> ONE_BIT_DURATION_19200) \<and>
     (run_state m \<in> {1, 3} \<longrightarrow> uart_byte_sending m) \<and>
     (uart_byte_sended m \<longleftrightarrow> run_state m = 4) \<and> (tx_complete m \<longleftrightarrow> run_state m = 5)"

lemma MediumState_init_wf [wf_intros]: "medium_wf (MediumState_init b)"
  by (simp add: medium_wf_def MediumState_init_def)

lemma uart_put_byte_wf [wf_intros]: "medium_wf m \<Longrightarrow> medium_wf (uart_put_byte b m)"
  by (auto simp: medium_wf_def uart_put_byte_def)

lemma medium_run_total: "medium_wf m \<Longrightarrow> \<exists>m'. medium_run d m = Inr m'"
  by (auto simp: medium_wf_def medium_run_def Let_def)

lemma medium_run_wf [wf_intros]: "medium_run d m = Inr m' \<Longrightarrow> medium_wf m \<Longrightarrow> medium_wf m'"
  by (auto simp: medium_wf_def medium_run_def run_free_def run_sending_def Let_def
      ONE_BIT_DURATION_19200_def split: if_splits)

section \<open>A byte arrives\<close>

fun medium_runs :: "u64 list \<Rightarrow> MediumState \<Rightarrow> sim_error + MediumState" where
  "medium_runs [] m = Inr m"
| "medium_runs (d # ds) m = bindE (medium_run d m) (medium_runs ds)"

lemma medium_runs_append:
  "medium_runs (ds @ es) m = bindE (medium_runs ds m) (medium_runs es)"
proof (induction ds arbitrary: m)
  case (Cons d ds)
  then show ?case by (cases "medium_run d m") simp_all
qed simp

text \<open>The nanoseconds, in calls of at least one, that a byte on the line still needs.\<close>

definition on_line :: "MediumState \<Rightarrow> bool" where
  "on_line m \<longleftrightarrow> medium_wf m \<and> uart_byte_sending m \<and> run_state m \<in> {0, 1, 3}"

definition line_time :: "MediumState \<Rightarrow> nat" where
  "line_time m =
     (if run_state m = 0 then 10 * 52084 + 2
      else if run_state m = 1 then
        nat (uart_data_length m + 1) * 52084 + (52084 - unat (time_point m)) + 1
      else 1)"

lemma time_point_add:
  assumes "t \<le> ONE_BIT_DURATION_19200" "1 \<le> unat d" "unat d < 2 ^ 63"
  shows "unat (t + d) = unat t + unat d"
proof -
  have "unat t \<le> 52083"
    using assms(1) by (simp add: word_le_nat_alt ONE_BIT_DURATION_19200_def)
  then show ?thesis using assms(3) by (simp add: unat_word_ariths)
qed

lemma run_sending_progress:
  assumes "on_line m" "run_state m = 1" "1 \<le> unat d" "unat d < 2 ^ 63"
    and "medium_run d m = Inr m'"
  shows "on_line m' \<and> line_time m' < line_time m"
proof -
  have wf: "medium_wf m" "uart_byte_sending m" using assms(1) by (simp_all add: on_line_def)
  have t: "time_point m \<le> ONE_BIT_DURATION_19200" and len: "uart_data_length m \<in> {-1 .. 8}"
    using wf assms(2) by (simp_all add: medium_wf_def)
  have sum: "unat (time_point m + d) = unat (time_point m) + unat d"
    by (rule time_point_add [OF t assms(3,4)])
  have le: "unat (time_point m) \<le> 52083"
    using t by (simp add: word_le_nat_alt ONE_BIT_DURATION_19200_def)
  have late: "ONE_BIT_DURATION_19200 < time_point m + d \<longleftrightarrow> 52083 < unat (time_point m) + unat d"
    by (simp add: word_less_nat_alt ONE_BIT_DURATION_19200_def flip: sum)
  have "medium_wf m'" by (rule medium_run_wf [OF assms(5) wf(1)])
  moreover have "m' = run_sending d (m\<lparr>int_0_edge := 0, int_0_changed := 0\<rparr>)"
    using assms(2,5) by (simp add: medium_run_def Let_def)
  moreover have "nat (uart_data_length m + 1) = Suc (nat (uart_data_length m))"
    if "uart_data_length m \<noteq> -1" using that len by auto
  ultimately show ?thesis
    using wf(2) assms(2,3) le len
    by (auto simp: on_line_def line_time_def run_sending_def Let_def late sum)
qed

lemma medium_progress:
  assumes "on_line m" "1 \<le> unat d" "unat d < 2 ^ 63" "medium_run d m = Inr m'"
  shows "uart_byte_to_send m' = uart_byte_to_send m \<and>
    (uart_byte_sended m' \<or> on_line m' \<and> line_time m' < line_time m)"
proof -
  have byte: "uart_byte_to_send m' = uart_byte_to_send m"
    using assms(4) by (auto simp: medium_run_def run_free_def run_sending_def Let_def split: if_splits)
  consider "run_state m = 0" | "run_state m = 1" | "run_state m = 3"
    using assms(1) by (auto simp: on_line_def)
  then show ?thesis
  proof cases
    case 1
    then show ?thesis
      using byte assms(1,4) medium_run_wf [OF assms(4)]
      by (auto simp: on_line_def line_time_def medium_run_def run_free_def Let_def)
  next
    case 2
    then show ?thesis using byte run_sending_progress [OF assms(1) 2 assms(2-4)] by simp
  next
    case 3
    then show ?thesis using byte assms(4) by (auto simp: medium_run_def Let_def)
  qed
qed

lemma medium_delivers_from:
  assumes "on_line m" "\<forall>d \<in> set ds. 1 \<le> unat d \<and> unat d < 2 ^ 63" "line_time m \<le> length ds"
  shows "\<exists>k \<le> length ds. \<exists>m'. medium_runs (take k ds) m = Inr m' \<and>
    uart_get_sended_byte m' = Some (uart_byte_to_send m)"
  using assms
proof (induction ds arbitrary: m)
  case Nil
  then show ?case by (simp add: line_time_def split: if_splits)
next
  case (Cons d ds)
  obtain m1 where m1: "medium_run d m = Inr m1"
    using Cons.prems(1) medium_run_total by (auto simp: on_line_def)
  have d: "1 \<le> unat d" "unat d < 2 ^ 63" using Cons.prems(2) by simp_all
  from medium_progress [OF Cons.prems(1) d m1] show ?case
  proof (elim conjE disjE)
    assume "uart_byte_to_send m1 = uart_byte_to_send m" "uart_byte_sended m1"
    then show ?thesis
      using m1 by (intro exI [of _ 1]) (simp add: uart_get_sended_byte_def)
  next
    assume next1: "uart_byte_to_send m1 = uart_byte_to_send m" "on_line m1" "line_time m1 < line_time m"
    then obtain k m' where "k \<le> length ds" "medium_runs (take k ds) m1 = Inr m'"
      "uart_get_sended_byte m' = Some (uart_byte_to_send m)"
      using Cons.IH [of m1] Cons.prems by fastforce
    then show ?thesis
      using m1 by (intro exI [of _ "Suc k"]) simp
  qed
qed

text \<open>
  C11. A byte put on a free line arrives: however the medium thread slices time, as long as each
  call of \<open>run\<close> is told at least one nanosecond (and none is told 292 years, where the 64-bit sum
  would wrap), \<open>uart_get_sended_byte\<close> shows the byte unchanged after at most 520842 calls, if no
  other byte is put meanwhile; \<open>run\<close> never fails on the way.
\<close>

theorem medium_delivers:
  assumes "medium_wf m" "run_state m = 0" "\<not> uart_byte_sending m"
    and "\<forall>d \<in> set ds. 1 \<le> unat d \<and> unat d < 2 ^ 63" "520842 \<le> length ds"
  shows "\<exists>k \<le> length ds. \<exists>m'. medium_runs (take k ds) (uart_put_byte b m) = Inr m' \<and>
    uart_get_sended_byte m' = Some b"
proof -
  have "on_line (uart_put_byte b m)" "line_time (uart_put_byte b m) = 520842"
    "uart_byte_to_send (uart_put_byte b m) = b"
    using assms(1-3) uart_put_byte_wf [OF assms(1), of b]
    by (simp_all add: on_line_def line_time_def uart_put_byte_def)
  then show ?thesis
    using medium_delivers_from [OF _ assms(4)] assms(5) by metis
qed

lemma medium_delivers_witness:
  "\<exists>k. \<exists>m'. medium_runs (take k (replicate 520842 60000)) (uart_put_byte 0x41 (MediumState_init 0)) =
     Inr m' \<and> uart_get_sended_byte m' = Some 0x41"
  using medium_delivers [OF MediumState_init_wf, of 0 "replicate 520842 60000" "0x41"]
  by (auto simp: MediumState_init_def)

text \<open>A byte that is put while another one is sent changes what arrives.\<close>

lemma uart_collision:
  assumes "uart_byte_sending m"
  shows "uart_byte_to_send (uart_put_byte b m) = uart_byte_to_send m OR b"
  using assms by (simp add: uart_put_byte_def)

end
