(* ===== verification/Sim_Peripherals.thy ===== *)
theory Sim_Peripherals
  imports Sim_Medium
begin

text \<open>
  The peripherals that the medium thread executes: \<open>sim/src/peripheral.h\<close>, the timers of
  \<open>peripheral_atmega8.h\<close> and \<open>peripheral_atmega16.h\<close>, the UART and the external interrupt of
  \<open>peripheral_uart.h\<close>. Each \<open>Execute\<close> reads and writes the data memory and the event list of the
  core, and returns an interrupt vector or -1.
\<close>

section \<open>State\<close>

text \<open>\<open>AvrPeripheral\<close>: its own fields; the pointers are to the core and the medium.\<close>

record peripheral =
  timer_time :: u64
  tick_duration :: u64

definition Setup :: "u64 \<Rightarrow> peripheral" where
  "Setup ticks = \<lparr>timer_time = 0, tick_duration = ticks\<rparr>"

type_synonym exec_result = "sim_error + (int \<times> peripheral \<times> core)"

text \<open>The clock select bits, and the dividers of the two prescalers; 0 stops the timer.\<close>

definition clock_select :: "u8 \<Rightarrow> nat" where
  "clock_select tccr = unat (tccr AND 0x07)"

definition divider_t0 :: "nat \<Rightarrow> sim_error + u64" where
  "divider_t0 enabled =
     (if enabled = 1 then Inr 1 else if enabled = 2 then Inr 8 else if enabled = 3 then Inr 64
      else if enabled = 4 then Inr 256 else if enabled = 5 then Inr 1024
      else if enabled = 6 \<or> enabled = 7 then Inl AssertFailed else Inr 0)"

definition divider_t2 :: "nat \<Rightarrow> u64" where
  "divider_t2 enabled =
     (if enabled = 1 then 1 else if enabled = 2 then 8 else if enabled = 3 then 32
      else if enabled = 4 then 64 else if enabled = 5 then 128 else if enabled = 6 then 256
      else if enabled = 7 then 1024 else 0)"

text \<open>
  The end of a timer's \<open>Execute\<close>: raise the vector if the interrupt is enabled, and then clear the
  flag in \<open>TIFR\<close>, or else set the flag. The two \<open>if\<close> statements of the source have this shape.
\<close>

definition timer_event :: "nat \<Rightarrow> nat \<Rightarrow> int \<Rightarrow> core \<Rightarrow> int \<times> core" where
  "timer_event enable flag vector c =
     (if bit (gr8 c TIMSK) enable
      then (vector, set_gr8 TIFR (unset_bit flag (gr8 c TIFR)) c)
      else (-1, set_gr8 TIFR (set_bit flag (gr8 c TIFR)) c))"

section \<open>Timers of the ATmega8\<close>

text \<open>The timer asks the core to increment the counter and reacts when the core has done so.\<close>

definition Atmega8Timer0_Execute :: "u64 \<Rightarrow> peripheral \<Rightarrow> core \<Rightarrow> exec_result" where
  "Atmega8Timer0_Execute time_gap p c =
     (let p = p\<lparr>timer_time := timer_time p + time_gap\<rparr>;
          enabled = clock_select (gr8 c TCCR0)
      in if enabled = 0 then Inr (-1, p, c)
         else bindE (divider_t0 enabled) (\<lambda>divider.
           let due = (tick_duration p * divider \<le> timer_time p);
               c = (if due then c\<lparr>c_ev := (c_ev c)\<lparr>increase_tcnt0 := True\<rparr>\<rparr> else c);
               p = (if due then p\<lparr>timer_time := 0\<rparr> else p)
           in if tcnt0_increased (c_ev c)
              then (let c = c\<lparr>c_ev := (c_ev c)\<lparr>tcnt0_increased := False\<rparr>\<rparr>
                    in if gr8 c TCNT0 = 0
                       then (let (r, c) = timer_event TOIE0 TOV0 (TimerCounter0_Overflow Atmega8) c
                             in Inr (r, p, c))
                       else Inr (-1, p, c))
              else Inr (-1, p, c)))"

definition Atmega8Timer2_Execute :: "u64 \<Rightarrow> peripheral \<Rightarrow> core \<Rightarrow> exec_result" where
  "Atmega8Timer2_Execute time_gap p c =
     (let p = p\<lparr>timer_time := timer_time p + time_gap\<rparr>;
          tccr2 = gr8 c TCCR2;
          enabled = clock_select tccr2
      in if enabled = 0 then Inr (-1, p, c)
         else
           let divider = divider_t2 enabled;
               due = (tick_duration p * divider \<le> timer_time p);
               c = (if due then c\<lparr>c_ev := (c_ev c)\<lparr>increase_tcnt2 := True\<rparr>\<rparr> else c);
               p = (if due then p\<lparr>timer_time := 0\<rparr> else p)
           in if tcnt2_increased (c_ev c)
              then (let c = c\<lparr>c_ev := (c_ev c)\<lparr>tcnt2_increased := False\<rparr>\<rparr>
                    in if bit tccr2 WGM21 \<and> \<not> bit tccr2 WGM20
                       then (if gr8 c TCNT2 = gr8 c OCR2
                             then (let (r, c) = timer_event OCIE2 OCF2 (TimerCounter2_Compare_Match Atmega8) c
                                   in Inr (r, p, c))
                             else Inr (-1, p, c))
                       else if gr8 c TCNT2 = 0
                       then (let (r, c) = timer_event TOIE2 TOV2 (TimerCounter2_Overflow Atmega8) c
                             in Inr (r, p, c))
                       else Inr (-1, p, c))
              else Inr (-1, p, c))"

section \<open>Timers of the ATmega16\<close>

text \<open>These increment the counter in the data memory themselves.\<close>

definition Atmega16Timer0_Execute :: "u64 \<Rightarrow> peripheral \<Rightarrow> core \<Rightarrow> exec_result" where
  "Atmega16Timer0_Execute time_gap p c =
     (let p = p\<lparr>timer_time := timer_time p + time_gap\<rparr>;
          enabled = clock_select (gr8 c TCCR0)
      in if enabled = 0 then Inr (-1, p, c)
         else bindE (divider_t0 enabled) (\<lambda>divider.
           if tick_duration p * divider \<le> timer_time p
           then (let p = p\<lparr>timer_time := 0\<rparr>;
                     c = set_gr8 TCNT0 (gr8 c TCNT0 + 1) c
                 in if bit (gr8 c TCCR0) WGM01 \<and> \<not> bit (gr8 c TCCR0) WGM00
                    then (if gr8 c TCNT0 = gr8 c OCR0
                          then (let (r, c) = timer_event OCIE0 OCF0 Atmega16_TimerCounter0_Compare_Match c
                                in Inr (r, p, c))
                          else Inr (-1, p, c))
                    else if gr8 c TCNT0 = 0
                    then (let (r, c) = timer_event TOIE0 TOV0 (TimerCounter0_Overflow Atmega16) c
                          in Inr (r, p, c))
                    else Inr (-1, p, c))
           else Inr (-1, p, c)))"

definition Atmega16Timer2_Execute :: "u64 \<Rightarrow> peripheral \<Rightarrow> core \<Rightarrow> exec_result" where
  "Atmega16Timer2_Execute time_gap p c =
     (let p = p\<lparr>timer_time := timer_time p + time_gap\<rparr>;
          enabled = clock_select (gr8 c TCCR2)
      in if enabled = 0 then Inr (-1, p, c)
         else
           if tick_duration p * divider_t2 enabled \<le> timer_time p
           then (let p = p\<lparr>timer_time := 0\<rparr>;
                     c = set_gr8 TCNT2 (gr8 c TCNT2 + 1) c
                 in if bit (gr8 c TCCR2) WGM21 \<and> \<not> bit (gr8 c TCCR2) WGM20
                    then (if gr8 c TCNT2 = gr8 c OCR2
                          then (let (r, c) = timer_event OCIE2 OCF2 (TimerCounter2_Compare_Match Atmega16) c
                                in Inr (r, p, c))
                          else Inr (-1, p, c))
                    else if gr8 c TCNT2 = 0
                    then (let (r, c) = timer_event TOIE2 TOV2 (TimerCounter2_Overflow Atmega16) c
                          in Inr (r, p, c))
                    else Inr (-1, p, c))
           else Inr (-1, p, c))"

section \<open>UART and external interrupt\<close>

text \<open>\<open>AtmegaUART\<close> has \<open>using MC = Atmega8\<close> and serves both chips.\<close>

definition AtmegaUART_Execute :: "MediumState \<Rightarrow> core \<Rightarrow> int \<times> core" where
  "AtmegaUART_Execute m c =
     (let ucsrb = gr8 c UCSRB
      in if bit ucsrb TXEN \<and> tx_in_progress (c_ev c) \<and> is_tx_complete m
         then (USART_Tx_Complete Atmega8,
               set_gr8 UCSRA (unset_bit TXC (gr8 c UCSRA))
                 (c\<lparr>c_ev := (c_ev c)\<lparr>tx_in_progress := False\<rparr>\<rparr>))
         else if bit ucsrb RXEN \<and> \<not> tx_in_progress (c_ev c)
         then (case uart_get_sended_byte m of
                 Some byte \<Rightarrow> (USART_Rx_Complete Atmega8, set_gr8 UDR byte c)
               | None \<Rightarrow> (-1, c))
         else (-1, c))"

definition AtmegaExtInterrupt0_Execute :: "chip \<Rightarrow> MediumState \<Rightarrow> core \<Rightarrow> int \<times> core" where
  "AtmegaExtInterrupt0_Execute MC m c =
     (let c = (if is_int_0_changed m
               then set_gr8 PIND (unset_bit PD2 (gr8 c PIND) OR
                      push_bit PD2 (word_of_int (get_int0_state m))) c
               else c);
          gicr = gr8 c GICR; mcucr = gr8 c MCUCR
      in if \<not> bit gicr INT0 then (-1, c)
         else if bit mcucr ISC00 \<and> bit mcucr ISC01
         then (if get_int0_edge m = rising_edge then (External_Interrupt_Request_0 MC, c) else (-1, c))
         else if bit mcucr ISC01
         then (if get_int0_edge m = falling_edge then (External_Interrupt_Request_0 MC, c) else (-1, c))
         else if bit mcucr ISC00
         then (if is_int_0_changed m then (External_Interrupt_Request_0 MC, c) else (-1, c))
         else if get_int0_state m = logic_zero then (External_Interrupt_Request_0 MC, c)
         else (-1, c))"

section \<open>What a peripheral may do\<close>

text \<open>Vectors that the interrupt table of the chip has for the modelled peripherals.\<close>

definition chip_vectors :: "chip \<Rightarrow> int set" where
  "chip_vectors MC = {External_Interrupt_Request_0 MC, TimerCounter2_Compare_Match MC,
     TimerCounter2_Overflow MC, TimerCounter0_Overflow MC, USART_Rx_Complete MC,
     USART_Tx_Complete MC} \<union>
     (if CHIP MC = MC_ATMEGA16 then {Atmega16_TimerCounter0_Compare_Match} else {})"

lemma chip_simps [simp]:
  "CHIP Atmega8 = MC_ATMEGA8" "CHIP Atmega16 = MC_ATMEGA16"
  by (simp_all add: Atmega8_def Atmega16_def)

text \<open>
  A peripheral keeps the memories of the core and raises only vectors of a given set; the rules
  follow the shape of the definitions.
\<close>

definition unit_ok :: "int set \<Rightarrow> core \<Rightarrow> exec_result \<Rightarrow> bool" where
  "unit_ok V c res \<longleftrightarrow>
     (\<forall>r p' c'. res = Inr (r, p', c') \<longrightarrow> core_wf c' = core_wf c \<and> (r = -1 \<or> r \<in> V))"

lemma unit_okI:
  "core_wf c' = core_wf c \<Longrightarrow> r = -1 \<or> r \<in> V \<Longrightarrow> unit_ok V c (Inr (r, p', c'))"
  "unit_ok V c (Inl e)"
  by (simp_all add: unit_ok_def)

lemma unit_ok_if:
  "(b \<Longrightarrow> unit_ok V c x) \<Longrightarrow> (\<not> b \<Longrightarrow> unit_ok V c y) \<Longrightarrow> unit_ok V c (if b then x else y)"
  by simp

lemma unit_ok_bind: "(\<And>a. unit_ok V c (f a)) \<Longrightarrow> unit_ok V c (bindE r f)"
  by (cases r) (simp_all add: unit_ok_def)

lemma unit_ok_let: "(\<And>x. P x \<Longrightarrow> unit_ok V c (f x)) \<Longrightarrow> P a \<Longrightarrow> unit_ok V c (let x = a in f x)"
  by simp

lemma unit_ok_event:
  "core_wf c1 = core_wf c \<Longrightarrow> v \<in> V \<Longrightarrow>
   unit_ok V c (case timer_event e f v c1 of (r, c') \<Rightarrow> Inr (r, p, c'))"
  by (auto simp: unit_ok_def timer_event_def)

lemma core_wf_if: "core_wf (if b then x else y) = (if b then core_wf x else core_wf y)"
  by simp

lemmas unit_ok_rules = unit_ok_event unit_ok_if unit_ok_bind unit_okI

lemma Atmega8Timer0_ok: "unit_ok (chip_vectors Atmega8) c (Atmega8Timer0_Execute g p c)"
  unfolding Atmega8Timer0_Execute_def Let_def
  by (intro unit_ok_rules) (simp_all add: core_wf_if chip_vectors_def)

lemma Atmega8Timer2_ok: "unit_ok (chip_vectors Atmega8) c (Atmega8Timer2_Execute g p c)"
  unfolding Atmega8Timer2_Execute_def Let_def
  by (intro unit_ok_rules) (simp_all add: core_wf_if chip_vectors_def)

lemma Atmega16Timer0_ok: "unit_ok (chip_vectors Atmega16) c (Atmega16Timer0_Execute g p c)"
  unfolding Atmega16Timer0_Execute_def Let_def
  by (intro unit_ok_rules) (simp_all add: core_wf_if chip_vectors_def)

lemma Atmega16Timer2_ok: "unit_ok (chip_vectors Atmega16) c (Atmega16Timer2_Execute g p c)"
  unfolding Atmega16Timer2_Execute_def Let_def
  by (intro unit_ok_rules) (simp_all add: core_wf_if chip_vectors_def)

lemma AtmegaUART_result:
  "AtmegaUART_Execute m c = (r, c') \<Longrightarrow> core_wf c' = core_wf c \<and>
     (r = -1 \<or> r = USART_Tx_Complete Atmega8 \<or> r = USART_Rx_Complete Atmega8)"
  by (auto simp: AtmegaUART_Execute_def Let_def split: option.splits if_splits)

lemma AtmegaExtInterrupt0_result:
  "AtmegaExtInterrupt0_Execute MC m c = (r, c') \<Longrightarrow> core_wf c' = core_wf c \<and>
     (r = -1 \<or> r = External_Interrupt_Request_0 MC)"
  by (auto simp: AtmegaExtInterrupt0_Execute_def Let_def split: if_splits)

section \<open>Timers\<close>

text \<open>
  The two-phase timer of the ATmega8: when the prescaled period has passed, \<open>Execute\<close> only
  requests the increment; the core performs it at its next step; the following \<open>Execute\<close> raises
  the overflow vector exactly when that increment wrapped from \<open>0xFF\<close> and the interrupt is enabled,
  and otherwise nothing.
\<close>

theorem timer0_overflow:
  assumes "core_wf c" "divider_t0 (clock_select (gr8 c TCCR0)) = Inr d" "d \<noteq> 0"
    and "tick_duration p * d \<le> timer_time p + gap" "\<not> tcnt0_increased (c_ev c)"
  shows "\<exists>p1 c1. Atmega8Timer0_Execute gap p c = Inr (-1, p1, c1) \<and>
    gr8 (tick_tcnt0 c1) TCNT0 = gr8 c TCNT0 + 1 \<and>
    (\<exists>p2 c2. Atmega8Timer0_Execute gap2 p1 (tick_tcnt0 c1) = Inr (
       if gr8 c TCNT0 = 0xFF \<and> bit (gr8 c TIMSK) TOIE0 then TimerCounter0_Overflow Atmega8 else -1,
       p2, c2))"
proof -
  have on: "clock_select (gr8 c TCCR0) \<noteq> 0"
  proof
    assume "clock_select (gr8 c TCCR0) = 0"
    then show False using assms(2,3) by (simp add: divider_t0_def)
  qed
  define p1 where "p1 = p\<lparr>timer_time := 0\<rparr>"
  define c1 where "c1 = c\<lparr>c_ev := (c_ev c)\<lparr>increase_tcnt0 := True\<rparr>\<rparr>"
  have first: "Atmega8Timer0_Execute gap p c = Inr (-1, p1, c1)"
    using on assms(2,4,5) by (simp add: Atmega8Timer0_Execute_def Let_def p1_def c1_def)
  define c2 where "c2 = tick_tcnt0 c1"
  have c2: "gr8 c2 TCNT0 = gr8 c TCNT0 + 1" "gr8 c2 TCCR0 = gr8 c TCCR0" "gr8 c2 TIMSK = gr8 c TIMSK"
    "tcnt0_increased (c_ev c2)"
    using core_wf_sram [OF assms(1)]
    by (simp_all add: c2_def c1_def tick_tcnt0_def gr8_def set_gr8_def)
  have wrap: "gr8 c TCNT0 + 1 = 0 \<longleftrightarrow> gr8 c TCNT0 = 0xFF"
  proof -
    have "(- 1 :: u8) = 0xFF" by simp
    then show ?thesis using eq_neg_iff_add_eq_0 [of "gr8 c TCNT0" 1] by metis
  qed
  have frame: "gr8 (if b then c2\<lparr>c_ev := e\<rparr> else c2) n = gr8 c2 n"
    "gr8 ((if b then c2\<lparr>c_ev := e\<rparr> else c2)\<lparr>c_ev := e'\<rparr>) n = gr8 c2 n" for b e e' n
    by (simp_all add: gr8_def)
  have "tcnt0_increased (c_ev (if b then c2\<lparr>c_ev := (c_ev c2)\<lparr>increase_tcnt0 := True\<rparr>\<rparr> else c2))" for b
    using c2(4) by simp
  then have "\<exists>p3 c3. Atmega8Timer0_Execute gap2 p1 c2 = Inr (
       if gr8 c TCNT0 = 0xFF \<and> bit (gr8 c TIMSK) TOIE0 then TimerCounter0_Overflow Atmega8 else -1, p3, c3)"
    using on assms(2) c2 wrap
    by (simp add: Atmega8Timer0_Execute_def Let_def frame timer_event_def)
  then show ?thesis
    using first c2(1) unfolding c2_def by blast
qed

lemma timer0_overflow_witness:
  "\<exists>p1 c1. Atmega8Timer0_Execute 125 (Setup 125)
     (set_gr8 TCCR0 1 (set_gr8 TCNT0 7 (fresh_core (replicate 32 0)))) = Inr (-1, p1, c1) \<and>
     gr8 (tick_tcnt0 c1) TCNT0 = 8"
proof -
  define c where "c = set_gr8 TCCR0 1 (set_gr8 TCNT0 7 (fresh_core (replicate 32 0)))"
  have wf: "core_wf c" using fresh_core_wf [of "replicate 32 0"] by (simp add: c_def)
  have regs: "gr8 c TCCR0 = 1" "gr8 c TCNT0 = 7" "\<not> tcnt0_increased (c_ev c)"
    by (simp_all add: c_def gr8_set_gr8 fresh_core_def AVRCore_init_def EventList_init_def)
  show ?thesis
    using timer0_overflow [OF wf, of 1 "Setup 125" 125 0] regs
    unfolding c_def [symmetric]
    by (simp add: clock_select_def divider_t0_def Setup_def) blast
qed

section \<open>The UART's vectors\<close>

text \<open>
  The UART of an ATmega16 raises the vectors of the ATmega8: a received byte is stored in
  \<open>UDR\<close>, but the vector returned is \<open>0x00B\<close>, which is none of the vectors of the ATmega16 (there
  the receive vector is \<open>0x016\<close>), so the handler of another interrupt, or no handler, runs.
\<close>

theorem uart_wrong_vector:
  assumes "core_wf c" "bit (gr8 c UCSRB) RXEN" "\<not> tx_in_progress (c_ev c)"
    and "uart_get_sended_byte m = Some b"
  shows "\<exists>c'. AtmegaUART_Execute m c = (0x00B, c') \<and> gr8 c' UDR = b \<and>
    0x00B = USART_Rx_Complete Atmega8 \<and> 0x00B \<notin> chip_vectors Atmega16"
  using assms core_wf_sram [OF assms(1)]
  by (simp add: AtmegaUART_Execute_def Let_def gr8_set_gr8 chip_vectors_def Atmega8_def Atmega16_def
      Atmega16_TimerCounter0_Compare_Match_def)

lemma uart_wrong_vector_witness:
  "\<exists>m c'. AtmegaUART_Execute m (set_gr8 UCSRB (bit8 RXEN) (fresh_core (replicate 32 0))) = (0x00B, c') \<and>
     gr8 c' UDR = 0x41"
proof -
  define c where "c = set_gr8 UCSRB (bit8 RXEN) (fresh_core (replicate 32 0))"
  have wf: "core_wf c" using fresh_core_wf [of "replicate 32 0"] by (simp add: c_def)
  have regs: "bit (gr8 c UCSRB) RXEN" "\<not> tx_in_progress (c_ev c)"
    by (simp_all add: c_def gr8_set_gr8 fresh_core_def AVRCore_init_def EventList_init_def)
  have "uart_get_sended_byte ((MediumState_init 0x41)\<lparr>uart_byte_sended := True\<rparr>) = Some 0x41"
    by (simp add: uart_get_sended_byte_def MediumState_init_def)
  from uart_wrong_vector [OF wf regs this] show ?thesis
    unfolding c_def [symmetric] by blast
qed

end
