(* ===== verification/Avr_Hex.thy ===== *)
theory Avr_Hex
  imports Avr_Flash
begin

text \<open>
  The Intel HEX reader: \<open>HexParser\<close> of \<open>nplib/include/nplib/utils/hexparser.h\<close>, the page reader
  \<open>HexParserAlgorithm\<close> of \<open>nplib/src/hexparser.cpp\<close> that the programmer uses, and
  \<open>HexParserFlash::Read\<close> of \<open>sim/src/hexparser.cpp\<close> that loads the simulator. The pointer \<open>hex_p_\<close>
  is modelled by the characters from it to the end of the string, the terminator of \<open>c_str()\<close>
  included; reading beyond is \<open>UndefinedBehaviour\<close>.
\<close>

section \<open>Characters and fields\<close>

abbreviation (input) chr_colon :: u8 where "chr_colon \<equiv> 0x3A"
abbreviation (input) chr_newline :: u8 where "chr_newline \<equiv> 0x0A"

record HexParser =
  buffer :: "u8 list"
  hex_p :: "u8 list"

text \<open>
  The constructor gets the contents of the file, or \<open>None\<close> when it cannot be opened. It appends a
  zero character; \<open>c_str()\<close> has one more behind it.
\<close>

definition c_str :: "u8 list \<Rightarrow> u8 list" where
  "c_str s = s @ [0]"

definition HexParser_init :: "u8 list option \<Rightarrow> sim_error + HexParser" where
  "HexParser_init file =
     (case file of None \<Rightarrow> Inl FileNotFound
      | Some s \<Rightarrow> Inr \<lparr>buffer = s @ [0], hex_p = c_str (s @ [0])\<rparr>)"

fun deref :: "u8 list \<Rightarrow> sim_error + u8" where
  "deref [] = Inl UndefinedBehaviour"
| "deref (c # _) = Inr c"

text \<open>\<open>char\<close> is signed: a character of 0x80 or more is below \<open>'A'\<close>.\<close>

fun get_tet :: "u8 list \<Rightarrow> sim_error + u8 \<times> u8 list" where
  "get_tet [] = Inl UndefinedBehaviour"
| "get_tet (c # p) = Inr (if sint c < 0x41 then c - 0x30 else (c - 0x41) + 0x0A, p)"

definition get_byte :: "u8 list \<Rightarrow> sim_error + u8 \<times> u8 list" where
  "get_byte p = bindE (get_tet p) (\<lambda>(val, p). bindE (get_tet p) (\<lambda>(t, p). Inr (push_bit 4 val OR t, p)))"

definition get_word :: "u8 list \<Rightarrow> sim_error + u16 \<times> u8 list" where
  "get_word p = bindE (get_byte p) (\<lambda>(val, p). bindE (get_byte p) (\<lambda>(h, p). Inr (join16 val h, p)))"

text \<open>\<open>while (*hex_p_++ != '\n');\<close> and \<open>while (*++hex_p_ != '\0');\<close>\<close>

fun skip_line :: "u8 list \<Rightarrow> sim_error + u8 list" where
  "skip_line [] = Inl UndefinedBehaviour"
| "skip_line (c # p) = (if c \<noteq> chr_newline then skip_line p else Inr p)"

fun skip_to_end :: "u8 list \<Rightarrow> sim_error + u8 list" where
  "skip_to_end [] = Inl UndefinedBehaviour"
| "skip_to_end [c] = Inl UndefinedBehaviour"
| "skip_to_end (c # d # p) = (if d \<noteq> 0 then skip_to_end (d # p) else Inr (d # p))"

lemma get_tet_length: "get_tet p = Inr (b, q) \<Longrightarrow> length q < length p"
  by (cases p) auto

lemma get_byte_length: "get_byte p = Inr (b, q) \<Longrightarrow> length q < length p"
  unfolding get_byte_def by (force dest: get_tet_length)

lemma get_word_length: "get_word p = Inr (w, q) \<Longrightarrow> length q < length p"
  unfolding get_word_def by (force dest: get_byte_length)

lemma skip_line_length: "skip_line p = Inr q \<Longrightarrow> length q < length p"
  by (induction p rule: skip_line.induct) (auto split: if_splits)

section \<open>Loading the simulator's flash\<close>

text \<open>The states \<open>-1\<close>, \<open>0\<close> and \<open>1\<close> of the readers.\<close>

datatype hex_state = AtColon | AtHeader | AtData

record hex_read =
  rd_state :: hex_state
  RecLen :: u8
  rd_offset :: int
  rd_p :: "u8 list"
  rd_flash :: flash

text \<open>\<open>for (int i = 0; i < RecLen; i += 2)\<close> of state 1.\<close>

function store_words :: "nat \<Rightarrow> u8 \<Rightarrow> int \<Rightarrow> u8 list \<Rightarrow> flash \<Rightarrow> sim_error + u8 list \<times> flash" where
  "store_words i len offset p fl =
     (if i < unat len
      then bindE (get_word p) (\<lambda>(instruction, p).
        bindE (Flash_Store fl (word_of_int (offset + int i)) instruction) (\<lambda>fl.
          store_words (i + 2) len offset p fl))
      else Inr (p, fl))"
  by pat_completeness auto
termination by (relation "measure (\<lambda>(i, len, _). unat len - i)") auto

declare store_words.simps [simp del]

lemma store_words_length:
  "store_words i len offset p fl = Inr (q, fl') \<Longrightarrow> length q \<le> length p \<and> length fl' = length fl"
proof (induction i len offset p fl arbitrary: q fl' rule: store_words.induct)
  case (1 i len offset p fl)
  show ?case
    using 1(2) by (subst (asm) store_words.simps)
      (auto split: if_splits dest!: 1(1) get_word_length Flash_Store_length)
qed

text \<open>One pass of the \<open>for (;;)\<close>: the next state, or the flash when the string has ended.\<close>

definition hex_read_step :: "hex_read \<Rightarrow> sim_error + (hex_read + flash)" where
  "hex_read_step s =
     (case rd_state s of
        AtColon \<Rightarrow>
          bindE (deref (rd_p s)) (\<lambda>c.
            if c = chr_colon then Inr (Inl (s\<lparr>rd_state := AtHeader, rd_p := tl (rd_p s)\<rparr>))
            else if c = 0 then Inr (Inr (rd_flash s))
            else Inl WrongToken)
      | AtHeader \<Rightarrow>
          bindE (get_byte (rd_p s)) (\<lambda>(len, p).
            let s = s\<lparr>RecLen := len\<rparr>
            in if len = 0
               then bindE (skip_line p) (\<lambda>p. Inr (Inl (s\<lparr>rd_state := AtColon, rd_p := p\<rparr>)))
               else bindE (get_byte p) (\<lambda>(h, p). bindE (get_byte p) (\<lambda>(l, p).
                 let s = s\<lparr>rd_offset := uint (join16 l h)\<rparr>
                 in bindE (get_byte p) (\<lambda>(RecTyp, p).
                   if RecTyp = 3 \<or> RecTyp = 2
                   then bindE (skip_line p) (\<lambda>p. Inr (Inl (s\<lparr>rd_state := AtColon, rd_p := p\<rparr>)))
                   else Inr (Inl (s\<lparr>rd_state := AtData, rd_p := p\<rparr>))))))
      | AtData \<Rightarrow>
          bindE (store_words 0 (RecLen s) (rd_offset s) (rd_p s) (rd_flash s)) (\<lambda>(p, fl).
            bindE (skip_line p) (\<lambda>p.
              Inr (Inl (s\<lparr>rd_state := AtColon, rd_p := p, rd_flash := fl\<rparr>)))))"

lemma hex_read_step_length:
  assumes "hex_read_step s = Inr (Inl t)"
  shows "length (rd_p t) < length (rd_p s)"
proof (cases "rd_state s")
  case AtColon
  then show ?thesis
    using assms by (cases "rd_p s") (auto simp: hex_read_step_def split: if_splits)
next
  case AtHeader
  then show ?thesis
    using assms
    by (auto simp: hex_read_step_def Let_def split: if_splits
        dest!: get_byte_length skip_line_length)
next
  case AtData
  then show ?thesis
    using assms by (auto simp: hex_read_step_def dest!: store_words_length skip_line_length)
qed

function hex_read_loop :: "hex_read \<Rightarrow> sim_error + flash" where
  "hex_read_loop s =
     (case hex_read_step s of
        Inl e \<Rightarrow> Inl e
      | Inr (Inl t) \<Rightarrow> hex_read_loop t
      | Inr (Inr fl) \<Rightarrow> Inr fl)"
  by pat_completeness auto
termination by (relation "measure (\<lambda>s. length (rd_p s))") (auto dest: hex_read_step_length)

declare hex_read_loop.simps [simp del]

text \<open>\<open>Read\<close> resets the pointer when it returns, so that it can be called again.\<close>

definition HexParserFlash_Read :: "HexParser \<Rightarrow> flash \<Rightarrow> sim_error + HexParser \<times> flash" where
  "HexParserFlash_Read hp fl =
     mapE (\<lambda>fl'. (hp\<lparr>hex_p := c_str (buffer hp)\<rparr>, fl'))
       (hex_read_loop \<lparr>rd_state = AtColon, RecLen = 0, rd_offset = 0, rd_p = hex_p hp, rd_flash = fl\<rparr>)"

section \<open>Reading page by page\<close>

record HexParserAlgorithm =
  ha_buffer :: "u8 list"
  ha_p :: "u8 list"
  ha_state :: hex_state
  linelenght :: int
  page_size :: int

definition HexParserAlgorithm_init :: "u8 list option \<Rightarrow> int \<Rightarrow> sim_error + HexParserAlgorithm" where
  "HexParserAlgorithm_init file sz =
     mapE (\<lambda>hp. \<lparr>ha_buffer = buffer hp, ha_p = hex_p hp, ha_state = AtColon, linelenght = 0,
             page_size = sz\<rparr>) (HexParser_init file)"

text \<open>The two bytes that an \<open>unsigned short\<close> takes at \<open>dest + size\<close>.\<close>

definition put_short :: "u8 list \<Rightarrow> nat \<Rightarrow> u16 \<Rightarrow> sim_error + u8 list" where
  "put_short dest sz w =
     (if sz + 2 \<le> length dest then Inr (dest[sz := lo8 w, sz + 1 := hi8 w])
      else Inl UndefinedBehaviour)"

text \<open>
  \<open>while (linelenght_--)\<close>: the flag says whether the page is full and \<open>GetPageData\<close> returns 1.
\<close>

function page_words :: "int \<Rightarrow> u8 list \<Rightarrow> u8 list \<Rightarrow> nat \<Rightarrow> int \<Rightarrow>
    sim_error + bool \<times> int \<times> u8 list \<times> u8 list \<times> nat" where
  "page_words line p dest sz psize =
     (if line = 0 then Inr (False, -1, p, dest, sz)
      else
        case get_word p of Inl e \<Rightarrow> Inl e
        | Inr (instruction, p) \<Rightarrow>
            bindE (put_short dest sz instruction) (\<lambda>dest.
              if int (sz + 2) = psize then Inr (True, line - 1, p, dest, sz + 2)
              else page_words (line - 1) p dest (sz + 2) psize))"
  by pat_completeness auto
termination
  by (relation "measure (\<lambda>(line, p, _). length p)") (auto dest: get_word_length)

declare page_words.simps [simp del]

lemma page_words_length:
  "page_words line p dest sz psize = Inr (full, line', q, dest', sz') \<Longrightarrow>
   length q \<le> length p \<and> (full \<longrightarrow> length q < length p)"
proof (induction line p dest sz psize rule: page_words.induct)
  case (1 line p dest sz psize)
  from 1(2) show ?case
    by (subst (asm) page_words.simps)
      (fastforce split: if_splits sum.splits dest: 1(1) get_word_length)
qed

text \<open>
  One pass of the \<open>for (;;)\<close>: \<open>Inl\<close> goes on with the parser, the buffer and its size; \<open>Inr\<close> returns,
  with the value first.
\<close>

type_synonym page_state = "HexParserAlgorithm \<times> u8 list \<times> nat"

definition page_step :: "page_state \<Rightarrow> sim_error + (page_state + int \<times> page_state)" where
  "page_step = (\<lambda>(s, dest, sz).
     case ha_state s of
       AtColon \<Rightarrow>
         bindE (deref (ha_p s)) (\<lambda>c.
           if c = chr_colon
           then Inr (Inl (s\<lparr>ha_state := AtHeader, ha_p := tl (ha_p s)\<rparr>, dest, sz))
           else Inl WrongToken)
     | AtHeader \<Rightarrow>
         bindE (get_byte (ha_p s)) (\<lambda>(len, p).
           if len = 0
           then bindE (skip_to_end p) (\<lambda>p.
                  Inr (Inr (if sz \<noteq> 0 then 1 else 0, s\<lparr>ha_p := p\<rparr>, dest, sz)))
           else
             let s = s\<lparr>linelenght := int (unat len) div 2\<rparr>
             in bindE (get_word p) (\<lambda>(_, p). bindE (get_byte p) (\<lambda>(RecTyp, p).
                  if RecTyp = 3 \<or> RecTyp = 2
                  then bindE (skip_line p) (\<lambda>p. Inr (Inl (s\<lparr>ha_state := AtColon, ha_p := p\<rparr>, dest, sz)))
                  else Inr (Inl (s\<lparr>ha_state := AtData, ha_p := p\<rparr>, dest, sz)))))
     | AtData \<Rightarrow>
         bindE (page_words (linelenght s) (ha_p s) dest sz (page_size s))
           (\<lambda>(full, line, p, dest, sz).
             let s = s\<lparr>linelenght := line, ha_p := p\<rparr>
             in if full then Inr (Inr (1, s, dest, sz))
                else bindE (skip_line p) (\<lambda>p.
                  Inr (Inl (s\<lparr>ha_state := AtColon, ha_p := p\<rparr>, dest, sz)))))"

lemma skip_to_end_length: "skip_to_end p = Inr q \<Longrightarrow> length q < length p"
  by (induction p rule: skip_to_end.induct) (auto split: if_splits)

lemma page_step_length:
  assumes "page_step (s, dest, sz) = Inr r"
  shows "case r of Inl (s', _) \<Rightarrow> length (ha_p s') < length (ha_p s)
    | Inr (_, s', _) \<Rightarrow> length (ha_p s') < length (ha_p s)"
proof (cases "ha_state s")
  case AtColon
  then show ?thesis
    using assms by (cases "ha_p s") (auto simp: page_step_def split: if_splits)
next
  case AtHeader
  then show ?thesis
    using assms
    by (auto simp: page_step_def Let_def split: if_splits
        dest!: get_byte_length get_word_length skip_line_length skip_to_end_length)
next
  case AtData
  then show ?thesis
    using assms
    by (auto simp: page_step_def Let_def split: if_splits dest!: page_words_length skip_line_length)
qed

function page_loop :: "page_state \<Rightarrow> sim_error + int \<times> page_state" where
  "page_loop s =
     (case page_step s of
        Inl e \<Rightarrow> Inl e
      | Inr (Inl t) \<Rightarrow> page_loop t
      | Inr (Inr r) \<Rightarrow> Inr r)"
  by pat_completeness auto
termination
  by (relation "measure (\<lambda>(s, _). length (ha_p s))") (auto dest: page_step_length)

declare page_loop.simps [simp del]

lemma page_loop_length:
  "page_loop t = Inr (r, u) \<Longrightarrow> length (ha_p (fst u)) < length (ha_p (fst t))"
proof (induction t rule: page_loop.induct)
  case (1 t)
  obtain x where x: "page_step t = Inr x" "page_loop t = (case x of Inl v \<Rightarrow> page_loop v | Inr r \<Rightarrow> Inr r)"
    using 1(2) by (subst (asm) (2) page_loop.simps) (auto simp: page_loop.simps [of t] split: sum.splits)
  show ?case
  proof (cases x)
    case (Inl v)
    then show ?thesis
      using 1(1) [OF x(1) Inl] 1(2) x page_step_length [of "fst t" "fst (snd t)" "snd (snd t)"]
      by (fastforce split: prod.splits)
  next
    case (Inr v)
    then show ?thesis
      using 1(2) x page_step_length [of "fst t" "fst (snd t)" "snd (snd t)"]
      by (auto split: prod.splits)
  qed
qed

definition GetPageData :: "HexParserAlgorithm \<Rightarrow> u8 list \<Rightarrow> sim_error + int \<times> page_state" where
  "GetPageData s dest =
     bindE (deref (ha_p s)) (\<lambda>c. if c = 0 then Inr (0, s, dest, 0) else page_loop (s, dest, 0))"

lemma GetPageData_length:
  "GetPageData s dest = Inr (r, s', dest', sz) \<Longrightarrow> r \<noteq> 0 \<Longrightarrow> length (ha_p s') < length (ha_p s)"
  using page_loop_length [of "(s, dest, 0)" r "(s', dest', sz)"]
  by (auto simp: GetPageData_def split: if_splits)

text \<open>The loop of \<open>GetAlgSize\<close> over a buffer of 512 bytes, and its end, which rewinds the parser.\<close>

function alg_size_loop :: "HexParserAlgorithm \<Rightarrow> u8 list \<Rightarrow> int \<Rightarrow> sim_error + int" where
  "alg_size_loop s buf acc =
     (case GetPageData s buf of
        Inl e \<Rightarrow> Inl e
      | Inr (r, s', buf', sz) \<Rightarrow>
          if r \<noteq> 0 then alg_size_loop s' buf' (acc + int sz) else Inr acc)"
  by pat_completeness auto
termination
  by (relation "measure (\<lambda>(s, _). length (ha_p s))")
    (auto dest: GetPageData_length)

declare alg_size_loop.simps [simp del]

definition GetAlgSize :: "u8 list \<Rightarrow> HexParserAlgorithm \<Rightarrow> sim_error + int \<times> HexParserAlgorithm" where
  "GetAlgSize stack_buffer s =
     mapE (\<lambda>acc. (acc, s\<lparr>ha_p := c_str (ha_buffer s), ha_state := AtColon, linelenght := 0\<rparr>))
       (alg_size_loop s stack_buffer 0)"

section \<open>A writer, for the round trip\<close>

text \<open>
  A file of data records, as assemblers write it: an address, the words, and a trailer that holds
  the checksum and the rest of the line; then an end record. The readers ignore the trailers.
\<close>

definition hex_digit :: "u8 \<Rightarrow> u8" where
  "hex_digit n = (if n < 10 then 0x30 + n else 0x37 + n)"

definition enc_byte :: "u8 \<Rightarrow> u8 list" where
  "enc_byte b = [hex_digit (drop_bit 4 b), hex_digit (b AND 0x0F)]"

definition enc_word :: "u16 \<Rightarrow> u8 list" where
  "enc_word w = enc_byte (lo8 w) @ enc_byte (hi8 w)"

type_synonym hex_record = "u16 \<times> u16 list \<times> u8 list"

fun enc_record :: "hex_record \<Rightarrow> u8 list" where
  "enc_record (addr, ws, trailer) =
     [chr_colon] @ enc_byte (word_of_nat (2 * length ws)) @ enc_byte (hi8 addr) @ enc_byte (lo8 addr) @
     enc_byte 0 @ concat (map enc_word ws) @ trailer @ [chr_newline]"

definition enc_file :: "hex_record list \<Rightarrow> u8 list \<Rightarrow> u8 list" where
  "enc_file rs trailer =
     concat (map enc_record rs) @ [chr_colon] @ enc_byte 0 @ trailer @ [chr_newline]"

fun record_ok :: "hex_record \<Rightarrow> bool" where
  "record_ok (addr, ws, trailer) \<longleftrightarrow> ws \<noteq> [] \<and> length ws \<le> 127 \<and> chr_newline \<notin> set trailer \<and>
     0 \<notin> set trailer"

fun record_words :: "hex_record \<Rightarrow> u16 list" where
  "record_words (addr, ws, trailer) = ws"

definition file_words :: "hex_record list \<Rightarrow> u16 list" where
  "file_words rs = concat (map record_words rs)"

lemma file_words_simps [simp]:
  "file_words [] = []" "file_words (r # rs) = record_words r @ file_words rs"
  by (simp_all add: file_words_def)

lemma hex_digit_value:
  assumes "unat n < 16"
  shows "get_tet (hex_digit n # p) = Inr (n, p)"
proof -
  have "n = word_of_nat (unat n)" by simp
  moreover have "unat n = 0 \<or> unat n = 1 \<or> unat n = 2 \<or> unat n = 3 \<or> unat n = 4 \<or> unat n = 5 \<or>
      unat n = 6 \<or> unat n = 7 \<or> unat n = 8 \<or> unat n = 9 \<or> unat n = 10 \<or> unat n = 11 \<or>
      unat n = 12 \<or> unat n = 13 \<or> unat n = 14 \<or> unat n = 15"
    using assms by arith
  ultimately show ?thesis
    by (elim disjE) (simp_all add: hex_digit_def)
qed

lemma hex_digit_nonzero: "unat n < 16 \<Longrightarrow> hex_digit n \<noteq> 0"
  using hex_digit_value [of n "[]"] by auto

lemma and_less_16: "(n :: nat) AND 15 < 16"
proof -
  have "n AND 15 = n mod 16"
    using take_bit_eq_mask [of 4 n] by (simp add: take_bit_eq_mod mask_eq_exp_minus_1)
  then show ?thesis by simp
qed

lemma nibbles_less:
  "unat (drop_bit 4 b :: u8) < 16" "unat (b AND 0x0F :: u8) < 16"
proof -
  show "unat (drop_bit 4 b) < 16"
    using unsigned_less [of b, where ?'a = nat]
    by (simp add: unsigned_drop_bit_eq drop_bit_take_bit take_bit_eq_mod drop_bit_eq_div [of 4 "unat b"])
qed (simp add: unsigned_and_eq and_less_16)

lemma hex_digits_nonzero [simp]: "hex_digit (drop_bit 4 b) \<noteq> 0"
  by (rule hex_digit_nonzero [OF nibbles_less(1)])

lemma get_byte_enc [simp]: "get_byte (enc_byte b @ p) = Inr (b, p)"
proof -
  have "push_bit 4 (drop_bit 4 b) OR (b AND 0x0F) = b" by (simp add: word8_bits)
  then show ?thesis
    by (simp add: get_byte_def enc_byte_def hex_digit_value nibbles_less del: get_tet.simps)
qed

lemma get_word_enc [simp]: "get_word (enc_word w @ p) = Inr (w, p)"
  by (simp add: get_word_def enc_word_def)

lemma skip_line_enc [simp]: "chr_newline \<notin> set t \<Longrightarrow> skip_line (t @ chr_newline # p) = Inr p"
  by (induction t) auto

section \<open>The simulator loads what was written\<close>

text \<open>What the words of a record do to the program memory: cell \<open>i\<close> gets the first of them.\<close>

fun put_words :: "nat \<Rightarrow> u16 list \<Rightarrow> flash \<Rightarrow> flash" where
  "put_words i [] fl = fl"
| "put_words i (w # ws) fl = put_words (Suc i) ws (fl[i := (fl ! i)\<lparr>ins_word := w\<rparr>])"

fun load_record :: "hex_record \<Rightarrow> flash \<Rightarrow> flash" where
  "load_record (addr, ws, trailer) fl = put_words (unat addr div 2) ws fl"

fun record_fits :: "nat \<Rightarrow> hex_record \<Rightarrow> bool" where
  "record_fits n (addr, ws, trailer) \<longleftrightarrow>
     unat addr + 2 * length ws \<le> 2 ^ 16 \<and> unat addr div 2 + length ws \<le> n"

lemma length_put_words [simp]: "length (put_words i ws fl) = length fl"
  by (induction i ws fl rule: put_words.induct) simp_all

lemma length_load_record [simp]: "length (load_record r fl) = length fl"
  by (cases r) simp

lemma nth_put_words:
  "j < length fl \<Longrightarrow> i + length ws \<le> length fl \<Longrightarrow>
   put_words i ws fl ! j = (if i \<le> j \<and> j < i + length ws then (fl ! j)\<lparr>ins_word := ws ! (j - i)\<rparr> else fl ! j)"
proof (induction i ws fl rule: put_words.induct)
  case (2 i w ws fl)
  then show ?case by (auto simp: nth_Cons' nth_list_update)
qed auto

lemma Flash_Store_at:
  assumes "unat addr + 2 * i < 2 ^ 16" "unat addr div 2 + i < length fl"
  shows "Flash_Store fl (word_of_int (uint addr + int (2 * i))) w =
    Inr (fl[unat addr div 2 + i := (fl ! (unat addr div 2 + i))\<lparr>ins_word := w\<rparr>])"
proof -
  have "(word_of_int (uint addr + int (2 * i)) :: u16) = word_of_nat (unat addr + 2 * i)"
    by (simp add: word_of_nat_eq_iff)
  moreover have "unat (word_of_nat (unat addr + 2 * i) :: u16) = unat addr + 2 * i"
    using assms(1) by (simp only: unat_of_nat) simp
  ultimately show ?thesis using assms(2) by (simp add: Flash_Store_def Let_def add.commute)
qed

lemma store_words_enc:
  assumes "unat len = 2 * (i + length ws)" "unat addr + unat len \<le> 2 ^ 16"
    and "unat addr div 2 + i + length ws \<le> length fl"
  shows "store_words (2 * i) len (uint addr) (concat (map enc_word ws) @ p) fl =
    Inr (p, put_words (unat addr div 2 + i) ws fl)"
  using assms
proof (induction ws arbitrary: i fl)
  case Nil
  then show ?case by (simp add: store_words.simps)
next
  case (Cons w ws)
  then show ?case
    using Cons.IH [of "Suc i" "fl[unat addr div 2 + i := (fl ! (unat addr div 2 + i))\<lparr>ins_word := w\<rparr>]"]
      Flash_Store_at [of addr i fl w]
    by (subst store_words.simps) (simp add: enc_word_def [symmetric] Let_def)
qed

definition line_rest :: "hex_record list \<Rightarrow> u8 list \<Rightarrow> u8 list" where
  "line_rest rs trailer = enc_file rs trailer @ [0, 0]"

lemma line_rest_simps [simp]:
  "line_rest [] trailer = chr_colon # enc_byte 0 @ trailer @ [chr_newline, 0, 0]"
  "line_rest ((addr, ws, t) # rs) trailer =
     chr_colon # enc_byte (word_of_nat (2 * length ws)) @ enc_byte (hi8 addr) @ enc_byte (lo8 addr) @
     enc_byte 0 @ concat (map enc_word ws) @ t @ chr_newline # line_rest rs trailer"
  by (simp_all add: line_rest_def enc_file_def)

lemma record_len [simp]:
  assumes "record_ok (addr, ws, t)"
  shows "(word_of_nat (2 * length ws) :: u8) \<noteq> 0" "unat (word_of_nat (2 * length ws) :: u8) = 2 * length ws"
proof -
  show *: "unat (word_of_nat (2 * length ws) :: u8) = 2 * length ws"
    using assms by (simp only: unat_of_nat) simp
  show "(word_of_nat (2 * length ws) :: u8) \<noteq> 0"
    using assms * by (metis mult_eq_0_iff length_0_conv record_ok.simps unat_0 zero_neq_numeral)
qed

lemma hex_read_loop_step: "hex_read_step s = Inr (Inl t) \<Longrightarrow> hex_read_loop s = hex_read_loop t"
  by (simp add: hex_read_loop.simps [of s])

lemma hex_read_end:
  assumes "chr_newline \<notin> set trailer" "rd_state s = AtColon" "rd_p s = line_rest [] trailer"
  shows "hex_read_loop s = Inr (rd_flash s)"
  using assms
  by (simp add: hex_read_loop.simps [of s] hex_read_step_def Let_def)
    (simp add: hex_read_loop.simps hex_read_step_def)

lemma hex_read_record:
  assumes ok: "record_ok (addr, ws, t)" "record_fits (length (rd_flash s)) (addr, ws, t)"
    and "rd_state s = AtColon" "rd_p s = line_rest ((addr, ws, t) # rs) trailer"
  shows "\<exists>s'. hex_read_loop s = hex_read_loop s' \<and> rd_state s' = AtColon \<and>
    rd_p s' = line_rest rs trailer \<and> rd_flash s' = load_record (addr, ws, t) (rd_flash s)"
proof -
  let ?len = "word_of_nat (2 * length ws) :: u8"
  define s3 where "s3 = s\<lparr>rd_state := AtColon, RecLen := ?len, rd_offset := uint addr,
     rd_p := line_rest rs trailer, rd_flash := load_record (addr, ws, t) (rd_flash s)\<rparr>"
  have "store_words 0 ?len (uint addr) (concat (map enc_word ws) @ t @ chr_newline # line_rest rs trailer) (rd_flash s) =
     Inr (t @ chr_newline # line_rest rs trailer, load_record (addr, ws, t) (rd_flash s))"
    using store_words_enc [of ?len 0 ws addr "rd_flash s"] ok record_len [OF ok(1)] by simp
  then have step3: "hex_read_step (s\<lparr>rd_state := AtData, RecLen := ?len, rd_offset := uint addr,
       rd_p := concat (map enc_word ws) @ t @ chr_newline # line_rest rs trailer\<rparr>) = Inr (Inl s3)"
    using ok(1) by (simp add: hex_read_step_def s3_def)
  have step2: "hex_read_step (s\<lparr>rd_state := AtHeader, rd_p := tl (rd_p s)\<rparr>) =
     Inr (Inl (s\<lparr>rd_state := AtData, RecLen := ?len, rd_offset := uint addr,
       rd_p := concat (map enc_word ws) @ t @ chr_newline # line_rest rs trailer\<rparr>))"
    using assms(4) record_len [OF ok(1)] by (simp add: hex_read_step_def Let_def)
  have step1: "hex_read_step s = Inr (Inl (s\<lparr>rd_state := AtHeader, rd_p := tl (rd_p s)\<rparr>))"
    using assms(3,4) by (simp add: hex_read_step_def)
  have "hex_read_loop s = hex_read_loop s3"
    using hex_read_loop_step [OF step1] hex_read_loop_step [OF step2] hex_read_loop_step [OF step3] by simp
  then show ?thesis unfolding s3_def by (intro exI [of _ s3]) (simp add: s3_def)
qed

lemma hex_read_records:
  assumes "\<forall>r \<in> set rs. record_ok r \<and> record_fits (length (rd_flash s)) r" "chr_newline \<notin> set trailer"
    and "rd_state s = AtColon" "rd_p s = line_rest rs trailer"
  shows "hex_read_loop s = Inr (fold load_record rs (rd_flash s))"
  using assms
proof (induction rs arbitrary: s)
  case Nil
  then show ?case by (simp add: hex_read_end [where trailer = trailer] del: line_rest_simps)
next
  case (Cons r rs)
  obtain addr ws t where r: "r = (addr, ws, t)" by (cases r)
  obtain s' where s': "hex_read_loop s = hex_read_loop s'" "rd_state s' = AtColon"
    "rd_p s' = line_rest rs trailer" "rd_flash s' = load_record r (rd_flash s)"
    using hex_read_record [of addr ws t s rs trailer] Cons.prems unfolding r
    by (auto simp del: line_rest_simps load_record.simps record_ok.simps record_fits.simps)
  then show ?case
    using Cons.IH [of s'] Cons.prems by (simp del: line_rest_simps)
qed

lemma HexParserFlash_Read_records:
  assumes "\<forall>r \<in> set rs. record_ok r \<and> record_fits (length fl) r" "chr_newline \<notin> set trailer"
    and "HexParser_init (Some (enc_file rs trailer)) = Inr hp"
  shows "HexParserFlash_Read hp fl = Inr (hp, fold load_record rs fl)"
proof -
  have hp: "hex_p hp = line_rest rs trailer" "hex_p hp = c_str (buffer hp)"
    using assms(3) by (auto simp: HexParser_init_def line_rest_def c_str_def)
  show ?thesis
    using hex_read_records
        [of rs "\<lparr>rd_state = AtColon, RecLen = 0, rd_offset = 0, rd_p = hex_p hp, rd_flash = fl\<rparr>" trailer]
      hp assms(1,2)
    by (simp add: HexParserFlash_Read_def)
qed

text \<open>
  C17. The simulator loads exactly the image that was written: for every HEX file of data records
  that lie in the program memory, \<open>Read\<close> stores the words of each record at its address, ignores
  every checksum, and rewinds the parser for the next call.
\<close>

theorem hex_load:
  assumes "\<forall>r \<in> set rs. record_ok r \<and> record_fits (length fl) r" "chr_newline \<notin> set trailer"
    and "HexParser_init (Some (enc_file rs trailer)) = Inr hp"
  shows "HexParserFlash_Read hp fl = Inr (hp, fold load_record rs fl)"
  using assms by (rule HexParserFlash_Read_records)

lemma hex_load_witness:
  "\<exists>hp. HexParserFlash_Read hp (Flash_init 4) =
     Inr (hp, load_record (2, [0xE00F, 0x9508], [0x35, 0x31]) (Flash_init 4))"
proof -
  define rs :: "hex_record list" where "rs = [(2, [0xE00F, 0x9508], [0x35, 0x31])]"
  obtain hp where hp: "HexParser_init (Some (enc_file rs [0x46, 0x46])) = Inr hp"
    by (simp add: HexParser_init_def)
  have "HexParserFlash_Read hp (Flash_init 4) = Inr (hp, fold load_record rs (Flash_init 4))"
    by (rule hex_load [OF _ _ hp]) (simp_all add: rs_def Flash_init_def)
  then show ?thesis by (simp add: rs_def del: load_record.simps) blast
qed

section \<open>The pages of what was written\<close>

text \<open>The bytes of a list of words in the order of a little-endian machine.\<close>

definition word_bytes :: "u16 list \<Rightarrow> u8 list" where
  "word_bytes ws = concat (map (\<lambda>w. [lo8 w, hi8 w]) ws)"

lemma word_bytes_simps [simp]:
  "word_bytes [] = []" "word_bytes (w # ws) = lo8 w # hi8 w # word_bytes ws"
  "length (word_bytes ws) = 2 * length ws"
proof -
  show "length (word_bytes ws) = 2 * length ws" by (induction ws) (simp_all add: word_bytes_def)
qed (simp_all add: word_bytes_def)

text \<open>\<open>dest\<close> after the bytes of \<open>ws\<close> have been put at \<open>k\<close>.\<close>

definition put_at :: "u8 list \<Rightarrow> nat \<Rightarrow> u16 list \<Rightarrow> u8 list" where
  "put_at dest k ws = take k dest @ word_bytes ws @ drop (k + 2 * length ws) dest"

lemma put_at_Nil [simp]: "put_at dest k [] = dest"
  by (simp add: put_at_def)

lemma length_put_at [simp]: "k + 2 * length ws \<le> length dest \<Longrightarrow> length (put_at dest k ws) = length dest"
  by (simp add: put_at_def)

lemma Suc_Suc_minus_2: "\<not> i \<le> Suc k \<Longrightarrow> Suc (Suc (i - 2)) = i"
  by arith

lemma put_short_at: "k + 2 \<le> length dest \<Longrightarrow> put_short dest k w = Inr (put_at dest k [w])"
  by (auto simp: put_short_def put_at_def intro!: nth_equalityI simp: nth_append nth_list_update nth_Cons' Suc_Suc_minus_2)

lemma put_at_at:
  assumes "k + 2 * length us + 2 * length ws \<le> length dest"
  shows "put_at (put_at dest k us) (k + 2 * length us) ws = put_at dest k (us @ ws)"
proof -
  have "word_bytes (us @ ws) = word_bytes us @ word_bytes ws" by (simp add: word_bytes_def)
  moreover have "min (length dest) k = k" using assms by simp
  ultimately show ?thesis by (simp add: put_at_def) (simp add: algebra_simps)
qed

text \<open>The words of the current record up to the end of the page or of the record.\<close>

lemma page_words_enc:
  assumes "j < n" "2 * n \<le> length dest"
  shows "page_words (int (length us)) (concat (map enc_word us) @ p) dest (2 * j) (int (2 * n)) =
    (if length us < n - j
     then Inr (False, -1, p, put_at dest (2 * j) us, 2 * (j + length us))
     else Inr (True, int (length us - (n - j)), concat (map enc_word (drop (n - j) us)) @ p,
            put_at dest (2 * j) (take (n - j) us), 2 * n))"
  using assms
proof (induction us arbitrary: j dest)
  case Nil
  then show ?case by (simp add: page_words.simps)
next
  case (Cons w us)
  have put: "put_short dest (2 * j) w = Inr (put_at dest (2 * j) [w])"
    using Cons.prems by (intro put_short_at) simp
  show ?case
  proof (cases "Suc j = n")
    case True
    then show ?thesis using put by (subst page_words.simps) auto
  next
    case False
    then have j: "Suc j < n" "n - j = Suc (n - Suc j)" using Cons.prems(1) by simp_all
    have join: "put_at (put_at dest (2 * j) [w]) (2 * Suc j) us' = put_at dest (2 * j) (w # us')"
      if "length us' \<le> n - Suc j" for us'
      using put_at_at [of "2 * j" "[w]" us' dest] that j Cons.prems(2) by simp
    have "page_words (int (length (w # us))) (concat (map enc_word (w # us)) @ p) dest (2 * j) (int (2 * n)) =
      page_words (int (length us)) (concat (map enc_word us) @ p) (put_at dest (2 * j) [w]) (2 * Suc j) (int (2 * n))"
      using put j by (subst page_words.simps) simp
    also have "\<dots> = (if length us < n - Suc j
       then Inr (False, -1, p, put_at (put_at dest (2 * j) [w]) (2 * Suc j) us, 2 * (Suc j + length us))
       else Inr (True, int (length us - (n - Suc j)), concat (map enc_word (drop (n - Suc j) us)) @ p,
              put_at (put_at dest (2 * j) [w]) (2 * Suc j) (take (n - Suc j) us), 2 * n))"
      using j Cons.prems(2) by (intro Cons.IH) simp_all
    finally show ?thesis
      using j join [of us] join [of "take (n - Suc j) us"] by (auto simp: min_def)
  qed
qed

section \<open>Pages\<close>

text \<open>
  Where the page reader can be: at the start of a record with the words of \<open>rs\<close> to come, or in a
  record whose words \<open>us\<close> are still to come; \<open>ws\<close> are all the words to come.
\<close>

definition at_records :: "HexParserAlgorithm \<Rightarrow> hex_record list \<Rightarrow> u8 list \<Rightarrow> bool" where
  "at_records s rs trailer \<longleftrightarrow> ha_state s = AtColon \<and> ha_p s = line_rest rs trailer \<and>
     (\<forall>r \<in> set rs. record_ok r)"

definition in_record :: "HexParserAlgorithm \<Rightarrow> u16 list \<Rightarrow> hex_record list \<Rightarrow> u8 list \<Rightarrow> bool" where
  "in_record s us rs trailer \<longleftrightarrow> ha_state s = AtData \<and> linelenght s = int (length us) \<and>
     (\<exists>t. chr_newline \<notin> set t \<and> 0 \<notin> set t \<and>
       ha_p s = concat (map enc_word us) @ t @ chr_newline # line_rest rs trailer) \<and>
     (\<forall>r \<in> set rs. record_ok r)"

definition page_pos :: "HexParserAlgorithm \<Rightarrow> u16 list \<Rightarrow> u8 list \<Rightarrow> bool" where
  "page_pos s ws trailer \<longleftrightarrow>
     (\<exists>rs. at_records s rs trailer \<and> ws = file_words rs) \<or>
     (\<exists>us rs. in_record s us rs trailer \<and> ws = us @ file_words rs) \<or>
     (hd (ha_p s) = 0 \<and> ha_p s \<noteq> [] \<and> ws = [])"

lemma page_loop_step: "page_step s = Inr (Inl t) \<Longrightarrow> page_loop s = page_loop t"
  by (simp add: page_loop.simps [of s])

lemma page_loop_return: "page_step s = Inr (Inr r) \<Longrightarrow> page_loop s = Inr r"
  by (simp add: page_loop.simps [of s])

lemma page_record:
  assumes "at_records s ((addr, ws, t) # rs) trailer"
  shows "\<exists>s'. page_loop (s, dest, k) = page_loop (s', dest, k) \<and> in_record s' ws rs trailer \<and>
    page_size s' = page_size s \<and> ha_buffer s' = ha_buffer s"
proof -
  have ok: "record_ok (addr, ws, t)" and p: "ha_state s = AtColon" "ha_p s = line_rest ((addr, ws, t) # rs) trailer"
    using assms by (simp_all add: at_records_def)
  define s1 where "s1 = s\<lparr>ha_state := AtHeader, ha_p := tl (ha_p s)\<rparr>"
  define s2 where "s2 = s\<lparr>ha_state := AtData, linelenght := int (length ws),
     ha_p := concat (map enc_word ws) @ t @ chr_newline # line_rest rs trailer\<rparr>"
  have "get_word (enc_byte a @ enc_byte b @ q) = Inr (join16 a b, q)" for a b q
    by (simp add: get_word_def)
  then have "page_step (s1, dest, k) = Inr (Inl (s2, dest, k))"
    using p record_len [OF ok] by (simp add: page_step_def s1_def s2_def Let_def)
  moreover have "page_step (s, dest, k) = Inr (Inl (s1, dest, k))"
    using p by (simp add: page_step_def s1_def)
  moreover have "in_record s2 ws rs trailer"
    using assms ok by (auto simp: in_record_def at_records_def s2_def)
  ultimately show ?thesis
    using page_loop_step by (intro exI [of _ s2]) (simp add: s2_def)
qed

lemma skip_to_end_enc: "\<exists>q. skip_to_end (xs @ [chr_newline, 0, 0]) = Inr (0 # q)"
  by (induction xs rule: skip_to_end.induct) auto

lemma page_end:
  assumes "at_records s [] trailer"
  shows "\<exists>s'. page_loop (s, dest, k) = Inr (if k \<noteq> 0 then 1 else 0, s', dest, k) \<and>
    page_pos s' [] trailer \<and> page_size s' = page_size s \<and> ha_buffer s' = ha_buffer s"
proof -
  have p: "ha_state s = AtColon" "ha_p s = line_rest [] trailer"
    using assms by (simp_all add: at_records_def)
  define s1 where "s1 = s\<lparr>ha_state := AtHeader, ha_p := tl (ha_p s)\<rparr>"
  obtain q where "skip_to_end (trailer @ [chr_newline, 0, 0]) = Inr (0 # q)"
    using skip_to_end_enc by blast
  then have "page_step (s1, dest, k) = Inr (Inr (if k \<noteq> 0 then 1 else 0, s1\<lparr>ha_p := 0 # q\<rparr>, dest, k))"
    using p by (simp add: page_step_def s1_def)
  moreover have "page_step (s, dest, k) = Inr (Inl (s1, dest, k))"
    using p by (simp add: page_step_def s1_def)
  ultimately show ?thesis
    using page_loop_step page_loop_return
    by (intro exI [of _ "s1\<lparr>ha_p := 0 # q\<rparr>"]) (simp add: s1_def page_pos_def)
qed

definition fills :: "HexParserAlgorithm \<Rightarrow> u8 list \<Rightarrow> u8 list \<Rightarrow> nat \<Rightarrow> nat \<Rightarrow> u16 list \<Rightarrow> bool" where
  "fills s trailer dest j n ws \<longleftrightarrow>
     (\<exists>s'. page_loop (s, dest, 2 * j) =
        Inr (if j + min (n - j) (length ws) \<noteq> 0 then 1 else 0, s',
             put_at dest (2 * j) (take (n - j) ws), 2 * (j + min (n - j) (length ws))) \<and>
      page_pos s' (drop (n - j) ws) trailer \<and> page_size s' = page_size s \<and> ha_buffer s' = ha_buffer s)"

lemma page_in_record:
  assumes "in_record s us rs trailer" "page_size s = int (2 * n)" "j < n" "2 * n \<le> length dest"
    and go_on: "\<And>s' dest' j'. at_records s' rs trailer \<Longrightarrow> page_size s' = int (2 * n) \<Longrightarrow> j' < n \<Longrightarrow>
      2 * n \<le> length dest' \<Longrightarrow> fills s' trailer dest' j' n (file_words rs)"
  shows "fills s trailer dest j n (us @ file_words rs)"
proof -
  obtain t where p: "ha_state s = AtData" "linelenght s = int (length us)" "chr_newline \<notin> set t" "0 \<notin> set t"
    "ha_p s = concat (map enc_word us) @ t @ chr_newline # line_rest rs trailer"
    and ok: "\<forall>r \<in> set rs. record_ok r"
    using assms(1) by (auto simp: in_record_def)
  note words = page_words_enc [OF assms(3,4), of us "t @ chr_newline # line_rest rs trailer"]
  show ?thesis
  proof (cases "length us < n - j")
    case True
    define s1 where "s1 = s\<lparr>linelenght := -1, ha_state := AtColon, ha_p := line_rest rs trailer\<rparr>"
    have "page_step (s, dest, 2 * j) = Inr (Inl (s1, put_at dest (2 * j) us, 2 * (j + length us)))"
      using True p words assms(2) by (simp add: page_step_def s1_def Let_def)
    moreover have "fills s1 trailer (put_at dest (2 * j) us) (j + length us) n (file_words rs)"
      using True assms(2-4) ok by (intro go_on) (simp_all add: s1_def at_records_def)
    moreover have "put_at (put_at dest (2 * j) us) (2 * (j + length us)) (take (n - (j + length us)) (file_words rs)) =
      put_at dest (2 * j) (us @ take (n - (j + length us)) (file_words rs))"
    proof -
      have "2 * j + 2 * length us + 2 * length (take (n - (j + length us)) (file_words rs)) \<le> length dest"
      proof -
        have "length (take (n - (j + length us)) (file_words rs)) \<le> n - (j + length us)" by simp
        then show ?thesis using True assms(3,4) by linarith
      qed
      then show ?thesis by (simp only: put_at_at distrib_left)
    qed
    moreover have "j + min (n - j) (length (us @ file_words rs)) =
        (j + length us) + min (n - (j + length us)) (length (file_words rs))"
      using True by (simp only: length_append)
    moreover have "take (n - j) (us @ file_words rs) = us @ take (n - (j + length us)) (file_words rs)"
      "drop (n - j) (us @ file_words rs) = drop (n - (j + length us)) (file_words rs)"
      using True by simp_all
    moreover have "page_size s1 = page_size s" "ha_buffer s1 = ha_buffer s" by (simp_all add: s1_def)
    ultimately show ?thesis
      using page_loop_step [of "(s, dest, 2 * j)"] by (simp only: fills_def)
  next
    case False
    define s1 where "s1 = s\<lparr>linelenght := int (length us - (n - j)),
       ha_p := concat (map enc_word (drop (n - j) us)) @ t @ chr_newline # line_rest rs trailer\<rparr>"
    have "page_step (s, dest, 2 * j) = Inr (Inr (1, s1, put_at dest (2 * j) (take (n - j) us), 2 * n))"
      using False p words assms(2) by (simp add: page_step_def s1_def Let_def)
    moreover have "in_record s1 (drop (n - j) us) rs trailer"
      using p ok by (auto simp: in_record_def s1_def)
    then have "page_pos s1 (drop (n - j) us @ file_words rs) trailer"
      unfolding page_pos_def by blast
    ultimately show ?thesis
      using False assms(3) by (simp add: fills_def page_loop_return s1_def min_def)
  qed
qed

lemma page_records:
  assumes "at_records s rs trailer" "page_size s = int (2 * n)" "j < n" "2 * n \<le> length dest"
  shows "fills s trailer dest j n (file_words rs)"
  using assms
proof (induction rs arbitrary: s dest j)
  case Nil
  then show ?case using page_end [OF Nil(1), of dest "2 * j"] by (auto simp: fills_def)
next
  case (Cons r rs)
  obtain addr ws t where r: "r = (addr, ws, t)" by (cases r)
  obtain s' where s': "page_loop (s, dest, 2 * j) = page_loop (s', dest, 2 * j)" "in_record s' ws rs trailer"
    "page_size s' = page_size s" "ha_buffer s' = ha_buffer s"
    using page_record [OF Cons.prems(1)[unfolded r]] by blast
  have "fills s' trailer dest j n (ws @ file_words rs)"
    by (rule page_in_record [OF s'(2)]) (use Cons s' in auto)
  then show ?case using s' by (simp add: fills_def r)
qed

lemma page_next:
  assumes "page_pos s ws trailer" "page_size s = int (2 * n)" "0 < n" "2 * n \<le> length dest"
  shows "\<exists>s'. GetPageData s dest =
      Inr (if ws \<noteq> [] then 1 else 0, s', put_at dest 0 (take n ws), 2 * min n (length ws)) \<and>
    page_pos s' (drop n ws) trailer \<and> page_size s' = page_size s \<and> ha_buffer s' = ha_buffer s"
proof -
  consider rs where "at_records s rs trailer" "ws = file_words rs"
    | us rs where "in_record s us rs trailer" "ws = us @ file_words rs"
    | "hd (ha_p s) = 0" "ha_p s \<noteq> []" "ws = []"
    using assms(1) by (auto simp: page_pos_def)
  then show ?thesis
  proof cases
    case 1
    have "GetPageData s dest = page_loop (s, dest, 0)"
      using 1 by (cases rs) (auto simp: GetPageData_def at_records_def)
    then show ?thesis
      using page_records [OF 1(1) assms(2,3,4)] 1(2) assms(3) by (auto simp: fills_def)
  next
    case 2
    have "hd (ha_p s) \<noteq> 0"
    proof -
      obtain t where "0 \<notin> set t" "ha_p s = concat (map enc_word us) @ t @ chr_newline # line_rest rs trailer"
        using 2(1) by (auto simp: in_record_def)
      then show ?thesis
        by (cases us; cases t) (auto simp: enc_word_def enc_byte_def)
    qed
    moreover have "ha_p s \<noteq> []"
      using 2(1) by (auto simp: in_record_def)
    ultimately have "GetPageData s dest = page_loop (s, dest, 0)"
      by (cases "ha_p s") (simp_all add: GetPageData_def)
    then show ?thesis
      using page_in_record [OF 2(1) assms(2,3,4) page_records] 2(2) assms(3) by (auto simp: fills_def)
  next
    case 3
    then show ?thesis
      using assms(1) by (cases "ha_p s") (auto simp: GetPageData_def)
  qed
qed

text \<open>
  The page reader cuts the words of the file into pages: wherever it is, the next call of
  \<open>GetPageData\<close> with a page of \<open>2 * n\<close> bytes returns the next \<open>n\<close> words, or the fewer that are left,
  and their number of bytes; it returns 0 once they are used up, and then again. Where a record
  ends does not matter.
\<close>

theorem page_data:
  assumes "page_pos s ws trailer" "page_size s = int (2 * n)" "0 < n" "2 * n \<le> length dest"
  shows "\<exists>s'. GetPageData s dest =
      Inr (if ws \<noteq> [] then 1 else 0, s',
           word_bytes (take n ws) @ drop (2 * min n (length ws)) dest, 2 * min n (length ws)) \<and>
    page_pos s' (drop n ws) trailer"
  using page_next [OF assms] by (auto simp: put_at_def min_def)

lemma page_pos_init:
  assumes "\<forall>r \<in> set rs. record_ok r" "HexParserAlgorithm_init (Some (enc_file rs trailer)) k = Inr s"
  shows "page_pos s (file_words rs) trailer" "page_size s = k" "ha_state s = AtColon"
    "ha_p s = c_str (ha_buffer s)" "linelenght s = 0"
  using assms
  by (auto simp: page_pos_def at_records_def HexParserAlgorithm_init_def HexParser_init_def line_rest_def c_str_def)

lemma page_data_witness:
  "\<exists>s s'. GetPageData s [7, 7, 7, 7] = Inr (1, s', [0x0F, 0xE0, 0x08, 0x95], 4) \<and> page_pos s' [0x1234] [0x46]"
proof -
  define rs :: "hex_record list" where "rs = [(0, [0xE00F], [0x35, 0x31]), (2, [0x9508, 0x1234], [0x35])]"
  obtain s where s: "HexParserAlgorithm_init (Some (enc_file rs [0x46])) 4 = Inr s"
    by (simp add: HexParserAlgorithm_init_def HexParser_init_def)
  have pos: "page_pos s (file_words rs) [0x46]" "page_size s = int (2 * 2)"
    using page_pos_init [OF _ s] by (simp_all add: rs_def)
  obtain s' where "GetPageData s [7, 7, 7, 7] = Inr (1, s', [0x0F, 0xE0, 0x08, 0x95], 4)"
    "page_pos s' [0x1234] [0x46]"
    using page_data [OF pos, of "[7, 7, 7, 7]"] by (auto simp: rs_def lo8_def hi8_def)
  then show ?thesis by blast
qed

lemma alg_size_loop_pos:
  assumes "page_pos s ws trailer" "page_size s = int (2 * n)" "0 < n" "2 * n \<le> length buf"
  shows "alg_size_loop s buf acc = Inr (acc + int (2 * length ws))"
  using assms
proof (induction "length ws" arbitrary: s ws buf acc rule: less_induct)
  case less
  obtain s' where s': "GetPageData s buf =
      Inr (if ws \<noteq> [] then 1 else 0, s', put_at buf 0 (take n ws), 2 * min n (length ws))"
    "page_pos s' (drop n ws) trailer" "page_size s' = int (2 * n)"
    using page_next [OF less.prems] less.prems(2) by auto
  show ?case
  proof (cases "ws = []")
    case False
    have "alg_size_loop s' (put_at buf 0 (take n ws)) (acc + int (2 * min n (length ws))) =
      Inr (acc + int (2 * min n (length ws)) + int (2 * length (drop n ws)))"
      using False less.prems(3,4) s'
      by (intro less.hyps) (auto simp: min_def)
    then show ?thesis
      using False s'(1) by (simp add: alg_size_loop.simps [of s] min_def split: if_splits)
  qed (use s' in \<open>simp add: alg_size_loop.simps [of s]\<close>)
qed

text \<open>
  \<open>GetAlgSize\<close> counts the bytes of the words of the file for every page size of up to 512
  bytes, and leaves the parser where the constructor put it, so that the pages can be read after.
\<close>

theorem alg_size:
  assumes "\<forall>r \<in> set rs. record_ok r" "0 < n" "n \<le> 256" "length stack_buffer = 512"
    and "HexParserAlgorithm_init (Some (enc_file rs trailer)) (int (2 * n)) = Inr s"
  shows "GetAlgSize stack_buffer s = Inr (int (2 * length (file_words rs)), s)"
  using alg_size_loop_pos [OF page_pos_init(1,2) [OF assms(1,5)] assms(2), of stack_buffer 0]
    page_pos_init(3-) [OF assms(1,5)] assms(3,4)
  by (simp add: GetAlgSize_def)

lemma alg_size_witness: "\<exists>s. GetAlgSize (replicate 512 0) s = Inr (6, s)"
proof -
  define rs :: "hex_record list" where "rs = [(0, [0xE00F], [0x35, 0x31]), (2, [0x9508, 0x1234], [0x35])]"
  obtain s where s: "HexParserAlgorithm_init (Some (enc_file rs [0x46])) (int (2 * 32)) = Inr s"
    by (simp add: HexParserAlgorithm_init_def HexParser_init_def)
  show ?thesis
    using alg_size [OF _ _ _ _ s, of "replicate 512 0"]
    by (intro exI [of _ s]) (simp add: rs_def)
qed

section \<open>What the readers do not check\<close>

text \<open>Lower-case digits are not decoded: \<open>'a'\<close> counts as 42.\<close>

lemma lower_case_digit: "get_tet (0x61 # p) = Inr (42, p)"
  by simp

end
