(* ===== verification/Sim_Mc.thy ===== *)
theory Sim_Mc
  imports Sim_Peripherals Avr_Hex
begin

text \<open>
  A controller: the core, its memories and its peripherals, as \<open>Microcontroller_Base\<close> of
  \<open>sim/src/avrmc.h\<close> and \<open>Microcontroller<Atmega8>\<close>, \<open>Microcontroller<Atmega16>\<close> of
  \<open>sim/src/atmega8.h\<close>, \<open>sim/src/atmega16.h\<close> put them together.

  Two things are parameters. The queue of pending interrupts is a lock-free queue of the boost
  library: the definitions take its \<open>push\<close> and \<open>pop\<close>, and \<open>queue_laws\<close> states what the library
  documents of a single-producer queue with room for 16 elements. The duration of a clock tick,
  \<open>llround(1e9 / frequency)\<close> in floating point, is the parameter \<open>tick_ns\<close>.
\<close>

section \<open>The interrupt queue\<close>

record 'q queue_ops =
  q_push :: "'q \<Rightarrow> u16 \<Rightarrow> 'q"
  q_pop :: "'q \<Rightarrow> u16 option \<times> 'q"

definition queue_laws :: "'q queue_ops \<Rightarrow> ('q \<Rightarrow> u16 list) \<Rightarrow> bool" where
  "queue_laws Q pending \<longleftrightarrow>
     (\<forall>q v. pending (q_push Q q v) = (if length (pending q) < 16 then pending q @ [v] else pending q)) \<and>
     (\<forall>q. pending q = [] \<longrightarrow> q_pop Q q = (None, q)) \<and>
     (\<forall>q v vs. pending q = v # vs \<longrightarrow> fst (q_pop Q q) = Some v \<and> pending (snd (q_pop Q q)) = vs)"

lemma queue_push_set:
  "queue_laws Q pending \<Longrightarrow> set (pending (q_push Q q v)) \<subseteq> insert v (set (pending q))"
  by (auto simp: queue_laws_def)

lemma queue_pop_set: "queue_laws Q pending \<Longrightarrow> set (pending (snd (q_pop Q q))) \<subseteq> set (pending q)"
  unfolding queue_laws_def by (cases "pending q") (simp, metis set_subset_Cons)

section \<open>The controller\<close>

text \<open>\<open>mc_model\<close> is the template argument \<open>Model\<close>.\<close>

record 'q mcu =
  mc_model :: MICROCONTROLLER
  mc_frequency :: u64
  mc_tick_ns :: u64
  mc_core :: core
  mc_irq :: 'q
  mc_timer0 :: peripheral
  mc_timer2 :: peripheral
  mc_uart :: peripheral
  mc_ext :: peripheral
  time_internal :: u64
  last_instruction_duration :: u64

definition Microcontroller :: "(u64 \<Rightarrow> u64) \<Rightarrow> 'q \<Rightarrow> MICROCONTROLLER \<Rightarrow> u64 \<Rightarrow> u8 \<Rightarrow> 'q mcu" where
  "Microcontroller tick_ns q MC frequency dev_addr =
     (let ticks = tick_ns frequency;
          flash = Flash_init (FLASH_SIZE (chip_of MC) div 2);
          sram = replicate (RAMEND (chip_of MC) + 1) 0;
          eeprom = replicate (EEPROM_SIZE (chip_of MC)) 0
      in \<lparr> mc_model = MC, mc_frequency = frequency, mc_tick_ns = ticks,
           mc_core = AVRCore_init MC flash sram eeprom (PAGE_SIZE (chip_of MC)) dev_addr,
           mc_irq = q, mc_timer0 = Setup ticks, mc_timer2 = Setup ticks, mc_uart = Setup ticks,
           mc_ext = Setup ticks, time_internal = 0, last_instruction_duration = 0 \<rparr>)"

definition LoadFlash :: "u8 list option \<Rightarrow> 'q mcu \<Rightarrow> sim_error + 'q mcu" where
  "LoadFlash hex_file u =
     bindE (HexParser_init hex_file) (\<lambda>hp.
     bindE (HexParserFlash_Read hp (c_flash (mc_core u))) (\<lambda>(_, fl).
     bindE (Decode 0 (word_of_nat (FLASH_SIZE (chip_of (mc_model u)) div 2)) fl) (\<lambda>fl.
       Inr (u\<lparr>mc_core := (mc_core u)\<lparr>c_flash := fl\<rparr>\<rparr>))))"

definition SetMedium :: "'q mcu \<Rightarrow> 'q mcu" where
  "SetMedium u = u\<lparr>mc_core := (mc_core u)\<lparr>c_mstate := True\<rparr>\<rparr>"

text \<open>
  \<open>CoreStep\<close>: the queue is asked only when the I flag is set. What the instruction hands to the
  medium is left in \<open>c_outs\<close> of the new core, empty before.
\<close>

definition CoreStep :: "'q queue_ops \<Rightarrow> 'q mcu \<Rightarrow> sim_error + u64 \<times> 'q mcu" where
  "CoreStep Q u =
     (let c = (mc_core u)\<lparr>c_outs := []\<rparr>;
          (irq, q) = (if bit (sreg (tick_tcnt2 (tick_tcnt0 c))) fI then q_pop Q (mc_irq u)
                      else (None, mc_irq u))
      in bindE (Step irq c) (\<lambda>(n, c).
           let d = n * mc_tick_ns u
           in Inr (d, u\<lparr>mc_core := c, mc_irq := q, last_instruction_duration := d,
                        time_internal := time_internal u + d\<rparr>)))"

section \<open>The peripherals as units\<close>

text \<open>
  \<open>boost::fusion::for_each\<close> calls \<open>Execute\<close> of each member of the struct \<open>Peripheral\<close>; what the call
  needs has the same shape for every unit.
\<close>

type_synonym unit_exec = "u64 \<Rightarrow> MediumState \<Rightarrow> peripheral \<Rightarrow> core \<Rightarrow> exec_result"

fun timer0_exec :: "MICROCONTROLLER \<Rightarrow> unit_exec" where
  "timer0_exec MC_ATMEGA8 g m p c = Atmega8Timer0_Execute g p c"
| "timer0_exec MC_ATMEGA16 g m p c = Atmega16Timer0_Execute g p c"

fun timer2_exec :: "MICROCONTROLLER \<Rightarrow> unit_exec" where
  "timer2_exec MC_ATMEGA8 g m p c = Atmega8Timer2_Execute g p c"
| "timer2_exec MC_ATMEGA16 g m p c = Atmega16Timer2_Execute g p c"

definition uart_exec :: unit_exec where
  "uart_exec g m p c = (let (r, c) = AtmegaUART_Execute m c in Inr (r, p, c))"

definition ext_int_exec :: "MICROCONTROLLER \<Rightarrow> unit_exec" where
  "ext_int_exec MC g m p c = (let (r, c) = AtmegaExtInterrupt0_Execute (chip_of MC) m c in Inr (r, p, c))"

definition run_unit :: "'q queue_ops \<Rightarrow> unit_exec \<Rightarrow> u64 \<Rightarrow> MediumState \<Rightarrow> peripheral \<Rightarrow> core \<Rightarrow> 'q \<Rightarrow>
    sim_error + peripheral \<times> core \<times> 'q" where
  "run_unit Q execute g m p c q =
     bindE (execute g m p c) (\<lambda>(result, p, c).
       Inr (p, c, if result \<noteq> -1 then q_push Q q (word_of_int result) else q))"

definition ExecutePeripheral :: "'q queue_ops \<Rightarrow> u64 \<Rightarrow> MediumState \<Rightarrow> 'q mcu \<Rightarrow> sim_error + 'q mcu" where
  "ExecutePeripheral Q g m u =
     (let MC = mc_model u
      in bindE (run_unit Q (timer0_exec MC) g m (mc_timer0 u) (mc_core u) (mc_irq u)) (\<lambda>(t0, c, q).
         bindE (run_unit Q (timer2_exec MC) g m (mc_timer2 u) c q) (\<lambda>(t2, c, q).
         bindE (run_unit Q uart_exec g m (mc_uart u) c q) (\<lambda>(ua, c, q).
         bindE (run_unit Q (ext_int_exec MC) g m (mc_ext u) c q) (\<lambda>(ei, c, q).
           Inr (u\<lparr>mc_core := c, mc_irq := q, mc_timer0 := t0, mc_timer2 := t2, mc_uart := ua,
                  mc_ext := ei\<rparr>))))))"

text \<open>
  The contract of a unit: it keeps the core well-formed, raises only certain vectors, and fails
  only with an assertion.
\<close>

locale peripheral_unit =
  fixes execute :: unit_exec and vectors :: "int set"
  assumes keeps_core: "execute g m p c = Inr (r, p', c') \<Longrightarrow> core_wf c' = core_wf c"
    and raises: "execute g m p c = Inr (r, p', c') \<Longrightarrow> r = -1 \<or> r \<in> vectors"
    and fails: "execute g m p c = Inl e \<Longrightarrow> e = AssertFailed"
begin

lemma run_wf:
  "run_unit Q execute g m p c q = Inr (p', c', q') \<Longrightarrow> core_wf c' = core_wf c"
  by (auto simp: run_unit_def dest: keeps_core)

lemma run_pending:
  assumes "queue_laws Q pending" "run_unit Q execute g m p c q = Inr (p', c', q')"
  shows "set (pending q') \<subseteq> set (pending q) \<union> word_of_int ` vectors"
  using assms(2) queue_push_set [OF assms(1)] raises
  by (fastforce simp: run_unit_def split: if_splits)

lemma run_fails: "run_unit Q execute g m p c q = Inl e \<Longrightarrow> e = AssertFailed"
  by (auto simp: run_unit_def bindE_Inl_iff dest: fails)

end

lemma divider_t0_fails: "divider_t0 n = Inl e \<Longrightarrow> e = AssertFailed"
  by (auto simp: divider_t0_def split: if_splits)

lemma timer0_exec_fails: "timer0_exec MC g m p c = Inl e \<Longrightarrow> e = AssertFailed"
  by (cases MC; auto simp: Atmega8Timer0_Execute_def Atmega16Timer0_Execute_def Let_def bindE_Inl_iff
      dest: divider_t0_fails split: if_splits prod.splits)

lemma timer2_exec_total: "timer2_exec MC g m p c \<noteq> Inl e"
  by (cases MC; auto simp: Atmega8Timer2_Execute_def Atmega16Timer2_Execute_def Let_def
      split: if_splits prod.splits)

lemma unit_okD:
  "unit_ok V c res \<Longrightarrow> res = Inr (r, p', c') \<Longrightarrow> core_wf c' = core_wf c \<and> (r = -1 \<or> r \<in> V)"
  by (auto simp: unit_ok_def)

lemma timer0_ok: "unit_ok (chip_vectors (chip_of MC)) c (timer0_exec MC g m p c)"
  by (cases MC) (simp_all add: Atmega8Timer0_ok Atmega16Timer0_ok)

lemma timer2_ok: "unit_ok (chip_vectors (chip_of MC)) c (timer2_exec MC g m p c)"
  by (cases MC) (simp_all add: Atmega8Timer2_ok Atmega16Timer2_ok)

text \<open>The vectors that a controller can queue: its own, and those of the UART of the ATmega8.\<close>

definition unit_vectors :: "MICROCONTROLLER \<Rightarrow> int set" where
  "unit_vectors MC = chip_vectors (chip_of MC) \<union> {USART_Tx_Complete Atmega8, USART_Rx_Complete Atmega8}"

interpretation timer0: peripheral_unit "timer0_exec MC" "unit_vectors MC" for MC :: MICROCONTROLLER
  using timer0_exec_fails by unfold_locales
    (auto dest: unit_okD [OF timer0_ok] simp: unit_vectors_def)

interpretation timer2: peripheral_unit "timer2_exec MC" "unit_vectors MC" for MC :: MICROCONTROLLER
  using timer2_exec_total by unfold_locales
    (auto dest: unit_okD [OF timer2_ok] simp: unit_vectors_def)

interpretation uart: peripheral_unit uart_exec "unit_vectors MC" for MC :: MICROCONTROLLER
  by unfold_locales
    (auto simp: uart_exec_def unit_vectors_def split: prod.splits dest: AtmegaUART_result)

interpretation ext_int: peripheral_unit "ext_int_exec MC" "unit_vectors MC" for MC :: MICROCONTROLLER
  by unfold_locales
    (auto simp: ext_int_exec_def unit_vectors_def chip_vectors_def split: prod.splits
      dest: AtmegaExtInterrupt0_result)

section \<open>The invariant of a controller\<close>

definition mcu_wf :: "('q \<Rightarrow> u16 list) \<Rightarrow> 'q mcu \<Rightarrow> bool" where
  "mcu_wf pending u \<longleftrightarrow> core_wf (mc_core u) \<and>
     set (pending (mc_irq u)) \<subseteq> word_of_int ` unit_vectors (mc_model u)"

lemma word_of_nat_flash [simp]: "unat (word_of_nat (FLASH_SIZE (chip_of MC) div 2) :: u16) = FLASH_SIZE (chip_of MC) div 2"
  by (cases MC) (simp_all add: Atmega8_def Atmega16_def)

lemma Microcontroller_wf:
  assumes "pending q = []"
  shows "mcu_wf pending (Microcontroller tick_ns q MC freq dev)"
proof -
  have "core_wf (AVRCore_init MC (Flash_init (FLASH_SIZE (chip_of MC) div 2)) (replicate 0x460 0)
     (replicate 0x200 0) (PAGE_SIZE (chip_of MC)) dev)"
    by (rule AVRCore_init_wf) (simp_all add: Flash_init_wf, simp add: Flash_init_def)
  then show ?thesis using assms by (simp add: mcu_wf_def Microcontroller_def Let_def)
qed

lemma ExecutePeripheral_wf:
  assumes "queue_laws Q pending" "mcu_wf pending u" "ExecutePeripheral Q g m u = Inr u'"
  shows "mcu_wf pending u'"
proof -
  define MC where "MC = mc_model u"
  from assms(3) obtain t0 c0 q0 t2 c2 q2 ua c3 q3 ei c4 q4 where
    r: "run_unit Q (timer0_exec MC) g m (mc_timer0 u) (mc_core u) (mc_irq u) = Inr (t0, c0, q0)"
      "run_unit Q (timer2_exec MC) g m (mc_timer2 u) c0 q0 = Inr (t2, c2, q2)"
      "run_unit Q uart_exec g m (mc_uart u) c2 q2 = Inr (ua, c3, q3)"
      "run_unit Q (ext_int_exec MC) g m (mc_ext u) c3 q3 = Inr (ei, c4, q4)"
    and u': "mc_core u' = c4" "mc_irq u' = q4" "mc_model u' = MC"
    unfolding ExecutePeripheral_def Let_def MC_def by (auto simp: split_beta)
  have "core_wf c4 = core_wf (mc_core u)"
    using timer0.run_wf [OF r(1)] timer2.run_wf [OF r(2)] uart.run_wf [OF r(3)] ext_int.run_wf [OF r(4)]
    by simp
  moreover have "set (pending q4) \<subseteq> set (pending (mc_irq u)) \<union> word_of_int ` unit_vectors MC"
    using timer0.run_pending [OF assms(1) r(1)] timer2.run_pending [OF assms(1) r(2)]
      uart.run_pending [OF assms(1) r(3), of MC] ext_int.run_pending [OF assms(1) r(4)]
    by blast
  ultimately show ?thesis using assms(2) by (auto simp: mcu_wf_def u' MC_def)
qed

lemma ExecutePeripheral_fails: "ExecutePeripheral Q g m u = Inl e \<Longrightarrow> e = AssertFailed"
  unfolding ExecutePeripheral_def Let_def
  by (auto simp: bindE_Inl_iff split_beta
      dest: timer0.run_fails timer2.run_fails uart.run_fails ext_int.run_fails)

lemma core_wf_outs [simp]: "core_wf (c\<lparr>c_outs := os\<rparr>) = core_wf c" "core_wf (c\<lparr>c_mstate := b\<rparr>) = core_wf c"
  by (simp_all add: core_wf_def)

lemma CoreStep_wf:
  assumes "queue_laws Q pending" "mcu_wf pending u" "CoreStep Q u = Inr (d, u')"
  shows "mcu_wf pending u'"
  using assms(2,3) queue_pop_set [OF assms(1), of "mc_irq u"] unfolding mcu_wf_def CoreStep_def Let_def
  by (fastforce simp: split_beta split: if_splits dest: Step_wf)

lemma SetMedium_wf: "mcu_wf pending u \<Longrightarrow> mcu_wf pending (SetMedium u)"
  by (simp add: mcu_wf_def SetMedium_def)

section \<open>Loading a program\<close>

lemma store_words_flash_wf:
  "store_words i len offset p fl = Inr (q, fl') \<Longrightarrow> flash_wf fl \<Longrightarrow> flash_wf fl'"
proof (induction i len offset p fl arbitrary: q fl' rule: store_words.induct)
  case (1 i len offset p fl)
  from 1(2,3) show ?case
    by (subst (asm) store_words.simps) (auto split: if_splits dest!: 1(1) Flash_Store_wf)
qed

lemma hex_read_step_flash:
  assumes "hex_read_step s = Inr r" "flash_wf (rd_flash s)"
  shows "case r of Inl t \<Rightarrow> flash_wf (rd_flash t) \<and> length (rd_flash t) = length (rd_flash s)
    | Inr fl \<Rightarrow> flash_wf fl \<and> length fl = length (rd_flash s)"
  using assms
  by (cases "rd_state s")
    (auto simp: hex_read_step_def Let_def split: if_splits dest: store_words_flash_wf store_words_length)

lemma hex_read_loop_flash:
  "hex_read_loop s = Inr fl \<Longrightarrow> flash_wf (rd_flash s) \<Longrightarrow> flash_wf fl \<and> length fl = length (rd_flash s)"
proof (induction s rule: hex_read_loop.induct)
  case (1 s)
  obtain r where r: "hex_read_step s = Inr r"
    using 1(2) by (subst (asm) hex_read_loop.simps) (auto split: sum.splits)
  show ?case
    using hex_read_step_flash [OF r 1(3)] 1 r
    by (cases r) (auto simp: hex_read_loop.simps [of s])
qed

lemma LoadFlash_wf:
  assumes "mcu_wf pending u" "c_mc (mc_core u) = mc_model u" "LoadFlash file u = Inr u'"
  shows "mcu_wf pending u'"
proof -
  obtain hp hp' fl fl' where "HexParserFlash_Read hp (c_flash (mc_core u)) = Inr (hp', fl)"
    and d: "Decode 0 (word_of_nat (FLASH_SIZE (chip_of (mc_model u)) div 2)) fl = Inr fl'"
    and u': "u' = u\<lparr>mc_core := (mc_core u)\<lparr>c_flash := fl'\<rparr>\<rparr>"
    using assms(3) by (auto simp: LoadFlash_def)
  then have "flash_wf fl \<and> length fl = length (c_flash (mc_core u))"
    using hex_read_loop_flash assms(1)
    by (fastforce simp: HexParserFlash_Read_def mapE_Inr_iff mcu_wf_def core_wf_def)
  then show ?thesis
    using Decode_wf [OF d] Decode_length [OF d] assms(1,2) by (auto simp: u' mcu_wf_def core_wf_def)
qed

text \<open>
  Loading a program: for a HEX file of data records that fit into the program memory,
  \<open>LoadFlash\<close> succeeds on every well-formed controller and leaves each cell holding the last word
  written to its address, or its old word, with the opcode and size of the decoder.
\<close>

theorem load_flash:
  assumes "mcu_wf pending u" "c_mc (mc_core u) = mc_model u" "chr_newline \<notin> set trailer"
    and "\<forall>r \<in> set rs. record_ok r \<and> record_fits (length (c_flash (mc_core u))) r"
  shows "LoadFlash (Some (enc_file rs trailer)) u =
    Inr (u\<lparr>mc_core := (mc_core u)\<lparr>c_flash := map decode_cell (fold load_record rs (c_flash (mc_core u)))\<rparr>\<rparr>)"
proof -
  obtain hp where hp: "HexParser_init (Some (enc_file rs trailer)) = Inr hp"
    by (simp add: HexParser_init_def)
  define fl where "fl = fold load_record rs (c_flash (mc_core u))"
  have "length (fold load_record rs fl0) = length fl0" for fl0 by (induction rs arbitrary: fl0) simp_all
  then have len: "length fl = FLASH_SIZE (chip_of (mc_model u)) div 2"
    using assms(1,2) by (simp add: mcu_wf_def core_wf_def fl_def)
  have "HexParserFlash_Read hp (c_flash (mc_core u)) = Inr (hp, fl)"
    unfolding fl_def by (rule HexParserFlash_Read_records [OF assms(4,3) hp])
  moreover have "Decode 0 (word_of_nat (FLASH_SIZE (chip_of (mc_model u)) div 2)) fl = Inr (map decode_cell fl)"
    using len by (simp add: Decode_Inr decoded_def list_eq_iff_nth_eq)
  ultimately show ?thesis using hp by (simp add: LoadFlash_def fl_def)
qed

lemma load_flash_witness:
  "\<exists>u'. LoadFlash (Some (enc_file [(2, [0xE00F, 0x9508], [0x35, 0x31])] [0x46]))
       (Microcontroller (\<lambda>_. 62) ([] :: u16 list) MC_ATMEGA8 16000000 1) = Inr u' \<and>
     c_flash (mc_core u') =
       map decode_cell (load_record (2, [0xE00F, 0x9508], [0x35, 0x31]) (Flash_init 0x1000))"
proof -
  define u where "u = Microcontroller (\<lambda>_. 62) ([] :: u16 list) MC_ATMEGA8 16000000 1"
  have wf: "mcu_wf id u" unfolding u_def by (rule Microcontroller_wf) simp
  have fl: "c_flash (mc_core u) = Flash_init 0x1000" "c_mc (mc_core u) = mc_model u"
    by (simp_all add: u_def Microcontroller_def Let_def AVRCore_init_def Atmega8_def)
  then show ?thesis
    using load_flash [OF wf, of "[0x46]" "[(2, [0xE00F, 0x9508], [0x35, 0x31])]"]
    by (simp add: u_def [symmetric] Flash_init_def del: load_record.simps)
qed

end
