(* ===== verification/Sim_System.thy ===== *)
theory Sim_System
  imports Sim_Mc
begin

text \<open>
  The whole simulator: class \<open>Medium\<close> of \<open>sim/include/sim/medium.h\<close> and \<open>sim/src/medium.cpp\<close>. A
  controller is known to the medium by its address, here a natural number; the controllers
  themselves are in a store. \<open>running_\<close> is a field; the two threads are the steps \<open>medium_iter\<close>
  and \<open>core_iter\<close>, one pass of the loops of \<open>MediumProc\<close> and \<open>CoreProc\<close>. The handshake that keeps
  them out while the list of controllers changes is modelled in \<open>Sim_Pause\<close>.
\<close>

section \<open>The list of controllers\<close>

text \<open>\<open>controllers_\<close>, an array of 10 pointers, and \<open>controllers_count_\<close>.\<close>

record registry =
  controllers :: "nat option list"
  controllers_count :: nat

definition registry_init :: registry where
  "registry_init = \<lparr>controllers = replicate 10 None, controllers_count = 0\<rparr>"

definition add_controller :: "nat \<Rightarrow> registry \<Rightarrow> sim_error + registry" where
  "add_controller p r =
     (if controllers_count r < length (controllers r)
      then Inr (r\<lparr>controllers := (controllers r)[controllers_count r := Some p],
                  controllers_count := controllers_count r + 1\<rparr>)
      else Inl UndefinedBehaviour)"

text \<open>\<open>std::find\<close>: the index of the first element, or the length.\<close>

fun find_index :: "'a \<Rightarrow> 'a list \<Rightarrow> nat" where
  "find_index x [] = 0"
| "find_index x (y # ys) = (if x = y then 0 else Suc (find_index x ys))"

text \<open>
  \<open>std::copy(std::next(founded), end, founded)\<close> moves the elements behind one to the left and
  leaves the last one where it was.
\<close>

definition shift_left :: "nat \<Rightarrow> 'a list \<Rightarrow> 'a list" where
  "shift_left i xs = take i xs @ drop (Suc i) xs @ [last xs]"

text \<open>\<open>controllers_count_\<close> is a \<open>size_t\<close>.\<close>

definition remove_controller :: "nat \<Rightarrow> registry \<Rightarrow> bool \<times> registry" where
  "remove_controller p r =
     (let founded = find_index (Some p) (controllers r)
      in if founded = length (controllers r) then (False, r)
         else (True, r\<lparr>controllers := shift_left founded (controllers r),
                       controllers_count := nat ((int (controllers_count r) - 1) mod 2 ^ 64)\<rparr>))"

text \<open>The controllers that the threads visit, in their order.\<close>

definition registered :: "registry \<Rightarrow> nat option list" where
  "registered r = take (controllers_count r) (controllers r)"

definition registry_wf :: "nat list \<Rightarrow> registry \<Rightarrow> bool" where
  "registry_wf ps r \<longleftrightarrow> length ps \<le> 10 \<and> distinct ps \<and> controllers_count r = length ps \<and>
     controllers r = map Some ps @ replicate (10 - length ps) None"

lemma registry_init_wf: "registry_wf [] registry_init"
  by (simp add: registry_wf_def registry_init_def)

lemma registered_wf: "registry_wf ps r \<Longrightarrow> registered r = map Some ps"
  by (simp add: registry_wf_def registered_def)

lemma add_controller_wf:
  assumes "registry_wf ps r" "p \<notin> set ps" "length ps < 10"
  shows "\<exists>r'. add_controller p r = Inr r' \<and> registry_wf (ps @ [p]) r'"
  using assms
  by (auto simp: registry_wf_def add_controller_def list_update_append replicate_Suc
      simp flip: Suc_diff_Suc)

lemma find_index_notin: "x \<notin> set xs \<Longrightarrow> find_index x (xs @ ys) = length xs + find_index x ys"
  by (induction xs) auto

lemma find_index_length: "find_index x xs = length xs \<longleftrightarrow> x \<notin> set xs"
  by (induction xs) auto

lemma remove_controller_wf:
  assumes "registry_wf ps r" "length ps < 10"
  shows "fst (remove_controller p r) \<longleftrightarrow> p \<in> set ps"
    "registry_wf (remove1 p ps) (snd (remove_controller p r))"
proof -
  have c: "controllers r = map Some ps @ replicate (10 - length ps) None" "controllers_count r = length ps"
    using assms(1) by (simp_all add: registry_wf_def)
  have "p \<notin> set ps \<Longrightarrow> find_index (Some p) (controllers r) = length (controllers r)"
    using find_index_length [of "Some p" "controllers r"] by (auto simp: c)
  moreover have "fst (remove_controller p r) \<and> registry_wf (remove1 p ps) (snd (remove_controller p r))" if "p \<in> set ps"
  proof -
    obtain as bs where ps: "ps = as @ p # bs" "p \<notin> set as" using split_list_first [OF \<open>p \<in> set ps\<close>] by blast
    have "find_index (Some p) (controllers r) = length as"
      using find_index_notin [of "Some p" "map Some as"] ps by (auto simp: c image_iff)
    moreover have "int (length ps) - 1 = int (length ps - 1)" using ps by simp
    moreover have "shift_left (length as) (controllers r) = map Some (as @ bs) @ replicate (10 - length (as @ bs)) None"
    proof -
      obtain k where k: "10 - length ps = Suc k" using assms(2) by (metis Suc_diff_Suc)
      then have "10 - length (as @ bs) = Suc (Suc k)" using ps by simp
      then show ?thesis by (simp add: shift_left_def c k) (simp add: ps replicate_append_same)
    qed
    ultimately show ?thesis
      using assms ps
      by (simp add: remove_controller_def registry_wf_def c remove1_append Let_def nat_mod_as_int)
  qed
  ultimately show "fst (remove_controller p r) \<longleftrightarrow> p \<in> set ps"
    "registry_wf (remove1 p ps) (snd (remove_controller p r))"
    using assms(1) by (cases "p \<in> set ps"; simp add: remove_controller_def remove1_idem)+
qed

text \<open>
  C13. The array and the counter implement a list of controllers: as long as there are fewer than
  ten, adding appends, removing takes the controller out and keeps the order of the others, and
  says whether it was there.
\<close>

theorem registry_refines:
  assumes "registry_wf ps r" "length ps < 10"
  shows "(p \<notin> set ps \<longrightarrow> (\<exists>r'. add_controller p r = Inr r' \<and> registry_wf (ps @ [p]) r')) \<and>
    (fst (remove_controller p r) \<longleftrightarrow> p \<in> set ps) \<and>
    registry_wf (remove1 p ps) (snd (remove_controller p r))"
  using add_controller_wf [OF assms(1) _ assms(2)] remove_controller_wf [OF assms] by simp

lemma registry_refines_witness:
  "\<exists>r. add_controller 5 registry_init = Inr r \<and> registry_wf [5] r"
  using registry_refines [OF registry_init_wf, of 5] by simp

text \<open>
  With ten controllers removal breaks the list: the last element of the array is not cleared,
  so after the tenth controller has been removed, removing it once more succeeds, and the counter
  goes down to eight: a controller that is still registered is no longer visited.
\<close>

theorem registry_full_wrong:
  assumes "registry_wf ps r" "length ps = 10" "p = last ps"
  shows "registered (snd (remove_controller p r)) = map Some (take 9 ps) \<and>
    fst (remove_controller p (snd (remove_controller p r))) \<and>
    registered (snd (remove_controller p (snd (remove_controller p r)))) = map Some (take 8 ps)"
proof -
  have c: "controllers r = map Some ps" "controllers_count r = 10"
    using assms(1,2) by (simp_all add: registry_wf_def)
  define as where "as = butlast ps"
  have "ps \<noteq> []" using assms(2) by auto
  then have ps: "ps = as @ [p]" "length as = 9"
    using assms(2,3) append_butlast_last_id [of ps] by (simp_all add: as_def)
  have "p \<notin> set as" using assms(1) ps by (simp add: registry_wf_def)
  then have "find_index (Some p) (map Some as @ [Some p]) = 9"
    using find_index_notin [of "Some p" "map Some as"] ps by (auto simp: image_iff)
  then show ?thesis
    using ps c by (simp add: remove_controller_def Let_def shift_left_def registered_def take_map)
qed

lemma registry_full_wrong_witness:
  "registered (snd (remove_controller 9 (snd (remove_controller 9
     \<lparr>controllers = map Some [0, 1, 2, 3, 4, 5, 6, 7, 8, 9], controllers_count = 10\<rparr>)))) =
   map Some [0, 1, 2, 3, 4, 5, 6, 7]"
  using registry_full_wrong
    [of "[0, 1, 2, 3, 4, 5, 6, 7, 8, 9]"
      "\<lparr>controllers = map Some [0, 1, 2, 3, 4, 5, 6, 7, 8, 9], controllers_count = 10\<rparr>" 9]
  by (simp add: registry_wf_def)

section \<open>The system and its steps\<close>

record 'q sim =
  s_medium :: MediumState
  s_registry :: registry
  s_running :: bool
  s_store :: "nat \<Rightarrow> 'q mcu option"

definition Medium_init :: "u8 \<Rightarrow> (nat \<Rightarrow> 'q mcu option) \<Rightarrow> 'q sim" where
  "Medium_init byte store =
     \<lparr>s_medium = MediumState_init byte, s_registry = registry_init, s_running = False, s_store = store\<rparr>"

text \<open>A controller behind a pointer; one that does not exist (any more) is undefined behaviour.\<close>

definition mcu_at :: "'q sim \<Rightarrow> nat option \<Rightarrow> sim_error + nat \<times> 'q mcu" where
  "mcu_at s ptr =
     (case ptr of None \<Rightarrow> Inl UndefinedBehaviour
      | Some p \<Rightarrow> (case s_store s p of None \<Rightarrow> Inl UndefinedBehaviour | Some u \<Rightarrow> Inr (p, u)))"

definition AddController :: "nat \<Rightarrow> 'q sim \<Rightarrow> sim_error + 'q sim" where
  "AddController p s =
     bindE (add_controller p (s_registry s)) (\<lambda>r.
     bindE (mcu_at s (Some p)) (\<lambda>(p, u).
       Inr (s\<lparr>s_registry := r, s_store := (s_store s)(p \<mapsto> SetMedium u), s_running := True\<rparr>)))"

definition RemoveController :: "nat \<Rightarrow> 'q sim \<Rightarrow> bool \<times> 'q sim" where
  "RemoveController p s =
     (let (found, r) = remove_controller p (s_registry s)
      in if \<not> found then (False, s)
         else (True, s\<lparr>s_registry := r, s_running := s_running s \<and> controllers_count r \<noteq> 0\<rparr>))"

fun run_peripherals :: "'q queue_ops \<Rightarrow> u64 \<Rightarrow> nat option list \<Rightarrow> 'q sim \<Rightarrow> sim_error + 'q sim" where
  "run_peripherals Q d [] s = Inr s"
| "run_peripherals Q d (ptr # ptrs) s =
     bindE (mcu_at s ptr) (\<lambda>(p, u).
     bindE (ExecutePeripheral Q d (s_medium s) u) (\<lambda>u.
       run_peripherals Q d ptrs (s\<lparr>s_store := (s_store s)(p \<mapsto> u)\<rparr>)))"

definition medium_iter :: "'q queue_ops \<Rightarrow> u64 \<Rightarrow> 'q sim \<Rightarrow> sim_error + 'q sim" where
  "medium_iter Q d s =
     bindE (medium_run d (s_medium s)) (\<lambda>m.
       run_peripherals Q d (registered (s_registry s)) (s\<lparr>s_medium := m\<rparr>))"

text \<open>What a core handed to the medium during its step.\<close>

fun put_effects :: "effect list \<Rightarrow> MediumState \<Rightarrow> MediumState" where
  "put_effects [] m = m"
| "put_effects (UartPut byte dev # es) m = put_effects es (uart_put_byte byte m)"
| "put_effects (_ # es) m = put_effects es m"

fun run_cores :: "'q queue_ops \<Rightarrow> nat option list \<Rightarrow> 'q sim \<Rightarrow> sim_error + 'q sim" where
  "run_cores Q [] s = Inr s"
| "run_cores Q (ptr # ptrs) s =
     bindE (mcu_at s ptr) (\<lambda>(p, u).
     bindE (CoreStep Q u) (\<lambda>(_, u).
       run_cores Q ptrs (s\<lparr>s_store := (s_store s)(p \<mapsto> u),
                         s_medium := put_effects (c_outs (mc_core u)) (s_medium s)\<rparr>)))"

definition core_iter :: "'q queue_ops \<Rightarrow> 'q sim \<Rightarrow> sim_error + 'q sim" where
  "core_iter Q s = run_cores Q (registered (s_registry s)) s"

text \<open>
  One step of the program: the client adds a controller that is not yet there, up to nine of them,
  or removes one, or one of the threads makes a pass.
\<close>

inductive sim_step :: "'q queue_ops \<Rightarrow> 'q sim \<Rightarrow> 'q sim \<Rightarrow> bool" for Q where
  Add: "Some p \<notin> set (registered (s_registry s)) \<Longrightarrow> length (registered (s_registry s)) < 9 \<Longrightarrow>
    AddController p s = Inr s' \<Longrightarrow> sim_step Q s s'"
| Remove: "RemoveController p s = (found, s') \<Longrightarrow> sim_step Q s s'"
| Medium_pass: "s_running s \<Longrightarrow> medium_iter Q d s = Inr s' \<Longrightarrow> sim_step Q s s'"
| Core_pass: "s_running s \<Longrightarrow> core_iter Q s = Inr s' \<Longrightarrow> sim_step Q s s'"

inductive_cases sim_stepE: "sim_step Q s s'"

section \<open>The invariant of the system\<close>

definition sim_wf :: "('q \<Rightarrow> u16 list) \<Rightarrow> 'q sim \<Rightarrow> bool" where
  "sim_wf pending s \<longleftrightarrow> medium_wf (s_medium s) \<and>
     (\<forall>p u. s_store s p = Some u \<longrightarrow> mcu_wf pending u) \<and>
     (\<exists>ps. registry_wf ps (s_registry s) \<and> length ps < 10 \<and> set ps \<subseteq> dom (s_store s)) \<and>
     (s_running s \<longleftrightarrow> registered (s_registry s) \<noteq> [])"

lemma sim_wfD:
  assumes "sim_wf pending s"
  obtains ps where "registry_wf ps (s_registry s)" "length ps < 10" "set ps \<subseteq> dom (s_store s)"
    "registered (s_registry s) = map Some ps" "s_running s \<longleftrightarrow> ps \<noteq> []"
  using assms registered_wf by (fastforce simp: sim_wf_def)

lemma put_effects_wf: "medium_wf m \<Longrightarrow> medium_wf (put_effects es m)"
  by (induction es m rule: put_effects.induct) (auto intro: uart_put_byte_wf)

lemma run_peripherals_frame:
  "run_peripherals Q d ptrs s = Inr s' \<Longrightarrow>
   s_medium s' = s_medium s \<and> s_registry s' = s_registry s \<and> s_running s' = s_running s \<and>
   dom (s_store s) \<subseteq> dom (s_store s')"
  by (induction Q d ptrs s rule: run_peripherals.induct) (fastforce simp: mcu_at_def split: option.splits)+

lemma run_cores_frame:
  "run_cores Q ptrs s = Inr s' \<Longrightarrow>
   s_registry s' = s_registry s \<and> s_running s' = s_running s \<and> dom (s_store s) \<subseteq> dom (s_store s')"
  by (induction Q ptrs s rule: run_cores.induct) (fastforce simp: mcu_at_def split: option.splits)+

definition all_wf :: "('q \<Rightarrow> u16 list) \<Rightarrow> 'q sim \<Rightarrow> bool" where
  "all_wf pending s \<longleftrightarrow> (\<forall>p u. s_store s p = Some u \<longrightarrow> mcu_wf pending u)"

lemma all_wf_upd:
  "all_wf pending s \<Longrightarrow> mcu_wf pending u \<Longrightarrow> all_wf pending (s\<lparr>s_store := (s_store s)(p \<mapsto> u)\<rparr>)"
  "all_wf pending (s\<lparr>s_medium := m\<rparr>) = all_wf pending s"
  "all_wf pending s \<Longrightarrow> mcu_at s ptr = Inr (p, u) \<Longrightarrow> mcu_wf pending u"
  by (auto simp: all_wf_def mcu_at_def split: option.splits)

lemma run_peripherals_wf:
  assumes "queue_laws Q pending"
  shows "run_peripherals Q d ptrs s = Inr s' \<Longrightarrow> all_wf pending s \<Longrightarrow> all_wf pending s'"
proof (induction ptrs arbitrary: s)
  case (Cons ptr ptrs)
  then obtain p u u' where u: "mcu_at s ptr = Inr (p, u)" "ExecutePeripheral Q d (s_medium s) u = Inr u'"
    and run: "run_peripherals Q d ptrs (s\<lparr>s_store := (s_store s)(p \<mapsto> u')\<rparr>) = Inr s'"
    by auto
  have "mcu_wf pending u'"
    by (rule ExecutePeripheral_wf [OF assms all_wf_upd(3) [OF Cons.prems(2) u(1)] u(2)])
  then show ?case by (intro Cons.IH [OF run] all_wf_upd(1) [OF Cons.prems(2)])
qed simp

lemma run_cores_wf:
  assumes "queue_laws Q pending"
  shows "run_cores Q ptrs s = Inr s' \<Longrightarrow> all_wf pending s \<Longrightarrow> medium_wf (s_medium s) \<Longrightarrow>
    all_wf pending s' \<and> medium_wf (s_medium s')"
proof (induction ptrs arbitrary: s)
  case (Cons ptr ptrs)
  then obtain p u n u' where u: "mcu_at s ptr = Inr (p, u)" "CoreStep Q u = Inr (n, u')"
    and run: "run_cores Q ptrs (s\<lparr>s_store := (s_store s)(p \<mapsto> u'),
      s_medium := put_effects (c_outs (mc_core u')) (s_medium s)\<rparr>) = Inr s'"
    by auto
  have "mcu_wf pending u'"
    by (rule CoreStep_wf [OF assms all_wf_upd(3) [OF Cons.prems(2) u(1)] u(2)])
  then have "all_wf pending (s\<lparr>s_store := (s_store s)(p \<mapsto> u'),
      s_medium := put_effects (c_outs (mc_core u')) (s_medium s)\<rparr>)"
    using all_wf_upd(1) [OF Cons.prems(2)] by (simp add: all_wf_upd(2))
  then show ?case using put_effects_wf [OF Cons.prems(3)] by (intro Cons.IH [OF run]) simp_all
qed simp

lemma run_peripherals_fails:
  assumes "set ps \<subseteq> dom (s_store s)" "run_peripherals Q d (map Some ps) s = Inl e"
  shows "e = AssertFailed"
  using assms
proof (induction ps arbitrary: s)
  case (Cons p ps)
  then obtain u where u: "s_store s p = Some u" by auto
  show ?case
  proof (cases "ExecutePeripheral Q d (s_medium s) u")
    case (Inl e')
    then show ?thesis using Cons.prems u ExecutePeripheral_fails by (auto simp: mcu_at_def)
  next
    case (Inr u')
    then show ?thesis using Cons.prems u by (intro Cons.IH [of "s\<lparr>s_store := (s_store s)(p \<mapsto> u')\<rparr>"]) (auto simp: mcu_at_def)
  qed
qed simp

lemma sim_wf_alt:
  "sim_wf pending s \<longleftrightarrow> medium_wf (s_medium s) \<and> all_wf pending s \<and>
     (\<exists>ps. registry_wf ps (s_registry s) \<and> length ps < 10 \<and> set ps \<subseteq> dom (s_store s)) \<and>
     (s_running s \<longleftrightarrow> registered (s_registry s) \<noteq> [])"
  by (simp add: sim_wf_def all_wf_def)

lemma sim_step_wf:
  assumes "queue_laws Q pending" "sim_step Q s s'" "sim_wf pending s"
  shows "sim_wf pending s'"
proof -
  obtain ps where ps: "registry_wf ps (s_registry s)" "length ps < 10" "set ps \<subseteq> dom (s_store s)"
    "registered (s_registry s) = map Some ps" "s_running s \<longleftrightarrow> ps \<noteq> []"
    using sim_wfD [OF assms(3)] .
  note wf = assms(3) [unfolded sim_wf_alt]
  from assms(2) show ?thesis
  proof cases
    case (Add p)
    then obtain r u where r: "add_controller p (s_registry s) = Inr r" "s_store s p = Some u"
      and s': "s' = s\<lparr>s_registry := r, s_store := (s_store s)(p \<mapsto> SetMedium u), s_running := True\<rparr>"
      by (auto simp: AddController_def mcu_at_def split: option.splits)
    have "p \<notin> set ps" "length ps < 9" using Add(1,2) ps(4) by auto
    then have "registry_wf (ps @ [p]) r" using add_controller_wf [OF ps(1) \<open>p \<notin> set ps\<close> ps(2)] r(1) by auto
    moreover have "mcu_wf pending (SetMedium u)" using wf r(2) by (auto simp: all_wf_def intro: SetMedium_wf)
    ultimately show ?thesis
      using wf ps(3) r(2) \<open>length ps < 9\<close> registered_wf [of "ps @ [p]" r]
      by (auto simp: sim_wf_alt all_wf_def s' intro!: exI [of _ "ps @ [p]"])
  next
    case (Remove p found)
    obtain b r where r: "remove_controller p (s_registry s) = (b, r)" by (cases "remove_controller p (s_registry s)")
    have rm: "registry_wf (remove1 p ps) r"
      using remove_controller_wf(2) [OF ps(1,2), of p] by (simp add: r)
    show ?thesis
    proof (cases b)
      case False
      then show ?thesis using Remove assms(3) by (simp add: RemoveController_def r)
    next
      case True
      then have s': "s' = s\<lparr>s_registry := r, s_running := s_running s \<and> controllers_count r \<noteq> 0\<rparr>"
        using Remove by (simp add: RemoveController_def r)
      have "length (remove1 p ps) < 10" "set (remove1 p ps) \<subseteq> dom (s_store s)"
        using ps(2,3) length_remove1 [of p ps] set_remove1_subset [of p ps] by auto
      moreover have "remove1 p ps \<noteq> [] \<Longrightarrow> ps \<noteq> []" by auto
      moreover have "controllers_count r = length (remove1 p ps)" using rm by (simp add: registry_wf_def)
      ultimately show ?thesis
        using wf rm registered_wf [OF rm] ps(4) unfolding s' sim_wf_alt
        by (auto simp: all_wf_def simp del: remove1.simps)
    qed
  next
    case (Medium_pass d)
    then obtain m where m: "medium_run d (s_medium s) = Inr m"
      and run: "run_peripherals Q d (registered (s_registry s)) (s\<lparr>s_medium := m\<rparr>) = Inr s'"
      by (auto simp: medium_iter_def)
    have "all_wf pending s'"
      using run_peripherals_wf [OF assms(1) run] wf by (simp add: all_wf_upd)
    then show ?thesis
      using run_peripherals_frame [OF run] medium_run_wf [OF m] wf by (fastforce simp: sim_wf_alt)
  next
    case Core_pass
    then show ?thesis
      using run_cores_wf [OF assms(1)] run_cores_frame wf by (fastforce simp: sim_wf_alt core_iter_def)
  qed
qed

lemma sim_steps_wf:
  assumes "(sim_step Q)\<^sup>*\<^sup>* s s'" "queue_laws Q pending" "sim_wf pending s"
  shows "sim_wf pending s'"
  using assms by (induction rule: rtranclp_induct) (auto intro: sim_step_wf)

lemma Medium_init_wf:
  assumes "\<forall>p u. store p = Some u \<longrightarrow> mcu_wf pending u"
  shows "sim_wf pending (Medium_init b store)"
  using assms registry_init_wf MediumState_init_wf
  by (auto simp: sim_wf_def Medium_init_def registered_def registry_init_def intro!: exI [of _ "[]"])


text \<open>A queue that meets the laws: a list cut at 16.\<close>

definition list_queue :: "u16 list queue_ops" where
  "list_queue = \<lparr>q_push = (\<lambda>q v. if length q < 16 then q @ [v] else q),
     q_pop = (\<lambda>q. case q of [] \<Rightarrow> (None, []) | v # vs \<Rightarrow> (Some v, vs))\<rparr>"

lemma list_queue_laws: "queue_laws list_queue id"
  by (simp add: queue_laws_def list_queue_def)


section \<open>A byte reaches the other controllers\<close>

text \<open>What the timers leave alone.\<close>

lemma gr8_ev [simp]: "gr8 (c\<lparr>c_ev := e\<rparr>) n = gr8 c n"
  by (simp add: gr8_def)


lemma timer0_frame:
  "timer0_exec MC g m p c = Inr (r, p', c') \<Longrightarrow> n \<notin> {TIFR, TCNT0} \<Longrightarrow> core_wf c \<Longrightarrow>
   gr8 c' n = gr8 c n \<and> tx_in_progress (c_ev c') = tx_in_progress (c_ev c)"
  by (cases MC; auto simp: Atmega8Timer0_Execute_def Atmega16Timer0_Execute_def Let_def timer_event_def
      gr8_set_gr8 core_wf_sram split: if_splits prod.splits)

lemma timer2_frame:
  "timer2_exec MC g m p c = Inr (r, p', c') \<Longrightarrow> n \<notin> {TIFR, TCNT2} \<Longrightarrow> core_wf c \<Longrightarrow>
   gr8 c' n = gr8 c n \<and> tx_in_progress (c_ev c') = tx_in_progress (c_ev c)"
  by (cases MC; auto simp: Atmega8Timer2_Execute_def Atmega16Timer2_Execute_def Let_def timer_event_def
      gr8_set_gr8 core_wf_sram split: if_splits prod.splits)

text \<open>What the external interrupt leaves alone.\<close>

lemma ext_int_frame:
  "ext_int_exec MC g m p c = Inr (r, p', c') \<Longrightarrow> core_wf c \<Longrightarrow> gr8 c' UDR = gr8 c UDR"
  by (auto simp: ext_int_exec_def AtmegaExtInterrupt0_Execute_def Let_def gr8_set_gr8 core_wf_sram
      split: if_splits prod.splits)

lemma run_unitE:
  assumes "run_unit Q execute g m p c q = Inr (p', c', q')"
  obtains r where "execute g m p c = Inr (r, p', c')" "q' = (if r \<noteq> -1 then q_push Q q (word_of_int r) else q)"
  using assms by (auto simp: run_unit_def)

text \<open>The vectors that are pending before those that this pass adds stay pending.\<close>

lemma queue_push_keeps:
  "queue_laws Q pending \<Longrightarrow> set (pending q) \<subseteq> set (pending (q_push Q q v))"
  "queue_laws Q pending \<Longrightarrow> length (pending (q_push Q q v)) \<le> Suc (length (pending q))"
  "queue_laws Q pending \<Longrightarrow> length (pending q) < 16 \<Longrightarrow> v \<in> set (pending (q_push Q q v))"
  by (auto simp: queue_laws_def)

lemma ExecutePeripheral_receives:
  assumes "queue_laws Q pending" "core_wf (mc_core u)" "length (pending (mc_irq u)) < 14"
    and "bit (gr8 (mc_core u) UCSRB) RXEN" "\<not> tx_in_progress (c_ev (mc_core u))"
    and "uart_get_sended_byte m = Some b" "ExecutePeripheral Q g m u = Inr u'"
  shows "gr8 (mc_core u') UDR = b \<and>
    word_of_int (USART_Rx_Complete Atmega8) \<in> set (pending (mc_irq u'))"
proof -
  define MC where "MC = mc_model u"
  from assms(7) obtain t0 c0 q0 t2 c2 q2 ua c3 q3 ei c4 q4 where
    r: "run_unit Q (timer0_exec MC) g m (mc_timer0 u) (mc_core u) (mc_irq u) = Inr (t0, c0, q0)"
      "run_unit Q (timer2_exec MC) g m (mc_timer2 u) c0 q0 = Inr (t2, c2, q2)"
      "run_unit Q uart_exec g m (mc_uart u) c2 q2 = Inr (ua, c3, q3)"
      "run_unit Q (ext_int_exec MC) g m (mc_ext u) c3 q3 = Inr (ei, c4, q4)"
    and u': "mc_core u' = c4" "mc_irq u' = q4"
    unfolding ExecutePeripheral_def Let_def MC_def by (auto simp: split_beta)
  have wf: "core_wf c0" "core_wf c2" "core_wf c3"
    using assms(2) timer0.run_wf [OF r(1)] timer2.run_wf [OF r(2)] uart.run_wf [OF r(3)] by simp_all
  obtain r0 r2 where x: "timer0_exec MC g m (mc_timer0 u) (mc_core u) = Inr (r0, t0, c0)"
      "timer2_exec MC g m (mc_timer2 u) c0 = Inr (r2, t2, c2)"
    and q: "q0 = (if r0 \<noteq> -1 then q_push Q (mc_irq u) (word_of_int r0) else mc_irq u)"
      "q2 = (if r2 \<noteq> -1 then q_push Q q0 (word_of_int r2) else q0)"
    using run_unitE [OF r(1)] run_unitE [OF r(2)] by metis
  have regs: "gr8 c2 UCSRB = gr8 (mc_core u) UCSRB" "tx_in_progress (c_ev c2) = tx_in_progress (c_ev (mc_core u))"
    using timer0_frame [OF x(1), of UCSRB] timer2_frame [OF x(2), of UCSRB] assms(2) wf by simp_all
  have "length (pending q0) \<le> Suc (length (pending (mc_irq u)))" "length (pending q2) \<le> Suc (length (pending q0))"
    using queue_push_keeps(2) [OF assms(1)] by (simp_all add: q le_SucI)
  then have room: "length (pending q2) < 16" using assms(3) by simp
  have "c3 = set_gr8 UDR b c2" "q3 = q_push Q q2 (word_of_int (USART_Rx_Complete Atmega8))"
    using r(3) regs assms(4-6)
    by (auto simp: run_unit_def uart_exec_def AtmegaUART_Execute_def Let_def Atmega8_def)
  moreover obtain r4 where x4: "ext_int_exec MC g m (mc_ext u) c3 = Inr (r4, ei, c4)"
      "q4 = (if r4 \<noteq> -1 then q_push Q q3 (word_of_int r4) else q3)"
    using run_unitE [OF r(4)] by metis
  moreover have "word_of_int (USART_Rx_Complete Atmega8) \<in> set (pending q3)"
    unfolding calculation(2) by (rule queue_push_keeps(3) [OF assms(1) room])
  moreover have "set (pending q3) \<subseteq> set (pending q4)"
    using queue_push_keeps(1) [OF assms(1)] by (simp add: x4(2))
  ultimately show ?thesis
    using ext_int_frame [OF x4(1) wf(3)] core_wf_sram [OF wf(2)] by (auto simp: u' gr8_set_gr8)
qed

lemma run_peripherals_at:
  assumes "distinct ps" "p \<in> set ps" "s_store s p = Some u"
    and "run_peripherals Q d (map Some ps) s = Inr s'"
  shows "\<exists>u'. ExecutePeripheral Q d (s_medium s) u = Inr u' \<and> s_store s' p = Some u'"
  using assms
proof (induction ps arbitrary: s)
  case (Cons x ps)
  have keep: "run_peripherals Q d (map Some ys) t = Inr t' \<Longrightarrow> p \<notin> set ys \<Longrightarrow> s_store t' p = s_store t p" for ys t t'
    by (induction ys arbitrary: t) (fastforce simp: mcu_at_def split: option.splits)+
  obtain v v' where v: "s_store s x = Some v" "ExecutePeripheral Q d (s_medium s) v = Inr v'"
    and run: "run_peripherals Q d (map Some ps) (s\<lparr>s_store := (s_store s)(x \<mapsto> v')\<rparr>) = Inr s'"
    using Cons.prems(4) by (auto simp: mcu_at_def split: option.splits)
  show ?case
  proof (cases "x = p")
    case True
    then show ?thesis using v Cons.prems(1,3) keep [OF run] by simp
  next
    case False
    then show ?thesis using Cons.IH [OF _ _ _ run] Cons.prems by simp
  qed
qed simp

text \<open>
  A byte on the line reaches everybody who listens: in the pass of the medium thread in which
  the line shows the byte, every registered controller whose receiver is on and which does not
  itself transmit finds it in \<open>UDR\<close>, with the receive vector pending if its queue had room.
\<close>

theorem byte_reaches_listeners:
  assumes "queue_laws Q pending" "sim_wf pending s" "medium_iter Q d s = Inr s'"
    and "uart_get_sended_byte (s_medium s') = Some b"
    and "Some p \<in> set (registered (s_registry s))" "s_store s p = Some u"
    and "bit (gr8 (mc_core u) UCSRB) RXEN" "\<not> tx_in_progress (c_ev (mc_core u))"
    and "length (pending (mc_irq u)) < 14"
  shows "\<exists>u'. s_store s' p = Some u' \<and> gr8 (mc_core u') UDR = b \<and>
    word_of_int (USART_Rx_Complete Atmega8) \<in> set (pending (mc_irq u'))"
proof -
  obtain m where m: "medium_run d (s_medium s) = Inr m"
    and run: "run_peripherals Q d (registered (s_registry s)) (s\<lparr>s_medium := m\<rparr>) = Inr s'"
    using assms(3) by (auto simp: medium_iter_def)
  obtain ps where ps: "registry_wf ps (s_registry s)" "registered (s_registry s) = map Some ps"
    using assms(2) by (rule sim_wfD)
  have "distinct ps" "p \<in> set ps" using ps assms(5) by (auto simp: registry_wf_def)
  then obtain u' where u': "ExecutePeripheral Q d m u = Inr u'" "s_store s' p = Some u'"
    using run_peripherals_at [of ps p "s\<lparr>s_medium := m\<rparr>" u Q d s'] run assms(6) ps(2) by auto
  have "core_wf (mc_core u)" using assms(2,6) by (auto simp: sim_wf_def mcu_wf_def)
  moreover have "s_medium s' = m" using run_peripherals_frame [OF run] by simp
  ultimately show ?thesis
    using ExecutePeripheral_receives [OF assms(1) _ assms(9,7,8) _ u'(1)] assms(4) u'(2) by blast
qed

definition demo_mcu :: "u16 list mcu" where
  "demo_mcu = (let u = Microcontroller (\<lambda>_. 62) [] MC_ATMEGA8 16000000 1
     in u\<lparr>mc_core := set_gr8 UCSRB (bit8 RXEN) (mc_core u)\<rparr>)"

definition demo_sim :: "u16 list sim" where
  "demo_sim = \<lparr>s_medium = (MediumState_init 0x41)\<lparr>run_state := 3, uart_byte_sending := True\<rparr>,
     s_registry = \<lparr>controllers = Some 7 # replicate 9 None, controllers_count = 1\<rparr>, s_running = True,
     s_store = [7 \<mapsto> demo_mcu]\<rparr>"

lemma Microcontroller_regs:
  "length (c_sram (mc_core (Microcontroller tick_ns q MC freq dev))) = 0x460"
  "n < 0x460 \<Longrightarrow> gr8 (mc_core (Microcontroller tick_ns q MC freq dev)) n = 0"
  "c_ev (mc_core (Microcontroller tick_ns q MC freq dev)) = EventList_init"
  "mc_irq (Microcontroller tick_ns q MC freq dev) = q"
  by (simp_all add: Microcontroller_def Let_def AVRCore_init_def gr8_def del: replicate_Suc)

lemma demo_mcu_regs:
  "mcu_wf id demo_mcu" "mc_irq demo_mcu = []" "\<not> tx_in_progress (c_ev (mc_core demo_mcu))"
  "gr8 (mc_core demo_mcu) UCSRB = bit8 RXEN" "gr8 (mc_core demo_mcu) TCCR0 = 0"
  "gr8 (mc_core demo_mcu) TCCR2 = 0"
proof -
  have "mcu_wf id (Microcontroller (\<lambda>_. 62) [] MC_ATMEGA8 16000000 1)" by (rule Microcontroller_wf) simp
  then show "mcu_wf id demo_mcu" by (simp add: demo_mcu_def mcu_wf_def Let_def)
qed (simp_all add: demo_mcu_def Let_def gr8_set_gr8 Microcontroller_regs EventList_init_def)

lemma demo_sim_wf: "sim_wf id demo_sim"
  using demo_mcu_regs(1)
  by (auto simp: sim_wf_def demo_sim_def MediumState_init_def medium_wf_def registry_wf_def registered_def
      intro!: exI [of _ "[7]"])

lemma byte_reaches_listeners_witness:
  "\<exists>s' u'. medium_iter list_queue 1000 demo_sim = Inr s' \<and> s_store s' 7 = Some u' \<and>
     gr8 (mc_core u') UDR = 0x41"
proof -
  obtain m where m: "medium_run 1000 (s_medium demo_sim) = Inr m" "uart_get_sended_byte m = Some 0x41"
    by (simp add: demo_sim_def MediumState_init_def medium_run_def uart_get_sended_byte_def Let_def)
  have "mc_model demo_mcu = MC_ATMEGA8" by (simp add: demo_mcu_def Microcontroller_def Let_def)
  then obtain u' where "ExecutePeripheral list_queue 1000 m demo_mcu = Inr u'"
    by (simp add: ExecutePeripheral_def Let_def run_unit_def demo_mcu_regs Atmega8Timer0_Execute_def
        Atmega8Timer2_Execute_def clock_select_def uart_exec_def ext_int_exec_def split_beta)
  then obtain s' where s': "medium_iter list_queue 1000 demo_sim = Inr s'" "s_medium s' = m"
    using m(1) by (simp add: medium_iter_def registered_def demo_sim_def mcu_at_def)
  then show ?thesis
    using byte_reaches_listeners [OF list_queue_laws demo_sim_wf s'(1), where b = "0x41" and p = 7 and u = demo_mcu] s'(2) m(2) demo_mcu_regs
    by (auto simp: demo_sim_def registered_def)
qed

end
