(* ===== verification/Sim_Pause.thy ===== *)
theory Sim_Pause
  imports Prelude
begin

text \<open>
  The handshake that stops the two threads of the simulator while the list of controllers changes:
  \<open>pause_execution\<close> and \<open>wait_if_paused\<close> of \<open>sim/include/sim/medium.h\<close>, with the loops of
  \<open>MediumProc\<close> and \<open>CoreProc\<close> of \<open>sim/src/medium.cpp\<close> around them. Each access to the shared
  variables is one step; the steps of the client and of the two threads interleave in every order
  (sequential consistency is assumed of the atomics). The condition variable only spares the client
  from polling: it waits until \<open>cnt_paused_ == 2\<close>, under the mutex that guards the increments.
\<close>

section \<open>States and steps\<close>

text \<open>
  The client is before a call (\<open>Idle\<close>), after \<open>cnt_paused_ = 0\<close> (\<open>Announce\<close>), after
  \<open>paused_ = true\<close> (\<open>Wait\<close>), past the wait and about to run \<open>fn\<close> (\<open>Change\<close>), after \<open>fn\<close> (\<open>Release\<close>).
  A thread is at the test of \<open>paused_\<close> (\<open>Check\<close>), at the increment (\<open>Count\<close>), in the final
  \<open>while\<close> (\<open>Spin\<close>), or past it, where it visits the controllers (\<open>Pass\<close>).
\<close>

datatype client_pc = Idle | Announce | Wait | Change | Release
datatype worker_pc = Check | Count | Spin | Pass

record pause_state =
  paused :: bool
  cnt_paused :: nat
  client :: client_pc
  medium_pc :: worker_pc
  core_pc :: worker_pc

text \<open>The counter has no initial value in the code.\<close>

definition pause_init :: "nat \<Rightarrow> pause_state" where
  "pause_init n = \<lparr>paused = False, cnt_paused = n, client = Idle, medium_pc = Check, core_pc = Check\<rparr>"

text \<open>One step of a thread: its new position and the new counter.\<close>

inductive worker_step :: "bool \<Rightarrow> worker_pc \<Rightarrow> nat \<Rightarrow> worker_pc \<Rightarrow> nat \<Rightarrow> bool" where
  See_paused: "worker_step True Check n Count n"
| See_running: "worker_step False Check n Pass n"
| Increment: "worker_step b Count n Spin (n + 1)"
| Resume: "worker_step False Spin n Pass n"
| Next_pass: "worker_step b Pass n Check n"

inductive_simps worker_step_simps [simp]:
  "worker_step b Check n pc n'" "worker_step b Count n pc n'" "worker_step b Spin n pc n'"
  "worker_step b Pass n pc n'"

inductive client_step :: "bool \<Rightarrow> nat \<Rightarrow> client_pc \<Rightarrow> bool \<Rightarrow> nat \<Rightarrow> client_pc \<Rightarrow> bool" where
  Reset: "client_step b n Idle b 0 Announce"
| Set: "client_step b n Announce True n Wait"
| Woken: "n = 2 \<Longrightarrow> client_step b n Wait b n Change"
| Run_fn: "client_step b n Change b n Release"
| Clear: "client_step b n Release False n Idle"

inductive_simps client_step_simps [simp]:
  "client_step b n Idle b' n' pc" "client_step b n Announce b' n' pc" "client_step b n Wait b' n' pc"
  "client_step b n Change b' n' pc" "client_step b n Release b' n' pc"

inductive pause_step :: "pause_state \<Rightarrow> pause_state \<Rightarrow> bool" where
  Client: "client_step (paused s) (cnt_paused s) (client s) b n pc \<Longrightarrow>
    pause_step s (s\<lparr>paused := b, cnt_paused := n, client := pc\<rparr>)"
| Medium_thread: "worker_step (paused s) (medium_pc s) (cnt_paused s) pc n \<Longrightarrow>
    pause_step s (s\<lparr>cnt_paused := n, medium_pc := pc\<rparr>)"
| Core_thread: "worker_step (paused s) (core_pc s) (cnt_paused s) pc n \<Longrightarrow>
    pause_step s (s\<lparr>cnt_paused := n, core_pc := pc\<rparr>)"

inductive_cases pause_stepE: "pause_step s s'"

section \<open>The list changes only while both threads spin\<close>

definition spinning :: "pause_state \<Rightarrow> nat" where
  "spinning s = of_bool (medium_pc s = Spin) + of_bool (core_pc s = Spin)"

lemma two_of_bools [simp]: "2 \<le> of_bool P + (of_bool Q :: nat) \<longleftrightarrow> P \<and> Q"
  by (cases P; cases Q) simp_all

definition pause_inv :: "pause_state \<Rightarrow> bool" where
  "pause_inv s \<longleftrightarrow>
     (paused s \<longleftrightarrow> client s \<in> {Wait, Change, Release}) \<and>
     (\<not> paused s \<longrightarrow> medium_pc s \<noteq> Count \<and> core_pc s \<noteq> Count) \<and>
     (client s = Announce \<longrightarrow> cnt_paused s = 0) \<and>
     (client s = Wait \<longrightarrow> cnt_paused s \<le> spinning s) \<and>
     (client s \<in> {Change, Release} \<longrightarrow> medium_pc s = Spin \<and> core_pc s = Spin)"

lemma pause_init_inv: "pause_inv (pause_init n)"
  by (simp add: pause_inv_def pause_init_def)

lemma pause_step_inv:
  assumes "pause_step s s'" "pause_inv s"
  shows "pause_inv s'"
  using assms(1)
proof (rule pause_stepE)
  fix b n pc
  assume "client_step (paused s) (cnt_paused s) (client s) b n pc"
    "s' = s\<lparr>paused := b, cnt_paused := n, client := pc\<rparr>"
  then show ?thesis
    using assms(2) by (cases "client s") (auto simp: pause_inv_def spinning_def split: if_splits)
next
  fix pc n
  assume "worker_step (paused s) (medium_pc s) (cnt_paused s) pc n" "s' = s\<lparr>cnt_paused := n, medium_pc := pc\<rparr>"
  then show ?thesis
    using assms(2) by (cases "medium_pc s"; cases "client s") (auto simp: pause_inv_def spinning_def)
next
  fix pc n
  assume "worker_step (paused s) (core_pc s) (cnt_paused s) pc n" "s' = s\<lparr>cnt_paused := n, core_pc := pc\<rparr>"
  then show ?thesis
    using assms(2) by (cases "core_pc s"; cases "client s") (auto simp: pause_inv_def spinning_def)
qed

lemma pause_reach_inv: "pause_step\<^sup>*\<^sup>* s s' \<Longrightarrow> pause_inv s \<Longrightarrow> pause_inv s'"
  by (induction rule: rtranclp_induct) (auto intro: pause_step_inv)


text \<open>States written in one line, and their steps, for the traces below.\<close>

definition st :: "bool \<Rightarrow> nat \<Rightarrow> client_pc \<Rightarrow> worker_pc \<Rightarrow> worker_pc \<Rightarrow> pause_state" where
  "st p c cl m w = \<lparr>paused = p, cnt_paused = c, client = cl, medium_pc = m, core_pc = w\<rparr>"

lemma st_steps:
  "pause_step\<^sup>*\<^sup>* s (st p c cl m w) \<Longrightarrow> client_step p c cl p' c' cl' \<Longrightarrow> pause_step\<^sup>*\<^sup>* s (st p' c' cl' m w)"
  "pause_step\<^sup>*\<^sup>* s (st p c cl m w) \<Longrightarrow> worker_step p m c m' c' \<Longrightarrow> pause_step\<^sup>*\<^sup>* s (st p c' cl m' w)"
  "pause_step\<^sup>*\<^sup>* s (st p c cl m w) \<Longrightarrow> worker_step p w c w' c' \<Longrightarrow> pause_step\<^sup>*\<^sup>* s (st p c' cl m w')"
  using Client [of "st p c cl m w" p' c' cl'] Medium_thread [of "st p c cl m w" m' c']
    Core_thread [of "st p c cl m w" w' c']
  by (auto simp: st_def intro: rtranclp.rtrancl_into_rtrancl)

lemma reach_change: "pause_step\<^sup>*\<^sup>* (pause_init n) (st True 2 Change Spin Spin)"
proof -
  have "pause_step\<^sup>*\<^sup>* (pause_init n) (st False n Idle Check Check)" by (simp add: pause_init_def st_def)
  then have "pause_step\<^sup>*\<^sup>* (pause_init n) (st False 0 Announce Check Check)" by (rule st_steps(1)) simp
  then have "pause_step\<^sup>*\<^sup>* (pause_init n) (st True 0 Wait Check Check)" by (rule st_steps(1)) simp
  then have "pause_step\<^sup>*\<^sup>* (pause_init n) (st True 0 Wait Count Check)" by (rule st_steps(2)) simp
  then have "pause_step\<^sup>*\<^sup>* (pause_init n) (st True 1 Wait Spin Check)" by (rule st_steps(2)) simp
  then have "pause_step\<^sup>*\<^sup>* (pause_init n) (st True 1 Wait Spin Count)" by (rule st_steps(3)) simp
  then have "pause_step\<^sup>*\<^sup>* (pause_init n) (st True 2 Wait Spin Spin)" by (rule st_steps(3)) simp
  then show ?thesis by (rule st_steps(1)) simp
qed


section \<open>When the handshake completes\<close>

text \<open>
  While the client waits, each thread that has not yet counted itself still will: the wait is live
  if the counter and the threads outside the final loop add up to two.
\<close>

definition live_wait :: "pause_state \<Rightarrow> bool" where
  "live_wait s \<longleftrightarrow> client s = Wait \<and> paused s \<and> cnt_paused s + (2 - spinning s) = 2"

fun steps_to_spin :: "worker_pc \<Rightarrow> nat" where
  "steps_to_spin Pass = 3" | "steps_to_spin Check = 2" | "steps_to_spin Count = 1" | "steps_to_spin Spin = 0"

definition wait_measure :: "pause_state \<Rightarrow> nat" where
  "wait_measure s = steps_to_spin (medium_pc s) + steps_to_spin (core_pc s)"

lemma live_wait_step:
  assumes "live_wait s" "pause_step s s'"
  shows "client s' = Change \<or> live_wait s' \<and> wait_measure s' < wait_measure s"
  using assms(2)
proof (rule pause_stepE)
  fix pc n
  assume "worker_step (paused s) (medium_pc s) (cnt_paused s) pc n" "s' = s\<lparr>cnt_paused := n, medium_pc := pc\<rparr>"
  then show ?thesis
    using assms(1) by (cases "medium_pc s"; cases "core_pc s = Spin")
      (auto simp: live_wait_def spinning_def wait_measure_def)
next
  fix pc n
  assume "worker_step (paused s) (core_pc s) (cnt_paused s) pc n" "s' = s\<lparr>cnt_paused := n, core_pc := pc\<rparr>"
  then show ?thesis
    using assms(1) by (cases "core_pc s"; cases "medium_pc s = Spin")
      (auto simp: live_wait_def spinning_def wait_measure_def)
qed (use assms(1) in \<open>auto simp: live_wait_def\<close>)

lemma live_wait_enabled:
  assumes "live_wait s"
  shows "\<exists>s'. pause_step s s'"
proof (cases "spinning s = 2")
  case True
  then have "client_step (paused s) (cnt_paused s) (client s) (paused s) (cnt_paused s) Change"
    using assms by (simp add: live_wait_def)
  then show ?thesis by (blast intro: Client)
next
  case False
  then have "medium_pc s \<noteq> Spin \<or> core_pc s \<noteq> Spin" by (auto simp: spinning_def)
  moreover have "\<exists>pc n. worker_step (paused s) w (cnt_paused s) pc n" if "w \<noteq> Spin" for w
    using that by (cases w) auto
  ultimately show ?thesis by (blast intro: Medium_thread Core_thread)
qed



text \<open>
  C16. The handshake can deadlock: a thread that has not yet left the final loop when the client
  pauses again does not count itself a second time. From the start, with two calls of
  \<open>pause_execution\<close>, the program can reach a state in which the client waits for ever and both
  threads spin: no step is possible at all.
\<close>

theorem pause_deadlock:
  "\<exists>s. pause_step\<^sup>*\<^sup>* (pause_init n) s \<and> client s = Wait \<and> medium_pc s = Spin \<and> core_pc s = Spin \<and>
     \<not> (\<exists>s'. pause_step s s')"
proof -
  note reach_change [of n]
  then have "pause_step\<^sup>*\<^sup>* (pause_init n) (st True 2 Release Spin Spin)" by (rule st_steps(1)) simp
  then have "pause_step\<^sup>*\<^sup>* (pause_init n) (st False 2 Idle Spin Spin)" by (rule st_steps(1)) simp
  then have "pause_step\<^sup>*\<^sup>* (pause_init n) (st False 2 Idle Spin Pass)" by (rule st_steps(3)) simp
  then have "pause_step\<^sup>*\<^sup>* (pause_init n) (st False 0 Announce Spin Pass)" by (rule st_steps(1)) simp
  then have "pause_step\<^sup>*\<^sup>* (pause_init n) (st True 0 Wait Spin Pass)" by (rule st_steps(1)) simp
  then have "pause_step\<^sup>*\<^sup>* (pause_init n) (st True 0 Wait Spin Check)" by (rule st_steps(3)) simp
  then have "pause_step\<^sup>*\<^sup>* (pause_init n) (st True 0 Wait Spin Count)" by (rule st_steps(3)) simp
  then have "pause_step\<^sup>*\<^sup>* (pause_init n) (st True 1 Wait Spin Spin)" by (rule st_steps(3)) simp
  moreover have "\<not> (\<exists>s'. pause_step (st True 1 Wait Spin Spin) s')"
    by (auto simp: st_def elim!: pause_stepE)
  ultimately show ?thesis by (intro exI [of _ "st True 1 Wait Spin Spin"]) (simp add: st_def)
qed

end
