(* ===== verification/Np_Frame.thy ===== *)
theory Np_Frame
  imports Prelude
begin

text \<open>
  The frames of the serial protocol of the server: class \<open>frame\<close> of \<open>npserver/src/frame.h\<close> and its
  CRC in \<open>npserver/src/frame.cpp\<close>. The CRC works with two tables of 256 bytes; it is proved equal
  to the bitwise CRC-16 with the reflected polynomial \<open>0xA001\<close>, and to detect every error in one
  byte.
\<close>

section \<open>The tables\<close>

definition CRCHi :: "u8 list" where
  "CRCHi =
    [ 0x00, 0xC1, 0x81, 0x40, 0x01, 0xC0, 0x80, 0x41, 0x01, 0xC0, 0x80, 0x41, 0x00, 0xC1, 0x81, 0x40,
      0x01, 0xC0, 0x80, 0x41, 0x00, 0xC1, 0x81, 0x40, 0x00, 0xC1, 0x81, 0x40, 0x01, 0xC0, 0x80, 0x41,
      0x01, 0xC0, 0x80, 0x41, 0x00, 0xC1, 0x81, 0x40, 0x00, 0xC1, 0x81, 0x40, 0x01, 0xC0, 0x80, 0x41,
      0x00, 0xC1, 0x81, 0x40, 0x01, 0xC0, 0x80, 0x41, 0x01, 0xC0, 0x80, 0x41, 0x00, 0xC1, 0x81, 0x40,
      0x01, 0xC0, 0x80, 0x41, 0x00, 0xC1, 0x81, 0x40, 0x00, 0xC1, 0x81, 0x40, 0x01, 0xC0, 0x80, 0x41,
      0x00, 0xC1, 0x81, 0x40, 0x01, 0xC0, 0x80, 0x41, 0x01, 0xC0, 0x80, 0x41, 0x00, 0xC1, 0x81, 0x40,
      0x00, 0xC1, 0x81, 0x40, 0x01, 0xC0, 0x80, 0x41, 0x01, 0xC0, 0x80, 0x41, 0x00, 0xC1, 0x81, 0x40,
      0x01, 0xC0, 0x80, 0x41, 0x00, 0xC1, 0x81, 0x40, 0x00, 0xC1, 0x81, 0x40, 0x01, 0xC0, 0x80, 0x41,
      0x01, 0xC0, 0x80, 0x41, 0x00, 0xC1, 0x81, 0x40, 0x00, 0xC1, 0x81, 0x40, 0x01, 0xC0, 0x80, 0x41,
      0x00, 0xC1, 0x81, 0x40, 0x01, 0xC0, 0x80, 0x41, 0x01, 0xC0, 0x80, 0x41, 0x00, 0xC1, 0x81, 0x40,
      0x00, 0xC1, 0x81, 0x40, 0x01, 0xC0, 0x80, 0x41, 0x01, 0xC0, 0x80, 0x41, 0x00, 0xC1, 0x81, 0x40,
      0x01, 0xC0, 0x80, 0x41, 0x00, 0xC1, 0x81, 0x40, 0x00, 0xC1, 0x81, 0x40, 0x01, 0xC0, 0x80, 0x41,
      0x00, 0xC1, 0x81, 0x40, 0x01, 0xC0, 0x80, 0x41, 0x01, 0xC0, 0x80, 0x41, 0x00, 0xC1, 0x81, 0x40,
      0x01, 0xC0, 0x80, 0x41, 0x00, 0xC1, 0x81, 0x40, 0x00, 0xC1, 0x81, 0x40, 0x01, 0xC0, 0x80, 0x41,
      0x01, 0xC0, 0x80, 0x41, 0x00, 0xC1, 0x81, 0x40, 0x00, 0xC1, 0x81, 0x40, 0x01, 0xC0, 0x80, 0x41,
      0x00, 0xC1, 0x81, 0x40, 0x01, 0xC0, 0x80, 0x41, 0x01, 0xC0, 0x80, 0x41, 0x00, 0xC1, 0x81, 0x40 ]"

definition CRCLo :: "u8 list" where
  "CRCLo =
    [ 0x00, 0xC0, 0xC1, 0x01, 0xC3, 0x03, 0x02, 0xC2, 0xC6, 0x06, 0x07, 0xC7, 0x05, 0xC5, 0xC4, 0x04,
      0xCC, 0x0C, 0x0D, 0xCD, 0x0F, 0xCF, 0xCE, 0x0E, 0x0A, 0xCA, 0xCB, 0x0B, 0xC9, 0x09, 0x08, 0xC8,
      0xD8, 0x18, 0x19, 0xD9, 0x1B, 0xDB, 0xDA, 0x1A, 0x1E, 0xDE, 0xDF, 0x1F, 0xDD, 0x1D, 0x1C, 0xDC,
      0x14, 0xD4, 0xD5, 0x15, 0xD7, 0x17, 0x16, 0xD6, 0xD2, 0x12, 0x13, 0xD3, 0x11, 0xD1, 0xD0, 0x10,
      0xF0, 0x30, 0x31, 0xF1, 0x33, 0xF3, 0xF2, 0x32, 0x36, 0xF6, 0xF7, 0x37, 0xF5, 0x35, 0x34, 0xF4,
      0x3C, 0xFC, 0xFD, 0x3D, 0xFF, 0x3F, 0x3E, 0xFE, 0xFA, 0x3A, 0x3B, 0xFB, 0x39, 0xF9, 0xF8, 0x38,
      0x28, 0xE8, 0xE9, 0x29, 0xEB, 0x2B, 0x2A, 0xEA, 0xEE, 0x2E, 0x2F, 0xEF, 0x2D, 0xED, 0xEC, 0x2C,
      0xE4, 0x24, 0x25, 0xE5, 0x27, 0xE7, 0xE6, 0x26, 0x22, 0xE2, 0xE3, 0x23, 0xE1, 0x21, 0x20, 0xE0,
      0xA0, 0x60, 0x61, 0xA1, 0x63, 0xA3, 0xA2, 0x62, 0x66, 0xA6, 0xA7, 0x67, 0xA5, 0x65, 0x64, 0xA4,
      0x6C, 0xAC, 0xAD, 0x6D, 0xAF, 0x6F, 0x6E, 0xAE, 0xAA, 0x6A, 0x6B, 0xAB, 0x69, 0xA9, 0xA8, 0x68,
      0x78, 0xB8, 0xB9, 0x79, 0xBB, 0x7B, 0x7A, 0xBA, 0xBE, 0x7E, 0x7F, 0xBF, 0x7D, 0xBD, 0xBC, 0x7C,
      0xB4, 0x74, 0x75, 0xB5, 0x77, 0xB7, 0xB6, 0x76, 0x72, 0xB2, 0xB3, 0x73, 0xB1, 0x71, 0x70, 0xB0,
      0x50, 0x90, 0x91, 0x51, 0x93, 0x53, 0x52, 0x92, 0x96, 0x56, 0x57, 0x97, 0x55, 0x95, 0x94, 0x54,
      0x9C, 0x5C, 0x5D, 0x9D, 0x5F, 0x9F, 0x9E, 0x5E, 0x5A, 0x9A, 0x9B, 0x5B, 0x99, 0x59, 0x58, 0x98,
      0x88, 0x48, 0x49, 0x89, 0x4B, 0x8B, 0x8A, 0x4A, 0x4E, 0x8E, 0x8F, 0x4F, 0x8D, 0x4D, 0x4C, 0x8C,
      0x44, 0x84, 0x85, 0x45, 0x87, 0x47, 0x46, 0x86, 0x82, 0x42, 0x43, 0x83, 0x41, 0x81, 0x80, 0x40 ]"

section \<open>The class frame\<close>

text \<open>The buffer has 256 bytes, of which \<open>f_length\<close> are the frame.\<close>

record frame =
  f_data :: "u8 list"
  f_length :: nat

abbreviation (input) max_size :: nat where "max_size \<equiv> 256"

definition is_size_valid :: "frame \<Rightarrow> bool" where
  "is_size_valid f \<longleftrightarrow> 4 \<le> f_length f"

datatype frame_error = AssertionFailed

text \<open>\<open>std::array\<close> without initializer keeps what was in its memory: \<open>garbage\<close>.\<close>

definition frame_init :: "u8 list \<Rightarrow> frame" where
  "frame_init garbage = \<lparr>f_data = garbage, f_length = 0\<rparr>"

definition set_length :: "nat \<Rightarrow> frame \<Rightarrow> frame_error + frame" where
  "set_length n f = (if n \<le> max_size then Inr (f\<lparr>f_length := n\<rparr>) else Inl AssertionFailed)"

definition frame_of :: "u8 list \<Rightarrow> u8 list \<Rightarrow> frame_error + frame" where
  "frame_of garbage lst =
     mapE (\<lambda>f. f\<lparr>f_data := lst @ drop (length lst) (f_data f)\<rparr>)
       (set_length (length lst) (frame_init garbage))"

text \<open>The loop of \<open>get_crc16\<close> over the bytes of the payload, with the two halves of the CRC.\<close>

fun crc_loop :: "u8 list \<Rightarrow> u8 \<times> u8 \<Rightarrow> u8 \<times> u8" where
  "crc_loop [] (hi, lo) = (hi, lo)"
| "crc_loop (b # bs) (hi, lo) =
     (let ix = unat (lo XOR b);
          lo = hi XOR CRCHi ! ix;
          hi = CRCLo ! ix
      in crc_loop bs (hi, lo))"

definition get_crc16 :: "frame \<Rightarrow> frame_error + u16" where
  "get_crc16 f =
     (if is_size_valid f
      then Inr (let (hi, lo) = crc_loop (take (f_length f - 2) (f_data f)) (0xFF, 0xFF) in join16 lo hi)
      else Inl AssertionFailed)"

definition is_crc_valid :: "frame \<Rightarrow> frame_error + bool" where
  "is_crc_valid f =
     (if \<not> is_size_valid f then Inr False
      else mapE (\<lambda>crc. crc = join16 (f_data f ! (f_length f - 2)) (f_data f ! (f_length f - 1)))
             (get_crc16 f))"

definition write_crc16_le :: "frame \<Rightarrow> frame_error + frame" where
  "write_crc16_le f =
     (if \<not> is_size_valid f then Inl AssertionFailed
      else mapE (\<lambda>crc. f\<lparr>f_data := (f_data f)[f_length f - 2 := lo8 crc, f_length f - 1 := hi8 crc]\<rparr>)
             (get_crc16 f))"

text \<open>\<open>operator ==\<close>: the loop over the indices below the length.\<close>

fun same_bytes :: "nat \<Rightarrow> u8 list \<Rightarrow> u8 list \<Rightarrow> bool" where
  "same_bytes 0 xs ys = True"
| "same_bytes (Suc n) (x # xs) (y # ys) = (if x \<noteq> y then False else same_bytes n xs ys)"
| "same_bytes (Suc n) _ _ = False"

definition frame_eq :: "frame \<Rightarrow> frame \<Rightarrow> bool" where
  "frame_eq f g = (if f_length f \<noteq> f_length g then False else same_bytes (f_length f) (f_data f) (f_data g))"

definition frame_wf :: "frame \<Rightarrow> bool" where
  "frame_wf f \<longleftrightarrow> length (f_data f) = max_size \<and> f_length f \<le> max_size"

definition frame_bytes :: "frame \<Rightarrow> u8 list" where
  "frame_bytes f = take (f_length f) (f_data f)"

lemma same_bytes_take:
  "n \<le> length xs \<Longrightarrow> n \<le> length ys \<Longrightarrow> same_bytes n xs ys \<longleftrightarrow> take n xs = take n ys"
  by (induction n xs ys rule: same_bytes.induct) auto

lemma frame_eq_bytes: "frame_wf f \<Longrightarrow> frame_wf g \<Longrightarrow> frame_eq f g \<longleftrightarrow> frame_bytes f = frame_bytes g"
  by (auto simp: frame_eq_def frame_wf_def frame_bytes_def same_bytes_take min_def dest: arg_cong [of _ _ length])

section \<open>The CRC bit by bit\<close>

definition crc_bit :: "u16 \<Rightarrow> u16" where
  "crc_bit crc = (if bit crc 0 then drop_bit 1 crc XOR 0xA001 else drop_bit 1 crc)"

definition crc_byte :: "u16 \<Rightarrow> u8 \<Rightarrow> u16" where
  "crc_byte crc b = (crc_bit ^^ 8) (crc XOR ucast b)"

definition crc16 :: "u8 list \<Rightarrow> u16" where
  "crc16 bs = foldl crc_byte 0xFFFF bs"

lemma crc_bit_drop: "\<not> bit x 0 \<Longrightarrow> crc_bit x = drop_bit 1 x"
  by (simp add: crc_bit_def)

lemma crc_bit_xor: "crc_bit (a XOR b) = crc_bit a XOR crc_bit b"
  by (auto simp: crc_bit_def bit_xor_iff drop_bit_xor xor.assoc xor.left_commute xor.commute)

lemma crc_bits_xor: "(crc_bit ^^ n) (a XOR b) = (crc_bit ^^ n) a XOR (crc_bit ^^ n) b"
  by (induction n) (simp_all add: crc_bit_xor)

lemma crc_bits_drop: "(\<forall>k < n. \<not> bit x k) \<Longrightarrow> (crc_bit ^^ n) x = drop_bit n x"
proof (induction n)
  case (Suc n)
  then have "(crc_bit ^^ Suc n) x = crc_bit (drop_bit n x)" by simp
  also have "\<dots> = drop_bit 1 (drop_bit n x)"
    using Suc.prems by (intro crc_bit_drop) (simp add: bit_drop_bit_eq)
  finally show ?case by (simp add: drop_bit_Suc drop_bit_half)
qed simp

lemma u8_high_bits [simp]: "8 \<le> k \<Longrightarrow> \<not> bit (w :: u8) k"
  by (auto dest: bit_imp_le_length)

text \<open>A step of the CRC by a byte needs the table only at the low byte.\<close>

lemma crc_byte_table: "crc_byte (join16 lo hi) b = ucast hi XOR (crc_bit ^^ 8) (ucast (lo XOR b))"
proof -
  have "join16 lo hi XOR ucast b = push_bit 8 (ucast hi) XOR ucast (lo XOR b)"
    by (simp add: join16_def word16_bits)
  moreover have "(crc_bit ^^ 8) (push_bit 8 (ucast hi)) = ucast hi"
    by (subst crc_bits_drop) (auto simp: word16_bits)
  ultimately show ?thesis by (simp add: crc_byte_def crc_bits_xor)
qed

lemma crc_bit_inj:
  assumes "crc_bit a = crc_bit b"
  shows "a = b"
proof -
  have top: "bit (crc_bit x) 15 = bit x 0" for x
    by (auto simp: crc_bit_def bit_simps dest: bit_imp_le_length)
  have half: "drop_bit 1 x = crc_bit x XOR (if bit x 0 then 0xA001 else 0)" for x
    by (simp add: crc_bit_def xor.assoc)
  have low: "bit a 0 = bit b 0" using top [of a] top [of b] assms by simp
  then have "drop_bit 1 a = drop_bit 1 b" using half [of a] half [of b] assms by simp
  then have "bit a (Suc n) = bit b (Suc n)" for n
    by (metis bit_drop_bit_eq plus_1_eq_Suc comp_apply)
  then show ?thesis
    using low by (intro bit_word_eqI) (metis not0_implies_Suc)
qed

lemma xor_cancel: "(a :: 'a :: len word) XOR c = b XOR c \<longleftrightarrow> a = b" "c XOR a = c XOR b \<longleftrightarrow> a = b"
proof -
  have "(x XOR c) XOR c = x" "c XOR (c XOR x) = x" for x
    by (simp_all add: xor.assoc flip: xor.assoc [of c c])
  then show "a XOR c = b XOR c \<longleftrightarrow> a = b" "c XOR a = c XOR b \<longleftrightarrow> a = b" by metis+
qed

lemma ucast_u8_inj: "(ucast (x :: u8) :: u16) = ucast y \<longleftrightarrow> x = y"
  by (auto simp: word16_bits word8_bits)

lemma crc_byte_inj:
  "crc_byte a x = crc_byte b x \<Longrightarrow> a = b" "crc_byte a x = crc_byte a y \<Longrightarrow> x = y"
proof -
  have inj: "(crc_bit ^^ n) a = (crc_bit ^^ n) b \<Longrightarrow> a = b" for n a b
    by (induction n) (auto dest: crc_bit_inj)
  show "crc_byte a x = crc_byte b x \<Longrightarrow> a = b" "crc_byte a x = crc_byte a y \<Longrightarrow> x = y"
    unfolding crc_byte_def by (auto dest!: inj simp: xor_cancel ucast_u8_inj)
qed

section \<open>The tables are right\<close>

lemma table_lengths [simp]: "length CRCHi = 256" "length CRCLo = 256"
  by (simp_all add: CRCHi_def CRCLo_def)

fun table_ok :: "u16 \<Rightarrow> u8 list \<Rightarrow> u8 list \<Rightarrow> bool" where
  "table_ok n (h # hs) (l # ls) \<longleftrightarrow> (crc_bit ^^ 8) n = join16 h l \<and> table_ok (n + 1) hs ls"
| "table_ok n _ _ \<longleftrightarrow> True"

lemma crc_bit8:
  "(crc_bit ^^ 8) n = crc_bit (crc_bit (crc_bit (crc_bit (crc_bit (crc_bit (crc_bit (crc_bit n)))))))"
  by (simp add: numeral_eq_Suc)

lemma tables_ok: "table_ok 0 CRCHi CRCLo"
  unfolding CRCHi_def CRCLo_def by (simp add: crc_bit8 crc_bit_def join16_def)

lemma table_ok_nth:
  "table_ok n hs ls \<Longrightarrow> i < length hs \<Longrightarrow> i < length ls \<Longrightarrow>
   (crc_bit ^^ 8) (n + word_of_nat i) = join16 (hs ! i) (ls ! i)"
proof (induction n hs ls arbitrary: i rule: table_ok.induct)
  case (1 n h hs l ls)
  then show ?case by (cases i) (auto simp: algebra_simps)
qed simp_all

lemma crc_loop_crc:
  "crc_loop bs (hi, lo) = (hi', lo') \<Longrightarrow> join16 lo' hi' = foldl crc_byte (join16 lo hi) bs"
proof (induction bs arbitrary: hi lo)
  case (Cons b bs)
  define ix where "ix = unat (lo XOR b)"
  have "ix < 256" using unsigned_less [of "lo XOR b", where ?'a = nat] by (simp add: ix_def)
  then have "(crc_bit ^^ 8) (ucast (lo XOR b)) = join16 (CRCHi ! ix) (CRCLo ! ix)"
    using table_ok_nth [OF tables_ok, of ix] by (simp add: ix_def)
  moreover have "ucast hi XOR join16 (CRCHi ! ix) (CRCLo ! ix) = join16 (hi XOR CRCHi ! ix) (CRCLo ! ix)"
    by (simp add: join16_def word16_bits)
  ultimately have "crc_byte (join16 lo hi) b = join16 (hi XOR CRCHi ! ix) (CRCLo ! ix)"
    by (simp add: crc_byte_table)
  then show ?case
    using Cons.IH [of "CRCLo ! ix" "hi XOR CRCHi ! ix"] Cons.prems by (simp add: ix_def Let_def)
qed simp

lemma get_crc16_eq:
  assumes "is_size_valid f"
  shows "get_crc16 f = Inr (crc16 (take (f_length f - 2) (f_data f)))"
proof -
  obtain hi lo where "crc_loop (take (f_length f - 2) (f_data f)) (0xFF, 0xFF) = (hi, lo)"
    by (cases "crc_loop (take (f_length f - 2) (f_data f)) (0xFF, 0xFF)")
  then show ?thesis
    using crc_loop_crc [of _ "0xFF" "0xFF" hi lo] assms by (simp add: get_crc16_def crc16_def join16_def)
qed

section \<open>What the CRC promises\<close>

lemma foldl_crc_inj: "foldl crc_byte a bs = foldl crc_byte b bs \<Longrightarrow> a = b"
  by (induction bs arbitrary: a b) (auto dest: crc_byte_inj(1))

lemma crc16_one_byte:
  assumes "i < length bs" "b \<noteq> bs ! i"
  shows "crc16 (bs[i := b]) \<noteq> crc16 bs"
proof
  assume "crc16 (bs[i := b]) = crc16 bs"
  then have "foldl crc_byte (crc_byte (foldl crc_byte 0xFFFF (take i bs)) b) (drop (Suc i) bs) =
    foldl crc_byte (crc_byte (foldl crc_byte 0xFFFF (take i bs)) (bs ! i)) (drop (Suc i) bs)"
    using assms(1) by (simp add: crc16_def upd_conv_take_nth_drop)
      (metis foldl_Cons foldl_append id_take_nth_drop)
  then show False using assms(2) foldl_crc_inj crc_byte_inj(2) by blast
qed

lemma is_crc_valid_iff:
  assumes "frame_wf f" "is_size_valid f"
  shows "is_crc_valid f = Inr (join16 (f_data f ! (f_length f - 2)) (f_data f ! (f_length f - 1)) =
    crc16 (take (f_length f - 2) (f_data f)))"
  using assms get_crc16_eq [OF assms(2)] by (auto simp: is_crc_valid_def)

text \<open>
  The table-driven CRC is the CRC-16 of the Modbus protocol: for every frame of a valid size,
  \<open>get_crc16\<close> is the bitwise shift register with the polynomial \<open>0xA001\<close>, started at \<open>0xFFFF\<close>, over
  all bytes but the last two.
\<close>

theorem crc_bitwise:
  assumes "is_size_valid f"
  shows "get_crc16 f = Inr (foldl (\<lambda>crc b. (crc_bit ^^ 8) (crc XOR ucast b)) 0xFFFF
    (take (f_length f - 2) (f_data f)))"
  using get_crc16_eq [OF assms] by (simp add: crc16_def crc_byte_def [abs_def])

lemma crc_bitwise_witness:
  "get_crc16 \<lparr>f_data = 1 # replicate 255 0, f_length = 4\<rparr> =
     Inr (foldl (\<lambda>crc b. (crc_bit ^^ 8) (crc XOR ucast b)) 0xFFFF [1, 0])"
  using crc_bitwise [of "\<lparr>f_data = 1 # replicate 255 0, f_length = 4\<rparr>"]
  by (simp add: is_size_valid_def numeral_eq_Suc)

text \<open>Writing the checksum makes a frame valid.\<close>

lemma write_crc_valid:
  assumes "frame_wf f" "is_size_valid f"
  shows "\<exists>g. write_crc16_le f = Inr g \<and> is_crc_valid g = Inr True \<and> frame_wf g \<and>
    f_length g = f_length f \<and> take (f_length f - 2) (f_data g) = take (f_length f - 2) (f_data f)"
proof -
  define crc where "crc = crc16 (take (f_length f - 2) (f_data f))"
  define g where "g = f\<lparr>f_data := (f_data f)[f_length f - 2 := lo8 crc, f_length f - 1 := hi8 crc]\<rparr>"
  have n: "4 \<le> f_length f" "f_length f \<le> length (f_data f)"
    using assms by (simp_all add: is_size_valid_def frame_wf_def)
  have g: "frame_wf g" "is_size_valid g" "f_length g = f_length f"
    using assms by (simp_all add: g_def frame_wf_def is_size_valid_def)
  have "f_data g ! (f_length f - 2) = lo8 crc" "f_data g ! (f_length f - 1) = hi8 crc"
    using n by (auto simp: g_def nth_list_update)
  moreover have payload: "take (f_length f - 2) (f_data g) = take (f_length f - 2) (f_data f)"
    by (simp add: g_def)
  ultimately have "is_crc_valid g = Inr True"
    using is_crc_valid_iff [OF g(1,2)] by (simp add: g(3) crc_def)
  moreover have "write_crc16_le f = Inr g"
    using assms get_crc16_eq [OF assms(2)] by (simp add: write_crc16_le_def g_def crc_def)
  ultimately show ?thesis using g payload by blast
qed

text \<open>
  What \<open>write_crc16_le\<close> writes, \<open>is_crc_valid\<close> accepts: for every frame of at least 4 bytes, it
  changes only the last two bytes, and the result is valid.
\<close>

theorem crc_roundtrip:
  assumes "frame_wf f" "is_size_valid f"
  shows "\<exists>g. write_crc16_le f = Inr g \<and> is_crc_valid g = Inr True \<and> frame_wf g \<and>
    f_length g = f_length f \<and> take (f_length f - 2) (f_data g) = take (f_length f - 2) (f_data f)"
  using assms by (rule write_crc_valid)

lemma crc_roundtrip_witness:
  "\<exists>g. write_crc16_le \<lparr>f_data = replicate 256 7, f_length = 8\<rparr> = Inr g \<and> is_crc_valid g = Inr True"
  using crc_roundtrip [of "\<lparr>f_data = replicate 256 7, f_length = 8\<rparr>"]
  by (auto simp: frame_wf_def is_size_valid_def)

text \<open>
  C18. The CRC detects every error that changes a single byte, in the payload or in the CRC itself:
  a valid frame with one byte replaced is not valid.
\<close>

theorem crc_detects_byte:
  assumes "frame_wf f" "is_size_valid f" "is_crc_valid f = Inr True"
    and "i < f_length f" "b \<noteq> f_data f ! i"
  shows "is_crc_valid (f\<lparr>f_data := (f_data f)[i := b]\<rparr>) = Inr False"
proof -
  define g where "g = f\<lparr>f_data := (f_data f)[i := b]\<rparr>"
  have g: "frame_wf g" "is_size_valid g" "f_length g = f_length f"
    using assms by (simp_all add: g_def frame_wf_def is_size_valid_def)
  have n: "4 \<le> f_length f" "f_length f \<le> length (f_data f)"
    using assms by (simp_all add: is_size_valid_def frame_wf_def)
  have valid: "join16 (f_data f ! (f_length f - 2)) (f_data f ! (f_length f - 1)) =
      crc16 (take (f_length f - 2) (f_data f))"
    using assms(3) is_crc_valid_iff [OF assms(1,2)] by simp
  have "join16 (f_data g ! (f_length f - 2)) (f_data g ! (f_length f - 1)) \<noteq>
      crc16 (take (f_length f - 2) (f_data g))"
  proof (cases "i < f_length f - 2")
    case True
    then have "crc16 ((take (f_length f - 2) (f_data f))[i := b]) \<noteq> crc16 (take (f_length f - 2) (f_data f))"
      using assms(5) n by (intro crc16_one_byte) auto
    then show ?thesis using True valid by (simp add: g_def take_update_swap)
  next
    case False
    then have "i = f_length f - 2 \<or> i = f_length f - 1" using assms(4) by arith
    then show ?thesis using valid n assms(5) by (auto simp: g_def nth_list_update valid [symmetric])
  qed
  then show ?thesis using is_crc_valid_iff [OF g(1,2)] by (simp add: g(3) flip: g_def)
qed

lemma crc_detects_byte_witness:
  "\<exists>g. is_crc_valid g = Inr True \<and> is_crc_valid (g\<lparr>f_data := (f_data g)[3 := f_data g ! 3 + 1]\<rparr>) = Inr False"
proof -
  define f where "f = \<lparr>f_data = replicate 256 (7 :: u8), f_length = 8\<rparr>"
  have f: "frame_wf f" "is_size_valid f" by (simp_all add: f_def frame_wf_def is_size_valid_def)
  define g where "g = f\<lparr>f_data := (f_data f)[6 := lo8 (crc16 (take 6 (f_data f))), 7 := hi8 (crc16 (take 6 (f_data f)))]\<rparr>"
  have g: "frame_wf g" "is_size_valid g" using f by (simp_all add: g_def frame_wf_def is_size_valid_def)
  have "is_crc_valid g = Inr True"
    using is_crc_valid_iff [OF g] by (simp add: g_def f_def nth_list_update)
  then show ?thesis
    using crc_detects_byte [OF g, of 3 "f_data g ! 3 + 1"] by (auto simp: g_def f_def)
qed

end
