(* ===== verification/Np_Ring.thy ===== *)
theory Np_Ring
  imports Prelude
begin

text \<open>
  The ring buffer in shared memory that carries the messages of the RPC library between two
  processes: \<open>LockFreeRingBuffer\<close> of \<open>nprpc/src/lock_free_ring_buffer.cpp\<close> and its header. A message
  is stored as four bytes of size and its bytes, over a circular array of bytes. First whole calls
  are modelled, and shown to implement a queue of messages; then the calls of one writer and one
  reader are cut into steps that interleave.

  Sizes are natural numbers: a message is at most \<open>max_message_size\<close>, a 32-bit number, so no sum
  in the code reaches \<open>2 ^ 64\<close>.
\<close>

section \<open>A queue of messages\<close>

text \<open>
  What a client of the buffer relies on. \<open>rep ms s\<close>: the state \<open>s\<close> holds the messages \<open>ms\<close>. A push
  is accepted and appends, or is refused and changes nothing; a pop gives the first message.
\<close>

locale message_queue =
  fixes rep :: "'m list \<Rightarrow> 's \<Rightarrow> bool"
    and push :: "'m \<Rightarrow> 's \<Rightarrow> bool \<times> 's"
    and pop :: "'s \<Rightarrow> 'm option \<times> 's"
    and good :: "'m \<Rightarrow> bool"
  assumes push_rep: "rep ms s \<Longrightarrow> good m \<Longrightarrow> push m s = (ok, s') \<Longrightarrow> rep (if ok then ms @ [m] else ms) s'"
    and pop_empty: "rep [] s \<Longrightarrow> pop s = (None, s)"
    and pop_rep: "rep (m # ms) s \<Longrightarrow> list_all good (m # ms) \<Longrightarrow> \<exists>s'. pop s = (Some m, s') \<and> rep ms s'"
begin

text \<open>A sequence of calls: \<open>Some m\<close> pushes \<open>m\<close>, \<open>None\<close> pops. The messages accepted and delivered.\<close>

fun run :: "'m option list \<Rightarrow> 's \<Rightarrow> 'm list \<times> 'm list \<times> 's" where
  "run [] s = ([], [], s)"
| "run (Some m # cs) s =
     (let (ok, s) = push m s; (acc, del, s) = run cs s in (if ok then m # acc else acc, del, s))"
| "run (None # cs) s =
     (let (r, s) = pop s; (acc, del, s) = run cs s
      in (acc, case r of Some m \<Rightarrow> m # del | None \<Rightarrow> del, s))"

lemma run_fifo:
  assumes "rep ms s" "list_all good ms" "\<forall>m. Some m \<in> set cs \<longrightarrow> good m"
    and "run cs s = (acc, del, s')"
  shows "\<exists>rest. ms @ acc = del @ rest \<and> rep rest s'"
  using assms
proof (induction cs arbitrary: ms s acc del)
  case (Cons c cs)
  show ?case
  proof (cases c)
    case (Some m)
    obtain ok t where t: "push m s = (ok, t)" by (cases "push m s")
    obtain acc1 where r: "run cs t = (acc1, del, s')" "acc = (if ok then m # acc1 else acc1)"
      using Cons.prems(4) t Some by (cases "run cs t") auto
    have "rep (if ok then ms @ [m] else ms) t" using push_rep [OF Cons.prems(1) _ t] Cons.prems(3) Some by simp
    then show ?thesis
      using Cons.IH [of "ms @ [m]" t acc1 del] Cons.IH [of ms t acc1 del] Cons.prems(2,3) Some r
      by (cases ok) auto
  next
    case None
    show ?thesis
    proof (cases ms)
      case Nil
      then show ?thesis
        using Cons.IH [of "[]" s acc del] Cons.prems None pop_empty [of s] by (cases "run cs s") auto
    next
      case ms: (Cons m ms1)
      then obtain t where t: "pop s = (Some m, t)" "rep ms1 t" using pop_rep Cons.prems(1,2) by blast
      obtain del1 where r: "run cs t = (acc, del1, s')" "del = m # del1"
        using Cons.prems(4) t None by (cases "run cs t") auto
      then show ?thesis using Cons.IH [OF t(2) _ _ r(1)] Cons.prems(2,3) ms by auto
    qed
  qed
qed auto

end

section \<open>The buffer\<close>

record RingBuffer =
  write_idx :: nat
  read_idx :: nat
  max_message_size :: nat
  data_region :: "u8 list"

text \<open>\<open>buffer_size\<close> is the length of the data region.\<close>

abbreviation buffer_size :: "RingBuffer \<Rightarrow> nat" where
  "buffer_size rb \<equiv> length (data_region rb)"

definition DEFAULT_BUFFER_SIZE :: nat where
  "DEFAULT_BUFFER_SIZE = 16 * 1024 * 1024"

definition MAX_MESSAGE_SIZE :: nat where
  "MAX_MESSAGE_SIZE = 32 * 1024 * 1024"

definition ring_create :: "nat \<Rightarrow> RingBuffer" where
  "ring_create n =
     \<lparr>write_idx = 0, read_idx = 0, max_message_size = MAX_MESSAGE_SIZE, data_region = replicate n 0\<rparr>"

definition used_bytes :: "RingBuffer \<Rightarrow> nat" where
  "used_bytes rb =
     (if read_idx rb \<le> write_idx rb then write_idx rb - read_idx rb
      else buffer_size rb - read_idx rb + write_idx rb)"

definition available_bytes :: "RingBuffer \<Rightarrow> nat" where
  "available_bytes rb = buffer_size rb - used_bytes rb - 1"

definition is_empty :: "RingBuffer \<Rightarrow> bool" where
  "is_empty rb \<longleftrightarrow> read_idx rb = write_idx rb"

definition is_full :: "nat \<Rightarrow> RingBuffer \<Rightarrow> bool" where
  "is_full message_size rb \<longleftrightarrow> available_bytes rb < 4 + message_size + 1"

text \<open>The bytes of an unsigned number in the order of a little-endian machine.\<close>

definition size_bytes :: "nat \<Rightarrow> u8 list" where
  "size_bytes n = [word_of_nat n, word_of_nat (n div 256), word_of_nat (n div 65536), word_of_nat (n div 16777216)]"

definition size_of_bytes :: "u8 list \<Rightarrow> nat" where
  "size_of_bytes bs = unat (bs ! 0) + 256 * unat (bs ! 1) + 65536 * unat (bs ! 2) + 16777216 * unat (bs ! 3)"

text \<open>The two loops over the circular array: byte \<open>i\<close> is at \<open>(idx + i) % buffer_size\<close>.\<close>

fun ring_put :: "nat \<Rightarrow> u8 list \<Rightarrow> u8 list \<Rightarrow> u8 list" where
  "ring_put idx [] region = region"
| "ring_put idx (b # bs) region = ring_put (idx + 1) bs (region[idx mod length region := b])"

definition ring_get :: "nat \<Rightarrow> nat \<Rightarrow> u8 list \<Rightarrow> u8 list" where
  "ring_get idx n region = map (\<lambda>i. region ! ((idx + i) mod length region)) [0 ..< n]"

definition try_write :: "u8 list \<Rightarrow> RingBuffer \<Rightarrow> bool \<times> RingBuffer" where
  "try_write msg rb =
     (if max_message_size rb < length msg then (False, rb)
      else if available_bytes rb < 4 + length msg + 1 then (False, rb)
      else
        let idx = write_idx rb;
            region = ring_put idx (size_bytes (length msg)) (data_region rb);
            idx = (idx + 4) mod buffer_size rb;
            region = ring_put idx msg region
        in (True, rb\<lparr>data_region := region, write_idx := (idx + length msg) mod buffer_size rb\<rparr>))"

text \<open>The number of bytes returned, the bytes copied to the caller's buffer, and the new state.\<close>

definition try_read :: "nat \<Rightarrow> RingBuffer \<Rightarrow> nat \<times> u8 list \<times> RingBuffer" where
  "try_read cap rb =
     (if read_idx rb = write_idx rb then (0, [], rb)
      else
        let idx = read_idx rb;
            message_size = size_of_bytes (ring_get idx 4 (data_region rb));
            idx = (idx + 4) mod buffer_size rb
        in if max_message_size rb < message_size then (0, [], rb)
           else if cap < message_size then (0, [], rb)
           else (message_size, ring_get idx message_size (data_region rb),
                 rb\<lparr>read_idx := (idx + message_size) mod buffer_size rb\<rparr>))"

text \<open>
  \<open>read_with_timeout\<close>: the states that the reader sees when it is woken up are an argument; when
  they end the wait has timed out.
\<close>

fun wait_for_data :: "RingBuffer \<Rightarrow> RingBuffer list \<Rightarrow> RingBuffer option" where
  "wait_for_data rb [] = (if is_empty rb then None else Some rb)"
| "wait_for_data rb (rb' # wakeups) = (if is_empty rb then wait_for_data rb' wakeups else Some rb)"

definition read_with_timeout ::
    "nat \<Rightarrow> RingBuffer list \<Rightarrow> RingBuffer \<Rightarrow> nat \<times> u8 list \<times> RingBuffer" where
  "read_with_timeout cap wakeups rb =
     (let (n, bs, rb1) = try_read cap rb
      in if 0 < n then (n, bs, rb1)
         else case wait_for_data rb1 wakeups of
                None \<Rightarrow> (0, [], last (rb1 # wakeups))
              | Some rb2 \<Rightarrow> try_read cap rb2)"

section \<open>The circular array\<close>

definition ring_wf :: "RingBuffer \<Rightarrow> bool" where
  "ring_wf rb \<longleftrightarrow> write_idx rb < buffer_size rb \<and> read_idx rb < buffer_size rb \<and>
     max_message_size rb < 2 ^ 32"

definition enc :: "u8 list \<Rightarrow> u8 list" where
  "enc m = size_bytes (length m) @ m"

text \<open>The bytes between the two indices, and the messages they stand for.\<close>

definition contents :: "RingBuffer \<Rightarrow> u8 list" where
  "contents rb = ring_get (read_idx rb) (used_bytes rb) (data_region rb)"

definition holds :: "u8 list list \<Rightarrow> RingBuffer \<Rightarrow> bool" where
  "holds ms rb \<longleftrightarrow> ring_wf rb \<and> contents rb = concat (map enc ms) \<and>
     (\<forall>m \<in> set ms. length m \<le> max_message_size rb)"

lemma length_ring_put [simp]: "length (ring_put idx bs region) = length region"
  by (induction idx bs region rule: ring_put.induct) simp_all

lemma length_ring_get [simp]: "length (ring_get idx n region) = n"
  by (simp add: ring_get_def)

lemma nth_ring_get [simp]: "i < n \<Longrightarrow> ring_get idx n region ! i = region ! ((idx + i) mod length region)"
  by (simp add: ring_get_def)

lemma ring_get_append: "ring_get idx (n + m) region = ring_get idx n region @ ring_get (idx + n) m region"
  by (auto simp: list_eq_iff_nth_eq nth_append add.assoc)

lemma ring_get_mod: "ring_get (idx mod length region) n region = ring_get idx n region"
  by (simp add: ring_get_def mod_add_left_eq)

lemma ring_put_append: "ring_put idx (as @ bs) region = ring_put (idx + length as) bs (ring_put idx as region)"
  by (induction as arbitrary: idx region) simp_all

lemma ring_put_mod: "ring_put (idx mod length region) bs region = ring_put idx bs region"
proof (induction bs arbitrary: idx region)
  case (Cons b bs)
  show ?case
    using Cons [of "idx + 1" "region[idx mod length region := b]"]
      Cons [of "idx mod length region + 1" "region[idx mod length region := b]"]
    by (simp add: mod_Suc_eq)
qed simp

text \<open>Where a write of fewer bytes than the array has puts them, and what it leaves alone.\<close>

lemma mod_add_inj: "(a + i) mod n = (a + j) mod n \<Longrightarrow> i < n \<Longrightarrow> j < n \<Longrightarrow> i = (j :: nat)"
proof (induction i j rule: linorder_wlog)
  case (le i j)
  then have "n dvd (a + j) - (a + i)" by (metis add_le_mono1 add.commute mod_eq_dvd_iff_nat)
  then have "n dvd j - i" by simp
  then show ?case using le(1,4) by (metis diff_is_0_eq dvd_imp_le le_antisym less_imp_diff_less not_less zero_less_diff)
qed simp

lemma nth_ring_put:
  assumes "k < length region" "length bs \<le> length region"
  shows "ring_put idx bs region ! ((idx + k) mod length region) =
    (if k < length bs then bs ! k else region ! ((idx + k) mod length region))"
  using assms
proof (induction bs arbitrary: idx region k)
  case (Cons b bs)
  show ?case
  proof (cases k)
    case 0
    have "Suc (idx + length region - Suc 0) = idx + length region" using Cons.prems(1) by simp
    then show ?thesis
      using Cons.IH [of "length region - 1" "region[idx mod length region := b]" "idx + 1"] Cons.prems 0
      by (auto simp: not_less)
  next
    case (Suc j)
    have "(idx + k) mod length region \<noteq> (idx + 0) mod length region"
    proof
      assume "(idx + k) mod length region = (idx + 0) mod length region"
      from mod_add_inj [OF this Cons.prems(1)] show False using Suc Cons.prems(1) by linarith
    qed
    then show ?thesis
      using Suc Cons.IH [of j "region[idx mod length region := b]" "idx + 1"] Cons.prems by auto
  qed
qed simp

lemma ring_get_put_same: "length bs \<le> length region \<Longrightarrow> ring_get idx (length bs) (ring_put idx bs region) = bs"
  by (auto simp: list_eq_iff_nth_eq nth_ring_put)

lemma ring_get_put_other:
  assumes "n + length bs \<le> length region"
  shows "ring_get idx n (ring_put (idx + n) bs region) = ring_get idx n region"
proof (rule nth_equalityI)
  fix i assume i: "i < length (ring_get idx n (ring_put (idx + n) bs region))"
  define L where "L = length region"
  define k where "k = L - n + i"
  have "(idx + n) + k = (idx + i) + L" "k < L" "\<not> k < length bs"
    using i assms by (auto simp: k_def L_def)
  then have "((idx + n) + k) mod L = (idx + i) mod L" by (metis mod_add_self2)
  then show "ring_get idx n (ring_put (idx + n) bs region) ! i = ring_get idx n region ! i"
    using nth_ring_put [of k region bs "idx + n"] i \<open>k < L\<close> \<open>\<not> k < length bs\<close> assms by (simp add: L_def)
qed simp

section \<open>Sizes\<close>

lemma size_bytes_length [simp]: "length (size_bytes n) = 4"
  by (simp add: size_bytes_def)

lemma digits_256_aux:
  "n = a + 256 * p \<Longrightarrow> p = b + 256 * q \<Longrightarrow> q = c + 256 * r \<Longrightarrow>
   n = a + 256 * b + 65536 * c + 16777216 * (r :: nat)"
  by simp

lemma digits_256:
  "(n :: nat) = n mod 256 + 256 * (n div 256 mod 256) + 65536 * (n div 65536 mod 256) + 16777216 * (n div 16777216)"
proof -
  have *: "n div 65536 = n div 256 div 256" "n div 16777216 = n div 256 div 256 div 256"
    by (simp_all flip: div_mult2_eq)
  show ?thesis
    unfolding * by (rule digits_256_aux [OF mod_mult_div_eq [symmetric] mod_mult_div_eq [symmetric] mod_mult_div_eq [symmetric]])
qed

lemma size_of_bytes_enc: "n < 2 ^ 32 \<Longrightarrow> size_of_bytes (size_bytes n) = n"
  using digits_256 [of n] by (simp add: size_of_bytes_def size_bytes_def unat_of_nat)

section \<open>The whole calls implement the queue\<close>

lemma used_bytes_less: "ring_wf rb \<Longrightarrow> used_bytes rb < buffer_size rb"
  by (auto simp: ring_wf_def used_bytes_def)

lemma write_idx_eq: "ring_wf rb \<Longrightarrow> (read_idx rb + used_bytes rb) mod buffer_size rb = write_idx rb"
  by (auto simp: ring_wf_def used_bytes_def not_le)

lemma used_bytes_eqI:
  assumes "r < n" "u < n" "w = (r + u) mod n" "length d = n"
  shows "used_bytes \<lparr>write_idx = w, read_idx = r, max_message_size = x, data_region = d\<rparr> = u"
proof (cases "r + u < n")
  case True
  then show ?thesis using assms by (simp add: used_bytes_def)
next
  case False
  then have "w = r + u - n" using assms by (simp add: mod_if)
  then show ?thesis using assms False by (auto simp: used_bytes_def)
qed

lemma used_after_write:
  assumes "ring_wf rb" "used_bytes rb + k < buffer_size rb" "length region = buffer_size rb"
  shows "used_bytes (rb\<lparr>data_region := region, write_idx := (write_idx rb + k) mod buffer_size rb\<rparr>) = used_bytes rb + k"
proof -
  have "(write_idx rb + k) mod buffer_size rb = (read_idx rb + (used_bytes rb + k)) mod buffer_size rb"
    using write_idx_eq [OF assms(1)] by (metis add.assoc mod_add_left_eq)
  then show ?thesis
    using used_bytes_eqI [of "read_idx rb" "buffer_size rb" "used_bytes rb + k"] assms
    by (cases rb) (simp add: ring_wf_def)
qed

lemma try_write_accepts:
  assumes "holds ms rb" "length m \<le> max_message_size rb" "4 + length m + 1 \<le> available_bytes rb"
  shows "\<exists>rb'. try_write m rb = (True, rb') \<and> holds (ms @ [m]) rb' \<and> buffer_size rb' = buffer_size rb \<and>
    max_message_size rb' = max_message_size rb \<and> used_bytes rb' = used_bytes rb + 4 + length m"
proof -
  define n where "n = buffer_size rb"
  have wf: "ring_wf rb" and c: "contents rb = concat (map enc ms)" using assms(1) by (simp_all add: holds_def)
  define region where "region = ring_put (write_idx rb) (enc m) (data_region rb)"
  have room: "used_bytes rb + (4 + length m) < n" using assms(3) by (simp add: available_bytes_def n_def)
  define rb' where "rb' = rb\<lparr>data_region := region, write_idx := (write_idx rb + (4 + length m)) mod n\<rparr>"
  have result: "try_write m rb = (True, rb')"
    using assms(2,3) ring_put_mod [of "write_idx rb + 4" "ring_put (write_idx rb) (size_bytes (length m)) (data_region rb)" m]
    by (simp add: try_write_def Let_def rb'_def region_def enc_def ring_put_append n_def mod_add_left_eq add.assoc)
  have used: "used_bytes rb' = used_bytes rb + (4 + length m)"
    unfolding rb'_def n_def by (rule used_after_write [OF wf]) (use room in \<open>simp_all add: n_def region_def\<close>)
  have "contents rb' = ring_get (read_idx rb) (used_bytes rb) region @
      ring_get (read_idx rb + used_bytes rb) (length (enc m)) region"
    unfolding contents_def used by (simp add: rb'_def ring_get_append enc_def add.assoc)
  also have "region = ring_put (read_idx rb + used_bytes rb) (enc m) (data_region rb)"
    unfolding region_def using write_idx_eq [OF wf] ring_put_mod by metis
  also have "ring_get (read_idx rb) (used_bytes rb) \<dots> = contents rb"
    using room by (simp add: ring_get_put_other contents_def enc_def n_def)
  also have "ring_get (read_idx rb + used_bytes rb) (length (enc m)) (ring_put (read_idx rb + used_bytes rb) (enc m) (data_region rb)) = enc m"
    using room by (intro ring_get_put_same) (simp add: enc_def n_def)
  finally have "contents rb' = concat (map enc (ms @ [m]))" using c by simp
  moreover have "(write_idx rb + (4 + length m)) mod n < n" using room by (intro mod_less_divisor) linarith
  ultimately have "holds (ms @ [m]) rb'"
    using assms(1,2) wf room by (auto simp: holds_def rb'_def ring_wf_def region_def n_def)
  then show ?thesis using result used by (auto simp: rb'_def region_def)
qed

lemma used_after_read:
  assumes "ring_wf rb" "k \<le> used_bytes rb"
  shows "used_bytes (rb\<lparr>read_idx := (read_idx rb + k) mod buffer_size rb\<rparr>) = used_bytes rb - k"
proof -
  have "write_idx rb = ((read_idx rb + k) mod buffer_size rb + (used_bytes rb - k)) mod buffer_size rb"
  proof -
    have "read_idx rb + k + (used_bytes rb - k) = read_idx rb + used_bytes rb" using assms(2) by simp
    then show ?thesis using write_idx_eq [OF assms(1)] by (simp only: mod_add_left_eq)
  qed
  moreover have "0 < buffer_size rb" using assms(1) by (auto simp: ring_wf_def)
  ultimately show ?thesis
    using used_bytes_eqI [of "(read_idx rb + k) mod buffer_size rb" "buffer_size rb" "used_bytes rb - k"]
      used_bytes_less [OF assms(1)] by (cases rb) simp
qed

lemma holds_Nil: "holds [] rb \<longleftrightarrow> ring_wf rb \<and> read_idx rb = write_idx rb"
proof -
  have "used_bytes rb = 0 \<longleftrightarrow> read_idx rb = write_idx rb" if "ring_wf rb"
    using that by (auto simp: used_bytes_def ring_wf_def)
  then show ?thesis by (auto simp: holds_def contents_def ring_get_def)
qed

lemma enc_length [simp]: "length (enc m) = 4 + length m"
  by (simp add: enc_def)

lemma holds_Cons:
  assumes "holds (m # ms) rb"
  shows "4 + length m \<le> used_bytes rb" "read_idx rb \<noteq> write_idx rb"
    "ring_get (read_idx rb) 4 (data_region rb) = size_bytes (length m)"
    "ring_get (read_idx rb + 4) (length m) (data_region rb) = m"
    "holds ms (rb\<lparr>read_idx := (read_idx rb + (4 + length m)) mod buffer_size rb\<rparr>)"
proof -
  have wf: "ring_wf rb" and c: "contents rb = enc m @ concat (map enc ms)"
    using assms by (simp_all add: holds_def)
  have "used_bytes rb = length (contents rb)" by (simp add: contents_def)
  then have u: "used_bytes rb = (4 + length m) + length (concat (map enc ms))" by (simp only: c length_append enc_length)
  then show k: "4 + length m \<le> used_bytes rb" by simp
  then show "read_idx rb \<noteq> write_idx rb" by (auto simp: used_bytes_def)
  have pos: "x mod buffer_size rb < buffer_size rb" for x
    using wf by (intro mod_less_divisor) (auto simp: ring_wf_def)
  have "contents rb = ring_get (read_idx rb) 4 (data_region rb) @
      ring_get (read_idx rb + 4) (length m) (data_region rb) @
      ring_get (read_idx rb + (4 + length m)) (used_bytes rb - (4 + length m)) (data_region rb)"
    unfolding contents_def using k
    by (metis (no_types) ring_get_append add.assoc le_add_diff_inverse)
  with c show "ring_get (read_idx rb) 4 (data_region rb) = size_bytes (length m)"
    and "ring_get (read_idx rb + 4) (length m) (data_region rb) = m"
    and rest: "holds ms (rb\<lparr>read_idx := (read_idx rb + (4 + length m)) mod buffer_size rb\<rparr>)"
    using assms wf used_after_read [OF wf k] pos
    by (auto simp: enc_def holds_def contents_def ring_get_mod ring_wf_def)
qed

lemma try_read_first:
  assumes "holds (m # ms) rb"
  shows "try_read cap rb =
    (if cap < length m then (0, [], rb)
     else (length m, m, rb\<lparr>read_idx := (read_idx rb + (4 + length m)) mod buffer_size rb\<rparr>))"
proof -
  have m: "length m \<le> max_message_size rb" "max_message_size rb < 2 ^ 32"
    using assms by (simp_all add: holds_def ring_wf_def)
  then show ?thesis
    using holds_Cons [OF assms] size_of_bytes_enc [of "length m"] ring_get_mod [of "read_idx rb + 4"]
    by (simp add: try_read_def Let_def mod_add_left_eq add.assoc)
qed

text \<open>The buffer as a queue for a reader with room for \<open>cap\<close> bytes.\<close>

definition ring_pop :: "nat \<Rightarrow> RingBuffer \<Rightarrow> u8 list option \<times> RingBuffer" where
  "ring_pop cap rb = (let (n, bs, rb) = try_read cap rb in (if n = 0 then None else Some bs, rb))"

definition fits_reader :: "nat \<Rightarrow> u8 list \<Rightarrow> bool" where
  "fits_reader cap m \<longleftrightarrow> m \<noteq> [] \<and> length m \<le> cap"

lemma try_write_refuses:
  "\<not> (length m \<le> max_message_size rb \<and> 4 + length m + 1 \<le> available_bytes rb) \<Longrightarrow> try_write m rb = (False, rb)"
  by (auto simp: try_write_def)

lemma try_write_holds: "holds ms rb \<Longrightarrow> try_write m rb = (ok, rb') \<Longrightarrow> holds (if ok then ms @ [m] else ms) rb'"
  using try_write_accepts [of ms rb m] try_write_refuses [of m rb]
  by (cases "length m \<le> max_message_size rb \<and> 4 + length m + 1 \<le> available_bytes rb") auto

interpretation ring: message_queue holds try_write "ring_pop cap" "fits_reader cap" for cap
proof unfold_locales
  show "holds ms s \<Longrightarrow> fits_reader cap m \<Longrightarrow> try_write m s = (ok, s') \<Longrightarrow> holds (if ok then ms @ [m] else ms) s'"
    for ms s m ok s' by (rule try_write_holds)
  show "holds [] s \<Longrightarrow> ring_pop cap s = (None, s)" for s
    by (simp add: holds_Nil ring_pop_def try_read_def)
  show "holds (m # ms) s \<Longrightarrow> list_all (fits_reader cap) (m # ms) \<Longrightarrow> \<exists>s'. ring_pop cap s = (Some m, s') \<and> holds ms s'"
    for m ms s
    using try_read_first [of m ms s cap] holds_Cons(5) [of m ms s] by (auto simp: ring_pop_def fits_reader_def)
qed

text \<open>A sequence of calls on the buffer, and what was accepted and delivered.\<close>

fun ring_calls :: "nat \<Rightarrow> u8 list option list \<Rightarrow> RingBuffer \<Rightarrow> u8 list list \<times> u8 list list \<times> RingBuffer" where
  "ring_calls cap [] rb = ([], [], rb)"
| "ring_calls cap (Some m # cs) rb =
     (let (ok, rb) = try_write m rb; (acc, del, rb) = ring_calls cap cs rb in (if ok then m # acc else acc, del, rb))"
| "ring_calls cap (None # cs) rb =
     (let (n, bs, rb) = try_read cap rb; (acc, del, rb) = ring_calls cap cs rb
      in (acc, if n = 0 then del else bs # del, rb))"

lemma ring_calls_run: "ring_calls cap cs rb = ring.run cap cs rb"
proof (induction cap cs rb rule: ring_calls.induct)
  case (2 cap m cs rb)
  then show ?case by (cases "try_write m rb") (simp add: split_beta Let_def)
next
  case (3 cap cs rb)
  obtain n bs rb' where r: "try_read cap rb = (n, bs, rb')" by (cases "try_read cap rb")
  then have "ring_pop cap rb = (if n = 0 then None else Some bs, rb')" by (simp add: ring_pop_def)
  then show ?case using 3 r by (simp add: split_beta Let_def)
qed (auto simp: split_beta Let_def)

lemma ring_create_holds: "0 < n \<Longrightarrow> holds [] (ring_create n)"
  by (simp add: holds_Nil ring_wf_def ring_create_def MAX_MESSAGE_SIZE_def)

text \<open>
  C20. The ring buffer is a queue of messages. If it holds the messages \<open>ms\<close>, a write of a message
  that is not too long and for which there is room appends it, and any other write is refused and
  changes nothing; a read returns the oldest message and removes it if the reader's buffer is large
  enough, and else changes nothing. Where the bytes wrap around the array does not matter.
\<close>

theorem ring_refines:
  assumes "holds ms rb"
  shows "(if length m \<le> max_message_size rb \<and> used_bytes rb + length m + 6 \<le> buffer_size rb
      then \<exists>rb'. try_write m rb = (True, rb') \<and> holds (ms @ [m]) rb'
      else try_write m rb = (False, rb)) \<and>
    (case ms of
       [] \<Rightarrow> try_read cap rb = (0, [], rb)
     | x # xs \<Rightarrow> if length x \<le> cap then \<exists>rb'. try_read cap rb = (length x, x, rb') \<and> holds xs rb'
                 else try_read cap rb = (0, [], rb))"
proof -
  have *: "used_bytes rb + length m + 6 \<le> buffer_size rb \<longleftrightarrow> 4 + length m + 1 \<le> available_bytes rb"
    by (auto simp: available_bytes_def)
  show ?thesis
    unfolding *
    using try_write_accepts [OF assms, of m] try_write_refuses [of m rb] assms
      try_read_first [of "hd ms" "tl ms" rb cap] holds_Cons(5) [of "hd ms" "tl ms" rb]
    by (cases ms) (auto simp: holds_Nil try_read_def)
qed

lemma ring_refines_witness:
  "\<exists>rb'. try_write [1, 2, 3] (ring_create 16) = (True, rb') \<and> holds [[1, 2, 3]] rb'"
  using ring_refines [OF ring_create_holds [of 16], of "[1, 2, 3]"]
  by (simp add: ring_create_def used_bytes_def MAX_MESSAGE_SIZE_def)

text \<open>
  Messages arrive in order: over any sequence of writes of non-empty messages and reads on a new
  buffer, by a reader whose buffer is large enough for them, what is delivered is a prefix of what
  was accepted, byte for byte, and the rest is still in the buffer.
\<close>

theorem ring_fifo:
  assumes "0 < n" "\<forall>m. Some m \<in> set cs \<longrightarrow> m \<noteq> [] \<and> length m \<le> cap"
    and "ring_calls cap cs (ring_create n) = (accepted, delivered, rb)"
  shows "\<exists>rest. accepted = delivered @ rest \<and> holds rest rb"
  using ring.run_fifo [OF ring_create_holds [OF assms(1)] _ _ assms(3)[unfolded ring_calls_run]] assms(2)
  by (simp add: fits_reader_def)

lemma ring_fifo_witness:
  "\<exists>acc del rb rest. ring_calls 8 [Some [1], None, Some [2, 3], None] (ring_create 16) = (acc, del, rb) \<and>
     acc = del @ rest \<and> holds rest rb"
proof -
  obtain acc del rb where r: "ring_calls 8 [Some [1], None, Some [2, 3], None] (ring_create 16) = (acc, del, rb)"
    by (cases "ring_calls 8 [Some [1], None, Some [2, 3], None] (ring_create 16)")
  show ?thesis using ring_fifo [OF _ _ r] r by fastforce
qed

text \<open>
  What the limits allow: the header promises messages of up to 32 MB, but a buffer of the default
  size of 16 MB refuses for ever every message of more than its size less 6, even when it is empty
  (the byte that keeps full and empty apart is reserved twice), and an accepted message of length 0
  is read as 0, which is what an empty buffer returns.
\<close>

theorem ring_limits:
  assumes "holds ms rb" "buffer_size rb = DEFAULT_BUFFER_SIZE"
  shows "(DEFAULT_BUFFER_SIZE - 6 < length m \<longrightarrow> try_write m rb = (False, rb)) \<and>
    DEFAULT_BUFFER_SIZE - 6 < MAX_MESSAGE_SIZE \<and>
    (holds [[]] rb' \<longrightarrow> fst (try_read cap rb') = 0 \<and> \<not> is_empty rb')"
proof -
  have "try_write m rb = (False, rb)" if "DEFAULT_BUFFER_SIZE - 6 < length m"
  proof (rule try_write_refuses)
    have "available_bytes rb \<le> DEFAULT_BUFFER_SIZE - 1" using assms(2) by (simp add: available_bytes_def)
    then show "\<not> (length m \<le> max_message_size rb \<and> 4 + length m + 1 \<le> available_bytes rb)"
      using that by (auto simp: DEFAULT_BUFFER_SIZE_def)
  qed
  moreover have "fst (try_read cap rb') = 0 \<and> \<not> is_empty rb'" if "holds [[]] rb'"
    using try_read_first [OF that, of cap] holds_Cons(2) [OF that] by (simp add: is_empty_def)
  ultimately show ?thesis by (simp add: DEFAULT_BUFFER_SIZE_def MAX_MESSAGE_SIZE_def)
qed

lemma ring_limits_witness:
  "try_write (replicate (DEFAULT_BUFFER_SIZE - 5) 0) (ring_create DEFAULT_BUFFER_SIZE) =
     (False, ring_create DEFAULT_BUFFER_SIZE)"
proof -
  have d: "0 < DEFAULT_BUFFER_SIZE" "DEFAULT_BUFFER_SIZE - 6 < DEFAULT_BUFFER_SIZE - 5"
    by (simp_all add: DEFAULT_BUFFER_SIZE_def)
  have "buffer_size (ring_create DEFAULT_BUFFER_SIZE) = DEFAULT_BUFFER_SIZE"
    by (simp add: ring_create_def)
  from ring_limits [OF ring_create_holds [OF d(1)] this, of "replicate (DEFAULT_BUFFER_SIZE - 5) 0"] d(2)
  show ?thesis by (simp only: length_replicate)
qed

section \<open>One writer and one reader at the same time\<close>

text \<open>
  The calls in steps: the writer loads the indices and checks the room, stores the bytes of the size
  and of the message one by one, and stores \<open>write_idx\<close>; the reader loads the indices, reads the
  size, copies byte after byte, and stores \<open>read_idx\<close>. \<open>accepted\<close> and \<open>delivered\<close> record the messages
  of the completed calls.
\<close>

datatype writer_state = WIdle | WCopy "u8 list" nat
datatype reader_state = RIdle | RSize | RCopy nat "u8 list"

record ring_sys =
  rs_rb :: RingBuffer
  rs_writer :: writer_state
  rs_reader :: reader_state
  rs_accepted :: "u8 list list"
  rs_delivered :: "u8 list list"

inductive ring_step :: "nat \<Rightarrow> ring_sys \<Rightarrow> ring_sys \<Rightarrow> bool" for cap where
  W_begin: "rs_writer s = WIdle \<Longrightarrow> length m \<le> max_message_size (rs_rb s) \<Longrightarrow>
    \<not> available_bytes (rs_rb s) < 4 + length m + 1 \<Longrightarrow> ring_step cap s (s\<lparr>rs_writer := WCopy m 0\<rparr>)"
| W_byte: "rs_writer s = WCopy m k \<Longrightarrow> k < length (enc m) \<Longrightarrow> rb = rs_rb s \<Longrightarrow>
    ring_step cap s (s\<lparr>rs_rb := rb\<lparr>data_region := (data_region rb)[(write_idx rb + k) mod buffer_size rb := enc m ! k]\<rparr>,
      rs_writer := WCopy m (k + 1)\<rparr>)"
| W_commit: "rs_writer s = WCopy m (length (enc m)) \<Longrightarrow> rb = rs_rb s \<Longrightarrow>
    ring_step cap s (s\<lparr>rs_rb := rb\<lparr>write_idx := (write_idx rb + length (enc m)) mod buffer_size rb\<rparr>,
      rs_writer := WIdle, rs_accepted := rs_accepted s @ [m]\<rparr>)"
| R_begin: "rs_reader s = RIdle \<Longrightarrow> \<not> is_empty (rs_rb s) \<Longrightarrow> ring_step cap s (s\<lparr>rs_reader := RSize\<rparr>)"
| R_size: "rs_reader s = RSize \<Longrightarrow> n = size_of_bytes (ring_get (read_idx (rs_rb s)) 4 (data_region (rs_rb s))) \<Longrightarrow>
    ring_step cap s (s\<lparr>rs_reader := (if max_message_size (rs_rb s) < n \<or> cap < n then RIdle else RCopy n [])\<rparr>)"
| R_byte: "rs_reader s = RCopy n bs \<Longrightarrow> length bs < n \<Longrightarrow> rb = rs_rb s \<Longrightarrow>
    ring_step cap s (s\<lparr>rs_reader :=
      RCopy n (bs @ [data_region rb ! ((read_idx rb + 4 + length bs) mod buffer_size rb)])\<rparr>)"
| R_commit: "rs_reader s = RCopy n bs \<Longrightarrow> length bs = n \<Longrightarrow> rb = rs_rb s \<Longrightarrow>
    ring_step cap s (s\<lparr>rs_rb := rb\<lparr>read_idx := (read_idx rb + 4 + n) mod buffer_size rb\<rparr>,
      rs_reader := RIdle, rs_delivered := rs_delivered s @ [bs]\<rparr>)"

definition ring_sys_init :: "nat \<Rightarrow> ring_sys" where
  "ring_sys_init n =
     \<lparr>rs_rb = ring_create n, rs_writer = WIdle, rs_reader = RIdle, rs_accepted = [], rs_delivered = []\<rparr>"

fun writer_ok :: "RingBuffer \<Rightarrow> writer_state \<Rightarrow> bool" where
  "writer_ok rb WIdle \<longleftrightarrow> True"
| "writer_ok rb (WCopy m k) \<longleftrightarrow> length m \<le> max_message_size rb \<and> k \<le> length (enc m) \<and>
     used_bytes rb + length (enc m) < buffer_size rb \<and>
     ring_get (write_idx rb) k (data_region rb) = take k (enc m)"

fun reader_ok :: "u8 list list \<Rightarrow> reader_state \<Rightarrow> bool" where
  "reader_ok ms RIdle \<longleftrightarrow> True"
| "reader_ok ms RSize \<longleftrightarrow> ms \<noteq> []"
| "reader_ok ms (RCopy n bs) \<longleftrightarrow> ms \<noteq> [] \<and> n = length (hd ms) \<and> bs = take (length bs) (hd ms)"

definition ring_inv :: "u8 list list \<Rightarrow> ring_sys \<Rightarrow> bool" where
  "ring_inv ms s \<longleftrightarrow> holds ms (rs_rb s) \<and> writer_ok (rs_rb s) (rs_writer s) \<and>
     reader_ok ms (rs_reader s) \<and> rs_accepted s = rs_delivered s @ ms"

text \<open>A byte behind the contents does not change them, nor the other bytes behind them.\<close>

lemma write_free_byte:
  assumes "ring_wf rb" "used_bytes rb + k < buffer_size rb"
    and "rb' = rb\<lparr>data_region := (data_region rb)[(write_idx rb + k) mod buffer_size rb := b]\<rparr>"
  shows "contents rb' = contents rb" "used_bytes rb' = used_bytes rb"
    "ring_get (write_idx rb) (k + 1) (data_region rb') = ring_get (write_idx rb) k (data_region rb) @ [b]"
proof -
  let ?n = "buffer_size rb"
  have pos: "(write_idx rb + k) mod ?n < ?n" using assms(2) by (intro mod_less_divisor) linarith
  show u: "used_bytes rb' = used_bytes rb" by (simp add: assms(3) used_bytes_def)
  have w: "(write_idx rb + k) mod ?n = (read_idx rb + (used_bytes rb + k)) mod ?n"
    using write_idx_eq [OF assms(1)] by (metis add.assoc mod_add_left_eq)
  have read: "(write_idx rb + k) mod ?n \<noteq> (read_idx rb + i) mod ?n" if "i < used_bytes rb" for i
    using mod_add_inj [of "read_idx rb" i ?n "used_bytes rb + k"] that assms(2) unfolding w by linarith
  show "contents rb' = contents rb"
    unfolding contents_def u ring_get_def by (simp add: assms(3) nth_list_update_neq [OF read])
  have written: "(write_idx rb + k) mod ?n \<noteq> (write_idx rb + i) mod ?n" if "i < k" for i
    using mod_add_inj [of "write_idx rb" i ?n k] that assms(2) by linarith
  show "ring_get (write_idx rb) (k + 1) (data_region rb') = ring_get (write_idx rb) k (data_region rb) @ [b]"
    unfolding ring_get_def using pos by (simp add: assms(3) nth_list_update_neq [OF written])
qed

lemma W_byte_inv:
  assumes "ring_inv ms s" "rs_writer s = WCopy m k" "k < length (enc m)" "rb = rs_rb s"
    and "rb' = rb\<lparr>data_region := (data_region rb)[(write_idx rb + k) mod buffer_size rb := enc m ! k]\<rparr>"
  shows "ring_inv ms (s\<lparr>rs_rb := rb', rs_writer := WCopy m (k + 1)\<rparr>)"
proof -
  have h: "holds ms rb" and w: "writer_ok rb (WCopy m k)"
    using assms(1,2,4) by (simp_all add: ring_inv_def)
  have "used_bytes rb + k < buffer_size rb" using w assms(3) by simp
  note free = write_free_byte [OF _ this assms(5)]
  have "holds ms rb'" using h free by (auto simp: holds_def ring_wf_def assms(5))
  moreover have "ring_get (write_idx rb') (k + 1) (data_region rb') = take (k + 1) (enc m)"
    using h w free(3) assms(3) by (simp add: holds_def assms(5) take_Suc_conv_app_nth del: enc_length)
  ultimately show ?thesis
    using assms(1,3) w free(2) h by (auto simp: ring_inv_def holds_def assms(5) simp del: enc_length)
qed

lemma W_commit_inv:
  assumes "ring_inv ms s" "rs_writer s = WCopy m (length (enc m))" "rb = rs_rb s"
    and "rb' = rb\<lparr>write_idx := (write_idx rb + length (enc m)) mod buffer_size rb\<rparr>"
  shows "ring_inv (ms @ [m]) (s\<lparr>rs_rb := rb', rs_writer := WIdle, rs_accepted := rs_accepted s @ [m]\<rparr>)"
proof -
  have h: "holds ms rb" and w: "writer_ok rb (WCopy m (length (enc m)))"
    using assms(1-3) by (simp_all add: ring_inv_def)
  have wf: "ring_wf rb" using h by (simp add: holds_def)
  have room: "used_bytes rb + length (enc m) < buffer_size rb" using w by simp
  have used: "used_bytes rb' = used_bytes rb + length (enc m)"
    using used_after_write [OF wf room refl] by (simp add: assms(4))
  have "ring_get (write_idx rb) (length (enc m)) (data_region rb) = enc m" using w by simp
  then have "ring_get (read_idx rb + used_bytes rb) (length (enc m)) (data_region rb) = enc m"
    using ring_get_mod [of "read_idx rb + used_bytes rb" "data_region rb"] write_idx_eq [OF wf] by simp
  then have "contents rb' = concat (map enc (ms @ [m]))"
    using h unfolding contents_def used by (simp add: assms(4) ring_get_append holds_def contents_def)
  moreover have "ring_wf rb'"
  proof -
    have "(write_idx rb + length (enc m)) mod buffer_size rb < buffer_size rb"
      using room by (intro mod_less_divisor) linarith
    then show ?thesis using wf by (simp add: ring_wf_def assms(4))
  qed
  ultimately show ?thesis
    using assms(1) h w by (cases "rs_reader s") (auto simp: ring_inv_def holds_def assms(4) hd_append)
qed

lemma R_commit_inv:
  assumes "ring_inv ms s" "rs_reader s = RCopy n bs" "length bs = n" "rb = rs_rb s"
    and "rb' = rb\<lparr>read_idx := (read_idx rb + 4 + n) mod buffer_size rb\<rparr>"
  shows "ring_inv (tl ms) (s\<lparr>rs_rb := rb', rs_reader := RIdle, rs_delivered := rs_delivered s @ [bs]\<rparr>)"
proof -
  obtain m ms' where ms: "ms = m # ms'" "n = length m" "bs = m"
    using assms(1-3) by (cases ms) (auto simp: ring_inv_def)
  have h: "holds (m # ms') rb" using assms(1,4) ms by (simp add: ring_inv_def)
  note first = holds_Cons [OF h]
  have wf: "ring_wf rb" using h by (simp add: holds_def)
  have used: "used_bytes rb' = used_bytes rb - (4 + length m)"
    using used_after_read [OF wf first(1)] by (simp add: assms(5) ms add.assoc)
  have "writer_ok rb' (rs_writer s)"
    using assms(1,4) used by (cases "rs_writer s") (auto simp: ring_inv_def assms(5))
  then show ?thesis
    using assms(1) first(5) ms by (auto simp: ring_inv_def assms(5) add.assoc)
qed

lemma ring_step_inv:
  assumes "ring_step cap s s'" "ring_inv ms s"
  shows "\<exists>ms'. ring_inv ms' s'"
  using assms(1)
proof cases
  case (W_begin m)
  then show ?thesis
    using assms(2) by (intro exI [of _ ms]) (auto simp: ring_inv_def available_bytes_def ring_get_def)
next
  case (W_byte m k rb)
  then show ?thesis using W_byte_inv [OF assms(2) W_byte(2-4) refl] by auto
next
  case (W_commit m rb)
  then show ?thesis using W_commit_inv [OF assms(2) W_commit(2,3) refl] by auto
next
  case R_begin
  then show ?thesis
    using assms(2) holds_Nil by (intro exI [of _ ms]) (auto simp: ring_inv_def is_empty_def)
next
  case (R_size n)
  obtain m ms1 where ms: "ms = m # ms1" using assms(2) R_size(2) by (cases ms) (auto simp: ring_inv_def)
  have h: "holds (m # ms1) (rs_rb s)" using assms(2) by (simp add: ring_inv_def ms)
  then have "length m < 2 ^ 32" by (auto simp: holds_def ring_wf_def)
  then have "n = length m" using holds_Cons(3) [OF h] size_of_bytes_enc R_size(3) by simp
  then show ?thesis using assms(2) R_size(1) by (intro exI [of _ ms]) (auto simp: ring_inv_def ms)
next
  case (R_byte n bs rb)
  obtain m ms1 where ms: "ms = m # ms1" "n = length m" "bs = take (length bs) m"
    using assms(2) R_byte(2) by (cases ms) (auto simp: ring_inv_def)
  have h: "holds (m # ms1) rb" using assms(2) R_byte(4) by (simp add: ring_inv_def ms)
  have "data_region rb ! ((read_idx rb + 4 + length bs) mod buffer_size rb) = m ! length bs"
    using holds_Cons(4) [OF h] R_byte(3) ms(2)
    by (metis nth_ring_get)
  then show ?thesis
    using assms(2) R_byte(1,3) ms
    by (intro exI [of _ ms]) (auto simp: ring_inv_def take_Suc_conv_app_nth)
next
  case (R_commit n bs rb)
  then show ?thesis using R_commit_inv [OF assms(2) R_commit(2-4) refl] by auto
qed

lemma ring_reach_inv:
  assumes "(ring_step cap)\<^sup>*\<^sup>* s s'" "ring_inv ms s"
  shows "\<exists>ms'. ring_inv ms' s'"
  using assms by (induction rule: rtranclp_induct) (auto dest: ring_step_inv)

text \<open>
  C19. One writer and one reader can work at the same time: however their steps interleave, byte by
  byte, the messages delivered are a prefix of the messages accepted, each unchanged, and those in
  between are in the buffer; the writer never overwrites a byte that has not been read.
\<close>

theorem ring_spsc:
  assumes "(ring_step cap)\<^sup>*\<^sup>* (ring_sys_init n) s" "0 < n"
  shows "\<exists>pending. rs_accepted s = rs_delivered s @ pending \<and> holds pending (rs_rb s)"
proof -
  have "ring_inv [] (ring_sys_init n)"
    using ring_create_holds [OF assms(2)] by (simp add: ring_inv_def ring_sys_init_def)
  then show ?thesis using ring_reach_inv [OF assms(1)] by (auto simp: ring_inv_def)
qed

lemma ring_spsc_witness:
  "\<exists>s. (ring_step 8)\<^sup>*\<^sup>* (ring_sys_init 16) s \<and> rs_writer s = WCopy [7] 0 \<and> holds [] (rs_rb s)"
proof -
  define s where "s = (ring_sys_init 16)\<lparr>rs_writer := WCopy [7] 0\<rparr>"
  have "ring_step 8 (ring_sys_init 16) s"
    unfolding s_def by (rule W_begin)
      (simp_all add: ring_sys_init_def ring_create_def MAX_MESSAGE_SIZE_def available_bytes_def used_bytes_def)
  then have r: "(ring_step 8)\<^sup>*\<^sup>* (ring_sys_init 16) s" by blast
  then show ?thesis using ring_spsc [OF r] by (intro exI [of _ s]) (auto simp: s_def ring_sys_init_def)
qed

end
