(* ===== verification/Np_Trie.thy ===== *)
theory Np_Trie
  imports Prelude
begin

text \<open>
  The set of name patterns of \<open>nplib/utils/trie.hpp\<close>: tries whose nodes lie in one pool that all tries
  of the process share, and \<open>TrieSet\<close>, exact names and names with a leading wildcard. A pointer to a
  node is its index in the pool.
\<close>

section \<open>Nodes\<close>

record TrieNode =
  node_index :: u16
  children :: "u16 list"
  is_end_of_word :: bool

type_synonym trie_pool = "TrieNode list"

text \<open>The absent child is \<open>static_cast<std::uint16_t>(-1)\<close>.\<close>

definition TrieNode_new :: "u16 \<Rightarrow> TrieNode" where
  "TrieNode_new i = \<lparr>node_index = i, children = replicate 39 (- 1), is_end_of_word = False\<rparr>"

definition from_char_to_index :: "char \<Rightarrow> u16" where
  "from_char_to_index c =
     (let n = of_char c :: nat
      in if 97 \<le> n \<and> n \<le> 122 then word_of_nat (n - 97)
         else if 48 \<le> n \<and> n \<le> 57 then word_of_nat (n - 48 + 26)
         else if n = 46 then 36 else if n = 45 then 37 else if n = 95 then 38 else - 1)"

definition getNode :: "u16 \<Rightarrow> trie_pool \<Rightarrow> TrieNode" where
  "getNode i p = p ! unat i"

definition get_child :: "trie_pool \<Rightarrow> TrieNode \<Rightarrow> char \<Rightarrow> TrieNode option" where
  "get_child p node c =
     (let index = unat (from_char_to_index c)
      in if index < length (children node) \<and> children node ! index \<noteq> - 1
         then Some (getNode (children node ! index) p) else None)"

definition set_child :: "char \<Rightarrow> u16 \<Rightarrow> TrieNode \<Rightarrow> TrieNode" where
  "set_child c i node =
     (let index = unat (from_char_to_index c)
      in if index < length (children node) then node\<lparr>children := (children node)[index := i]\<rparr> else node)"

definition set_end :: "bool \<Rightarrow> TrieNode \<Rightarrow> TrieNode" where
  "set_end e node = node\<lparr>is_end_of_word := e\<rparr>"

definition allocateNode :: "trie_pool \<Rightarrow> u16 \<times> trie_pool" where
  "allocateNode p = (let i = word_of_nat (length p) in (i, p @ [TrieNode_new i]))"

abbreviation upd_node :: "u16 \<Rightarrow> (TrieNode \<Rightarrow> TrieNode) \<Rightarrow> trie_pool \<Rightarrow> trie_pool" where
  "upd_node i g p \<equiv> p[unat i := g (p ! unat i)]"

section \<open>Tries\<close>

text \<open>The loop of \<open>Trie::insert\<close>; the first argument is \<open>current\<close>.\<close>

fun trie_insert :: "u16 \<Rightarrow> string \<Rightarrow> trie_pool \<Rightarrow> bool \<times> trie_pool" where
  "trie_insert current [] p = (True, upd_node current (set_end True) p)"
| "trie_insert current (c # cs) p =
     (if from_char_to_index c = - 1 then (False, p)
      else case get_child p (getNode current p) c of
        Some child \<Rightarrow> trie_insert (node_index child) cs p
      | None \<Rightarrow>
          let (newChild, p) = allocateNode p
          in trie_insert newChild cs (upd_node current (set_child c newChild) p))"

fun search_from :: "TrieNode \<Rightarrow> string \<Rightarrow> trie_pool \<Rightarrow> bool" where
  "search_from current [] p = is_end_of_word current"
| "search_from current (c # cs) p =
     (case get_child p current c of None \<Rightarrow> False | Some child \<Rightarrow> search_from child cs p)"

definition trie_search :: "u16 \<Rightarrow> string \<Rightarrow> trie_pool \<Rightarrow> bool" where
  "trie_search root s p = search_from (getNode root p) s p"

section \<open>The class TrieSet\<close>

text \<open>\<open>wildcard_tries\<close> is the \<open>std::map\<close>, in the order of its keys.\<close>

record TrieSet =
  exact_root :: u16
  wildcard_tries :: "(nat \<times> u16) list"

definition TrieSet_init :: "trie_pool \<Rightarrow> TrieSet \<times> trie_pool" where
  "TrieSet_init p = (let (r, p) = allocateNode p in (\<lparr>exact_root = r, wildcard_tries = []\<rparr>, p))"

definition insert_exact :: "string \<Rightarrow> TrieSet \<Rightarrow> trie_pool \<Rightarrow> bool \<times> TrieSet \<times> trie_pool" where
  "insert_exact s t p = (let (ok, p) = trie_insert (exact_root t) s p in (ok, t, p))"

definition insert_wildcard :: "string \<Rightarrow> TrieSet \<Rightarrow> trie_pool \<Rightarrow> bool \<times> TrieSet \<times> trie_pool" where
  "insert_wildcard s t p =
     (case map_of (wildcard_tries t) (length s) of
        None \<Rightarrow>
          let (newTrie, p) = allocateNode p; (ok, p) = trie_insert newTrie s p
          in if ok then (True, t\<lparr>wildcard_tries := insort_key fst (length s, newTrie) (wildcard_tries t)\<rparr>, p)
             else (False, t, p)
      | Some trie \<Rightarrow> let (ok, p) = trie_insert trie s p in (ok, t, p))"

definition allowed :: string where
  "allowed = ''*abcdefghijklmnopqrstuvwxyz0123456789._-''"

definition TrieSet_insert :: "string \<Rightarrow> TrieSet \<Rightarrow> trie_pool \<Rightarrow> bool \<times> TrieSet \<times> trie_pool" where
  "TrieSet_insert s t p =
     (if s = [] then (False, t, p)
      else if \<exists>c \<in> set s. c \<notin> set allowed then (False, t, p)
      else if hd s = CHR ''*'' then insert_wildcard (tl s) t p
      else insert_exact s t p)"

fun search_wildcards :: "(nat \<times> u16) list \<Rightarrow> string \<Rightarrow> trie_pool \<Rightarrow> bool" where
  "search_wildcards [] s p = False"
| "search_wildcards ((n, trie) # ts) s p =
     (if length s < n then search_wildcards ts s p
      else if trie_search trie (drop (length s - n) s) p then True
      else search_wildcards ts s p)"

definition TrieSet_search :: "string \<Rightarrow> TrieSet \<Rightarrow> trie_pool \<Rightarrow> bool" where
  "TrieSet_search s t p = (if trie_search (exact_root t) s p then True else search_wildcards (wildcard_tries t) s p)"

section \<open>The pool as a forest\<close>

text \<open>The edge of node \<open>k\<close> with number \<open>a\<close>.\<close>

definition edge :: "trie_pool \<Rightarrow> nat \<Rightarrow> nat \<Rightarrow> nat option" where
  "edge p k a = (if k < length p \<and> a < 39 \<and> children (p ! k) ! a \<noteq> - 1 then Some (unat (children (p ! k) ! a)) else None)"

text \<open>
  Every node knows its index, its children are in the pool, and no node is the child of two nodes or
  by two characters. Indices have 16 bits, and the largest one stands for no child.
\<close>

definition forest :: "trie_pool \<Rightarrow> bool" where
  "forest p \<longleftrightarrow> length p < 65536 \<and>
     (\<forall>k < length p. node_index (p ! k) = word_of_nat k \<and> length (children (p ! k)) = 39) \<and>
     (\<forall>k a l. edge p k a = Some l \<longrightarrow> l < length p) \<and>
     (\<forall>k a k' a' l. edge p k a = Some l \<longrightarrow> edge p k' a' = Some l \<longrightarrow> k = k' \<and> a = a')"

definition root_node :: "trie_pool \<Rightarrow> nat \<Rightarrow> bool" where
  "root_node p r \<longleftrightarrow> r < length p \<and> (\<forall>k a. edge p k a \<noteq> Some r)"

fun walk :: "trie_pool \<Rightarrow> nat \<Rightarrow> string \<Rightarrow> nat option" where
  "walk p k [] = Some k"
| "walk p k (c # cs) = (case edge p k (unat (from_char_to_index c)) of None \<Rightarrow> None | Some l \<Rightarrow> walk p l cs)"

lemma walk_append: "walk p k (u @ v) = (case walk p k u of None \<Rightarrow> None | Some l \<Rightarrow> walk p l v)"
  by (induction u arbitrary: k) (auto split: option.split)

lemma forestD:
  assumes "forest p"
  shows "length p < 65536" "\<And>k. k < length p \<Longrightarrow> node_index (p ! k) = word_of_nat k"
    "\<And>k. k < length p \<Longrightarrow> length (children (p ! k)) = 39" "\<And>k a l. edge p k a = Some l \<Longrightarrow> l < length p"
    "\<And>k a k' a' l. edge p k a = Some l \<Longrightarrow> edge p k' a' = Some l \<Longrightarrow> k = k' \<and> a = a'"
  using assms unfolding forest_def by blast+

lemma walk_in_pool: "forest p \<Longrightarrow> k < length p \<Longrightarrow> walk p k w = Some l \<Longrightarrow> l < length p"
  by (induction w arbitrary: k) (auto split: option.splits dest: forestD(4))

lemma get_child_edge:
  assumes "forest p" "k < length p"
  shows "get_child p (p ! k) c = map_option ((!) p) (edge p k (unat (from_char_to_index c)))"
  using forestD(3) [OF assms] assms(2) by (simp add: get_child_def edge_def getNode_def Let_def)

lemma search_walk:
  assumes "forest p" "k < length p"
  shows "search_from (p ! k) w p \<longleftrightarrow> (\<exists>l. walk p k w = Some l \<and> is_end_of_word (p ! l))"
  using assms(2)
proof (induction w arbitrary: k)
  case (Cons c cs)
  show ?case
    using Cons.IH forestD(4) [OF assms(1)] by (auto simp: get_child_edge [OF assms(1) Cons.prems] split: option.splits)
qed simp

text \<open>The number of a character as a natural number.\<close>

definition char_number :: "nat \<Rightarrow> nat" where
  "char_number n =
     (if 97 \<le> n \<and> n \<le> 122 then n - 97 else if 48 \<le> n \<and> n \<le> 57 then n - 48 + 26
      else if n = 46 then 36 else if n = 45 then 37 else if n = 95 then 38 else 65535)"

lemma from_char_number: "from_char_to_index c = word_of_nat (char_number (of_char c))"
proof -
  have "(- 1 :: u16) = word_of_nat 65535" by simp
  then show ?thesis by (simp add: from_char_to_index_def char_number_def Let_def)
qed

lemma unat_index: "unat (from_char_to_index c) = char_number (of_char c)"
proof -
  have "char_number n < 65536" for n by (auto simp: char_number_def)
  then show ?thesis unfolding from_char_number by (simp add: unat_of_nat)
qed

lemma char_number_inj: "char_number n < 39 \<Longrightarrow> char_number n = char_number m \<Longrightarrow> n = m"
  by (auto simp: char_number_def split: if_splits)

lemma index_inj:
  assumes "unat (from_char_to_index c) < 39" "from_char_to_index c = from_char_to_index d"
  shows "c = d"
  using char_number_inj [of "of_char c" "of_char d"] assms(1) arg_cong [OF assms(2), of unat] by (simp add: unat_index)

lemma index_valid: "from_char_to_index c = - 1 \<longleftrightarrow> \<not> unat (from_char_to_index c) < 39"
proof -
  have "unat (- 1 :: u16) = 65535" by (simp add: unsigned_minus_1_eq_mask mask_eq_exp_minus_1)
  then have "from_char_to_index c = - 1 \<longleftrightarrow> unat (from_char_to_index c) = 65535"
    by (metis word_unat_eq_iff)
  then show ?thesis by (auto simp: unat_index char_number_def)
qed

lemma edge_valid: "edge p k (unat (from_char_to_index c)) = Some l \<Longrightarrow> unat (from_char_to_index c) < 39"
  by (simp add: edge_def split: if_splits)

lemma root_no_walk:
  assumes "root_node p r" "walk p k w = Some r"
  shows "w = [] \<and> k = r"
proof (cases w rule: rev_cases)
  case (snoc u c)
  then show ?thesis using assms by (auto simp: walk_append root_node_def split: option.splits)
qed (use assms in simp)

text \<open>The last step of a walk is determined by where it leads.\<close>

lemma walk_last:
  assumes "forest p" "root_node p r" "edge p k (unat (from_char_to_index c)) = Some l"
  shows "walk p r w = Some l \<longleftrightarrow> (\<exists>u. w = u @ [c] \<and> walk p r u = Some k)"
proof
  assume w: "walk p r w = Some l"
  then have "w \<noteq> []" using assms(2,3) by (auto simp: root_node_def)
  then obtain u d where u: "w = u @ [d]" by (cases w rule: rev_cases) auto
  then obtain k' where k': "walk p r u = Some k'" "edge p k' (unat (from_char_to_index d)) = Some l"
    using w by (auto simp: walk_append split: option.splits)
  then have e: "k' = k" "unat (from_char_to_index d) = unat (from_char_to_index c)"
    using forestD(5) [OF assms(1) k'(2) assms(3)] by simp_all
  then have "from_char_to_index c = from_char_to_index d" by (metis word_unat_eq_iff)
  then have "c = d" by (rule index_inj [OF edge_valid [OF assms(3)]])
  then show "\<exists>u. w = u @ [c] \<and> walk p r u = Some k" using u k' e by blast
qed (use assms in \<open>auto simp: walk_append\<close>)

section \<open>Insertion\<close>

text \<open>A pool that agrees with \<open>p\<close> up to the marks.\<close>

lemma set_end_edges:
  assumes "forest p" "m < length p" "p' = p[m := set_end True (p ! m)]"
  shows "forest p'" "edge p' = edge p" "walk p' = walk p" "length p' = length p" "root_node p' = root_node p"
    "\<And>k. k < length p \<Longrightarrow> is_end_of_word (p' ! k) \<longleftrightarrow> is_end_of_word (p ! k) \<or> k = m"
proof -
  have n: "children (p' ! k) = children (p ! k)" "node_index (p' ! k) = node_index (p ! k)" for k
    using assms(2) by (cases "k = m"; simp add: assms(3) set_end_def)+
  show l: "length p' = length p" by (simp add: assms(3))
  show e: "edge p' = edge p" by (intro ext) (simp add: edge_def n l)
  show "walk p' = walk p"
  proof (intro ext)
    fix k w show "walk p' k w = walk p k w" by (induction w arbitrary: k) (simp_all add: e split: option.split)
  qed
  show "forest p'" using assms(1) by (simp add: forest_def e l n)
  show "root_node p' = root_node p" by (intro ext) (simp add: root_node_def e l)
  show "is_end_of_word (p' ! k) \<longleftrightarrow> is_end_of_word (p ! k) \<or> k = m" if "k < length p" for k
    using that assms(2) by (cases "k = m") (simp_all add: assms(3) set_end_def)
qed

text \<open>A pool with a new leaf.\<close>

lemma unat_index_of: "n < 65536 \<Longrightarrow> unat (word_of_nat n :: u16) = n"
  by (simp add: unat_of_nat)

lemma new_root:
  assumes "forest p" "Suc (length p) < 65536" "p' = p @ [TrieNode_new (word_of_nat (length p))]"
  shows "forest p'" "edge p' = edge p" "walk p' = walk p" "root_node p' (length p)"
    "root_node p r \<Longrightarrow> root_node p' r" "\<And>k. k < length p \<Longrightarrow> p' ! k = p ! k" "\<not> is_end_of_word (p' ! length p)"
proof -
  have new: "children (p' ! length p) = replicate 39 (- 1)" "node_index (p' ! length p) = word_of_nat (length p)"
    by (simp_all add: assms(3) TrieNode_new_def)
  show old: "p' ! k = p ! k" if "k < length p" for k using that by (simp add: assms(3) nth_append)
  show e: "edge p' = edge p"
  proof (intro ext)
    fix k a show "edge p' k a = edge p k a"
      using new(1) old [of k] by (cases "k = length p") (auto simp: edge_def assms(3))
  qed
  show "walk p' = walk p"
  proof (intro ext)
    fix k w show "walk p' k w = walk p k w" by (induction w arbitrary: k) (simp_all add: e split: option.split)
  qed
  show "forest p'"
    unfolding forest_def e
  proof (intro conjI allI impI)
    show "length p' < 65536" using assms(2) by (simp add: assms(3))
    fix k assume k: "k < length p'"
    then have c: "k < length p \<or> k = length p" by (auto simp: assms(3))
    show "node_index (p' ! k) = word_of_nat k" using c old forestD(2) [OF assms(1)] new by auto
    show "length (children (p' ! k)) = 39" using c old forestD(3) [OF assms(1)] new by auto
  next
    fix k a l assume "edge p k a = Some l"
    then show "l < length p'" using forestD(4) [OF assms(1)] by (simp add: assms(3) less_Suc_eq)
  next
    fix k a k' a' l assume "edge p k a = Some l" "edge p k' a' = Some l"
    then show "k = k'" "a = a'" using forestD(5) [OF assms(1)] by blast+
  qed
  show "root_node p' (length p)" "root_node p r \<Longrightarrow> root_node p' r"
    using forestD(4) [OF assms(1)] by (auto simp: root_node_def e) (auto simp: assms(3))
  show "\<not> is_end_of_word (p' ! length p)" by (simp add: assms(3) TrieNode_new_def)
qed

lemma new_child:
  assumes "forest p" "unat cur < length p" "unat (from_char_to_index c) < 39" "Suc (length p) < 65536"
    and "edge p (unat cur) (unat (from_char_to_index c)) = None"
    and "p' = upd_node cur (set_child c (word_of_nat (length p))) (p @ [TrieNode_new (word_of_nat (length p))])"
  shows "forest p'" "length p' = Suc (length p)" "root_node p r \<Longrightarrow> root_node p' r"
    "edge p' = (\<lambda>k a. if k = unat cur \<and> a = unat (from_char_to_index c) then Some (length p) else edge p k a)"
    "\<And>k. k < length p \<Longrightarrow> is_end_of_word (p' ! k) = is_end_of_word (p ! k)" "\<not> is_end_of_word (p' ! length p)"
proof -
  define q where "q = p @ [TrieNode_new (word_of_nat (length p))]"
  define a where "a = unat (from_char_to_index c)"
  note new = new_root [OF assms(1,4) q_def]
  have lq: "length q = Suc (length p)" by (simp add: q_def)
  have cur: "unat cur < length q" "unat cur \<noteq> length p" using assms(2) lq by simp_all
  have p': "p' = q[unat cur := set_child c (word_of_nat (length p)) (q ! unat cur)]" by (simp add: assms(6) q_def)
  have lc: "length (children (q ! unat cur)) = 39" using forestD(3) [OF new(1) cur(1)] .
  show l: "length p' = Suc (length p)" by (simp add: p' lq)
  have a: "a < 39" using assms(3) by (simp add: a_def)
  have ch: "children (p' ! unat cur) = (children (q ! unat cur))[a := word_of_nat (length p)]"
    using cur(1) a lc by (simp add: p' set_child_def Let_def a_def)
  have other: "p' ! k = q ! k" if "k \<noteq> unat cur" for k using that by (simp add: p')
  have ni: "node_index (p' ! k) = node_index (q ! k)" "is_end_of_word (p' ! k) = is_end_of_word (q ! k)"
    "length (children (p' ! k)) = length (children (q ! k))" for k
    using cur(1) other [of k] by (cases "k = unat cur"; simp add: p' set_child_def Let_def)+
  have u: "unat (word_of_nat (length p) :: u16) = length p" using assms(4) by (simp add: unat_index_of)
  have m1: "unat (- 1 :: u16) = 65535" by (simp add: unsigned_minus_1_eq_mask mask_eq_exp_minus_1)
  have w: "(word_of_nat (length p) :: u16) \<noteq> - 1"
  proof
    assume "(word_of_nat (length p) :: u16) = - 1"
    then have "length p = 65535" using u m1 by simp
    then show False using assms(4) by simp
  qed
  show e: "edge p' = (\<lambda>k a. if k = unat cur \<and> a = unat (from_char_to_index c) then Some (length p) else edge p k a)"
  proof (intro ext)
    fix k b
    have "edge p' k b = (if k = unat cur \<and> b = a then Some (length p) else edge q k b)"
      using other [of k] ch a lc u w cur(1) l lq by (cases "k = unat cur") (auto simp: edge_def nth_list_update)
    then show "edge p' k b = (if k = unat cur \<and> b = unat (from_char_to_index c) then Some (length p) else edge p k b)"
      by (simp add: new(2) a_def)
  qed
  show "is_end_of_word (p' ! k) = is_end_of_word (p ! k)" if "k < length p" for k using that new(6) ni by simp
  show "\<not> is_end_of_word (p' ! length p)" using new(7) ni by simp
  have fresh: "edge p k b \<noteq> Some (length p)" for k b using forestD(4) [OF assms(1), of k b "length p"] by auto
  show "root_node p r \<Longrightarrow> root_node p' r" using l by (auto simp: root_node_def e)
  show "forest p'"
    unfolding forest_def
  proof (intro conjI allI impI)
    show "length p' < 65536" using l assms(4) by simp
    fix k assume "k < length p'"
    then show "node_index (p' ! k) = word_of_nat k" "length (children (p' ! k)) = 39"
      using forestD(2,3) [OF new(1), of k] l lq ni by simp_all
  next
    fix k b m assume "edge p' k b = Some m"
    then show "m < length p'" using forestD(4) [OF assms(1), of k b m] l by (auto simp: e split: if_splits)
  next
    fix k b k' b' m assume "edge p' k b = Some m" "edge p' k' b' = Some m"
    then show "k = k'" "b = b'"
      using forestD(5) [OF assms(1), of k b m k' b'] fresh [of k b] fresh [of k' b'] by (auto simp: e split: if_splits)
  qed
qed

lemma walk_new_child:
  assumes "forest p" "k < length p" "unat (from_char_to_index c) < 39" "edge p k (unat (from_char_to_index c)) = None"
    and e: "edge p' = (\<lambda>k' a. if k' = k \<and> a = unat (from_char_to_index c) then Some (length p) else edge p k' a)"
    and "r < length p"
  shows "walk p' r w = (if \<exists>u. w = u @ [c] \<and> walk p r u = Some k then Some (length p) else walk p r w)"
  using assms(6)
proof (induction w arbitrary: r)
  case (Cons d ds)
  have leaf: "walk p' (length p) v = None" if "v \<noteq> []" for v
    using that assms(2) by (cases v) (auto simp: e edge_def)
  show ?case
  proof (cases "r = k \<and> d = c")
    case True
    have "\<not> (\<exists>u. c # ds = u @ [c] \<and> walk p k u = Some k)" if "ds \<noteq> []"
    proof
      assume "\<exists>u. c # ds = u @ [c] \<and> walk p k u = Some k"
      then obtain u where "c # ds = u @ [c]" "walk p k u = Some k" by blast
      then show False using that assms(4) by (cases u) auto
    qed
    then show ?thesis using True leaf [of ds] assms(4) by (cases "ds = []") (auto simp: e)
  next
    case False
    have idx: "\<not> (r = k \<and> unat (from_char_to_index d) = unat (from_char_to_index c))"
      using False index_inj [OF assms(3), of d] by (metis word_unat_eq_iff)
    show ?thesis
    proof (cases "edge p r (unat (from_char_to_index d))")
      case None
      have "\<not> (\<exists>u. d # ds = u @ [c] \<and> walk p r u = Some k)"
      proof
        assume "\<exists>u. d # ds = u @ [c] \<and> walk p r u = Some k"
        then obtain u where "d # ds = u @ [c]" "walk p r u = Some k" by blast
        then show False using None False by (cases u) auto
      qed
      then show ?thesis using None idx by (auto simp: e)
    next
      case (Some l)
      have "(\<exists>u. d # ds = u @ [c] \<and> walk p r u = Some k) \<longleftrightarrow> (\<exists>u. ds = u @ [c] \<and> walk p l u = Some k)"
      proof
        assume "\<exists>u. d # ds = u @ [c] \<and> walk p r u = Some k"
        then obtain u where "d # ds = u @ [c]" "walk p r u = Some k" by blast
        then show "\<exists>u. ds = u @ [c] \<and> walk p l u = Some k" using Some False by (cases u) auto
      next
        assume "\<exists>u. ds = u @ [c] \<and> walk p l u = Some k"
        then obtain u where "ds = u @ [c]" "walk p l u = Some k" by blast
        then show "\<exists>u. d # ds = u @ [c] \<and> walk p r u = Some k" using Some by (intro exI [of _ "d # u"]) simp
      qed
      moreover have "walk p' r (d # ds) = walk p' l ds" "walk p r (d # ds) = walk p l ds"
        using Some idx by (auto simp: e)
      ultimately show ?thesis using Cons.IH [OF forestD(4) [OF assms(1) Some]] by (simp only:)
    qed
  qed
qed simp

text \<open>The words of the trie with root \<open>r\<close>.\<close>

definition accepts :: "trie_pool \<Rightarrow> nat \<Rightarrow> string \<Rightarrow> bool" where
  "accepts p r w \<longleftrightarrow> (\<exists>l. walk p r w = Some l \<and> is_end_of_word (p ! l))"

abbreviation valid_chars :: "string \<Rightarrow> bool" where
  "valid_chars w \<equiv> \<forall>c \<in> set w. from_char_to_index c \<noteq> - 1"

lemma walk_fresh: "forest p \<Longrightarrow> r < length p \<Longrightarrow> walk p r u \<noteq> Some (length p)"
  using walk_in_pool by blast

lemma trie_insert_spec:
  assumes "forest p" "unat cur < length p" "length p + length cs < 65536" "trie_insert cur cs p = (ok, p')"
  shows "forest p' \<and> length p \<le> length p' \<and> length p' \<le> length p + length cs \<and> (ok \<longleftrightarrow> valid_chars cs) \<and>
    (\<forall>r. root_node p r \<longrightarrow> root_node p' r) \<and>
    (\<forall>r w. root_node p r \<longrightarrow>
       (accepts p' r w \<longleftrightarrow> accepts p r w \<or> ok \<and> (\<exists>u. w = u @ cs \<and> walk p r u = Some (unat cur))))"
  using assms
proof (induction cs arbitrary: cur p)
  case Nil
  have p': "ok" "p' = p[unat cur := set_end True (p ! unat cur)]" using Nil.prems(4) by simp_all
  note s = set_end_edges [OF Nil.prems(1,2) p'(2)]
  have "accepts p' r w \<longleftrightarrow> accepts p r w \<or> walk p r w = Some (unat cur)" if "root_node p r" for r w
    using s(6) walk_in_pool [OF Nil.prems(1)] that by (fastforce simp: accepts_def s(3) root_node_def)
  then show ?case using s(1,4,5) p'(1) by simp
next
  case (Cons c cs)
  let ?k = "unat cur" and ?a = "unat (from_char_to_index c)"
  show ?case
  proof (cases "from_char_to_index c = - 1")
    case True
    then show ?thesis using Cons.prems by simp
  next
    case False
    then have a: "?a < 39" by (simp add: index_valid)
    note gc = get_child_edge [OF Cons.prems(1,2), of c]
    show ?thesis
    proof (cases "edge p ?k ?a")
      case (Some l)
      have l: "l < length p" by (rule forestD(4) [OF Cons.prems(1) Some])
      then have i: "node_index (p ! l) = word_of_nat l" "unat (word_of_nat l :: u16) = l"
        using forestD(1,2) [OF Cons.prems(1)] by (auto simp: unat_index_of)
      have e: "trie_insert (word_of_nat l) cs p = (ok, p')"
        using Cons.prems(4) False gc Some i by (simp add: getNode_def)
      have w: "(\<exists>u. w = u @ cs \<and> walk p r u = Some l) \<longleftrightarrow> (\<exists>u. w = u @ c # cs \<and> walk p r u = Some ?k)"
        if "root_node p r" for r w
        unfolding walk_last [OF Cons.prems(1) that Some] by auto
      show ?thesis
        using Cons.IH [OF Cons.prems(1) _ _ e] l i(2) Cons.prems(3) w False by simp
    next
      case None
      let ?i = "word_of_nat (length p) :: u16"
      define p1 where "p1 = upd_node cur (set_child c ?i) (p @ [TrieNode_new ?i])"
      have l: "Suc (length p) < 65536" using Cons.prems(3) by simp
      then have ui: "unat ?i = length p" by (simp add: unat_index_of)
      note n = new_child [OF Cons.prems(1,2) a l None p1_def]
      note wk = walk_new_child [OF Cons.prems(1,2) a None n(4)]
      have e: "trie_insert ?i cs p1 = (ok, p')"
        using Cons.prems(4) False gc None by (simp add: getNode_def allocateNode_def Let_def p1_def)
      have acc: "accepts p1 r w \<longleftrightarrow> accepts p r w" if "root_node p r" for r w
      proof -
        have r: "r < length p" using that by (simp add: root_node_def)
        show ?thesis
        proof (cases "\<exists>u. w = u @ [c] \<and> walk p r u = Some ?k")
          case True
          then have "walk p r w = None" using None by (auto simp: walk_append)
          then show ?thesis using True n(6) wk [OF r, of w] by (auto simp: accepts_def)
        next
          case False
          then show ?thesis
            using n(5) walk_in_pool [OF Cons.prems(1) r, of w] wk [OF r, of w] by (auto simp: accepts_def)
        qed
      qed
      have w: "walk p1 r u = Some (length p) \<longleftrightarrow> (\<exists>v. u = v @ [c] \<and> walk p r v = Some ?k)" if "root_node p r" for r u
        using wk [of r u] walk_fresh [OF Cons.prems(1), of r u] that by (simp add: root_node_def)
      have w': "(\<exists>u. w = u @ cs \<and> walk p1 r u = Some (length p)) \<longleftrightarrow> (\<exists>u. w = u @ c # cs \<and> walk p r u = Some ?k)"
        if "root_node p r" for r w
        unfolding w [OF that] by auto
      show ?thesis
        using Cons.IH [OF n(1) _ _ e] n(2,3) ui Cons.prems(3) acc w' False by simp
    qed
  qed
qed

lemma trie_search_accepts:
  "forest p \<Longrightarrow> unat r < length p \<Longrightarrow> trie_search r w p \<longleftrightarrow> accepts p (unat r) w"
  by (simp add: trie_search_def getNode_def search_walk accepts_def)

text \<open>One trie: a set of words, and no trie sees what another one gets.\<close>

theorem trie_is_set:
  assumes "forest p" "root_node p (unat r)" "root_node p (unat r')" "length p + length s < 65536"
    and "trie_insert r s p = (ok, p')"
  shows "(ok \<longleftrightarrow> valid_chars s) \<and> forest p' \<and> root_node p' (unat r') \<and>
    (trie_search r' w p' \<longleftrightarrow> trie_search r' w p \<or> ok \<and> r' = r \<and> w = s)"
proof -
  have in_pool: "unat r < length p" "unat r' < length p" using assms(2,3) by (simp_all add: root_node_def)
  note s = trie_insert_spec [OF assms(1) in_pool(1) assms(4,5)]
  have "(\<exists>u. w = u @ s \<and> walk p (unat r') u = Some (unat r)) \<longleftrightarrow> r' = r \<and> w = s"
    using root_no_walk [OF assms(2), of "unat r'"] by (auto simp: word_unat_eq_iff)
  then have "accepts p' (unat r') w \<longleftrightarrow> accepts p (unat r') w \<or> ok \<and> r' = r \<and> w = s"
    using s assms(3) by simp
  then show ?thesis
    using s assms(1,3) in_pool by (simp add: trie_search_accepts)
qed

section \<open>The set of patterns\<close>

definition trieset_wf :: "TrieSet \<Rightarrow> trie_pool \<Rightarrow> bool" where
  "trieset_wf t p \<longleftrightarrow> forest p \<and> root_node p (unat (exact_root t)) \<and>
     distinct (map fst (wildcard_tries t)) \<and>
     (\<forall>(n, r) \<in> set (wildcard_tries t). root_node p (unat r) \<and> r \<noteq> exact_root t) \<and>
     (\<forall>(n, r) \<in> set (wildcard_tries t). \<forall>(n', r') \<in> set (wildcard_tries t). r = r' \<longrightarrow> n = n')"

lemma search_wildcards_iff:
  "search_wildcards ts s p \<longleftrightarrow> (\<exists>(n, r) \<in> set ts. n \<le> length s \<and> trie_search r (drop (length s - n) s) p)"
  by (induction ts s p rule: search_wildcards.induct) auto

text \<open>What a pattern matches.\<close>

definition pattern_matches :: "string \<Rightarrow> string \<Rightarrow> bool" where
  "pattern_matches pat s \<longleftrightarrow> (if hd pat = CHR ''*'' then \<exists>u. s = u @ tl pat else s = pat)"

definition valid_pattern :: "string \<Rightarrow> bool" where
  "valid_pattern pat \<longleftrightarrow> pat \<noteq> [] \<and> valid_chars (if hd pat = CHR ''*'' then tl pat else pat)"

lemma allowed_numbers: "map of_char allowed = 42 # [97 ..< 123] @ [48 ..< 58] @ [46, 95, 45 :: nat]"
  by (simp add: allowed_def upt_rec)

lemma char_number_valid:
  "char_number n < 39 \<longleftrightarrow> 97 \<le> n \<and> n < 123 \<or> 48 \<le> n \<and> n < 58 \<or> n = 46 \<or> n = 95 \<or> n = 45"
  by (auto simp: char_number_def)

lemma allowed_iff:
  "c \<in> set allowed \<longleftrightarrow> of_char c = (42 :: nat) \<or> char_number (of_char c) < 39"
proof -
  have "c \<in> set allowed \<longleftrightarrow> of_char c \<in> set (map (of_char :: char \<Rightarrow> nat) allowed)" by (auto simp: image_iff)
  then show ?thesis
    by (simp only: allowed_numbers char_number_valid list.set set_append set_upt Un_iff insert_iff empty_iff
        atLeastLessThan_iff disj_assoc simp_thms)
qed

lemma star_char: "c = CHR ''*'' \<longleftrightarrow> of_char c = (42 :: nat)"
proof -
  have "of_char (CHR ''*'') = (42 :: nat)" by simp
  then show ?thesis by (metis of_char_eq_iff)
qed

lemma allowed_chars: "from_char_to_index c \<noteq> - 1 \<longleftrightarrow> c \<in> set allowed \<and> c \<noteq> CHR ''*''"
proof -
  have "\<not> char_number 42 < 39" by (simp add: char_number_def)
  then show ?thesis unfolding allowed_iff star_char index_valid unat_index by metis
qed

lemma suffix_drop: "(\<exists>u. s = u @ v) \<longleftrightarrow> length v \<le> length s \<and> drop (length s - length v) s = v"
proof
  assume "length v \<le> length s \<and> drop (length s - length v) s = v"
  then have "s = take (length s - length v) s @ v" using append_take_drop_id [of "length s - length v" s] by simp
  then show "\<exists>u. s = u @ v" by blast
qed auto

lemma trieset_wfD:
  assumes "trieset_wf t p"
  shows "forest p" "root_node p (unat (exact_root t))" "distinct (map fst (wildcard_tries t))"
    "\<And>n r. (n, r) \<in> set (wildcard_tries t) \<Longrightarrow> root_node p (unat r) \<and> r \<noteq> exact_root t"
    "\<And>n n' r. (n, r) \<in> set (wildcard_tries t) \<Longrightarrow> (n', r) \<in> set (wildcard_tries t) \<Longrightarrow> n = n'"
  using assms unfolding trieset_wf_def by blast+

text \<open>Inserting into one of the tries of the set.\<close>

lemma trieset_insert_root:
  assumes "trieset_wf t p" "root_node p (unat r)" "length p + length v < 65536" "trie_insert r v p = (ok, p')"
  shows "(ok \<longleftrightarrow> valid_chars v) \<and> trieset_wf t p' \<and>
    (trie_search (exact_root t) s p' \<longleftrightarrow> trie_search (exact_root t) s p \<or> ok \<and> r = exact_root t \<and> s = v) \<and>
    (search_wildcards (wildcard_tries t) s p' \<longleftrightarrow> search_wildcards (wildcard_tries t) s p \<or>
       (ok \<and> (\<exists>n. (n, r) \<in> set (wildcard_tries t) \<and> n \<le> length s \<and> drop (length s - n) s = v)))"
proof -
  note w = trieset_wfD [OF assms(1)]
  note ins = trie_is_set [OF w(1) assms(2) _ assms(3,4)]
  have e: "forest p'" "root_node p' (unat (exact_root t))" "ok \<longleftrightarrow> valid_chars v"
    "trie_search (exact_root t) s p' \<longleftrightarrow> trie_search (exact_root t) s p \<or> ok \<and> r = exact_root t \<and> s = v"
    using ins [OF w(2), of s] by auto
  have o: "root_node p' (unat r')" "trie_search r' x p' \<longleftrightarrow> trie_search r' x p \<or> ok \<and> r' = r \<and> x = v"
    if "(n, r') \<in> set (wildcard_tries t)" for n r' x
    using ins [of r' x] w(4) [OF that] by auto
  have "trieset_wf t p'" using assms(1) e(1,2) o(1) by (auto simp: trieset_wf_def)
  moreover have "search_wildcards (wildcard_tries t) s p' \<longleftrightarrow> search_wildcards (wildcard_tries t) s p \<or>
       ok \<and> (\<exists>n. (n, r) \<in> set (wildcard_tries t) \<and> n \<le> length s \<and> drop (length s - n) s = v)"
    unfolding search_wildcards_iff using o(2) by fastforce
  ultimately show ?thesis using e by blast
qed

lemma trieset_new_root:
  assumes "trieset_wf t p" "Suc (length p) < 65536" "allocateNode p = (r, p1)"
  shows "trieset_wf t p1" "root_node p1 (unat r)" "length p1 = Suc (length p)"
    "\<And>r' x. unat r' < length p \<Longrightarrow> trie_search r' x p1 = trie_search r' x p"
    "\<And>x. \<not> trie_search r x p1" "unat r = length p"
proof -
  have p1: "p1 = p @ [TrieNode_new (word_of_nat (length p))]" "r = word_of_nat (length p)"
    using assms(3) by (auto simp: allocateNode_def Let_def)
  note w = trieset_wfD [OF assms(1)] and n = new_root [OF w(1) assms(2) p1(1)]
  show r: "unat r = length p" using assms(2) by (simp add: p1(2) unat_index_of)
  show l: "length p1 = Suc (length p)" by (simp add: p1(1))
  show "root_node p1 (unat r)" using n(4) r by simp
  show "trieset_wf t p1" using assms(1) n(1,5) by (auto simp: trieset_wf_def)
  show "trie_search r' x p1 = trie_search r' x p" if "unat r' < length p" for r' x
    using that l trie_search_accepts [OF n(1), of r' x] trie_search_accepts [OF w(1) that, of x]
      walk_in_pool [OF w(1) that, of x] n(3,6) by (auto simp: accepts_def)
  show "\<not> trie_search r x p1" for x
  proof -
    have "walk p1 (length p) x = Some l \<longleftrightarrow> x = [] \<and> l = length p" for l
      by (cases x) (auto simp: n(2) n(3) edge_def)
    then show ?thesis using trie_search_accepts [OF n(1), of r x] n(7) l r by (auto simp: accepts_def)
  qed
qed

lemma insert_wildcard_spec:
  assumes "trieset_wf t p" "Suc (length p) + length v < 65536" "insert_wildcard v t p = (ok, t', p')"
  shows "(ok \<longleftrightarrow> valid_chars v) \<and> trieset_wf t' p' \<and>
    (TrieSet_search s t' p' \<longleftrightarrow> TrieSet_search s t p \<or> ok \<and> (\<exists>u. s = u @ v))"
proof (cases "map_of (wildcard_tries t) (length v)")
  case (Some r)
  note w = trieset_wfD [OF assms(1)]
  have r: "(length v, r) \<in> set (wildcard_tries t)" using Some by (rule map_of_SomeD)
  have e: "trie_insert r v p = (ok, p')" "t' = t"
    using assms(3) Some by (auto simp: insert_wildcard_def split: prod.splits)
  have "(\<exists>n. (n, r) \<in> set (wildcard_tries t) \<and> n \<le> length s \<and> drop (length s - n) s = v) \<longleftrightarrow> (\<exists>u. s = u @ v)"
    unfolding suffix_drop by (metis r w(5))
  then show ?thesis
    using trieset_insert_root [OF assms(1) _ _ e(1), of s] w(4) [OF r] assms(2) e(2) by (auto simp: TrieSet_search_def)
next
  case None
  obtain r p1 where a: "allocateNode p = (r, p1)" by (cases "allocateNode p")
  obtain p2 where e: "trie_insert r v p1 = (ok, p2)" "p' = p2"
    "t' = (if ok then t\<lparr>wildcard_tries := insort_key fst (length v, r) (wildcard_tries t)\<rparr> else t)"
    using assms(3) None a by (auto simp: insert_wildcard_def split: prod.splits if_splits)
  note w = trieset_wfD [OF assms(1)]
  have l: "Suc (length p) < 65536" using assms(2) by simp
  note n = trieset_new_root [OF assms(1) l a]
  have l1: "length p1 + length v < 65536" using assms(2) n(3) by simp
  note i = trieset_insert_root [OF n(1,2) l1 e(1), of s] and i2 = trie_is_set [OF trieset_wfD(1) [OF n(1)] n(2) n(2) l1 e(1)]
  have old: "unat r' < length p" "r' \<noteq> r" if "r' = exact_root t \<or> (\<exists>k. (k, r') \<in> set (wildcard_tries t))" for r'
  proof -
    have "root_node p (unat r')" using that w(2,4) by blast
    then show "unat r' < length p" by (simp add: root_node_def)
    then show "r' \<noteq> r" using n(6) by auto
  qed
  have keep: "trie_search (exact_root t) s p2 = trie_search (exact_root t) s p"
    "search_wildcards (wildcard_tries t) s p2 = search_wildcards (wildcard_tries t) s p"
  proof -
    show "trie_search (exact_root t) s p2 = trie_search (exact_root t) s p" using i n(4) old(1) old(2) [of "exact_root t"] by auto
    have "trie_search r' x p1 = trie_search r' x p" if "(k, r') \<in> set (wildcard_tries t)" for k r' x
      using n(4) old(1) that by blast
    then have "search_wildcards (wildcard_tries t) s p1 = search_wildcards (wildcard_tries t) s p"
      unfolding search_wildcards_iff by blast
    then show "search_wildcards (wildcard_tries t) s p2 = search_wildcards (wildcard_tries t) s p" using i old(2) by blast
  qed
  show ?thesis
  proof (cases ok)
    case False
    have "\<not> valid_chars v" "trieset_wf t p2" using i False by blast+
    moreover have "TrieSet_search s t p2 = TrieSet_search s t p" using keep by (simp add: TrieSet_search_def)
    moreover have "t' = t" "p' = p2" using e False by simp_all
    ultimately show ?thesis using False by simp
  next
    case True
    have ws: "set (wildcard_tries t') = insert (length v, r) (set (wildcard_tries t))" "exact_root t' = exact_root t"
      using True e(3) by (simp_all add: set_insort_key)
    have fresh: "length v \<notin> fst ` set (wildcard_tries t)" using None by (simp add: map_of_eq_None_iff)
    have "distinct (map fst (wildcard_tries t'))"
    proof -
      have "set (map fst (wildcard_tries t')) = insert (length v) (set (map fst (wildcard_tries t)))" by (simp add: ws)
      moreover have "length (wildcard_tries t') = Suc (length (wildcard_tries t))" using True e(3) by simp
      ultimately show ?thesis
        using distinct_card [OF w(3)] fresh by (intro card_distinct) simp
    qed
    moreover have wf2: "trieset_wf t p2" using i by blast
    note w2 = trieset_wfD [OF wf2]
    have "root_node p2 (unat r)" "r \<noteq> exact_root t" using i2 old(2) [of "exact_root t"] by auto
    then have "\<forall>(k, r') \<in> set (wildcard_tries t'). root_node p2 (unat r') \<and> r' \<noteq> exact_root t'"
      using w2(4) unfolding ws by auto
    moreover have "r1 = r2 \<longrightarrow> k1 = k2" if "(k1, r1) \<in> set (wildcard_tries t')" "(k2, r2) \<in> set (wildcard_tries t')"
      for k1 k2 r1 r2
      using that old(2) w2(5) unfolding ws by auto
    ultimately have "trieset_wf t' p2"
      using w2(1,2) ws(2) unfolding trieset_wf_def by auto
    moreover have "trie_search r x p2 \<longleftrightarrow> x = v" for x using i2 [of x] n(5) True by simp
    then have "TrieSet_search s t' p2 \<longleftrightarrow> TrieSet_search s t p \<or> (\<exists>u. s = u @ v)"
      using keep unfolding TrieSet_search_def search_wildcards_iff ws suffix_drop by auto
    ultimately show ?thesis using i True e(2) by simp
  qed
qed

text \<open>
  C25. \<open>TrieSet\<close> is a set of patterns: \<open>insert\<close> accepts exactly the non-empty patterns over the
  alphabet whose only wildcard is a leading one, and afterwards \<open>search\<close> finds what it found before
  and the names that the new pattern matches (equal, or ending in what follows the wildcard). No
  other pattern is affected, although all tries share one pool.
\<close>

theorem trieset_refines:
  assumes "trieset_wf t p" "Suc (length p) + length pat < 65536" "TrieSet_insert pat t p = (ok, t', p')"
  shows "(ok \<longleftrightarrow> valid_pattern pat) \<and> trieset_wf t' p' \<and>
    (TrieSet_search s t' p' \<longleftrightarrow> TrieSet_search s t p \<or> ok \<and> pattern_matches pat s)"
proof (cases "pat = [] \<or> (\<exists>c \<in> set pat. c \<notin> set allowed)")
  case True
  have "CHR ''*'' \<in> set allowed" by (simp add: allowed_def)
  then have "\<not> valid_pattern pat"
    using True allowed_chars by (cases pat) (auto simp: valid_pattern_def)
  moreover have "TrieSet_insert pat t p = (False, t, p)"
    using True by (cases "pat = []") (simp_all add: TrieSet_insert_def)
  then have "\<not> ok" "t' = t" "p' = p" using assms(3) by simp_all
  ultimately show ?thesis using assms(1) by simp
next
  case False
  note w = trieset_wfD [OF assms(1)]
  show ?thesis
  proof (cases "hd pat = CHR ''*''")
    case True
    have e: "insert_wildcard (tl pat) t p = (ok, t', p')" using assms(3) True False by (auto simp: TrieSet_insert_def)
    have l: "Suc (length p) + length (tl pat) < 65536" using assms(2) by simp
    show ?thesis
      using insert_wildcard_spec [OF assms(1) l e, of s] True False by (simp add: valid_pattern_def pattern_matches_def)
  next
    case star: False
    then have e: "trie_insert (exact_root t) pat p = (ok, p')" "t' = t"
      using assms(3) False by (auto simp: TrieSet_insert_def insert_exact_def split: prod.splits)
    have "\<not> (\<exists>n. (n, exact_root t) \<in> set (wildcard_tries t))" using w(4) by blast
    then show ?thesis
      using trieset_insert_root [OF assms(1) w(2) _ e(1), of s] star False assms(2) e(2)
      by (auto simp: valid_pattern_def pattern_matches_def TrieSet_search_def)
  qed
qed

text \<open>A pool of nodes without children.\<close>

definition leaves :: "nat \<Rightarrow> trie_pool" where
  "leaves n = map (\<lambda>k. TrieNode_new (word_of_nat k)) [0 ..< n]"

lemma leaves_edge [simp]: "edge (leaves n) k a = None"
  by (simp add: edge_def leaves_def TrieNode_new_def)

lemma leaves_forest: "n < 65536 \<Longrightarrow> forest (leaves n)" "r < n \<Longrightarrow> root_node (leaves n) r"
  by (simp_all add: forest_def root_node_def) (simp_all add: leaves_def TrieNode_new_def)

lemma trieset_wf_init: "n < 65535 \<Longrightarrow> trieset_wf (fst (TrieSet_init (leaves n))) (snd (TrieSet_init (leaves n)))"
proof -
  assume n: "n < 65535"
  have "TrieSet_init (leaves n) = (\<lparr>exact_root = word_of_nat n, wildcard_tries = []\<rparr>, leaves (Suc n))"
    by (simp add: TrieSet_init_def allocateNode_def Let_def leaves_def)
  then show ?thesis using n leaves_forest(1) [of "Suc n"] leaves_forest(2) [of n "Suc n"] by (simp add: trieset_wf_def unat_index_of)
qed

lemma trieset_refines_witness:
  "\<exists>t p ok t' p'. TrieSet_insert ''*.com'' t p = (ok, t', p') \<and> ok \<and> TrieSet_search ''abc.com'' t' p' \<and>
     \<not> TrieSet_search ''abc.org'' t' p'"
proof -
  define t where "t = fst (TrieSet_init (leaves 0))"
  define p where "p = snd (TrieSet_init (leaves 0))"
  have wf: "trieset_wf t p" using trieset_wf_init [of 0] by (simp add: t_def p_def)
  have leaf: "get_child q (TrieNode_new i) c = None" for q i c
    by (simp add: get_child_def TrieNode_new_def Let_def)
  have "p = [TrieNode_new 0]" "exact_root t = 0" "wildcard_tries t = []"
    by (simp_all add: t_def p_def leaves_def TrieSet_init_def allocateNode_def Let_def)
  then have no: "\<not> TrieSet_search s t p" for s
    by (cases s) (simp_all add: leaf TrieSet_search_def trie_search_def getNode_def, simp add: TrieNode_new_def)
  obtain ok t' p' where e: "TrieSet_insert ''*.com'' t p = (ok, t', p')" by (cases "TrieSet_insert ''*.com'' t p")
  have l: "Suc (length p) + length ''*.com'' < 65536"
    by (simp add: p_def leaves_def TrieSet_init_def allocateNode_def Let_def)
  have v: "valid_pattern ''*.com''" by (simp add: valid_pattern_def index_valid unat_index char_number_def)
  have m: "pattern_matches ''*.com'' ''abc.com''" "\<not> pattern_matches ''*.com'' ''abc.org''"
    unfolding pattern_matches_def list.sel if_P [OF refl] suffix_drop by simp_all
  have "ok" "TrieSet_search ''abc.com'' t' p'" "\<not> TrieSet_search ''abc.org'' t' p'"
    using trieset_refines [OF wf l e, of "''abc.com''"] trieset_refines [OF wf l e, of "''abc.org''"] no v m by blast+
  then show ?thesis using e by blast
qed

text \<open>
  C26. The pool is limited to 65535 nodes and nothing checks it: the next node gets the index that
  means "no child", so the link to it is lost. \<open>insert\<close> still reports success, for a name that
  \<open>search\<close> does not find. The limit is shared by all tries of the process.
\<close>

theorem trie_pool_overflow:
  assumes "forest p" "unat r < length p" "length p = 65535" "valid_chars [c]"
    and "edge p (unat r) (unat (from_char_to_index c)) = None" "trie_insert r [c] p = (ok, p')"
  shows "ok \<and> \<not> trie_search r [c] p'"
proof -
  let ?a = "unat (from_char_to_index c)"
  have m1: "(word_of_nat 65535 :: u16) = - 1" by simp
  have a: "?a < 39" using assms(4) by (simp add: index_valid)
  define p1 where "p1 = upd_node r (set_child c (- 1)) (p @ [TrieNode_new (- 1)])"
  have lc: "length (children (p ! unat r)) = 39" by (rule forestD(3) [OF assms(1,2)])
  have "trie_insert (- 1) [] p1 = (ok, p')"
    using assms get_child_edge [OF assms(1,2), of c]
    by (simp add: getNode_def allocateNode_def Let_def p1_def flip: m1)
  then have p': "ok" "p' = upd_node (- 1) (set_end True) p1" by simp_all
  have u: "unat (- 1 :: u16) = 65535" by (simp add: unsigned_minus_1_eq_mask mask_eq_exp_minus_1)
  have "p' ! unat r = set_child c (- 1) (p ! unat r)"
    using assms(2,3) u by (simp add: p'(2) p1_def nth_append)
  then have "children (p' ! unat r) ! ?a = - 1" using lc a by (simp add: set_child_def Let_def)
  then have "get_child p' (p' ! unat r) c = None" by (simp add: get_child_def Let_def)
  then show ?thesis using p'(1) by (simp add: trie_search_def getNode_def)
qed

lemma trie_pool_overflow_witness:
  "\<exists>p'. trie_insert 0 ''a'' (leaves 65535) = (True, p') \<and> \<not> trie_search 0 ''a'' p'"
proof -
  obtain ok p' where e: "trie_insert 0 ''a'' (leaves 65535) = (ok, p')" by (cases "trie_insert 0 ''a'' (leaves 65535)")
  have l: "length (leaves 65535) = 65535" by (simp add: leaves_def)
  have "ok \<and> \<not> trie_search 0 ''a'' p'"
    by (rule trie_pool_overflow [OF leaves_forest(1) _ l _ leaves_edge e]) (simp_all add: l index_valid unat_index char_number_def)
  then show ?thesis using e by auto
qed

end
