(* ===== verification/Nplib_Search.thy ===== *)
theory Nplib_Search
  imports Prelude
begin

text \<open>
  Binary search in a sorted range (\<open>nplib/utils/binary_search.hpp\<close>), on \<open>std::lower_bound\<close> of the
  standard library. The tables of the server and the nodes of the database's B-tree use it.
\<close>

text \<open>\<open>std::lower_bound\<close> on the range of length \<open>n\<close> from \<open>first\<close>, by halving.\<close>

function lower_bound :: "('a \<Rightarrow> bool) \<Rightarrow> 'a list \<Rightarrow> nat \<Rightarrow> nat \<Rightarrow> nat" where
  "lower_bound lt xs first n =
     (if n = 0 then first
      else let half = n div 2; mid = first + half
        in if lt (xs ! mid) then lower_bound lt xs (mid + 1) (n - half - 1)
           else lower_bound lt xs first half)"
  by pat_completeness auto

termination by (relation "measure (\<lambda>(_, _, _, n). n)") auto

declare lower_bound.simps [simp del]

definition binary_find :: "('a \<Rightarrow> bool) \<Rightarrow> ('a \<Rightarrow> bool) \<Rightarrow> 'a list \<Rightarrow> bool \<times> nat" where
  "binary_find lt eq xs =
     (let out = lower_bound lt xs 0 (length xs)
      in (out \<noteq> length xs \<and> eq (xs ! out), out))"

lemma lower_bound_spec:
  assumes "\<And>i j. i \<le> j \<Longrightarrow> j < length xs \<Longrightarrow> lt (xs ! j) \<Longrightarrow> lt (xs ! i)" "first + n \<le> length xs"
    and "\<And>i. i < first \<Longrightarrow> lt (xs ! i)" "\<And>i. first + n \<le> i \<Longrightarrow> i < length xs \<Longrightarrow> \<not> lt (xs ! i)"
  shows "lower_bound lt xs first n \<le> length xs \<and> (\<forall>i < lower_bound lt xs first n. lt (xs ! i)) \<and>
    (\<forall>i. lower_bound lt xs first n \<le> i \<longrightarrow> i < length xs \<longrightarrow> \<not> lt (xs ! i))"
  using assms(2-)
proof (induction n arbitrary: first rule: less_induct)
  case (less n)
  show ?case
  proof (cases "n = 0")
    case True
    then show ?thesis using less.prems by (simp add: lower_bound.simps)
  next
    case False
    let ?mid = "first + n div 2"
    have mid: "n div 2 < n" "?mid < length xs" using False less.prems(1) by linarith+
    show ?thesis
    proof (cases "lt (xs ! ?mid)")
      case True
      have "lower_bound lt xs first n = lower_bound lt xs (?mid + 1) (n - n div 2 - 1)"
        using False True by (simp add: lower_bound.simps [of _ _ _ n] Let_def)
      moreover have below: "lt (xs ! i)" if "i < ?mid + 1" for i using assms(1) [of i ?mid] that mid(2) True by simp
      have len: "n - n div 2 - 1 < n" "?mid + 1 + (n - n div 2 - 1) = first + n" using False mid(1) by linarith+
      note less.IH [OF len(1), of "?mid + 1", unfolded len(2), OF less.prems(1) below less.prems(3)]
      ultimately show ?thesis by metis
    next
      case False
      have "lower_bound lt xs first n = lower_bound lt xs first (n div 2)"
        using False \<open>n \<noteq> 0\<close> by (simp add: lower_bound.simps [of _ _ _ n] Let_def)
      moreover have above: "\<not> lt (xs ! i)" if "?mid \<le> i" "i < length xs" for i using assms(1) [of ?mid i] that False by blast
      note less.IH [OF mid(1) less_imp_le [OF mid(2)] less.prems(2) above]
      ultimately show ?thesis by metis
    qed
  qed
qed

text \<open>In an array whose first \<open>n\<close> cells are a sorted range, the search looks at nothing else.\<close>

lemma lower_bound_take:
  "first + n \<le> m \<Longrightarrow> m \<le> length xs \<Longrightarrow> lower_bound lt (take m xs) first n = lower_bound lt xs first n"
proof (induction n arbitrary: first rule: less_induct)
  case (less n)
  show ?case
  proof (cases "n = 0")
    case False
    then have "n div 2 < n" "n - n div 2 - 1 < n" "first + n div 2 + 1 + (n - n div 2 - 1) \<le> m" "first + n div 2 < m"
      using less.prems by linarith+
    then show ?thesis
      using less.IH [of "n div 2" first] less.IH [of "n - n div 2 - 1" "first + n div 2 + 1"] less.prems False
      by (simp add: lower_bound.simps [of _ _ _ n] Let_def)
  qed (simp add: lower_bound.simps)
qed

lemma lower_bound_split:
  assumes "\<And>x. x \<in> set as \<Longrightarrow> lt x" "\<And>x. x \<in> set bs \<Longrightarrow> \<not> lt x" "take n xs = as @ bs" "n \<le> length xs"
  shows "lower_bound lt xs 0 n = length as"
proof -
  let ?r = "lower_bound lt (as @ bs) 0 (length (as @ bs))"
  have n: "n = length (as @ bs)" using arg_cong [OF assms(3), of length] assms(4) by simp
  have r: "lower_bound lt xs 0 n = ?r"
    using lower_bound_take [of 0 n n xs lt] assms(3,4) unfolding n [symmetric] by simp
  have lt: "lt ((as @ bs) ! i) \<longleftrightarrow> i < length as" if "i < length (as @ bs)" for i
    using assms(1,2) that by (auto simp: nth_append)
  have mono: "lt ((as @ bs) ! i)" if "i \<le> j" "j < length (as @ bs)" "lt ((as @ bs) ! j)" for i j
    using that lt [of i] lt [of j] by linarith
  have spec: "?r \<le> length (as @ bs) \<and> (\<forall>i < ?r. lt ((as @ bs) ! i)) \<and>
      (\<forall>i. ?r \<le> i \<longrightarrow> i < length (as @ bs) \<longrightarrow> \<not> lt ((as @ bs) ! i))"
    by (rule lower_bound_spec) (fact mono, simp_all)
  then have c: "?r \<le> length (as @ bs)" "\<And>i. i < ?r \<Longrightarrow> lt ((as @ bs) ! i)"
    "\<And>i. ?r \<le> i \<Longrightarrow> i < length (as @ bs) \<Longrightarrow> \<not> lt ((as @ bs) ! i)"
    by blast+
  have "\<not> length as < ?r" using c(1) c(2) [of "length as"] lt [of "length as"] by linarith
  moreover have "\<not> ?r < length as" using c(3) [OF order_refl] lt [of ?r] by fastforce
  ultimately show ?thesis using r by linarith
qed

end
