(* ===== verification/Np_Registers.thy ===== *)
theory Np_Registers
  imports Nplib_Search
begin

text \<open>
  The register tables of the server (\<open>npserver/src/protocol_base.h\<close>, \<open>protocol.cpp\<close> and
  \<open>nplib/utils/binary_search.hpp\<close>): for every controller the server keeps the registers that
  somebody has subscribed to, sorted by the value of their handle, with a reference count each, and
  the read requests into which neighbouring registers are grouped. Registers live on the heap of a
  \<open>boost::pool\<close>: \<open>malloc\<close> is a parameter that answers an address and what the memory there holds.
  The model keeps the used part of the fixed arrays as lists; writing past their ends is an error.
\<close>

section \<open>Handles and registers\<close>

record client_handle =
  dev_addr :: u8
  reg_size :: u8
  mem_addr :: u16
  handle_id :: u32

text \<open>The union of \<open>client_handle\<close> on a little-endian machine: \<open>value\<close> is its lower half.\<close>

definition handle_value :: "client_handle \<Rightarrow> u32" where
  "handle_value h = ucast (dev_addr h) OR push_bit 8 (ucast (reg_size h)) OR push_bit 16 (ucast (mem_addr h))"

definition handle64 :: "client_handle \<Rightarrow> u64" where
  "handle64 h = ucast (handle_value h) OR push_bit 32 (ucast (handle_id h))"

definition server_handle :: "client_handle \<Rightarrow> client_handle" where
  "server_handle h = h\<lparr>handle_id := 0\<rparr>"

datatype RegStatus = REG_AVAILABLE | REG_DEVICE_NOT_RESPONDED | REG_UNKNOWN

type_synonym Register_Ptr = nat

record Register =
  reg_handle :: client_handle
  op_value :: u64
  op_available :: RegStatus
  ref_cnt :: int

text \<open>The constructor does not initialise \<open>op_value\<close>: it is what the memory held.\<close>

definition Register_new :: "client_handle \<Rightarrow> u64 \<Rightarrow> Register" where
  "Register_new h garbage = \<lparr>reg_handle = h, op_value = garbage, op_available = REG_UNKNOWN, ref_cnt = 1\<rparr>"

type_synonym heap = "Register_Ptr \<Rightarrow> Register option"
type_synonym allocator = "heap \<Rightarrow> Register_Ptr \<times> u64"

record Request =
  nRegister :: u8
  nBytes :: u8
  req_data :: "Register_Ptr list"

record DeviceRequest =
  reg_a :: "Register_Ptr list"
  req_q :: "Request list"

record protocol_service =
  regs :: heap
  tag_changed :: "u8 set"
  valid_controllers :: "u8 set"
  advc_it :: "u8 option"
  req_ix :: nat
  dev_reqs :: "DeviceRequest list"
  listeners :: "nat list"

datatype protocol_error = SizeAssertion | NoSuchController | RegisterTableFull | RequestTableFull

abbreviation (input) MAX_CTRLS :: nat where "MAX_CTRLS \<equiv> 32"
abbreviation (input) MAX_REG_IN_REQ :: u8 where "MAX_REG_IN_REQ \<equiv> 13"
abbreviation (input) MAX_REGISTERS :: nat where "MAX_REGISTERS \<equiv> 1024"
abbreviation (input) MAX_REQUESTS :: nat where "MAX_REQUESTS \<equiv> 128"

definition deref :: "heap \<Rightarrow> Register_Ptr \<Rightarrow> Register" where
  "deref h p = the (h p)"

abbreviation value_of :: "heap \<Rightarrow> Register_Ptr \<Rightarrow> u32" where
  "value_of h p \<equiv> handle_value (reg_handle (deref h p))"

definition upd_reg :: "Register_Ptr \<Rightarrow> (Register \<Rightarrow> Register) \<Rightarrow> heap \<Rightarrow> heap" where
  "upd_reg p f h = h(p \<mapsto> f (deref h p))"

definition protocol_service_init :: protocol_service where
  "protocol_service_init = \<lparr>regs = Map.empty, tag_changed = {}, valid_controllers = {}, advc_it = None,
     req_ix = 0, dev_reqs = replicate MAX_CTRLS \<lparr>reg_a = [], req_q = []\<rparr>, listeners = []\<rparr>"

section \<open>Search\<close>

definition find_register :: "heap \<Rightarrow> client_handle \<Rightarrow> Register_Ptr list \<Rightarrow> bool \<times> nat" where
  "find_register h v a =
     binary_find (\<lambda>p. value_of h p < handle_value v) (\<lambda>p. value_of h p = handle_value v) a"

section \<open>Requests\<close>

text \<open>
  The inner loop of \<open>build_req\<close>: it extends the request that ends with \<open>prev\<close> by the registers of
  \<open>ps\<close> while they follow each other in memory and the request has room.
\<close>

fun request_run :: "heap \<Rightarrow> Register_Ptr \<Rightarrow> Register_Ptr list \<Rightarrow> u8 \<Rightarrow> u8 \<Rightarrow>
    Register_Ptr list \<times> u8 \<times> u8 \<times> Register_Ptr list" where
  "request_run h prev [] n bytes = ([], n, bytes, [])"
| "request_run h prev (p # ps) n bytes =
     (let a = reg_handle (deref h prev); b = reg_handle (deref h p)
      in if n < MAX_REG_IN_REQ \<and> unat (mem_addr a) + unat (reg_size a) = unat (mem_addr b)
         then let (run, n', bytes', rest) = request_run h p ps (n + 1) (bytes + reg_size b)
           in (p # run, n', bytes', rest)
         else ([], n, bytes, p # ps))"

lemma request_run_rest: "request_run h prev ps n bytes = (run, n', bytes', rest) \<Longrightarrow> ps = run @ rest"
  by (induction h prev ps n bytes arbitrary: run n' bytes' rest rule: request_run.induct)
    (auto simp: Let_def split: if_splits prod.splits)

lemma request_run_length: "(run, n', bytes', rest) = request_run h prev ps n bytes \<Longrightarrow> length rest \<le> length ps"
  using request_run_rest [OF sym] by fastforce

function build_requests :: "heap \<Rightarrow> Register_Ptr list \<Rightarrow> Request list" where
  "build_requests h [] = []"
| "build_requests h (p # ps) =
     (case request_run h p ps 1 (reg_size (reg_handle (deref h p))) of
        (run, n, bytes, rest) \<Rightarrow> \<lparr>nRegister = n, nBytes = bytes, req_data = p # run\<rparr> # build_requests h rest)"
  by pat_completeness auto

termination
  by (relation "measure (\<lambda>(_, ps). length ps)") (auto dest: request_run_length)

text \<open>The first loop: it frees the registers that nobody needs any more.\<close>

fun sweep :: "heap \<Rightarrow> Register_Ptr list \<Rightarrow> Register_Ptr list \<times> heap" where
  "sweep h [] = ([], h)"
| "sweep h (p # ps) =
     (if ref_cnt (deref h p) \<le> 0 then sweep (h(p := None)) ps
      else let (kept, h') = sweep h ps in (p # kept, h'))"

definition build_req :: "u8 \<Rightarrow> protocol_service \<Rightarrow> protocol_error + protocol_service" where
  "build_req d s =
     (let req = dev_reqs s ! unat d;
          (kept, h) = sweep (regs s) (reg_a req);
          q = build_requests h kept
      in if kept = []
         then Inr (s\<lparr>regs := h, valid_controllers := valid_controllers s - {d},
                     dev_reqs := (dev_reqs s)[unat d := \<lparr>reg_a = [], req_q = []\<rparr>]\<rparr>)
         else if MAX_REQUESTS < length q then Inl RequestTableFull
         else Inr (s\<lparr>regs := h, valid_controllers := insert d (valid_controllers s),
                     dev_reqs := (dev_reqs s)[unat d := \<lparr>reg_a = kept, req_q = q\<rparr>]\<rparr>))"

text \<open>The begin of a \<open>std::set\<close>; \<open>None\<close> is its end.\<close>

definition set_begin :: "u8 set \<Rightarrow> u8 option" where
  "set_begin A = (if A = {} then None else Some (Min A))"

definition set_next :: "u8 \<Rightarrow> u8 set \<Rightarrow> u8 option" where
  "set_next a A = set_begin {x \<in> A. a < x}"

fun build_all :: "u8 list \<Rightarrow> protocol_service \<Rightarrow> protocol_error + protocol_service" where
  "build_all [] s = Inr s"
| "build_all (d # ds) s = bindE (build_req d s) (build_all ds)"

definition rebuild :: "protocol_service \<Rightarrow> protocol_error + protocol_service" where
  "rebuild s =
     mapE (\<lambda>s. s\<lparr>tag_changed := {}, advc_it := set_begin (valid_controllers s), req_ix := 0\<rparr>)
       (build_all (sorted_list_of_set (tag_changed s)) s)"

section \<open>The operations of the service\<close>

definition add_register :: "allocator \<Rightarrow> client_handle \<Rightarrow> protocol_service \<Rightarrow>
    protocol_error + (nat \<times> Register_Ptr \<times> protocol_service)" where
  "add_register malloc c s =
     (let h = server_handle c; d = unat (dev_addr h)
      in if \<not> (0 < reg_size h \<and> reg_size h \<le> 5) then Inl SizeAssertion
         else if MAX_CTRLS \<le> d then Inl NoSuchController
         else let a = reg_a (dev_reqs s ! d); (found, it) = find_register (regs s) h a
           in if found
              then Inr (0, a ! it, s\<lparr>regs := upd_reg (a ! it) (\<lambda>r. r\<lparr>ref_cnt := ref_cnt r + 1\<rparr>) (regs s)\<rparr>)
              else if length a = MAX_REGISTERS then Inl RegisterTableFull
              else let (p, garbage) = malloc (regs s)
                in Inr (1, p, s\<lparr>regs := (regs s)(p \<mapsto> Register_new h garbage),
                     dev_reqs := (dev_reqs s)[d := (dev_reqs s ! d)\<lparr>reg_a := take it a @ p # drop it a\<rparr>],
                     tag_changed := insert (dev_addr h) (tag_changed s)\<rparr>))"

fun add_each :: "allocator \<Rightarrow> client_handle list \<Rightarrow> protocol_service \<Rightarrow>
    protocol_error + (nat \<times> Register_Ptr list \<times> protocol_service)" where
  "add_each malloc [] s = Inr (0, [], s)"
| "add_each malloc (c # cs) s =
     bindE (add_register malloc c s) (\<lambda>(n, p, s).
     mapE (\<lambda>(added, ps, s). (n + added, p # ps, s)) (add_each malloc cs s))"

definition add_registers :: "allocator \<Rightarrow> client_handle list \<Rightarrow> protocol_service \<Rightarrow>
    protocol_error + (nat \<times> Register_Ptr list \<times> protocol_service)" where
  "add_registers malloc cs s =
     bindE (add_each malloc cs s) (\<lambda>(added, ps, s).
       if added = 0 then Inr (0, ps, s) else mapE (\<lambda>s. (added, ps, s)) (rebuild s))"

definition add_one_register :: "allocator \<Rightarrow> client_handle \<Rightarrow> protocol_service \<Rightarrow>
    protocol_error + (nat \<times> Register_Ptr \<times> protocol_service)" where
  "add_one_register malloc c s =
     bindE (add_register malloc c s) (\<lambda>(n, p, s).
       if n = 0 then Inr (0, p, s) else mapE (\<lambda>s. (1, p, s)) (rebuild s))"

text \<open>One turn of the loop of \<open>release_registers\<close>, with the flag \<open>del\<close>.\<close>

definition release_one :: "client_handle \<times> int \<Rightarrow> bool \<times> protocol_service \<Rightarrow> bool \<times> protocol_service" where
  "release_one r ds =
     (case r of (c, n) \<Rightarrow> case ds of (del, s) \<Rightarrow>
      let h = server_handle c; a = reg_a (dev_reqs s ! unat (dev_addr h))
      in if dev_addr h \<notin> valid_controllers s then (del, s)
         else case find_register (regs s) h a of
           (True, it) \<Rightarrow>
             (let h' = upd_reg (a ! it) (\<lambda>r. r\<lparr>ref_cnt := ref_cnt r - n\<rparr>) (regs s)
              in (del \<or> ref_cnt (deref h' (a ! it)) \<le> 0,
                  s\<lparr>regs := h', tag_changed := insert (dev_addr h) (tag_changed s)\<rparr>))
         | (False, it) \<Rightarrow> (del, s\<lparr>tag_changed := insert (dev_addr h) (tag_changed s)\<rparr>))"

definition release_registers :: "(client_handle \<times> int) list \<Rightarrow> protocol_service \<Rightarrow>
    protocol_error + (nat \<times> protocol_service)" where
  "release_registers rs s =
     (case fold release_one rs (False, s) of
        (del, s) \<Rightarrow> if del then mapE (\<lambda>s. (1, s)) (rebuild s) else Inr (0, s))"

definition release_one_register :: "client_handle \<times> int \<Rightarrow> protocol_service \<Rightarrow>
    protocol_error + (nat \<times> protocol_service)" where
  "release_one_register r = release_registers [r]"

definition remove_device :: "u8 \<Rightarrow> protocol_service \<Rightarrow> protocol_error + protocol_service" where
  "remove_device d s =
     (if MAX_CTRLS \<le> unat d then Inl NoSuchController
      else let v = valid_controllers s - {d}
      in Inr (s\<lparr>valid_controllers := v, advc_it := set_begin v, req_ix := 0,
           regs := fold (\<lambda>p h. h(p := None)) (reg_a (dev_reqs s ! unat d)) (regs s),
           dev_reqs := (dev_reqs s)[unat d := \<lparr>reg_a = [], req_q = []\<rparr>]\<rparr>))"

definition add_listener :: "nat \<Rightarrow> protocol_service \<Rightarrow> protocol_service" where
  "add_listener l s = s\<lparr>listeners := listeners s @ [l]\<rparr>"

definition remove_listener :: "nat \<Rightarrow> protocol_service \<Rightarrow> int \<times> protocol_service" where
  "remove_listener l s =
     (if l \<in> set (listeners s) then (0, s\<lparr>listeners := remove1 l (listeners s)\<rparr>) else (- 1, s))"


section \<open>Handles as numbers\<close>

lemma unat_handle_value:
  "unat (handle_value h) = unat (dev_addr h) + 256 * unat (reg_size h) + 65536 * unat (mem_addr h)"
proof -
  let ?d = "ucast (dev_addr h) :: u32" and ?s = "push_bit 8 (ucast (reg_size h)) :: u32"
  let ?m = "push_bit 16 (ucast (mem_addr h)) :: u32"
  have "?d AND (?s OR ?m) = 0" "?s AND ?m = 0"
    by (rule bit_word_eqI; auto simp: bit_simps dest: bit_imp_le_length)+
  then have "handle_value h = ?d + (?s + ?m)" by (simp add: handle_value_def disjunctive_add_eq_or)
  moreover have "unat ?d = unat (dev_addr h)"
    using unat_less_256 [of "dev_addr h"] by (simp add: unsigned_ucast_eq take_bit_eq_mod)
  moreover have "unat ?s = 256 * unat (reg_size h)"
    using unat_less_256 [of "reg_size h"]
    by (simp add: push_bit_eq_mult unat_word_ariths unsigned_ucast_eq take_bit_eq_mod)
  moreover have "unat ?m = 65536 * unat (mem_addr h)"
    using unat_less_65536 [of "mem_addr h"]
    by (simp add: push_bit_eq_mult unat_word_ariths unsigned_ucast_eq take_bit_eq_mod)
  ultimately show ?thesis
    using unat_less_256 [of "dev_addr h"] unat_less_256 [of "reg_size h"] unat_less_65536 [of "mem_addr h"]
    by (simp add: unat_word_ariths)
qed

lemma handle_value_dev: "unat (handle_value h) mod 256 = unat (dev_addr h)"
proof -
  have "unat (handle_value h) = unat (dev_addr h) + 256 * (unat (reg_size h) + 256 * unat (mem_addr h))"
    by (simp add: unat_handle_value)
  then show ?thesis using unat_less_256 [of "dev_addr h"] by (simp only: mod_mult_self2 mod_less)
qed

lemma server_handle_simps [simp]:
  "dev_addr (server_handle c) = dev_addr c" "reg_size (server_handle c) = reg_size c"
  "mem_addr (server_handle c) = mem_addr c" "handle_id (server_handle c) = 0"
  "handle_value (server_handle c) = handle_value c"
  by (simp_all add: server_handle_def handle_value_def)

section \<open>Binary search in a sorted table\<close>

abbreviation sorted_table :: "heap \<Rightarrow> Register_Ptr list \<Rightarrow> bool" where
  "sorted_table h \<equiv> sorted_wrt (\<lambda>p q. value_of h p < value_of h q)"

lemma find_register_spec:
  assumes "sorted_table h a" "find_register h v a = (found, it)"
  shows "it \<le> length a" "found \<longleftrightarrow> (\<exists>p \<in> set a. value_of h p = handle_value v)"
    "found \<Longrightarrow> it < length a \<and> value_of h (a ! it) = handle_value v"
    "\<And>p. p \<in> set (take it a) \<Longrightarrow> value_of h p < handle_value v"
    "\<And>p. \<not> found \<Longrightarrow> p \<in> set (drop it a) \<Longrightarrow> handle_value v < value_of h p"
proof -
  let ?lt = "\<lambda>p. value_of h p < handle_value v"
  have mono: "?lt (a ! i)" if "i \<le> j" "j < length a" "?lt (a ! j)" for i j
    using sorted_wrt_nth_less [OF assms(1), of i j] that by (cases "i = j") auto
  have e: "it = lower_bound ?lt a 0 (length a)" "found \<longleftrightarrow> it \<noteq> length a \<and> value_of h (a ! it) = handle_value v"
    using assms(2) by (auto simp: find_register_def binary_find_def Let_def)
  have sp: "it \<le> length a" "\<And>i. i < it \<Longrightarrow> ?lt (a ! i)" "\<And>i. it \<le> i \<Longrightarrow> i < length a \<Longrightarrow> \<not> ?lt (a ! i)"
    using lower_bound_spec [of a ?lt 0 "length a"] mono by (auto simp: e(1))
  show "it \<le> length a" by (rule sp)
  show f: "it < length a \<and> value_of h (a ! it) = handle_value v" if found using that e(2) sp(1) by simp
  show "?lt p" if "p \<in> set (take it a)" for p using that sp(2) by (auto simp: in_set_conv_nth)
  have above: "handle_value v < value_of h (a ! i)" if "\<not> found" "it \<le> i" "i < length a" for i
  proof -
    have "value_of h (a ! it) \<noteq> handle_value v" "it < length a" using that e(2) by auto
    then have "handle_value v < value_of h (a ! it)" using sp(3) [of it] by simp
    also have "value_of h (a ! it) \<le> value_of h (a ! i)"
      using sorted_wrt_nth_less [OF assms(1), of it i] that by (cases "it = i") auto
    finally show ?thesis .
  qed
  show "handle_value v < value_of h p" if "\<not> found" "p \<in> set (drop it a)" for p
    using that above by (auto simp: in_set_conv_nth)
  show "found \<longleftrightarrow> (\<exists>p \<in> set a. value_of h p = handle_value v)"
  proof
    assume "\<exists>p \<in> set a. value_of h p = handle_value v"
    then obtain i where i: "i < length a" "value_of h (a ! i) = handle_value v" by (auto simp: in_set_conv_nth)
    show found using above [of i] sp(2) [of i] i by (cases "i < it") auto
  qed (use f in auto)
qed

section \<open>What the requests cover\<close>

abbreviation mem_of :: "heap \<Rightarrow> Register_Ptr \<Rightarrow> nat" where
  "mem_of h p \<equiv> unat (mem_addr (reg_handle (deref h p)))"

abbreviation size_of :: "heap \<Rightarrow> Register_Ptr \<Rightarrow> nat" where
  "size_of h p \<equiv> unat (reg_size (reg_handle (deref h p)))"

text \<open>Registers that follow each other in the memory of the controller without gaps.\<close>

fun adjacent :: "heap \<Rightarrow> Register_Ptr list \<Rightarrow> bool" where
  "adjacent h (p # q # ps) \<longleftrightarrow> mem_of h p + size_of h p = mem_of h q \<and> adjacent h (q # ps)"
| "adjacent h _ \<longleftrightarrow> True"

definition bytes_of :: "heap \<Rightarrow> Register_Ptr list \<Rightarrow> nat" where
  "bytes_of h ps = sum_list (map (size_of h) ps)"

lemma bytes_of_simps [simp]:
  "bytes_of h [] = 0" "bytes_of h (p # ps) = size_of h p + bytes_of h ps"
  "bytes_of h (ps @ qs) = bytes_of h ps + bytes_of h qs"
  by (simp_all add: bytes_of_def)

lemma bytes_of_bound: "(\<And>p. p \<in> set ps \<Longrightarrow> size_of h p \<le> 5) \<Longrightarrow> bytes_of h ps \<le> 5 * length ps"
  by (induction ps) force+

text \<open>The addresses inside a run of adjacent registers.\<close>

lemma adjacent_mem:
  "adjacent h (p # ps) \<Longrightarrow> k < length (p # ps) \<Longrightarrow>
    mem_of h ((p # ps) ! k) = mem_of h p + bytes_of h (take k (p # ps))"
proof (induction ps arbitrary: p k)
  case (Cons q ps)
  show ?case
  proof (cases k)
    case (Suc j)
    then show ?thesis using Cons.IH [of q j] Cons.prems by simp
  qed simp
qed simp

definition request_ok :: "heap \<Rightarrow> Request \<Rightarrow> bool" where
  "request_ok h q \<longleftrightarrow> req_data q \<noteq> [] \<and> adjacent h (req_data q) \<and> length (req_data q) \<le> 13 \<and>
     unat (nRegister q) = length (req_data q) \<and> unat (nBytes q) = bytes_of h (req_data q)"

lemma request_run_spec:
  assumes "request_run h prev ps n bytes = (run, n', bytes', rest)" "1 \<le> unat n" "unat n \<le> 13"
    and "unat bytes \<le> 5 * unat n" "\<And>p. p \<in> set ps \<Longrightarrow> size_of h p \<le> 5"
  shows "adjacent h (prev # run) \<and> unat n' = unat n + length run \<and> unat n' \<le> 13 \<and>
    unat bytes' = unat bytes + bytes_of h run \<and>
    (rest = [] \<or> unat n' = 13 \<or> \<not> adjacent h [last (prev # run), hd rest])"
  using assms
proof (induction h prev ps n bytes arbitrary: run n' bytes' rest rule: request_run.induct)
  case (2 h prev p ps n bytes)
  let ?b = "reg_size (reg_handle (deref h p))"
  show ?case
  proof (cases "n < 13 \<and> mem_of h prev + size_of h prev = mem_of h p")
    case True
    obtain run1 where r: "request_run h p ps (n + 1) (bytes + ?b) = (run1, n', bytes', rest)" "run = p # run1"
      using 2(2) True by (auto simp: Let_def split: prod.splits)
    have n: "unat n < 13" using True by (simp add: word_less_nat_alt)
    have "size_of h p \<le> 5" using 2(6) by simp
    then have u: "unat (n + 1) = unat n + 1" "unat (bytes + ?b) = unat bytes + size_of h p"
      using n 2(5) by (simp_all add: unat_word_ariths)
    have "adjacent h (p # run1) \<and> unat n' = unat (n + 1) + length run1 \<and> unat n' \<le> 13 \<and>
      unat bytes' = unat (bytes + ?b) + bytes_of h run1 \<and>
      (rest = [] \<or> unat n' = 13 \<or> \<not> adjacent h [last (p # run1), hd rest])"
    proof (rule 2(1) [OF refl refl True r(1)])
      show "unat (bytes + ?b) \<le> 5 * unat (n + 1)" using u 2(5) \<open>size_of h p \<le> 5\<close> by simp
    qed (use u n 2(6) in simp_all)
    then show ?thesis using True r(2) u by (cases "run1 = []") auto
  next
    case False
    then have e: "run = []" "n' = n" "bytes' = bytes" "rest = p # ps" using 2(2) by (auto simp: Let_def)
    have "n < 13 \<or> unat n = 13" using 2(4) by (auto simp: word_less_nat_alt)
    then show ?thesis using False 2(4) by (auto simp: e)
  qed
qed simp

text \<open>One turn of the outer loop as an induction rule.\<close>

lemma build_requests_induct [case_names Nil Cons]:
  assumes "P []"
    and "\<And>p ps run n bytes rest. request_run h p ps 1 (reg_size (reg_handle (deref h p))) = (run, n, bytes, rest) \<Longrightarrow>
      ps = run @ rest \<Longrightarrow> build_requests h (p # ps) =
        \<lparr>nRegister = n, nBytes = bytes, req_data = p # run\<rparr> # build_requests h rest \<Longrightarrow> P rest \<Longrightarrow> P (p # ps)"
  shows "P ps"
proof (induction ps rule: length_induct)
  case (1 ps)
  show ?case
  proof (cases ps)
    case (Cons p qs)
    obtain run n bytes rest where r: "request_run h p qs 1 (reg_size (reg_handle (deref h p))) = (run, n, bytes, rest)"
      by (metis prod_cases4)
    have "length rest < length ps" using request_run_length [OF r [symmetric]] Cons by simp
    then show ?thesis using assms(2) [OF r request_run_rest [OF r]] 1 r Cons by simp
  qed (simp add: assms(1))
qed

lemma build_requests_concat: "concat (map req_data (build_requests h ps)) = ps"
  by (induction rule: build_requests_induct [where h = h]) simp_all

lemma build_requests_length: "length (build_requests h ps) \<le> length ps"
  by (induction rule: build_requests_induct [where h = h]) simp_all

lemma build_requests_Nil [simp]: "build_requests h ps = [] \<longleftrightarrow> ps = []"
  by (cases ps) (simp_all split: prod.splits)

text \<open>A request ends only where it has to.\<close>

fun maximal :: "heap \<Rightarrow> Request list \<Rightarrow> bool" where
  "maximal h (q # q' # qs) \<longleftrightarrow>
     (length (req_data q) = 13 \<or> \<not> adjacent h [last (req_data q), hd (req_data q')]) \<and> maximal h (q' # qs)"
| "maximal h _ \<longleftrightarrow> True"

lemma build_requests_hd: "ps \<noteq> [] \<Longrightarrow> hd (req_data (hd (build_requests h ps))) = hd ps"
  by (cases ps) (simp_all split: prod.splits)

declare build_requests.simps(2) [simp del]

lemma build_requests_ok:
  assumes "\<And>p. p \<in> set ps \<Longrightarrow> size_of h p \<le> 5"
  shows "(\<forall>q \<in> set (build_requests h ps). request_ok h q) \<and> maximal h (build_requests h ps)"
  using assms
proof (induction rule: build_requests_induct [where h = h])
  case (Cons p ps run n bytes rest)
  note sp = request_run_spec [OF Cons(1)] and e = Cons(3)
  have sz: "size_of h p \<le> 5" "\<And>q. q \<in> set ps \<Longrightarrow> size_of h q \<le> 5" using Cons(5) by auto
  have ih: "(\<forall>q \<in> set (build_requests h rest). request_ok h q) \<and> maximal h (build_requests h rest)"
    using Cons(4) sz(2) Cons(2) by auto
  have s: "adjacent h (p # run)" "unat n = 1 + length run" "unat n \<le> 13" "unat bytes = bytes_of h (p # run)"
    "rest = [] \<or> unat n = 13 \<or> \<not> adjacent h [last (p # run), hd rest]"
    using sp sz by auto
  have ok: "request_ok h \<lparr>nRegister = n, nBytes = bytes, req_data = p # run\<rparr>"
    using s(1-4) by (simp add: request_ok_def)
  have "maximal h (build_requests h (p # ps))"
  proof (cases "build_requests h rest")
    case (Cons q qs)
    then have "rest \<noteq> []" by auto
    then have "hd (req_data q) = hd rest" using build_requests_hd [of rest h] Cons by simp
    then show ?thesis using s(2,5) ih \<open>rest \<noteq> []\<close> unfolding e Cons by auto
  qed (use e in simp)
  then show ?case using ok ih by (simp add: e)
qed simp

text \<open>Requests depend only on the handles of the registers.\<close>

lemma request_run_cong:
  "(\<And>q. q \<in> insert prev (set ps) \<Longrightarrow> reg_handle (deref h q) = reg_handle (deref h' q)) \<Longrightarrow>
    request_run h prev ps n bytes = request_run h' prev ps n bytes"
proof (induction h prev ps n bytes rule: request_run.induct)
  case (2 h prev p ps n bytes)
  have e: "reg_handle (deref h prev) = reg_handle (deref h' prev)" "reg_handle (deref h p) = reg_handle (deref h' p)"
    using 2(2) by auto
  have "request_run h p ps (n + 1) (bytes + reg_size (reg_handle (deref h p))) =
      request_run h' p ps (n + 1) (bytes + reg_size (reg_handle (deref h p)))"
    if "n < 13 \<and> mem_of h prev + size_of h prev = mem_of h p"
    using 2(1) [OF refl refl that] 2(2) by auto
  then show ?case using e by (auto simp: Let_def)
qed simp

lemma build_requests_cong:
  "(\<And>q. q \<in> set ps \<Longrightarrow> reg_handle (deref h q) = reg_handle (deref h' q)) \<Longrightarrow>
    build_requests h ps = build_requests h' ps"
proof (induction rule: build_requests_induct [where h = h])
  case (Cons p ps run n bytes rest)
  have "request_run h' p ps 1 (reg_size (reg_handle (deref h' p))) = (run, n, bytes, rest)"
    using request_run_cong [of p ps h h'] Cons(1,5) by (metis insertI1 list.simps(15))
  then have "build_requests h' (p # ps) = \<lparr>nRegister = n, nBytes = bytes, req_data = p # run\<rparr> # build_requests h' rest"
    by (simp add: build_requests.simps(2))
  then show ?case using Cons by simp
qed simp

section \<open>The invariant of the tables\<close>

abbreviation dev :: "protocol_service \<Rightarrow> u8 \<Rightarrow> DeviceRequest" where
  "dev s d \<equiv> dev_reqs s ! unat d"

abbreviation controllers :: "u8 set" where
  "controllers \<equiv> {d. unat d < MAX_CTRLS}"

definition reg_table_ok :: "heap \<Rightarrow> u8 \<Rightarrow> Register_Ptr list \<Rightarrow> bool" where
  "reg_table_ok h d a \<longleftrightarrow> sorted_table h a \<and> length a \<le> MAX_REGISTERS \<and>
     (\<forall>p \<in> set a. p \<in> dom h \<and> dev_addr (reg_handle (deref h p)) = d \<and> 0 < size_of h p \<and> size_of h p \<le> 5)"

text \<open>A controller whose requests are up to date.\<close>

definition clean :: "heap \<Rightarrow> bool \<Rightarrow> DeviceRequest \<Rightarrow> bool" where
  "clean h valid r \<longleftrightarrow> (\<forall>p \<in> set (reg_a r). 0 < ref_cnt (deref h p)) \<and>
     req_q r = build_requests h (reg_a r) \<and> length (req_q r) \<le> MAX_REQUESTS \<and> (valid \<longleftrightarrow> reg_a r \<noteq> [])"

text \<open>
  The invariant while the controllers in \<open>T\<close> wait for \<open>rebuild\<close>: every table is sorted, the live
  registers are exactly those in the tables, and the other controllers are clean.
\<close>

definition reg_tables_ok :: "u8 set \<Rightarrow> protocol_service \<Rightarrow> bool" where
  "reg_tables_ok T s \<longleftrightarrow> length (dev_reqs s) = MAX_CTRLS \<and>
     (\<forall>d \<in> controllers. reg_table_ok (regs s) d (reg_a (dev s d))) \<and>
     (\<forall>p \<in> dom (regs s). p \<in> set (reg_a (dev s (dev_addr (reg_handle (deref (regs s) p))))) \<and>
        dev_addr (reg_handle (deref (regs s) p)) \<in> controllers) \<and>
     (\<forall>d \<in> controllers - T. clean (regs s) (d \<in> valid_controllers s) (dev s d)) \<and>
     tag_changed s \<subseteq> controllers \<and> valid_controllers s \<subseteq> controllers \<and> finite (dom (regs s))"

definition poll_ok :: "protocol_service \<Rightarrow> bool" where
  "poll_ok s \<longleftrightarrow> (case advc_it s of
       None \<Rightarrow> valid_controllers s = {}
     | Some d \<Rightarrow> d \<in> valid_controllers s \<and> req_ix s < length (req_q (dev s d)))"

definition service_wf :: "protocol_service \<Rightarrow> bool" where
  "service_wf s \<longleftrightarrow> reg_tables_ok {} s \<and> poll_ok s"

text \<open>What the service promises: how often every register value is subscribed to.\<close>

definition refs :: "protocol_service \<Rightarrow> u32 \<Rightarrow> int" where
  "refs s v = (if MAX_CTRLS \<le> unat v mod 256 then 0
     else case List.find (\<lambda>p. value_of (regs s) p = v) (reg_a (dev_reqs s ! (unat v mod 256))) of
       None \<Rightarrow> 0 | Some p \<Rightarrow> ref_cnt (deref (regs s) p))"

lemma reg_tables_okD:
  assumes "reg_tables_ok T s"
  shows "length (dev_reqs s) = 32" "\<And>d. unat d < 32 \<Longrightarrow> reg_table_ok (regs s) d (reg_a (dev s d))"
    "\<And>p. p \<in> dom (regs s) \<Longrightarrow> p \<in> set (reg_a (dev s (dev_addr (reg_handle (deref (regs s) p)))))"
    "\<And>p. p \<in> dom (regs s) \<Longrightarrow> unat (dev_addr (reg_handle (deref (regs s) p))) < 32"
    "\<And>d. unat d < 32 \<Longrightarrow> d \<notin> T \<Longrightarrow> clean (regs s) (d \<in> valid_controllers s) (dev s d)"
    "\<And>d. d \<in> tag_changed s \<Longrightarrow> unat d < 32" "\<And>d. d \<in> valid_controllers s \<Longrightarrow> unat d < 32"
    "finite (dom (regs s))"
  using assms unfolding reg_tables_ok_def by blast+

lemma reg_tables_okI:
  assumes "length (dev_reqs s) = 32" "\<And>d. unat d < 32 \<Longrightarrow> reg_table_ok (regs s) d (reg_a (dev s d))"
    "\<And>p. p \<in> dom (regs s) \<Longrightarrow> p \<in> set (reg_a (dev s (dev_addr (reg_handle (deref (regs s) p))))) \<and>
       unat (dev_addr (reg_handle (deref (regs s) p))) < 32"
    "\<And>d. unat d < 32 \<Longrightarrow> d \<notin> T \<Longrightarrow> clean (regs s) (d \<in> valid_controllers s) (dev s d)"
    "\<And>d. d \<in> tag_changed s \<Longrightarrow> unat d < 32" "\<And>d. d \<in> valid_controllers s \<Longrightarrow> unat d < 32"
    "finite (dom (regs s))"
  shows "reg_tables_ok T s"
  using assms unfolding reg_tables_ok_def by blast

lemma reg_table_okD:
  assumes "reg_table_ok h d a"
  shows "sorted_table h a" "length a \<le> 1024" "\<And>p. p \<in> set a \<Longrightarrow> p \<in> dom h"
    "\<And>p. p \<in> set a \<Longrightarrow> dev_addr (reg_handle (deref h p)) = d"
    "\<And>p. p \<in> set a \<Longrightarrow> 0 < size_of h p \<and> size_of h p \<le> 5"
  using assms unfolding reg_table_ok_def by blast+

lemma sorted_table_inj:
  "sorted_table h a \<Longrightarrow> p \<in> set a \<Longrightarrow> q \<in> set a \<Longrightarrow> value_of h p = value_of h q \<Longrightarrow> p = q"
proof (induction a)
  case (Cons x a)
  have "value_of h x < value_of h y" if "y \<in> set a" for y using Cons.prems(1) that by simp
  then show ?case using Cons by (metis less_irrefl set_ConsD sorted_wrt.simps(2))
qed simp

lemma sorted_table_distinct: "sorted_table h a \<Longrightarrow> distinct a"
  by (induction a) fastforce+

text \<open>Live registers are determined by their values.\<close>

lemma value_dev: "unat (value_of h p) mod 256 = unat (dev_addr (reg_handle (deref h p)))"
  by (rule handle_value_dev)

lemma live_inj:
  assumes "reg_tables_ok T s" "p \<in> dom (regs s)" "q \<in> dom (regs s)" "value_of (regs s) p = value_of (regs s) q"
  shows "p = q"
proof -
  have "unat (dev_addr (reg_handle (deref (regs s) p))) = unat (dev_addr (reg_handle (deref (regs s) q)))"
    using assms(4) value_dev [of "regs s" p] value_dev [of "regs s" q] by simp
  then have d: "dev_addr (reg_handle (deref (regs s) p)) = dev_addr (reg_handle (deref (regs s) q))"
    by (rule word_unat_eq_iff [THEN iffD2])
  note w = reg_tables_okD [OF assms(1)]
  show ?thesis
    using sorted_table_inj [OF reg_table_okD(1) [OF w(2) [OF w(4) [OF assms(2)]]] w(3) [OF assms(2)]]
      w(3) [OF assms(3)] assms(4) d by simp
qed

lemma refs_live:
  assumes "reg_tables_ok T s" "p \<in> dom (regs s)"
  shows "refs s (value_of (regs s) p) = ref_cnt (deref (regs s) p)"
proof -
  let ?d = "dev_addr (reg_handle (deref (regs s) p))" and ?v = "value_of (regs s) p"
  note w = reg_tables_okD [OF assms(1)]
  have d: "unat ?d < 32" "p \<in> set (reg_a (dev s ?d))" using w(3,4) assms(2) by blast+
  have "List.find (\<lambda>q. value_of (regs s) q = ?v) (reg_a (dev s ?d)) = Some p"
  proof (cases "List.find (\<lambda>q. value_of (regs s) q = ?v) (reg_a (dev s ?d))")
    case (Some q)
    then have "value_of (regs s) q = ?v" "q \<in> set (reg_a (dev s ?d))" by (auto simp: find_Some_iff)
    then have "q = p" using sorted_table_inj [OF reg_table_okD(1) [OF w(2) [OF d(1)]] _ d(2)] by blast
    then show ?thesis using Some by simp
  qed (use d(2) in \<open>auto simp: find_None_iff\<close>)
  then show ?thesis using d(1) by (simp add: refs_def value_dev)
qed

lemma refs_dead:
  assumes "reg_tables_ok T s" "\<And>p. p \<in> dom (regs s) \<Longrightarrow> value_of (regs s) p \<noteq> v"
  shows "refs s v = 0"
proof (cases "unat v mod 256 < 32")
  case True
  let ?d = "word_of_nat (unat v mod 256) :: u8"
  have d: "unat ?d = unat v mod 256" by (simp add: unsigned_of_nat take_bit_eq_mod)
  then have "reg_table_ok (regs s) ?d (reg_a (dev s ?d))" using reg_tables_okD(2) [OF assms(1), of ?d] True by simp
  then have "List.find (\<lambda>p. value_of (regs s) p = v) (reg_a (dev s ?d)) = None"
    using assms(2) reg_table_okD(3) by (auto simp: find_None_iff)
  then show ?thesis by (simp add: refs_def d)
qed (simp add: refs_def)

text \<open>The view of the heap that decides the invariant: reference counts and values may change.\<close>

lemma reg_table_ok_cong:
  assumes "reg_table_ok h d a" "\<And>p. p \<in> set a \<Longrightarrow> reg_handle (deref h' p) = reg_handle (deref h p)"
    "\<And>p. p \<in> set a \<Longrightarrow> p \<in> dom h'"
  shows "reg_table_ok h' d a"
proof -
  have "sorted_table h' a"
    by (rule sorted_wrt_mono_rel [OF _ reg_table_okD(1) [OF assms(1)]]) (simp add: assms(2))
  then show ?thesis using assms unfolding reg_table_ok_def by simp
qed

lemma deref_upd [simp]: "deref (h(p \<mapsto> r)) q = (if q = p then r else deref h q)"
  by (simp add: deref_def)

lemma deref_upd_reg: "deref (upd_reg p f h) q = (if q = p then f (deref h p) else deref h q)"
  by (simp add: upd_reg_def)

lemma dom_upd_reg: "p \<in> dom h \<Longrightarrow> dom (upd_reg p f h) = dom h"
  by (auto simp: upd_reg_def)

lemma clean_cong:
  assumes "clean h v r" "\<And>p. p \<in> set (reg_a r) \<Longrightarrow> reg_handle (deref h' p) = reg_handle (deref h p)"
    and "\<And>p. p \<in> set (reg_a r) \<Longrightarrow> 0 < ref_cnt (deref h' p)"
  shows "clean h' v r"
proof -
  have "build_requests h' (reg_a r) = build_requests h (reg_a r)" by (rule build_requests_cong) (rule assms(2))
  then show ?thesis using assms unfolding clean_def by auto
qed

lemma cleanD: "clean h v r \<Longrightarrow> p \<in> set (reg_a r) \<Longrightarrow> 0 < ref_cnt (deref h p)"
  by (simp add: clean_def)

lemma reg_tables_ok_heap:
  assumes "reg_tables_ok T s" "dom h' = dom (regs s)"
    and "\<And>p. p \<in> dom (regs s) \<Longrightarrow> reg_handle (deref h' p) = reg_handle (deref (regs s) p)"
    and "\<And>d p. unat d < 32 \<Longrightarrow> d \<notin> T \<Longrightarrow> p \<in> set (reg_a (dev s d)) \<Longrightarrow> 0 < ref_cnt (deref h' p)"
  shows "reg_tables_ok T (s\<lparr>regs := h'\<rparr>)"
proof -
  note w = reg_tables_okD [OF assms(1)]
  have live: "p \<in> dom (regs s)" if "unat d < 32" "p \<in> set (reg_a (dev s d))" for d p
    using reg_table_okD(3) [OF w(2)] that by blast
  show ?thesis
  proof (rule reg_tables_okI)
    show "reg_table_ok (regs (s\<lparr>regs := h'\<rparr>)) d (reg_a (dev (s\<lparr>regs := h'\<rparr>) d))" if "unat d < 32" for d
      using reg_table_ok_cong [OF w(2) [OF that], of h'] assms(2,3) live [OF that] by simp
    show "clean (regs (s\<lparr>regs := h'\<rparr>)) (d \<in> valid_controllers (s\<lparr>regs := h'\<rparr>)) (dev (s\<lparr>regs := h'\<rparr>) d)"
      if "unat d < 32" "d \<notin> T" for d
      using clean_cong [OF w(5) [OF that], of h'] assms(3) [OF live [OF that(1)]] assms(4) [OF that] by simp
  qed (use w assms(2,3) in auto)
qed

text \<open>Inserting before the first larger value keeps a table sorted.\<close>

lemma sorted_table_insert:
  assumes "sorted_table h a" "find_register h v a = (False, it)" "value_of h' p = handle_value v"
    and "\<And>q. q \<in> set a \<Longrightarrow> value_of h' q = value_of h q"
  shows "sorted_table h' (take it a @ p # drop it a)"
proof -
  note f = find_register_spec [OF assms(1,2)]
  have "sorted_table h' (take it a @ drop it a)"
    using sorted_wrt_mono_rel [of a _ "\<lambda>p q. value_of h' p < value_of h' q", OF _ assms(1)] assms(4) by simp
  moreover have "value_of h' q < value_of h' p" if "q \<in> set (take it a)" for q
    using f(4) [OF that] assms(3,4) in_set_takeD [OF that] by simp
  moreover have "value_of h' p < value_of h' q" if "q \<in> set (drop it a)" for q
    using f(5) [OF _ that] assms(3,4) in_set_dropD [OF that] by simp
  ultimately show ?thesis by (auto simp: sorted_wrt_append intro: less_trans)
qed

definition keeps :: "heap \<Rightarrow> heap \<Rightarrow> bool" where
  "keeps h h' \<longleftrightarrow> (\<forall>p \<in> dom h. p \<in> dom h' \<and> reg_handle (deref h' p) = reg_handle (deref h p))"

lemma keeps_refl [simp]: "keeps h h"
  by (simp add: keeps_def)

lemma keeps_trans: "keeps h h' \<Longrightarrow> keeps h' h'' \<Longrightarrow> keeps h h''"
  by (simp add: keeps_def)

definition fresh :: "allocator \<Rightarrow> bool" where
  "fresh malloc \<longleftrightarrow> (\<forall>h. finite (dom h) \<longrightarrow> fst (malloc h) \<notin> dom h)"

lemma add_register_new:
  assumes "reg_tables_ok T s" "p \<notin> dom (regs s)" "unat (dev_addr h) < 32" "0 < reg_size h" "reg_size h \<le> 5"
    and "find_register (regs s) h (reg_a (dev s (dev_addr h))) = (False, it)" "length (reg_a (dev s (dev_addr h))) < 1024"
    and "s' = s\<lparr>regs := (regs s)(p \<mapsto> Register_new h garbage),
      dev_reqs := (dev_reqs s)[unat (dev_addr h) := (dev s (dev_addr h))\<lparr>reg_a := take it (reg_a (dev s (dev_addr h))) @ p # drop it (reg_a (dev s (dev_addr h)))\<rparr>],
      tag_changed := insert (dev_addr h) (tag_changed s)\<rparr>"
  shows "reg_tables_ok (insert (dev_addr h) T) s' \<and> keeps (regs s) (regs s') \<and> p \<in> dom (regs s') \<and>
    value_of (regs s') p = handle_value h \<and>
    refs s' v = refs s v + (if v = handle_value h then 1 else 0)"
proof -
  let ?d = "dev_addr h" and ?a = "reg_a (dev s (dev_addr h))" and ?h = "regs s'"
  let ?a' = "take it ?a @ p # drop it ?a"
  note w = reg_tables_okD [OF assms(1)]
  note t = reg_table_okD [OF w(2) [OF assms(3)]]
  note f = find_register_spec [OF t(1) assms(6)]
  have dv: "dev s' d = (if d = ?d then (dev s ?d)\<lparr>reg_a := ?a'\<rparr> else dev s d)" if "unat d < 32" for d
    using that assms(3) w(1) by (simp add: assms(8) nth_list_update word_unat_eq_iff)
  have h: "deref ?h q = (if q = p then Register_new h garbage else deref (regs s) q)" "dom ?h = insert p (dom (regs s))" for q
    by (simp_all add: assms(8))
  have other: "reg_handle (deref ?h q) = reg_handle (deref (regs s) q)" if "q \<in> dom (regs s)" for q
    using that assms(2) h(1) by auto
  have new: "reg_handle (deref ?h p) = h" by (simp add: h(1) Register_new_def)
  have set_a': "set ?a' = insert p (set ?a)"
    by (metis append_take_drop_id list.simps(15) set_append Un_insert_right)
  have tab: "reg_table_ok ?h d (reg_a (dev s d))" if "unat d < 32" for d
    using reg_table_ok_cong [OF w(2) [OF that], of ?h] other reg_table_okD(3) [OF w(2) [OF that]] h(2) by blast
  have tab': "reg_table_ok ?h ?d ?a'"
  proof -
    have "sorted_table ?h ?a'"
      by (rule sorted_table_insert [OF t(1) assms(6)]) (use new other t(3) in auto)
    moreover have "length ?a' \<le> 1024" using assms(7) by simp
    moreover have "q \<in> dom ?h \<and> dev_addr (reg_handle (deref ?h q)) = ?d \<and> 0 < size_of ?h q \<and> size_of ?h q \<le> 5" if "q \<in> set ?a'" for q
    proof (cases "q = p")
      case True
      then show ?thesis using new h(2) assms(4,5) by (simp add: word_less_nat_alt word_le_nat_alt)
    next
      case False
      then have "q \<in> set ?a" using that set_a' by auto
      then show ?thesis using reg_table_okD(3-5) [OF tab [OF assms(3)]] by blast
    qed
    ultimately show ?thesis by (simp add: reg_table_ok_def del: set_append set_simps)
  qed
  have T': "reg_tables_ok (insert ?d T) s'"
  proof (rule reg_tables_okI)
    show "length (dev_reqs s') = 32" using w(1) by (simp add: assms(8))
    show "reg_table_ok ?h d (reg_a (dev s' d))" if "unat d < 32" for d
      using tab [OF that] tab' dv [OF that] by auto
    show "q \<in> set (reg_a (dev s' (dev_addr (reg_handle (deref ?h q))))) \<and> unat (dev_addr (reg_handle (deref ?h q))) < 32"
      if q: "q \<in> dom ?h" for q
    proof (cases "q = p")
      case True
      then show ?thesis using new dv [OF assms(3)] assms(3) by simp
    next
      case False
      then have q': "q \<in> dom (regs s)" using q h(2) by auto
      have "unat (dev_addr (reg_handle (deref (regs s) q))) < 32" by (rule w(4) [OF q'])
      then show ?thesis using w(3) [OF q'] other [OF q'] dv set_a' by auto
    qed
    show "clean ?h (d \<in> valid_controllers s') (dev s' d)" if "unat d < 32" "d \<notin> insert ?d T" for d
    proof -
      have c: "clean (regs s) (d \<in> valid_controllers s) (dev s d)" using w(5) that by blast
      have e: "deref ?h q = deref (regs s) q" if "q \<in> set (reg_a (dev s d))" for q
        using reg_table_okD(3) [OF w(2) [OF \<open>unat d < 32\<close>] that] assms(2) h(1) by auto
      have "clean ?h (d \<in> valid_controllers s) (dev s d)"
        by (rule clean_cong [OF c]) (use e cleanD [OF c] in simp_all)
      then show ?thesis using that dv by (simp add: assms(8))
    qed
    show "unat d < 32" if "d \<in> tag_changed s'" for d using that w(6) assms(3) by (auto simp: assms(8))
    show "unat d < 32" if "d \<in> valid_controllers s'" for d using that w(7) by (simp add: assms(8))
    show "finite (dom ?h)" using w(8) h(2) by simp
  qed
  have nodup: "value_of (regs s) q \<noteq> handle_value h" if "q \<in> dom (regs s)" for q
  proof
    assume v: "value_of (regs s) q = handle_value h"
    then have "unat (dev_addr (reg_handle (deref (regs s) q))) = unat ?d"
      using value_dev [of "regs s" q] handle_value_dev [of h] by simp
    then have "dev_addr (reg_handle (deref (regs s) q)) = ?d" by (rule word_unat_eq_iff [THEN iffD2])
    then have "q \<in> set ?a" using w(3) [OF that] by simp
    then show False using f(2) v by blast
  qed
  have "refs s' v = refs s v + (if v = handle_value h then 1 else 0)"
  proof (cases "\<exists>q \<in> dom (regs s). value_of (regs s) q = v")
    case True
    then obtain q where q: "q \<in> dom (regs s)" "value_of (regs s) q = v" by blast
    have q': "q \<in> dom ?h" "deref ?h q = deref (regs s) q" using q(1) h assms(2) by auto
    have "refs s v = ref_cnt (deref (regs s) q)" "refs s' v = ref_cnt (deref (regs s) q)"
      using refs_live [OF assms(1) q(1)] refs_live [OF T' q'(1)] q(2) q'(2) by simp_all
    then show ?thesis using nodup [OF q(1)] q(2) by simp
  next
    case False
    then have z: "refs s v = 0" using refs_dead [OF assms(1)] by blast
    show ?thesis
    proof (cases "v = handle_value h")
      case True
      then show ?thesis using refs_live [OF T', of p] new h z by (simp add: Register_new_def)
    next
      case ne: False
      have "value_of ?h q \<noteq> v" if "q \<in> dom ?h" for q
        using that False other [of q] new ne h(2) by (cases "q = p") auto
      then show ?thesis using refs_dead [OF T'] z ne by simp
    qed
  qed
  then show ?thesis using T' other new h(2) by (auto simp: keeps_def)
qed

text \<open>What one \<open>add_register\<close> does, found or not.\<close>

lemma add_register_spec:
  assumes "reg_tables_ok T s" "fresh malloc" "add_register malloc c s = Inr (n, p, s')"
  shows "reg_tables_ok (if n = 0 then T else insert (dev_addr c) T) s'" "n = 0 \<or> n = 1"
    "tag_changed s' = (if n = 0 then tag_changed s else insert (dev_addr c) (tag_changed s))"
    "keeps (regs s) (regs s')" "p \<in> dom (regs s')" "value_of (regs s') p = handle_value c"
    "refs s' v = refs s v + (if v = handle_value c then 1 else 0)"
    "n = 0 \<Longrightarrow> dev_reqs s' = dev_reqs s" "valid_controllers s' = valid_controllers s" "advc_it s' = advc_it s"
    "req_ix s' = req_ix s"
proof -
  let ?d = "dev_addr c" and ?a = "reg_a (dev s (dev_addr c))"
  note w = reg_tables_okD [OF assms(1)]
  have g: "0 < reg_size c" "reg_size c \<le> 5" "unat ?d < 32"
    using assms(3) by (auto simp: add_register_def Let_def split: if_splits)
  obtain b it where f: "find_register (regs s) (server_handle c) ?a = (b, it)"
    by (cases "find_register (regs s) (server_handle c) ?a")
  note t = reg_table_okD [OF w(2) [OF g(3)]]
  note fs = find_register_spec [OF t(1) f]
  have "reg_tables_ok (if n = 0 then T else insert ?d T) s' \<and> (n = 0 \<or> n = 1) \<and>
    tag_changed s' = (if n = 0 then tag_changed s else insert ?d (tag_changed s)) \<and>
    keeps (regs s) (regs s') \<and> p \<in> dom (regs s') \<and> value_of (regs s') p = handle_value c \<and>
    refs s' v = refs s v + (if v = handle_value c then 1 else 0) \<and>
    (n = 0 \<longrightarrow> dev_reqs s' = dev_reqs s) \<and> valid_controllers s' = valid_controllers s \<and> advc_it s' = advc_it s \<and>
    req_ix s' = req_ix s"
  proof (cases b)
    case True
    let ?p = "?a ! it"
    let ?h = "upd_reg ?p (\<lambda>r. r\<lparr>ref_cnt := ref_cnt r + 1\<rparr>) (regs s)"
    have it: "it < length ?a" "value_of (regs s) ?p = handle_value c" using fs(3) [OF True] by simp_all
    then have live: "?p \<in> dom (regs s)" using t(3) by simp
    have e: "n = 0" "p = ?p" "s' = s\<lparr>regs := ?h\<rparr>"
      using assms(3) f True g by (auto simp: add_register_def Let_def word_less_nat_alt)
    have same: "reg_handle (deref ?h q) = reg_handle (deref (regs s) q)" for q by (simp add: deref_upd_reg)
    have T': "reg_tables_ok T s'"
      unfolding e(3)
    proof (rule reg_tables_ok_heap [OF assms(1) dom_upd_reg [OF live] same])
      show "0 < ref_cnt (deref ?h q)" if "unat d < 32" "d \<notin> T" "q \<in> set (reg_a (dev s d))" for d q
        using cleanD [OF w(5) [OF that(1,2)] that(3)] by (auto simp: deref_upd_reg)
    qed
    have "refs s' v = refs s v + (if v = handle_value c then 1 else 0)"
    proof (cases "\<exists>q \<in> dom (regs s). value_of (regs s) q = v")
      case True
      then obtain q where q: "q \<in> dom (regs s)" "value_of (regs s) q = v" by blast
      have q': "q \<in> dom (regs s')" using q(1) live by (simp add: e(3) dom_upd_reg)
      have "q = ?p \<longleftrightarrow> v = handle_value c" using live_inj [OF assms(1) q(1) live] q(2) it(2) by auto
      moreover have "value_of (regs s') q = v" using same q(2) by (simp add: e(3))
      ultimately show ?thesis
        using refs_live [OF assms(1) q(1)] refs_live [OF T' q'] q(2)
        by (cases "q = ?p") (simp_all add: e(3) deref_upd_reg)
    next
      case False
      then have "v \<noteq> handle_value c" using live it(2) by blast
      moreover have "value_of (regs s') q \<noteq> v" if "q \<in> dom (regs s')" for q
        using that False live same by (auto simp: e(3) dom_upd_reg)
      ultimately show ?thesis using refs_dead [OF assms(1), of v] refs_dead [OF T', of v] False by auto
    qed
    then show ?thesis using T' e(1) same it(2) live unfolding e(2,3) by (simp add: keeps_def dom_upd_reg)
  next
    case False
    obtain q garbage where m: "malloc (regs s) = (q, garbage)" by (cases "malloc (regs s)")
    have "fst (malloc (regs s)) \<notin> dom (regs s)" using assms(2) w(8) unfolding fresh_def by blast
    then have q: "q \<notin> dom (regs s)" using m by simp
    have full: "length ?a < 1024" "n = 1" "p = q"
      and e: "s' = s\<lparr>regs := (regs s)(q \<mapsto> Register_new (server_handle c) garbage),
        dev_reqs := (dev_reqs s)[unat ?d := (dev s ?d)\<lparr>reg_a := take it ?a @ q # drop it ?a\<rparr>],
        tag_changed := insert ?d (tag_changed s)\<rparr>"
      using assms(3) f False g m t(2) by (auto simp: add_register_def Let_def split: if_splits)
    have "reg_tables_ok (insert ?d T) s' \<and> keeps (regs s) (regs s') \<and> q \<in> dom (regs s') \<and>
      value_of (regs s') q = handle_value c \<and> refs s' v = refs s v + (if v = handle_value c then 1 else 0)"
      using add_register_new [OF assms(1) q, of "server_handle c" it s' garbage v] g f False full(1) e by simp
    then show ?thesis using full by (simp add: e)
  qed
  then show "reg_tables_ok (if n = 0 then T else insert (dev_addr c) T) s'" "n = 0 \<or> n = 1"
    "tag_changed s' = (if n = 0 then tag_changed s else insert (dev_addr c) (tag_changed s))"
    "keeps (regs s) (regs s')" "p \<in> dom (regs s')" "value_of (regs s') p = handle_value c"
    "refs s' v = refs s v + (if v = handle_value c then 1 else 0)"
    "n = 0 \<Longrightarrow> dev_reqs s' = dev_reqs s" "valid_controllers s' = valid_controllers s" "advc_it s' = advc_it s"
    "req_ix s' = req_ix s"
    by blast+
qed

end
