(* ===== verification/Np_Subscriptions.thy ===== *)
theory Np_Subscriptions
  imports Np_Registers
begin

text \<open>
  The operations of \<open>protocol_service\<close> on the register tables as a whole: whatever is added and
  released, the tables stay sorted, exactly the live registers are in them, every request table
  covers its registers once and in order, and the reference counts are the number of subscriptions.
\<close>

section \<open>Rebuilding the requests\<close>

lemma sweep_spec:
  "distinct ps \<Longrightarrow> sweep h ps =
    (filter (\<lambda>p. 0 < ref_cnt (deref h p)) ps, \<lambda>q. if q \<in> set ps \<and> ref_cnt (deref h q) \<le> 0 then None else h q)"
proof (induction h ps rule: sweep.induct)
  case (2 h p ps)
  show ?case
  proof (cases "ref_cnt (deref h p) \<le> 0")
    case True
    obtain h1 where h1: "h1 = h(p := None)" by blast
    have ih: "sweep h1 ps = (filter (\<lambda>p. 0 < ref_cnt (deref h1 p)) ps,
      \<lambda>q. if q \<in> set ps \<and> ref_cnt (deref h1 q) \<le> 0 then None else h1 q)"
      by (rule 2(1) [OF True, folded h1]) (use 2(3) in simp)
    have "filter (\<lambda>q. 0 < ref_cnt (deref h1 q)) ps = filter (\<lambda>q. 0 < ref_cnt (deref h q)) ps"
      using 2(3) h1 by (intro filter_cong) (auto simp: deref_def)
    moreover have "(if q \<in> set ps \<and> ref_cnt (deref h1 q) \<le> 0 then None else h1 q) =
      (if q \<in> set (p # ps) \<and> ref_cnt (deref h q) \<le> 0 then None else h q)" for q
      using True h1 by (cases "q = p") (auto simp: deref_def)
    moreover have "sweep h (p # ps) = sweep h1 ps" using True h1 by simp
    ultimately show ?thesis using ih True by (simp only: filter.simps not_le [symmetric] if_False simp_thms)
  next
    case False
    then show ?thesis using 2(2,3) by auto
  qed
qed auto

definition survivors :: "heap \<Rightarrow> heap \<Rightarrow> bool" where
  "survivors h h' \<longleftrightarrow> (\<forall>p \<in> dom h. 0 < ref_cnt (deref h p) \<longrightarrow> p \<in> dom h' \<and> deref h' p = deref h p)"

lemma survivors_trans: "survivors h h' \<Longrightarrow> survivors h' h'' \<Longrightarrow> survivors h h''"
  by (simp add: survivors_def)

lemma dev_number: "unat (d :: u8) mod 256 = unat d"
  using unat_less_256 [of d] by simp

lemma build_req_spec:
  assumes "reg_tables_ok T s" "unat d < 32" "build_req d s = Inr s'"
  shows "reg_tables_ok (T - {d}) s'" "tag_changed s' = tag_changed s" "survivors (regs s) (regs s')"
    "refs s' v = (if unat v mod 256 = unat d then max 0 (refs s v) else refs s v)"
proof -
  let ?a = "reg_a (dev s d)" and ?h = "regs s'"
  let ?k = "filter (\<lambda>p. 0 < ref_cnt (deref (regs s) p)) ?a"
  let ?q = "build_requests ?h ?k"
  note w = reg_tables_okD [OF assms(1)]
  note t = reg_table_okD [OF w(2) [OF assms(2)]]
  note sw = sweep_spec [OF sorted_table_distinct [OF t(1)]]
  have e: "?h = (\<lambda>q. if q \<in> set ?a \<and> ref_cnt (deref (regs s) q) \<le> 0 then None else regs s q)"
    "dev_reqs s' = (dev_reqs s)[unat d := \<lparr>reg_a = ?k, req_q = ?q\<rparr>]" "length ?q \<le> 128"
    "valid_controllers s' = (if ?k = [] then valid_controllers s - {d} else insert d (valid_controllers s))"
    "tag_changed s' = tag_changed s"
    using assms(3) sw by (auto simp: build_req_def Let_def split: if_splits)
  have dv: "dev s' c = (if c = d then \<lparr>reg_a = ?k, req_q = ?q\<rparr> else dev s c)" if "unat c < 32" for c
    using that assms(2) w(1) by (simp add: e(2) nth_list_update word_unat_eq_iff)
  have live: "p \<in> dom (regs s)" if "unat c < 32" "p \<in> set (reg_a (dev s c))" for c p
    using reg_table_okD(3) [OF w(2)] that by blast
  have keep: "p \<in> dom ?h" "deref ?h p = deref (regs s) p" if "p \<in> dom (regs s)" "p \<in> set ?a \<longrightarrow> 0 < ref_cnt (deref (regs s) p)" for p
    using that by (auto simp: e(1) deref_def)
  have gone: "p \<in> dom (regs s) \<and> (p \<in> set ?a \<longrightarrow> 0 < ref_cnt (deref (regs s) p))" if "p \<in> dom ?h" for p
    using that by (auto simp: e(1) split: if_splits)
  have other: "p \<notin> set ?a" if "unat c < 32" "c \<noteq> d" "p \<in> set (reg_a (dev s c))" for c p
    using reg_table_okD(4) [OF w(2) [OF that(1)] that(3)] t(4) that(2) by blast
  show "reg_tables_ok (T - {d}) s'"
  proof (rule reg_tables_okI)
    show "length (dev_reqs s') = 32" using w(1) by (simp add: e(2))
    show "reg_table_ok ?h c (reg_a (dev s' c))" if c: "unat c < 32" for c
    proof (cases "c = d")
      case True
      have "reg_table_ok (regs s) d ?k" using w(2) [OF assms(2)] by (simp add: reg_table_ok_def sorted_wrt_filter le_trans [OF length_filter_le])
      then show ?thesis using reg_table_ok_cong [of "regs s" d ?k ?h] keep t(3) True dv [OF c] by auto
    next
      case False
      then show ?thesis using reg_table_ok_cong [OF w(2) [OF c], of ?h] keep live [OF c] other [OF c False] dv [OF c] by auto
    qed
    show "p \<in> set (reg_a (dev s' (dev_addr (reg_handle (deref ?h p))))) \<and> unat (dev_addr (reg_handle (deref ?h p))) < 32"
      if "p \<in> dom ?h" for p
    proof -
      note g = gone [OF that]
      have "deref ?h p = deref (regs s) p" using keep(2) g by blast
      then show ?thesis using g w(3,4) [of p] dv by auto
    qed
    show "clean ?h (c \<in> valid_controllers s') (dev s' c)" if "unat c < 32" "c \<notin> T - {d}" for c
    proof (cases "c = d")
      case True
      then show ?thesis using dv [OF that(1)] e(3,4) keep(2) t(3) by (auto simp: clean_def)
    next
      case False
      have "clean (regs s) (c \<in> valid_controllers s) (dev s c)" using w(5) that False by blast
      then have "clean ?h (c \<in> valid_controllers s) (dev s c)"
        by (rule clean_cong) (use keep(2) live [OF that(1)] other [OF that(1) False] cleanD [OF \<open>clean (regs s) _ _\<close>] in auto)
      then show ?thesis using dv [OF that(1)] False by (simp add: e(4))
    qed
    show "unat c < 32" if "c \<in> tag_changed s'" for c using that w(6) by (simp add: e(5))
    show "unat c < 32" if "c \<in> valid_controllers s'" for c using that w(7) assms(2) by (auto simp: e(4) split: if_splits)
    show "finite (dom ?h)" by (rule finite_subset [OF _ w(8)]) (use gone in blast)
  qed
  note T' = this
  show "survivors (regs s) ?h" using keep by (simp add: survivors_def)
  show "tag_changed s' = tag_changed s" by (rule e)
  have in_a: "p \<in> set ?a \<longleftrightarrow> unat (value_of (regs s) p) mod 256 = unat d" if "p \<in> dom (regs s)" for p
    using w(3) [OF that] t(4) [of p] by (auto simp: value_dev word_unat_eq_iff [symmetric])
  show "refs s' v = (if unat v mod 256 = unat d then max 0 (refs s v) else refs s v)"
  proof (cases "\<exists>p \<in> dom (regs s). value_of (regs s) p = v")
    case True
    then obtain p where p: "p \<in> dom (regs s)" "value_of (regs s) p = v" by blast
    have r: "refs s v = ref_cnt (deref (regs s) p)" using refs_live [OF assms(1) p(1)] p(2) by simp
    show ?thesis
    proof (cases "p \<in> set ?a \<longrightarrow> 0 < ref_cnt (deref (regs s) p)")
      case True
      then have "refs s' v = ref_cnt (deref (regs s) p)" using refs_live [OF T', of p] keep [OF p(1) True] p(2) by simp
      then show ?thesis using True in_a [OF p(1)] p(2) r by auto
    next
      case False
      have "value_of ?h q \<noteq> v" if "q \<in> dom ?h" for q
      proof
        assume "value_of ?h q = v"
        then have "value_of (regs s) q = value_of (regs s) p" using gone [OF that] keep(2) p(2) by simp
        then have "q = p" using live_inj [OF assms(1) _ p(1)] gone [OF that] by blast
        then show False using gone [OF that] False by blast
      qed
      then have "refs s' v = 0" by (rule refs_dead [OF T'])
      then show ?thesis using False in_a [OF p(1)] p(2) r by auto
    qed
  next
    case False
    have "value_of ?h q \<noteq> v" if "q \<in> dom ?h" for q using gone [OF that] keep(2) [of q] False by auto
    then have "refs s' v = 0" by (rule refs_dead [OF T'])
    moreover have "refs s v = 0" using refs_dead [OF assms(1)] False by blast
    ultimately show ?thesis by simp
  qed
qed

lemma build_all_spec:
  assumes "reg_tables_ok T s" "\<And>d. d \<in> set ds \<Longrightarrow> unat d < 32" "build_all ds s = Inr s'"
  shows "reg_tables_ok (T - set ds) s' \<and> tag_changed s' = tag_changed s \<and> survivors (regs s) (regs s') \<and>
    refs s' v = (if \<exists>d \<in> set ds. unat v mod 256 = unat d then max 0 (refs s v) else refs s v)"
  using assms
proof (induction ds arbitrary: T s)
  case Nil
  then show ?case by (simp add: survivors_def)
next
  case (Cons d ds)
  obtain s1 where s1: "build_req d s = Inr s1" "build_all ds s1 = Inr s'" using Cons.prems(3) by auto
  note b = build_req_spec [OF Cons.prems(1) _ s1(1)]
  have d: "unat d < 32" using Cons.prems(2) by simp
  have ih: "reg_tables_ok (T - {d} - set ds) s' \<and> tag_changed s' = tag_changed s1 \<and> survivors (regs s1) (regs s') \<and>
    refs s' v = (if \<exists>d \<in> set ds. unat v mod 256 = unat d then max 0 (refs s1 v) else refs s1 v)"
    by (rule Cons.IH [OF b(1) [OF d] _ s1(2)]) (use Cons.prems(2) in simp)
  moreover have "T - set (d # ds) = T - {d} - set ds" by auto
  ultimately show ?case using b(2,3) [OF d] b(4) [OF d, of v] survivors_trans by (simp add: max.left_idem)
qed

lemma set_begin_in: "set_begin A = Some d \<Longrightarrow> d \<in> A"
  unfolding set_begin_def by (metis Min_in finite option.distinct(1) option.inject)

lemma refs_clean_nonneg:
  assumes "reg_tables_ok T s" "\<And>d. d \<in> T \<Longrightarrow> unat v mod 256 \<noteq> unat d"
  shows "0 \<le> refs s v"
proof (cases "\<exists>p \<in> dom (regs s). value_of (regs s) p = v")
  case True
  then obtain p where p: "p \<in> dom (regs s)" "value_of (regs s) p = v" by blast
  let ?d = "dev_addr (reg_handle (deref (regs s) p))"
  note w = reg_tables_okD [OF assms(1)]
  have "unat v mod 256 = unat ?d" using value_dev [of "regs s" p] p(2) by simp
  then have "?d \<notin> T" using assms(2) by blast
  then have "0 < ref_cnt (deref (regs s) p)" using cleanD [OF w(5) [OF w(4) [OF p(1)]] w(3) [OF p(1)]] by blast
  then show ?thesis using refs_live [OF assms(1) p(1)] p(2) by simp
qed (use refs_dead [OF assms(1)] in force)

lemma refs_nonneg: "service_wf s \<Longrightarrow> 0 \<le> refs s v"
  using refs_clean_nonneg [of "{}" s v] by (simp add: service_wf_def)

lemma poll_ok_begin:
  assumes "reg_tables_ok {} s" "advc_it s = set_begin (valid_controllers s)" "req_ix s = 0"
  shows "service_wf s"
proof -
  note w = reg_tables_okD [OF assms(1)]
  have "0 < length (req_q (dev s d))" if "d \<in> valid_controllers s" for d
    using w(5) [OF w(7) [OF that]] that by (auto simp: clean_def)
  then have "poll_ok s"
    using set_begin_in [of "valid_controllers s"] assms(2,3)
    by (auto simp: poll_ok_def set_begin_def split: option.splits if_splits)
  then show ?thesis using assms(1) by (simp add: service_wf_def)
qed

lemma reg_tables_ok_frame:
  assumes "reg_tables_ok T s" "regs s' = regs s" "dev_reqs s' = dev_reqs s" "valid_controllers s' = valid_controllers s"
    "tag_changed s' \<subseteq> controllers"
  shows "reg_tables_ok T s'"
  using assms by (simp add: reg_tables_ok_def)

lemma refs_frame: "regs s' = regs s \<Longrightarrow> dev_reqs s' = dev_reqs s \<Longrightarrow> refs s' v = refs s v"
  by (simp only: refs_def)

lemma reg_tables_ok_mono: "reg_tables_ok T s \<Longrightarrow> T \<subseteq> T' \<Longrightarrow> reg_tables_ok T' s"
  unfolding reg_tables_ok_def by blast

lemma rebuild_spec:
  assumes "reg_tables_ok T s" "T \<subseteq> tag_changed s" "rebuild s = Inr s'"
  shows "service_wf s'" "survivors (regs s) (regs s')" "refs s' v = max 0 (refs s v)"
proof -
  let ?ds = "sorted_list_of_set (tag_changed s)"
  note w = reg_tables_okD [OF assms(1)]
  have ds: "set ?ds = tag_changed s" by simp
  obtain s1 where s1: "build_all ?ds s = Inr s1"
    "s' = s1\<lparr>tag_changed := {}, advc_it := set_begin (valid_controllers s1), req_ix := 0\<rparr>"
    using assms(3) by (auto simp: rebuild_def mapE_Inr_iff)
  have b: "reg_tables_ok (T - set ?ds) s1 \<and> tag_changed s1 = tag_changed s \<and> survivors (regs s) (regs s1) \<and>
    refs s1 v = (if \<exists>d \<in> set ?ds. unat v mod 256 = unat d then max 0 (refs s v) else refs s v)"
    by (rule build_all_spec [OF assms(1) _ s1(1)]) (use w(6) in simp)
  have "T - set ?ds = {}" using assms(2) ds by blast
  then have t: "reg_tables_ok {} s1" using b by metis
  then have t': "reg_tables_ok {} s'" by (rule reg_tables_ok_frame) (simp_all add: s1(2))
  show "service_wf s'" by (rule poll_ok_begin [OF t']) (simp_all add: s1(2))
  show "survivors (regs s) (regs s')" using b by (simp add: s1(2))
  have "refs s' v = refs s1 v" by (rule refs_frame) (simp_all add: s1(2))
  moreover have "0 \<le> refs s v" if "\<not> (\<exists>d \<in> set ?ds. unat v mod 256 = unat d)"
    by (rule refs_clean_nonneg [OF assms(1)]) (use that ds assms(2) in blast)
  ultimately show "refs s' v = max 0 (refs s v)" using b by auto
qed

section \<open>Adding and releasing\<close>

definition added :: "client_handle list \<Rightarrow> u32 \<Rightarrow> int" where
  "added cs v = int (count_list (map handle_value cs) v)"

lemma add_each_spec:
  assumes "reg_tables_ok T s" "T \<subseteq> tag_changed s" "fresh malloc" "add_each malloc cs s = Inr (n, ps, s')"
  shows "\<exists>T'. reg_tables_ok T' s' \<and> T' \<subseteq> tag_changed s' \<and> (n = 0 \<longrightarrow> T' = T \<and> dev_reqs s' = dev_reqs s)"
    "keeps (regs s) (regs s')" "refs s' v = refs s v + added cs v"
    "list_all2 (\<lambda>c p. p \<in> dom (regs s') \<and> value_of (regs s') p = handle_value c) cs ps"
    "valid_controllers s' = valid_controllers s" "advc_it s' = advc_it s" "req_ix s' = req_ix s"
proof -
  have "(\<exists>T'. reg_tables_ok T' s' \<and> T' \<subseteq> tag_changed s' \<and> (n = 0 \<longrightarrow> T' = T \<and> dev_reqs s' = dev_reqs s)) \<and>
    keeps (regs s) (regs s') \<and> refs s' v = refs s v + added cs v \<and>
    list_all2 (\<lambda>c p. p \<in> dom (regs s') \<and> value_of (regs s') p = handle_value c) cs ps \<and>
    valid_controllers s' = valid_controllers s \<and> advc_it s' = advc_it s \<and> req_ix s' = req_ix s"
    using assms(1,2,4)
  proof (induction cs arbitrary: T s n ps)
    case Nil
    then show ?case by (auto simp: added_def)
  next
    case (Cons c cs)
    obtain k p s1 m ps' where e: "add_register malloc c s = Inr (k, p, s1)" "add_each malloc cs s1 = Inr (m, ps', s')"
      "n = k + m" "ps = p # ps'"
      using Cons.prems(3) by (fastforce simp: mapE_Inr_iff)
    note a = add_register_spec [OF Cons.prems(1) assms(3) e(1)]
    let ?T1 = "if k = 0 then T else insert (dev_addr c) T"
    have t1: "?T1 \<subseteq> tag_changed s1" using Cons.prems(2) a(3) by auto
    note ih = Cons.IH [OF a(1) t1 e(2)]
    obtain T' where T': "reg_tables_ok T' s'" "T' \<subseteq> tag_changed s'" "m = 0 \<longrightarrow> T' = ?T1 \<and> dev_reqs s' = dev_reqs s1"
      using ih by blast
    have "n = 0 \<longrightarrow> T' = T \<and> dev_reqs s' = dev_reqs s" using T'(3) a(8) e(3) by auto
    moreover have k: "keeps (regs s1) (regs s')" using ih by blast
    moreover have "p \<in> dom (regs s') \<and> value_of (regs s') p = handle_value c"
      using k a(5,6) by (simp add: keeps_def)
    moreover have "refs s' v = refs s v + added (c # cs) v"
      using ih a(7) [of v] by (simp add: added_def)
    ultimately show ?case using T' ih a(4,9-11) keeps_trans e(4) by auto
  qed
  then show "\<exists>T'. reg_tables_ok T' s' \<and> T' \<subseteq> tag_changed s' \<and> (n = 0 \<longrightarrow> T' = T \<and> dev_reqs s' = dev_reqs s)"
    "keeps (regs s) (regs s')" "refs s' v = refs s v + added cs v"
    "list_all2 (\<lambda>c p. p \<in> dom (regs s') \<and> value_of (regs s') p = handle_value c) cs ps"
    "valid_controllers s' = valid_controllers s" "advc_it s' = advc_it s" "req_ix s' = req_ix s"
    by blast+
qed

lemma added_nonneg [simp]: "0 \<le> added cs v"
  by (simp add: added_def)

lemma service_wf_refs_pos:
  assumes "service_wf s" "p \<in> dom (regs s)"
  shows "0 < ref_cnt (deref (regs s) p)"
proof -
  have t: "reg_tables_ok {} s" using assms(1) by (simp add: service_wf_def)
  note w = reg_tables_okD [OF t]
  show ?thesis using cleanD [OF w(5) [OF w(4) [OF assms(2)]] w(3) [OF assms(2)]] by simp
qed

lemma add_registers_spec:
  assumes "service_wf s" "fresh malloc" "add_registers malloc cs s = Inr (n, ps, s')"
  shows "service_wf s'" "keeps (regs s) (regs s')" "refs s' v = refs s v + added cs v"
    "list_all2 (\<lambda>c p. p \<in> dom (regs s') \<and> value_of (regs s') p = handle_value c) cs ps"
proof -
  obtain s1 where s1: "add_each malloc cs s = Inr (n, ps, s1)" "if n = 0 then s' = s1 else rebuild s1 = Inr s'"
    using assms(3) by (auto simp: add_registers_def mapE_Inr_iff split: if_splits)
  have t: "reg_tables_ok {} s" using assms(1) by (simp add: service_wf_def)
  note a = add_each_spec [OF t empty_subsetI assms(2) s1(1)]
  have "service_wf s' \<and> survivors (regs s1) (regs s') \<and> refs s' v = max 0 (refs s1 v)"
  proof (cases "n = 0")
    case True
    then have e: "s' = s1" "reg_tables_ok {} s1" "dev_reqs s1 = dev_reqs s" using s1(2) a(1) by auto
    then have "service_wf s1" using assms(1) a(5-7) by (simp add: service_wf_def poll_ok_def split: option.splits)
    then show ?thesis using refs_nonneg [of s1 v] e(1) by (simp add: survivors_def)
  next
    case False
    obtain T where T: "reg_tables_ok T s1" "T \<subseteq> tag_changed s1" using a(1) by blast
    have "rebuild s1 = Inr s'" using s1(2) False by simp
    from rebuild_spec [OF T this] show ?thesis by blast
  qed
  note b = this
  have nn: "0 \<le> refs s u" for u by (rule refs_nonneg [OF assms(1)])
  show "service_wf s'" using b by blast
  show "refs s' v = refs s v + added cs v" using b a(3) [of v] nn [of v] by simp
  have pos: "0 < ref_cnt (deref (regs s1) p)" if "p \<in> dom (regs s1)" "0 < refs s1 (value_of (regs s1) p)" for p
  proof -
    obtain T where "reg_tables_ok T s1" using a(1) by blast
    from refs_live [OF this that(1)] that(2) show ?thesis by simp
  qed
  have stay: "p \<in> dom (regs s') \<and> deref (regs s') p = deref (regs s1) p"
    if "p \<in> dom (regs s1)" "0 < refs s1 (value_of (regs s1) p)" for p
    using b pos [OF that] that(1) by (simp add: survivors_def)
  have old: "0 < refs s1 (value_of (regs s1) p)" if "p \<in> dom (regs s)" for p
  proof -
    have "0 < refs s (value_of (regs s) p)"
      using refs_live [OF t that] service_wf_refs_pos [OF assms(1) that] by simp
    moreover have "value_of (regs s1) p = value_of (regs s) p" using a(2) that by (simp add: keeps_def)
    ultimately show ?thesis
      using add_each_spec(3) [OF t empty_subsetI assms(2) s1(1), of "value_of (regs s) p"]
      by (simp add: add_pos_nonneg)
  qed
  show "keeps (regs s) (regs s')"
    unfolding keeps_def
  proof
    fix p assume p: "p \<in> dom (regs s)"
    then have "p \<in> dom (regs s1)" "reg_handle (deref (regs s1) p) = reg_handle (deref (regs s) p)"
      using a(2) by (simp_all add: keeps_def)
    then show "p \<in> dom (regs s') \<and> reg_handle (deref (regs s') p) = reg_handle (deref (regs s) p)"
      using stay [of p] old [OF p] by simp
  qed
  have new: "0 < added cs (handle_value c)" if "c \<in> set cs" for c
  proof -
    have "handle_value c \<in> set (map handle_value cs)" using that by simp
    then have "count_list (map handle_value cs) (handle_value c) \<noteq> 0" by (simp only: count_list_0_iff not_not)
    then show ?thesis by (simp add: added_def)
  qed
  have "p \<in> dom (regs s') \<and> value_of (regs s') p = handle_value c"
    if "c \<in> set cs" "p \<in> dom (regs s1) \<and> value_of (regs s1) p = handle_value c" for c p
  proof -
    have "0 < refs s1 (handle_value c)"
      using add_each_spec(3) [OF t empty_subsetI assms(2) s1(1), of "handle_value c"] new [OF that(1)]
        nn [of "handle_value c"] by simp
    then show ?thesis using stay [of p] that(2) by simp
  qed
  then show "list_all2 (\<lambda>c p. p \<in> dom (regs s') \<and> value_of (regs s') p = handle_value c) cs ps"
    by (intro list.rel_mono_strong [OF a(4)]) simp
qed

text \<open>How much is released of a register value.\<close>

definition released :: "(client_handle \<times> int) list \<Rightarrow> u32 \<Rightarrow> int" where
  "released rs v = (\<Sum>(c, n) \<leftarrow> rs. if handle_value c = v then n else 0)"

lemma release_one_spec:
  assumes "reg_tables_ok {} s0" "dom (regs s) = dom (regs s0)" "dev_reqs s = dev_reqs s0"
    and "valid_controllers s = valid_controllers s0"
    and "\<And>p. reg_handle (deref (regs s) p) = reg_handle (deref (regs s0) p)"
    and "release_one (c, n) (del, s) = (del', s')"
  shows "dom (regs s') = dom (regs s0) \<and> dev_reqs s' = dev_reqs s0 \<and> valid_controllers s' = valid_controllers s0 \<and>
    (\<forall>p. reg_handle (deref (regs s') p) = reg_handle (deref (regs s0) p)) \<and>
    (\<forall>p \<in> dom (regs s0). ref_cnt (deref (regs s') p) =
       ref_cnt (deref (regs s) p) - (if value_of (regs s0) p = handle_value c then n else 0)) \<and>
    (tag_changed s \<subseteq> controllers \<longrightarrow> tag_changed s' \<subseteq> controllers) \<and> advc_it s' = advc_it s \<and> req_ix s' = req_ix s \<and>
    ((\<not> del \<longrightarrow> (\<forall>p \<in> dom (regs s0). 0 < ref_cnt (deref (regs s) p))) \<longrightarrow>
      (\<not> del' \<longrightarrow> (\<forall>p \<in> dom (regs s0). 0 < ref_cnt (deref (regs s') p)))) \<and> tag_changed s \<subseteq> tag_changed s' \<and>
    (\<forall>p \<in> dom (regs s0). dev_addr (reg_handle (deref (regs s0) p)) \<in> tag_changed s' \<or>
       ref_cnt (deref (regs s') p) = ref_cnt (deref (regs s) p))"
proof (cases "dev_addr c \<in> valid_controllers s0")
  case False
  have other: "value_of (regs s0) p \<noteq> handle_value c" if "p \<in> dom (regs s0)" for p
  proof
    assume "value_of (regs s0) p = handle_value c"
    then have "dev_addr c = dev_addr (reg_handle (deref (regs s0) p))"
      using handle_value_dev [of c] value_dev [of "regs s0" p] by (simp add: word_unat_eq_iff)
    moreover note w = reg_tables_okD [OF assms(1)]
    ultimately show False
      using w(5) [OF w(4) [OF that]] w(3) [OF that] False by (auto simp: clean_def)
  qed
  have "s' = s" "del' = del" using assms(4,6) False by (auto simp: release_one_def)
  then show ?thesis using assms(2-5) other by simp
next
  case True
  note w = reg_tables_okD [OF assms(1)]
  let ?a = "reg_a (dev s0 (dev_addr c))"
  have d: "unat (dev_addr c) < 32" by (rule w(7) [OF True])
  obtain b it where f: "find_register (regs s) (server_handle c) ?a = (b, it)"
    by (cases "find_register (regs s) (server_handle c) ?a")
  note t = reg_table_okD [OF w(2) [OF d]]
  have so: "sorted_table (regs s) ?a"
    by (rule sorted_wrt_mono_rel [OF _ t(1)]) (simp add: assms(5))
  note fs = find_register_spec [OF so f]
  show ?thesis
  proof (cases b)
    case found: True
    let ?p = "?a ! it"
    let ?h = "upd_reg ?p (\<lambda>r. r\<lparr>ref_cnt := ref_cnt r - n\<rparr>) (regs s)"
    have it: "?p \<in> set ?a" "value_of (regs s) ?p = handle_value c" using fs(3) [OF found] by simp_all
    then have live: "?p \<in> dom (regs s0)" using t(3) by simp
    have e: "s' = s\<lparr>regs := ?h, tag_changed := insert (dev_addr c) (tag_changed s)\<rparr>"
      "del' \<longleftrightarrow> del \<or> ref_cnt (deref ?h ?p) \<le> 0"
      using assms(3,4,6) True f found by (auto simp: release_one_def Let_def)
    have "q = ?p \<longleftrightarrow> value_of (regs s0) q = handle_value c" if "q \<in> dom (regs s0)" for q
      using live_inj [OF assms(1) that live] it(2) assms(5) by auto
    then have cnt: "ref_cnt (deref ?h q) = ref_cnt (deref (regs s) q) - (if value_of (regs s0) q = handle_value c then n else 0)"
      if "q \<in> dom (regs s0)" for q
      using that by (auto simp: deref_upd_reg)
    have hd: "reg_handle (deref ?h q) = reg_handle (deref (regs s0) q)" for q
      using assms(5) by (simp add: deref_upd_reg)
    have "0 < ref_cnt (deref ?h q)"
      if "q \<in> dom (regs s0)" "\<not> del'" "\<not> del \<longrightarrow> (\<forall>p \<in> dom (regs s0). 0 < ref_cnt (deref (regs s) p))" for q
      using that e(2) by (cases "q = ?p") (auto simp: deref_upd_reg)
    moreover have "dev_addr (reg_handle (deref (regs s0) q)) \<in> tag_changed s' \<or> ref_cnt (deref ?h q) = ref_cnt (deref (regs s) q)"
      if "q \<in> dom (regs s0)" for q
      using t(4) [OF it(1)] by (cases "q = ?p") (simp_all add: e(1) deref_upd_reg)
    ultimately show ?thesis using assms cnt hd live d by (auto simp: e(1) dom_upd_reg)
  next
    case missing: False
    have e: "s' = s\<lparr>tag_changed := insert (dev_addr c) (tag_changed s)\<rparr>" "del' = del"
      using assms(3,4,6) True f missing by (auto simp: release_one_def Let_def)
    have "value_of (regs s0) p \<noteq> handle_value c" if "p \<in> dom (regs s0)" for p
    proof
      assume v: "value_of (regs s0) p = handle_value c"
      then have "dev_addr (reg_handle (deref (regs s0) p)) = dev_addr c"
        using handle_value_dev [of c] value_dev [of "regs s0" p] by (simp add: word_unat_eq_iff)
      then have "p \<in> set ?a" using w(3) [OF that] by simp
      then show False using fs(2) missing v assms(5) by simp
    qed
    then show ?thesis using assms d by (auto simp: e)
  qed
qed

lemma release_fold_spec:
  assumes "reg_tables_ok {} s0" "dom (regs s) = dom (regs s0)" "dev_reqs s = dev_reqs s0"
    and "valid_controllers s = valid_controllers s0"
    and "\<And>p. reg_handle (deref (regs s) p) = reg_handle (deref (regs s0) p)"
    and "tag_changed s \<subseteq> controllers"
    and "\<not> del \<longrightarrow> (\<forall>p \<in> dom (regs s0). 0 < ref_cnt (deref (regs s) p))"
    and "fold release_one rs (del, s) = (del', s')"
  shows "dom (regs s') = dom (regs s0) \<and> dev_reqs s' = dev_reqs s0 \<and> valid_controllers s' = valid_controllers s0 \<and>
    (\<forall>p. reg_handle (deref (regs s') p) = reg_handle (deref (regs s0) p)) \<and>
    (\<forall>p \<in> dom (regs s0). ref_cnt (deref (regs s') p) = ref_cnt (deref (regs s) p) - released rs (value_of (regs s0) p)) \<and>
    tag_changed s' \<subseteq> controllers \<and> advc_it s' = advc_it s \<and> req_ix s' = req_ix s \<and>
    (\<not> del' \<longrightarrow> (\<forall>p \<in> dom (regs s0). 0 < ref_cnt (deref (regs s') p))) \<and> tag_changed s \<subseteq> tag_changed s' \<and>
    (\<forall>p \<in> dom (regs s0). dev_addr (reg_handle (deref (regs s0) p)) \<in> tag_changed s' \<or>
       ref_cnt (deref (regs s') p) = ref_cnt (deref (regs s) p))"
  using assms(2-)
proof (induction rs arbitrary: del s)
  case Nil
  then show ?case by (simp add: released_def)
next
  case (Cons r rs)
  obtain c n where r: "r = (c, n)" by (cases r)
  obtain del1 s1 where e: "release_one (c, n) (del, s) = (del1, s1)" by (cases "release_one (c, n) (del, s)")
  note o = release_one_spec [OF assms(1) Cons.prems(1-4) e]
  have f: "fold release_one rs (del1, s1) = (del', s')" using Cons.prems(7) r e by simp
  have ih: "dom (regs s') = dom (regs s0) \<and> dev_reqs s' = dev_reqs s0 \<and> valid_controllers s' = valid_controllers s0 \<and>
    (\<forall>p. reg_handle (deref (regs s') p) = reg_handle (deref (regs s0) p)) \<and>
    (\<forall>p \<in> dom (regs s0). ref_cnt (deref (regs s') p) = ref_cnt (deref (regs s1) p) - released rs (value_of (regs s0) p)) \<and>
    tag_changed s' \<subseteq> controllers \<and> advc_it s' = advc_it s1 \<and> req_ix s' = req_ix s1 \<and>
    (\<not> del' \<longrightarrow> (\<forall>p \<in> dom (regs s0). 0 < ref_cnt (deref (regs s') p))) \<and> tag_changed s1 \<subseteq> tag_changed s' \<and>
    (\<forall>p \<in> dom (regs s0). dev_addr (reg_handle (deref (regs s0) p)) \<in> tag_changed s' \<or>
       ref_cnt (deref (regs s') p) = ref_cnt (deref (regs s1) p))"
    by (rule Cons.IH [OF _ _ _ _ _ _ f]) (use o Cons.prems(5,6) in blast)+
  note ih = this
  have rel: "released (r # rs) v = (if handle_value c = v then n else 0) + released rs v" for v
    by (simp add: released_def r)
  have "ref_cnt (deref (regs s') p) = ref_cnt (deref (regs s) p) - released (r # rs) (value_of (regs s0) p)"
    if p: "p \<in> dom (regs s0)" for p
  proof -
    have "ref_cnt (deref (regs s') p) = ref_cnt (deref (regs s1) p) - released rs (value_of (regs s0) p)"
      using ih p by blast
    moreover have "ref_cnt (deref (regs s1) p) = ref_cnt (deref (regs s) p) -
      (if value_of (regs s0) p = handle_value c then n else 0)" using o p by blast
    ultimately show ?thesis by (simp add: rel)
  qed
  moreover have "dev_addr (reg_handle (deref (regs s0) p)) \<in> tag_changed s' \<or>
    ref_cnt (deref (regs s') p) = ref_cnt (deref (regs s) p)" if "p \<in> dom (regs s0)" for p
    using ih o that by (metis subsetD)
  moreover have "advc_it s' = advc_it s" "req_ix s' = req_ix s" "tag_changed s \<subseteq> tag_changed s'"
    using ih o by auto
  ultimately show ?case using ih by blast
qed

lemma released_nonneg: "(\<And>c n. (c, n) \<in> set rs \<Longrightarrow> 0 \<le> n) \<Longrightarrow> 0 \<le> released rs v"
  unfolding released_def by (intro sum_list_nonneg) auto

lemma release_registers_spec:
  assumes "service_wf s" "\<And>c n. (c, n) \<in> set rs \<Longrightarrow> 0 \<le> n" "release_registers rs s = Inr (k, s')"
  shows "service_wf s'" "refs s' v = max 0 (refs s v - released rs v)"
    "\<And>p. p \<in> dom (regs s) \<Longrightarrow> released rs (value_of (regs s) p) < refs s (value_of (regs s) p) \<Longrightarrow>
      p \<in> dom (regs s') \<and> reg_handle (deref (regs s') p) = reg_handle (deref (regs s) p)"
proof -
  have t: "reg_tables_ok {} s" using assms(1) by (simp add: service_wf_def)
  note w = reg_tables_okD [OF t]
  obtain del s1 where f: "fold release_one rs (False, s) = (del, s1)" by (cases "fold release_one rs (False, s)")
  have "tag_changed s \<subseteq> controllers" using w(6) by blast
  note o = release_fold_spec [OF t refl refl refl refl this _ f]
  have pos: "0 < ref_cnt (deref (regs s) p)" if "p \<in> dom (regs s)" for p
    by (rule service_wf_refs_pos [OF assms(1) that])
  have o1: "dom (regs s1) = dom (regs s)" "dev_reqs s1 = dev_reqs s" "valid_controllers s1 = valid_controllers s"
    "\<And>p. reg_handle (deref (regs s1) p) = reg_handle (deref (regs s) p)"
    "\<And>p. p \<in> dom (regs s) \<Longrightarrow> ref_cnt (deref (regs s1) p) = ref_cnt (deref (regs s) p) - released rs (value_of (regs s) p)"
    "tag_changed s1 \<subseteq> controllers" "advc_it s1 = advc_it s" "req_ix s1 = req_ix s"
    "\<And>p. \<not> del \<Longrightarrow> p \<in> dom (regs s) \<Longrightarrow> 0 < ref_cnt (deref (regs s1) p)"
    "\<And>p. p \<in> dom (regs s) \<Longrightarrow> dev_addr (reg_handle (deref (regs s) p)) \<notin> tag_changed s1 \<Longrightarrow>
      ref_cnt (deref (regs s1) p) = ref_cnt (deref (regs s) p)"
    using o pos by blast+
  let ?T = "if del then tag_changed s1 else {}"
  have "reg_tables_ok ?T s" by (rule reg_tables_ok_mono [OF t]) simp
  then have "reg_tables_ok ?T (s\<lparr>regs := regs s1\<rparr>)"
  proof (rule reg_tables_ok_heap)
    show "0 < ref_cnt (deref (regs s1) p)" if "unat d < 32" "d \<notin> ?T" "p \<in> set (reg_a (dev s d))" for d p
    proof -
      have "p \<in> dom (regs s)" "dev_addr (reg_handle (deref (regs s) p)) = d"
        using reg_table_okD(3,4) [OF w(2) [OF that(1)] that(3)] by blast+
      then show ?thesis using that(2) o1(9,10) [of p] pos [of p] by (cases del) auto
    qed
  qed (use o1 in simp_all)
  then have T: "reg_tables_ok ?T s1" by (rule reg_tables_ok_frame) (use o1 in simp_all)
  have refs1: "refs s1 v = refs s v - released rs v" if vin: "v \<in> value_of (regs s) ` dom (regs s)" for v
  proof -
    obtain p where p: "p \<in> dom (regs s)" "v = value_of (regs s) p" using vin by (auto simp: image_iff)
    have "refs s1 (value_of (regs s1) p) = ref_cnt (deref (regs s1) p)" by (rule refs_live [OF T]) (simp add: p o1)
    then show ?thesis using refs_live [OF t p(1)] o1(4,5) p by simp
  qed
  have refs0: "refs s1 v = 0 \<and> refs s v = 0" if "v \<notin> value_of (regs s) ` dom (regs s)" for v
  proof -
    have "value_of (regs s1) p \<noteq> v" if "p \<in> dom (regs s1)" for p using that \<open>v \<notin> _\<close> o1(1,4) by auto
    moreover have "value_of (regs s) p \<noteq> v" if "p \<in> dom (regs s)" for p using that \<open>v \<notin> _\<close> by auto
    ultimately show ?thesis using refs_dead [OF T] refs_dead [OF t] by blast
  qed
  have "service_wf s' \<and> survivors (regs s1) (regs s') \<and> refs s' v = max 0 (refs s1 v)"
  proof (cases del)
    case True
    then have "rebuild s1 = Inr s'" using assms(3) f by (auto simp: release_registers_def mapE_Inr_iff)
    moreover have "reg_tables_ok (tag_changed s1) s1" using T True by simp
    ultimately show ?thesis using rebuild_spec [of "tag_changed s1" s1 s'] by blast
  next
    case False
    then have "s' = s1" using assms(3) f by (simp add: release_registers_def)
    moreover have "service_wf s1"
      using T False assms(1) o1 by (simp add: service_wf_def poll_ok_def split: option.splits)
    ultimately show ?thesis using refs_nonneg [of s1 v] by (simp add: survivors_def)
  qed
  note b = this
  show "service_wf s'" using b by blast
  show "refs s' v = max 0 (refs s v - released rs v)"
    using b refs1 [of v] refs0 [of v] released_nonneg [of rs v] assms(2) by (cases "v \<in> value_of (regs s) ` dom (regs s)") auto
  show "p \<in> dom (regs s') \<and> reg_handle (deref (regs s') p) = reg_handle (deref (regs s) p)"
    if "p \<in> dom (regs s)" "released rs (value_of (regs s) p) < refs s (value_of (regs s) p)" for p
  proof -
    have "0 < ref_cnt (deref (regs s1) p)" using o1(5) [OF that(1)] refs_live [OF t that(1)] that(2) by simp
    then show ?thesis using b that(1) o1(1,4) by (simp add: survivors_def)
  qed
qed

lemma fold_delete:
  "fold (\<lambda>p h. h(p := None)) ps h = (\<lambda>q. if q \<in> set ps then None else h q)"
  by (induction ps arbitrary: h) auto

lemma remove_device_spec:
  assumes "service_wf s" "remove_device d s = Inr s'"
  shows "service_wf s'" "refs s' v = (if unat v mod 256 = unat d then 0 else refs s v)"
    "\<And>p. p \<in> dom (regs s) \<Longrightarrow> dev_addr (reg_handle (deref (regs s) p)) \<noteq> d \<Longrightarrow>
      p \<in> dom (regs s') \<and> deref (regs s') p = deref (regs s) p"
proof -
  have t: "reg_tables_ok {} s" using assms(1) by (simp add: service_wf_def)
  note w = reg_tables_okD [OF t]
  let ?a = "reg_a (dev s d)"
  have d: "unat d < 32"
    and e: "regs s' = (\<lambda>q. if q \<in> set ?a then None else regs s q)" "advc_it s' = set_begin (valid_controllers s')"
      "dev_reqs s' = (dev_reqs s)[unat d := \<lparr>reg_a = [], req_q = []\<rparr>]" "valid_controllers s' = valid_controllers s - {d}"
      "req_ix s' = 0" "tag_changed s' = tag_changed s"
    using assms(2) by (auto simp: remove_device_def Let_def fold_delete split: if_splits)
  have dv: "dev s' c = (if c = d then \<lparr>reg_a = [], req_q = []\<rparr> else dev s c)" if "unat c < 32" for c
    using that d w(1) by (simp add: e(3) nth_list_update word_unat_eq_iff)
  note td = reg_table_okD [OF w(2) [OF d]]
  have mine: "p \<in> set ?a \<longleftrightarrow> dev_addr (reg_handle (deref (regs s) p)) = d" if "p \<in> dom (regs s)" for p
    using w(3) [OF that] td(4) by auto
  have left: "p \<in> dom (regs s') \<longleftrightarrow> p \<in> dom (regs s) \<and> p \<notin> set ?a" for p by (auto simp: e(1) split: if_splits)
  have same: "deref (regs s') p = deref (regs s) p" if "p \<notin> set ?a" for p using that by (simp add: e(1) deref_def)
  have live: "p \<in> dom (regs s)" "p \<notin> set ?a" if "unat c < 32" "c \<noteq> d" "p \<in> set (reg_a (dev s c))" for c p
    using reg_table_okD(3,4) [OF w(2) [OF that(1)] that(3)] mine [of p] that(2) by auto
  have t': "reg_tables_ok {} s'"
  proof (rule reg_tables_okI)
    show "length (dev_reqs s') = 32" using w(1) by (simp add: e(3))
    show "reg_table_ok (regs s') c (reg_a (dev s' c))" if "unat c < 32" for c
    proof (cases "c = d")
      case False
      then show ?thesis
        using reg_table_ok_cong [OF w(2) [OF that], of "regs s'"] same left live [OF that False] dv [OF that] by simp
    qed (use dv [OF that] in \<open>simp add: reg_table_ok_def\<close>)
    show "p \<in> set (reg_a (dev s' (dev_addr (reg_handle (deref (regs s') p))))) \<and>
      unat (dev_addr (reg_handle (deref (regs s') p))) < 32" if "p \<in> dom (regs s')" for p
      using that left [of p] same [of p] w(3,4) [of p] mine [of p] dv by simp
    show "clean (regs s') (c \<in> valid_controllers s') (dev s' c)" if "unat c < 32" "c \<notin> {}" for c
    proof (cases "c = d")
      case True
      then show ?thesis using dv [OF that(1)] by (simp add: clean_def e(4))
    next
      case False
      have "clean (regs s) (c \<in> valid_controllers s) (dev s c)" using w(5) that by blast
      note c = clean_cong [OF this, of "regs s'"] cleanD [OF this]
      have "clean (regs s') (c \<in> valid_controllers s) (dev s c)"
        by (rule c(1)) (use same live [OF that(1) False] c(2) in simp_all)
      then show ?thesis using False dv [OF that(1)] by (simp add: e(4))
    qed
    show "finite (dom (regs s'))" by (rule finite_subset [OF _ w(8)]) (use left in blast)
  qed (use w(6,7) e(4,6) in auto)
  show "service_wf s'" by (rule poll_ok_begin [OF t' e(2,5)])
  show "p \<in> dom (regs s') \<and> deref (regs s') p = deref (regs s) p"
    if "p \<in> dom (regs s)" "dev_addr (reg_handle (deref (regs s) p)) \<noteq> d" for p
    using that left [of p] same [of p] mine [of p] by blast
  show "refs s' v = (if unat v mod 256 = unat d then 0 else refs s v)"
  proof (cases "\<exists>p \<in> dom (regs s'). value_of (regs s') p = v")
    case True
    then obtain p where p: "p \<in> dom (regs s')" "value_of (regs s') p = v" by blast
    have p0: "p \<in> dom (regs s)" "deref (regs s') p = deref (regs s) p" "dev_addr (reg_handle (deref (regs s) p)) \<noteq> d"
      using p(1) left [of p] same [of p] mine [of p] by auto
    then have "unat v mod 256 \<noteq> unat d" using value_dev [of "regs s'" p] p(2) by (simp add: word_unat_eq_iff [symmetric])
    then show ?thesis using refs_live [OF t' p(1)] refs_live [OF t p0(1)] p(2) p0(2) by simp
  next
    case False
    then have "refs s' v = 0" using refs_dead [OF t'] by blast
    moreover have "refs s v = 0" if "unat v mod 256 \<noteq> unat d"
    proof (rule refs_dead [OF t])
      show "value_of (regs s) p \<noteq> v" if "p \<in> dom (regs s)" for p
      proof
        assume v: "value_of (regs s) p = v"
        then have "p \<notin> set ?a" using mine [OF that] value_dev [of "regs s" p] \<open>unat v mod 256 \<noteq> unat d\<close> by auto
        then have "p \<in> dom (regs s')" "value_of (regs s') p = v" using left [of p] same [of p] that v by simp_all
        then show False using False by blast
      qed
    qed
    ultimately show ?thesis by simp
  qed
qed

lemma service_init_wf: "service_wf protocol_service_init"
  by (simp add: service_wf_def protocol_service_init_def reg_tables_ok_def reg_table_ok_def clean_def poll_ok_def)

lemma refs_init: "refs protocol_service_init v = 0"
  using refs_dead [of "{}" protocol_service_init v] service_init_wf
  by (simp add: service_wf_def) (simp add: protocol_service_init_def)

section \<open>The service counts subscriptions\<close>

text \<open>The tasks of the service that change its tables, in any order.\<close>

datatype service_task =
    AddRegisters "client_handle list"
  | ReleaseRegisters "(client_handle \<times> nat) list"
  | RemoveDevice u8

fun run_task :: "allocator \<Rightarrow> service_task \<Rightarrow> protocol_service \<Rightarrow> protocol_error + protocol_service" where
  "run_task malloc (AddRegisters cs) s = mapE (\<lambda>(n, ps, s). s) (add_registers malloc cs s)"
| "run_task malloc (ReleaseRegisters rs) s = mapE snd (release_registers (map (map_prod id int) rs) s)"
| "run_task malloc (RemoveDevice d) s = remove_device d s"

fun run_tasks :: "allocator \<Rightarrow> service_task list \<Rightarrow> protocol_service \<Rightarrow> protocol_error + protocol_service" where
  "run_tasks malloc [] s = Inr s"
| "run_tasks malloc (t # ts) s = bindE (run_task malloc t s) (run_tasks malloc ts)"

text \<open>The specification: a number for every register value.\<close>

fun count_task :: "service_task \<Rightarrow> (u32 \<Rightarrow> int) \<Rightarrow> u32 \<Rightarrow> int" where
  "count_task (AddRegisters cs) f v = f v + int (count_list (map handle_value cs) v)"
| "count_task (ReleaseRegisters rs) f v =
     max 0 (f v - int (\<Sum>(c, n) \<leftarrow> rs. if handle_value c = v then n else 0))"
| "count_task (RemoveDevice d) f v = (if unat v mod 256 = unat d then 0 else f v)"

lemma released_int: "released (map (map_prod id int) rs) v = int (\<Sum>(c, n) \<leftarrow> rs. if handle_value c = v then n else 0)"
  unfolding released_def by (induction rs) (auto split: prod.splits)

lemma run_task_spec:
  assumes "service_wf s" "fresh malloc" "run_task malloc t s = Inr s'"
  shows "service_wf s' \<and> refs s' v = count_task t (refs s) v"
proof (cases t)
  case (AddRegisters cs)
  then obtain n ps where "add_registers malloc cs s = Inr (n, ps, s')" using assms(3) by (auto simp: mapE_Inr_iff)
  then show ?thesis using add_registers_spec(1,3) [OF assms(1,2)] AddRegisters by (auto simp: added_def)
next
  case (ReleaseRegisters rs)
  then obtain n where r: "release_registers (map (map_prod id int) rs) s = Inr (n, s')" using assms(3) by (auto simp: mapE_Inr_iff)
  have "0 \<le> n" if "(c, n) \<in> set (map (map_prod id int) rs)" for c n using that by auto
  from release_registers_spec(1,2) [OF assms(1) this r] show ?thesis using ReleaseRegisters released_int by auto
next
  case (RemoveDevice d)
  then show ?thesis using remove_device_spec(1,2) [OF assms(1)] assms(3) by simp
qed

lemma run_tasks_spec:
  assumes "fresh malloc" "service_wf s" "run_tasks malloc ts s = Inr s'"
  shows "service_wf s' \<and> refs s' = fold count_task ts (refs s)"
  using assms(2,3)
proof (induction ts arbitrary: s)
  case (Cons t ts)
  obtain s1 where s1: "run_task malloc t s = Inr s1" "run_tasks malloc ts s1 = Inr s'" using Cons.prems(2) by auto
  have "service_wf s1" "refs s1 = count_task t (refs s)" using run_task_spec [OF Cons.prems(1) assms(1) s1(1)] by auto
  then show ?case using Cons.IH [OF _ s1(2)] by simp
qed simp

section \<open>The fixed tables are large enough\<close>

text \<open>No call fails as long as no controller has more registers than there are requests.\<close>

definition small :: "nat \<Rightarrow> protocol_service \<Rightarrow> bool" where
  "small n s \<longleftrightarrow> length (dev_reqs s) = MAX_CTRLS \<and> tag_changed s \<subseteq> controllers \<and>
     (\<forall>d \<in> controllers. length (reg_a (dev s d)) \<le> n)"

lemma sweep_length: "length (fst (sweep h ps)) \<le> length ps"
  by (induction h ps rule: sweep.induct) (auto simp: Let_def simp del: fun_upd_apply split: prod.splits)

lemma build_req_total:
  assumes "small 128 s" "unat d < 32"
  obtains s' where "build_req d s = Inr s'" "small 128 s'" "tag_changed s' = tag_changed s"
proof -
  let ?a = "reg_a (dev s d)"
  obtain kept h where k: "sweep (regs s) ?a = (kept, h)" by (cases "sweep (regs s) ?a")
  have len: "length kept \<le> 128" using sweep_length [of "regs s" ?a] k assms by (auto simp: small_def intro: order_trans)
  then have "\<not> 128 < length (build_requests h kept)" using build_requests_length [of h kept] by linarith
  then obtain s' where e: "build_req d s = Inr s'" "dev_reqs s' = (dev_reqs s)[unat d := \<lparr>reg_a = kept, req_q = req_q (dev s' d)\<rparr>]"
    "tag_changed s' = tag_changed s"
    using k assms by (cases "kept = []") (auto simp: build_req_def Let_def small_def)
  have "length (reg_a (dev s' c)) \<le> 128" if "unat c < 32" for c
  proof (cases "unat c = unat d")
    case True
    then show ?thesis using len assms that by (subst e(2)) (simp add: small_def)
  next
    case False
    then show ?thesis using assms that by (subst e(2)) (simp add: small_def)
  qed
  moreover have "length (dev_reqs s') = length (dev_reqs s)" by (subst e(2)) simp
  ultimately have "small 128 s'" using e(3) assms(1) by (simp add: small_def)
  then show ?thesis using e(1,3) that by blast
qed

lemma build_all_total:
  "small 128 s \<Longrightarrow> (\<And>d. d \<in> set ds \<Longrightarrow> unat d < 32) \<Longrightarrow> \<exists>s'. build_all ds s = Inr s'"
proof (induction ds arbitrary: s)
  case (Cons d ds)
  have "unat d < 32" using Cons.prems(2) by simp
  obtain s1 where "build_req d s = Inr s1" "small 128 s1" "tag_changed s1 = tag_changed s"
    by (rule build_req_total [OF Cons.prems(1) \<open>unat d < 32\<close>])
  then show ?case using Cons.IH [of s1] Cons.prems(2) by simp
qed simp

lemma rebuild_total: "small 128 s \<Longrightarrow> \<exists>s'. rebuild s = Inr s'"
proof -
  assume s: "small 128 s"
  have "\<exists>s'. build_all (sorted_list_of_set (tag_changed s)) s = Inr s'"
    by (rule build_all_total [OF s]) (use s in \<open>auto simp: small_def\<close>)
  then show ?thesis by (auto simp: rebuild_def)
qed

lemma add_each_total:
  assumes "small n s" "n + length cs \<le> 1024" "\<And>c. c \<in> set cs \<Longrightarrow> 0 < reg_size c \<and> reg_size c \<le> 5 \<and> unat (dev_addr c) < 32"
  shows "\<exists>k ps s'. add_each malloc cs s = Inr (k, ps, s') \<and> small (n + length cs) s'"
  using assms
proof (induction cs arbitrary: n s)
  case (Cons c cs)
  let ?a = "reg_a (dev s (dev_addr c))"
  obtain b it where f: "find_register (regs s) (server_handle c) ?a = (b, it)"
    by (cases "find_register (regs s) (server_handle c) ?a")
  obtain p g where m: "malloc (regs s) = (p, g)" by (cases "malloc (regs s)")
  have d: "unat (dev_addr c) < 32" "0 < reg_size c" "reg_size c \<le> 5" using Cons.prems(3) by simp_all
  then have "length ?a \<le> n" using Cons.prems(1) by (simp add: small_def)
  then have len: "length ?a < 1024" "unat (dev_addr c) < 32" using Cons.prems(2) d by simp_all
  have "\<exists>k q s1. add_register malloc c s = Inr (k, q, s1) \<and> small (Suc n) s1"
  proof (cases b)
    case True
    then show ?thesis
      using Cons.prems(1) d f by (auto simp: add_register_def Let_def small_def)
  next
    case False
    let ?r = "(dev s (dev_addr c))\<lparr>reg_a := take it ?a @ p # drop it ?a\<rparr>"
    have "length (reg_a ((dev_reqs s)[unat (dev_addr c) := ?r] ! unat d)) \<le> Suc n" if "unat d < 32" for d :: u8
    proof (cases "unat d = unat (dev_addr c)")
      case True
      have "length ?a \<le> n" using Cons.prems(1) len(2) by (simp add: small_def)
      moreover have "length (take it ?a @ p # drop it ?a) = Suc (length ?a)" by simp
      ultimately show ?thesis using True Cons.prems(1) that by (simp add: small_def del: length_append length_take length_drop)
    next
      case False
      have "length (reg_a (dev s d)) \<le> n" using Cons.prems(1) that by (simp add: small_def)
      then show ?thesis using False by simp
    qed
    then show ?thesis
      using Cons.prems(1) d f m False len by (auto simp: add_register_def Let_def small_def)
  qed
  then obtain k q s1 where s1: "add_register malloc c s = Inr (k, q, s1)" "small (Suc n) s1" by blast
  obtain k' ps s' where "add_each malloc cs s1 = Inr (k', ps, s')" "small (Suc n + length cs) s'"
    using Cons.IH [OF s1(2)] Cons.prems(2,3) by auto
  then show ?case using s1(1) by simp
qed (simp add: exI)

lemma add_registers_total:
  assumes "small n s" "n + length cs \<le> 128" "\<And>c. c \<in> set cs \<Longrightarrow> 0 < reg_size c \<and> reg_size c \<le> 5 \<and> unat (dev_addr c) < 32"
  shows "\<exists>k ps s'. add_registers malloc cs s = Inr (k, ps, s')"
proof -
  obtain k ps s1 where e: "add_each malloc cs s = Inr (k, ps, s1)" "small (n + length cs) s1"
    using add_each_total [OF assms(1) _ assms(3), of cs malloc] assms(2) by fastforce
  have "small 128 s1" using e(2) assms(2) by (auto simp: small_def)
  then show ?thesis using rebuild_total [of s1] e(1) by (auto simp: add_registers_def)
qed

text \<open>An allocator, for the examples.\<close>

definition lowest_free :: allocator where
  "lowest_free h = (LEAST p. p \<notin> dom h, 0xDEADBEEF)"

lemma lowest_free_fresh: "fresh lowest_free"
  unfolding fresh_def
proof (intro allI impI)
  fix h :: heap assume "finite (dom h)"
  then have "\<exists>p. p \<notin> dom h" by (rule ex_new_if_finite [OF infinite_UNIV_nat])
  then show "fst (lowest_free h) \<notin> dom h" unfolding lowest_free_def fst_conv by (rule LeastI_ex)
qed


abbreviation (input) demo_handle :: "u16 \<Rightarrow> client_handle" where
  "demo_handle a \<equiv> \<lparr>dev_addr = 3, reg_size = 2, mem_addr = a, handle_id = 7\<rparr>"

lemma demo_run:
  obtains s where "run_tasks lowest_free [AddRegisters [demo_handle 100, demo_handle 96, demo_handle 98, demo_handle 100]]
    protocol_service_init = Inr s"
proof -
  have "small 0 protocol_service_init" by (simp add: small_def protocol_service_init_def)
  from add_registers_total [OF this, of "[demo_handle 100, demo_handle 96, demo_handle 98, demo_handle 100]" lowest_free] that
  show ?thesis by force
qed


text \<open>
  C28. What is polled: for every controller the requests list its registers in the order of their
  values, each exactly once; the registers of a request are adjacent in the memory of the controller,
  at most 13, and the byte count of the request is their total size (no overflow of the 8-bit
  counters); and a request is only ended by a gap or a full request. So one block read per request
  reads exactly the subscribed memory.
\<close>

theorem requests_cover:
  assumes "fresh malloc" "run_tasks malloc ts protocol_service_init = Inr s" "unat d < 32"
  shows "sorted_wrt (\<lambda>p q. value_of (regs s) p < value_of (regs s) q) (reg_a (dev s d)) \<and>
    set (reg_a (dev s d)) = {p \<in> dom (regs s). dev_addr (reg_handle (deref (regs s) p)) = d} \<and>
    concat (map req_data (req_q (dev s d))) = reg_a (dev s d) \<and>
    (\<forall>q \<in> set (req_q (dev s d)). request_ok (regs s) q) \<and> maximal (regs s) (req_q (dev s d))"
proof -
  have "reg_tables_ok {} s" using run_tasks_spec [OF assms(1) service_init_wf assms(2)] by (simp add: service_wf_def)
  note w = reg_tables_okD [OF this]
  note t = reg_table_okD [OF w(2) [OF assms(3)]]
  have q: "req_q (dev s d) = build_requests (regs s) (reg_a (dev s d))" using w(5) [OF assms(3)] by (simp add: clean_def)
  have "set (reg_a (dev s d)) = {p \<in> dom (regs s). dev_addr (reg_handle (deref (regs s) p)) = d}" using t(3,4) w(3) by auto
  then show ?thesis using t(1,5) build_requests_ok build_requests_concat unfolding q by blast
qed

lemma requests_cover_witness:
  "\<exists>s. run_tasks lowest_free [AddRegisters [demo_handle 100, demo_handle 96, demo_handle 98, demo_handle 100]]
     protocol_service_init = Inr s \<and> concat (map req_data (req_q (dev s 3))) = reg_a (dev s 3)"
proof -
  obtain s where s: "run_tasks lowest_free [AddRegisters [demo_handle 100, demo_handle 96, demo_handle 98, demo_handle 100]]
    protocol_service_init = Inr s" by (rule demo_run)
  then show ?thesis using requests_cover [OF lowest_free_fresh s, of 3] by auto
qed

end
