(* ===== verification/Np_Poll.thy ===== *)
theory Np_Poll
  imports Np_Subscriptions Np_Frame
begin

text \<open>
  Polling (\<open>protocol_service::read_advised\<close>): one call sends the read request at the position of the
  iterators, stores the bytes of the answer in the registers of that request and moves on to the
  next request. The serial line is a parameter: \<open>bridge\<close> is \<open>send_recive\<close> of the bridge of a
  controller, with the frame to send, the buffer for the answer and the expected length; it answers
  the status and the buffer.
\<close>

type_synonym bridge = "u8 \<Rightarrow> frame \<Rightarrow> frame \<Rightarrow> nat \<Rightarrow> int \<times> frame"

record polling =
  tables :: protocol_service
  buf_out :: frame
  buf_in :: frame

section \<open>Reading values from the answer\<close>

text \<open>Bytes in memory as a number, lowest byte first.\<close>

fun le_value :: "u8 list \<Rightarrow> u64" where
  "le_value [] = 0"
| "le_value (b # bs) = ucast b OR push_bit 8 (le_value bs)"

text \<open>\<open>*reinterpret_cast<const uintN_t*>(p)\<close> at the offset \<open>p\<close> of the buffer.\<close>

definition load :: "nat \<Rightarrow> u8 list \<Rightarrow> nat \<Rightarrow> u64" where
  "load n data p = le_value (take n (drop p data))"

text \<open>Writing the member of \<open>w\<close> bits of the union \<open>Value\<close>.\<close>

definition set_low :: "nat \<Rightarrow> u64 \<Rightarrow> u64 \<Rightarrow> u64" where
  "set_low w v old = (old AND NOT (mask w)) OR take_bit w v"

text \<open>The \<open>switch\<close> on the size: the width of the member that is used and its new value.\<close>

definition decode_value :: "nat \<Rightarrow> u8 list \<Rightarrow> nat \<Rightarrow> nat \<times> u64" where
  "decode_value sz data p =
     (if sz = 1 then (8, load 1 data p)
      else if sz = 2 then (16, load 2 data p)
      else if sz = 3 then (32, load 4 data p AND 0xFFFFFF)
      else if sz = 4 then (32, load 4 data p)
      else (64, load 8 data p AND 0xFFFFFFFFFF))"

text \<open>The new state of one register and whether it is reported.\<close>

definition update_register :: "u8 list \<Rightarrow> nat \<Rightarrow> Register \<Rightarrow> bool \<times> Register" where
  "update_register data p r =
     (let (w, v) = decode_value (unat (reg_size (reg_handle r))) data p;
          changed = op_available r \<noteq> REG_AVAILABLE \<or> take_bit w (op_value r) XOR v \<noteq> 0;
          r = r\<lparr>op_value := set_low w v (op_value r)\<rparr>
      in (changed, if changed then r\<lparr>op_available := REG_AVAILABLE\<rparr> else r))"

fun read_answer :: "u8 list \<Rightarrow> nat \<Rightarrow> Register_Ptr list \<Rightarrow> heap \<Rightarrow> Register_Ptr list \<times> heap" where
  "read_answer data p [] h = ([], h)"
| "read_answer data p (q # qs) h =
     (let (changed, r) = update_register data p (deref h q);
          (updated, h') = read_answer data (p + unat (reg_size (reg_handle r))) qs (h(q \<mapsto> r))
      in (if changed then q # updated else updated, h'))"

text \<open>The loop for a controller that did not answer.\<close>

fun mark_silent :: "Register_Ptr list \<Rightarrow> heap \<Rightarrow> Register_Ptr list \<times> heap" where
  "mark_silent [] h = ([], h)"
| "mark_silent (q # qs) h =
     (if op_available (deref h q) \<noteq> REG_DEVICE_NOT_RESPONDED
      then let (updated, h') = mark_silent qs (upd_reg q (\<lambda>r. r\<lparr>op_available := REG_DEVICE_NOT_RESPONDED\<rparr>) h)
        in (q # updated, h')
      else mark_silent qs h)"

section \<open>One poll\<close>

text \<open>The read request: header, byte count, address, CRC.\<close>

definition read_request :: "u8 \<Rightarrow> u8 \<Rightarrow> u16 \<Rightarrow> frame \<Rightarrow> frame_error + frame" where
  "read_request c n a f =
     bindE (set_length 9
         (f\<lparr>f_data := (f_data f)[1 := 0x01, 0 := c, 2 := (if c = 1 then 0x80 OR 0x02 else 0x02),
            5 := lo8 a, 6 := hi8 a, 4 := n, 3 := 9]\<rparr>))
       write_crc16_le"

text \<open>The step of the two iterators \<open>advc_it_\<close> and \<open>req_ix_\<close>.\<close>

definition next_request :: "u8 \<Rightarrow> protocol_service \<Rightarrow> protocol_service" where
  "next_request c s =
     (if req_ix s + 1 < length (req_q (dev s c)) then s\<lparr>req_ix := req_ix s + 1\<rparr>
      else s\<lparr>req_ix := 0,
             advc_it := (case set_next c (valid_controllers s) of
               None \<Rightarrow> set_begin (valid_controllers s) | Some d \<Rightarrow> Some d)\<rparr>)"

definition read_advised :: "bridge \<Rightarrow> polling \<Rightarrow> frame_error + (int \<times> Register_Ptr list \<times> polling)" where
  "read_advised br st =
     (let s = tables st
      in if valid_controllers s = {} then Inr (0, [], st)
         else let c = the (advc_it s); q = req_q (dev s c) ! req_ix s
          in mapE (\<lambda>out.
               let (result, inp) = br c out (buf_in st) (4 + 1 + unat (nBytes q) + 2);
                   rs = take (unat (nRegister q)) (req_data q);
                   (updated, h) = (if result < 0 then mark_silent rs (regs s) else read_answer (f_data inp) 5 rs (regs s))
               in (result, updated, st\<lparr>tables := next_request c (s\<lparr>regs := h\<rparr>), buf_out := out, buf_in := inp\<rparr>))
             (read_request c (nBytes q) (mem_addr (reg_handle (deref (regs s) (hd (req_data q))))) (buf_out st)))"

section \<open>The bytes of a register\<close>

lemma bit_le_value:
  "n < 64 \<Longrightarrow> bit (le_value bs) n \<longleftrightarrow> n div 8 < length bs \<and> bit (bs ! (n div 8)) (n mod 8)"
proof (induction bs arbitrary: n)
  case (Cons b bs)
  show ?case
  proof (cases "n < 8")
    case True
    then show ?thesis by (simp add: bit_simps)
  next
    case False
    then have "n div 8 = Suc ((n - 8) div 8)" "n mod 8 = (n - 8) mod 8" by (simp_all add: le_div_geq le_mod_geq)
    then show ?thesis using Cons False bit_imp_le_length [of b n] by (auto simp: bit_simps)
  qed
qed simp

lemma take_bit_le_value: "take_bit (8 * k) (le_value bs) = le_value (take k bs)"
proof (rule bit_word_eqI)
  fix n assume n: "n < LENGTH(64)"
  have "n < 8 * k \<longleftrightarrow> n div 8 < k" by (simp add: less_mult_imp_div_less div_less_iff_less_mult mult.commute)
  then show "bit (take_bit (8 * k) (le_value bs)) n = bit (le_value (take k bs)) n"
    using n by (auto simp: bit_simps bit_le_value)
qed

lemma take_bit_set_low: "k \<le> w \<Longrightarrow> take_bit k (set_low w v old) = take_bit k v"
  unfolding set_low_def by (rule bit_word_eqI) (auto simp: bit_simps)

lemma set_low_same: "take_bit w old = take_bit w v \<Longrightarrow> set_low w v old = old"
  unfolding set_low_def by (auto intro!: bit_word_eqI simp: bit_simps bit_eq_iff)

lemma and_masks: "(x :: u64) AND 0xFFFFFF = take_bit 24 x" "x AND 0xFFFFFFFFFF = take_bit 40 x"
  by (simp_all add: take_bit_eq_mask mask_eq_exp_minus_1)

lemma decode_value_spec:
  assumes "1 \<le> sz" "sz \<le> 5" "decode_value sz data p = (w, v)"
  shows "8 * sz \<le> w" "take_bit (8 * sz) v = le_value (take sz (drop p data))" "take_bit w v = v"
proof -
  have t: "take_bit (8 * k) (load n data p) = le_value (take (min k n) (drop p data))" for k n
    by (simp only: load_def take_bit_le_value take_take)
  have "sz = 1 \<or> sz = 2 \<or> sz = 3 \<or> sz = 4 \<or> sz = 5" using assms(1,2) by linarith
  then show "8 * sz \<le> w" "take_bit (8 * sz) v = le_value (take sz (drop p data))" "take_bit w v = v"
    using assms(3) t [of 1 1] t [of 2 2] t [of 3 4] t [of 4 4] t [of 5 8]
    by (auto simp: decode_value_def and_masks take_bit_word_eq_self load_def)
qed

section \<open>What an answer does to the registers\<close>

text \<open>The low bytes of a register as a number.\<close>

definition reg_bytes :: "Register \<Rightarrow> u64" where
  "reg_bytes r = take_bit (8 * unat (reg_size (reg_handle r))) (op_value r)"

lemma update_register_spec:
  assumes "0 < unat (reg_size (reg_handle r))" "unat (reg_size (reg_handle r)) \<le> 5" "update_register data p r = (changed, r')"
  shows "reg_handle r' = reg_handle r" "ref_cnt r' = ref_cnt r" "op_available r' = REG_AVAILABLE"
    "reg_bytes r' = le_value (take (unat (reg_size (reg_handle r))) (drop p data))"
    "\<not> changed \<Longrightarrow> r' = r"
proof -
  let ?sz = "unat (reg_size (reg_handle r))"
  obtain w v where d: "decode_value ?sz data p = (w, v)" by (cases "decode_value ?sz data p")
  have sp: "8 * ?sz \<le> w" "take_bit (8 * ?sz) v = le_value (take ?sz (drop p data))" "take_bit w v = v"
    using decode_value_spec [OF _ assms(2) d] assms(1) by simp_all
  have e: "changed \<longleftrightarrow> op_available r \<noteq> REG_AVAILABLE \<or> take_bit w (op_value r) XOR v \<noteq> 0"
    "r' = (if changed then r\<lparr>op_value := set_low w v (op_value r), op_available := REG_AVAILABLE\<rparr>
       else r\<lparr>op_value := set_low w v (op_value r)\<rparr>)"
    using assms(3) d by (auto simp: update_register_def Let_def)
  show "reg_handle r' = reg_handle r" "ref_cnt r' = ref_cnt r" "op_available r' = REG_AVAILABLE"
    using e by auto
  show "reg_bytes r' = le_value (take ?sz (drop p data))"
    using sp by (auto simp: e(2) reg_bytes_def take_bit_set_low)
  show "r' = r" if "\<not> changed"
  proof -
    have "take_bit w (op_value r) XOR v = 0" using that e(1) by simp
    then have "take_bit w (op_value r) XOR v = v XOR v" by simp
    then have "take_bit w (op_value r) = v" by (simp only: xor_cancel)
    then have "set_low w v (op_value r) = op_value r" using sp(3) by (intro set_low_same) simp
    then show ?thesis using e(2) that by simp
  qed
qed

text \<open>Registers that differ at most in what was read from the controller.\<close>

definition same_table :: "heap \<Rightarrow> heap \<Rightarrow> bool" where
  "same_table h h' \<longleftrightarrow> dom h' = dom h \<and>
     (\<forall>p. reg_handle (deref h' p) = reg_handle (deref h p) \<and> ref_cnt (deref h' p) = ref_cnt (deref h p))"

lemma same_table_trans: "same_table h h' \<Longrightarrow> same_table h' h'' \<Longrightarrow> same_table h h''"
  by (simp add: same_table_def)

lemma same_table_upd:
  assumes "q \<in> dom h" "reg_handle r = reg_handle (deref h q)" "ref_cnt r = ref_cnt (deref h q)"
  shows "same_table h (h(q \<mapsto> r))"
  using assms by (auto simp: same_table_def)

lemma read_answer_spec:
  assumes "set qs \<subseteq> dom h" "distinct qs" "\<And>q. q \<in> set qs \<Longrightarrow> 0 < size_of h q \<and> size_of h q \<le> 5"
    and "read_answer data p qs h = (updated, h')"
  shows "same_table h h' \<and> (\<forall>q. q \<notin> set qs \<longrightarrow> deref h' q = deref h q) \<and>
    (\<forall>k < length qs. op_available (deref h' (qs ! k)) = REG_AVAILABLE \<and>
       reg_bytes (deref h' (qs ! k)) = le_value (take (size_of h (qs ! k)) (drop (p + bytes_of h (take k qs)) data))) \<and>
    set updated \<subseteq> set qs \<and> (\<forall>q. q \<notin> set updated \<longrightarrow> deref h' q = deref h q)"
  using assms
proof (induction data p qs h arbitrary: updated h' rule: read_answer.induct)
  case (1 data p h)
  then show ?case by (simp add: same_table_def)
next
  case (2 data p q qs h)
  obtain changed r where u: "update_register data p (deref h q) = (changed, r)" by (cases "update_register data p (deref h q)")
  have q: "q \<in> dom h" "q \<notin> set qs" "0 < size_of h q" "size_of h q \<le> 5" using 2(2-4) by auto
  note us = update_register_spec [OF q(3,4) u]
  let ?h = "h(q \<mapsto> r)"
  obtain upd1 where r: "read_answer data (p + unat (reg_size (reg_handle r))) qs ?h = (upd1, h')"
    "updated = (if changed then q # upd1 else upd1)"
    using 2(5) u by (auto simp: Let_def split: prod.splits)
  have sz: "size_of ?h x = size_of h x" for x using us(1) by simp
  have by': "bytes_of ?h xs = bytes_of h xs" for xs by (simp only: bytes_of_def sz)
  have st: "same_table h ?h" by (rule same_table_upd [OF q(1) us(1,2)])
  have ih: "same_table ?h h' \<and> (\<forall>q. q \<notin> set qs \<longrightarrow> deref h' q = deref ?h q) \<and>
    (\<forall>k < length qs. op_available (deref h' (qs ! k)) = REG_AVAILABLE \<and>
       reg_bytes (deref h' (qs ! k)) = le_value (take (size_of ?h (qs ! k))
         (drop (p + unat (reg_size (reg_handle r)) + bytes_of ?h (take k qs)) data))) \<and>
    set upd1 \<subseteq> set qs \<and> (\<forall>q. q \<notin> set upd1 \<longrightarrow> deref h' q = deref ?h q)"
  proof (rule 2(1) [OF u [symmetric] refl _ _ _ r(1)])
    show "0 < size_of ?h x \<and> size_of ?h x \<le> 5" if "x \<in> set qs" for x using 2(4) [of x] that sz by simp
  qed (use 2(2,3) in auto)
  have hd: "deref h' q = r" using ih q(2) by simp
  have k: "op_available (deref h' ((q # qs) ! k)) = REG_AVAILABLE \<and>
    reg_bytes (deref h' ((q # qs) ! k)) = le_value (take (size_of h ((q # qs) ! k)) (drop (p + bytes_of h (take k (q # qs))) data))"
    if "k < length (q # qs)" for k
  proof (cases k)
    case 0
    then show ?thesis using hd us(3,4) by simp
  next
    case (Suc j)
    then have "j < length qs" using that by simp
    then show ?thesis using ih us(1) Suc by (simp add: sz by' add.assoc)
  qed
  have "deref h' x = deref h x" if "x \<notin> set (q # qs)" for x using ih that by auto
  moreover have "deref h' x = deref h x" if "x \<notin> set updated" for x
    using ih that r(2) us(5) by (cases changed; cases "x = q") auto
  moreover have "set updated \<subseteq> set (q # qs)" using ih r(2) by auto
  ultimately show ?case using same_table_trans [OF st] ih k by blast
qed

lemma mark_silent_spec:
  assumes "set qs \<subseteq> dom h" "mark_silent qs h = (updated, h')"
  shows "same_table h h' \<and> (\<forall>q. q \<notin> set qs \<longrightarrow> deref h' q = deref h q) \<and>
    (\<forall>q \<in> set qs. op_available (deref h' q) = REG_DEVICE_NOT_RESPONDED) \<and>
    (\<forall>q. op_value (deref h' q) = op_value (deref h q))"
  using assms
proof (induction qs h arbitrary: updated h' rule: mark_silent.induct)
  case (1 h)
  then show ?case by (simp add: same_table_def)
next
  case (2 q qs h)
  show ?case
  proof (cases "op_available (deref h q) = REG_DEVICE_NOT_RESPONDED")
    case True
    have m: "mark_silent qs h = (updated, h')" using 2(4) True by simp
    have "\<not> op_available (deref h q) \<noteq> REG_DEVICE_NOT_RESPONDED" "set qs \<subseteq> dom h" using True 2(3) by simp_all
    note ih = 2(2) [OF this m]
    then have "op_available (deref h' q) = REG_DEVICE_NOT_RESPONDED" using True by (cases "q \<in> set qs") simp_all
    then show ?thesis using ih by simp
  next
    case False
    obtain h1 where h1: "h1 = upd_reg q (\<lambda>r. r\<lparr>op_available := REG_DEVICE_NOT_RESPONDED\<rparr>) h" by blast
    have q: "q \<in> dom h" using 2(3) by simp
    have d1: "deref h1 x = (if x = q then (deref h q)\<lparr>op_available := REG_DEVICE_NOT_RESPONDED\<rparr> else deref h x)" for x
      by (simp add: h1 deref_upd_reg)
    obtain upd1 where m: "mark_silent qs h1 = (upd1, h')"
      using 2(4) False h1 by (auto simp: Let_def split: prod.splits)
    have st: "same_table h h1" using same_table_upd [OF q] by (simp add: h1 upd_reg_def)
    have "set qs \<subseteq> dom h1" using 2(3) dom_upd_reg [OF q] h1 by simp
    note ih = 2(1) [OF False, folded h1, OF this m]
    then have "op_available (deref h' q) = REG_DEVICE_NOT_RESPONDED" by (cases "q \<in> set qs") (simp_all add: d1)
    moreover have "op_value (deref h' x) = op_value (deref h x)" for x using ih by (simp add: d1)
    moreover have "deref h' x = deref h x" if "x \<notin> set (q # qs)" for x using ih that by (simp add: d1)
    ultimately show ?thesis using same_table_trans [OF st] ih by simp
  qed
qed

section \<open>The read request\<close>

lemma read_request_spec:
  assumes "frame_wf f"
  shows "\<exists>g. read_request c n a f = Inr g \<and> frame_wf g \<and> is_crc_valid g = Inr True \<and> f_length g = 9 \<and>
    take 7 (f_data g) = [c, 1, if c = 1 then 0x82 else 0x02, 9, n, lo8 a, hi8 a]"
proof -
  let ?d = "(f_data f)[1 := 0x01, 0 := c, 2 := (if c = 1 then 0x80 OR 0x02 else 0x02), 5 := lo8 a, 6 := hi8 a, 4 := n, 3 := 9]"
  let ?f = "f\<lparr>f_data := ?d, f_length := 9\<rparr>"
  have wf: "frame_wf ?f" "is_size_valid ?f" using assms by (simp_all add: frame_wf_def is_size_valid_def)
  obtain g where g: "write_crc16_le ?f = Inr g" "is_crc_valid g = Inr True" "frame_wf g" "f_length g = 9"
    "take 7 (f_data g) = take 7 ?d"
    using write_crc_valid [OF wf] by auto
  have len: "length (f_data f) = 256" using assms by (simp add: frame_wf_def)
  have "take 7 ?d = [c, 1, if c = 1 then 0x82 else 0x02, 9, n, lo8 a, hi8 a]"
  proof (rule nth_equalityI)
    show "take 7 ?d ! i = [c, 1, if c = 1 then 0x82 else 0x02, 9, n, lo8 a, hi8 a] ! i" if "i < length (take 7 ?d)" for i
    proof -
      have "i < 7" using that len by simp
      then have "i = 0 \<or> i = 1 \<or> i = 2 \<or> i = 3 \<or> i = 4 \<or> i = 5 \<or> i = 6" by linarith
      then show ?thesis using len by (elim disjE) (simp_all add: nth_list_update)
    qed
  qed (simp add: len)
  moreover have "read_request c n a f = write_crc16_le ?f" by (simp add: read_request_def set_length_def)
  ultimately show ?thesis using g by auto
qed

section \<open>The order of the polls\<close>

definition schedule :: "protocol_service \<Rightarrow> (u8 \<times> nat) list" where
  "schedule s = concat (map (\<lambda>d. map (Pair d) [0 ..< length (req_q (dev s d))]) (sorted_list_of_set (valid_controllers s)))"

text \<open>The next position in a list of all pairs of a controller and a request number.\<close>

lemma rounds_next:
  assumes "distinct ds" "\<And>d. d \<in> set ds \<Longrightarrow> 0 < n d"
    and "L = concat (map (\<lambda>d. map (Pair d) [0 ..< n d]) ds)" "j < length L" "L ! j = (d, i)"
  shows "i < n d \<and> (\<exists>k < length ds. ds ! k = d \<and>
    (if Suc i < n d then Suc j < length L \<and> L ! Suc j = (d, Suc i)
     else if Suc k < length ds then Suc j < length L \<and> L ! Suc j = (ds ! Suc k, 0)
     else Suc j = length L))"
  using assms
proof (induction ds arbitrary: L j)
  case (Cons x ds)
  let ?L = "concat (map (\<lambda>d. map (Pair d) [0 ..< n d]) ds)"
  have L: "L = map (Pair x) [0 ..< n x] @ ?L" using Cons.prems(3) by simp
  have start: "?L ! 0 = (ds ! 0, 0) \<and> 0 < length ?L" if "ds \<noteq> []"
    using that Cons.prems(2) by (cases ds) (auto simp: nth_append)
  show ?case
  proof (cases "j < n x")
    case True
    then have e: "d = x" "i = j" using Cons.prems(5) by (simp_all add: L nth_append)
    show ?thesis
    proof (cases "Suc j < n x")
      case True
      then have "Suc j < length L" "L ! Suc j = (x, Suc j)" by (simp_all add: L nth_append)
      then show ?thesis using True by (intro conjI exI [of _ 0]) (simp_all add: e)
    next
      case False
      then have j: "Suc j = n x" using \<open>j < n x\<close> by simp
      have "if ds \<noteq> [] then Suc j < length L \<and> L ! Suc j = (ds ! 0, 0) else Suc j = length L"
        using start j by (simp add: L nth_append)
      then show ?thesis using False \<open>j < n x\<close> by (intro conjI exI [of _ 0]) (simp_all add: e split: if_splits)
    qed
  next
    case False
    let ?j = "j - n x"
    have j: "?j < length ?L" "?L ! ?j = (d, i)" using False Cons.prems(4,5) by (auto simp: L nth_append)
    have "i < n d \<and> (\<exists>k < length ds. ds ! k = d \<and>
      (if Suc i < n d then Suc ?j < length ?L \<and> ?L ! Suc ?j = (d, Suc i)
       else if Suc k < length ds then Suc ?j < length ?L \<and> ?L ! Suc ?j = (ds ! Suc k, 0)
       else Suc ?j = length ?L))"
      by (rule Cons.IH [OF _ _ refl j]) (use Cons.prems(1,2) in auto)
    then obtain k where k: "i < n d" "k < length ds" "ds ! k = d"
      "if Suc i < n d then Suc ?j < length ?L \<and> ?L ! Suc ?j = (d, Suc i)
       else if Suc k < length ds then Suc ?j < length ?L \<and> ?L ! Suc ?j = (ds ! Suc k, 0)
       else Suc ?j = length ?L" by blast
    have sh: "L ! Suc j = ?L ! Suc ?j" "Suc j < length L \<longleftrightarrow> Suc ?j < length ?L" "Suc j = length L \<longleftrightarrow> Suc ?j = length ?L"
      using False by (auto simp: L nth_append Suc_diff_le)
    show ?thesis
      by (intro conjI exI [of _ "Suc k"]) (use k in \<open>simp_all add: sh\<close>)
  qed
qed simp

lemma set_begin_sorted: "set_begin V = (case sorted_list_of_set V of [] \<Rightarrow> None | d # ds \<Rightarrow> Some d)"
proof (cases "V = {}")
  case False
  then have "sorted_list_of_set V = Min V # sorted_list_of_set (V - {Min V})"
    by (intro sorted_list_of_set_nonempty) simp_all
  then show ?thesis using False by (simp add: set_begin_def)
qed (simp add: set_begin_def)

lemma set_next_sorted:
  assumes "sorted_list_of_set V = ds" "k < length ds"
  shows "set_next (ds ! k) V = (if Suc k < length ds then Some (ds ! Suc k) else None)"
proof -
  have ds: "sorted_wrt (<) ds" "set ds = V" using assms(1) by (auto simp: strict_sorted_list_of_set)
  have "x \<in> V \<and> ds ! k < x \<longleftrightarrow> x \<in> set (drop (Suc k) ds)" for x
  proof
    assume x: "x \<in> V \<and> ds ! k < x"
    then obtain i where i: "i < length ds" "ds ! i = x" using ds(2) by (metis in_set_conv_nth)
    have "k < i"
      using sorted_wrt_nth_less [OF ds(1), of i k] i x assms(2) by (metis less_asym linorder_neqE_nat less_irrefl)
    then show "x \<in> set (drop (Suc k) ds)"
      using i by (auto simp: in_set_conv_nth intro!: exI [of _ "i - Suc k"])
  next
    assume "x \<in> set (drop (Suc k) ds)"
    then obtain i where "i < length ds - Suc k" "ds ! (Suc k + i) = x" by (auto simp: in_set_conv_nth)
    then show "x \<in> V \<and> ds ! k < x" using sorted_wrt_nth_less [OF ds(1), of k "Suc k + i"] ds(2) nth_mem by force
  qed
  then have e: "{x \<in> V. ds ! k < x} = set (drop (Suc k) ds)" by blast
  have "sorted_list_of_set (set (drop (Suc k) ds)) = drop (Suc k) ds"
    by (intro sorted_list_of_set.idem_if_sorted_distinct) (use ds(1) in \<open>auto simp: strict_sorted_iff sorted_wrt_drop\<close>)
  then have "set_next (ds ! k) V = (case drop (Suc k) ds of [] \<Rightarrow> None | d # ds \<Rightarrow> Some d)"
    unfolding set_next_def e by (simp add: set_begin_sorted)
  then show ?thesis by (auto simp: Cons_nth_drop_Suc [symmetric] split: list.splits)
qed

section \<open>One poll of a consistent service\<close>

text \<open>The register shows the memory \<open>mem\<close> of its controller.\<close>

definition mirrors :: "(u8 \<Rightarrow> nat \<Rightarrow> u8) \<Rightarrow> Register \<Rightarrow> bool" where
  "mirrors mem r \<longleftrightarrow> op_available r = REG_AVAILABLE \<and>
     (let h = reg_handle r; a = unat (mem_addr h)
      in reg_bytes r = le_value (map (mem (dev_addr h)) [a ..< a + unat (reg_size h)]))"

text \<open>The controller \<open>c\<close> answers read requests with the bytes of its memory.\<close>

definition responds :: "(u8 \<Rightarrow> nat \<Rightarrow> u8) \<Rightarrow> u8 \<Rightarrow> bridge \<Rightarrow> bool" where
  "responds mem c br \<longleftrightarrow> (\<forall>out inp n a. is_crc_valid out = Inr True \<and> f_length out = 9 \<and>
       take 7 (f_data out) = [c, 1, if c = 1 then 0x82 else 0x02, 9, n, lo8 a, hi8 a] \<longrightarrow>
     (let (result, ans) = br c out inp (4 + 1 + unat n + 2)
      in 0 \<le> result \<and> take (unat n) (drop 5 (f_data ans)) = map (mem c) [unat a ..< unat a + unat n]))"

lemma respondsD:
  assumes "responds mem c br" "is_crc_valid out = Inr True" "f_length out = 9"
    "take 7 (f_data out) = [c, 1, if c = 1 then 0x82 else 0x02, 9, n, lo8 a, hi8 a]"
    "br c out inp (4 + 1 + unat n + 2) = (result, ans)"
  shows "0 \<le> result" "take (unat n) (drop 5 (f_data ans)) = map (mem c) [unat a ..< unat a + unat n]"
  using assms(1) [unfolded responds_def Let_def, THEN spec, THEN spec, THEN spec, THEN spec, of out n a inp] assms(2-)
  by simp_all

definition poll_pos :: "protocol_service \<Rightarrow> u8 \<times> nat" where
  "poll_pos s = (the (advc_it s), req_ix s)"

abbreviation request_at :: "protocol_service \<Rightarrow> u8 \<times> nat \<Rightarrow> Request" where
  "request_at s x \<equiv> req_q (dev s (fst x)) ! snd x"

lemma bytes_of_take: "k < length qs \<Longrightarrow> bytes_of h (take k qs) + size_of h (qs ! k) \<le> bytes_of h qs"
proof -
  assume k: "k < length qs"
  have "qs = take k qs @ qs ! k # drop (Suc k) qs" using k by (simp add: id_take_nth_drop)
  then have "bytes_of h qs = bytes_of h (take k qs) + (size_of h (qs ! k) + bytes_of h (drop (Suc k) qs))"
    by (metis bytes_of_simps(2,3))
  then show ?thesis by simp
qed

lemma concat_part:
  "q \<in> set qs \<Longrightarrow> set (f q) \<subseteq> set (concat (map f qs)) \<and> (distinct (concat (map f qs)) \<longrightarrow> distinct (f q))"
  by (induction qs) auto

lemma request_facts:
  assumes "service_wf s" "d \<in> valid_controllers s" "i < length (req_q (dev s d))"
  shows "request_ok (regs s) (req_q (dev s d) ! i)" "set (req_data (req_q (dev s d) ! i)) \<subseteq> set (reg_a (dev s d))"
    "distinct (req_data (req_q (dev s d) ! i))"
proof -
  have t: "reg_tables_ok {} s" using assms(1) by (simp add: service_wf_def)
  note w = reg_tables_okD [OF t]
  have d: "unat d < 32" by (rule w(7) [OF assms(2)])
  note td = reg_table_okD [OF w(2) [OF d]]
  have q: "req_q (dev s d) = build_requests (regs s) (reg_a (dev s d))" using w(5) [OF d] by (simp add: clean_def)
  have mem: "req_q (dev s d) ! i \<in> set (build_requests (regs s) (reg_a (dev s d)))" using assms(3) q by (metis nth_mem)
  show "request_ok (regs s) (req_q (dev s d) ! i)" using build_requests_ok [of "reg_a (dev s d)" "regs s"] td(5) mem by blast
  show "set (req_data (req_q (dev s d) ! i)) \<subseteq> set (reg_a (dev s d))" "distinct (req_data (req_q (dev s d) ! i))"
    using concat_part [OF mem, of req_data] sorted_table_distinct [OF td(1)] by (simp_all add: build_requests_concat)
qed

lemma poll_step:
  assumes "service_wf (tables st)" "frame_wf (buf_out st)" "valid_controllers (tables st) \<noteq> {}"
    and "s = tables st" "poll_pos s = (c, i)" "rs = req_data (req_q (dev s c) ! i)"
  shows "\<exists>result updated st'. read_advised br st = Inr (result, updated, st') \<and> frame_wf (buf_out st') \<and>
    (\<exists>h. tables st' = next_request c (s\<lparr>regs := h\<rparr>) \<and> same_table (regs s) h \<and>
      (\<forall>p. p \<notin> set rs \<longrightarrow> deref h p = deref (regs s) p) \<and>
      (\<forall>mem. responds mem c br \<longrightarrow> (\<forall>p \<in> set rs. mirrors mem (deref h p))))"
proof -
  let ?q = "req_q (dev s c) ! i"
  have c: "advc_it s = Some c" "c \<in> valid_controllers s" "i < length (req_q (dev s c))" "req_ix s = i"
    using assms(1,3-5) by (auto simp: service_wf_def poll_ok_def poll_pos_def split: option.splits)
  have wf: "service_wf s" using assms(1,4) by simp
  note r = request_facts [OF wf c(2,3), folded assms(6)]
  have t: "reg_tables_ok {} s" using wf by (simp add: service_wf_def)
  note w = reg_tables_okD [OF t]
  note td = reg_table_okD [OF w(2) [OF w(7) [OF c(2)]]]
  have ok: "rs \<noteq> []" "adjacent (regs s) rs" "unat (nRegister ?q) = length rs" "unat (nBytes ?q) = bytes_of (regs s) rs"
    using r(1) by (simp_all add: request_ok_def assms(6))
  have live: "set rs \<subseteq> dom (regs s)" using r(2) td(3) by blast
  have sz: "0 < size_of (regs s) p \<and> size_of (regs s) p \<le> 5" if "p \<in> set rs" for p using r(2) td(5) that by blast
  let ?a = "mem_addr (reg_handle (deref (regs s) (hd rs)))"
  obtain out where out: "read_request c (nBytes ?q) ?a (buf_out st) = Inr out" "frame_wf out" "is_crc_valid out = Inr True"
    "f_length out = 9" "take 7 (f_data out) = [c, 1, if c = 1 then 0x82 else 0x02, 9, nBytes ?q, lo8 ?a, hi8 ?a]"
    using read_request_spec [OF assms(2), of c "nBytes ?q" ?a] by blast
  obtain result inp where b: "br c out (buf_in st) (4 + 1 + unat (nBytes ?q) + 2) = (result, inp)"
    by (cases "br c out (buf_in st) (4 + 1 + unat (nBytes ?q) + 2)")
  obtain updated h where u: "(if result < 0 then mark_silent rs (regs s) else read_answer (f_data inp) 5 rs (regs s)) = (updated, h)"
    by (cases "if result < 0 then mark_silent rs (regs s) else read_answer (f_data inp) 5 rs (regs s)")
  have e: "read_advised br st = Inr (result, updated, st\<lparr>tables := next_request c (s\<lparr>regs := h\<rparr>), buf_out := out, buf_in := inp\<rparr>)"
    using assms(3) c out(1) b u ok(3)
    by (cases "result < 0") (simp_all add: read_advised_def Let_def assms(4)[symmetric] assms(6)[symmetric])
  have st: "same_table (regs s) h \<and> (\<forall>p. p \<notin> set rs \<longrightarrow> deref h p = deref (regs s) p)"
  proof (cases "result < 0")
    case True
    then show ?thesis using mark_silent_spec [OF live] u by simp
  next
    case False
    then have "read_answer (f_data inp) 5 rs (regs s) = (updated, h)" using u by simp
    from read_answer_spec [OF live r(3) sz this] show ?thesis by blast
  qed
  have "mirrors mem (deref h p)" if resp: "responds mem c br" and p: "p \<in> set rs" for mem p
  proof -
    note ans = respondsD [OF resp out(3-5) b]
    have ra: "read_answer (f_data inp) 5 rs (regs s) = (updated, h)" using u ans(1) by simp
    note spec = read_answer_spec [OF live r(3) sz ra]
    obtain k where k: "k < length rs" "rs ! k = p" using p by (metis in_set_conv_nth)
    let ?b = "bytes_of (regs s) (take k rs)" and ?sz = "size_of (regs s) p"
    have av: "op_available (deref h p) = REG_AVAILABLE" "reg_bytes (deref h p) = le_value (take ?sz (drop (5 + ?b) (f_data inp)))"
      using spec k by blast+
    have bound: "?b + ?sz \<le> unat (nBytes ?q)" using bytes_of_take [OF k(1), of "regs s"] k(2) ok(4) by simp
    have m: "mem_of (regs s) p = unat ?a + ?b"
      using adjacent_mem [of "regs s" "hd rs" "tl rs" k] ok(1,2) k by simp
    have "take ?sz (drop (5 + ?b) (f_data inp)) = take ?sz (drop ?b (take (unat (nBytes ?q)) (drop 5 (f_data inp))))"
      using bound by (simp add: drop_take add.commute min_def)
    also have "\<dots> = map (mem c) [unat ?a + ?b ..< unat ?a + ?b + ?sz]"
      unfolding ans(2) using bound by (simp add: drop_map take_map)
    finally have "reg_bytes (deref h p) = le_value (map (mem c) [mem_of (regs s) p ..< mem_of (regs s) p + ?sz])"
      using av(2) m by simp
    moreover have "reg_handle (deref h p) = reg_handle (deref (regs s) p)" using st by (simp add: same_table_def)
    moreover have "dev_addr (reg_handle (deref (regs s) p)) = c" using r(2) td(4) p by blast
    ultimately show ?thesis using av(1) by (simp add: mirrors_def Let_def)
  qed
  then show ?thesis using e st out(2) by auto
qed

section \<open>A round of polls\<close>

lemma service_wf_poll:
  assumes "service_wf s" "advc_it s = Some c" "same_table (regs s) h"
  shows "service_wf (next_request c (s\<lparr>regs := h\<rparr>))"
proof -
  let ?s = "next_request c (s\<lparr>regs := h\<rparr>)"
  have t: "reg_tables_ok {} s" using assms(1) by (simp add: service_wf_def)
  note w = reg_tables_okD [OF t]
  have "reg_tables_ok {} (s\<lparr>regs := h\<rparr>)"
  proof (rule reg_tables_ok_heap [OF t])
    show "0 < ref_cnt (deref h p)" if "unat d < 32" "d \<notin> {}" "p \<in> set (reg_a (dev s d))" for d p
      using cleanD [OF w(5) [OF that(1,2)] that(3)] assms(3) by (simp add: same_table_def)
  qed (use assms(3) in \<open>simp_all add: same_table_def\<close>)
  then have t': "reg_tables_ok {} ?s"
    by (rule reg_tables_ok_frame) (use w(6) in \<open>auto simp: next_request_def\<close>)
  have c: "c \<in> valid_controllers s" using assms(1,2) by (simp add: service_wf_def poll_ok_def)
  have pos: "0 < length (req_q (dev s d))" if "d \<in> valid_controllers s" for d
    using w(5) [OF w(7) [OF that]] that by (auto simp: clean_def)
  have "poll_ok ?s"
  proof (cases "req_ix s + 1 < length (req_q (dev s c))")
    case True
    then show ?thesis using assms(2) c by (simp add: next_request_def poll_ok_def)
  next
    case False
    have "set_begin (valid_controllers s) \<noteq> None" using c by (auto simp: set_begin_def)
    moreover have "d \<in> valid_controllers s" if "set_begin (valid_controllers s) = Some d \<or> set_next c (valid_controllers s) = Some d" for d
      using that set_begin_in [of "valid_controllers s" d] set_begin_in [of "{x \<in> valid_controllers s. c < x}" d]
      by (auto simp: set_next_def)
    ultimately show ?thesis
      using False pos by (auto simp: next_request_def poll_ok_def split: option.splits)
  qed
  then show ?thesis using t' by (simp add: service_wf_def)
qed

lemma schedule_mem: "(d, i) \<in> set (schedule s) \<longleftrightarrow> d \<in> valid_controllers s \<and> i < length (req_q (dev s d))"
  by (auto simp: schedule_def intro!: bexI [of _ d])

lemma poll_pos_schedule:
  assumes "service_wf s" "valid_controllers s \<noteq> {}"
  shows "poll_pos s \<in> set (schedule s)"
  using assms by (auto simp: service_wf_def poll_ok_def poll_pos_def schedule_mem split: option.splits)

lemma poll_pos_next:
  assumes "service_wf s" "valid_controllers s \<noteq> {}" "j < length (schedule s)" "schedule s ! j = poll_pos s"
  shows "poll_pos (next_request (fst (poll_pos s)) (s\<lparr>regs := h\<rparr>)) = schedule s ! (Suc j mod length (schedule s))"
proof -
  let ?ds = "sorted_list_of_set (valid_controllers s)" and ?n = "\<lambda>d. length (req_q (dev s d))"
  obtain c i where p: "poll_pos s = (c, i)" by (cases "poll_pos s")
  have c: "advc_it s = Some c" "req_ix s = i"
    using assms(1,2) p by (auto simp: service_wf_def poll_ok_def poll_pos_def split: option.splits)
  have pos: "0 < ?n d" if "d \<in> set ?ds" for d
  proof -
    have d: "d \<in> valid_controllers s" using that by simp
    have "reg_tables_ok {} s" using assms(1) by (simp add: service_wf_def)
    note w = reg_tables_okD [OF this]
    show ?thesis using w(5) [OF w(7) [OF d]] d by (auto simp: clean_def)
  qed
  obtain k where k: "i < ?n c" "k < length ?ds" "?ds ! k = c"
    "if Suc i < ?n c then Suc j < length (schedule s) \<and> schedule s ! Suc j = (c, Suc i)
     else if Suc k < length ?ds then Suc j < length (schedule s) \<and> schedule s ! Suc j = (?ds ! Suc k, 0)
     else Suc j = length (schedule s)"
    using rounds_next [of ?ds ?n "schedule s" j c i] pos assms(3,4) p by (auto simp: schedule_def)
  have first: "schedule s ! 0 = (?ds ! 0, 0)"
  proof -
    obtain d ds where ds: "?ds = d # ds" using k(2) by (cases ?ds) auto
    have "0 < ?n d" using pos [of d] ds by simp
    then show ?thesis by (simp add: schedule_def ds nth_append)
  qed
  have start: "set_begin (valid_controllers s) = Some (?ds ! 0)"
    using k(2) by (auto simp: set_begin_sorted split: list.splits)
  have nxt: "set_next c (valid_controllers s) = (if Suc k < length ?ds then Some (?ds ! Suc k) else None)"
    using set_next_sorted [OF refl k(2)] k(3) by simp
  show ?thesis
  proof (cases "Suc i < ?n c")
    case True
    then show ?thesis using k(4) c p by (simp add: next_request_def poll_pos_def)
  next
    case last: False
    show ?thesis
    proof (cases "Suc k < length ?ds")
      case True
      then show ?thesis using k(4) last c p nxt by (simp add: next_request_def poll_pos_def)
    next
      case False
      then have "Suc j = length (schedule s)" using k(4) last by simp
      then show ?thesis using False last c p nxt first start by (simp add: next_request_def poll_pos_def)
    qed
  qed
qed

fun polls :: "bridge \<Rightarrow> nat \<Rightarrow> polling \<Rightarrow> frame_error + polling" where
  "polls br 0 st = Inr st"
| "polls br (Suc n) st = bindE (polls br n st) (\<lambda>st. mapE (\<lambda>(result, updated, st). st) (read_advised br st))"

lemma schedule_frame:
  "dev_reqs s' = dev_reqs s \<Longrightarrow> valid_controllers s' = valid_controllers s \<Longrightarrow> schedule s' = schedule s"
  by (simp add: schedule_def)

lemma polls_spec:
  assumes "service_wf (tables st)" "frame_wf (buf_out st)" "valid_controllers (tables st) \<noteq> {}" "s = tables st"
    and "L = schedule s" "j < length L" "L ! j = poll_pos s" "responds mem c br"
  shows "\<exists>st'. polls br n st = Inr st' \<and> service_wf (tables st') \<and> frame_wf (buf_out st') \<and>
    same_table (regs s) (regs (tables st')) \<and> dev_reqs (tables st') = dev_reqs s \<and>
    valid_controllers (tables st') = valid_controllers s \<and> poll_pos (tables st') = L ! ((j + n) mod length L) \<and>
    (\<forall>m < n. fst (L ! ((j + m) mod length L)) = c \<longrightarrow>
       (\<forall>p \<in> set (req_data (request_at s (L ! ((j + m) mod length L)))). mirrors mem (deref (regs (tables st')) p)))"
proof (induction n)
  case 0
  then show ?case using assms by (simp add: same_table_def)
next
  case (Suc n)
  let ?x = "L ! ((j + n) mod length L)"
  obtain st1 where st1: "polls br n st = Inr st1" "service_wf (tables st1)" "frame_wf (buf_out st1)"
    "same_table (regs s) (regs (tables st1))" "dev_reqs (tables st1) = dev_reqs s"
    "valid_controllers (tables st1) = valid_controllers s" "poll_pos (tables st1) = ?x"
    and old: "\<And>m p. m < n \<Longrightarrow> fst (L ! ((j + m) mod length L)) = c \<Longrightarrow>
       p \<in> set (req_data (request_at s (L ! ((j + m) mod length L)))) \<Longrightarrow> mirrors mem (deref (regs (tables st1)) p)"
    using Suc by blast
  obtain d i where x: "?x = (d, i)" by (cases ?x)
  have ne: "valid_controllers (tables st1) \<noteq> {}" using assms(3,4) st1(6) by simp
  let ?rs = "req_data (request_at s ?x)"
  have rs: "?rs = req_data (req_q (dev (tables st1) d) ! i)" using x st1(5) by simp
  obtain result updated st' h where st': "read_advised br st1 = Inr (result, updated, st')" "frame_wf (buf_out st')"
    "tables st' = next_request d ((tables st1)\<lparr>regs := h\<rparr>)" "same_table (regs (tables st1)) h"
    "\<forall>p. p \<notin> set ?rs \<longrightarrow> deref h p = deref (regs (tables st1)) p"
    "\<forall>mem. responds mem d br \<longrightarrow> (\<forall>p \<in> set ?rs. mirrors mem (deref h p))"
    using poll_step [OF st1(2,3) ne refl _ rs, of br] st1(7) x by auto
  have fr: "regs (tables st') = h" "dev_reqs (tables st') = dev_reqs s" "valid_controllers (tables st') = valid_controllers s"
    using st1(5,6) by (simp_all add: st'(3) next_request_def)
  have adv: "advc_it (tables st1) = Some d"
    using st1(2,7) x ne by (auto simp: service_wf_def poll_ok_def poll_pos_def split: option.splits)
  have "service_wf (tables st')" unfolding st'(3) by (rule service_wf_poll [OF st1(2) adv st'(4)])
  moreover have "poll_pos (tables st') = L ! ((j + Suc n) mod length L)"
  proof -
    have L: "schedule (tables st1) = L" unfolding assms(5) by (rule schedule_frame) (simp_all add: st1(5,6))
    have "(j + n) mod length L < length L" using assms(6) by (intro mod_less_divisor) linarith
    then have "poll_pos (tables st') = L ! (Suc ((j + n) mod length L) mod length L)"
      using poll_pos_next [OF st1(2) ne, of "(j + n) mod length L" h] st1(7) x by (simp add: L st'(3))
    then show ?thesis by (simp add: mod_Suc_eq)
  qed
  moreover have "mirrors mem (deref (regs (tables st')) p)"
    if m: "m < Suc n" "fst (L ! ((j + m) mod length L)) = c" "p \<in> set (req_data (request_at s (L ! ((j + m) mod length L))))" for m p
  proof (cases "p \<in> set ?rs \<and> d = c")
    case True
    then show ?thesis using st'(6) assms(8) fr(1) by blast
  next
    case False
    have "m \<noteq> n" using False m(2,3) x by auto
    then have p: "mirrors mem (deref (regs (tables st1)) p)" using old [of m p] m by simp
    have "p \<notin> set ?rs"
    proof
      assume pr: "p \<in> set ?rs"
      then have dc: "d \<noteq> c" using False by blast
      have wf: "service_wf s" using assms(1,4) by simp
      have t: "reg_tables_ok {} s" using wf by (simp add: service_wf_def)
      note w = reg_tables_okD [OF t]
      have owner: "dev_addr (reg_handle (deref (regs s) p)) = fst y"
        if "y \<in> set L" "p \<in> set (req_data (request_at s y))" for y
      proof -
        have y: "fst y \<in> valid_controllers s" "snd y < length (req_q (dev s (fst y)))"
          using that(1) schedule_mem [of "fst y" "snd y" s] assms(5) by auto
        then have "p \<in> set (reg_a (dev s (fst y)))" using request_facts(2) [OF wf y] that(2) by blast
        then show ?thesis using reg_table_okD(4) [OF w(2) [OF w(7) [OF y(1)]]] by blast
      qed
      have "0 < length L" using assms(6) by linarith
      then have "?x \<in> set L" "L ! ((j + m) mod length L) \<in> set L" by simp_all
      then have "fst ?x = fst (L ! ((j + m) mod length L))" using owner pr m(3) by metis
      then show False using x m(2) dc by simp
    qed
    then show ?thesis using st'(5) p fr(1) by simp
  qed
  moreover have "polls br (Suc n) st = Inr st'" using st1(1) st'(1) by simp
  ultimately show ?case using st'(2,4) fr same_table_trans [OF st1(4)] by blast
qed

lemma poll_round_tables:
  assumes "service_wf (tables st)" "frame_wf (buf_out st)" "responds mem c br"
  shows "\<exists>st'. polls br (length (schedule (tables st))) st = Inr st' \<and> service_wf (tables st') \<and>
    same_table (regs (tables st)) (regs (tables st')) \<and> dev_reqs (tables st') = dev_reqs (tables st) \<and>
    (\<forall>p \<in> dom (regs (tables st')). dev_addr (reg_handle (deref (regs (tables st')) p)) = c \<longrightarrow>
       mirrors mem (deref (regs (tables st')) p))"
proof (cases "valid_controllers (tables st) = {}")
  case True
  have t: "reg_tables_ok {} (tables st)" using assms(1) by (simp add: service_wf_def)
  note w = reg_tables_okD [OF t]
  have "p \<notin> dom (regs (tables st))" for p
  proof
    assume p: "p \<in> dom (regs (tables st))"
    show False using w(5) [OF w(4) [OF p]] w(3) [OF p] True by (auto simp: clean_def)
  qed
  then show ?thesis using True assms(1) by (auto simp: schedule_def same_table_def)
next
  case False
  let ?s = "tables st" and ?L = "schedule (tables st)"
  have t: "reg_tables_ok {} ?s" using assms(1) by (simp add: service_wf_def)
  note w = reg_tables_okD [OF t]
  obtain j where j: "j < length ?L" "?L ! j = poll_pos ?s"
    using poll_pos_schedule [OF assms(1) False] by (metis in_set_conv_nth)
  obtain st' where st': "polls br (length ?L) st = Inr st'" "service_wf (tables st')"
    "same_table (regs ?s) (regs (tables st'))" "dev_reqs (tables st') = dev_reqs ?s"
    and mir: "\<And>m p. m < length ?L \<Longrightarrow> fst (?L ! ((j + m) mod length ?L)) = c \<Longrightarrow>
      p \<in> set (req_data (request_at ?s (?L ! ((j + m) mod length ?L)))) \<Longrightarrow> mirrors mem (deref (regs (tables st')) p)"
    using polls_spec [OF assms(1,2) False refl refl j assms(3), of "length ?L"] by blast
  have "mirrors mem (deref (regs (tables st')) p)"
    if p: "p \<in> dom (regs (tables st'))" "dev_addr (reg_handle (deref (regs (tables st')) p)) = c" for p
  proof -
    have p0: "p \<in> dom (regs ?s)" "dev_addr (reg_handle (deref (regs ?s) p)) = c"
      using p st'(3) by (simp_all add: same_table_def)
    have c: "unat c < 32" "p \<in> set (reg_a (dev ?s c))" using w(3,4) [OF p0(1)] p0(2) by simp_all
    have cl: "clean (regs ?s) (c \<in> valid_controllers ?s) (dev ?s c)" using w(5) [OF c(1)] by simp
    then have ra: "reg_a (dev ?s c) = concat (map req_data (req_q (dev ?s c)))"
      by (simp add: clean_def build_requests_concat)
    have "p \<in> set (concat (map req_data (req_q (dev ?s c))))" using c(2) unfolding ra .
    then obtain q where q: "q \<in> set (req_q (dev ?s c))" "p \<in> set (req_data q)" unfolding set_concat set_map by blast
    then obtain i where i: "i < length (req_q (dev ?s c))" "p \<in> set (req_data (req_q (dev ?s c) ! i))"
      by (metis in_set_conv_nth)
    have "c \<in> valid_controllers ?s" using cl c(2) by (auto simp: clean_def)
    then have "(c, i) \<in> set ?L" using i(1) by (simp add: schedule_mem)
    then obtain k where k: "k < length ?L" "?L ! k = (c, i)" by (metis in_set_conv_nth)
    let ?m = "(k + length ?L - j) mod length ?L"
    have "(j + ?m) mod length ?L = (j + (k + length ?L - j)) mod length ?L" by (rule mod_add_right_eq)
    also have "\<dots> = k" using k(1) j(1) by simp
    finally have "(j + ?m) mod length ?L = k" .
    moreover have "?m < length ?L" using k(1) by (intro mod_less_divisor) linarith
    ultimately show ?thesis using mir [of ?m p] k(2) i(2) by simp
  qed
  then show ?thesis using st' by blast
qed

text \<open>
  C29. One round of polls brings every register of a responding controller up to date: from any
  consistent state, wherever the iterators stand, as many polls as there are requests read every
  request once; afterwards every register of a controller that answers shows exactly the bytes of
  its memory at the register's address, marked available. Other controllers that stay silent or
  answer anything do not delay or disturb it, and no poll fails.
\<close>

theorem poll_round:
  assumes "service_wf (tables st)" "frame_wf (buf_out st)" "responds mem c br"
  shows "\<exists>st'. polls br (length (schedule (tables st))) st = Inr st' \<and> service_wf (tables st') \<and>
    (\<forall>v. refs (tables st') v = refs (tables st) v) \<and>
    (\<forall>p \<in> dom (regs (tables st')). dev_addr (reg_handle (deref (regs (tables st')) p)) = c \<longrightarrow>
       mirrors mem (deref (regs (tables st')) p))"
proof -
  have "refs (tables st') v = refs (tables st) v"
    if "same_table (regs (tables st)) (regs (tables st'))" "dev_reqs (tables st') = dev_reqs (tables st)" for st' v
    using that by (auto simp: refs_def same_table_def split: option.splits)
  then show ?thesis using poll_round_tables [OF assms] by blast
qed

text \<open>A bridge for the example: it parses the request and answers from memory.\<close>

definition demo_bridge :: "(u8 \<Rightarrow> nat \<Rightarrow> u8) \<Rightarrow> bridge" where
  "demo_bridge mem c out inp n =
     (let a = unat (join16 (f_data out ! 5) (f_data out ! 6)); k = unat (f_data out ! 4)
      in (0, inp\<lparr>f_data := [c, 1, f_data out ! 2, 0, f_data out ! 4] @ map (mem c) [a ..< a + k]\<rparr>))"

lemma demo_bridge_responds: "responds mem c (demo_bridge mem)"
proof -
  have "f_data out ! 4 = n" "f_data out ! 5 = lo8 a" "f_data out ! 6 = hi8 a"
    if "take 7 (f_data out) = [c, x, y, 9, n, lo8 a, hi8 a]" for out n a x y
    using arg_cong [OF that, of "\<lambda>xs. xs ! 4"] arg_cong [OF that, of "\<lambda>xs. xs ! 5"] arg_cong [OF that, of "\<lambda>xs. xs ! 6"]
    by simp_all
  note at = this
  show ?thesis
    unfolding responds_def
  proof (intro allI impI, elim conjE)
    fix out :: frame and inp n a
    assume "take 7 (f_data out) = [c, 1, if c = 1 then 0x82 else 0x02, 9, n, lo8 a, hi8 a]"
    from at [OF this] show "let (result, ans) = demo_bridge mem c out inp (4 + 1 + unat n + 2)
      in 0 \<le> result \<and> take (unat n) (drop 5 (f_data ans)) = map (mem c) [unat a ..< unat a + unat n]"
      by (simp add: demo_bridge_def Let_def)
  qed
qed

lemma handle_digits:
  "handle_value h = handle_value h' \<longleftrightarrow> dev_addr h = dev_addr h' \<and> reg_size h = reg_size h' \<and> mem_addr h = mem_addr h'"
proof
  assume "handle_value h = handle_value h'"
  then have e: "unat (dev_addr h) + 256 * (unat (reg_size h) + 256 * unat (mem_addr h)) =
    unat (dev_addr h') + 256 * (unat (reg_size h') + 256 * unat (mem_addr h'))"
    using unat_handle_value [of h] unat_handle_value [of h'] by simp
  have split: "x = y \<and> k = l" if "x + 256 * k = y + 256 * l" "x < 256" "y < 256" for x y k l :: nat
  proof -
    have "(x + 256 * k) mod 256 = x" "(y + 256 * l) mod 256 = y" using that(2,3) by simp_all
    then have "x = y" using that(1) by metis
    then show ?thesis using that(1) by simp
  qed
  note s1 = split [OF e unat_less_256 unat_less_256]
  note s2 = split [OF conjunct2 [OF s1] unat_less_256 unat_less_256]
  show "dev_addr h = dev_addr h' \<and> reg_size h = reg_size h' \<and> mem_addr h = mem_addr h'"
    using s1 s2 by (simp add: word_unat_eq_iff)
qed (simp add: handle_value_def)

lemma poll_round_witness:
  "\<exists>st st' p. polls (demo_bridge (\<lambda>c a. of_nat a)) (length (schedule (tables st))) st = Inr st' \<and>
     p \<in> dom (regs (tables st')) \<and> value_of (regs (tables st')) p = handle_value (demo_handle 100) \<and>
     reg_bytes (deref (regs (tables st')) p) = 0x6564"
proof -
  let ?v = "handle_value (demo_handle 100)" and ?mem = "\<lambda>(c :: u8) a. of_nat a :: u8"
  obtain s where s: "run_tasks lowest_free [AddRegisters [demo_handle 100, demo_handle 96, demo_handle 98, demo_handle 100]]
    protocol_service_init = Inr s" by (rule demo_run)
  note sp = run_tasks_spec [OF lowest_free_fresh service_init_wf s]
  have r0: "refs protocol_service_init = (\<lambda>_. 0)" using refs_init by (simp add: fun_eq_iff)
  have r: "refs s ?v = 2" using sp unfolding r0 by (simp add: word_unat_eq_iff unat_handle_value)
  define st where "st = \<lparr>tables = s, buf_out = frame_init (replicate 256 0), buf_in = frame_init (replicate 256 0)\<rparr>"
  have st: "service_wf (tables st)" "frame_wf (buf_out st)"
    using sp by (simp_all add: st_def frame_wf_def frame_init_def)
  obtain st' where st': "polls (demo_bridge ?mem) (length (schedule (tables st))) st = Inr st'" "service_wf (tables st')"
    "refs (tables st') ?v = refs (tables st) ?v"
    and mir: "\<And>p. p \<in> dom (regs (tables st')) \<Longrightarrow> dev_addr (reg_handle (deref (regs (tables st')) p)) = 3 \<Longrightarrow>
      mirrors ?mem (deref (regs (tables st')) p)"
    using poll_round [OF st demo_bridge_responds [of ?mem 3]] by blast
  have t: "reg_tables_ok {} (tables st')" using st'(2) by (simp add: service_wf_def)
  have "refs (tables st') ?v = 2" using st'(3) r by (simp add: st_def)
  then obtain p where p: "p \<in> dom (regs (tables st'))" "value_of (regs (tables st')) p = ?v"
    using refs_dead [OF t, of ?v] by force
  let ?h = "reg_handle (deref (regs (tables st')) p)"
  have h: "dev_addr ?h = 3" "unat (reg_size ?h) = 2" "unat (mem_addr ?h) = 100"
    using p(2) [unfolded handle_digits] by simp_all
  have "reg_bytes (deref (regs (tables st')) p) = le_value (map (?mem 3) [100 ..< 102])"
    using mir [OF p(1) h(1)] h by (simp add: mirrors_def Let_def)
  also have "\<dots> = 0x6564" by (simp add: upt_rec)
  finally show ?thesis using st'(1) p by blast
qed

end
