(* ===== verification/Npsys_Types.thy ===== *)
theory Npsys_Types
  imports Prelude
begin

text \<open>
  The types of variables (\<open>npsys/fundamental.h\<close> and the static functions of \<open>npsys/variable.inl\<close>): a
  type is an integer whose bits hold the size, the kind and the flags.
\<close>

type_synonym vtype = u32

definition VQUALITY :: vtype where "VQUALITY = 0x00002000"
definition IO_SPACE :: vtype where "IO_SPACE = 0x00004000"
definition MUTABLE :: vtype where "MUTABLE = 0x00008000"
definition SIGNED :: vtype where "SIGNED = 0x00001000"
definition INTERNAL :: vtype where "INTERNAL = 0x00010000"
definition SIZE_8 :: vtype where "SIZE_8 = 0x00000001"
definition SIZE_16 :: vtype where "SIZE_16 = 0x00000002"
definition SIZE_32 :: vtype where "SIZE_32 = 0x00000004"
definition FLOAT_VALUE :: vtype where "FLOAT_VALUE = 0x00000010"
definition BIT_VALUE :: vtype where "BIT_VALUE = 0x00000020"
definition INT_VALUE :: vtype where "INT_VALUE = 0x00000040"
definition BIT_MASK :: vtype where "BIT_MASK = 0x00000F00"
definition SIZE_MASK :: vtype where "SIZE_MASK = 0x0000000F"

definition TYPE_MASK :: vtype where
  "TYPE_MASK = BIT_VALUE OR INT_VALUE OR FLOAT_VALUE OR SIGNED OR SIZE_8 OR SIZE_16 OR SIZE_32"

lemmas nptype_defs = VQUALITY_def IO_SPACE_def MUTABLE_def SIGNED_def INTERNAL_def SIZE_8_def SIZE_16_def
  SIZE_32_def FLOAT_VALUE_def BIT_VALUE_def INT_VALUE_def BIT_MASK_def SIZE_MASK_def TYPE_MASK_def

datatype nptype = NPT_UNDEFINE | NPT_BOOL | NPT_U8 | NPT_I8 | NPT_U16 | NPT_I16 | NPT_U32 | NPT_I32 | NPT_F32

text \<open>The values of the enumeration.\<close>

fun nptype_value :: "nptype \<Rightarrow> vtype" where
  "nptype_value NPT_UNDEFINE = 0"
| "nptype_value NPT_BOOL = SIZE_8 OR BIT_VALUE"
| "nptype_value NPT_U8 = SIZE_8 OR INT_VALUE"
| "nptype_value NPT_I8 = SIGNED OR SIZE_8 OR INT_VALUE"
| "nptype_value NPT_U16 = SIZE_16 OR INT_VALUE"
| "nptype_value NPT_I16 = SIGNED OR SIZE_16 OR INT_VALUE"
| "nptype_value NPT_U32 = SIZE_32 OR INT_VALUE"
| "nptype_value NPT_I32 = SIGNED OR SIZE_32 OR INT_VALUE"
| "nptype_value NPT_F32 = SIGNED OR SIZE_32 OR FLOAT_VALUE"

text \<open>\<open>compare\<close>: which type the other one is converted to; \<open>None\<close> is the failed assertion.\<close>

definition nptype_compare :: "vtype \<Rightarrow> vtype \<Rightarrow> int option" where
  "nptype_compare a b =
     (if a = b then Some 0
      else let sz_a = a AND SIZE_MASK; sz_b = b AND SIZE_MASK
      in if sz_a = sz_b
         then if a AND BIT_VALUE \<noteq> 0 then Some (- 1)
           else if a AND FLOAT_VALUE \<noteq> 0 \<and> b AND INT_VALUE \<noteq> 0 then Some 1
           else if a AND INT_VALUE \<noteq> 0 \<and> b AND FLOAT_VALUE \<noteq> 0 then Some (- 1)
           else if a AND SIGNED \<noteq> 0 \<and> b AND SIGNED = 0 then Some 1
           else if a AND SIGNED = 0 \<and> b AND SIGNED \<noteq> 0 then Some (- 1)
           else None
         else if sz_b < sz_a then Some 1 else Some (- 1))"

section \<open>Questions about a type\<close>

definition IsQuality :: "vtype \<Rightarrow> bool" where "IsQuality t \<longleftrightarrow> t AND VQUALITY \<noteq> 0"
definition IsBit :: "vtype \<Rightarrow> bool" where "IsBit t \<longleftrightarrow> t AND BIT_VALUE \<noteq> 0"
definition IsSigned :: "vtype \<Rightarrow> bool" where "IsSigned t \<longleftrightarrow> t AND SIGNED \<noteq> 0"
definition IsMutableType :: "vtype \<Rightarrow> bool" where "IsMutableType t \<longleftrightarrow> t AND MUTABLE \<noteq> 0"
definition IsInternalType :: "vtype \<Rightarrow> bool" where "IsInternalType t \<longleftrightarrow> t AND INTERNAL \<noteq> 0"
definition IsIO :: "vtype \<Rightarrow> bool" where "IsIO t \<longleftrightarrow> t AND IO_SPACE \<noteq> 0"

definition TypesEqual :: "vtype \<Rightarrow> vtype \<Rightarrow> bool" where
  "TypesEqual a b \<longleftrightarrow> a AND NOT BIT_MASK = b AND NOT BIT_MASK"

definition GetBit :: "vtype \<Rightarrow> nat" where
  "GetBit t = unat (drop_bit 8 (t AND 0xF00))"

definition GetSize :: "vtype \<Rightarrow> nat" where
  "GetSize t = unat (t AND SIZE_MASK)"

definition GetSizeWithQuality :: "vtype \<Rightarrow> nat" where
  "GetSizeWithQuality t = GetSize t + (if IsBit t then 0 else if IsQuality t then 1 else 0)"

definition GetClearType :: "vtype \<Rightarrow> vtype" where
  "GetClearType t = t AND TYPE_MASK"

end
