(* ===== verification/Np_Listener.thy ===== *)
theory Np_Listener
  imports Np_Poll Npsys_Types
begin

text \<open>
  The subscribers (\<open>npserver/src/listener.h\<close>, \<open>listener.cpp\<close>) and how they share the register tables:
  every client has a listener with the registers it advised, by pointer; all of them queue their
  tasks for the one worker thread of \<open>protocol_service\<close>, which also polls. The result is that a
  pointer a listener holds always denotes a live register, although registers are freed by
  reference counts that another thread maintains.
\<close>

section \<open>The listener\<close>

record DataDef =
  dd_dev_addr :: u8
  dd_mem_addr :: u16
  dd_type :: vtype

text \<open>\<open>hmap_\<close> is an association list; the order of an \<open>unordered_map\<close> is not specified.\<close>

type_synonym hmap = "(Register_Ptr \<times> (client_handle \<times> vtype) list) list"

record listener =
  hmap :: hmap
  last_id :: u32

definition listener_init :: listener where
  "listener_init = \<lparr>hmap = [], last_id = 1\<rparr>"

datatype listener_error = CommunicationError int | ProtocolError protocol_error

text \<open>\<open>environment::validate_device\<close>; \<open>bridges\<close> are the controllers that have one.\<close>

definition validate_device :: "u8 set \<Rightarrow> u8 \<Rightarrow> bool" where
  "validate_device bridges d \<longleftrightarrow> \<not> (unat d \<le> 1 \<or> 32 \<le> unat d \<or> d \<notin> bridges)"

text \<open>The handles of the definitions, numbered from \<open>last_id_\<close>.\<close>

fun make_handles :: "DataDef list \<Rightarrow> u32 \<Rightarrow> client_handle list \<times> u32" where
  "make_handles [] k = ([], k)"
| "make_handles (d # ds) k =
     (let h = \<lparr>dev_addr = dd_dev_addr d,
               reg_size = of_nat (GetSize (dd_type d) + (if IsBit (dd_type d) then 0 else of_bool (IsQuality (dd_type d)))),
               mem_addr = dd_mem_addr d, handle_id = k\<rparr>;
          (hs, k') = make_handles ds (k + 1)
      in (h # hs, k'))"

text \<open>\<open>hmap_[ptr].push_back(x)\<close>.\<close>

fun hmap_push :: "Register_Ptr \<Rightarrow> client_handle \<times> vtype \<Rightarrow> hmap \<Rightarrow> hmap" where
  "hmap_push p x [] = [(p, [x])]"
| "hmap_push p x ((q, xs) # m) = (if q = p then (q, xs @ [x]) # m else (q, xs) # hmap_push p x m)"

fun hmap_push_all :: "(Register_Ptr \<times> client_handle \<times> vtype) list \<Rightarrow> hmap \<Rightarrow> hmap" where
  "hmap_push_all [] m = m"
| "hmap_push_all ((p, x) # xs) m = hmap_push_all xs (hmap_push p x m)"

text \<open>
  \<open>advise\<close>: it answers the handles, the registers whose value is already known (they are reported
  at once) and the new states of the listener and of the service.
\<close>

definition advise :: "u8 set \<Rightarrow> allocator \<Rightarrow> DataDef list \<Rightarrow> listener \<Rightarrow> protocol_service \<Rightarrow>
    listener_error + (u64 list \<times> Register_Ptr list \<times> listener \<times> protocol_service)" where
  "advise bridges malloc ds l s =
     (if \<exists>d \<in> set ds. \<not> validate_device bridges (dd_dev_addr d) then Inl (CommunicationError (- 7))
      else let (hs, k) = make_handles ds (last_id l)
      in case add_registers malloc hs s of
           Inl e \<Rightarrow> Inl (ProtocolError e)
         | Inr (n, ps, s') \<Rightarrow>
             Inr (map handle64 hs, filter (\<lambda>p. op_available (deref (regs s') p) \<noteq> REG_UNKNOWN) ps,
               l\<lparr>hmap := hmap_push_all (zip ps (zip hs (map dd_type ds))) (hmap l), last_id := k\<rparr>, s'))"

text \<open>\<open>release_all\<close>: the count of a register is converted to \<open>short\<close>.\<close>

definition release_all :: "listener \<Rightarrow> (client_handle \<times> int) list \<times> listener" where
  "release_all l =
     (map (\<lambda>(p, xs). (server_handle (fst (hd xs)), sint (word_of_nat (length xs) :: u16))) (hmap l), l\<lparr>hmap := []\<rparr>)"

datatype var_status = VST_DEVICE_RESPONDED | VST_DEVICE_NOT_RESPONDED

text \<open>The eight data bytes of a value.\<close>

definition value_bytes :: "u64 \<Rightarrow> u8 list" where
  "value_bytes v = map (\<lambda>k. ucast (drop_bit (8 * k) v)) [0 ..< 8]"

definition server_value :: "Register \<Rightarrow> client_handle \<times> vtype \<Rightarrow> u64 \<times> var_status \<times> u8 list" where
  "server_value r x =
     (case x of (h, t) \<Rightarrow>
        if op_available r = REG_DEVICE_NOT_RESPONDED then (handle64 h, VST_DEVICE_NOT_RESPONDED, replicate 8 0)
        else (handle64 h, VST_DEVICE_RESPONDED,
          if IsBit t
          then let n = GetBit t; b = (if bit (op_value r) n \<and> n < 8 then 0xFF else 0)
            in if IsQuality t then [b, if bit (op_value r) (n + 1) \<and> n + 1 < 8 then 1 else 0] @ replicate 6 0
               else b # replicate 7 0
          else value_bytes (op_value r)))"

text \<open>\<open>process_registers\<close>: what is handed to \<open>OnDataChanged\<close>.\<close>

definition process_registers :: "Register_Ptr list \<Rightarrow> listener \<Rightarrow> heap \<Rightarrow> (u64 \<times> var_status \<times> u8 list) list" where
  "process_registers ps l h =
     concat (map (\<lambda>p. case map_of (hmap l) p of None \<Rightarrow> [] | Some xs \<Rightarrow> map (server_value (deref h p)) xs) ps)"

section \<open>The server\<close>

text \<open>
  \<open>queue\<close> holds the release tasks that the worker has not run yet. \<open>advise\<close> waits for its task, and
  tasks run in the order they were queued, so it is one step that needs an empty queue.
\<close>

record server =
  poll_state :: polling
  clients :: "listener list"
  queue :: "(client_handle \<times> int) list list"

inductive server_step :: "u8 set \<Rightarrow> allocator \<Rightarrow> bridge \<Rightarrow> server \<Rightarrow> server \<Rightarrow> bool"
  for bridges malloc br where
  step_connect: "server_step bridges malloc br s (s\<lparr>clients := clients s @ [listener_init]\<rparr>)"
| step_advise: "k < length (clients s) \<Longrightarrow> queue s = [] \<Longrightarrow>
    advise bridges malloc ds (clients s ! k) (tables (poll_state s)) = Inr (hs, now, l, t) \<Longrightarrow>
    server_step bridges malloc br s
      (s\<lparr>poll_state := (poll_state s)\<lparr>tables := t\<rparr>, clients := (clients s)[k := l]\<rparr>)"
| step_release: "k < length (clients s) \<Longrightarrow> release_all (clients s ! k) = (rs, l) \<Longrightarrow>
    server_step bridges malloc br s (s\<lparr>clients := (clients s)[k := l], queue := queue s @ [rs]\<rparr>)"
| step_task: "queue s = rs # q \<Longrightarrow> release_registers rs (tables (poll_state s)) = Inr (n, t) \<Longrightarrow>
    server_step bridges malloc br s (s\<lparr>poll_state := (poll_state s)\<lparr>tables := t\<rparr>, queue := q\<rparr>)"
| step_poll: "read_advised br (poll_state s) = Inr (result, updated, st) \<Longrightarrow>
    server_step bridges malloc br s (s\<lparr>poll_state := st\<rparr>)"

definition server_init :: "frame \<Rightarrow> frame \<Rightarrow> server" where
  "server_init out inp = \<lparr>poll_state = \<lparr>tables = protocol_service_init, buf_out = out, buf_in = inp\<rparr>, clients = [], queue = []\<rparr>"

section \<open>Subscriptions and reference counts\<close>

text \<open>How many handles of the value \<open>v\<close> a listener holds.\<close>

definition held :: "hmap \<Rightarrow> u32 \<Rightarrow> nat" where
  "held m v = (\<Sum>(p, xs) \<leftarrow> m. count_list (map (handle_value \<circ> fst) xs) v)"

lemma held_simps [simp]:
  "held [] v = 0" "held ((p, xs) # m) v = count_list (map (handle_value \<circ> fst) xs) v + held m v"
  by (simp_all add: held_def)

definition entry_ok :: "heap \<Rightarrow> Register_Ptr \<times> (client_handle \<times> vtype) list \<Rightarrow> bool" where
  "entry_ok h e \<longleftrightarrow> (case e of (p, xs) \<Rightarrow> p \<in> dom h \<and> xs \<noteq> [] \<and> (\<forall>(c, t) \<in> set xs. handle_value c = value_of h p))"

definition listener_ok :: "heap \<Rightarrow> listener \<Rightarrow> bool" where
  "listener_ok h l \<longleftrightarrow> distinct (map fst (hmap l)) \<and> (\<forall>e \<in> set (hmap l). entry_ok h e)"

lemma entry_ok_keeps: "entry_ok h e \<Longrightarrow> keeps h h' \<Longrightarrow> entry_ok h' e"
  by (auto simp: entry_ok_def keeps_def split: prod.splits)

lemma held_push: "held (hmap_push p x m) v = held m v + (if handle_value (fst x) = v then 1 else 0)"
  by (induction p x m rule: hmap_push.induct) auto

lemma push_keys: "set (map fst (hmap_push p x m)) = insert p (set (map fst m))"
  by (induction p x m rule: hmap_push.induct) auto

lemma push_distinct: "distinct (map fst m) \<Longrightarrow> distinct (map fst (hmap_push p x m))"
proof (induction m)
  case (Cons e m)
  then show ?case using push_keys [of p x m] by (cases e) auto
qed simp

lemma push_all_distinct: "distinct (map fst m) \<Longrightarrow> distinct (map fst (hmap_push_all xs m))"
  by (induction xs m rule: hmap_push_all.induct) (auto simp: push_distinct)

lemma entry_ok_push:
  assumes "p \<in> dom h" "handle_value c = value_of h p" "\<forall>e \<in> set m. entry_ok h e"
  shows "\<forall>e \<in> set (hmap_push p (c, t) m). entry_ok h e"
  using assms(3)
proof (induction m)
  case Nil
  then show ?case using assms by (simp add: entry_ok_def)
next
  case (Cons e m)
  obtain q xs where e: "e = (q, xs)" by (cases e)
  show ?case
  proof (cases "q = p")
    case True
    have "entry_ok h (p, xs @ [(c, t)])" using Cons.prems assms e True by (auto simp: entry_ok_def)
    then show ?thesis using Cons.prems e True by simp
  qed (use Cons e in simp)
qed

lemma hmap_push_all_spec:
  assumes "list_all2 (\<lambda>c p. p \<in> dom h \<and> value_of h p = handle_value c) hs ps" "length ts = length hs"
    and "\<forall>e \<in> set m. entry_ok h e"
  shows "(\<forall>e \<in> set (hmap_push_all (zip ps (zip hs ts)) m). entry_ok h e) \<and>
    held (hmap_push_all (zip ps (zip hs ts)) m) v = held m v + count_list (map handle_value hs) v"
  using assms
proof (induction hs ps arbitrary: ts m rule: list_all2_induct)
  case (Cons c hs p ps)
  obtain t ts' where ts: "ts = t # ts'" "length ts' = length hs" using Cons.prems(1) by (cases ts) auto
  have "\<forall>e \<in> set (hmap_push p (c, t) m). entry_ok h e"
    by (rule entry_ok_push) (use Cons.hyps(1) Cons.prems(2) in auto)
  from Cons.IH [OF ts(2) this] show ?case by (simp add: ts(1) held_push)
qed simp

lemma short_int: "n < 32768 \<Longrightarrow> sint (word_of_nat n :: u16) = int n"
  by (simp add: signed_of_nat signed_take_bit_int_eq_self)

lemma release_all_released:
  assumes "\<forall>e \<in> set m. entry_ok h e" "\<forall>(p, xs) \<in> set m. length xs < 32768"
  shows "released (map (\<lambda>(p, xs). (server_handle (fst (hd xs)), sint (word_of_nat (length xs) :: u16))) m) v = int (held m v)"
  using assms
proof (induction m)
  case (Cons e m)
  obtain p xs where e: "e = (p, xs)" by (cases e)
  have xs: "xs \<noteq> []" "\<forall>(c, t) \<in> set xs. handle_value c = value_of h p" "length xs < 32768"
    using Cons.prems e by (auto simp: entry_ok_def)
  have "map (handle_value \<circ> fst) xs = replicate (length xs) (value_of h p)"
    using xs(2) by (intro replicate_eqI) auto
  moreover have "count_list (replicate n w) v = (if w = v then n else 0)" for n and w :: u32 by (induction n) auto
  ultimately have "count_list (map (handle_value \<circ> fst) xs) v = (if value_of h p = v then length xs else 0)" by simp
  moreover have "handle_value (fst (hd xs)) = value_of h p" using xs(1,2) by (cases xs) auto
  ultimately show ?case using Cons short_int [OF xs(3)] by (auto simp: released_def e)
qed (simp add: released_def)

section \<open>The invariant of the server\<close>

definition server_ok :: "server \<Rightarrow> bool" where
  "server_ok s \<longleftrightarrow> service_wf (tables (poll_state s)) \<and> frame_wf (buf_out (poll_state s)) \<and>
     (\<forall>v. refs (tables (poll_state s)) v =
        int (\<Sum>l \<leftarrow> clients s. held (hmap l) v) + (\<Sum>rs \<leftarrow> queue s. released rs v)) \<and>
     (\<forall>l \<in> set (clients s). listener_ok (regs (tables (poll_state s))) l) \<and>
     (\<forall>rs \<in> set (queue s). \<forall>(c, n) \<in> set rs. 0 \<le> n)"

text \<open>No client holds more handles of one register than fit into a \<open>short\<close>.\<close>

definition short_lists :: "server \<Rightarrow> bool" where
  "short_lists s \<longleftrightarrow> (\<forall>l \<in> set (clients s). \<forall>(p, xs) \<in> set (hmap l). length xs < 32768)"

lemma server_okD:
  assumes "server_ok s"
  shows "service_wf (tables (poll_state s))" "frame_wf (buf_out (poll_state s))"
    "\<And>v. refs (tables (poll_state s)) v = int (\<Sum>l \<leftarrow> clients s. held (hmap l) v) + (\<Sum>rs \<leftarrow> queue s. released rs v)"
    "\<And>l. l \<in> set (clients s) \<Longrightarrow> listener_ok (regs (tables (poll_state s))) l"
    "\<And>rs c n. rs \<in> set (queue s) \<Longrightarrow> (c, n) \<in> set rs \<Longrightarrow> 0 \<le> n"
  using assms unfolding server_ok_def by blast+

lemma server_init_ok: "frame_wf out \<Longrightarrow> server_ok (server_init out inp)"
  using service_init_wf refs_init by (simp add: server_ok_def server_init_def)

lemma sum_clients_update:
  assumes "k < length cs"
  shows "int (\<Sum>l \<leftarrow> cs[k := l']. held (hmap l) v) =
    int (\<Sum>l \<leftarrow> cs. held (hmap l) v) + int (held (hmap l') v) - int (held (hmap (cs ! k)) v)"
proof -
  let ?f = "\<lambda>l. held (hmap l) v"
  have "?f (cs ! k) \<le> (\<Sum>l \<leftarrow> cs. ?f l)" using assms by (intro member_le_sum_list) simp_all
  moreover have "(\<Sum>l \<leftarrow> cs[k := l']. ?f l) = (\<Sum>l \<leftarrow> cs. ?f l) + ?f l' - ?f (cs ! k)"
    using assms by (simp add: map_update sum_list_update)
  ultimately show ?thesis by simp
qed

lemma held_pos: "entry_ok h (p, xs) \<Longrightarrow> (p, xs) \<in> set m \<Longrightarrow> 0 < held m (value_of h p)"
proof (induction m)
  case (Cons e m)
  show ?case
  proof (cases "e = (p, xs)")
    case True
    obtain c t ys where "xs = (c, t) # ys" using Cons.prems(1) by (cases xs) (auto simp: entry_ok_def)
    then show ?thesis using Cons.prems(1) True by (auto simp: entry_ok_def)
  next
    case False
    then show ?thesis using Cons by (cases e) auto
  qed
qed simp

lemma sum_held_member: "l \<in> set cs \<Longrightarrow> held (hmap l) v \<le> (\<Sum>l \<leftarrow> cs. held (hmap l) v)"
  by (intro member_le_sum_list) simp_all

lemma advise_ok:
  assumes "server_ok s" "fresh malloc" "k < length (clients s)" "queue s = []"
    and "advise bridges malloc ds (clients s ! k) (tables (poll_state s)) = Inr (hs, now, l, t)"
  shows "server_ok (s\<lparr>poll_state := (poll_state s)\<lparr>tables := t\<rparr>, clients := (clients s)[k := l]\<rparr>)"
proof -
  let ?t = "tables (poll_state s)" and ?l = "clients s ! k"
  note w = server_okD [OF assms(1)]
  obtain cs k' where h: "make_handles ds (last_id ?l) = (cs, k')" by (cases "make_handles ds (last_id ?l)")
  obtain n ps where a: "add_registers malloc cs ?t = Inr (n, ps, t)"
    and l: "hmap l = hmap_push_all (zip ps (zip cs (map dd_type ds))) (hmap ?l)"
    using assms(5) h by (auto simp: advise_def split: if_splits sum.splits)
  have len: "length (map dd_type ds) = length cs"
  proof -
    have "make_handles ds i = (cs, k') \<Longrightarrow> length cs = length ds" for i cs k'
      by (induction ds i arbitrary: cs k' rule: make_handles.induct) (auto simp: Let_def split: prod.splits)
    then show ?thesis using h by simp
  qed
  note ar = add_registers_spec [OF w(1) assms(2) a]
  have ok: "\<forall>e \<in> set (hmap l'). entry_ok (regs t) e" if "l' \<in> set (clients s)" for l'
    using w(4) [OF that] entry_ok_keeps [OF _ ar(2)] by (auto simp: listener_ok_def)
  have kl: "?l \<in> set (clients s)" using assms(3) by simp
  note p = hmap_push_all_spec [OF ar(4) len ok [OF kl], folded l]
  have d: "distinct (map fst (hmap l'))" if "l' \<in> set (clients s)" for l' using w(4) [OF that] by (simp add: listener_ok_def)
  have "distinct (map fst (hmap l))" unfolding l by (rule push_all_distinct) (rule d [OF kl])
  then have "listener_ok (regs t) l'" if "l' \<in> set ((clients s)[k := l])" for l'
    using that set_update_subset_insert [of "clients s" k l] ok p d by (auto simp: listener_ok_def)
  moreover have "refs t v = int (\<Sum>l \<leftarrow> (clients s)[k := l]. held (hmap l) v)" for v
    using ar(3) [of v] w(3) [of v] p assms(4) sum_clients_update [OF assms(3), where l' = l and v = v] by (simp add: added_def)
  ultimately show ?thesis using ar(1) w(2) assms(4) by (simp add: server_ok_def)
qed

lemma release_ok:
  assumes "server_ok s" "short_lists s" "k < length (clients s)" "release_all (clients s ! k) = (rs, l)"
  shows "server_ok (s\<lparr>clients := (clients s)[k := l], queue := queue s @ [rs]\<rparr>)"
proof -
  let ?l = "clients s ! k"
  note w = server_okD [OF assms(1)]
  have kl: "?l \<in> set (clients s)" using assms(3) by simp
  have sh: "\<forall>(p, xs) \<in> set (hmap ?l). length xs < 32768" using assms(2) kl by (simp add: short_lists_def)
  have e: "rs = map (\<lambda>(p, xs). (server_handle (fst (hd xs)), sint (word_of_nat (length xs) :: u16))) (hmap ?l)"
    "hmap l = []"
    using assms(4) by (auto simp: release_all_def)
  have rel: "released rs v = int (held (hmap ?l) v)" for v
    unfolding e(1) by (rule release_all_released [OF _ sh, where h = "regs (tables (poll_state s))"]) (use w(4) [OF kl] in \<open>simp add: listener_ok_def\<close>)
  have nn: "0 \<le> n" if n: "(c, n) \<in> set rs" for c n
  proof -
    obtain p xs where "(p, xs) \<in> set (hmap ?l)" "n = sint (word_of_nat (length xs) :: u16)" using n e(1) by auto
    then show ?thesis using sh short_int by fastforce
  qed
  have "listener_ok (regs (tables (poll_state s))) l'" if "l' \<in> set ((clients s)[k := l])" for l'
    using that set_update_subset_insert [of "clients s" k l] w(4) e(2) by (auto simp: listener_ok_def)
  moreover have "refs (tables (poll_state s)) v =
    int (\<Sum>l \<leftarrow> (clients s)[k := l]. held (hmap l) v) + (\<Sum>rs \<leftarrow> queue s @ [rs]. released rs v)" for v
    using w(3) [of v] rel [of v] sum_clients_update [OF assms(3), where l' = l and v = v] e(2) by simp
  moreover have "\<forall>rs \<in> set (queue s @ [rs]). \<forall>(c, n) \<in> set rs. 0 \<le> n" using w(5) nn by auto
  ultimately show ?thesis using w(1,2) by (simp add: server_ok_def)
qed

lemma task_ok:
  assumes "server_ok s" "queue s = rs # q" "release_registers rs (tables (poll_state s)) = Inr (n, t)"
  shows "server_ok (s\<lparr>poll_state := (poll_state s)\<lparr>tables := t\<rparr>, queue := q\<rparr>)"
proof -
  let ?t = "tables (poll_state s)"
  note w = server_okD [OF assms(1)]
  have nn: "0 \<le> n" if "(c, n) \<in> set rs" for c n using w(5) that assms(2) by auto
  have nq: "0 \<le> (\<Sum>rs \<leftarrow> q. released rs v)" for v
    by (rule sum_list_nonneg) (use w(5) assms(2) in \<open>auto intro!: released_nonneg\<close>)
  note r0 = release_registers_spec [OF w(1) _ assms(3)]
  have r1: "service_wf t" by (rule r0(1)) (rule nn)
  have r2: "refs t v = max 0 (refs ?t v - released rs v)" for v by (rule r0(2)) (rule nn)
  have r3: "p \<in> dom (regs t) \<and> reg_handle (deref (regs t) p) = reg_handle (deref (regs ?t) p)"
    if "p \<in> dom (regs ?t)" "released rs (value_of (regs ?t) p) < refs ?t (value_of (regs ?t) p)" for p
    using that by (rule r0(3) [rotated]) (rule nn)
  have refs: "refs t v = int (\<Sum>l \<leftarrow> clients s. held (hmap l) v) + (\<Sum>rs \<leftarrow> q. released rs v)" for v
    using r2 [of v] w(3) [of v] nq [of v] assms(2) by simp
  have "entry_ok (regs t) (p, xs)" if l: "l \<in> set (clients s)" "(p, xs) \<in> set (hmap l)" for l p xs
  proof -
    let ?v = "value_of (regs ?t) p"
    have e: "entry_ok (regs ?t) (p, xs)" using w(4) [OF l(1)] l(2) by (simp add: listener_ok_def)
    have "0 < held (hmap l) ?v" by (rule held_pos [OF e l(2)])
    then have "0 < (\<Sum>l \<leftarrow> clients s. held (hmap l) ?v)" using sum_held_member [OF l(1), of ?v] by linarith
    then have "released rs ?v < refs ?t ?v" using w(3) [of ?v] nq [of ?v] assms(2) by simp
    then show ?thesis using r3 [of p] e by (auto simp: entry_ok_def)
  qed
  then have "listener_ok (regs t) l" if "l \<in> set (clients s)" for l
    using that w(4) [OF that] by (auto simp: listener_ok_def)
  moreover have "\<forall>rs \<in> set q. \<forall>(c, n) \<in> set rs. 0 \<le> n" using w(5) assms(2) by fastforce
  ultimately show ?thesis using r1 w(2) refs by (simp add: server_ok_def)
qed

lemma poll_keeps_ok:
  assumes "server_ok s" "read_advised br (poll_state s) = Inr (result, updated, st)"
  shows "server_ok (s\<lparr>poll_state := st\<rparr>)"
proof (cases "valid_controllers (tables (poll_state s)) = {}")
  case True
  then have "st = poll_state s" using assms(2) by (simp add: read_advised_def)
  then show ?thesis using assms(1) by simp
next
  case False
  let ?t = "tables (poll_state s)"
  note w = server_okD [OF assms(1)]
  obtain c i where p: "poll_pos ?t = (c, i)" by (cases "poll_pos ?t")
  obtain h where h: "tables st = next_request c (?t\<lparr>regs := h\<rparr>)" "same_table (regs ?t) h" "frame_wf (buf_out st)"
    using poll_step [OF w(1,2) False refl p refl, of br] assms(2) by auto
  have c: "advc_it ?t = Some c"
    using w(1) p False by (auto simp: service_wf_def poll_ok_def poll_pos_def split: option.splits)
  have "regs (tables st) = h" "dev_reqs (tables st) = dev_reqs ?t" by (simp_all add: h(1) next_request_def)
  note fr = this
  have "refs (tables st) v = refs ?t v" for v
    using h(2) fr by (auto simp: refs_def same_table_def split: option.splits)
  moreover have "keeps (regs ?t) (regs (tables st))" using h(2) fr(1) by (simp add: keeps_def same_table_def)
  then have "listener_ok (regs (tables st)) l" if "l \<in> set (clients s)" for l
    using w(4) [OF that] entry_ok_keeps by (auto simp: listener_ok_def)
  moreover have "service_wf (tables st)" unfolding h(1) by (rule service_wf_poll [OF w(1) c h(2)])
  moreover have "\<forall>rs \<in> set (queue s). \<forall>(c, n) \<in> set rs. 0 \<le> n" using w(5) by blast
  ultimately show ?thesis using w(3) h(3) by (simp add: server_ok_def)
qed

lemma server_step_ok:
  assumes "server_step bridges malloc br s s'" "fresh malloc" "server_ok s" "short_lists s"
  shows "server_ok s'"
  using assms(1)
proof cases
  case step_connect
  then show ?thesis using assms(3) by (simp add: server_ok_def listener_ok_def listener_init_def)
next
  case (step_advise k ds hs now l t)
  then show ?thesis using advise_ok [OF assms(3,2)] by blast
next
  case (step_release k rs l)
  then show ?thesis using release_ok [OF assms(3,4)] by blast
next
  case (step_task rs q n t)
  then show ?thesis using task_ok [OF assms(3)] by blast
next
  case (step_poll result updated st)
  then show ?thesis using poll_keeps_ok [OF assms(3)] by blast
qed

inductive server_run :: "u8 set \<Rightarrow> allocator \<Rightarrow> bridge \<Rightarrow> server \<Rightarrow> server \<Rightarrow> bool"
  for bridges malloc br where
  run_refl: "server_run bridges malloc br s s"
| run_step: "server_run bridges malloc br s s' \<Longrightarrow> short_lists s' \<Longrightarrow> server_step bridges malloc br s' s'' \<Longrightarrow>
    server_run bridges malloc br s s''"

lemma server_run_ok:
  "server_run bridges malloc br s s' \<Longrightarrow> fresh malloc \<Longrightarrow> server_ok s \<Longrightarrow> server_ok s'"
  by (induction rule: server_run.induct) (blast intro: server_step_ok)+


abbreviation (input) demo_client_handle :: client_handle where
  "demo_client_handle \<equiv> \<lparr>dev_addr = 3, reg_size = 2, mem_addr = 100, handle_id = 1\<rparr>"

lemma demo_connect:
  obtains l t p where "server_run {3} lowest_free br (server_init out inp)
      \<lparr>poll_state = \<lparr>tables = t, buf_out = out, buf_in = inp\<rparr>, clients = [l], queue = []\<rparr>"
    and "hmap l = [(p, [(demo_client_handle, nptype_value NPT_U16)])]"
proof -
  let ?ds = "[\<lparr>dd_dev_addr = 3, dd_mem_addr = 100, dd_type = nptype_value NPT_U16\<rparr>]"
  let ?h = demo_client_handle
  let ?s1 = "server_init out inp\<lparr>clients := [listener_init]\<rparr>"
  have mk: "make_handles ?ds 1 = ([?h], 2)"
    by (simp add: nptype_defs GetSize_def IsBit_def IsQuality_def)
  have "small 0 protocol_service_init" by (simp add: small_def protocol_service_init_def)
  from add_registers_total [OF this, of "[?h]" lowest_free] obtain n ps t
    where a: "add_registers lowest_free [?h] protocol_service_init = Inr (n, ps, t)" by force
  note ar = add_registers_spec [OF service_init_wf lowest_free_fresh a]
  obtain p where p: "ps = [p]" using ar(4) by (auto simp: list_all2_Cons1)
  let ?l = "\<lparr>hmap = [(p, [(?h, nptype_value NPT_U16)])], last_id = 2\<rparr>"
  have "validate_device {3} 3" by (simp add: validate_device_def)
  then have adv: "advise {3} lowest_free ?ds listener_init protocol_service_init =
    Inr ([handle64 ?h], filter (\<lambda>p. op_available (deref (regs t) p) \<noteq> REG_UNKNOWN) ps, ?l, t)"
    using mk a p by (simp add: advise_def listener_init_def)
  have r1: "server_run {3} lowest_free br (server_init out inp) (server_init out inp)" by (rule run_refl)
  have "short_lists (server_init out inp)" by (simp add: short_lists_def server_init_def)
  from run_step [OF r1 this step_connect]
  have r2: "server_run {3} lowest_free br (server_init out inp) ?s1" by (simp add: server_init_def)
  have "short_lists ?s1" by (simp add: short_lists_def listener_init_def)
  from run_step [OF r2 this step_advise [of 0 ?s1 "{3}" lowest_free ?ds]] adv
  have "server_run {3} lowest_free br (server_init out inp)
      \<lparr>poll_state = \<lparr>tables = t, buf_out = out, buf_in = inp\<rparr>, clients = [?l], queue = []\<rparr>"
    by (simp add: server_init_def)
  then show ?thesis using that by simp
qed


section \<open>What the subscribers see\<close>

lemma value_bytes_le:
  assumes "take_bit (8 * k) v = le_value bs" "length bs = k" "k \<le> 8"
  shows "take k (value_bytes v) = bs"
proof (rule nth_equalityI)
  fix i assume "i < length (take k (value_bytes v))"
  then have i: "i < k" "i < 8" using assms(3) by (simp_all add: value_bytes_def)
  have "ucast (drop_bit (8 * i) v) = bs ! i"
  proof (rule bit_word_eqI)
    fix n assume n: "n < LENGTH(8)"
    have "bit v (8 * i + n) \<longleftrightarrow> bit (take_bit (8 * k) v) (8 * i + n)" using i n by (simp add: bit_simps)
    also have "\<dots> \<longleftrightarrow> bit (bs ! i) n" using i n assms(2) by (simp add: assms(1) bit_le_value)
    finally show "bit (ucast (drop_bit (8 * i) v) :: u8) n = bit (bs ! i) n" using n by (simp add: bit_simps)
  qed
  then show "take k (value_bytes v) ! i = bs ! i" using i by (simp add: value_bytes_def)
qed (use assms in \<open>simp add: value_bytes_def\<close>)

text \<open>
  What a client sees is the memory of the controller: after one round of polls of a consistent
  server, for every handle a listener holds on a responding controller, \<open>process_registers\<close> reports
  the handle as responding with the bytes of the controller's memory at the handle's address as its
  data, and for a one-byte bit variable with \<open>0xFF\<close> exactly when the bit of that memory byte is set.
\<close>

theorem client_sees_memory:
  assumes "server_ok s" "responds mem c br" "l \<in> set (clients s)" "(p, xs) \<in> set (hmap l)"
    and "(h, t) \<in> set xs" "dev_addr h = c"
    and "polls br (length (schedule (tables (poll_state s)))) (poll_state s) = Inr st"
  shows "\<exists>data. (handle64 h, VST_DEVICE_RESPONDED, data) \<in> set (process_registers [p] l (regs (tables st))) \<and>
    (\<not> IsBit t \<longrightarrow> take (unat (reg_size h)) data =
       map (mem c) [unat (mem_addr h) ..< unat (mem_addr h) + unat (reg_size h)]) \<and>
    (IsBit t \<and> reg_size h = 1 \<and> GetBit t < 8 \<longrightarrow>
       hd data = (if bit (mem c (unat (mem_addr h))) (GetBit t) then 0xFF else 0))"
proof -
  note w = server_okD [OF assms(1)]
  have lo: "listener_ok (regs (tables (poll_state s))) l" by (rule w(4) [OF assms(3)])
  then have e: "entry_ok (regs (tables (poll_state s))) (p, xs)" using assms(4) by (simp add: listener_ok_def)
  let ?old = "deref (regs (tables (poll_state s))) p" and ?r = "deref (regs (tables st)) p"
  have st: "same_table (regs (tables (poll_state s))) (regs (tables st))"
    and mir: "\<And>p. p \<in> dom (regs (tables st)) \<Longrightarrow> dev_addr (reg_handle (deref (regs (tables st)) p)) = c \<Longrightarrow>
      mirrors mem (deref (regs (tables st)) p)"
    using poll_round_tables [OF w(1,2) assms(2)] assms(7) by auto
  have p: "p \<in> dom (regs (tables st))" "reg_handle ?r = reg_handle ?old" "handle_value h = handle_value (reg_handle ?r)"
    using e st assms(5) by (auto simp: entry_ok_def same_table_def)
  have eq: "dev_addr (reg_handle ?r) = c" "reg_size (reg_handle ?r) = reg_size h" "mem_addr (reg_handle ?r) = mem_addr h"
    using p(3) assms(6) unfolding handle_digits by simp_all
  have "0 < unat (reg_size h) \<and> unat (reg_size h) \<le> 5"
  proof -
    have "reg_tables_ok {} (tables (poll_state s))" using w(1) by (simp add: service_wf_def)
    note t = reg_tables_okD [OF this]
    have "p \<in> dom (regs (tables (poll_state s)))" using e by (simp add: entry_ok_def)
    then show ?thesis using reg_table_okD(5) [OF t(2) [OF t(4)] t(3)] eq(2) p(2) by metis
  qed
  note sz = this
  have m: "op_available ?r = REG_AVAILABLE"
    "reg_bytes ?r = le_value (map (mem c) [unat (mem_addr h) ..< unat (mem_addr h) + unat (reg_size h)])"
    using mir [OF p(1) eq(1)] eq by (simp_all add: mirrors_def Let_def)
  have v: "take_bit (8 * unat (reg_size h)) (op_value ?r) =
    le_value (map (mem c) [unat (mem_addr h) ..< unat (mem_addr h) + unat (reg_size h)])"
    using m(2) eq(2) by (simp add: reg_bytes_def)
  have "map_of (hmap l) p = Some xs" using lo assms(4) by (simp add: listener_ok_def map_of_is_SomeI)
  then have "server_value ?r (h, t) \<in> set (process_registers [p] l (regs (tables st)))"
    using assms(5) by (simp add: process_registers_def)
  moreover obtain data where d: "server_value ?r (h, t) = (handle64 h, VST_DEVICE_RESPONDED, data)"
    using m(1) by (simp add: server_value_def)
  moreover have "take (unat (reg_size h)) data = map (mem c) [unat (mem_addr h) ..< unat (mem_addr h) + unat (reg_size h)]"
    if "\<not> IsBit t"
  proof -
    have "data = value_bytes (op_value ?r)" using d m(1) that by (simp add: server_value_def)
    then show ?thesis using value_bytes_le [OF v] sz by simp
  qed
  moreover have "hd data = (if bit (mem c (unat (mem_addr h))) (GetBit t) then 0xFF else 0)"
    if "IsBit t" "reg_size h = 1" "GetBit t < 8"
  proof -
    have "bit (op_value ?r) (GetBit t) \<longleftrightarrow> bit (take_bit 8 (op_value ?r)) (GetBit t)" using that(3) by (simp add: bit_simps)
    also have "\<dots> \<longleftrightarrow> bit (mem c (unat (mem_addr h))) (GetBit t)" using v that(2,3) by (simp add: bit_simps)
    finally show ?thesis using d m(1) that by (auto simp: server_value_def Let_def)
  qed
  ultimately show ?thesis by auto
qed

lemma client_sees_memory_witness:
  "\<exists>(s :: server) st l p data. polls (demo_bridge (\<lambda>c a. of_nat a)) (length (schedule (tables (poll_state s)))) (poll_state s) = Inr st \<and>
     (handle64 demo_client_handle, VST_DEVICE_RESPONDED, data) \<in> set (process_registers [p] l (regs (tables st))) \<and>
     take 2 data = [100, 101]"
proof -
  let ?out = "frame_init (replicate 256 0)" and ?mem = "\<lambda>(c :: u8) a. of_nat a :: u8"
  obtain l t p where r: "server_run {3} lowest_free (demo_bridge ?mem) (server_init ?out ?out)
      \<lparr>poll_state = \<lparr>tables = t, buf_out = ?out, buf_in = ?out\<rparr>, clients = [l], queue = []\<rparr>"
      and l: "hmap l = [(p, [(demo_client_handle, nptype_value NPT_U16)])]"
    by (rule demo_connect)
  let ?s = "\<lparr>poll_state = \<lparr>tables = t, buf_out = ?out, buf_in = ?out\<rparr>, clients = [l], queue = []\<rparr>"
  have fw: "frame_wf ?out" by (simp add: frame_wf_def frame_init_def)
  have ok: "server_ok ?s" by (rule server_run_ok [OF r lowest_free_fresh server_init_ok [OF fw]])
  note w = server_okD [OF ok]
  obtain st where st: "polls (demo_bridge ?mem) (length (schedule (tables (poll_state ?s)))) (poll_state ?s) = Inr st"
    using poll_round_tables [OF w(1,2) demo_bridge_responds [of ?mem 3]] by blast
  have "\<not> IsBit (nptype_value NPT_U16)" by (simp add: IsBit_def nptype_defs)
  then obtain data where d: "(handle64 demo_client_handle, VST_DEVICE_RESPONDED, data) \<in> set (process_registers [p] l (regs (tables st)))"
    "take 2 data = map (?mem 3) [100 ..< 102]"
    using client_sees_memory [OF ok demo_bridge_responds [of ?mem 3] _ _ _ _ st, of l p _ demo_client_handle "nptype_value NPT_U16"] l
    by auto
  have "take 2 data = [100, 101]" unfolding d(2) by (simp add: upt_rec)
  with st d(1) show ?thesis
    by (intro exI [of _ ?s] exI [of _ st] exI [of _ l] exI [of _ p] exI [of _ data] conjI)
qed

end
