(* ===== verification/Np_Tasks.thy ===== *)
theory Np_Tasks
  imports Np_Frame
begin

text \<open>
  The one-time tasks of the server (\<open>npserver/src/protocol_task.h\<close>, \<open>protocol_write.h\<close>,
  \<open>protocol_read.h\<close>): each builds one frame for a controller, sends it, and judges the answer. The
  byte offsets are those of the packed structures of \<open>avr_firmware/net.h\<close>: the header \<open>sl_addr\<close>,
  \<open>m_addr\<close>, \<open>fun_num\<close>, \<open>len\<close> at 0 to 3 and the request from 4 on. \<open>send\<close> is \<open>send_recive\<close> of the
  bridge: the frame and the expected length, answered by a status and a frame.
\<close>

section \<open>Building frames\<close>

definition poke_bytes :: "nat \<Rightarrow> u8 list \<Rightarrow> frame \<Rightarrow> frame" where
  "poke_bytes i bs f = f\<lparr>f_data := fold (\<lambda>(k, b) d. d[i + k := b]) (zip [0 ..< length bs] bs) (f_data f)\<rparr>"

definition finish_frame :: "nat \<Rightarrow> frame \<Rightarrow> frame_error + frame" where
  "finish_frame len f = bindE (set_length len f) write_crc16_le"

definition frame_header :: "u8 \<Rightarrow> u8 \<Rightarrow> u8 \<Rightarrow> nat \<Rightarrow> frame \<Rightarrow> frame" where
  "frame_header sl m fn len = poke_bytes 0 [sl, m, fn, word_of_nat len]"

abbreviation (input) not_transit :: "u8 \<Rightarrow> u8 \<Rightarrow> u8" where
  "not_transit d fn \<equiv> (if d = 1 then 0x80 OR fn else fn)"

definition t_write_1 :: "u8 \<Rightarrow> u16 \<Rightarrow> nat \<Rightarrow> u8 \<Rightarrow> frame \<Rightarrow> frame_error + frame" where
  "t_write_1 d a n v f =
     finish_frame 10 (poke_bytes 4 [lo8 a, hi8 a, push_bit n 1, push_bit n v]
       (frame_header d 0x00 (not_transit d 0x09) 10 f))"

definition t_write_1_q :: "u8 \<Rightarrow> u16 \<Rightarrow> nat \<Rightarrow> u8 \<Rightarrow> u8 \<Rightarrow> frame \<Rightarrow> frame_error + frame" where
  "t_write_1_q d a n v q f =
     finish_frame 12 (poke_bytes 4 [1, lo8 a, hi8 a, NOT (push_bit n 3),
         if v \<noteq> 0 then push_bit n 1 else 0, if q \<noteq> 0 then push_bit n 2 else 0]
       (frame_header d 0x01 0x01 12 f))"

text \<open>The common shape of \<open>t_write_8\<close>, \<open>t_write_16\<close> and \<open>t_write_32\<close>: the bytes of the value and the
  quality byte, which is sent only if it is asked for.\<close>

definition write_value :: "u8 \<Rightarrow> u16 \<Rightarrow> u8 list \<Rightarrow> bool \<Rightarrow> u8 \<Rightarrow> frame \<Rightarrow> frame_error + frame" where
  "write_value d a bs withq q f =
     (let n = length bs + of_bool withq
      in finish_frame (4 + 3 + n + 2) (poke_bytes 4 ([word_of_nat n, lo8 a, hi8 a] @ bs @ [q])
           (frame_header d 0x01 0x00 (4 + 3 + n + 2) f)))"

definition t_write_8 :: "u8 \<Rightarrow> u16 \<Rightarrow> u8 \<Rightarrow> bool \<Rightarrow> u8 \<Rightarrow> frame \<Rightarrow> frame_error + frame" where
  "t_write_8 d a v = write_value d a [v]"

definition t_write_16 :: "u8 \<Rightarrow> u16 \<Rightarrow> u16 \<Rightarrow> bool \<Rightarrow> u8 \<Rightarrow> frame \<Rightarrow> frame_error + frame" where
  "t_write_16 d a v = write_value d a [lo8 v, hi8 v]"

definition t_write_32 :: "u8 \<Rightarrow> u16 \<Rightarrow> u32 \<Rightarrow> bool \<Rightarrow> u8 \<Rightarrow> frame \<Rightarrow> frame_error + frame" where
  "t_write_32 d a v =
     write_value d a [ucast v, ucast (drop_bit 8 v), ucast (drop_bit 16 v), ucast (drop_bit 24 v)]"

text \<open>\<open>length\<close> is a \<open>uint8_t\<close>; the length byte of the header is \<open>len\<close> modulo 256.\<close>

definition t_write_block :: "u8 \<Rightarrow> u16 \<Rightarrow> u8 list \<Rightarrow> frame \<Rightarrow> frame_error + frame" where
  "t_write_block d a bs f =
     (let n = length bs; len = 4 + 3 + n + 2
      in finish_frame len (poke_bytes 4 ([word_of_nat n, lo8 a, hi8 a] @ bs)
           (frame_header d 0x00 (not_transit d 0x00) len f)))"

definition t_read :: "u8 \<Rightarrow> u16 \<Rightarrow> u8 \<Rightarrow> frame \<Rightarrow> frame_error + frame" where
  "t_read d a n f =
     finish_frame 9 (poke_bytes 4 [n, lo8 a, hi8 a] (frame_header d 0x00 (not_transit d 0x02) 9 f))"

section \<open>Sending\<close>

type_synonym send = "frame \<Rightarrow> nat \<Rightarrow> int \<times> frame"

definition t_same_answer :: "send \<Rightarrow> frame \<Rightarrow> int" where
  "t_same_answer send f =
     (let (result, answer) = send f (f_length f)
      in if result < 0 then result else if 0 \<le> result \<and> frame_eq f answer then 0 else - 16)"

definition t_no_answer :: "send \<Rightarrow> frame \<Rightarrow> int" where
  "t_no_answer send f = fst (send f 4)"

definition t_send_raw :: "u8 list \<Rightarrow> frame \<Rightarrow> frame_error + frame" where
  "t_send_raw bs f = set_length (length bs) (poke_bytes 0 bs f)"

definition t_read_memory :: "send \<Rightarrow> nat \<Rightarrow> frame \<Rightarrow> int \<times> u8 list option" where
  "t_read_memory send n f =
     (let (result, answer) = send f (4 + 1 + n + 2)
      in (result, if 0 \<le> result then Some (take n (drop 5 (f_data answer))) else None))"

section \<open>The bytes of a frame\<close>

lemma poke_fold:
  "fold (\<lambda>(k, b) d. d[i + k := b]) (zip [j ..< j + length bs] bs) d =
    take (i + j) d @ take (length d - (i + j)) bs @ drop (i + j + length bs) d"
proof (induction bs arbitrary: j d)
  case (Cons b bs)
  have "[j ..< j + length (b # bs)] = j # [Suc j ..< Suc j + length bs]" by (simp add: upt_rec)
  then have "fold (\<lambda>(k, b) d. d[i + k := b]) (zip [j ..< j + length (b # bs)] (b # bs)) d =
    fold (\<lambda>(k, b) d. d[i + k := b]) (zip [Suc j ..< Suc j + length bs] bs) (d[i + j := b])" by simp
  also have "\<dots> = take (i + Suc j) (d[i + j := b]) @ take (length d - (i + Suc j)) bs @ drop (i + Suc j + length bs) d"
    unfolding Cons.IH by simp
  also have "\<dots> = take (i + j) d @ take (length d - (i + j)) (b # bs) @ drop (i + j + length (b # bs)) d"
  proof (cases "i + j < length d")
    case True
    then have "take (i + Suc j) (d[i + j := b]) = take (i + j) d @ [b]" by (simp add: take_Suc_conv_app_nth)
    moreover have "length d - (i + j) = Suc (length d - (i + Suc j))" using True by simp
    ultimately show ?thesis by simp
  qed (simp add: list_update_beyond)
  finally show ?case .
qed simp

lemma poke_bytes_data:
  "i + length bs \<le> length (f_data f) \<Longrightarrow>
    f_data (poke_bytes i bs f) = take i (f_data f) @ bs @ drop (i + length bs) (f_data f)"
  using poke_fold [of i 0 bs "f_data f"] by (simp add: poke_bytes_def)

lemma poke_bytes_length [simp]: "length (f_data (poke_bytes i bs f)) = length (f_data f)" "f_length (poke_bytes i bs f) = f_length f"
proof -
  have "length (fold (\<lambda>(k, b) d. d[i + k := b]) xs d) = length d" for xs and d :: "u8 list"
    by (induction xs arbitrary: d) auto
  then show "length (f_data (poke_bytes i bs f)) = length (f_data f)" by (simp add: poke_bytes_def)
qed (simp add: poke_bytes_def)

text \<open>A finished frame is valid and keeps the bytes before its CRC.\<close>

lemma finish_frame_spec:
  assumes "frame_wf f" "4 \<le> len" "len \<le> 256"
  obtains g where "finish_frame len f = Inr g" "is_crc_valid g = Inr True" "frame_wf g" "f_length g = len"
    "take (len - 2) (f_data g) = take (len - 2) (f_data f)"
proof -
  let ?f = "f\<lparr>f_length := len\<rparr>"
  have "frame_wf ?f" "is_size_valid ?f" using assms by (simp_all add: frame_wf_def is_size_valid_def)
  from write_crc_valid [OF this] show ?thesis
    using assms(3) that by (auto simp: finish_frame_def set_length_def)
qed

lemma request_frame:
  assumes "frame_wf f" "len - 6 \<le> length bs" "length bs \<le> 252" "6 \<le> len" "len \<le> 256"
  obtains g where "finish_frame len (poke_bytes 4 bs (frame_header d m fn len f)) = Inr g" "is_crc_valid g = Inr True"
    "f_length g = len" "take (len - 2) (f_data g) = [d, m, fn, word_of_nat len] @ take (len - 6) bs"
proof -
  let ?h = "frame_header d m fn len f"
  have l: "length (f_data f) = 256" using assms(1) by (simp add: frame_wf_def)
  have h: "take 4 (f_data ?h) = [d, m, fn, word_of_nat len]" "length (f_data ?h) = 256"
    using l by (simp_all add: frame_header_def poke_bytes_data)
  have b: "f_data (poke_bytes 4 bs ?h) = [d, m, fn, word_of_nat len] @ bs @ drop (4 + length bs) (f_data ?h)"
    using assms(3) h by (simp add: poke_bytes_data)
  have wf: "frame_wf (poke_bytes 4 bs ?h)" using assms(1) by (simp add: frame_wf_def frame_header_def)
  have "4 \<le> len" using assms(4) by linarith
  obtain g where g: "finish_frame len (poke_bytes 4 bs ?h) = Inr g"
    "is_crc_valid g = Inr True" "frame_wf g" "f_length g = len"
    "take (len - 2) (f_data g) = take (len - 2) (f_data (poke_bytes 4 bs ?h))"
    by (rule finish_frame_spec [OF wf \<open>4 \<le> len\<close> assms(5)])
  have "take (len - 2) (f_data (poke_bytes 4 bs ?h)) = [d, m, fn, word_of_nat len] @ take (len - 6) bs"
  proof -
    have e: "len - 2 = length [d, m, fn, word_of_nat len] + (len - 6)" using assms(4) by simp
    show ?thesis unfolding b e take_append using assms(2) by (simp del: append_Cons append_Nil)
  qed
  then show ?thesis using that g by simp
qed

text \<open>
  Writing values: every write task for a value of one, two or four bytes produces a frame with a
  valid CRC whose header carries the length of the frame, the byte count of value and quality, the
  address and the value, lowest byte first, and the quality byte if and only if it was asked for.
\<close>

theorem write_value_frame:
  assumes "frame_wf f"
  shows "\<exists>g8 g16 g32. t_write_8 d a v8 withq q f = Inr g8 \<and> t_write_16 d a v16 withq q f = Inr g16 \<and>
    t_write_32 d a v32 withq q f = Inr g32 \<and>
    is_crc_valid g8 = Inr True \<and> is_crc_valid g16 = Inr True \<and> is_crc_valid g32 = Inr True \<and>
    take (f_length g8 - 2) (f_data g8) = (if withq then [d, 1, 0, 11, 2, lo8 a, hi8 a, v8, q] else [d, 1, 0, 10, 1, lo8 a, hi8 a, v8]) \<and>
    take (f_length g16 - 2) (f_data g16) =
      (if withq then [d, 1, 0, 12, 3, lo8 a, hi8 a, lo8 v16, hi8 v16, q] else [d, 1, 0, 11, 2, lo8 a, hi8 a, lo8 v16, hi8 v16]) \<and>
    take (f_length g32 - 2) (f_data g32) =
      [d, 1, 0, if withq then 14 else 13, if withq then 5 else 4, lo8 a, hi8 a, ucast v32, ucast (drop_bit 8 v32),
        ucast (drop_bit 16 v32), ucast (drop_bit 24 v32)] @ (if withq then [q] else [])"
proof -
  have w: "\<exists>g. write_value d a bs withq q f = Inr g \<and> is_crc_valid g = Inr True \<and>
    take (f_length g - 2) (f_data g) = [d, 1, 0, word_of_nat (9 + length bs + of_bool withq),
      word_of_nat (length bs + of_bool withq), lo8 a, hi8 a] @ bs @ (if withq then [q] else [])"
    if "length bs \<le> 200" for bs
  proof -
    let ?n = "length bs + of_bool withq"
    let ?len = "4 + 3 + ?n + 2"
    let ?bs = "[word_of_nat ?n, lo8 a, hi8 a] @ bs @ [q]"
    have c: "?len - 6 \<le> length ?bs" "length ?bs \<le> 252" "6 \<le> ?len" "?len \<le> 256" using that by (cases withq; simp)+
    obtain g where "finish_frame ?len (poke_bytes 4 ?bs (frame_header d 0x01 0x00 ?len f)) = Inr g" "is_crc_valid g = Inr True"
      "f_length g = ?len" "take (?len - 2) (f_data g) = [d, 1, 0, word_of_nat ?len] @ take (?len - 6) ?bs"
      by (rule request_frame [OF assms c])
    moreover have "take (3 + length bs) (x # y # z # bs @ qs) = x # y # z # bs" for x y z and qs :: "u8 list"
      by (simp add: numeral_3_eq_3)
    ultimately show ?thesis by (cases withq) (simp_all add: write_value_def Let_def)
  qed
  show ?thesis
    using w [of "[v8]"] w [of "[lo8 v16, hi8 v16]"]
      w [of "[ucast v32, ucast (drop_bit 8 v32), ucast (drop_bit 16 v32), ucast (drop_bit 24 v32)]"]
    unfolding t_write_8_def t_write_16_def t_write_32_def by (cases withq) auto
qed

lemma write_value_frame_witness:
  "\<exists>g. t_write_16 5 0x0162 0xABCD True 1 (frame_init (replicate 256 0)) = Inr g \<and>
     take (f_length g - 2) (f_data g) = [5, 1, 0, 12, 3, 0x62, 0x01, 0xCD, 0xAB, 1]"
  using write_value_frame [of "frame_init (replicate 256 0)" 5 "0x0162" 0 True 1 "0xABCD" 0]
  by (auto simp: frame_wf_def frame_init_def lo8_def hi8_def)



end
