(* ===== verification/Db_Disk.thy ===== *)
theory Db_Disk
  imports Prelude
begin

text \<open>
  The file of the database in pages of 4096 bytes: class \<open>DiskManager\<close> of
  \<open>npdatabase/src/disk_manager.cpp\<close>, and the contract \<open>page_store\<close> that it shares with the buffer
  pool. The file is a list of bytes. The stream has the two states of a C++ \<open>fstream\<close> that the code
  can reach: it is open or not, and its fail bit is set, for good, once a read has come short.
\<close>

section \<open>Pages\<close>

datatype db_error = RuntimeError | InvalidArgument | AssertionFailure | OutOfBounds

definition PAGE_SIZE :: nat where
  "PAGE_SIZE = 4096"

lemma PAGE_SIZE_pos [simp]: "0 < PAGE_SIZE"
  by (simp add: PAGE_SIZE_def)

definition zero_page :: "u8 list" where
  "zero_page = replicate PAGE_SIZE 0"

lemma length_zero_page [simp]: "length zero_page = PAGE_SIZE"
  by (simp add: zero_page_def)

section \<open>A store of pages\<close>

text \<open>
  \<open>view s id\<close> is the contents of page \<open>id\<close>. A read returns it and changes no page, a write
  replaces one page; either may fail, and then nothing is promised but that no page changes.
\<close>

locale page_store =
  fixes inv :: "'s \<Rightarrow> bool"
    and view :: "'s \<Rightarrow> u32 \<Rightarrow> u8 list"
    and get :: "u32 \<Rightarrow> 's \<Rightarrow> u8 list option \<times> 's"
    and put :: "u32 \<Rightarrow> u8 list \<Rightarrow> 's \<Rightarrow> bool \<times> 's"
  assumes get_view: "inv s \<Longrightarrow> get i s = (r, s') \<Longrightarrow> inv s' \<and> view s' = view s \<and> (\<forall>d. r = Some d \<longrightarrow> d = view s i)"
    and put_view: "inv s \<Longrightarrow> length d = PAGE_SIZE \<Longrightarrow> put i d s = (ok, s') \<Longrightarrow>
      inv s' \<and> view s' = (if ok then (view s)(i := d) else view s)"
begin

text \<open>A sequence of accesses: \<open>(i, Some d)\<close> writes, \<open>(i, None)\<close> reads; the pages that were read.\<close>

fun accesses :: "(u32 \<times> u8 list option) list \<Rightarrow> 's \<Rightarrow> u8 list option list \<times> bool list \<times> 's" where
  "accesses [] s = ([], [], s)"
| "accesses ((i, None) # as) s =
     (let (r, s) = get i s; (rs, oks, s) = accesses as s in (r # rs, oks, s))"
| "accesses ((i, Some d) # as) s =
     (let (ok, s) = put i d s; (rs, oks, s) = accesses as s in (rs, ok # oks, s))"

text \<open>What a plain array of pages would read, given which writes went through.\<close>

fun array_reads :: "(u32 \<times> u8 list option) list \<Rightarrow> bool list \<Rightarrow> (u32 \<Rightarrow> u8 list) \<Rightarrow> u8 list list" where
  "array_reads [] oks m = []"
| "array_reads ((i, None) # as) oks m = m i # array_reads as oks m"
| "array_reads ((i, Some d) # as) (ok # oks) m = array_reads as oks (if ok then m(i := d) else m)"
| "array_reads ((i, Some d) # as) [] m = []"

lemma accesses_array:
  assumes "inv s" "\<forall>(i, w) \<in> set as. \<forall>d. w = Some d \<longrightarrow> length d = PAGE_SIZE"
    and "accesses as s = (rs, oks, s')"
  shows "list_all2 (\<lambda>r d. r = None \<or> r = Some d) rs (array_reads as oks (view s)) \<and> inv s'"
  using assms
proof (induction as s arbitrary: rs oks s' rule: accesses.induct)
  case (2 i as s)
  obtain r t where g: "get i s = (r, t)" by (cases "get i s")
  obtain rs1 where a: "accesses as t = (rs1, oks, s')" "rs = r # rs1"
    using 2(4) g by (cases "accesses as t") auto
  have t: "inv t \<and> view t = view s \<and> (\<forall>d. r = Some d \<longrightarrow> d = view s i)" by (rule get_view [OF 2(2) g])
  have "list_all2 (\<lambda>r d. r = None \<or> r = Some d) rs1 (array_reads as oks (view t)) \<and> inv s'"
    by (rule 2(1) [OF g [symmetric] refl]) (use t 2(3) a in auto)
  then show ?case using t a by (cases r) auto
next
  case (3 i d as s)
  obtain ok t where p: "put i d s = (ok, t)" by (cases "put i d s")
  obtain oks1 where a: "accesses as t = (rs, oks1, s')" "oks = ok # oks1"
    using 3(4) p by (cases "accesses as t") auto
  have t: "inv t \<and> view t = (if ok then (view s)(i := d) else view s)"
    using put_view [OF 3(2) _ p] 3(3) by auto
  have "list_all2 (\<lambda>r d. r = None \<or> r = Some d) rs (array_reads as oks1 (view t)) \<and> inv s'"
    by (rule 3(1) [OF p [symmetric] refl]) (use t 3(3) a in auto)
  then show ?case using t a by simp
qed auto

end

section \<open>The class DiskManager\<close>

record DiskManager =
  db_file :: "u8 list"
  is_open :: bool
  fail_bit :: bool
  next_page_id :: u32

text \<open>\<open>opened\<close>: what is in the file once it has been opened, or created; \<open>None\<close> if that failed.\<close>

definition DiskManager_init :: "u8 list option \<Rightarrow> db_error + DiskManager" where
  "DiskManager_init opened =
     (case opened of
        None \<Rightarrow> Inl RuntimeError
      | Some file \<Rightarrow> Inr \<lparr>db_file = file, is_open = True, fail_bit = False,
          next_page_id = word_of_nat (length file div PAGE_SIZE)\<rparr>)"

text \<open>
  Writing behind the end of the file fills the gap with zeros. While the fail bit is set \<open>seekp\<close> does
  nothing, \<open>seekg\<close> neither, and \<open>tellg\<close> answers -1, which lies before every offset.
\<close>

definition WritePage :: "u32 \<Rightarrow> u8 list \<Rightarrow> DiskManager \<Rightarrow> db_error + DiskManager" where
  "WritePage page_id page_data d =
     (if \<not> is_open d \<or> fail_bit d then Inl RuntimeError
      else
        let offset = unat page_id * PAGE_SIZE;
            file = db_file d @ replicate (offset - length (db_file d)) 0
        in Inr (d\<lparr>db_file := take offset file @ page_data @ drop (offset + PAGE_SIZE) file\<rparr>))"

definition ReadPage :: "u32 \<Rightarrow> DiskManager \<Rightarrow> (db_error + u8 list) \<times> DiskManager" where
  "ReadPage page_id d =
     (if \<not> is_open d then (Inl RuntimeError, d)
      else
        let offset = unat page_id * PAGE_SIZE
        in if fail_bit d \<or> length (db_file d) \<le> offset then (Inr zero_page, d)
           else
             let bytes = take PAGE_SIZE (drop offset (db_file d));
                 short = length bytes < PAGE_SIZE
             in (Inr (if short then bytes @ replicate (PAGE_SIZE - length bytes) 0 else bytes),
                 d\<lparr>fail_bit := short\<rparr>))"

definition AllocatePage :: "DiskManager \<Rightarrow> u32 \<times> DiskManager" where
  "AllocatePage d = (next_page_id d, d\<lparr>next_page_id := next_page_id d + 1\<rparr>)"

definition DeallocatePage :: "u32 \<Rightarrow> DiskManager \<Rightarrow> db_error + DiskManager" where
  "DeallocatePage page_id d = WritePage page_id zero_page d"

definition GetFileSize :: "DiskManager \<Rightarrow> nat" where
  "GetFileSize d = (if \<not> is_open d then 0 else if fail_bit d then 2 ^ 64 - 1 else length (db_file d))"

section \<open>The file as an array of pages\<close>

definition byte_at :: "u8 list \<Rightarrow> nat \<Rightarrow> u8" where
  "byte_at file k = (if k < length file then file ! k else 0)"

definition disk_page :: "DiskManager \<Rightarrow> u32 \<Rightarrow> u8 list" where
  "disk_page d i = map (\<lambda>k. byte_at (db_file d) (unat i * PAGE_SIZE + k)) [0 ..< PAGE_SIZE]"

lemma length_disk_page [simp]: "length (disk_page d i) = PAGE_SIZE"
  by (simp add: disk_page_def)

lemma nth_disk_page: "k < PAGE_SIZE \<Longrightarrow> disk_page d i ! k = byte_at (db_file d) (unat i * PAGE_SIZE + k)"
  by (simp add: disk_page_def)

text \<open>A file of whole pages never makes a read come short.\<close>

definition disk_ok :: "DiskManager \<Rightarrow> bool" where
  "disk_ok d \<longleftrightarrow> \<not> fail_bit d \<and> PAGE_SIZE dvd length (db_file d)"

lemma whole_page:
  assumes "PAGE_SIZE dvd n" "i * PAGE_SIZE < n"
  shows "i * PAGE_SIZE + PAGE_SIZE \<le> n"
proof -
  obtain k where k: "n = PAGE_SIZE * k" using assms(1) by blast
  then have "i < k" using assms(2) by (simp add: mult.commute)
  then have "PAGE_SIZE * Suc i \<le> PAGE_SIZE * k" by (intro mult_le_mono2) simp
  then show ?thesis by (simp add: k mult.commute)
qed

lemma ReadPage_page:
  assumes "disk_ok d"
  shows "ReadPage i d = (if is_open d then Inr (disk_page d i) else Inl RuntimeError, d)"
proof (cases "length (db_file d) \<le> unat i * PAGE_SIZE")
  case True
  then have "zero_page = disk_page d i"
    by (intro nth_equalityI) (simp_all add: nth_disk_page byte_at_def zero_page_def)
  then show ?thesis using True by (simp add: ReadPage_def Let_def)
next
  case False
  then have le: "unat i * PAGE_SIZE + PAGE_SIZE \<le> length (db_file d)"
    using assms whole_page [of "length (db_file d)" "unat i"] by (simp add: disk_ok_def)
  then have "take PAGE_SIZE (drop (unat i * PAGE_SIZE) (db_file d)) = disk_page d i"
    by (intro nth_equalityI) (simp_all add: nth_disk_page byte_at_def)
  then show ?thesis using False le assms by (simp add: ReadPage_def Let_def disk_ok_def)
qed

lemma byte_at_pad: "byte_at (file @ replicate n 0) k = byte_at file k"
  by (auto simp: byte_at_def nth_append)

lemma byte_at_splice:
  assumes "length data = PAGE_SIZE" "off \<le> length file"
  shows "byte_at (take off file @ data @ drop (off + PAGE_SIZE) file) k =
    (if off \<le> k \<and> k < off + PAGE_SIZE then data ! (k - off) else byte_at file k)"
  using assms by (auto simp: byte_at_def nth_append)

lemma byte_at_write:
  assumes "length data = PAGE_SIZE"
  shows "byte_at (take off (file @ replicate (off - length file) 0) @ data @
      drop (off + PAGE_SIZE) (file @ replicate (off - length file) 0)) k =
    (if off \<le> k \<and> k < off + PAGE_SIZE then data ! (k - off) else byte_at file k)"
  using byte_at_splice [OF assms, of off "file @ replicate (off - length file) 0" k] by (simp add: byte_at_pad)

lemma page_overlap:
  assumes "k < PAGE_SIZE" "a * PAGE_SIZE \<le> b * PAGE_SIZE + k" "b * PAGE_SIZE + k < a * PAGE_SIZE + PAGE_SIZE"
  shows "a = b"
proof -
  have "(b * PAGE_SIZE + k) div PAGE_SIZE = b" using assms(1) by simp
  moreover have "(b * PAGE_SIZE + k) div PAGE_SIZE = a"
    using assms(2,3) by (intro div_nat_eqI) (simp_all add: mult.commute add.commute)
  ultimately show ?thesis by simp
qed

lemma WritePage_page:
  assumes "length data = PAGE_SIZE" "WritePage i data d = Inr d'"
  shows "disk_page d' = (disk_page d)(i := data)" "is_open d'" "next_page_id d' = next_page_id d"
    "disk_ok d \<Longrightarrow> disk_ok d'"
proof -
  have d': "d' = d\<lparr>db_file := db_file d'\<rparr>" "is_open d" "\<not> fail_bit d"
    and f: "db_file d' = take (unat i * PAGE_SIZE) (db_file d @ replicate (unat i * PAGE_SIZE - length (db_file d)) 0) @
      data @ drop (unat i * PAGE_SIZE + PAGE_SIZE) (db_file d @ replicate (unat i * PAGE_SIZE - length (db_file d)) 0)"
    using assms(2) by (auto simp: WritePage_def Let_def split: if_splits)
  have sel: "is_open (d\<lparr>db_file := x\<rparr>) = is_open d" "next_page_id (d\<lparr>db_file := x\<rparr>) = next_page_id d"
    "fail_bit (d\<lparr>db_file := x\<rparr>) = fail_bit d" for x by simp_all
  show "is_open d'" "next_page_id d' = next_page_id d"
    using d'(2) sel(1,2) [of "db_file d'"] by (simp_all only: d'(1) [symmetric])
  show "disk_ok d'" if "disk_ok d"
  proof -
    have "\<not> fail_bit d'" using d'(3) sel(3) [of "db_file d'"] by (simp only: d'(1) [symmetric] not_False_eq_True)
    moreover have "length (db_file d') = max (length (db_file d)) (unat i * PAGE_SIZE + PAGE_SIZE)"
      unfolding f using assms(1) by auto
    ultimately show ?thesis using that by (simp add: disk_ok_def max_def)
  qed
  show "disk_page d' = (disk_page d)(i := data)"
  proof
    fix j :: u32
    have b: "byte_at (db_file d') (unat j * PAGE_SIZE + k) =
        (if unat i * PAGE_SIZE \<le> unat j * PAGE_SIZE + k \<and> unat j * PAGE_SIZE + k < unat i * PAGE_SIZE + PAGE_SIZE
         then data ! (unat j * PAGE_SIZE + k - unat i * PAGE_SIZE) else byte_at (db_file d) (unat j * PAGE_SIZE + k))" for j k
      unfolding f by (rule byte_at_write [OF assms(1)])
    show "disk_page d' j = ((disk_page d)(i := data)) j"
    proof (cases "j = i")
      case True
      then show ?thesis using assms(1) by (simp, intro nth_equalityI) (simp_all add: nth_disk_page b)
    next
      case False
      then have "unat i \<noteq> unat j" using word_unat_eq_iff [of i j] by metis
      then have no: "k < PAGE_SIZE \<Longrightarrow> \<not> (unat i * PAGE_SIZE \<le> unat j * PAGE_SIZE + k \<and>
          unat j * PAGE_SIZE + k < unat i * PAGE_SIZE + PAGE_SIZE)" for k
        using page_overlap by blast
      have "disk_page d' j ! k = disk_page d j ! k" if "k < PAGE_SIZE" for k
        using no [OF that] that by (simp only: nth_disk_page b if_False)
      then show ?thesis using False by (simp add: list_eq_iff_nth_eq)
    qed
  qed
qed

definition disk_get :: "u32 \<Rightarrow> DiskManager \<Rightarrow> u8 list option \<times> DiskManager" where
  "disk_get i d = (case ReadPage i d of (Inl _, d) \<Rightarrow> (None, d) | (Inr bs, d) \<Rightarrow> (Some bs, d))"

definition disk_put :: "u32 \<Rightarrow> u8 list \<Rightarrow> DiskManager \<Rightarrow> bool \<times> DiskManager" where
  "disk_put i bs d = (case WritePage i bs d of Inl _ \<Rightarrow> (False, d) | Inr d' \<Rightarrow> (True, d'))"

interpretation disk: page_store disk_ok disk_page disk_get disk_put
proof unfold_locales
  show "disk_ok s \<Longrightarrow> disk_get i s = (r, s') \<Longrightarrow>
      disk_ok s' \<and> disk_page s' = disk_page s \<and> (\<forall>d. r = Some d \<longrightarrow> d = disk_page s i)" for i s r s'
    by (auto simp: disk_get_def ReadPage_page split: if_splits)
  show "disk_ok s \<Longrightarrow> length d = PAGE_SIZE \<Longrightarrow> disk_put i d s = (ok, s') \<Longrightarrow>
      disk_ok s' \<and> disk_page s' = (if ok then (disk_page s)(i := d) else disk_page s)" for d i s ok s'
    using WritePage_page(1,4) [of d i s] by (auto simp: disk_put_def split: sum.splits)
qed

text \<open>
  On a file of whole pages the disk manager is an array of pages: in any sequence of reads and
  writes every read that succeeds yields what was last written to that page, and the file stays a
  file of whole pages.
\<close>

theorem disk_is_array:
  assumes "disk_ok d" "\<forall>(i, w) \<in> set as. \<forall>bs. w = Some bs \<longrightarrow> length bs = PAGE_SIZE"
    and "disk.accesses as d = (rs, oks, d')"
  shows "list_all2 (\<lambda>r bs. r = None \<or> r = Some bs) rs (disk.array_reads as oks (disk_page d)) \<and> disk_ok d'"
  by (rule disk.accesses_array [OF assms])

lemma disk_is_array_witness:
  "\<exists>d d'. disk.accesses [(3, Some zero_page), (3, None)] d = ([Some zero_page], [True], d') \<and> disk_ok d'"
proof -
  define d where "d = \<lparr>db_file = [], is_open = True, fail_bit = False, next_page_id = 0\<rparr>"
  have ok: "disk_ok d" by (simp add: disk_ok_def d_def)
  obtain d1 where w: "WritePage 3 zero_page d = Inr d1" by (simp add: WritePage_def d_def Let_def)
  note p = WritePage_page [OF length_zero_page w]
  have r: "ReadPage 3 d1 = (Inr zero_page, d1)" using ReadPage_page [OF p(4) [OF ok], of 3] p(1,2) by simp
  have a: "disk.accesses [(3, Some zero_page), (3, None)] d = ([Some zero_page], [True], d1)"
    by (simp add: disk_put_def disk_get_def w r)
  have "disk_ok d1" using disk_is_array [OF ok _ a] by simp
  then show ?thesis using a by blast
qed

text \<open>
  If the file ends in the middle of a page, one read of that page sets the fail bit and from then
  on the manager is lost without a word: every page reads as zeros, and every write throws.
\<close>

theorem short_page_poisons:
  assumes "is_open d" "\<not> fail_bit d" "unat i * PAGE_SIZE < length (db_file d)"
    and "length (db_file d) < unat i * PAGE_SIZE + PAGE_SIZE" "ReadPage i d = (r, d')"
  shows "r = Inr (disk_page d i) \<and> ReadPage j d' = (Inr zero_page, d') \<and> WritePage j bs d' = Inl RuntimeError"
proof -
  have "take PAGE_SIZE (drop (unat i * PAGE_SIZE) (db_file d)) @
      replicate (PAGE_SIZE - (length (db_file d) - unat i * PAGE_SIZE)) 0 = disk_page d i"
    using assms(3,4) by (intro nth_equalityI) (auto simp: nth_disk_page byte_at_def nth_append)
  then show ?thesis
    using assms by (auto simp: ReadPage_def WritePage_def Let_def)
qed

lemma short_page_poisons_witness:
  "\<exists>d d'. db_file d' = [7] \<and> ReadPage 0 d = (Inr (disk_page d 0), d') \<and> ReadPage 0 d' = (Inr zero_page, d')"
proof -
  define d where "d = \<lparr>db_file = [7], is_open = True, fail_bit = False, next_page_id = 0\<rparr>"
  obtain r d' where r: "ReadPage 0 d = (r, d')" by (cases "ReadPage 0 d")
  have "1 < PAGE_SIZE" by (simp add: PAGE_SIZE_def)
  then have "r = Inr (disk_page d 0) \<and> ReadPage 0 d' = (Inr zero_page, d') \<and> WritePage 0 [] d' = Inl RuntimeError"
    using short_page_poisons [OF _ _ _ _ r] by (simp add: d_def)
  moreover have "db_file d' = [7]" using r by (auto simp: ReadPage_def d_def Let_def)
  ultimately show ?thesis using r by blast
qed

end
