(* ===== verification/Db_Lru.thy ===== *)
theory Db_Lru
  imports Prelude
begin

text \<open>
  The replacement policy of the buffer pool: class \<open>LRUReplacer\<close> of
  \<open>npdatabase/src/lru_replacer.hpp\<close>. It keeps a doubly linked list of frames and a table of
  iterators into it. An iterator is modelled by the identity of its list node, so that erasing
  through the table is what the code does; the table and the list are shown to agree.
\<close>

section \<open>The class\<close>

record LRUReplacer =
  lru_list :: "(nat \<times> nat) list"
  frame_to_iter :: "nat \<rightharpoonup> nat"
  next_node :: nat
  lru_capacity :: nat

text \<open>\<open>lru_list\<close> holds pairs of a node and its frame; \<open>next_node\<close> supplies the nodes of \<open>push_front\<close>.\<close>

definition LRU_init :: "nat \<Rightarrow> LRUReplacer" where
  "LRU_init n = \<lparr>lru_list = [], frame_to_iter = Map.empty, next_node = 0, lru_capacity = n\<rparr>"

definition Pin :: "nat \<Rightarrow> LRUReplacer \<Rightarrow> LRUReplacer" where
  "Pin frame_id r =
     (case frame_to_iter r frame_id of
        Some it \<Rightarrow> r\<lparr>lru_list := filter (\<lambda>(node, _). node \<noteq> it) (lru_list r),
                    frame_to_iter := (frame_to_iter r)(frame_id := None)\<rparr>
      | None \<Rightarrow> r)"

definition Unpin :: "nat \<Rightarrow> LRUReplacer \<Rightarrow> LRUReplacer" where
  "Unpin frame_id r =
     (case frame_to_iter r frame_id of
        None \<Rightarrow> r\<lparr>lru_list := (next_node r, frame_id) # lru_list r,
                 frame_to_iter := (frame_to_iter r)(frame_id \<mapsto> next_node r),
                 next_node := next_node r + 1\<rparr>
      | Some _ \<Rightarrow> r)"

definition Victim :: "LRUReplacer \<Rightarrow> nat option \<times> LRUReplacer" where
  "Victim r =
     (if lru_list r = [] then (None, r)
      else
        let frame_id = snd (last (lru_list r))
        in (Some frame_id, r\<lparr>lru_list := butlast (lru_list r),
                             frame_to_iter := (frame_to_iter r)(frame_id := None)\<rparr>))"

definition LRU_Size :: "LRUReplacer \<Rightarrow> nat" where
  "LRU_Size r = length (lru_list r)"

section \<open>The list of frames\<close>

definition frames :: "LRUReplacer \<Rightarrow> nat list" where
  "frames r = map snd (lru_list r)"

definition lru_wf :: "LRUReplacer \<Rightarrow> bool" where
  "lru_wf r \<longleftrightarrow> distinct (map fst (lru_list r)) \<and> distinct (map snd (lru_list r)) \<and>
     (\<forall>n \<in> set (map fst (lru_list r)). n < next_node r) \<and>
     (\<forall>f n. frame_to_iter r f = Some n \<longleftrightarrow> (n, f) \<in> set (lru_list r))"

lemma LRU_init_wf [simp]: "lru_wf (LRU_init n)" "frames (LRU_init n) = []"
  by (simp_all add: lru_wf_def LRU_init_def frames_def)

lemma frames_iter: "lru_wf r \<Longrightarrow> f \<in> set (frames r) \<longleftrightarrow> frame_to_iter r f \<noteq> None"
  by (force simp: lru_wf_def frames_def)

lemma frames_distinct: "lru_wf r \<Longrightarrow> distinct (frames r)"
  by (simp add: lru_wf_def frames_def)

lemma filter_node:
  assumes "distinct (map fst xs)" "distinct (map snd xs)" "(n, f) \<in> set xs"
  shows "map snd (filter (\<lambda>(node, _). node \<noteq> n) xs) = remove1 f (map snd xs)"
  using assms
proof (induction xs)
  case (Cons x xs)
  show ?case
  proof (cases "x = (n, f)")
    case True
    then have "\<forall>y \<in> set xs. fst y \<noteq> n" using Cons.prems(1) by (force simp: image_iff)
    then have "filter (\<lambda>(node, _). node \<noteq> n) xs = xs" by (auto simp: filter_id_conv)
    then show ?thesis using True by simp
  next
    case False
    then have x: "(n, f) \<in> set xs" "fst x \<noteq> n" "snd x \<noteq> f" using Cons.prems by (force simp: image_iff)+
    then show ?thesis using Cons by (auto split: prod.splits)
  qed
qed simp

lemma Pin_spec:
  assumes "lru_wf r"
  shows "lru_wf (Pin f r)" "frames (Pin f r) = remove1 f (frames r)"
proof -
  show "frames (Pin f r) = remove1 f (frames r)"
  proof (cases "frame_to_iter r f")
    case None
    then show ?thesis using frames_iter [OF assms, of f] by (simp add: Pin_def remove1_idem)
  next
    case (Some n)
    then have "map snd (filter (\<lambda>(node, _). node \<noteq> n) (lru_list r)) = remove1 f (map snd (lru_list r))"
      using assms by (intro filter_node) (simp_all add: lru_wf_def)
    then show ?thesis using Some by (simp add: Pin_def frames_def)
  qed
  show "lru_wf (Pin f r)"
    using assms unfolding lru_wf_def Pin_def
    by (auto simp: distinct_map_filter inj_on_def split: option.splits)
      (metis prod.inject distinct_map inj_on_def snd_conv fst_conv)+
qed

lemma Unpin_spec:
  assumes "lru_wf r"
  shows "lru_wf (Unpin f r)" "frames (Unpin f r) = (if f \<in> set (frames r) then frames r else f # frames r)"
proof -
  show "frames (Unpin f r) = (if f \<in> set (frames r) then frames r else f # frames r)"
    using frames_iter [OF assms, of f] by (auto simp: Unpin_def frames_def split: option.splits)
  show "lru_wf (Unpin f r)"
    using assms frames_iter [OF assms, of f] unfolding lru_wf_def Unpin_def frames_def
    by (force split: option.splits)
qed

lemma Victim_None: "fst (Victim r) = None \<longleftrightarrow> frames r = []"
  by (simp add: Victim_def frames_def Let_def)

lemma Victim_spec:
  assumes "lru_wf r" "Victim r = (Some f, r')"
  shows "lru_wf r'" "frames r = frames r' @ [f]"
proof -
  obtain xs n where l: "lru_list r = xs @ [(n, f)]" and r': "r' = r\<lparr>lru_list := xs, frame_to_iter := (frame_to_iter r)(f := None)\<rparr>"
    using assms(2) by (cases "lru_list r" rule: rev_cases) (auto simp: Victim_def Let_def)
  then show "frames r = frames r' @ [f]" by (simp add: frames_def)
  show "lru_wf r'"
    using assms(1) unfolding lru_wf_def r' by (auto simp: l image_iff)
qed

text \<open>
  The replacer is a list of the frames that may be evicted, the most recently released first,
  without duplicates: \<open>Pin\<close> takes a frame out, \<open>Unpin\<close> puts a new one in front, and the victim is
  the one that was released first.
\<close>

theorem lru_refines:
  assumes "lru_wf r"
  shows "lru_wf (Pin f r) \<and> frames (Pin f r) = remove1 f (frames r) \<and>
    lru_wf (Unpin f r) \<and> frames (Unpin f r) = (if f \<in> set (frames r) then frames r else f # frames r) \<and>
    distinct (frames r) \<and>
    (case Victim r of (None, r') \<Rightarrow> r' = r \<and> frames r = []
      | (Some v, r') \<Rightarrow> lru_wf r' \<and> frames r = frames r' @ [v])"
proof -
  have "case Victim r of (None, r') \<Rightarrow> r' = r \<and> frames r = []
    | (Some v, r') \<Rightarrow> lru_wf r' \<and> frames r = frames r' @ [v]"
  proof (cases "lru_list r = []")
    case True
    then show ?thesis by (simp add: Victim_def frames_def)
  next
    case False
    then obtain v r' where "Victim r = (Some v, r')" by (simp add: Victim_def Let_def)
    then show ?thesis using Victim_spec [OF assms] by simp
  qed
  then show ?thesis using Pin_spec [OF assms] Unpin_spec [OF assms] frames_distinct [OF assms] by blast
qed

lemma lru_refines_witness:
  "\<exists>r. lru_wf r \<and> frames r = [2, 1] \<and> frames (Pin 1 r) = [2]"
proof -
  have r: "lru_wf (Unpin 2 (Unpin 1 (LRU_init 4)))" by (simp add: Unpin_spec)
  moreover have "frames (Unpin 2 (Unpin 1 (LRU_init 4))) = [2, 1]" by (simp add: Unpin_spec)
  ultimately show ?thesis using lru_refines [OF r, of 1] by auto
qed

end
