(* ===== verification/Db_Pool.thy ===== *)
theory Db_Pool
  imports Db_Disk Db_Lru
begin

text \<open>
  The buffer pool of the database: \<open>Page\<close> of \<open>npdatabase/src/page.hpp\<close> and \<open>BufferPoolManager\<close> of
  \<open>npdatabase/src/buffer_pool_manager.cpp\<close>. A pointer to a page is the number of its frame. Every
  operation holds the mutex from beginning to end, so a call is one step. The result is paired with
  the new state also when the operation throws. \<open>last_access_\<close> is written only and left out.
\<close>

section \<open>State\<close>

record page =
  page_id :: u32
  pin_count :: u32
  is_dirty :: bool
  page_data :: "u8 list"

definition Reset :: "page \<Rightarrow> page" where
  "Reset p = p\<lparr>page_id := 0, pin_count := 0, is_dirty := False, page_data := zero_page\<rparr>"

definition new_page :: page where
  "new_page = \<lparr>page_id = 0, pin_count = 0, is_dirty = False, page_data = zero_page\<rparr>"

record BufferPoolManager =
  pages :: "page list"
  page_table :: "u32 \<rightharpoonup> nat"
  free_list :: "nat list"
  disk_manager :: DiskManager
  replacer :: LRUReplacer

type_synonym 'a pool_res = "(db_error + 'a) \<times> BufferPoolManager"

definition BufferPoolManager_init :: "nat \<Rightarrow> DiskManager \<Rightarrow> BufferPoolManager" where
  "BufferPoolManager_init pool_size d =
     \<lparr>pages = replicate pool_size new_page, page_table = Map.empty, free_list = [0 ..< pool_size],
      disk_manager = d, replacer = LRU_init pool_size\<rparr>"

abbreviation upd_page :: "nat \<Rightarrow> (page \<Rightarrow> page) \<Rightarrow> BufferPoolManager \<Rightarrow> BufferPoolManager" where
  "upd_page f g b \<equiv> b\<lparr>pages := (pages b)[f := g (pages b ! f)]\<rparr>"

section \<open>Operations\<close>

text \<open>A page that cannot be written goes back to the replacer.\<close>

definition EvictPage :: "nat \<Rightarrow> BufferPoolManager \<Rightarrow> bool pool_res" where
  "EvictPage f b =
     (let page = pages b ! f;
          finish = (\<lambda>b. (Inr True, upd_page f Reset (b\<lparr>page_table := (page_table b)(page_id page := None)\<rparr>)))
      in if pin_count page \<noteq> 0 then (Inl AssertionFailure, b)
         else if is_dirty page then
           (case WritePage (page_id page) (page_data page) (disk_manager b) of
              Inl e \<Rightarrow> (Inr False, b\<lparr>replacer := Unpin f (replacer b)\<rparr>)
            | Inr d \<Rightarrow> finish (b\<lparr>disk_manager := d\<rparr>))
         else finish b)"

text \<open>\<open>None\<close> is \<open>SIZE_MAX\<close>.\<close>

definition FindFreeFrame :: "BufferPoolManager \<Rightarrow> nat option pool_res" where
  "FindFreeFrame b =
     (case free_list b of
        f # fs \<Rightarrow> (Inr (Some f), b\<lparr>free_list := fs\<rparr>)
      | [] \<Rightarrow>
          (case Victim (replacer b) of
             (Some f, r) \<Rightarrow>
               (case EvictPage f (b\<lparr>replacer := r\<rparr>) of
                  (Inl e, b) \<Rightarrow> (Inl e, b)
                | (Inr ok, b) \<Rightarrow> (Inr (if ok then Some f else None), b))
           | (None, r) \<Rightarrow> (Inr None, b)))"

text \<open>\<open>None\<close> is \<open>nullptr\<close>; \<open>Some f\<close> a pointer to the page in frame \<open>f\<close>.\<close>

definition install :: "nat \<Rightarrow> page \<Rightarrow> BufferPoolManager \<Rightarrow> BufferPoolManager" where
  "install f p b =
     b\<lparr>pages := (pages b)[f := p], page_table := (page_table b)(page_id p \<mapsto> f),
       replacer := Pin f (replacer b)\<rparr>"

definition FetchPage :: "u32 \<Rightarrow> BufferPoolManager \<Rightarrow> nat option pool_res" where
  "FetchPage i b =
     (case page_table b i of
        Some f \<Rightarrow> (Inr (Some f), (upd_page f (\<lambda>p. p\<lparr>pin_count := pin_count p + 1\<rparr>) b)\<lparr>replacer := Pin f (replacer b)\<rparr>)
      | None \<Rightarrow>
          (case FindFreeFrame b of
             (Inl e, b) \<Rightarrow> (Inl e, b)
           | (Inr None, b) \<Rightarrow> (Inr None, b)
           | (Inr (Some f), b) \<Rightarrow>
               (case ReadPage i (disk_manager b) of
                  (Inl e, d) \<Rightarrow> (Inl e, b\<lparr>disk_manager := d, free_list := f # free_list b\<rparr>)
                | (Inr bytes, d) \<Rightarrow>
                    (Inr (Some f), install f \<lparr>page_id = i, pin_count = 1, is_dirty = False, page_data = bytes\<rparr> (b\<lparr>disk_manager := d\<rparr>)))))"

definition UnpinPage :: "u32 \<Rightarrow> bool \<Rightarrow> BufferPoolManager \<Rightarrow> bool \<times> BufferPoolManager" where
  "UnpinPage i dirty b =
     (case page_table b i of
        None \<Rightarrow> (False, b)
      | Some f \<Rightarrow>
          if pin_count (pages b ! f) = 0 then (False, b)
          else
            let b = upd_page f (\<lambda>p. p\<lparr>pin_count := pin_count p - 1, is_dirty := is_dirty p \<or> dirty\<rparr>) b
            in (True, if pin_count (pages b ! f) = 0 then b\<lparr>replacer := Unpin f (replacer b)\<rparr> else b))"

definition NewPage :: "BufferPoolManager \<Rightarrow> (u32 \<times> nat) option pool_res" where
  "NewPage b =
     (case FindFreeFrame b of
        (Inl e, b) \<Rightarrow> (Inl e, b)
      | (Inr None, b) \<Rightarrow> (Inr None, b)
      | (Inr (Some f), b) \<Rightarrow>
          let (i, d) = AllocatePage (disk_manager b); b = b\<lparr>disk_manager := d\<rparr>
          in (Inr (Some (i, f)),
              install f ((Reset (pages b ! f))\<lparr>page_id := i, pin_count := 1, is_dirty := True\<rparr>) b))"

definition DeletePage :: "u32 \<Rightarrow> BufferPoolManager \<Rightarrow> bool pool_res" where
  "DeletePage i b =
     (let deallocate = (\<lambda>b. case DeallocatePage i (disk_manager b) of
            Inl e \<Rightarrow> (Inl e, b) | Inr d \<Rightarrow> (Inr True, b\<lparr>disk_manager := d\<rparr>))
      in case page_table b i of
           None \<Rightarrow> deallocate b
         | Some f \<Rightarrow>
             if pin_count (pages b ! f) \<noteq> 0 then (Inr False, b)
             else deallocate (upd_page f Reset (b\<lparr>page_table := (page_table b)(i := None),
                    replacer := Pin f (replacer b), free_list := f # free_list b\<rparr>)))"

definition FlushPage :: "u32 \<Rightarrow> BufferPoolManager \<Rightarrow> bool \<times> BufferPoolManager" where
  "FlushPage i b =
     (case page_table b i of
        None \<Rightarrow> (False, b)
      | Some f \<Rightarrow>
          if is_dirty (pages b ! f)
          then (case WritePage i (page_data (pages b ! f)) (disk_manager b) of
                  Inl e \<Rightarrow> (False, b)
                | Inr d \<Rightarrow> (True, upd_page f (\<lambda>p. p\<lparr>is_dirty := False\<rparr>) (b\<lparr>disk_manager := d\<rparr>)))
          else (True, b))"

text \<open>
  \<open>FlushAllPages\<close> goes through the hash table in its own order: \<open>order\<close>, the ids in the table. The
  body of its loop is that of \<open>FlushPage\<close>.
\<close>

definition FlushAllPages :: "u32 list \<Rightarrow> BufferPoolManager \<Rightarrow> BufferPoolManager" where
  "FlushAllPages order b = fold (\<lambda>i b. snd (FlushPage i b)) order b"

definition GetFreeFrameCount :: "BufferPoolManager \<Rightarrow> nat" where
  "GetFreeFrameCount b = length (free_list b) + LRU_Size (replacer b)"

section \<open>Invariant\<close>

text \<open>
  The current contents of a page are in its frame, or else in the file. A frame may differ from the
  file only if it is dirty or pinned: who pins a page may write to it, and says so when it unpins
  it. The replacer holds only frames of unpinned pages, the free list only frames of no page.
\<close>

definition pool_view :: "BufferPoolManager \<Rightarrow> u32 \<Rightarrow> u8 list" where
  "pool_view b i =
     (case page_table b i of Some f \<Rightarrow> page_data (pages b ! f) | None \<Rightarrow> disk_page (disk_manager b) i)"

definition in_table :: "BufferPoolManager \<Rightarrow> nat \<Rightarrow> bool" where
  "in_table b f \<longleftrightarrow> page_table b (page_id (pages b ! f)) = Some f"

definition pool_wf :: "BufferPoolManager \<Rightarrow> bool" where
  "pool_wf b \<longleftrightarrow> disk_ok (disk_manager b) \<and> lru_wf (replacer b) \<and> distinct (free_list b) \<and>
     (\<forall>p \<in> set (pages b). length (page_data p) = PAGE_SIZE) \<and>
     (\<forall>i f. page_table b i = Some f \<longrightarrow> f < length (pages b) \<and> page_id (pages b ! f) = i) \<and>
     (\<forall>i f. page_table b i = Some f \<longrightarrow> \<not> is_dirty (pages b ! f) \<longrightarrow> pin_count (pages b ! f) = 0 \<longrightarrow>
        page_data (pages b ! f) = disk_page (disk_manager b) i) \<and>
     (\<forall>f \<in> set (frames (replacer b)). f < length (pages b) \<and> in_table b f \<and> pin_count (pages b ! f) = 0) \<and>
     (\<forall>f \<in> set (free_list b). f < length (pages b) \<and> \<not> in_table b f \<and> pin_count (pages b ! f) = 0)"

lemma pool_wf_init: "disk_ok d \<Longrightarrow> pool_wf (BufferPoolManager_init n d)"
  by (auto simp: pool_wf_def BufferPoolManager_init_def new_page_def in_table_def)

lemma pool_view_init: "pool_view (BufferPoolManager_init n d) = disk_page d"
  by (auto simp: pool_view_def BufferPoolManager_init_def)

lemma pool_wfD:
  assumes "pool_wf b"
  shows "lru_wf (replacer b)" "distinct (free_list b)"
    "\<And>p. p \<in> set (pages b) \<Longrightarrow> length (page_data p) = PAGE_SIZE"
    "\<And>i f. page_table b i = Some f \<Longrightarrow> f < length (pages b) \<and> page_id (pages b ! f) = i"
    "\<And>i f. page_table b i = Some f \<Longrightarrow> \<not> is_dirty (pages b ! f) \<Longrightarrow> pin_count (pages b ! f) = 0 \<Longrightarrow>
        page_data (pages b ! f) = disk_page (disk_manager b) i"
    "\<And>f. f \<in> set (frames (replacer b)) \<Longrightarrow> f < length (pages b) \<and> in_table b f \<and> pin_count (pages b ! f) = 0"
    "\<And>f. f \<in> set (free_list b) \<Longrightarrow> f < length (pages b) \<and> \<not> in_table b f \<and> pin_count (pages b ! f) = 0"
    "disk_ok (disk_manager b)"
  using assms unfolding pool_wf_def by blast+

lemma in_table_iff: "pool_wf b \<Longrightarrow> in_table b f \<longleftrightarrow> (\<exists>i. page_table b i = Some f)"
  using pool_wfD(4) by (fastforce simp: in_table_def)

lemma table_inj: "pool_wf b \<Longrightarrow> page_table b i = Some f \<Longrightarrow> page_table b j = Some f \<Longrightarrow> i = j"
  using pool_wfD(4) by blast

text \<open>What changes in the frames of unpinned pages only.\<close>

definition pinned_kept :: "BufferPoolManager \<Rightarrow> BufferPoolManager \<Rightarrow> bool" where
  "pinned_kept b b' \<longleftrightarrow> length (pages b') = length (pages b) \<and>
     (\<forall>i f. page_table b i = Some f \<longrightarrow> pin_count (pages b ! f) \<noteq> 0 \<longrightarrow>
        page_table b' i = Some f \<and> pages b' ! f = pages b ! f)"

definition pins :: "BufferPoolManager \<Rightarrow> u32 list" where
  "pins b = map pin_count (pages b)"

definition frame_free :: "BufferPoolManager \<Rightarrow> nat \<Rightarrow> bool" where
  "frame_free b f \<longleftrightarrow> f < length (pages b) \<and> \<not> in_table b f \<and> pin_count (pages b ! f) = 0 \<and> f \<notin> set (free_list b) \<and>
     f \<notin> set (frames (replacer b))"

lemma set_updateD: "p \<in> set (xs[f := x]) \<Longrightarrow> p = x \<or> p \<in> set xs"
  using set_update_subset_insert [of xs f x] by blast

lemma drop_victim_wf:
  assumes "pool_wf b" "Victim (replacer b) = (Some f, r)"
  shows "pool_wf (b\<lparr>replacer := r\<rparr>)" "f \<notin> set (frames r)" "f < length (pages b)" "in_table b f"
    "pin_count (pages b ! f) = 0"
proof -
  note v = Victim_spec [OF pool_wfD(1) [OF assms(1)] assms(2)]
  have "f \<in> set (frames (replacer b))" by (simp add: v(2))
  then show "f < length (pages b)" "in_table b f" "pin_count (pages b ! f) = 0"
    using pool_wfD(6) [OF assms(1)] by simp_all
  show "f \<notin> set (frames r)" using frames_distinct [OF pool_wfD(1) [OF assms(1)]] by (simp add: v(2))
  show "pool_wf (b\<lparr>replacer := r\<rparr>)"
    using assms(1) v unfolding pool_wf_def in_table_def by auto
qed

lemma disk_write_wf:
  assumes "pool_wf b" "page_table b i = Some f" "WritePage i (page_data (pages b ! f)) (disk_manager b) = Inr d"
  shows "pool_wf (b\<lparr>disk_manager := d\<rparr>)" "pool_view (b\<lparr>disk_manager := d\<rparr>) = pool_view b"
    "disk_page d i = page_data (pages b ! f)"
proof -
  note w = pool_wfD [OF assms(1)]
  have len: "length (page_data (pages b ! f)) = PAGE_SIZE" using w(3,4) assms(2) by simp
  have d: "disk_page d = (disk_page (disk_manager b))(i := page_data (pages b ! f))"
    by (rule WritePage_page(1) [OF len assms(3)])
  then show "disk_page d i = page_data (pages b ! f)" by simp
  have "page_data (pages b ! g) = disk_page d j" if "page_table b j = Some g" "\<not> is_dirty (pages b ! g)" "pin_count (pages b ! g) = 0" for j g
    using w(5) [OF that] assms(2) that(1) table_inj [OF assms(1)] by (cases "j = i") (simp_all add: d)
  then show "pool_wf (b\<lparr>disk_manager := d\<rparr>)"
    using assms(1) WritePage_page(4) [OF len assms(3)] unfolding pool_wf_def in_table_def by simp
  show "pool_view (b\<lparr>disk_manager := d\<rparr>) = pool_view b"
    using assms(2) by (auto simp: pool_view_def d split: option.splits)
qed

text \<open>Taking an unpinned page out of the table: what counts from then on is the file.\<close>

lemma unload_wf:
  assumes "pool_wf b" "page_table b i = Some f" "f \<notin> set (frames (replacer b))"
    and "pin_count (pages b ! f) = 0"
    and "b' = upd_page f Reset (b\<lparr>page_table := (page_table b)(i := None)\<rparr>)"
  shows "pool_wf b'" "pool_view b' = (pool_view b)(i := disk_page (disk_manager b) i)" "frame_free b' f" "pinned_kept b b'" "pins b' = pins b"
    "page_table b' \<subseteq>\<^sub>m page_table b"
proof -
  note w = pool_wfD [OF assms(1)]
  have f: "f < length (pages b)" "page_id (pages b ! f) = i" using w(4) [OF assms(2)] by simp_all
  have n: "length (pages b') = length (pages b)" "page_table b' = (page_table b)(i := None)"
    "replacer b' = replacer b" "free_list b' = free_list b" "disk_manager b' = disk_manager b"
    "pages b' ! f = Reset (pages b ! f)" and same: "\<And>g. g \<noteq> f \<Longrightarrow> pages b' ! g = pages b ! g"
    and ps: "pages b' = (pages b)[f := Reset (pages b ! f)]"
    using f by (simp_all add: assms(5))
  have other: "page_table b j = Some f \<Longrightarrow> j = i" for j using table_inj [OF assms(1) assms(2), of j] by simp
  have out: "\<not> in_table b' f" using other [of "page_id (pages b' ! f)"] by (auto simp: in_table_def n(2))
  have t: "in_table b' g \<longleftrightarrow> in_table b g" if "g \<noteq> f" for g
  proof -
    have "page_table b i \<noteq> Some g" using assms(2) that by simp
    then show ?thesis using same [OF that] by (simp add: in_table_def n(2))
  qed
  have tab: "page_table b j = Some g" "j \<noteq> i" "g \<noteq> f" if "page_table b' j = Some g" for j g
    using that other [of j] by (auto simp: n(2) split: if_splits)
  have fin: "in_table b f" using f assms(2) by (simp add: in_table_def)
  show "pool_wf b'"
    unfolding pool_wf_def n(3,4,5)
  proof (intro conjI ballI allI impI)
    show "disk_ok (disk_manager b)" "lru_wf (replacer b)" "distinct (free_list b)" using w by simp_all
    show "length (page_data p) = PAGE_SIZE" if "p \<in> set (pages b')" for p
      using that w(3) unfolding ps by (auto simp: Reset_def dest!: set_updateD)
    show "g < length (pages b')" "page_id (pages b' ! g) = j" if "page_table b' j = Some g" for j g
      using w(4) [OF tab(1) [OF that]] by (simp_all add: n(1) same [OF tab(3) [OF that]])
    show "page_data (pages b' ! g) = disk_page (disk_manager b) j"
      if "page_table b' j = Some g" "\<not> is_dirty (pages b' ! g)" "pin_count (pages b' ! g) = 0" for j g
      using w(5) [OF tab(1) [OF that(1)]] that(2,3) by (simp add: same [OF tab(3) [OF that(1)]])
    fix g assume g: "g \<in> set (frames (replacer b))"
    then have "g \<noteq> f" using assms(3) by blast
    then show "g < length (pages b')" "in_table b' g" "pin_count (pages b' ! g) = 0"
      using w(6) [OF g] by (simp_all add: t n(1) same)
  next
    fix g assume g: "g \<in> set (free_list b)"
    then have "g \<noteq> f" using w(7) fin by blast
    then show "g < length (pages b')" "\<not> in_table b' g" "pin_count (pages b' ! g) = 0"
      using w(7) [OF g] by (simp_all add: t n(1) same)
  qed
  show "pool_view b' = (pool_view b)(i := disk_page (disk_manager b) i)"
  proof
    fix j
    show "pool_view b' j = ((pool_view b)(i := disk_page (disk_manager b) i)) j"
    proof (cases "j = i")
      case True
      then show ?thesis by (simp add: pool_view_def n(2,5))
    next
      case False
      then have "page_table b j \<noteq> Some f" using other [of j] by blast
      then show ?thesis using False by (auto simp: pool_view_def n(2,5) same split: option.split)
    qed
  qed
  show "frame_free b' f"
    using f(1) out assms(3) w(7) fin by (auto simp: frame_free_def n Reset_def)
  show "page_table b' \<subseteq>\<^sub>m page_table b" by (simp add: n(2) map_le_def)
  show "pins b' = pins b"
    unfolding pins_def ps using assms(4) f(1) by (intro nth_equalityI) (auto simp: nth_list_update Reset_def)
  show "pinned_kept b b'"
    unfolding pinned_kept_def
  proof (intro conjI allI impI)
    fix j g assume j: "page_table b j = Some g" "pin_count (pages b ! g) \<noteq> 0"
    then have "g \<noteq> f" "j \<noteq> i" using assms(2,4) by auto
    then show "page_table b' j = Some g" "pages b' ! g = pages b ! g" using j same by (simp_all add: n(2))
  qed (rule n(1))
qed

lemma put_back_wf:
  assumes "pool_wf b" "f < length (pages b)" "in_table b f" "pin_count (pages b ! f) = 0"
  shows "pool_wf (b\<lparr>replacer := Unpin f (replacer b)\<rparr>)"
proof -
  note w = pool_wfD [OF assms(1)] and u = Unpin_spec [OF pool_wfD(1) [OF assms(1)], of f]
  have "g < length (pages b) \<and> in_table b g \<and> pin_count (pages b ! g) = 0"
    if "g \<in> set (frames (Unpin f (replacer b)))" for g
    using that w(6) [of g] assms(2-4) by (auto simp: u(2) split: if_splits)
  then show ?thesis
    using assms(1) u(1) by (simp add: pool_wf_def in_table_def)
qed

lemma view_replacer [simp]: "pool_view (b\<lparr>replacer := r\<rparr>) = pool_view b"
  "pool_view (b\<lparr>free_list := fs\<rparr>) = pool_view b"
  by (rule ext, simp add: pool_view_def split: option.split)+

lemma map_le_None: "m \<subseteq>\<^sub>m m' \<Longrightarrow> m' x = None \<Longrightarrow> m x = None"
  using map_le_implies_dom_le by fastforce

definition holds_on :: "BufferPoolManager \<Rightarrow> BufferPoolManager \<Rightarrow> bool" where
  "holds_on b b' \<longleftrightarrow> (\<forall>i f. page_table b i = Some f \<longrightarrow> pin_count (pages b ! f) \<noteq> 0 \<longrightarrow>
     page_table b' i = Some f \<and> pin_count (pages b' ! f) \<noteq> 0 \<and> page_data (pages b' ! f) = page_data (pages b ! f))"

lemma pinned_kept_holds_on: "pinned_kept b b' \<Longrightarrow> holds_on b b'"
  by (auto simp: pinned_kept_def holds_on_def)

lemma pinned_kept_trans: "pinned_kept a b \<Longrightarrow> pinned_kept b c \<Longrightarrow> pinned_kept a c"
  unfolding pinned_kept_def by metis

lemma pinned_kept_refl [simp]: "pinned_kept b b"
  by (simp add: pinned_kept_def)

lemma pins_other [simp]: "pins (b\<lparr>replacer := r\<rparr>) = pins b" "pins (b\<lparr>free_list := fs\<rparr>) = pins b"
  "pins (b\<lparr>disk_manager := d\<rparr>) = pins b"
  by (simp_all add: pins_def)

lemma pinned_kept_other [simp]:
  "pinned_kept b (b'\<lparr>replacer := r\<rparr>) = pinned_kept b b'" "pinned_kept b (b'\<lparr>free_list := fs\<rparr>) = pinned_kept b b'"
  "pinned_kept b (b'\<lparr>disk_manager := d\<rparr>) = pinned_kept b b'"
  "pinned_kept (b\<lparr>replacer := r\<rparr>) b' = pinned_kept b b'" "pinned_kept (b\<lparr>free_list := fs\<rparr>) b' = pinned_kept b b'"
  "pinned_kept (b\<lparr>disk_manager := d\<rparr>) b' = pinned_kept b b'"
  by (simp_all add: pinned_kept_def)

lemma EvictPage_spec:
  assumes "pool_wf b" "f \<notin> set (frames (replacer b))" "in_table b f" "pin_count (pages b ! f) = 0"
    and "EvictPage f b = (res, b')"
  shows "(res = Inr True \<and> frame_free b' f \<or> res = Inr False) \<and> pool_wf b' \<and>
    pool_view b' = pool_view b \<and> pinned_kept b b' \<and> pins b' = pins b \<and>
    page_table b' \<subseteq>\<^sub>m page_table b"
proof -
  define i where "i = page_id (pages b ! f)"
  have i: "page_table b i = Some f" using assms(3) by (simp add: in_table_def i_def)
  have f: "f < length (pages b)" using pool_wfD(4) [OF assms(1) i] by simp
  show ?thesis
  proof (cases "is_dirty (pages b ! f)")
    case False
    then have "page_data (pages b ! f) = disk_page (disk_manager b) i"
      using pool_wfD(5) [OF assms(1) i] assms(4) by simp
    then have v: "disk_page (disk_manager b) i = pool_view b i" using i by (simp add: pool_view_def)
    note u = unload_wf [OF assms(1) i assms(2) assms(4) refl, unfolded v fun_upd_triv]
    have "res = Inr True" "b' = upd_page f Reset (b\<lparr>page_table := (page_table b)(i := None)\<rparr>)"
      using assms(4,5) False by (simp_all add: EvictPage_def Let_def i_def)
    then show ?thesis using u by simp
  next
    case True
    show ?thesis
    proof (cases "WritePage i (page_data (pages b ! f)) (disk_manager b)")
      case (Inl e)
      then have "res = Inr False" "b' = b\<lparr>replacer := Unpin f (replacer b)\<rparr>"
        using True assms(4,5) by (simp_all add: EvictPage_def Let_def i_def)
      then show ?thesis using put_back_wf [OF assms(1) f assms(3,4)] by simp
    next
      case (Inr d)
      note w = disk_write_wf [OF assms(1) i Inr]
      have b': "b' = upd_page f Reset (b\<lparr>disk_manager := d, page_table := (page_table b)(i := None)\<rparr>)" "res = Inr True"
        using True Inr assms(4,5) by (simp_all add: EvictPage_def Let_def i_def)
      have v: "(pool_view (b\<lparr>disk_manager := d\<rparr>))(i := disk_page d i) = pool_view (b\<lparr>disk_manager := d\<rparr>)"
        using w(3) i by (intro fun_upd_idem) (simp add: pool_view_def)
      have "pool_wf b' \<and> pool_view b' = pool_view (b\<lparr>disk_manager := d\<rparr>) \<and> frame_free b' f \<and>
          pinned_kept (b\<lparr>disk_manager := d\<rparr>) b' \<and> pins b' = pins (b\<lparr>disk_manager := d\<rparr>) \<and>
          page_table b' \<subseteq>\<^sub>m page_table b"
        using unload_wf [OF w(1), of i f b'] i assms(2,4) v by (simp add: b'(1))
      then show ?thesis using w(2) b'(2) by simp
    qed
  qed
qed

lemma FindFreeFrame_spec:
  assumes "pool_wf b" "FindFreeFrame b = (res, b')"
  shows "(res = Inr None \<or> (\<exists>f. res = Inr (Some f) \<and> frame_free b' f)) \<and> pool_wf b' \<and>
    pool_view b' = pool_view b \<and> pinned_kept b b' \<and> pins b' = pins b \<and>
    page_table b' \<subseteq>\<^sub>m page_table b"
proof (cases "free_list b")
  case (Cons f fs)
  then have f: "f < length (pages b)" "\<not> in_table b f" "f \<notin> set fs" "pin_count (pages b ! f) = 0"
    using pool_wfD(2,7) [OF assms(1)] by auto
  then have "f \<notin> set (frames (replacer b))" using pool_wfD(6) [OF assms(1)] by blast
  moreover have "pool_wf (b\<lparr>free_list := fs\<rparr>)"
    using assms(1) Cons unfolding pool_wf_def in_table_def by auto
  ultimately show ?thesis
    using assms(2) f by (auto simp: FindFreeFrame_def Cons frame_free_def in_table_def)
next
  case Nil
  show ?thesis
  proof (cases "Victim (replacer b)")
    case (Pair v r)
    show ?thesis
    proof (cases v)
      case None
      then show ?thesis using assms Nil Pair by (simp add: FindFreeFrame_def)
    next
      case (Some f)
      note v = drop_victim_wf [OF assms(1) Pair [unfolded Some]]
      obtain ok b1 where e: "EvictPage f (b\<lparr>replacer := r\<rparr>) = (ok, b1)"
        by (cases "EvictPage f (b\<lparr>replacer := r\<rparr>)")
      have "(ok = Inr True \<and> frame_free b1 f \<or> ok = Inr False) \<and> pool_wf b1 \<and>
          pool_view b1 = pool_view (b\<lparr>replacer := r\<rparr>) \<and> pinned_kept (b\<lparr>replacer := r\<rparr>) b1 \<and>
          pins b1 = pins (b\<lparr>replacer := r\<rparr>) \<and> page_table b1 \<subseteq>\<^sub>m page_table b"
        using EvictPage_spec [OF v(1) _ _ _ e] v by (simp add: in_table_def)
      then show ?thesis
        using assms(2) Nil Pair Some e by (cases ok) (auto simp: FindFreeFrame_def simp del: subset_iff split: if_splits)
    qed
  qed
qed

lemma install_spec:
  assumes "pool_wf b" "frame_free b f" "page_table b (page_id p) = None" "pin_count p \<noteq> 0"
    and "length (page_data p) = PAGE_SIZE"
  shows "pins (install f p b) = (pins b)[f := pin_count p]" "pool_wf (install f p b)" "pool_view (install f p b) = (pool_view b)(page_id p := page_data p)"
    "pinned_kept b (install f p b)"
proof -
  note w = pool_wfD [OF assms(1)]
  have f: "f < length (pages b)" "\<not> in_table b f" "f \<notin> set (free_list b)" "f \<notin> set (frames (replacer b))"
    using assms(2) by (simp_all add: frame_free_def)
  have no: "page_table b j \<noteq> Some f" for j using f(2) in_table_iff [OF assms(1)] by blast
  note pin = Pin_spec [OF w(1), of f]
  have fr: "set (frames (Pin f (replacer b))) = set (frames (replacer b))"
    using f(4) by (simp add: pin(2) remove1_idem)
  let ?b = "install f p b"
  have t: "in_table ?b g \<longleftrightarrow> (if g = f then True else in_table b g)" if "g < length (pages b)" for g
    using f that no assms(3) by (auto simp: in_table_def install_def nth_list_update)
  show "pins ?b = (pins b)[f := pin_count p]" by (simp add: pins_def install_def map_update)
  show "pool_wf ?b"
    unfolding pool_wf_def
  proof (intro conjI ballI allI impI)
    show "disk_ok (disk_manager ?b)" "lru_wf (replacer ?b)" "distinct (free_list ?b)" using w pin by (simp_all add: install_def)
    show "length (page_data q) = PAGE_SIZE" if "q \<in> set (pages ?b)" for q
      using that w(3) assms(5) by (auto simp: install_def dest!: set_updateD)
    show "g < length (pages ?b)" "page_id (pages ?b ! g) = j" if "page_table ?b j = Some g" for j g
      using that w(4) no f(1) by (auto simp: install_def nth_list_update split: if_splits)
    show "page_data (pages ?b ! g) = disk_page (disk_manager ?b) j"
      if "page_table ?b j = Some g" "\<not> is_dirty (pages ?b ! g)" "pin_count (pages ?b ! g) = 0" for j g
    proof -
      have g: "g \<noteq> f" using that(3) f(1) assms(4) by (auto simp: install_def)
      then have "page_table b j = Some g" using that(1) by (auto simp: install_def split: if_splits)
      then show ?thesis using w(5) [of j g] that(2,3) g by (simp add: install_def)
    qed
    fix g assume "g \<in> set (frames (replacer ?b))"
    then have g: "g \<noteq> f" "g < length (pages b)" "in_table b g" "pin_count (pages b ! g) = 0"
      using w(6) fr f(4) by (auto simp: install_def)
    then show "g < length (pages ?b)" "in_table ?b g" "pin_count (pages ?b ! g) = 0"
      using t by (simp_all add: install_def)
  next
    fix g assume "g \<in> set (free_list ?b)"
    then have g: "g \<in> set (free_list b)" "g \<noteq> f" using f(3) by (auto simp: install_def)
    then show "g < length (pages ?b)" "\<not> in_table ?b g" "pin_count (pages ?b ! g) = 0"
      using w(7) [OF g(1)] t by (simp_all add: install_def)
  qed
  show "pool_view ?b = (pool_view b)(page_id p := page_data p)"
    using f(1) no by (auto simp: pool_view_def install_def fun_eq_iff nth_list_update split: option.splits)
  show "pinned_kept b ?b"
    unfolding pinned_kept_def
  proof (intro conjI allI impI)
    show "length (pages ?b) = length (pages b)" by (simp add: install_def)
    fix i g assume g: "page_table b i = Some g"
    then have "g \<noteq> f" "i \<noteq> page_id p" using no assms(3) by auto
    then show "page_table ?b i = Some g" "pages ?b ! g = pages b ! g" using g by (simp_all add: install_def)
  qed
qed

lemma install_table: "page_table (install f p b) (page_id p) = Some f"
  "f < length (pages b) \<Longrightarrow> pages (install f p b) ! f = p" "disk_manager (install f p b) = disk_manager b"
  by (simp_all add: install_def)

lemma nth_pins: "f < length (pages b) \<Longrightarrow> pins b ! f = pin_count (pages b ! f)"
  by (simp add: pins_def)

text \<open>Changing one frame that stays where it is.\<close>

lemma upd_page_wf:
  assumes "pool_wf b" "page_table b i = Some f" "length (page_data p) = PAGE_SIZE" "page_id p = i"
    and "pin_count p = 0 \<Longrightarrow> is_dirty p \<or> page_data p = disk_page (disk_manager b) i"
    and "lru_wf r" "set (frames r) \<subseteq> set (frames (replacer b)) \<union> {f}" "f \<in> set (frames r) \<Longrightarrow> pin_count p = 0"
    and "b' = b\<lparr>pages := (pages b)[f := p], replacer := r\<rparr>"
  shows "pool_wf b'" "pool_view b' = (pool_view b)(i := page_data p)" "pins b' = (pins b)[f := pin_count p]"
proof -
  note w = pool_wfD [OF assms(1)]
  have f: "f < length (pages b)" "page_id (pages b ! f) = i" using w(4) [OF assms(2)] by simp_all
  have n: "length (pages b') = length (pages b)" "page_table b' = page_table b" "replacer b' = r"
    "free_list b' = free_list b" "disk_manager b' = disk_manager b" "pages b' ! f = p"
    and same: "\<And>g. g \<noteq> f \<Longrightarrow> pages b' ! g = pages b ! g" and ps: "pages b' = (pages b)[f := p]"
    using f by (simp_all add: assms(9))
  have other: "page_table b j = Some f \<Longrightarrow> j = i" for j using table_inj [OF assms(1) assms(2), of j] by simp
  have ids: "page_id (pages b' ! g) = page_id (pages b ! g)" for g
    using f(2) assms(4) n(6) same [of g] by (cases "g = f") simp_all
  have t: "in_table b' g = in_table b g" for g by (simp add: in_table_def n(2) ids)
  have fin: "in_table b f" using f assms(2) by (simp add: in_table_def)
  show "pool_wf b'"
    unfolding pool_wf_def n(2-5) t ids n(1)
  proof (intro conjI ballI allI impI)
    show "disk_ok (disk_manager b)" "lru_wf r" "distinct (free_list b)" using w(2,8) assms(6) by simp_all
    show "length (page_data q) = PAGE_SIZE" if "q \<in> set (pages b')" for q
      using that w(3) assms(3) unfolding ps by (auto dest!: set_updateD)
    show "g < length (pages b)" "page_id (pages b ! g) = j" if "page_table b j = Some g" for j g
      using w(4) [OF that] by simp_all
    show "page_data (pages b' ! g) = disk_page (disk_manager b) j"
      if "page_table b j = Some g" "\<not> is_dirty (pages b' ! g)" "pin_count (pages b' ! g) = 0" for j g
    proof (cases "g = f")
      case True
      then show ?thesis using that assms(5) other [of j] n(6) by simp
    next
      case False
      then show ?thesis using w(5) [OF that(1)] that(2,3) by (simp add: same)
    qed
    fix g assume g: "g \<in> set (frames r)"
    show "g < length (pages b)" "in_table b g" "pin_count (pages b' ! g) = 0"
    proof -
      have "g = f \<or> g \<noteq> f \<and> g \<in> set (frames (replacer b))" using g assms(7) by blast
      then show "g < length (pages b)" "in_table b g" "pin_count (pages b' ! g) = 0"
        using w(6) [of g] f(1) fin g assms(8) n(6) same [of g] by auto
    qed
  next
    fix g assume g: "g \<in> set (free_list b)"
    then have "g \<noteq> f" using w(7) fin by blast
    then show "g < length (pages b)" "\<not> in_table b g" "pin_count (pages b' ! g) = 0"
      using w(7) [OF g] by (simp_all add: same)
  qed
  show "pool_view b' = (pool_view b)(i := page_data p)"
  proof
    fix j
    have "page_table b j \<noteq> Some f" if "j \<noteq> i" using other [of j] that by blast
    then show "pool_view b' j = ((pool_view b)(i := page_data p)) j"
      using assms(2) n(6) by (cases "j = i") (auto simp: pool_view_def n(2,5) same split: option.split)
  qed
  show "pins b' = (pins b)[f := pin_count p]" by (simp add: pins_def ps map_update)
qed

section \<open>The operations\<close>

lemma give_back_wf:
  assumes "pool_wf b" "frame_free b f"
  shows "pool_wf (b\<lparr>free_list := f # free_list b\<rparr>)"
proof -
  have "in_table (b\<lparr>free_list := f # free_list b\<rparr>) = in_table b" by (simp add: in_table_def fun_eq_iff)
  then show ?thesis using assms by (simp add: pool_wf_def frame_free_def)
qed

lemma word_succ_0: "x + 1 = (0 :: u32) \<longleftrightarrow> x = - 1"
  by (metis eq_neg_iff_add_eq_0)

lemma FetchPage_spec:
  assumes "pool_wf b" "- 1 \<notin> set (pins b)" "FetchPage i b = (res, b')"
  shows "pool_wf b' \<and> pool_view b' = pool_view b \<and> holds_on b b' \<and>
    (case res of
       Inr (Some f) \<Rightarrow> page_table b' i = Some f \<and> page_table b' \<subseteq>\<^sub>m (page_table b)(i \<mapsto> f) \<and>
         f < length (pages b') \<and> pins b ! f \<noteq> - 1 \<and>
         pins b' = (pins b)[f := pins b ! f + 1] \<and> pin_count (pages b' ! f) = pins b ! f + 1 \<and>
         (case page_table b i of None \<Rightarrow> pins b ! f = 0 | Some g \<Rightarrow> g = f) \<and>
         (pins b ! f = 0 \<longrightarrow> is_dirty (pages b' ! f) \<or> page_data (pages b' ! f) = disk_page (disk_manager b') i)
     | _ \<Rightarrow> pins b' = pins b \<and> pinned_kept b b')"
proof (cases "page_table b i")
  case (Some f)
  note w = pool_wfD [OF assms(1)]
  have f: "f < length (pages b)" "page_id (pages b ! f) = i" using w(4) [OF Some] by simp_all
  let ?p = "(pages b ! f)\<lparr>pin_count := pin_count (pages b ! f) + 1\<rparr>"
  have pin: "pins b ! f \<noteq> - 1" using assms(2) nth_mem [of f "pins b"] f(1) by (metis pins_def length_map)
  have pf: "pins b ! f = pin_count (pages b ! f)" by (rule nth_pins [OF f(1)])
  have b': "res = Inr (Some f)" "b' = b\<lparr>pages := (pages b)[f := ?p], replacer := Pin f (replacer b)\<rparr>"
    using assms(3) Some by (simp_all add: FetchPage_def)
  have len: "length (page_data (pages b ! f)) = PAGE_SIZE" using w(3) f(1) by simp
  have sub: "set (frames (Pin f (replacer b))) \<subseteq> set (frames (replacer b)) \<union> {f}" "f \<notin> set (frames (Pin f (replacer b)))"
    using Pin_spec [OF w(1), of f] frames_distinct [OF w(1)] by (auto simp: set_remove1_eq)
  have l: "length (page_data ?p) = PAGE_SIZE" "page_id ?p = i"
    "pin_count ?p = 0 \<Longrightarrow> is_dirty ?p \<or> page_data ?p = disk_page (disk_manager b) i"
    "f \<in> set (frames (Pin f (replacer b))) \<Longrightarrow> pin_count ?p = 0"
    using len f pin pf sub(2) by (simp_all add: word_succ_0)
  note u = upd_page_wf [OF assms(1) Some l(1-3) Pin_spec(1) [OF w(1)] sub(1) l(4) b'(2)]
  have "pool_view b i = page_data ?p" using Some by (simp add: pool_view_def)
  then have "pool_view b' = pool_view b" using u(2) by (simp add: fun_upd_idem)
  moreover have "pages b' ! f = ?p" "length (pages b') = length (pages b)" "page_table b' i = Some f"
    "page_table b' \<subseteq>\<^sub>m (page_table b)(i \<mapsto> f)" "disk_manager b' = disk_manager b"
    using f Some by (simp_all add: b'(2) fun_upd_idem)
  moreover have "pin_count (pages b ! f) = 0 \<longrightarrow> is_dirty (pages b ! f) \<or> page_data (pages b ! f) = disk_page (disk_manager b) i"
    using w(5) [OF Some] by blast
  moreover have "holds_on b b'"
    unfolding holds_on_def
  proof (intro allI impI)
    fix j g assume g: "page_table b j = Some g" "pin_count (pages b ! g) \<noteq> 0"
    show "page_table b' j = Some g \<and> pin_count (pages b' ! g) \<noteq> 0 \<and> page_data (pages b' ! g) = page_data (pages b ! g)"
      using g f(1) pin pf by (cases "g = f") (simp_all add: b'(2) word_succ_0)
  qed
  ultimately show ?thesis using u(1,3) f(1) pin pf Some by (simp add: b'(1))
next
  case None
  obtain r b1 where ff: "FindFreeFrame b = (r, b1)" by (cases "FindFreeFrame b")
  note s = FindFreeFrame_spec [OF assms(1) ff]
  show ?thesis
  proof (cases "r = Inr None")
    case True
    then have "res = Inr None" "b' = b1" using assms(3) None ff by (simp_all add: FetchPage_def)
    then show ?thesis using s pinned_kept_holds_on by simp
  next
    case False
    then obtain f where r: "r = Inr (Some f)" "frame_free b1 f" using s by blast
    have i': "page_table b1 \<subseteq>\<^sub>m page_table b" using s by simp
    note i = map_le_None [OF i' None] i'
    have b1: "pool_wf b1" "pool_view b1 = pool_view b" "pins b1 = pins b" "pinned_kept b b1" using s by simp_all
    have f: "f < length (pages b1)" "pins b ! f = 0" using r(2) b1(3) by (simp_all add: frame_free_def nth_pins flip: b1(3))
    show ?thesis
    proof (cases "is_open (disk_manager b1)")
      case False
      then have b': "res = Inl RuntimeError" "b' = b1\<lparr>free_list := f # free_list b1\<rparr>"
        using assms(3) None ff r(1) ReadPage_page [OF pool_wfD(8) [OF b1(1)], of i] by (simp_all add: FetchPage_def)
      then show ?thesis using give_back_wf [OF b1(1) r(2)] b1 pinned_kept_holds_on [of b b'] by simp
    next
      case True
      define bytes where "bytes = disk_page (disk_manager b1) i"
      let ?p = "\<lparr>page_id = i, pin_count = 1, is_dirty = False, page_data = bytes\<rparr>"
      have b': "res = Inr (Some f)" "b' = install f ?p b1"
        using assms(3) None ff r(1) True ReadPage_page [OF pool_wfD(8) [OF b1(1)], of i]
        by (simp_all add: FetchPage_def bytes_def)
      have n: "page_table b1 (page_id ?p) = None" "pin_count ?p \<noteq> 0" "length (page_data ?p) = PAGE_SIZE"
        using i(1) by (simp_all add: bytes_def)
      note u = install_spec [OF b1(1) r(2) n, folded b'(2)]
      have "pool_view b1 i = bytes" using i(1) by (simp add: pool_view_def bytes_def)
      then have "pool_view b' = pool_view b" using u(3) b1(2) by (simp add: fun_upd_idem)
      moreover have "page_table b' i = Some f" "pages b' ! f = ?p" "disk_manager b' = disk_manager b1"
        "length (pages b') = length (pages b1)" "page_table b' \<subseteq>\<^sub>m (page_table b)(i \<mapsto> f)"
        using f(1) i(2) by (simp_all add: b'(2) install_def map_le_upd)
      moreover have "holds_on b b'"
        using pinned_kept_trans [OF b1(4) u(4)] pinned_kept_holds_on by blast
      ultimately show ?thesis using u(1,2) f b1(3) None by (simp add: b'(1) bytes_def)
    qed
  qed
qed

text \<open>Who releases the last pin says whether the page was written to.\<close>

lemma UnpinPage_spec:
  assumes "pool_wf b" "UnpinPage i dirty b = (ok, b')"
    and "\<And>f. page_table b i = Some f \<Longrightarrow> pin_count (pages b ! f) = 1 \<Longrightarrow>
      dirty \<or> is_dirty (pages b ! f) \<or> page_data (pages b ! f) = disk_page (disk_manager b) i"
  shows "pool_wf b' \<and> pool_view b' = pool_view b \<and>
    (if ok then \<exists>f. page_table b i = Some f \<and> pins b' = (pins b)[f := pins b ! f - 1] \<and> pins b ! f \<noteq> 0
     else b' = b \<and> (\<forall>f. page_table b i = Some f \<longrightarrow> pins b ! f = 0))"
proof (cases "page_table b i")
  case None
  then show ?thesis using assms by (simp add: UnpinPage_def)
next
  case (Some f)
  note w = pool_wfD [OF assms(1)]
  have f: "f < length (pages b)" "page_id (pages b ! f) = i" using w(4) [OF Some] by simp_all
  have pf: "pins b ! f = pin_count (pages b ! f)" by (rule nth_pins [OF f(1)])
  show ?thesis
  proof (cases "pin_count (pages b ! f) = 0")
    case True
    then show ?thesis using assms(1,2) Some pf by (simp add: UnpinPage_def)
  next
    case False
    let ?p = "(pages b ! f)\<lparr>pin_count := pin_count (pages b ! f) - 1, is_dirty := is_dirty (pages b ! f) \<or> dirty\<rparr>"
    define r where "r = (if pin_count (pages b ! f) = 1 then Unpin f (replacer b) else replacer b)"
    have b': "ok" "b' = b\<lparr>pages := (pages b)[f := ?p], replacer := r\<rparr>"
      using assms(2) Some False f(1) by (auto simp: UnpinPage_def Let_def r_def)
    have len: "length (page_data (pages b ! f)) = PAGE_SIZE" using w(3) f(1) by simp
    have rep: "lru_wf r" "set (frames r) \<subseteq> set (frames (replacer b)) \<union> {f}"
      using Unpin_spec [OF w(1), of f] w(1) by (auto simp: r_def)
    have out: "f \<notin> set (frames (replacer b))" using w(6) [of f] False by blast
    have z: "pin_count ?p = 0 \<longleftrightarrow> pin_count (pages b ! f) = 1" by simp
    have clean: "pin_count ?p = 0 \<Longrightarrow> is_dirty ?p \<or> page_data ?p = disk_page (disk_manager b) i"
      using assms(3) [OF Some] z by auto
    have rin: "f \<in> set (frames r) \<Longrightarrow> pin_count ?p = 0" using out z by (auto simp: r_def split: if_splits)
    have l: "length (page_data ?p) = PAGE_SIZE" "page_id ?p = i" using len f by simp_all
    note u = upd_page_wf [OF assms(1) Some l clean rep rin b'(2)]
    have "pool_view b i = page_data ?p" using Some by (simp add: pool_view_def)
    then have "pool_view b' = pool_view b" using u(2) by (simp add: fun_upd_idem)
    then show ?thesis using u(1,3) b'(1) Some pf False by simp
  qed
qed

text \<open>Numbering pages does not touch the file.\<close>

lemma next_id_wf:
  assumes "pool_wf b"
  shows "pool_wf (b\<lparr>disk_manager := (disk_manager b)\<lparr>next_page_id := n\<rparr>\<rparr>)"
    "pool_view (b\<lparr>disk_manager := (disk_manager b)\<lparr>next_page_id := n\<rparr>\<rparr>) = pool_view b"
proof -
  have d: "disk_page (d\<lparr>next_page_id := n\<rparr>) = disk_page d" "disk_ok (d\<lparr>next_page_id := n\<rparr>) = disk_ok d" for d
    by (simp_all add: disk_page_def disk_ok_def fun_eq_iff)
  show "pool_wf (b\<lparr>disk_manager := (disk_manager b)\<lparr>next_page_id := n\<rparr>\<rparr>)"
    using assms by (simp add: pool_wf_def in_table_def d)
  show "pool_view (b\<lparr>disk_manager := (disk_manager b)\<lparr>next_page_id := n\<rparr>\<rparr>) = pool_view b"
    by (rule ext) (simp add: pool_view_def d split: option.split)
qed

lemma FindFreeFrame_next_id:
  "FindFreeFrame b = (r, b') \<Longrightarrow> next_page_id (disk_manager b') = next_page_id (disk_manager b) \<and>
     is_open (disk_manager b') = is_open (disk_manager b)"
  by (auto simp: FindFreeFrame_def EvictPage_def WritePage_def Let_def split: list.splits option.splits prod.splits
      sum.splits if_splits)

lemma NewPage_spec:
  assumes "pool_wf b" "page_table b (next_page_id (disk_manager b)) = None" "NewPage b = (res, b')"
  shows "pool_wf b' \<and> pinned_kept b b' \<and>
    (case res of
       Inr (Some (i, f)) \<Rightarrow> page_table b' i = Some f \<and> page_table b' \<subseteq>\<^sub>m (page_table b)(i \<mapsto> f) \<and> pool_view b' = (pool_view b)(i := zero_page) \<and>
         i = next_page_id (disk_manager b) \<and> next_page_id (disk_manager b') = i + 1 \<and>
         pins b' = (pins b)[f := 1] \<and> pins b ! f = 0 \<and> f < length (pages b') \<and> is_dirty (pages b' ! f)
     | _ \<Rightarrow> pool_view b' = pool_view b \<and> pins b' = pins b)"
proof -
  obtain r b1 where ff: "FindFreeFrame b = (r, b1)" by (cases "FindFreeFrame b")
  note s = FindFreeFrame_spec [OF assms(1) ff]
  show ?thesis
  proof (cases "r = Inr None")
    case True
    then have "res = Inr None" "b' = b1" using assms(3) ff by (simp_all add: NewPage_def)
    then show ?thesis using s by simp
  next
    case False
    then obtain f where r: "r = Inr (Some f)" "frame_free b1 f" using s by blast
    let ?i = "next_page_id (disk_manager b)"
    have i: "page_table b1 ?i = None" "next_page_id (disk_manager b1) = ?i"
      using s map_le_None [of "page_table b1" "page_table b", OF _ assms(2)] FindFreeFrame_next_id [OF ff] by auto
    have f: "f < length (pages b1)" "pins b ! f = 0"
      using r(2) s nth_pins [of f b1] by (simp_all add: frame_free_def)
    define b2 where "b2 = b1\<lparr>disk_manager := (disk_manager b1)\<lparr>next_page_id := ?i + 1\<rparr>\<rparr>"
    define p where "p = \<lparr>page_id = ?i, pin_count = 1, is_dirty = True, page_data = zero_page\<rparr>"
    have b2: "pool_wf b2" "pool_view b2 = pool_view b1" using next_id_wf [of b1 "?i + 1"] s by (simp_all add: b2_def)
    have fr: "frame_free b2 f" using r(2) by (simp add: b2_def frame_free_def in_table_def)
    have p: "(Reset q)\<lparr>page_id := ?i, pin_count := 1, is_dirty := True\<rparr> = p" for q
      by (cases q) (simp add: Reset_def p_def)
    have b': "res = Inr (Some (?i, f))" "b' = install f p b2"
      using assms(3) ff r(1) by (simp_all add: NewPage_def AllocatePage_def i(2) Let_def b2_def p)
    have n: "page_table b2 (page_id p) = None" "pin_count p \<noteq> 0" "length (page_data p) = PAGE_SIZE"
      using i by (simp_all add: p_def b2_def)
    note u = install_spec [OF b2(1) fr n, folded b'(2)]
    have "pages b' ! f = p" "length (pages b') = length (pages b1)" "page_table b' ?i = Some f"
      "page_table b' \<subseteq>\<^sub>m (page_table b)(?i \<mapsto> f)"
      "next_page_id (disk_manager b') = ?i + 1"
      using f(1) s by (simp_all add: b'(2) install_def b2_def p_def map_le_upd)
    moreover have "pinned_kept b b'" using u(4) s pinned_kept_trans [of b b1 b'] by (simp add: b2_def)
    ultimately show ?thesis using u(1-3) f s b2(2) by (simp add: b'(1) p_def b2_def)
  qed
qed

lemma WritePage_ok:
  assumes "disk_ok d" "is_open d"
  obtains d' where "WritePage i bs d = Inr d'"
  using assms by (auto simp: WritePage_def Let_def disk_ok_def)

lemma write_absent_wf:
  assumes "pool_wf b" "page_table b i = None" "length bs = PAGE_SIZE" "WritePage i bs (disk_manager b) = Inr d"
  shows "pool_wf (b\<lparr>disk_manager := d\<rparr>)" "pool_view (b\<lparr>disk_manager := d\<rparr>) = (pool_view b)(i := bs)"
proof -
  note w = pool_wfD [OF assms(1)] and p = WritePage_page [OF assms(3,4)]
  have "page_data (pages b ! g) = disk_page d j"
    if "page_table b j = Some g" "\<not> is_dirty (pages b ! g)" "pin_count (pages b ! g) = 0" for j g
    using w(5) [OF that] assms(2) that(1) by (cases "j = i") (simp_all add: p(1))
  then show "pool_wf (b\<lparr>disk_manager := d\<rparr>)"
    using assms(1) p(4) unfolding pool_wf_def in_table_def by simp
  show "pool_view (b\<lparr>disk_manager := d\<rparr>) = (pool_view b)(i := bs)"
    using assms(2) by (intro ext) (simp add: pool_view_def p(1) split: option.split)
qed

lemma pin_wf: "pool_wf b \<Longrightarrow> pool_wf (b\<lparr>replacer := Pin f (replacer b)\<rparr>)"
  using Pin_spec [of "replacer b" f] notin_set_remove1 [of _ "frames (replacer b)" f]
  by (auto simp: pool_wf_def in_table_def)

lemma DeletePage_spec:
  assumes "pool_wf b" "is_open (disk_manager b)" "DeletePage i b = (res, b')"
  shows "pool_wf b' \<and> pins b' = pins b \<and> pinned_kept b b' \<and>
    (if \<exists>f. page_table b i = Some f \<and> pins b ! f \<noteq> 0 then res = Inr False \<and> b' = b
     else res = Inr True \<and> pool_view b' = (pool_view b)(i := zero_page) \<and> page_table b' = (page_table b)(i := None))"
proof (cases "page_table b i")
  case None
  obtain d where d: "WritePage i zero_page (disk_manager b) = Inr d"
    using WritePage_ok [OF pool_wfD(8) [OF assms(1)] assms(2)] by blast
  then have "res = Inr True" "b' = b\<lparr>disk_manager := d\<rparr>"
    using assms(3) None by (simp_all add: DeletePage_def DeallocatePage_def)
  then show ?thesis using write_absent_wf [OF assms(1) None length_zero_page d] None by (simp add: fun_upd_idem)
next
  case (Some f)
  have f: "f < length (pages b)" using pool_wfD(4) [OF assms(1) Some] by simp
  note pf = nth_pins [OF f]
  show ?thesis
  proof (cases "pin_count (pages b ! f) = 0")
    case False
    then show ?thesis using assms Some pf by (simp add: DeletePage_def)
  next
    case True
    define b1 where "b1 = b\<lparr>replacer := Pin f (replacer b)\<rparr>"
    define b2 where "b2 = upd_page f Reset (b1\<lparr>page_table := (page_table b1)(i := None)\<rparr>)"
    define b3 where "b3 = b2\<lparr>free_list := f # free_list b2\<rparr>"
    have "f \<notin> set (frames (replacer b1))"
      using Pin_spec(2) [OF pool_wfD(1) [OF assms(1)], of f] frames_distinct [OF pool_wfD(1) [OF assms(1)]]
      by (simp add: b1_def)
    then have u: "pool_wf b2" "pool_view b2 = (pool_view b1)(i := disk_page (disk_manager b1) i)" "frame_free b2 f"
      "pinned_kept b1 b2" "pins b2 = pins b1"
      using unload_wf [OF pin_wf [OF assms(1), of f, folded b1_def], of i f b2] Some True
      by (simp_all add: b2_def b1_def)
    have b3: "pool_wf b3" "page_table b3 = (page_table b)(i := None)" "disk_manager b3 = disk_manager b"
      "pinned_kept b b3" "pins b3 = pins b"
      using give_back_wf [OF u(1,3)] u(4,5) by (simp_all add: b3_def b2_def b1_def)
    have v3: "pool_view b3 = (pool_view b)(i := disk_page (disk_manager b) i)" using u(2) by (simp add: b3_def b1_def)
    obtain d where d: "WritePage i zero_page (disk_manager b3) = Inr d"
      using WritePage_ok [of "disk_manager b3"] pool_wfD(8) [OF assms(1)] assms(2) b3(3) by metis
    have "res = Inr True" "b' = b3\<lparr>disk_manager := d\<rparr>"
      using assms(3) Some True d b3(3)
      by (auto simp: DeletePage_def DeallocatePage_def Let_def b3_def b2_def b1_def intro: BufferPoolManager.equality)
    then show ?thesis
      using write_absent_wf [OF b3(1) _ length_zero_page d] b3 v3 Some True pf by simp
  qed
qed

lemma FlushPage_spec:
  assumes "pool_wf b" "FlushPage i b = (ok, b')"
  shows "pool_wf b' \<and> pool_view b' = pool_view b \<and> pins b' = pins b \<and> page_table b' = page_table b \<and>
    map page_data (pages b') = map page_data (pages b) \<and>
    (ok \<longrightarrow> (\<exists>f. page_table b i = Some f \<and> (pins b ! f = 0 \<longrightarrow> disk_page (disk_manager b') i = pool_view b i)))"
proof (cases "page_table b i")
  case None
  then show ?thesis using assms by (simp add: FlushPage_def)
next
  case (Some f)
  note w = pool_wfD [OF assms(1)]
  have f: "f < length (pages b)" "page_id (pages b ! f) = i" using w(4) [OF Some] by simp_all
  have v: "pool_view b i = page_data (pages b ! f)" using Some by (simp add: pool_view_def)
  show ?thesis
  proof (cases "is_dirty (pages b ! f)")
    case False
    then show ?thesis using assms Some w(5) [OF Some] v nth_pins [OF f(1)] by (simp add: FlushPage_def)
  next
    case True
    show ?thesis
    proof (cases "WritePage i (page_data (pages b ! f)) (disk_manager b)")
      case (Inl e)
      then show ?thesis using assms Some True by (simp add: FlushPage_def)
    next
      case (Inr d)
      let ?p = "(pages b ! f)\<lparr>is_dirty := False\<rparr>" and ?b = "b\<lparr>disk_manager := d\<rparr>"
      note dw = disk_write_wf [OF assms(1) Some Inr]
      have b': "ok" "b' = ?b\<lparr>pages := (pages ?b)[f := ?p], replacer := replacer b\<rparr>"
        using assms(2) Some True Inr by (auto simp: FlushPage_def)
      have s: "page_table ?b i = Some f" using Some by simp
      have l: "length (page_data ?p) = PAGE_SIZE" "page_id ?p = i"
        "pin_count ?p = 0 \<Longrightarrow> is_dirty ?p \<or> page_data ?p = disk_page (disk_manager ?b) i"
        "set (frames (replacer b)) \<subseteq> set (frames (replacer ?b)) \<union> {f}"
        "f \<in> set (frames (replacer b)) \<Longrightarrow> pin_count ?p = 0"
        using w(3,6) f dw(3) by auto
      note u = upd_page_wf [OF dw(1) s l(1-3) w(1) l(4,5) b'(2)]
      have "pool_view b' = pool_view b" using u(2) dw(2) v by (simp add: fun_upd_idem)
      moreover have "pins b' = pins b" using u(3) f(1) by (simp add: pins_def map_update [symmetric] list_update_id)
      moreover have "map page_data (pages b') = map page_data (pages b)"
        using f(1) by (simp add: b'(2) map_update list_update_same_conv)
      ultimately show ?thesis using u(1) dw(3) Some v b'(1) by (simp add: b'(2))
    qed
  qed
qed

lemma FlushAllPages_spec:
  "pool_wf b \<Longrightarrow> pool_wf (FlushAllPages order b) \<and> pool_view (FlushAllPages order b) = pool_view b \<and>
     pins (FlushAllPages order b) = pins b \<and> page_table (FlushAllPages order b) = page_table b \<and>
     map page_data (pages (FlushAllPages order b)) = map page_data (pages b)"
  unfolding FlushAllPages_def
proof (induction order arbitrary: b)
  case (Cons i order)
  have "FlushPage i b = (fst (FlushPage i b), snd (FlushPage i b))" by simp
  from FlushPage_spec [OF Cons.prems this] Cons.IH [of "snd (FlushPage i b)"] show ?case by simp
qed simp

section \<open>Clients\<close>

text \<open>
  What a client does to read or to replace a page, as the blob manager does it: fetch it, use the
  pointer, unpin it.
\<close>

definition poke :: "nat \<Rightarrow> u8 list \<Rightarrow> BufferPoolManager \<Rightarrow> BufferPoolManager" where
  "poke f bytes b = upd_page f (\<lambda>p. p\<lparr>page_data := bytes\<rparr>) b"

definition pool_get :: "u32 \<Rightarrow> BufferPoolManager \<Rightarrow> u8 list option \<times> BufferPoolManager" where
  "pool_get i b =
     (case FetchPage i b of
        (Inr (Some f), b) \<Rightarrow> (Some (page_data (pages b ! f)), snd (UnpinPage i False b))
      | (_, b) \<Rightarrow> (None, b))"

definition pool_put :: "u32 \<Rightarrow> u8 list \<Rightarrow> BufferPoolManager \<Rightarrow> bool \<times> BufferPoolManager" where
  "pool_put i bytes b =
     (case FetchPage i b of
        (Inr (Some f), b) \<Rightarrow> (True, snd (UnpinPage i True (poke f bytes b)))
      | (_, b) \<Rightarrow> (False, b))"

lemma poke_wf:
  assumes "pool_wf b" "page_table b i = Some f" "length bytes = PAGE_SIZE" "pin_count (pages b ! f) \<noteq> 0"
  shows "pool_wf (poke f bytes b)" "pool_view (poke f bytes b) = (pool_view b)(i := bytes)"
    "pins (poke f bytes b) = pins b" "page_table (poke f bytes b) = page_table b"
    "disk_manager (poke f bytes b) = disk_manager b"
proof -
  note w = pool_wfD [OF assms(1)]
  have f: "f < length (pages b)" "page_id (pages b ! f) = i" using w(4) [OF assms(2)] by simp_all
  let ?p = "(pages b ! f)\<lparr>page_data := bytes\<rparr>"
  have l: "length (page_data ?p) = PAGE_SIZE" "page_id ?p = i"
    "pin_count ?p = 0 \<Longrightarrow> is_dirty ?p \<or> page_data ?p = disk_page (disk_manager b) i"
    "set (frames (replacer b)) \<subseteq> set (frames (replacer b)) \<union> {f}"
    "f \<in> set (frames (replacer b)) \<Longrightarrow> pin_count ?p = 0"
    using assms(3,4) f w(6) by auto
  have b': "poke f bytes b = b\<lparr>pages := (pages b)[f := ?p], replacer := replacer b\<rparr>"
    by (simp add: poke_def)
  note u = upd_page_wf [OF assms(1,2) l(1-3) w(1) l(4,5) b']
  show "pool_wf (poke f bytes b)" "pool_view (poke f bytes b) = (pool_view b)(i := bytes)" using u(1,2) by simp_all
  show "pins (poke f bytes b) = pins b" using u(3) f(1) by (simp add: pins_def map_update [symmetric] list_update_id)
  show "page_table (poke f bytes b) = page_table b" "disk_manager (poke f bytes b) = disk_manager b"
    by (simp_all add: poke_def)
qed

text \<open>No page has so many holders that its counter could wrap around.\<close>

definition pool_ok :: "BufferPoolManager \<Rightarrow> bool" where
  "pool_ok b \<longleftrightarrow> pool_wf b \<and> - 1 \<notin> set (pins b)"

lemma pins_fetch_unpin: "(xs[f := xs ! f + 1])[f := xs[f := xs ! f + 1] ! f - 1] = (xs :: u32 list)"
  by (cases "f < length xs") (simp_all add: not_less list_update_beyond)

text \<open>Fetching a page and unpinning it, as dirty if it was written to, leaves all pins as they were.\<close>

lemma fetch_unpin:
  assumes "pool_ok b" "FetchPage i b = (Inr (Some f), b1)" "UnpinPage i dirty b2 = (ok, b')"
    and "pool_wf b2" "pins b2 = pins b1" "page_table b2 = page_table b1" "disk_manager b2 = disk_manager b1"
    and "dirty \<or> b2 = b1"
  shows "pool_ok b'" "pool_view b' = pool_view b2" "pins b' = pins b"
proof -
  have wf: "pool_wf b" "- 1 \<notin> set (pins b)" using assms(1) by (simp_all add: pool_ok_def)
  note F = FetchPage_spec [OF wf assms(2)]
  have f: "page_table b2 i = Some f" "f < length (pages b1)" using F assms(6) by simp_all
  have p: "pins b2 ! f = pins b ! f + 1" "pins b ! f \<noteq> - 1"
    using F nth_pins [OF f(2)] unfolding assms(5) by simp_all
  have c: "dirty \<or> is_dirty (pages b2 ! g) \<or> page_data (pages b2 ! g) = disk_page (disk_manager b2) i"
    if "page_table b2 i = Some g" "pin_count (pages b2 ! g) = 1" for g
  proof -
    have "dirty \<or> pin_count (pages b1 ! f) = 1 \<and> b2 = b1" "g = f" using that f assms(8) by auto
    then show ?thesis using F by auto
  qed
  note U = UnpinPage_spec [OF assms(4,3) c]
  have "ok" using U f p by (auto simp: word_succ_0 split: if_splits)
  then have "pins b' = (pins b2)[f := pins b2 ! f - 1]" using U f by auto
  then show "pins b' = pins b" using F pins_fetch_unpin [of "pins b" f] by (simp add: assms(5))
  then show "pool_ok b'" "pool_view b' = pool_view b2" using U wf by (simp_all add: pool_ok_def)
qed

interpretation pool: page_store pool_ok pool_view pool_get pool_put
proof unfold_locales
  fix i s r s' assume a: "pool_ok s" "pool_get i s = (r, s')"
  have wf: "pool_wf s" "- 1 \<notin> set (pins s)" using a(1) by (simp_all add: pool_ok_def)
  obtain res s1 where f: "FetchPage i s = (res, s1)" by (cases "FetchPage i s")
  note F = FetchPage_spec [OF wf f]
  show "pool_ok s' \<and> pool_view s' = pool_view s \<and> (\<forall>d. r = Some d \<longrightarrow> d = pool_view s i)"
  proof (cases "\<exists>f. res = Inr (Some f)")
    case True
    then obtain g where g: "res = Inr (Some g)" by blast
    obtain ok where u: "UnpinPage i False s1 = (ok, s')" "r = Some (page_data (pages s1 ! g))"
      using a(2) f g by (cases "UnpinPage i False s1") (auto simp: pool_get_def)
    have "pool_wf s1" "pool_view s1 = pool_view s" "page_table s1 i = Some g" using F g by simp_all
    moreover from this have "page_data (pages s1 ! g) = pool_view s i" by (simp add: pool_view_def flip: \<open>pool_view s1 = pool_view s\<close>)
    ultimately show ?thesis using fetch_unpin [OF a(1) f [unfolded g] u(1)] u(2) by simp
  next
    case False
    then have "s' = s1" "r = None" using a(2) f by (auto simp: pool_get_def split: sum.splits option.splits)
    then show ?thesis using F False wf by (cases res) (auto simp: pool_ok_def split: option.splits)
  qed
next
  fix i s d ok s' assume a: "pool_ok s" "length d = PAGE_SIZE" "pool_put i d s = (ok, s')"
  have wf: "pool_wf s" "- 1 \<notin> set (pins s)" using a(1) by (simp_all add: pool_ok_def)
  obtain res s1 where f: "FetchPage i s = (res, s1)" by (cases "FetchPage i s")
  note F = FetchPage_spec [OF wf f]
  show "pool_ok s' \<and> pool_view s' = (if ok then (pool_view s)(i := d) else pool_view s)"
  proof (cases "\<exists>f. res = Inr (Some f)")
    case True
    then obtain g where g: "res = Inr (Some g)" by blast
    obtain ok' where u: "UnpinPage i True (poke g d s1) = (ok', s')" "ok"
      using a(3) f g by (cases "UnpinPage i True (poke g d s1)") (auto simp: pool_put_def)
    have s1: "pool_wf s1" "page_table s1 i = Some g" "pin_count (pages s1 ! g) \<noteq> 0"
      using F g by (auto simp: word_succ_0)
    note p = poke_wf [OF s1(1,2) a(2) s1(3)]
    show ?thesis using fetch_unpin [OF a(1) f [unfolded g] u(1) p(1,3,4,5)] u(2) p(2) F by simp
  next
    case False
    then have "s' = s1" "\<not> ok" using a(3) f by (auto simp: pool_put_def split: sum.splits option.splits)
    then show ?thesis using F False wf by (cases res) (auto simp: pool_ok_def split: option.splits)
  qed
qed

text \<open>
  The calls that any number of clients make, one after the other, and the writes through their
  pointers. The label is the page that the step releases or writes to. A client fetches a page only
  while the counters have room, writes only to pages it holds, and releases a page it wrote to as
  dirty.
\<close>

inductive pool_step :: "BufferPoolManager \<Rightarrow> u32 option \<Rightarrow> BufferPoolManager \<Rightarrow> bool" where
  step_fetch: "FetchPage i b = (r, b') \<Longrightarrow> - 1 \<notin> set (pins b) \<Longrightarrow> pool_step b None b'"
| step_write: "page_table b i = Some f \<Longrightarrow> pin_count (pages b ! f) \<noteq> 0 \<Longrightarrow> length bytes = PAGE_SIZE \<Longrightarrow>
    pool_step b (Some i) (poke f bytes b)"
| step_unpin: "UnpinPage i dirty b = (ok, b') \<Longrightarrow>
    (\<And>f. page_table b i = Some f \<Longrightarrow> pin_count (pages b ! f) = 1 \<Longrightarrow>
      dirty \<or> is_dirty (pages b ! f) \<or> page_data (pages b ! f) = disk_page (disk_manager b) i) \<Longrightarrow>
    pool_step b (Some i) b'"
| step_new: "NewPage b = (n, b') \<Longrightarrow> page_table b (next_page_id (disk_manager b)) = None \<Longrightarrow> pool_step b None b'"
| step_delete: "DeletePage i b = (d, b') \<Longrightarrow> is_open (disk_manager b) \<Longrightarrow> pool_step b None b'"
| step_flush: "FlushPage i b = (ok, b') \<Longrightarrow> pool_step b None b'"
| step_flush_all: "pool_step b None (FlushAllPages order b)"

inductive_cases pool_step_SomeE: "pool_step b (Some j) b'"

lemma holds_on_same_data:
  assumes "pool_wf b" "pool_wf b'" "page_table b' = page_table b" "pins b' = pins b"
    "map page_data (pages b') = map page_data (pages b)"
  shows "holds_on b b'"
  unfolding holds_on_def
proof (intro allI impI)
  fix i f assume t: "page_table b i = Some f" "pin_count (pages b ! f) \<noteq> 0"
  have f: "f < length (pages b)" "f < length (pages b')"
    using pool_wfD(4) [OF assms(1) t(1)] arg_cong [OF assms(5), of length] by simp_all
  show "page_table b' i = Some f \<and> pin_count (pages b' ! f) \<noteq> 0 \<and> page_data (pages b' ! f) = page_data (pages b ! f)"
    using t assms(3,4) f nth_pins [OF f(1)] nth_pins [OF f(2)] arg_cong [OF assms(5), of "\<lambda>xs. xs ! f"] by simp
qed

lemma pool_step_spec:
  assumes "pool_step b l b'" "pool_wf b"
  shows "pool_wf b'" "l = None \<Longrightarrow> holds_on b b'"
  using assms
proof (induction rule: pool_step.induct)
  case (step_fetch i b r b')
  { case 1 show ?case using FetchPage_spec [OF 1 step_fetch(2,1)] by blast
  next case 2 show ?case using FetchPage_spec [OF 2(2) step_fetch(2,1)] by blast }
next
  case (step_write b i f bytes)
  { case 1 show ?case by (rule poke_wf(1) [OF 1 step_write(1,3,2)])
  next case 2 then show ?case by simp }
next
  case (step_unpin i dirty b ok b')
  { case 1 show ?case using UnpinPage_spec [OF 1 step_unpin(1,2)] by blast
  next case 2 then show ?case by simp }
next
  case (step_new b n b')
  { case 1 show ?case using NewPage_spec [OF 1 step_new(2,1)] by blast
  next case 2 show ?case using NewPage_spec [OF 2(2) step_new(2,1)] pinned_kept_holds_on by blast }
next
  case (step_delete i b d b')
  { case 1 show ?case using DeletePage_spec [OF 1 step_delete(2,1)] by blast
  next case 2 show ?case using DeletePage_spec [OF 2(2) step_delete(2,1)] pinned_kept_holds_on by blast }
next
  case (step_flush i b ok b')
  { case 1 show ?case using FlushPage_spec [OF 1 step_flush] by blast
  next case 2 show ?case using FlushPage_spec [OF 2(2) step_flush] 2(2) holds_on_same_data [of b b'] by blast }
next
  case (step_flush_all b order)
  { case 1 show ?case using FlushAllPages_spec [OF 1] by blast
  next case 2 show ?case using FlushAllPages_spec [OF 2(2)] 2(2) holds_on_same_data by blast }
qed

text \<open>What other clients do to their own pages does not touch a page either.\<close>

lemma pool_step_other:
  assumes "pool_step b (Some j) b'" "pool_wf b" "j \<noteq> i" "page_table b i = Some f"
  shows "page_table b' i = Some f" "pages b' ! f = pages b ! f"
proof -
  have other: "g \<noteq> f" if "page_table b j = Some g" for g
    using that table_inj [OF assms(2) assms(4), of j] assms(3) by auto
  have "page_table b' i = Some f \<and> pages b' ! f = pages b ! f"
    using assms(1)
  proof (elim pool_step_SomeE, goal_cases)
    case (1 g bytes)
    then show ?thesis using other [of g] assms(4) by (simp add: poke_def)
  next
    case (2 dirty ok)
    then show ?thesis using other assms(4) by (auto simp: UnpinPage_def Let_def split: option.splits if_splits)
  qed
  then show "page_table b' i = Some f" "pages b' ! f = pages b ! f" by blast+
qed

abbreviation others :: "u32 \<Rightarrow> BufferPoolManager \<Rightarrow> BufferPoolManager \<Rightarrow> bool" where
  "others i \<equiv> (\<lambda>b b'. \<exists>l. pool_step b l b' \<and> l \<noteq> Some i)\<^sup>*\<^sup>*"

text \<open>
  C21. A pinned page stays where it is: while a client holds page \<open>i\<close> at frame \<open>f\<close>, whatever calls are
  made for other pages, and whatever else is fetched, created, deleted, evicted or flushed, the
  pointer the client holds keeps pointing to that page and its contents do not change; and the pool
  stays consistent.
\<close>

theorem pinned_page_stays:
  assumes "pool_wf b" "page_table b i = Some f" "pin_count (pages b ! f) \<noteq> 0" "others i b b'"
  shows "page_table b' i = Some f \<and> pin_count (pages b' ! f) \<noteq> 0 \<and>
    page_data (pages b' ! f) = page_data (pages b ! f) \<and> pool_wf b'"
  using assms(4)
proof (induction rule: rtranclp_induct)
  case (step b1 b2)
  then obtain l where l: "pool_step b1 l b2" "l \<noteq> Some i" by blast
  have b1: "pool_wf b1" "page_table b1 i = Some f" "pin_count (pages b1 ! f) \<noteq> 0" using step by simp_all
  have "page_table b2 i = Some f \<and> pin_count (pages b2 ! f) \<noteq> 0 \<and> page_data (pages b2 ! f) = page_data (pages b1 ! f)"
  proof (cases l)
    case None
    then show ?thesis using pool_step_spec(2) [OF l(1) b1(1)] b1(2,3) by (simp add: holds_on_def)
  next
    case (Some j)
    then show ?thesis using pool_step_other [OF l(1) [unfolded Some] b1(1) _ b1(2)] l(2) b1(3) by simp
  qed
  then show ?case using step pool_step_spec(1) [OF l(1) b1(1)] by simp
qed (use assms in simp)

text \<open>A pool of one frame over an empty file; its only frame holds page 0 and is pinned.\<close>

definition one_frame :: BufferPoolManager where
  "one_frame = snd (NewPage (BufferPoolManager_init 1
     \<lparr>db_file = [], is_open = True, fail_bit = False, next_page_id = 0\<rparr>))"

lemma one_frame_facts:
  "pool_wf one_frame" "page_table one_frame 0 = Some 0" "pin_count (pages one_frame ! 0) = 1"
  "FetchPage 5 one_frame = (Inr None, one_frame)" "pins one_frame = [1]"
proof -
  let ?d = "\<lparr>db_file = [], is_open = True, fail_bit = False, next_page_id = 0\<rparr>"
  have "pool_wf (BufferPoolManager_init 1 ?d)" by (rule pool_wf_init) (simp add: disk_ok_def)
  moreover have "NewPage (BufferPoolManager_init 1 ?d) = (fst (NewPage (BufferPoolManager_init 1 ?d)), one_frame)"
    by (simp add: one_frame_def)
  ultimately show "pool_wf one_frame"
    using NewPage_spec [of "BufferPoolManager_init 1 ?d"] by (auto simp: BufferPoolManager_init_def)
  show "page_table one_frame 0 = Some 0" "pin_count (pages one_frame ! 0) = 1" "pins one_frame = [1]"
    "FetchPage 5 one_frame = (Inr None, one_frame)"
    by (simp_all add: one_frame_def NewPage_def BufferPoolManager_init_def FindFreeFrame_def AllocatePage_def
        install_def Reset_def pins_def FetchPage_def Victim_def LRU_init_def Pin_def)
qed

lemma pinned_page_stays_witness:
  "\<exists>b b'. others 0 b b' \<and> page_table b' 0 = Some 0 \<and> pool_wf b'"
proof -
  have "pool_step one_frame None one_frame" by (rule step_fetch [OF one_frame_facts(4)]) (simp add: one_frame_facts)
  then have o: "others 0 one_frame one_frame" by blast
  then show ?thesis using pinned_page_stays [OF one_frame_facts(1,2) _ o] one_frame_facts(3) by auto
qed

text \<open>
  C22. Through the buffer pool the database is an array of pages, whatever the number of frames: in
  any sequence of reads and writes of whole pages every read that succeeds yields what was last
  written to the page, although pages are evicted and written back at arbitrary moments.
\<close>

theorem pool_is_array:
  assumes "pool_ok b" "\<forall>(i, w) \<in> set as. \<forall>bs. w = Some bs \<longrightarrow> length bs = PAGE_SIZE"
    and "pool.accesses as b = (rs, oks, b')"
  shows "list_all2 (\<lambda>r bs. r = None \<or> r = Some bs) rs (pool.array_reads as oks (pool_view b)) \<and> pool_ok b'"
  by (rule pool.accesses_array [OF assms])

lemma pool_is_array_witness:
  "\<exists>b oks b'. pool.accesses [(7, Some zero_page), (7, None)] b = ([Some zero_page], oks, b') \<and> pool_ok b'"
proof -
  define d where "d = \<lparr>db_file = [], is_open = True, fail_bit = False, next_page_id = 0\<rparr>"
  define b where "b = BufferPoolManager_init 1 d"
  have ok: "pool_ok b" using pool_wf_init [of d 1]
    by (simp add: pool_ok_def b_def pins_def BufferPoolManager_init_def new_page_def d_def disk_ok_def)
  obtain oks b' where a: "pool.accesses [(7, Some zero_page), (7, None)] b = ([Some zero_page], oks, b')"
    by (simp add: pool_put_def pool_get_def FetchPage_def UnpinPage_def FindFreeFrame_def ReadPage_def install_def
        poke_def b_def BufferPoolManager_init_def d_def Let_def Pin_def Unpin_def LRU_init_def)
  have "pool_ok b'" using pool_is_array [OF ok _ a] by simp
  then show ?thesis using a by blast
qed

lemma FindFreeFrame_available:
  assumes "pool_wf b" "is_open (disk_manager b)" "0 < GetFreeFrameCount b"
  obtains f b' where "FindFreeFrame b = (Inr (Some f), b')"
proof (cases "free_list b")
  case (Cons f fs)
  then show ?thesis using that by (simp add: FindFreeFrame_def)
next
  case Nil
  then have "lru_list (replacer b) \<noteq> []" using assms(3) by (auto simp: GetFreeFrameCount_def LRU_Size_def)
  then obtain f r where v: "Victim (replacer b) = (Some f, r)" by (simp add: Victim_def Let_def)
  note d = drop_victim_wf [OF assms(1) v]
  obtain d' where "is_dirty (pages b ! f) \<longrightarrow>
      WritePage (page_id (pages b ! f)) (page_data (pages b ! f)) (disk_manager b) = Inr d'"
    using WritePage_ok [OF pool_wfD(8) [OF assms(1)] assms(2)] by metis
  then have "\<exists>b'. EvictPage f (b\<lparr>replacer := r\<rparr>) = (Inr True, b')"
    using d(5) by (auto simp: EvictPage_def Let_def)
  then show ?thesis using that Nil v by (auto simp: FindFreeFrame_def)
qed

text \<open>
  The pool gives up only when it must: as long as the file is open and some frame is free or
  unpinned, \<open>FetchPage\<close> and \<open>NewPage\<close> return a page; when \<open>GetFreeFrameCount\<close> is zero they return a
  null pointer for a page that is not in the pool, and change nothing.
\<close>

theorem pool_available:
  assumes "pool_wf b" "is_open (disk_manager b)"
  shows "(0 < GetFreeFrameCount b \<longrightarrow> (\<exists>f. fst (FetchPage i b) = Inr (Some f)) \<and> (\<exists>n. fst (NewPage b) = Inr (Some n))) \<and>
    (GetFreeFrameCount b = 0 \<longrightarrow> page_table b i = None \<longrightarrow> FetchPage i b = (Inr None, b) \<and> NewPage b = (Inr None, b))"
proof (intro conjI impI)
  assume c: "0 < GetFreeFrameCount b"
  obtain f b1 where ff: "FindFreeFrame b = (Inr (Some f), b1)" by (rule FindFreeFrame_available [OF assms c])
  have "pool_wf b1" using FindFreeFrame_spec [OF assms(1) ff] by blast
  then have "fst (ReadPage i (disk_manager b1)) = Inr (disk_page (disk_manager b1) i)"
    using ReadPage_page [OF pool_wfD(8)] FindFreeFrame_next_id [OF ff] assms(2) by simp
  then show "\<exists>f. fst (FetchPage i b) = Inr (Some f)"
    by (auto simp: FetchPage_def ff split: option.split prod.split sum.split)
  show "\<exists>n. fst (NewPage b) = Inr (Some n)" by (simp add: NewPage_def ff AllocatePage_def Let_def)
next
  assume "GetFreeFrameCount b = 0" "page_table b i = None"
  then have "FindFreeFrame b = (Inr None, b)" "page_table b i = None"
    by (simp_all add: GetFreeFrameCount_def LRU_Size_def FindFreeFrame_def Victim_def)
  then show "FetchPage i b = (Inr None, b)" "NewPage b = (Inr None, b)" by (simp_all add: FetchPage_def NewPage_def)
qed

lemma pool_available_witness: "\<exists>n. fst (FetchPage 0 one_frame) = Inr n \<and> FetchPage 9 one_frame = (Inr None, one_frame)"
proof -
  have o: "is_open (disk_manager one_frame)" "GetFreeFrameCount one_frame = 0" "page_table one_frame 9 = None"
    by (simp_all add: one_frame_def NewPage_def BufferPoolManager_init_def FindFreeFrame_def AllocatePage_def
        install_def Reset_def LRU_init_def Pin_def GetFreeFrameCount_def LRU_Size_def)
  show ?thesis using pool_available [OF one_frame_facts(1) o(1), of 9] o one_frame_facts(2) by (simp add: FetchPage_def)
qed

end
