(* ===== verification/Db_Blob.thy ===== *)
theory Db_Blob
  imports Db_Pool
begin

text \<open>
  Large objects of the database: \<open>BlobManager\<close> of \<open>npdatabase/src/blob_manager.cpp\<close>. A blob is a
  chain of pages, each with a header that names the next one. The metadata are kept in memory only.
\<close>

section \<open>The header of an overflow page\<close>

record OverflowPageHeader =
  magic_number :: u32
  hdr_blob_id :: u32
  total_size :: u32
  chunk_index :: u32
  hdr_next_page :: u32
  data_size :: u32

text \<open>The header lies over the first 32 bytes of a page, little-endian; the last 8 are not used.\<close>

definition HEADER_SIZE :: nat where
  "HEADER_SIZE = 32"

definition OVERFLOW_DATA_SIZE :: nat where
  "OVERFLOW_DATA_SIZE = 4096 - HEADER_SIZE"

definition read_header :: "u8 list \<Rightarrow> OverflowPageHeader" where
  "read_header bs =
     \<lparr>magic_number = u32_at 0 bs, hdr_blob_id = u32_at 4 bs, total_size = u32_at 8 bs,
      chunk_index = u32_at 12 bs, hdr_next_page = u32_at 16 bs, data_size = u32_at 20 bs\<rparr>"

definition write_header :: "OverflowPageHeader \<Rightarrow> u8 list \<Rightarrow> u8 list" where
  "write_header h bs =
     bytes_of_u32 (magic_number h) @ bytes_of_u32 (hdr_blob_id h) @ bytes_of_u32 (total_size h) @
     bytes_of_u32 (chunk_index h) @ bytes_of_u32 (hdr_next_page h) @ bytes_of_u32 (data_size h) @ drop 24 bs"

definition IsValid :: "OverflowPageHeader \<Rightarrow> bool" where
  "IsValid h \<longleftrightarrow> magic_number h = 0xDEADBEEF"

text \<open>\<open>memcpy\<close> behind the header.\<close>

definition put_chunk :: "u8 list \<Rightarrow> u8 list \<Rightarrow> u8 list" where
  "put_chunk chunk bs = take HEADER_SIZE bs @ chunk @ drop (HEADER_SIZE + length chunk) bs"

section \<open>The class BlobManager\<close>

record BlobMetadata =
  md_blob_id :: u32
  md_total_size :: u32
  md_first_page_id :: u32
  md_num_pages :: u32

record BlobManager =
  buffer_pool :: BufferPoolManager
  next_blob_id :: u32
  blob_cache :: "u32 \<rightharpoonup> BlobMetadata"

type_synonym 'a blob_res = "(db_error + 'a) \<times> BlobManager"

definition BlobManager_init :: "BufferPoolManager \<Rightarrow> BlobManager" where
  "BlobManager_init b = \<lparr>buffer_pool = b, next_blob_id = 1, blob_cache = Map.empty\<rparr>"

definition CalculateRequiredPages :: "nat \<Rightarrow> u32" where
  "CalculateRequiredPages blob_size = word_of_nat ((blob_size + OVERFLOW_DATA_SIZE - 1) div OVERFLOW_DATA_SIZE)"

fun FreePageChain :: "u32 list \<Rightarrow> BufferPoolManager \<Rightarrow> unit pool_res" where
  "FreePageChain [] b = (Inr (), b)"
| "FreePageChain (i # is) b =
     (case DeletePage i b of (Inl e, b) \<Rightarrow> (Inl e, b) | (Inr _, b) \<Rightarrow> FreePageChain is b)"

text \<open>The first argument counts the pages still to be allocated.\<close>

fun AllocatePageChain :: "nat \<Rightarrow> u32 list \<Rightarrow> BufferPoolManager \<Rightarrow> u32 list pool_res" where
  "AllocatePageChain 0 page_ids b = (Inr page_ids, b)"
| "AllocatePageChain (Suc n) page_ids b =
     (case NewPage b of
        (Inl e, b) \<Rightarrow> (Inl e, b)
      | (Inr None, b) \<Rightarrow>
          (case FreePageChain page_ids b of (Inl e, b) \<Rightarrow> (Inl e, b) | (Inr _, b) \<Rightarrow> (Inl RuntimeError, b))
      | (Inr (Some (i, f)), b) \<Rightarrow> AllocatePageChain n (page_ids @ [i]) (snd (UnpinPage i False b)))"

text \<open>The last arguments are the index of the chunk, the pages that follow and the data not yet written.\<close>

definition chunk_header :: "u32 \<Rightarrow> nat \<Rightarrow> nat \<Rightarrow> u32 list \<Rightarrow> nat \<Rightarrow> OverflowPageHeader" where
  "chunk_header blob sz k rest to_write =
     \<lparr>magic_number = 0xDEADBEEF, hdr_blob_id = blob, total_size = word_of_nat sz, chunk_index = word_of_nat k,
      hdr_next_page = (case rest of i # _ \<Rightarrow> i | [] \<Rightarrow> 0), data_size = word_of_nat to_write\<rparr>"

fun WritePageChain :: "u32 \<Rightarrow> nat \<Rightarrow> nat \<Rightarrow> u32 list \<Rightarrow> u8 list \<Rightarrow> BufferPoolManager \<Rightarrow> unit pool_res" where
  "WritePageChain blob sz k [] remaining b =
     (if remaining = [] then Inr () else Inl AssertionFailure, b)"
| "WritePageChain blob sz k (i # is) remaining b =
     (case FetchPage i b of
        (Inl e, b) \<Rightarrow> (Inl e, b)
      | (Inr None, b) \<Rightarrow> (Inl RuntimeError, b)
      | (Inr (Some f), b) \<Rightarrow>
          let chunk = take OVERFLOW_DATA_SIZE remaining;
              bytes = write_header (chunk_header blob sz k is (length chunk)) (page_data (pages b ! f));
              b = poke f (put_chunk chunk bytes) b
          in WritePageChain blob sz (k + 1) is (drop OVERFLOW_DATA_SIZE remaining) (snd (UnpinPage i True b)))"

text \<open>
  The loop follows the links until it meets 0, which may be never. Mark the last call: it unpins the
  page that comes next, not the one that was fetched.
\<close>

partial_function (option) ReadPageChain :: "u32 \<Rightarrow> u32 list \<Rightarrow> BufferPoolManager \<Rightarrow> u32 list pool_res option" where
  "ReadPageChain current page_ids b =
     (if current = 0 then Some (Inr page_ids, b)
      else
        (case FetchPage current b of
           (Inl e, b) \<Rightarrow> Some (Inl e, b)
         | (Inr None, b) \<Rightarrow> Some (Inl RuntimeError, b)
         | (Inr (Some f), b) \<Rightarrow>
             let header = read_header (page_data (pages b ! f))
             in if \<not> IsValid header then Some (Inl RuntimeError, snd (UnpinPage current False b))
                else
                  let current' = hdr_next_page header
                  in ReadPageChain current' (page_ids @ [current]) (snd (UnpinPage current' False b))))"

definition StoreBlob :: "u8 list \<Rightarrow> BlobManager \<Rightarrow> u32 blob_res" where
  "StoreBlob data m =
     (if data = [] then (Inl InvalidArgument, m)
      else
        let blob = next_blob_id m; m = m\<lparr>next_blob_id := next_blob_id m + 1\<rparr>;
            num_pages = CalculateRequiredPages (length data)
        in case AllocatePageChain (unat num_pages) [] (buffer_pool m) of
             (Inl e, b) \<Rightarrow> (Inl e, m\<lparr>buffer_pool := b\<rparr>)
           | (Inr page_ids, b) \<Rightarrow>
               (case WritePageChain blob (length data) 0 page_ids data b of
                  (Inl AssertionFailure, b) \<Rightarrow> (Inl AssertionFailure, m\<lparr>buffer_pool := b\<rparr>)
                | (Inl e, b) \<Rightarrow>
                    (case FreePageChain page_ids b of
                       (Inl e', b) \<Rightarrow> (Inl e', m\<lparr>buffer_pool := b\<rparr>)
                     | (Inr _, b) \<Rightarrow> (Inl e, m\<lparr>buffer_pool := b\<rparr>))
                | (Inr _, b) \<Rightarrow>
                    (Inr blob, m\<lparr>buffer_pool := b, blob_cache := (blob_cache m)(blob \<mapsto>
                       \<lparr>md_blob_id = blob, md_total_size = word_of_nat (length data),
                        md_first_page_id = hd page_ids, md_num_pages = num_pages\<rparr>)\<rparr>)))"

fun read_chunks :: "u32 \<Rightarrow> u32 list \<Rightarrow> BufferPoolManager \<Rightarrow> u8 list pool_res" where
  "read_chunks blob [] b = (Inr [], b)"
| "read_chunks blob (i # is) b =
     (case FetchPage i b of
        (Inl e, b) \<Rightarrow> (Inl e, b)
      | (Inr None, b) \<Rightarrow> (Inl RuntimeError, b)
      | (Inr (Some f), b) \<Rightarrow>
          let bytes = page_data (pages b ! f); header = read_header bytes
          in if \<not> IsValid header \<or> hdr_blob_id header \<noteq> blob
             then (Inl RuntimeError, snd (UnpinPage i False b))
             else if OVERFLOW_DATA_SIZE < unat (data_size header) then (Inl OutOfBounds, b)
             else
               (case read_chunks blob is (snd (UnpinPage i False b)) of
                  (Inl e, b) \<Rightarrow> (Inl e, b)
                | (Inr rest, b) \<Rightarrow> (Inr (take (unat (data_size header)) (drop HEADER_SIZE bytes) @ rest), b)))"

definition GetBlob :: "u32 \<Rightarrow> BlobManager \<Rightarrow> u8 list blob_res option" where
  "GetBlob blob m =
     (case blob_cache m blob of
        None \<Rightarrow> Some (Inl RuntimeError, m)
      | Some md \<Rightarrow>
          (case ReadPageChain (md_first_page_id md) [] (buffer_pool m) of
             None \<Rightarrow> None
           | Some (Inl e, b) \<Rightarrow> Some (Inl e, m\<lparr>buffer_pool := b\<rparr>)
           | Some (Inr page_ids, b) \<Rightarrow>
               (case read_chunks blob page_ids b of (r, b) \<Rightarrow> Some (r, m\<lparr>buffer_pool := b\<rparr>))))"

definition DeleteBlob :: "u32 \<Rightarrow> BlobManager \<Rightarrow> bool blob_res option" where
  "DeleteBlob blob m =
     (case blob_cache m blob of
        None \<Rightarrow> Some (Inr False, m)
      | Some md \<Rightarrow>
          let failed = (\<lambda>e b. Some (if e \<in> {AssertionFailure, OutOfBounds} then Inl e else Inr False, m\<lparr>buffer_pool := b\<rparr>))
          in case ReadPageChain (md_first_page_id md) [] (buffer_pool m) of
               None \<Rightarrow> None
             | Some (Inl e, b) \<Rightarrow> failed e b
             | Some (Inr page_ids, b) \<Rightarrow>
                 (case FreePageChain page_ids b of
                    (Inl e, b) \<Rightarrow> failed e b
                  | (Inr _, b) \<Rightarrow> Some (Inr True, m\<lparr>buffer_pool := b, blob_cache := (blob_cache m)(blob := None)\<rparr>)))"

definition GetBlobFirstPage :: "u32 \<Rightarrow> BlobManager \<Rightarrow> db_error + u32" where
  "GetBlobFirstPage blob m =
     (case blob_cache m blob of None \<Rightarrow> Inl RuntimeError | Some md \<Rightarrow> Inr (md_first_page_id md))"

definition GetBlobSize :: "u32 \<Rightarrow> BlobManager \<Rightarrow> db_error + u32" where
  "GetBlobSize blob m =
     (case blob_cache m blob of None \<Rightarrow> Inl RuntimeError | Some md \<Rightarrow> Inr (md_total_size md))"

section \<open>Headers\<close>

lemma length_put_chunk:
  "length bs = PAGE_SIZE \<Longrightarrow> length c \<le> OVERFLOW_DATA_SIZE \<Longrightarrow> length (put_chunk c bs) = PAGE_SIZE"
  by (simp add: put_chunk_def HEADER_SIZE_def OVERFLOW_DATA_SIZE_def PAGE_SIZE_def)

lemma length_write_header: "length bs = PAGE_SIZE \<Longrightarrow> length (write_header h bs) = PAGE_SIZE"
  by (simp add: write_header_def PAGE_SIZE_def)

lemma read_write_header: "read_header (write_header h bs @ ys) = h"
proof -
  let ?b = bytes_of_u32
  note at = u32_at_bytes [of "[]"] u32_at_bytes [of "?b x" for x] u32_at_bytes [of "?b x @ ?b y" for x y]
    u32_at_bytes [of "?b x @ ?b y @ ?b z" for x y z] u32_at_bytes [of "?b x @ ?b y @ ?b z @ ?b u" for x y z u]
    u32_at_bytes [of "?b x @ ?b y @ ?b z @ ?b u @ ?b v" for x y z u v]
  show ?thesis
    by (cases h) (use at in \<open>simp add: read_header_def write_header_def\<close>)
qed

lemma chunk_header_back:
  assumes "length bs = PAGE_SIZE"
  shows "read_header (put_chunk c (write_header h bs)) = h"
    "take (length c) (drop HEADER_SIZE (put_chunk c (write_header h bs))) = c"
proof -
  have "take HEADER_SIZE (write_header h bs) = write_header h (take HEADER_SIZE bs)"
    by (simp add: write_header_def HEADER_SIZE_def drop_take)
  then show "read_header (put_chunk c (write_header h bs)) = h"
    by (simp add: put_chunk_def read_write_header)
  show "take (length c) (drop HEADER_SIZE (put_chunk c (write_header h bs))) = c"
    using length_write_header [OF assms, of h] by (simp add: put_chunk_def HEADER_SIZE_def PAGE_SIZE_def)
qed

section \<open>A pool in which nobody holds a page twice\<close>

text \<open>The file is open and the pages \<open>R\<close>, and no others, are pinned, once each.\<close>

definition once :: "u32 set \<Rightarrow> BufferPoolManager \<Rightarrow> bool" where
  "once R b \<longleftrightarrow> pool_wf b \<and> is_open (disk_manager b) \<and> set (pins b) \<subseteq> {0, 1} \<and>
     (\<forall>i f. page_table b i = Some f \<longrightarrow> (pins b ! f = 1 \<longleftrightarrow> i \<in> R)) \<and> (\<forall>i \<in> R. page_table b i \<noteq> None)"

lemma onceD:
  assumes "once R b"
  shows "pool_wf b" "is_open (disk_manager b)" "set (pins b) \<subseteq> {0, 1}" "- 1 \<notin> set (pins b)"
    "\<And>i f. page_table b i = Some f \<Longrightarrow> pins b ! f = (if i \<in> R then 1 else 0)"
    "\<And>i. i \<in> R \<Longrightarrow> page_table b i \<noteq> None"
proof -
  show *: "pool_wf b" "is_open (disk_manager b)" "set (pins b) \<subseteq> {0, 1}" "\<And>i. i \<in> R \<Longrightarrow> page_table b i \<noteq> None"
    using assms by (simp_all add: once_def)
  show "- 1 \<notin> set (pins b)" using *(3) by auto
  fix i f assume t: "page_table b i = Some f"
  then have "pins b ! f \<in> set (pins b)" using pool_wfD(4) [OF *(1)] by (simp add: pins_def)
  then show "pins b ! f = (if i \<in> R then 1 else 0)" using assms t *(3) by (auto simp: once_def)
qed

lemma length_frames: "LRU_Size r = length (frames r)"
  by (simp add: LRU_Size_def frames_def)

lemma EvictPage_lists:
  "EvictPage f b = (Inr True, b') \<Longrightarrow> free_list b' = free_list b \<and> replacer b' = replacer b"
  by (auto simp: EvictPage_def Let_def split: if_splits sum.splits)

lemma FindFreeFrame_count:
  assumes "pool_wf b" "FindFreeFrame b = (Inr (Some f), b')"
  shows "GetFreeFrameCount b = Suc (GetFreeFrameCount b')"
proof (cases "free_list b")
  case (Cons g fs)
  then show ?thesis using assms(2) by (auto simp: FindFreeFrame_def GetFreeFrameCount_def)
next
  case Nil
  obtain v r where v: "Victim (replacer b) = (v, r)" by (cases "Victim (replacer b)")
  then obtain g where g: "v = Some g" "EvictPage g (b\<lparr>replacer := r\<rparr>) = (Inr True, b')"
    using assms(2) Nil by (auto simp: FindFreeFrame_def split: option.splits prod.splits sum.splits if_splits)
  then show ?thesis
    using EvictPage_lists [OF g(2)] Victim_spec(2) [OF pool_wfD(1) [OF assms(1)] v [unfolded g(1)]]
    by (simp add: GetFreeFrameCount_def length_frames Nil)
qed

lemma Pin_size: "lru_wf r \<Longrightarrow> LRU_Size r \<le> Suc (LRU_Size (Pin f r))"
  by (auto simp: length_frames Pin_spec(2) length_remove1)

lemma install_count:
  assumes "pool_wf b" "frame_free b f"
  shows "GetFreeFrameCount (install f p b) = GetFreeFrameCount b"
  using Pin_spec(2) [OF pool_wfD(1) [OF assms(1)], of f] assms(2)
  by (simp add: install_def GetFreeFrameCount_def length_frames frame_free_def remove1_idem)

lemma free_next_id [simp]:
  "GetFreeFrameCount (b\<lparr>disk_manager := d\<rparr>) = GetFreeFrameCount b"
  "frame_free (b\<lparr>disk_manager := d\<rparr>) f = frame_free b f"
  by (simp_all add: GetFreeFrameCount_def frame_free_def in_table_def)

lemma FetchPage_count:
  assumes "pool_wf b" "FetchPage i b = (Inr (Some f), b')"
  shows "GetFreeFrameCount b \<le> Suc (GetFreeFrameCount b')" "is_open (disk_manager b') = is_open (disk_manager b)"
    "next_page_id (disk_manager b') = next_page_id (disk_manager b)"
proof -
  have "GetFreeFrameCount b \<le> Suc (GetFreeFrameCount b') \<and> is_open (disk_manager b') = is_open (disk_manager b) \<and>
    next_page_id (disk_manager b') = next_page_id (disk_manager b)"
  proof (cases "page_table b i")
    case (Some g)
    then show ?thesis
      using assms(2) Pin_size [OF pool_wfD(1) [OF assms(1)]] by (auto simp: FetchPage_def GetFreeFrameCount_def)
  next
    case None
    then obtain g b1 bytes d where f: "FindFreeFrame b = (Inr (Some g), b1)" "ReadPage i (disk_manager b1) = (Inr bytes, d)"
      "b' = install g \<lparr>page_id = i, pin_count = 1, is_dirty = False, page_data = bytes\<rparr> (b1\<lparr>disk_manager := d\<rparr>)"
      using assms(2) by (auto simp: FetchPage_def split: option.splits prod.splits sum.splits)
    note s = FindFreeFrame_spec [OF assms(1) f(1)]
    then have b1: "pool_wf b1" "frame_free b1 g" by simp_all
    then have d: "d = disk_manager b1" using f(2) ReadPage_page [OF pool_wfD(8) [OF b1(1)], of i] by simp
    have "GetFreeFrameCount b' = GetFreeFrameCount b1" unfolding f(3) d using install_count [OF b1] by simp
    then show ?thesis
      using FindFreeFrame_count [OF assms(1) f(1)] FindFreeFrame_next_id [OF f(1)] by (simp add: f(3) d install_def)
  qed
  then show "GetFreeFrameCount b \<le> Suc (GetFreeFrameCount b')" "is_open (disk_manager b') = is_open (disk_manager b)"
    "next_page_id (disk_manager b') = next_page_id (disk_manager b)" by simp_all
qed

lemma NewPage_count:
  assumes "pool_wf b" "NewPage b = (Inr (Some (i, f)), b')"
  shows "GetFreeFrameCount b \<le> Suc (GetFreeFrameCount b')" "is_open (disk_manager b') = is_open (disk_manager b)"
proof -
  obtain b1 d where f: "FindFreeFrame b = (Inr (Some f), b1)" "AllocatePage (disk_manager b1) = (i, d)"
    "b' = install f ((Reset (pages b1 ! f))\<lparr>page_id := i, pin_count := 1, is_dirty := True\<rparr>) (b1\<lparr>disk_manager := d\<rparr>)"
    using assms(2) by (auto simp: NewPage_def Let_def split: option.splits prod.splits sum.splits)
  note s = FindFreeFrame_spec [OF assms(1) f(1)]
  have d: "d = (disk_manager b1)\<lparr>next_page_id := next_page_id (disk_manager b1) + 1\<rparr>"
    using f(2) by (auto simp: AllocatePage_def)
  then have "pool_wf (b1\<lparr>disk_manager := d\<rparr>)" "frame_free (b1\<lparr>disk_manager := d\<rparr>) f" using next_id_wf(1) s by auto
  then have "GetFreeFrameCount b' = GetFreeFrameCount b1" unfolding f(3) by (simp add: install_count)
  then show "GetFreeFrameCount b \<le> Suc (GetFreeFrameCount b')" "is_open (disk_manager b') = is_open (disk_manager b)"
    using FindFreeFrame_count [OF assms(1) f(1)] FindFreeFrame_next_id [OF f(1)] by (simp_all add: f(3) d install_def)
qed

lemma UnpinPage_other:
  "page_table (snd (UnpinPage i dirty b)) = page_table b"
  "disk_manager (snd (UnpinPage i dirty b)) = disk_manager b"
  by (auto simp: UnpinPage_def Let_def split: option.splits)

lemma UnpinPage_last:
  assumes "pool_wf b" "page_table b i = Some f" "pin_count (pages b ! f) = 1"
  shows "GetFreeFrameCount (snd (UnpinPage i dirty b)) = Suc (GetFreeFrameCount b)"
proof -
  have "f < length (pages b)" "f \<notin> set (frames (replacer b))"
    using pool_wfD(4) [OF assms(1,2)] pool_wfD(6) [OF assms(1), of f] assms(3) by auto
  then show ?thesis
    using assms Unpin_spec(2) [OF pool_wfD(1) [OF assms(1)], of f]
    by (simp add: UnpinPage_def Let_def GetFreeFrameCount_def length_frames)
qed

lemma once_fetch:
  assumes "once R b" "i \<notin> R" "0 < GetFreeFrameCount b"
  obtains f b' where "FetchPage i b = (Inr (Some f), b')" "once (insert i R) b'" "pool_view b' = pool_view b"
    "page_table b' i = Some f" "pin_count (pages b' ! f) = 1" "page_data (pages b' ! f) = pool_view b i"
    "is_dirty (pages b' ! f) \<or> page_data (pages b' ! f) = disk_page (disk_manager b') i"
    "GetFreeFrameCount b \<le> Suc (GetFreeFrameCount b')"
    "page_table b' \<subseteq>\<^sub>m (page_table b)(i \<mapsto> f)" "next_page_id (disk_manager b') = next_page_id (disk_manager b)"
proof -
  note o = onceD [OF assms(1)]
  obtain f b' where e: "FetchPage i b = (Inr (Some f), b')"
    using pool_available [OF o(1,2), of i] assms(3) by (metis prod.collapse)
  note F = FetchPage_spec [OF o(1,4) e, simplified] and c = FetchPage_count [OF o(1) e]
  have z: "pins b ! f = 0" using F o(5) [of i f] assms(2) by (cases "page_table b i") auto
  have fl: "f < length (pins b)" using F by (simp add: pins_def) (metis length_list_update length_map)
  have p: "pins b' = (pins b)[f := 1]" using F z by simp
  have wf: "pool_wf b'" using F by simp
  have "set (pins b') \<subseteq> {0, 1}" using o(3) set_update_subset_insert [of "pins b" f 1] by (auto simp: p)
  moreover have "pins b' ! g = 1 \<longleftrightarrow> j \<in> insert i R" if "page_table b' j = Some g" for j g
  proof (cases "j = i")
    case True
    then show ?thesis using that F fl p z by simp
  next
    case False
    then have "page_table b j = Some g" using that F by (auto simp: map_le_def dom_def fun_upd_def split: if_splits)
    moreover have "g \<noteq> f" using False that F table_inj [OF wf, of j f i] by auto
    ultimately show ?thesis using o(5) False p by auto
  qed
  moreover have "page_table b' j \<noteq> None" if "j \<in> insert i R" for j
  proof (cases "j = i")
    case False
    then have "j \<in> R" using that by simp
    then obtain g where g: "page_table b j = Some g" using o(6) by blast
    then have "pins b ! g = 1" using o(5) \<open>j \<in> R\<close> by simp
    then have "pin_count (pages b ! g) \<noteq> 0" using pool_wfD(4) [OF o(1) g] nth_pins by simp
    then show ?thesis using F g by (auto simp: holds_on_def)
  qed (use F in simp)
  ultimately have "once (insert i R) b'" using wf c(2) o(2) by (simp add: once_def)
  moreover have "page_data (pages b' ! f) = pool_view b i" using F by (metis (no_types, lifting) option.simps(5) pool_view_def)
  ultimately show ?thesis using that [OF e] F c z by simp
qed

lemma once_unpin:
  assumes "once (insert i R) b" "i \<notin> R" "page_table b i = Some f"
    and "dirty \<or> is_dirty (pages b ! f) \<or> page_data (pages b ! f) = disk_page (disk_manager b) i"
    and "b' = snd (UnpinPage i dirty b)"
  shows "once R b'" "pool_view b' = pool_view b" "GetFreeFrameCount b' = Suc (GetFreeFrameCount b)"
    "page_table b' = page_table b" "disk_manager b' = disk_manager b"
proof -
  note o = onceD [OF assms(1)]
  have f: "f < length (pages b)" "pins b ! f = 1" using o(5) [OF assms(3)] pool_wfD(4) [OF o(1) assms(3)] by simp_all
  have e: "UnpinPage i dirty b = (fst (UnpinPage i dirty b), b')" by (simp add: assms(5))
  note U = UnpinPage_spec [OF o(1) e]
  have u: "pool_wf b'" "pool_view b' = pool_view b" "pins b' = (pins b)[f := 0]"
    using U assms(3,4) f(2) by (auto split: if_splits)
  show t: "page_table b' = page_table b" "disk_manager b' = disk_manager b" by (simp_all add: assms(5) UnpinPage_other)
  show "pool_view b' = pool_view b" by (rule u(2))
  show "GetFreeFrameCount b' = Suc (GetFreeFrameCount b)"
    unfolding assms(5) using f nth_pins [OF f(1)] by (intro UnpinPage_last [OF o(1) assms(3)]) simp
  have "set (pins b') \<subseteq> {0, 1}" using o(3) set_update_subset_insert [of "pins b" f 0] by (auto simp: u(3))
  moreover have "pins b' ! g = 1 \<longleftrightarrow> j \<in> R" if "page_table b j = Some g" for j g
  proof (cases "j = i")
    case True
    then have "pins b' ! g = 0" using that assms(3) f(1) u(3) by (simp add: pins_def)
    then show ?thesis using True assms(2) by simp
  next
    case False
    then have "g \<noteq> f" using that assms(3) table_inj [OF o(1), of j f i] by auto
    then show ?thesis using o(5) [OF that] False by (simp add: u(3))
  qed
  ultimately show "once R b'" using u(1) o(2,6) t by (simp add: once_def)
qed

lemma once_unpin_not_held:
  assumes "once R b" "i \<notin> R"
  shows "snd (UnpinPage i dirty b) = b"
proof (cases "page_table b i")
  case (Some f)
  then have "pin_count (pages b ! f) = 0"
    using onceD(5) [OF assms(1) Some] pool_wfD(4) [OF onceD(1) [OF assms(1)] Some] nth_pins assms(2) by simp
  then show ?thesis using Some by (simp add: UnpinPage_def)
qed (simp add: UnpinPage_def)

lemma once_poke:
  assumes "once R b" "i \<in> R" "page_table b i = Some f" "length bs = PAGE_SIZE"
  shows "once R (poke f bs b)" "pool_view (poke f bs b) = (pool_view b)(i := bs)"
    "page_table (poke f bs b) = page_table b" "disk_manager (poke f bs b) = disk_manager b"
    "GetFreeFrameCount (poke f bs b) = GetFreeFrameCount b"
proof -
  note o = onceD [OF assms(1)]
  have "pin_count (pages b ! f) \<noteq> 0"
    using o(5) [OF assms(3)] pool_wfD(4) [OF o(1) assms(3)] nth_pins assms(2) by simp
  note p = poke_wf [OF o(1) assms(3,4) this]
  show "once R (poke f bs b)" using assms(1) p by (simp add: once_def)
  show "pool_view (poke f bs b) = (pool_view b)(i := bs)" "page_table (poke f bs b) = page_table b"
    "disk_manager (poke f bs b) = disk_manager b" by (rule p)+
  show "GetFreeFrameCount (poke f bs b) = GetFreeFrameCount b" by (simp add: GetFreeFrameCount_def poke_def)
qed

text \<open>Reading a page that is held already.\<close>

lemma once_read_held:
  assumes "once R b" "i \<in> R"
  obtains f b1 where "FetchPage i b = (Inr (Some f), b1)" "page_data (pages b1 ! f) = pool_view b i"
    "once R (snd (UnpinPage i False b1))" "pool_view (snd (UnpinPage i False b1)) = pool_view b"
proof -
  note o = onceD [OF assms(1)]
  obtain f where f: "page_table b i = Some f" using o(6) assms(2) by auto
  obtain b1 where e: "FetchPage i b = (Inr (Some f), b1)" by (simp add: FetchPage_def f)
  have t: "page_table b1 = page_table b" "is_open (disk_manager b1) = is_open (disk_manager b)"
    using e f by (auto simp: FetchPage_def)
  note F = FetchPage_spec [OF o(1,4) e, simplified]
  have ok: "pool_ok b" using o by (simp add: pool_ok_def)
  have d: "page_data (pages b1 ! f) = pool_view b i"
    using F f by (metis (no_types, lifting) option.simps(5) pool_view_def t(1))
  have b1: "pool_wf b1" using F by simp
  let ?b = "snd (UnpinPage i False b1)"
  have e2: "UnpinPage i False b1 = (fst (UnpinPage i False b1), ?b)" by simp
  note U = fetch_unpin [OF ok e e2 b1 refl refl refl disjI2 [OF refl]]
  have "once R ?b"
    using U(1,3) assms(1) t by (simp add: once_def pool_ok_def UnpinPage_other)
  then show ?thesis using that [OF e d] U(2) F by simp
qed

section \<open>Chains of pages\<close>

fun chain :: "u32 \<Rightarrow> nat \<Rightarrow> nat \<Rightarrow> u32 list \<Rightarrow> u8 list \<Rightarrow> (u32 \<Rightarrow> u8 list) \<Rightarrow> bool" where
  "chain blob sz k [] remaining v \<longleftrightarrow> remaining = []"
| "chain blob sz k (i # is) remaining v \<longleftrightarrow>
     (let chunk = take OVERFLOW_DATA_SIZE remaining
      in read_header (v i) = chunk_header blob sz k is (length chunk) \<and>
         take (length chunk) (drop HEADER_SIZE (v i)) = chunk \<and>
         chain blob sz (k + 1) is (drop OVERFLOW_DATA_SIZE remaining) v)"

lemma chain_cong: "(\<And>i. i \<in> set is \<Longrightarrow> v i = w i) \<Longrightarrow> chain blob sz k is rem v = chain blob sz k is rem w"
  by (induction "is" arbitrary: k rem) (simp_all add: Let_def)

lemma length_pool_view: "pool_wf b \<Longrightarrow> length (pool_view b i) = PAGE_SIZE"
  using pool_wfD(3,4) by (auto simp: pool_view_def split: option.split)

lemma WritePageChain_spec:
  assumes "once {} b" "0 < GetFreeFrameCount b" "distinct ids" "length remaining \<le> length ids * OVERFLOW_DATA_SIZE"
  shows "\<exists>b'. WritePageChain blob sz k ids remaining b = (Inr (), b') \<and> once {} b' \<and>
    GetFreeFrameCount b \<le> GetFreeFrameCount b' \<and> (\<forall>i. i \<notin> set ids \<longrightarrow> pool_view b' i = pool_view b i) \<and>
    chain blob sz k ids remaining (pool_view b')"
  using assms
proof (induction ids arbitrary: k remaining b)
  case (Cons i ids)
  obtain f b1 where F: "FetchPage i b = (Inr (Some f), b1)" "once {i} b1" "pool_view b1 = pool_view b"
    "page_table b1 i = Some f" "page_data (pages b1 ! f) = pool_view b i" "GetFreeFrameCount b \<le> Suc (GetFreeFrameCount b1)"
    using once_fetch [OF Cons.prems(1) _ Cons.prems(2), of i] by blast
  define chunk where "chunk = take OVERFLOW_DATA_SIZE remaining"
  define h where "h = chunk_header blob sz k ids (length chunk)"
  define bs where "bs = put_chunk chunk (write_header h (pool_view b i))"
  have len: "length (pool_view b i) = PAGE_SIZE" by (rule length_pool_view [OF onceD(1) [OF Cons.prems(1)]])
  then have "length bs = PAGE_SIZE"
    by (simp add: bs_def chunk_def length_put_chunk length_write_header)
  then have p: "once {i} (poke f bs b1)" "pool_view (poke f bs b1) = (pool_view b)(i := bs)" "page_table (poke f bs b1) i = Some f"
    "GetFreeFrameCount (poke f bs b1) = GetFreeFrameCount b1"
    using once_poke [OF F(2) _ F(4)] F(3,4) by simp_all
  define b2 where "b2 = snd (UnpinPage i True (poke f bs b1))"
  have u: "once {} b2" "pool_view b2 = (pool_view b)(i := bs)" "GetFreeFrameCount b \<le> GetFreeFrameCount b2"
    using once_unpin [OF p(1) _ p(3) _ b2_def] p(2,4) F(6) by simp_all
  have "length (drop OVERFLOW_DATA_SIZE remaining) \<le> length ids * OVERFLOW_DATA_SIZE" using Cons.prems(4) by simp
  then obtain b' where b': "WritePageChain blob sz (k + 1) ids (drop OVERFLOW_DATA_SIZE remaining) b2 = (Inr (), b')"
    "once {} b'" "GetFreeFrameCount b2 \<le> GetFreeFrameCount b'" "\<And>j. j \<notin> set ids \<Longrightarrow> pool_view b' j = pool_view b2 j"
    "chain blob sz (k + 1) ids (drop OVERFLOW_DATA_SIZE remaining) (pool_view b')"
    using Cons.IH [OF u(1), of "drop OVERFLOW_DATA_SIZE remaining" "k + 1"] u(3) Cons.prems(2,3) by auto
  have i: "pool_view b' i = bs" using b'(4) [of i] Cons.prems(3) u(2) by simp
  have "WritePageChain blob sz k (i # ids) remaining b = (Inr (), b')"
    using b'(1) by (simp add: F(1,5) Let_def chunk_def [symmetric] h_def [symmetric] bs_def [symmetric] b2_def [symmetric])
  moreover have "chain blob sz k (i # ids) remaining (pool_view b')"
    using b'(5) chunk_header_back [OF len, of chunk h]
    by (simp add: Let_def i bs_def chunk_def [symmetric] h_def [symmetric])
  ultimately show ?case using b' u by auto
qed auto

lemma ReadPageChain_spec:
  assumes "once R b" "length ids \<le> GetFreeFrameCount b" "distinct ids" "0 \<notin> set ids" "set ids \<inter> R = {}"
    and "chain blob sz k ids remaining (pool_view b)" "current = (case ids of [] \<Rightarrow> 0 | i # _ \<Rightarrow> i)"
    and "0 \<notin> R"
  shows "\<exists>b'. ReadPageChain current acc b = Some (Inr (acc @ ids), b') \<and> once (R \<union> set ids) b' \<and> pool_view b' = pool_view b"
  using assms
proof (induction ids arbitrary: k remaining b R current acc)
  case Nil
  then show ?case by (simp add: ReadPageChain.simps)
next
  case (Cons i ids)
  have "i \<notin> R" "0 < GetFreeFrameCount b" using Cons.prems(2,5) by auto
  then obtain f b1 where F: "FetchPage i b = (Inr (Some f), b1)" "once (insert i R) b1" "pool_view b1 = pool_view b"
    "page_table b1 i = Some f" "page_data (pages b1 ! f) = pool_view b i" "GetFreeFrameCount b \<le> Suc (GetFreeFrameCount b1)"
    using once_fetch [OF Cons.prems(1)] by blast
  define nxt where "nxt = (case ids of [] \<Rightarrow> 0 | i # _ \<Rightarrow> i)"
  have h: "IsValid (read_header (pool_view b i))" "hdr_next_page (read_header (pool_view b i)) = nxt"
    using Cons.prems(6) by (simp_all add: Let_def IsValid_def chunk_header_def nxt_def)
  have "nxt \<notin> insert i R" using Cons.prems(3,4,5,8) by (auto simp: nxt_def split: list.split)
  then have same: "snd (UnpinPage nxt False b1) = b1" by (rule once_unpin_not_held [OF F(2)])
  have i: "current = i" "i \<noteq> 0" using Cons.prems(4,7) by auto
  obtain b' where b': "ReadPageChain nxt (acc @ [i]) b1 = Some (Inr ((acc @ [i]) @ ids), b')"
    "once (insert i R \<union> set ids) b'" "pool_view b' = pool_view b1"
    using Cons.IH [OF F(2), of "k + 1" "drop OVERFLOW_DATA_SIZE remaining" nxt "acc @ [i]"] F(3,6) Cons.prems nxt_def
    by (auto simp: Let_def)
  have "ReadPageChain current acc b = ReadPageChain nxt (acc @ [i]) b1"
    using i h same by (subst ReadPageChain.simps) (simp add: F(1,5) Let_def)
  then show ?case using b' F(3) by simp
qed

lemma read_chunks_spec:
  assumes "once R b" "set ids \<subseteq> R" "chain blob sz k ids remaining (pool_view b)"
  shows "\<exists>b'. read_chunks blob ids b = (Inr remaining, b') \<and> once R b' \<and> pool_view b' = pool_view b"
  using assms
proof (induction ids arbitrary: k remaining b)
  case (Cons i ids)
  obtain f b1 where F: "FetchPage i b = (Inr (Some f), b1)" "page_data (pages b1 ! f) = pool_view b i"
    "once R (snd (UnpinPage i False b1))" "pool_view (snd (UnpinPage i False b1)) = pool_view b"
    using once_read_held [OF Cons.prems(1), of i] Cons.prems(2) by auto
  let ?b = "snd (UnpinPage i False b1)"
  define chunk where "chunk = take OVERFLOW_DATA_SIZE remaining"
  have "length chunk \<le> 4064" by (simp add: chunk_def OVERFLOW_DATA_SIZE_def HEADER_SIZE_def)
  then have u: "unat (word_of_nat (length chunk) :: u32) = length chunk" by (simp add: unat_of_nat)
  have le: "length chunk \<le> OVERFLOW_DATA_SIZE" by (simp add: chunk_def)
  have h: "read_header (pool_view b i) = chunk_header blob sz k ids (length chunk)"
    "take (length chunk) (drop HEADER_SIZE (pool_view b i)) = chunk"
    "chain blob sz (k + 1) ids (drop OVERFLOW_DATA_SIZE remaining) (pool_view ?b)"
    using Cons.prems(3) F(4) by (simp_all add: Let_def chunk_def)
  obtain b' where b': "read_chunks blob ids ?b = (Inr (drop OVERFLOW_DATA_SIZE remaining), b')" "once R b'" "pool_view b' = pool_view ?b"
    using Cons.IH [OF F(3) _ h(3)] Cons.prems(2) by auto
  have "read_chunks blob (i # ids) b = (Inr (chunk @ drop OVERFLOW_DATA_SIZE remaining), b')"
    using h u le b'(1) by (simp add: F(1,2) Let_def IsValid_def chunk_header_def)
  then show ?case using b' F(4) by (simp add: chunk_def)
qed simp

section \<open>Allocation\<close>

text \<open>The pages in the pool have numbers that were given out: below the counter of the disk manager.\<close>

definition ids_given_out :: "BufferPoolManager \<Rightarrow> bool" where
  "ids_given_out b \<longleftrightarrow> (\<forall>i. page_table b i \<noteq> None \<longrightarrow> unat i < unat (next_page_id (disk_manager b)))"

lemma unat_max: "unat (- 1 :: u32) = 2 ^ 32 - 1"
  by (simp add: unsigned_minus_1_eq_mask mask_eq_exp_minus_1)

lemma unat_next: "i \<noteq> - 1 \<Longrightarrow> unat (i + 1 :: u32) = Suc (unat i)"
proof -
  assume "i \<noteq> - 1"
  then have "unat i \<noteq> 2 ^ 32 - 1" using unat_max by (metis word_unat_eq_iff)
  moreover have "unat i < 2 ^ 32" using unsigned_less [of i] by simp
  ultimately show ?thesis by (simp add: unat_word_ariths)
qed

lemma once_new:
  assumes "once R b" "ids_given_out b" "0 < GetFreeFrameCount b" "i = next_page_id (disk_manager b)" "i \<noteq> - 1"
  obtains f b' where "NewPage b = (Inr (Some (i, f)), b')" "once R (snd (UnpinPage i False b'))"
    "pool_view (snd (UnpinPage i False b')) = (pool_view b)(i := zero_page)"
    "GetFreeFrameCount b \<le> GetFreeFrameCount (snd (UnpinPage i False b'))"
    "ids_given_out (snd (UnpinPage i False b'))" "next_page_id (disk_manager (snd (UnpinPage i False b'))) = i + 1"
proof -
  note o = onceD [OF assms(1)]
  have none: "page_table b i = None" using assms(2,4) by (auto simp: ids_given_out_def)
  then have iR: "i \<notin> R" using o(6) by blast
  obtain n b' where e: "NewPage b = (Inr (Some n), b')"
    using pool_available [OF o(1,2), of i] assms(3) by (metis prod.collapse)
  obtain j f where n: "n = (j, f)" by (cases n)
  note N = NewPage_spec [OF o(1) none [unfolded assms(4)] e, unfolded n, simplified]
  have j: "j = i" using N assms(4) by simp
  have e': "NewPage b = (Inr (Some (i, f)), b')" using e n j by simp
  note c = NewPage_count [OF o(1) e']
  have wf: "pool_wf b'" and p: "pins b' = (pins b)[f := 1]" and t: "page_table b' i = Some f"
    and le: "page_table b' \<subseteq>\<^sub>m (page_table b)(i \<mapsto> f)" using N unfolding j by blast+
  have fl: "f < length (pins b)" using N by (simp add: pins_def) (metis length_list_update length_map)
  have "set (pins b') \<subseteq> {0, 1}" using o(3) set_update_subset_insert [of "pins b" f 1] by (auto simp: p)
  moreover have old: "page_table b k = Some g \<and> g \<noteq> f" if "page_table b' k = Some g" "k \<noteq> i" for k g
    using that le t table_inj [OF wf, of k f i] by (auto simp: map_le_def dom_def fun_upd_def split: if_splits)
  have "pins b' ! g = 1 \<longleftrightarrow> k \<in> insert i R" if "page_table b' k = Some g" for k g
    using old [OF that] that t fl o(5) [of k g] by (cases "k = i") (auto simp: p)
  moreover have "page_table b' k \<noteq> None" if "k \<in> insert i R" for k
  proof (cases "k = i")
    case False
    then have "k \<in> R" using that by simp
    then obtain g where g: "page_table b k = Some g" using o(6) by blast
    then have "pins b ! g = 1" using o(5) \<open>k \<in> R\<close> by simp
    then have "pin_count (pages b ! g) \<noteq> 0" using pool_wfD(4) [OF o(1) g] nth_pins by simp
    then show ?thesis using N g by (auto simp: pinned_kept_def)
  qed (use t in simp)
  ultimately have once: "once (insert i R) b'" using wf c(2) o(2) by (simp add: once_def)
  have d: "is_dirty (pages b' ! f)" using N by simp
  define b2 where "b2 = snd (UnpinPage i False b')"
  note u = once_unpin [OF once iR t disjI2 [OF disjI1 [OF d]] b2_def]
  have i1: "unat (i + 1) = Suc (unat i)" by (rule unat_next [OF assms(5)])
  have "ids_given_out b2"
    unfolding ids_given_out_def
  proof (intro allI impI)
    fix k assume "page_table b2 k \<noteq> None"
    then obtain g where "page_table b' k = Some g" by (auto simp: u(4))
    then have "k = i \<or> page_table b k \<noteq> None" using old by blast
    then show "unat k < unat (next_page_id (disk_manager b2))"
      using assms(2,4) i1 N j by (auto simp: ids_given_out_def u(5) less_Suc_eq)
  qed
  then show ?thesis
    using that [OF e'] u c N j by (simp add: b2_def)
qed

definition new_ids :: "u32 \<Rightarrow> nat \<Rightarrow> u32 list" where
  "new_ids i n = map (\<lambda>k. i + word_of_nat k) [0 ..< n]"

lemma new_ids_Suc: "new_ids i (Suc n) = i # new_ids (i + 1) n"
  unfolding new_ids_def upt_conv_Cons [OF zero_less_Suc] map_Suc_upt [symmetric]
  by (simp add: comp_def add.assoc add.commute)

lemma new_ids_unat: "unat i + n < 2 ^ 32 \<Longrightarrow> map unat (new_ids i n) = [unat i ..< unat i + n]"
proof (induction n arbitrary: i)
  case (Suc n)
  then have "i \<noteq> - 1" using unat_max by fastforce
  then have i1: "unat (i + 1) = Suc (unat i)" by (rule unat_next)
  then show ?case using Suc.IH [of "i + 1"] Suc.prems by (simp add: new_ids_Suc upt_conv_Cons)
qed (simp add: new_ids_def)

lemma new_ids_distinct:
  assumes "unat i + n < 2 ^ 32"
  shows "distinct (new_ids i n)" "j \<in> set (new_ids i n) \<Longrightarrow> unat i \<le> unat j" "length (new_ids i n) = n"
proof -
  show "distinct (new_ids i n)" using new_ids_unat [OF assms] by (metis distinct_map distinct_upt)
  show "unat i \<le> unat j" if "j \<in> set (new_ids i n)"
    using that new_ids_unat [OF assms] by (metis (no_types) atLeastLessThan_iff image_eqI list.set_map set_upt)
  show "length (new_ids i n) = n" by (simp add: new_ids_def)
qed

lemma AllocatePageChain_spec:
  assumes "once R b" "ids_given_out b" "0 < GetFreeFrameCount b" "i = next_page_id (disk_manager b)" "unat i + n < 2 ^ 32"
  shows "\<exists>b'. AllocatePageChain n acc b = (Inr (acc @ new_ids i n), b') \<and> once R b' \<and> ids_given_out b' \<and>
    GetFreeFrameCount b \<le> GetFreeFrameCount b' \<and> (\<forall>j. j \<notin> set (new_ids i n) \<longrightarrow> pool_view b' j = pool_view b j)"
  using assms
proof (induction n arbitrary: acc b i)
  case 0
  then show ?case by (simp add: new_ids_def)
next
  case (Suc n)
  have i: "i \<noteq> - 1" using Suc.prems(5) unat_max by auto
  then have i1: "unat (i + 1) = Suc (unat i)" by (rule unat_next)
  obtain f b1 where N: "NewPage b = (Inr (Some (i, f)), b1)" "once R (snd (UnpinPage i False b1))"
    "pool_view (snd (UnpinPage i False b1)) = (pool_view b)(i := zero_page)"
    "GetFreeFrameCount b \<le> GetFreeFrameCount (snd (UnpinPage i False b1))"
    "ids_given_out (snd (UnpinPage i False b1))" "next_page_id (disk_manager (snd (UnpinPage i False b1))) = i + 1"
    by (rule once_new [OF Suc.prems(1-4) i])
  let ?b = "snd (UnpinPage i False b1)"
  have l: "unat (i + 1) + n < 2 ^ 32" "0 < GetFreeFrameCount ?b" using Suc.prems(3,5) i1 N(4) by simp_all
  obtain b' where b': "AllocatePageChain n (acc @ [i]) ?b = (Inr ((acc @ [i]) @ new_ids (i + 1) n), b')" "once R b'"
    "ids_given_out b'" "GetFreeFrameCount ?b \<le> GetFreeFrameCount b'"
    "\<And>j. j \<notin> set (new_ids (i + 1) n) \<Longrightarrow> pool_view b' j = pool_view ?b j"
    using Suc.IH [OF N(2,5) l(2) N(6) [symmetric] l(1)] by blast
  then show ?case using N by (auto simp: new_ids_Suc)
qed

section \<open>Blobs\<close>

definition num_pages :: "u8 list \<Rightarrow> nat" where
  "num_pages data = (length data + OVERFLOW_DATA_SIZE - 1) div OVERFLOW_DATA_SIZE"

text \<open>
  What a call needs: the file is open, nobody holds a page, some frame can be used, and there are
  page numbers left.
\<close>

definition ready :: "u8 list \<Rightarrow> BlobManager \<Rightarrow> bool" where
  "ready data m \<longleftrightarrow> once {} (buffer_pool m) \<and> ids_given_out (buffer_pool m) \<and> data \<noteq> [] \<and>
     0 < GetFreeFrameCount (buffer_pool m) \<and>
     unat (next_page_id (disk_manager (buffer_pool m))) + num_pages data < 2 ^ 32"

abbreviation blob_ids :: "u8 list \<Rightarrow> BlobManager \<Rightarrow> u32 list" where
  "blob_ids data m \<equiv> new_ids (next_page_id (disk_manager (buffer_pool m))) (num_pages data)"

lemma ready_init:
  assumes "disk_ok d" "is_open d" "0 < n" "data \<noteq> []" "unat (next_page_id d) + num_pages data < 2 ^ 32"
  shows "ready data (BlobManager_init (BufferPoolManager_init n d))"
  using assms pool_wf_init [OF assms(1), of n]
  by (auto simp: ready_def once_def BlobManager_init_def BufferPoolManager_init_def ids_given_out_def pins_def
      new_page_def GetFreeFrameCount_def)

lemma num_pages_bounds:
  "length data \<le> num_pages data * OVERFLOW_DATA_SIZE" "data \<noteq> [] \<Longrightarrow> 0 < num_pages data"
proof -
  have o: "OVERFLOW_DATA_SIZE = 4064" by (simp add: OVERFLOW_DATA_SIZE_def HEADER_SIZE_def)
  have "length data + 4063 < (num_pages data + 1) * 4064"
    using dividend_less_times_div [of 4064 "length data + 4063"] by (simp add: num_pages_def o algebra_simps)
  then show "length data \<le> num_pages data * OVERFLOW_DATA_SIZE" by (simp add: o)
  show "0 < num_pages data" if "data \<noteq> []" using that by (cases data) (simp_all add: num_pages_def o)
qed

lemma StoreBlob_spec:
  assumes "ready data m"
  obtains m1 where "StoreBlob data m = (Inr (next_blob_id m), m1)" "once {} (buffer_pool m1)"
    "GetFreeFrameCount (buffer_pool m) \<le> GetFreeFrameCount (buffer_pool m1)"
    "blob_cache m1 = (blob_cache m)(next_blob_id m \<mapsto> \<lparr>md_blob_id = next_blob_id m,
       md_total_size = word_of_nat (length data), md_first_page_id = hd (blob_ids data m),
       md_num_pages = word_of_nat (num_pages data)\<rparr>)"
    "chain (next_blob_id m) (length data) 0 (blob_ids data m) data (pool_view (buffer_pool m1))"
    "\<And>i. i \<notin> set (blob_ids data m) \<Longrightarrow> pool_view (buffer_pool m1) i = pool_view (buffer_pool m) i"
proof -
  let ?b = "buffer_pool m" and ?n = "num_pages data" and ?ids = "blob_ids data m"
  have r: "once {} ?b" "ids_given_out ?b" "data \<noteq> []" "0 < GetFreeFrameCount ?b"
    "unat (next_page_id (disk_manager ?b)) + ?n < 2 ^ 32" using assms by (simp_all add: ready_def)
  have n: "CalculateRequiredPages (length data) = word_of_nat ?n" "unat (word_of_nat ?n :: u32) = ?n"
    using r(5) by (simp_all add: CalculateRequiredPages_def num_pages_def unat_of_nat)
  obtain b1 where a: "AllocatePageChain ?n [] ?b = (Inr ?ids, b1)" "once {} b1" "GetFreeFrameCount ?b \<le> GetFreeFrameCount b1"
    "\<And>j. j \<notin> set ?ids \<Longrightarrow> pool_view b1 j = pool_view ?b j"
    using AllocatePageChain_spec [OF r(1,2,4) refl r(5), of "[]"] by auto
  have len: "length data \<le> length ?ids * OVERFLOW_DATA_SIZE"
    using num_pages_bounds(1) new_ids_distinct(3) [OF r(5)] by simp
  obtain b2 where w: "WritePageChain (next_blob_id m) (length data) 0 ?ids data b1 = (Inr (), b2)" "once {} b2"
    "GetFreeFrameCount b1 \<le> GetFreeFrameCount b2" "\<And>i. i \<notin> set ?ids \<Longrightarrow> pool_view b2 i = pool_view b1 i"
    "chain (next_blob_id m) (length data) 0 ?ids data (pool_view b2)"
    using WritePageChain_spec [OF a(2) _ new_ids_distinct(1) [OF r(5)] len, of "next_blob_id m" "length data" 0] r(4) a(3)
    by auto
  show ?thesis
    by (rule that [of "m\<lparr>next_blob_id := next_blob_id m + 1, buffer_pool := b2,
          blob_cache := (blob_cache m)(next_blob_id m \<mapsto> \<lparr>md_blob_id = next_blob_id m,
            md_total_size = word_of_nat (length data), md_first_page_id = hd ?ids, md_num_pages = word_of_nat ?n\<rparr>)\<rparr>"])
      (use r(3) n a w in \<open>simp_all add: StoreBlob_def Let_def\<close>)
qed

lemma blob_ids_cons:
  "ready data m \<Longrightarrow> \<exists>is. blob_ids data m = next_page_id (disk_manager (buffer_pool m)) # is"
  using num_pages_bounds(2) [of data] by (cases "num_pages data") (auto simp: ready_def new_ids_Suc)

text \<open>What \<open>ReadPageChain\<close> does after \<open>StoreBlob\<close>: it finds the pages, and leaves them pinned.\<close>

lemma chain_after_store:
  assumes "ready data m" "num_pages data \<le> GetFreeFrameCount (buffer_pool m)"
    and "next_page_id (disk_manager (buffer_pool m)) \<noteq> 0" "StoreBlob data m = (r, m1)"
  obtains b where "ReadPageChain (hd (blob_ids data m)) [] (buffer_pool m1) = Some (Inr (blob_ids data m), b)"
    "once (set (blob_ids data m)) b" "pool_view b = pool_view (buffer_pool m1)"
    "chain (next_blob_id m) (length data) 0 (blob_ids data m) data (pool_view b)"
    "r = Inr (next_blob_id m)" "\<exists>md. blob_cache m1 (next_blob_id m) = Some md \<and> md_first_page_id md = hd (blob_ids data m)"
proof -
  have o: "unat (next_page_id (disk_manager (buffer_pool m))) + num_pages data < 2 ^ 32"
    using assms(1) by (simp add: ready_def)
  note d = new_ids_distinct [OF o]
  obtain m' where s: "StoreBlob data m = (Inr (next_blob_id m), m')" "once {} (buffer_pool m')"
    "GetFreeFrameCount (buffer_pool m) \<le> GetFreeFrameCount (buffer_pool m')"
    "\<exists>md. blob_cache m' (next_blob_id m) = Some md \<and> md_first_page_id md = hd (blob_ids data m)"
    "chain (next_blob_id m) (length data) 0 (blob_ids data m) data (pool_view (buffer_pool m'))"
    by (rule StoreBlob_spec [OF assms(1)]) auto
  have z: "0 \<notin> set (blob_ids data m)"
    using d(2) [of 0] assms(3) by (metis le_zero_eq unat_0 unsigned_0 word_unat_eq_iff)
  have c: "hd (blob_ids data m) = (case blob_ids data m of [] \<Rightarrow> 0 | i # _ \<Rightarrow> i)"
    using blob_ids_cons [OF assms(1)] by auto
  have n: "length (blob_ids data m) \<le> GetFreeFrameCount (buffer_pool m')" using assms(2) s(3) d(3) by simp
  obtain b where "ReadPageChain (hd (blob_ids data m)) [] (buffer_pool m') = Some (Inr ([] @ blob_ids data m), b)"
    "once ({} \<union> set (blob_ids data m)) b" "pool_view b = pool_view (buffer_pool m')"
    using ReadPageChain_spec [OF s(2) n d(1) z _ s(5) c, of "[]"] by auto
  then show ?thesis using that [of b] s assms(4) by simp
qed

text \<open>A database whose file holds one page, and a fresh one, with a pool of two frames.\<close>

definition demo_manager :: "bool \<Rightarrow> BlobManager" where
  "demo_manager fresh = BlobManager_init (BufferPoolManager_init 2
     \<lparr>db_file = (if fresh then [] else zero_page), is_open = True, fail_bit = False,
      next_page_id = (if fresh then 0 else 1)\<rparr>)"

lemma demo_manager_facts:
  "ready [1, 2, 3] (demo_manager fresh)" "num_pages [1, 2, 3] = 1" "next_blob_id (demo_manager fresh) = 1"
  "GetFreeFrameCount (buffer_pool (demo_manager fresh)) = 2"
  "next_page_id (disk_manager (buffer_pool (demo_manager fresh))) = (if fresh then 0 else 1)"
proof -
  show n: "num_pages [1, 2, 3] = 1" by (simp add: num_pages_def OVERFLOW_DATA_SIZE_def HEADER_SIZE_def)
  show "ready [1, 2, 3] (demo_manager fresh)"
    unfolding demo_manager_def by (rule ready_init) (simp_all add: disk_ok_def n)
  show "next_blob_id (demo_manager fresh) = 1" "GetFreeFrameCount (buffer_pool (demo_manager fresh)) = 2"
    "next_page_id (disk_manager (buffer_pool (demo_manager fresh))) = (if fresh then 0 else 1)"
    by (simp_all add: demo_manager_def BlobManager_init_def BufferPoolManager_init_def GetFreeFrameCount_def
        LRU_Size_def LRU_init_def)
qed



lemma FreePageChain_held:
  "once R b \<Longrightarrow> set ids \<subseteq> R \<Longrightarrow> FreePageChain ids b = (Inr (), b)"
proof (induction ids)
  case (Cons i ids)
  note o = onceD [OF Cons.prems(1)]
  obtain f where f: "page_table b i = Some f" "pins b ! f = 1" using o(5,6) Cons.prems(2) by fastforce
  then have "DeletePage i b = (Inr False, b)"
    using DeletePage_spec [OF o(1,2), of i] by (metis prod.collapse zero_neq_one)
  then show ?case using Cons by simp
qed simp

text \<open>
  C24. \<open>DeleteBlob\<close> reports success and deletes nothing: \<open>ReadPageChain\<close> unpins the page that follows
  instead of the one it fetched, so every page of the chain is still pinned when it is to be freed;
  \<open>DeletePage\<close> refuses, the contents stay, and the frames are lost to the pool.
\<close>

theorem delete_frees_nothing:
  assumes "ready data m" "num_pages data \<le> GetFreeFrameCount (buffer_pool m)"
    and "next_page_id (disk_manager (buffer_pool m)) \<noteq> 0" "StoreBlob data m = (r, m1)"
  shows "\<exists>m2. DeleteBlob (next_blob_id m) m1 = Some (Inr True, m2) \<and> blob_cache m2 (next_blob_id m) = None \<and>
    pool_view (buffer_pool m2) = pool_view (buffer_pool m1) \<and>
    (\<forall>i \<in> set (blob_ids data m). \<exists>f. page_table (buffer_pool m2) i = Some f \<and> pin_count (pages (buffer_pool m2) ! f) = 1)"
proof -
  obtain b md where c: "ReadPageChain (hd (blob_ids data m)) [] (buffer_pool m1) = Some (Inr (blob_ids data m), b)"
    "once (set (blob_ids data m)) b" "pool_view b = pool_view (buffer_pool m1)"
    "blob_cache m1 (next_blob_id m) = Some md" "md_first_page_id md = hd (blob_ids data m)"
    by (rule chain_after_store [OF assms]) blast
  note o = onceD [OF c(2)]
  have "\<exists>f. page_table b i = Some f \<and> pin_count (pages b ! f) = 1" if i: "i \<in> set (blob_ids data m)" for i
  proof -
    obtain f where f: "page_table b i = Some f" using o(6) [OF i] by auto
    then show ?thesis using o(5) [OF f] i pool_wfD(4) [OF o(1) f] nth_pins by auto
  qed
  then show ?thesis
    using c FreePageChain_held [OF c(2) subset_refl] by (simp add: DeleteBlob_def Let_def)
qed

lemma delete_frees_nothing_witness:
  "\<exists>m1 m2 f. DeleteBlob 1 m1 = Some (Inr True, m2) \<and> page_table (buffer_pool m2) 1 = Some f"
proof -
  obtain r m1 where s: "StoreBlob [1, 2, 3] (demo_manager False) = (r, m1)"
    by (cases "StoreBlob [1, 2, 3] (demo_manager False)")
  have "1 \<in> set (blob_ids [1, 2, 3] (demo_manager False))"
    using demo_manager_facts(2) demo_manager_facts(5) [of False] by (simp add: new_ids_def)
  then show ?thesis
    using delete_frees_nothing [OF demo_manager_facts(1) [of False] _ _ s] demo_manager_facts(2) demo_manager_facts(3-5) [of False]
    by auto blast
qed

text \<open>
  The first blob of a fresh database is lost: its chain starts at page 0, and 0 is also the mark
  for the end of a chain, so \<open>GetBlob\<close> finds no pages and returns an empty blob without an error.
\<close>

theorem first_blob_lost:
  assumes "ready data m" "next_page_id (disk_manager (buffer_pool m)) = 0"
  shows "\<exists>m1. StoreBlob data m = (Inr (next_blob_id m), m1) \<and> GetBlob (next_blob_id m) m1 = Some (Inr [], m1)"
proof -
  obtain m1 where s: "StoreBlob data m = (Inr (next_blob_id m), m1)"
    "\<exists>md. blob_cache m1 (next_blob_id m) = Some md \<and> md_first_page_id md = hd (blob_ids data m)"
    by (rule StoreBlob_spec [OF assms(1)]) auto
  have "hd (blob_ids data m) = 0" using blob_ids_cons [OF assms(1)] assms(2) by auto
  then have "GetBlob (next_blob_id m) m1 = Some (Inr [], m1)" using s(2) by (auto simp: GetBlob_def ReadPageChain.simps)
  then show ?thesis using s(1) by blast
qed

lemma first_blob_lost_witness:
  "\<exists>m1. StoreBlob [1, 2, 3] (demo_manager True) = (Inr 1, m1) \<and> GetBlob 1 m1 = Some (Inr [], m1)"
  using first_blob_lost [OF demo_manager_facts(1) [of True]] demo_manager_facts(3,5) [of True] by simp

end
