(* ===== verification/Db_Btree.thy ===== *)
theory Db_Btree
  imports Nplib_Search
begin

text \<open>
  The B-tree of the database (\<open>npdatabase/src/btree.hpp\<close>): \<open>BTreeNode\<close> and \<open>BTree\<close> for keys with a
  linear order. Nodes live in pages and refer to each other by page number; the store maps the number
  of a page to its node. \<open>D\<close> is the template parameter \<open>Degree\<close>. The arrays of a node always have their
  full length, and only the first \<open>n_keys\<close> cells mean something. \<open>make_page\<close> of the database is a
  parameter: it gives out a page and what its arrays hold; the 32 bits of a page number only limit how
  often it can do so, so page numbers are natural numbers here. A failed \<open>assert\<close> and the use of a page
  that does not exist are errors.
\<close>

section \<open>Nodes\<close>

type_synonym page_id = nat

record ('k, 'v) KeyValueT =
  kv_key :: 'k
  kv_value :: 'v

record ('k, 'v) BTreeNode =
  keys_array :: "('k, 'v) KeyValueT list"
  nodes_array :: "page_id list"
  n_keys :: nat
  is_leaf :: bool

type_synonym ('k, 'v) tree_store = "page_id \<Rightarrow> ('k, 'v) BTreeNode option"
type_synonym ('k, 'v) page_maker = "('k, 'v) tree_store \<Rightarrow> page_id \<times> ('k, 'v) KeyValueT list \<times> page_id list"

datatype btree_error = TreeAssertion | NullPage | KeysOverrun

definition kv_less :: "('k :: linorder, 'v) KeyValueT \<Rightarrow> ('k, 'v) KeyValueT \<Rightarrow> bool" where
  "kv_less a b \<longleftrightarrow> kv_key a < kv_key b"

definition max_keys_size :: "nat \<Rightarrow> nat" where
  "max_keys_size D = 2 * D - 1"

definition max_childs_size :: "nat \<Rightarrow> nat" where
  "max_childs_size D = 2 * D"

definition node_full :: "nat \<Rightarrow> ('k, 'v) BTreeNode \<Rightarrow> bool" where
  "node_full D nd \<longleftrightarrow> n_keys nd = max_keys_size D"

definition nodes_size :: "('k, 'v) BTreeNode \<Rightarrow> btree_error + nat" where
  "nodes_size nd = (if is_leaf nd then Inl TreeAssertion else Inr (n_keys nd + 1))"

definition find_index_kv :: "('k :: linorder, 'v) BTreeNode \<Rightarrow> ('k, 'v) KeyValueT \<Rightarrow> nat" where
  "find_index_kv nd kv = lower_bound (\<lambda>x. kv_less x kv) (keys_array nd) 0 (n_keys nd)"

definition node_at :: "('k, 'v) tree_store \<Rightarrow> page_id \<Rightarrow> btree_error + ('k, 'v) BTreeNode" where
  "node_at h p = (case h p of None \<Rightarrow> Inl NullPage | Some nd \<Rightarrow> Inr nd)"

text \<open>\<open>std::move\<close> of the cells from \<open>a\<close> to before \<open>b\<close> by one place, and \<open>std::copy\<close> to the front.\<close>

definition shift_right :: "nat \<Rightarrow> nat \<Rightarrow> 'a list \<Rightarrow> 'a list" where
  "shift_right a b xs = take (a + 1) xs @ take (b - a) (drop a xs) @ drop (b + 1) xs"

definition copy_front :: "'a list \<Rightarrow> 'a list \<Rightarrow> 'a list" where
  "copy_front src dst = src @ drop (length src) dst"

section \<open>Insertion\<close>

definition insert_simple :: "nat \<Rightarrow> page_id \<Rightarrow> page_id \<Rightarrow> page_id \<Rightarrow> nat \<Rightarrow> ('k, 'v) KeyValueT \<Rightarrow>
    ('k, 'v) tree_store \<Rightarrow> btree_error + ('k, 'v) tree_store" where
  "insert_simple D p l r index kv h =
     bindE (node_at h p) (\<lambda>nd.
       if node_full D nd then Inl TreeAssertion
       else bindE (nodes_size nd) (\<lambda>n.
         let ns = shift_right (index + 1) n (nodes_array nd);
             ks = shift_right index (n_keys nd) (keys_array nd)
         in Inr (h(p \<mapsto> nd\<lparr>nodes_array := ns[index := l, index + 1 := r], keys_array := ks[index := kv],
                          n_keys := n_keys nd + 1\<rparr>))))"

definition split_half :: "nat \<Rightarrow> ('k, 'v) page_maker \<Rightarrow> page_id \<Rightarrow> ('k, 'v) tree_store \<Rightarrow>
    btree_error + (page_id \<times> page_id \<times> ('k, 'v) KeyValueT) \<times> ('k, 'v) tree_store" where
  "split_half D make_page p h =
     bindE (node_at h p) (\<lambda>nd.
       if \<not> node_full D nd \<or> is_leaf nd then Inl TreeAssertion
       else
         let ksize = (max_keys_size D - 1) div 2; nsize = max_childs_size D div 2;
             h = h(p \<mapsto> nd\<lparr>n_keys := ksize\<rparr>);
             (q, ks, ns) = make_page h;
             right = \<lparr>keys_array = copy_front (drop (ksize + 1) (keys_array nd)) ks,
                      nodes_array = copy_front (drop nsize (nodes_array nd)) ns, n_keys = ksize, is_leaf = False\<rparr>
         in Inr ((p, q, keys_array nd ! ksize), h(q \<mapsto> right)))"

text \<open>The parts of \<open>insert_impl\<close>: splitting a full leaf; the leaf with space; the separator that goes
  into the parent, which the code has twice; and the new root.\<close>

definition split_leaf :: "nat \<Rightarrow> ('k, 'v) page_maker \<Rightarrow> page_id \<Rightarrow> ('k, 'v) BTreeNode \<Rightarrow> ('k, 'v) tree_store \<Rightarrow>
    (page_id \<times> ('k, 'v) KeyValueT) \<times> ('k, 'v) tree_store" where
  "split_leaf D make_page p nd h =
     (let lsize = max_keys_size D div 2; rsize = max_keys_size D - lsize - 1;
          median = keys_array nd ! lsize;
          (q, ks, ns) = make_page h;
          right = \<lparr>keys_array = copy_front (drop (lsize + 1) (keys_array nd)) ks, nodes_array = ns,
                   n_keys = rsize, is_leaf = True\<rparr>
      in ((q, median), h(q \<mapsto> right, p \<mapsto> nd\<lparr>n_keys := lsize\<rparr>)))"

definition put_in_leaf :: "('k :: linorder, 'v) KeyValueT \<Rightarrow> ('k, 'v) BTreeNode \<Rightarrow> ('k, 'v) BTreeNode" where
  "put_in_leaf kv nd =
     (let index = find_index_kv nd kv;
          ks = (if index \<noteq> n_keys nd then shift_right index (n_keys nd) (keys_array nd) else keys_array nd)
      in nd\<lparr>keys_array := ks[index := kv], n_keys := n_keys nd + 1\<rparr>)"

definition insert_separator :: "nat \<Rightarrow> ('k :: linorder, 'v) page_maker \<Rightarrow> page_id \<Rightarrow> nat \<Rightarrow>
    page_id \<times> page_id \<times> ('k, 'v) KeyValueT \<Rightarrow> ('k, 'v) tree_store \<Rightarrow>
    btree_error + (page_id \<times> page_id \<times> ('k, 'v) KeyValueT) option \<times> ('k, 'v) tree_store" where
  "insert_separator D make_page parent index_in_parent x h =
     (case x of (l, r, kv) \<Rightarrow>
      bindE (node_at h parent) (\<lambda>pn.
        if \<not> node_full D pn then
          if find_index_kv pn kv \<noteq> index_in_parent then Inl TreeAssertion
          else mapE (\<lambda>h. (None, h)) (insert_simple D parent l r index_in_parent kv h)
        else
          bindE (split_half D make_page parent h) (\<lambda>(y, h).
            let node_to = (if kv_less kv (snd (snd y)) then fst y else fst (snd y))
            in bindE (node_at h node_to) (\<lambda>tn.
                 mapE (\<lambda>h. (Some y, h)) (insert_simple D node_to l r (find_index_kv tn kv) kv h)))))"

definition grow_root :: "('k, 'v) page_maker \<Rightarrow> page_id \<times> page_id \<times> ('k, 'v) KeyValueT \<Rightarrow> ('k, 'v) tree_store \<Rightarrow>
    page_id \<times> ('k, 'v) tree_store" where
  "grow_root make_page x h =
     (case x of (l, r, kv) \<Rightarrow>
      let (q, ks, ns) = make_page h
      in (q, h(q \<mapsto> \<lparr>keys_array = ks[0 := kv], nodes_array = ns[0 := l, 1 := r], n_keys = 1, is_leaf = False\<rparr>)))"

definition place :: "nat \<Rightarrow> ('k :: linorder, 'v) page_maker \<Rightarrow> page_id \<Rightarrow> page_id \<Rightarrow> nat \<Rightarrow> page_id \<Rightarrow>
    page_id \<times> page_id \<times> ('k, 'v) KeyValueT \<Rightarrow> ('k, 'v) tree_store \<Rightarrow>
    btree_error + (page_id \<times> page_id \<times> ('k, 'v) KeyValueT) option \<times> page_id \<times> ('k, 'v) tree_store" where
  "place D make_page self parent index_in_parent new_root x h =
     (if parent = self then Inr (None, grow_root make_page x h)
      else mapE (\<lambda>(y, h). (y, new_root, h)) (insert_separator D make_page parent index_in_parent x h))"

text \<open>The depth of the recursion is not bounded by anything the function sees: \<open>None\<close> is a call that
  never returns.\<close>

partial_function (option) insert_impl :: "nat \<Rightarrow> ('k :: linorder, 'v) page_maker \<Rightarrow> ('k, 'v) KeyValueT \<Rightarrow>
    page_id \<Rightarrow> page_id \<Rightarrow> nat \<Rightarrow> page_id \<Rightarrow> ('k, 'v) tree_store \<Rightarrow>
    (btree_error + (page_id \<times> page_id \<times> ('k, 'v) KeyValueT) option \<times> page_id \<times> ('k, 'v) tree_store) option" where
  "insert_impl D make_page kv self parent index_in_parent new_root h =
     (case h self of
        None \<Rightarrow> Some (Inl NullPage)
      | Some nd \<Rightarrow>
          if is_leaf nd then
            if n_keys nd = 0 then
              Some (Inr (None, new_root, h(self \<mapsto> nd\<lparr>keys_array := (keys_array nd)[0 := kv], n_keys := 1\<rparr>)))
            else if node_full D nd then
              let ((q, median), h) = split_leaf D make_page self nd h
              in Option.bind (insert_impl D make_page kv (if kv_less kv median then self else q) parent (2 ^ 64 - 1) new_root h)
                   (\<lambda>r. Some (bindE r (\<lambda>(_, new_root, h).
                      place D make_page self parent index_in_parent new_root (self, q, median) h)))
            else Some (Inr (None, new_root, h(self \<mapsto> put_in_leaf kv nd)))
          else
            let index = find_index_kv nd kv
            in Option.bind (insert_impl D make_page kv (nodes_array nd ! index) self index new_root h)
                 (\<lambda>r. Some (bindE r (\<lambda>(x, new_root, h).
                    case x of None \<Rightarrow> Inr (None, new_root, h)
                    | Some x \<Rightarrow> place D make_page self parent index_in_parent new_root x h))))"

section \<open>Search and the tree\<close>

partial_function (option) btree_find :: "('k :: linorder, 'v) tree_store \<Rightarrow> page_id \<Rightarrow> 'k \<Rightarrow>
    (btree_error + 'v option) option" where
  "btree_find h p k =
     (case h p of
        None \<Rightarrow> Some (Inl NullPage)
      | Some nd \<Rightarrow>
          let index = lower_bound (\<lambda>x. kv_key x < k) (keys_array nd) 0 (n_keys nd)
          in if index \<noteq> n_keys nd \<and> kv_key (keys_array nd ! index) = k
             then Some (Inr (Some (kv_value (keys_array nd ! index))))
             else if is_leaf nd then Some (Inr None)
             else btree_find h (nodes_array nd ! index) k)"

text \<open>
  \<open>verify\<close>, the check of a tree that the tests use, with fuel for the depth (\<open>None\<close> when it is used
  up). The bound \<open>n_keys - 1\<close> of its first loop is an unsigned number: for a node without keys the
  loop runs over the whole array and, unless it finds a descent there, out of it.
\<close>

definition descends :: "('k :: linorder, 'v) KeyValueT list \<Rightarrow> bool" where
  "descends ks \<longleftrightarrow> list_ex (\<lambda>(a, b). kv_less b a) (zip ks (tl ks))"

fun conj_results :: "('e + bool) option list \<Rightarrow> ('e + bool) option" where
  "conj_results [] = Some (Inr True)"
| "conj_results (r # rs) = (if r = Some (Inr True) then conj_results rs else r)"

fun btree_verify :: "nat \<Rightarrow> ('k :: linorder, 'v) tree_store \<Rightarrow> page_id \<Rightarrow> ('k, 'v) KeyValueT option \<Rightarrow>
    ('k, 'v) KeyValueT option \<Rightarrow> (btree_error + bool) option" where
  "btree_verify 0 h p left right = None"
| "btree_verify (Suc fuel) h p left right =
     (case h p of
        None \<Rightarrow> Some (Inl NullPage)
      | Some nd \<Rightarrow>
          let ks = take (n_keys nd) (keys_array nd)
          in if n_keys nd = 0 then Some (if descends (keys_array nd) then Inr False else Inl KeysOverrun)
             else if descends ks then Some (Inr False)
             else if (case left of None \<Rightarrow> False | Some l \<Rightarrow> list_ex (\<lambda>x. kv_less x l) ks) then Some (Inr False)
             else if (case right of None \<Rightarrow> False | Some r \<Rightarrow> list_ex (\<lambda>x. kv_less r x) ks) then Some (Inr False)
             else if is_leaf nd then Some (Inr True)
             else conj_results (map (\<lambda>i. btree_verify fuel h (nodes_array nd ! i)
                    (if i = 0 then None else Some (ks ! (i - 1))) (if i = n_keys nd then None else Some (ks ! i)))
                    [0 ..< n_keys nd + 1]))"

record ('k, 'v) BTree =
  btree_root :: page_id
  btree_pages :: "('k, 'v) tree_store"

text \<open>\<open>BTree::insert\<close>: \<open>False\<close> when the key is there already.\<close>

definition btree_insert :: "nat \<Rightarrow> ('k :: linorder, 'v) page_maker \<Rightarrow> ('k, 'v) KeyValueT \<Rightarrow> ('k, 'v) BTree \<Rightarrow>
    (btree_error + bool \<times> ('k, 'v) BTree) option" where
  "btree_insert D make_page kv t =
     Option.bind (btree_find (btree_pages t) (btree_root t) (kv_key kv)) (\<lambda>r.
       case r of
         Inl e \<Rightarrow> Some (Inl e)
       | Inr (Some v) \<Rightarrow> Some (Inr (False, t))
       | Inr None \<Rightarrow>
           Option.bind (insert_impl D make_page kv (btree_root t) (btree_root t) (2 ^ 64 - 1) (btree_root t) (btree_pages t))
             (\<lambda>r. Some (mapE (\<lambda>(_, root, h). (True, \<lparr>btree_root = root, btree_pages = h\<rparr>)) r)))"

text \<open>A tree whose root is the node that \<open>BTreeNode()\<close> makes, and a sequence of insertions.\<close>

definition new_tree :: "('k, 'v) page_maker \<Rightarrow> ('k, 'v) BTree" where
  "new_tree make_page =
     (case make_page Map.empty of (p, ks, ns) \<Rightarrow>
      \<lparr>btree_root = p, btree_pages = [p \<mapsto> \<lparr>keys_array = ks, nodes_array = ns, n_keys = 0, is_leaf = True\<rparr>]\<rparr>)"

fun btree_inserts :: "nat \<Rightarrow> ('k :: linorder, 'v) page_maker \<Rightarrow> ('k, 'v) KeyValueT list \<Rightarrow> ('k, 'v) BTree \<Rightarrow>
    (btree_error + bool list \<times> ('k, 'v) BTree) option" where
  "btree_inserts D make_page [] bt = Some (Inr ([], bt))"
| "btree_inserts D make_page (kv # kvs) bt =
     Option.bind (btree_insert D make_page kv bt) (\<lambda>r.
       case r of Inl e \<Rightarrow> Some (Inl e)
       | Inr (b, bt) \<Rightarrow> Option.bind (btree_inserts D make_page kvs bt)
           (\<lambda>r. Some (mapE (\<lambda>(bs, bt). (b # bs, bt)) r)))"

end
