(* ===== verification/Db_Btree_Spec.thy ===== *)
theory Db_Btree_Spec
  imports Db_Btree
begin

text \<open>
  The B-tree of the database is a map: the trees that the pages hold, what the splits and the
  recursion of \<open>insert_impl\<close> do to them, and the properties of \<open>insert\<close> and \<open>find\<close>.
\<close>

section \<open>The arrays of a node\<close>

lemma shift_right_put:
  assumes "take n xs = as @ bs" "n < length xs" "i = length as"
  shows "take (Suc n) ((shift_right i n xs)[i := v]) = as @ v # bs"
    and "length ((shift_right i n xs)[i := v]) = length xs"
proof -
  have n: "n = length as + length bs" using arg_cong [OF assms(1), of length] assms(2) by simp
  obtain c cs where "drop n xs = c # cs" using assms(2) by (metis Cons_nth_drop_Suc)
  then have xs: "xs = as @ bs @ c # cs" using append_take_drop_id [of n xs] assms(1) by simp
  have "shift_right i n xs = as @ hd (bs @ [c]) # bs @ cs"
    unfolding xs shift_right_def n assms(3) by (cases bs) auto
  then show "take (Suc n) ((shift_right i n xs)[i := v]) = as @ v # bs"
    "length ((shift_right i n xs)[i := v]) = length xs"
    by (simp_all add: n assms(3) xs list_update_append)
qed

lemma shift_right_put2:
  assumes "take n xs = as @ a # bs" "n < length xs" "i = length as"
  shows "take (Suc n) ((shift_right (i + 1) n xs)[i := l, i + 1 := r]) = as @ l # r # bs"
    and "length ((shift_right (i + 1) n xs)[i := l, i + 1 := r]) = length xs"
proof -
  have "(shift_right (i + 1) n xs)[i := l, i + 1 := r] = (shift_right (i + 1) n xs)[i + 1 := r, i := l]"
    by (simp add: list_update_swap)
  moreover have "take (Suc n) ((shift_right (i + 1) n xs)[i + 1 := r]) = (as @ [a]) @ r # bs"
    "length ((shift_right (i + 1) n xs)[i + 1 := r]) = length xs"
    using shift_right_put [of n xs "as @ [a]" bs "i + 1" r] assms by simp_all
  ultimately show "take (Suc n) ((shift_right (i + 1) n xs)[i := l, i + 1 := r]) = as @ l # r # bs"
    "length ((shift_right (i + 1) n xs)[i := l, i + 1 := r]) = length xs"
    by (simp_all add: take_update_swap assms(3))
qed

text \<open>What a node holds: its keys, its children and whether it is a leaf.\<close>

definition node_holds :: "nat \<Rightarrow> ('k, 'v) KeyValueT list \<Rightarrow> page_id list \<Rightarrow> bool \<Rightarrow> ('k, 'v) BTreeNode \<Rightarrow> bool" where
  "node_holds D ks rs lf nd \<longleftrightarrow>
     length (keys_array nd) = max_keys_size D \<and> length (nodes_array nd) = max_childs_size D \<and>
     n_keys nd = length ks \<and> take (length ks) (keys_array nd) = ks \<and> is_leaf nd = lf \<and>
     take (length rs) (nodes_array nd) = rs"

text \<open>\<open>make_page\<close> gives out a page that is not in use, with arrays of the right lengths.\<close>

definition fresh_pages :: "nat \<Rightarrow> ('k, 'v) page_maker \<Rightarrow> bool" where
  "fresh_pages D make_page \<longleftrightarrow> (\<forall>h. finite (dom h) \<longrightarrow>
     (case make_page h of (q, ks, ns) \<Rightarrow> q \<notin> dom h \<and> length ks = max_keys_size D \<and> length ns = max_childs_size D))"

lemma fresh_pagesD:
  assumes "fresh_pages D make_page" "finite (dom h)" "make_page h = (q, ks, ns)"
  shows "q \<notin> dom h" "length ks = max_keys_size D" "length ns = max_childs_size D"
  using assms(1) [unfolded fresh_pages_def, rule_format, OF assms(2)] assms(3) by simp_all

lemma node_holds_full [simp]: "node_holds D ks rs lf nd \<Longrightarrow> node_full D nd \<longleftrightarrow> length ks = max_keys_size D"
  by (simp add: node_holds_def node_full_def)

lemma find_index_split:
  assumes "node_holds D (ka @ kb) rs lf nd" "\<And>x. x \<in> set ka \<Longrightarrow> kv_key x < kv_key kv" "\<And>x. x \<in> set kb \<Longrightarrow> kv_key kv < kv_key x"
    and "length (ka @ kb) \<le> max_keys_size D"
  shows "find_index_kv nd kv = length ka"
proof -
  have n: "n_keys nd = length (ka @ kb)" "take (n_keys nd) (keys_array nd) = ka @ kb" "n_keys nd \<le> length (keys_array nd)"
    using assms(1,4) by (simp_all add: node_holds_def)
  have "kv_less x kv" if "x \<in> set ka" for x using assms(2) [OF that] by (simp add: kv_less_def)
  moreover have "\<not> kv_less x kv" if "x \<in> set kb" for x using assms(3) [OF that] by (simp add: kv_less_def)
  ultimately show ?thesis unfolding find_index_kv_def by (rule lower_bound_split [OF _ _ n(2,3)])
qed

lemma insert_simple_holds:
  assumes "h p = Some nd" "node_holds D (ka @ kb) (ra @ r0 # rb) False nd" "length ra = length ka" "length rb = length kb"
    and "length (ka @ kb) < max_keys_size D"
  obtains nd' where "insert_simple D p l r (length ka) kv h = Inr (h(p \<mapsto> nd'))" "node_holds D (ka @ kv # kb) (ra @ l # r # rb) False nd'"
proof -
  let ?n = "length (ka @ kb)"
  let ?ns = "(shift_right (length ka + 1) (?n + 1) (nodes_array nd))[length ka := l, length ka + 1 := r]"
  let ?ks = "(shift_right (length ka) ?n (keys_array nd))[length ka := kv]"
  note nd = assms(2) [unfolded node_holds_def]
  have "length (ra @ r0 # rb) = ?n + 1" using assms(3,4) by simp
  then have tn: "take (?n + 1) (nodes_array nd) = ra @ r0 # rb" and tk: "take ?n (keys_array nd) = ka @ kb" using nd by simp_all
  have ln: "?n + 1 < length (nodes_array nd)" and lk: "?n < length (keys_array nd)"
    using nd assms(5) by (simp_all add: max_keys_size_def max_childs_size_def)
  note put = shift_right_put2 [OF tn ln assms(3) [symmetric], of l r] shift_right_put [OF tk lk refl, of kv]
  have "length (ka @ kv # kb) = Suc ?n" "length (ra @ l # r # rb) = Suc (?n + 1)" using assms(3,4) by simp_all
  then have "node_holds D (ka @ kv # kb) (ra @ l # r # rb) False (nd\<lparr>nodes_array := ?ns, keys_array := ?ks, n_keys := n_keys nd + 1\<rparr>)"
    using put nd unfolding node_holds_def by simp
  moreover have "insert_simple D p l r (length ka) kv h =
      Inr (h(p \<mapsto> nd\<lparr>nodes_array := ?ns, keys_array := ?ks, n_keys := n_keys nd + 1\<rparr>))"
    unfolding insert_simple_def node_at_def nodes_size_def Let_def node_full_def using nd assms(1,5) by simp
  ultimately show thesis by (rule that [rotated])
qed

lemma split_half_holds:
  assumes "h p = Some nd" "node_holds D (ka @ m # kb) (ra @ rb) False nd" "length ka = D - 1" "length kb = D - 1"
    and "length ra = D" "length rb = D" "2 \<le> D" "fresh_pages D make_page" "finite (dom h)"
  obtains q nl nr where "split_half D make_page p h = Inr ((p, q, m), h(p \<mapsto> nl, q \<mapsto> nr))" "q \<notin> dom h"
    "node_holds D ka ra False nl" "node_holds D kb rb False nr"
proof -
  note nd = assms(2) [unfolded node_holds_def]
  let ?nl = "nd\<lparr>n_keys := D - 1\<rparr>"
  obtain q ks ns where q: "make_page (h(p \<mapsto> ?nl)) = (q, ks, ns)" by (metis prod_cases3)
  have "finite (dom (h(p \<mapsto> ?nl)))" using assms(9) by simp
  note new = fresh_pagesD [OF assms(8) this q]
  have n: "length (ka @ m # kb) = max_keys_size D" using assms(3,4,7) by (simp add: max_keys_size_def)
  have arr: "keys_array nd = ka @ m # kb" "nodes_array nd = ra @ rb"
    using nd assms(5,6) take_all [of "keys_array nd" "max_keys_size D"] take_all [of "nodes_array nd" "2 * D"]
    unfolding n by (simp_all add: max_childs_size_def mult_2)
  have "(max_keys_size D - 1) div 2 = D - 1" "max_childs_size D div 2 = D" using assms(7) by (auto simp: max_keys_size_def max_childs_size_def)
  then have "split_half D make_page p h = Inr ((p, q, m), h(p \<mapsto> ?nl, q \<mapsto>
      \<lparr>keys_array = copy_front kb ks, nodes_array = copy_front rb ns, n_keys = D - 1, is_leaf = False\<rparr>))"
    using assms(1,3,5) q nd n by (simp add: split_half_def node_at_def node_full_def arr nth_append Let_def)
  moreover have "node_holds D ka ra False ?nl" using assms(3-6) nd by (simp add: node_holds_def arr)
  moreover have "node_holds D kb rb False \<lparr>keys_array = copy_front kb ks, nodes_array = copy_front rb ns, n_keys = D - 1, is_leaf = False\<rparr>"
    using new(2,3) assms(4,6) by (simp add: node_holds_def copy_front_def max_keys_size_def max_childs_size_def)
  moreover have "q \<notin> dom h" using new(1) by (auto split: if_splits)
  ultimately show thesis using that by blast
qed

section \<open>The trees that the pages hold\<close>

datatype ('k, 'v) ptree = PNode (root_page: page_id) (node_keys: "('k, 'v) KeyValueT list") (subtrees: "('k, 'v) ptree list")

fun weave :: "'a list \<Rightarrow> 'a list list \<Rightarrow> 'a list" where
  "weave ks [] = ks"
| "weave [] (x # xs) = x @ weave [] xs"
| "weave (k # ks) (x # xs) = x @ k # weave ks xs"

fun inorder :: "('k, 'v) ptree \<Rightarrow> ('k, 'v) KeyValueT list" where
  "inorder (PNode p ks ts) = weave ks (map inorder ts)"

fun tree_pages :: "('k, 'v) ptree \<Rightarrow> page_id list" where
  "tree_pages (PNode p ks ts) = p # concat (map tree_pages ts)"

fun stored :: "nat \<Rightarrow> ('k, 'v) tree_store \<Rightarrow> ('k, 'v) ptree \<Rightarrow> bool" where
  "stored D h (PNode p ks ts) \<longleftrightarrow>
     (\<exists>nd. h p = Some nd \<and> node_holds D ks (map root_page ts) (ts = []) nd) \<and> (\<forall>t \<in> set ts. stored D h t)"

text \<open>All leaves at depth \<open>n\<close>, at least \<open>lo\<close> keys in the root and \<open>D - 1\<close> in every other node.\<close>

fun balanced :: "nat \<Rightarrow> nat \<Rightarrow> nat \<Rightarrow> ('k, 'v) ptree \<Rightarrow> bool" where
  "balanced D lo 0 (PNode p ks ts) \<longleftrightarrow> lo \<le> length ks \<and> length ks \<le> max_keys_size D \<and> ts = []"
| "balanced D lo (Suc n) (PNode p ks ts) \<longleftrightarrow> lo \<le> length ks \<and> length ks \<le> max_keys_size D \<and>
     length ts = length ks + 1 \<and> (\<forall>t \<in> set ts. balanced D (D - 1) n t)"

lemma weave_append: "length ka = length xa \<Longrightarrow> weave (ka @ kb) (xa @ xb) = weave ka xa @ weave kb xb"
  by (induction ka xa rule: list_induct2) simp_all

lemma weave_node:
  "length ka = length xa \<Longrightarrow> length kb = length xb \<Longrightarrow>
    weave (ka @ kb) (xa @ x # xb) = weave ka xa @ x @ (case kb of [] \<Rightarrow> [] | k # ks \<Rightarrow> k # weave ks xb)"
  using weave_append [of ka xa "[]" "[x]"] by (cases kb) (simp_all add: weave_append)

lemma weave_middle: "length xa = length ka + 1 \<Longrightarrow> weave (ka @ m # kb) (xa @ xb) = weave ka xa @ m # weave kb xb"
proof (induction ka arbitrary: xa)
  case Nil
  then obtain x where "xa = [x]" by (auto simp: length_Suc_conv)
  then show ?case by simp
next
  case (Cons k ka)
  then obtain x xa' where "xa = x # xa'" by (cases xa) auto
  then show ?case using Cons by simp
qed

lemma set_weave: "set (weave ks xs) = set ks \<union> (\<Union>x \<in> set xs. set x)"
  by (induction ks xs rule: weave.induct) auto

lemma stored_frame:
  "stored D h t \<Longrightarrow> (\<And>p. p \<in> set (tree_pages t) \<Longrightarrow> h' p = h p) \<Longrightarrow> stored D h' t"
proof (induction t)
  case (PNode p ks ts)
  have "stored D h' t" if "t \<in> set ts" for t using PNode that by auto
  then show ?case using PNode.prems by auto
qed

lemma stored_pages: "stored D h t \<Longrightarrow> set (tree_pages t) \<subseteq> dom h"
  by (induction t) fastforce

lemma root_in_pages [simp]: "root_page t \<in> set (tree_pages t)"
  by (cases t) simp

lemma balanced_weaken: "balanced D a n t \<Longrightarrow> b \<le> a \<Longrightarrow> balanced D b n t"
  by (cases t; cases n) auto

lemma balanced_nil: "balanced D lo n (PNode p ks ts) \<Longrightarrow> ts = [] \<longleftrightarrow> n = 0"
  by (cases n) auto

section \<open>A separator goes into the parent\<close>

abbreviation ordered :: "('k :: linorder, 'v) KeyValueT list \<Rightarrow> bool" where
  "ordered \<equiv> sorted_wrt (\<lambda>a b. kv_key a < kv_key b)"

text \<open>
  What a step of the insertion leaves at page \<open>p\<close> for its caller, in a heap \<open>h'\<close> that has grown from
  \<open>h\<close>: a tree with the entries \<open>xs\<close>, or two trees and the separator between them. Their pages are
  among \<open>P\<close>, or new.
\<close>

definition grown :: "('k, 'v) tree_store \<Rightarrow> page_id set \<Rightarrow> ('k, 'v) tree_store \<Rightarrow> bool" where
  "grown h P h' \<longleftrightarrow> finite (dom h') \<and> dom h \<subseteq> dom h' \<and> (\<forall>q \<in> dom h - P. h' q = h q)"

definition one_tree :: "nat \<Rightarrow> nat \<Rightarrow> nat \<Rightarrow> ('k, 'v) tree_store \<Rightarrow> ('k, 'v) ptree \<Rightarrow> bool" where
  "one_tree D lo n h t \<longleftrightarrow> stored D h t \<and> balanced D lo n t \<and> distinct (tree_pages t)"

definition outcome :: "nat \<Rightarrow> nat \<Rightarrow> nat \<Rightarrow> page_id \<Rightarrow> page_id set \<Rightarrow> ('k, 'v) KeyValueT list \<Rightarrow>
    (page_id \<times> page_id \<times> ('k, 'v) KeyValueT) option \<Rightarrow> ('k, 'v) tree_store \<Rightarrow> bool" where
  "outcome D lo n p P xs x h' \<longleftrightarrow>
     (case x of
        None \<Rightarrow> \<exists>t. root_page t = p \<and> one_tree D lo n h' t \<and> set (tree_pages t) \<subseteq> P \<and> inorder t = xs
      | Some (l, r, k) \<Rightarrow> \<exists>a b. l = p \<and> root_page a = p \<and> root_page b = r \<and> one_tree D (D - 1) n h' a \<and> one_tree D (D - 1) n h' b \<and>
          set (tree_pages a) \<inter> set (tree_pages b) = {} \<and> set (tree_pages a) \<union> set (tree_pages b) \<subseteq> P \<and>
          inorder a @ k # inorder b = xs)"

lemma one_treeI:
  assumes "h p = Some nd" "node_holds D ks (map root_page ts) False nd" "length ts = length ks + 1"
    and "lo \<le> length ks" "length ks \<le> max_keys_size D"
    and "\<And>t. t \<in> set ts \<Longrightarrow> one_tree D (D - 1) n h t" "distinct (p # concat (map tree_pages ts))"
  shows "one_tree D lo (Suc n) h (PNode p ks ts)"
proof -
  have "ts \<noteq> []" using assms(3) by auto
  then show ?thesis using assms by (simp add: one_tree_def)
qed

lemma one_tree_frame:
  assumes "one_tree D lo n h t" "\<And>p. p \<in> set (tree_pages t) \<Longrightarrow> h' p = h p"
  shows "one_tree D lo n h' t"
  using assms stored_frame [of D h t h'] by (simp add: one_tree_def)

lemma ordered_middle:
  assumes "length xa = length ka" "length xb = length kb" "ordered (weave (ka @ m # kb) (xa @ l # r # xb))"
  shows "x \<in> set ka \<Longrightarrow> kv_key x < kv_key m" "x \<in> set kb \<Longrightarrow> kv_key m < kv_key x"
proof -
  have "weave (ka @ m # kb) (xa @ l # r # xb) = weave ka (xa @ [l]) @ m # weave kb (r # xb)"
    using weave_middle [of "xa @ [l]" ka m kb "r # xb"] assms(1) by simp
  then have "ordered (weave ka (xa @ [l]) @ m # weave kb (r # xb))" using assms(3) by simp
  then show "x \<in> set ka \<Longrightarrow> kv_key x < kv_key m" "x \<in> set kb \<Longrightarrow> kv_key m < kv_key x"
    by (auto simp: sorted_wrt_append set_weave)
qed

lemma separator_room:
  assumes "h p = Some nd" "node_holds D (ka @ kb) (map root_page ta @ root_page l # map root_page tb) False nd"
    and "length ta = length ka" "length tb = length kb" "length (ka @ kb) < max_keys_size D" "lo \<le> length (ka @ kb)"
    and "\<And>u. u \<in> set (ta @ l # r # tb) \<Longrightarrow> one_tree D (D - 1) n h u"
    and "distinct (p # concat (map tree_pages (ta @ l # r # tb)))"
    and "ordered (weave (ka @ m # kb) (map inorder (ta @ l # r # tb)))"
    and "set (p # concat (map tree_pages (ta @ l # r # tb))) \<subseteq> dom h" "finite (dom h)"
  shows "\<exists>h'. insert_separator D make_page p (length ka) (root_page l, root_page r, m) h = Inr (None, h') \<and>
    grown h {p} h' \<and> one_tree D lo (Suc n) h' (PNode p (ka @ m # kb) (ta @ l # r # tb))"
proof -
  have "length (map inorder ta) = length ka" "length (map inorder tb) = length kb" using assms(3,4) by simp_all
  note ord = ordered_middle [OF this, of m "inorder l" "inorder r"]
  have idx: "find_index_kv nd m = length ka"
    using find_index_split [OF assms(2), of m] ord assms(5,9) by simp
  obtain nd' where nd': "insert_simple D p (root_page l) (root_page r) (length ka) m h = Inr (h(p \<mapsto> nd'))"
    "node_holds D (ka @ m # kb) (map root_page ta @ root_page l # root_page r # map root_page tb) False nd'"
    by (rule insert_simple_holds [where h = h and p = p and ka = ka and kb = kb and ra = "map root_page ta" and rb = "map root_page tb",
          OF assms(1,2) _ _ assms(5)]) (simp_all add: assms(3,4))
  have "insert_separator D make_page p (length ka) (root_page l, root_page r, m) h = Inr (None, h(p \<mapsto> nd'))"
    using assms(1,2,5) idx nd'(1) by (simp add: insert_separator_def node_at_def)
  moreover have "one_tree D (D - 1) n (h(p \<mapsto> nd')) u" if "u \<in> set (ta @ l # r # tb)" for u
  proof (rule one_tree_frame [OF assms(7) [OF that]])
    show "(h(p \<mapsto> nd')) q = h q" if "q \<in> set (tree_pages u)" for q
      using assms(8) that \<open>u \<in> set (ta @ l # r # tb)\<close> by auto
  qed
  then have "one_tree D lo (Suc n) (h(p \<mapsto> nd')) (PNode p (ka @ m # kb) (ta @ l # r # tb))"
    using one_treeI [of "h(p \<mapsto> nd')" p nd' D "ka @ m # kb" "ta @ l # r # tb" lo n] nd'(2) assms(3-6,8) by simp
  moreover have "grown h {p} (h(p \<mapsto> nd'))" using assms(11) by (auto simp: grown_def)
  ultimately show ?thesis by blast
qed

text \<open>The parent is full: it is split first, and the separator goes into its left or its right half.\<close>

lemma separator_full_left:
  assumes "h p = Some nd" "node_holds D (ka @ kb @ mid # kc) (map root_page ta @ root_page l # map root_page (tb @ tc)) False nd"
    and "length ta = length ka" "length tb = length kb" "length (ka @ kb) = D - 1" "length kc = D - 1" "length tc = D" "2 \<le> D"
    and "\<And>u. u \<in> set (ta @ l # r # tb @ tc) \<Longrightarrow> one_tree D (D - 1) n h u"
    and "distinct (p # concat (map tree_pages (ta @ l # r # tb @ tc)))"
    and "ordered (weave (ka @ m # kb @ mid # kc) (map inorder (ta @ l # r # tb @ tc)))"
    and "set (p # concat (map tree_pages (ta @ l # r # tb @ tc))) \<subseteq> dom h" "finite (dom h)" "fresh_pages D make_page"
  shows "\<exists>q h'. insert_separator D make_page p (length ka) (root_page l, root_page r, m) h = Inr (Some (p, q, mid), h') \<and>
    grown h {p} h' \<and> q \<notin> dom h \<and> one_tree D (D - 1) (Suc n) h' (PNode p (ka @ m # kb) (ta @ l # r # tb)) \<and>
    one_tree D (D - 1) (Suc n) h' (PNode q kc tc)"
proof -
  have len: "length (map root_page (ta @ l # tb)) = D" "length (map root_page tc) = D" "length (ka @ kb) = D - 1"
    using assms(3-8) by auto
  have nd: "node_holds D ((ka @ kb) @ mid # kc) (map root_page (ta @ l # tb) @ map root_page tc) False nd" using assms(2) by simp
  obtain q nl nr where sp: "split_half D make_page p h = Inr ((p, q, mid), h(p \<mapsto> nl, q \<mapsto> nr))" "q \<notin> dom h"
    "node_holds D (ka @ kb) (map root_page (ta @ l # tb)) False nl" "node_holds D kc (map root_page tc) False nr"
    by (rule split_half_holds [where h = h and p = p, OF assms(1) nd len(3) assms(6) len(1,2) assms(8,14,13)])
  let ?h1 = "h(p \<mapsto> nl, q \<mapsto> nr)"
  have pq: "p \<noteq> q" using sp(2) assms(1) by auto
  have full: "node_full D nd" using node_holds_full [OF assms(2)] assms(5,6,8) by (simp add: max_keys_size_def)
  have split: "weave (ka @ m # kb @ mid # kc) (map inorder (ta @ l # r # tb @ tc)) =
      weave (ka @ m # kb) (map inorder (ta @ l # r # tb)) @ mid # weave kc (map inorder tc)"
    using weave_middle [of "map inorder (ta @ l # r # tb)" "ka @ m # kb" mid kc "map inorder tc"] assms(3,4) by simp
  have ord: "ordered (weave (ka @ m # kb) (map inorder (ta @ l # r # tb)))" and "kv_key m < kv_key mid"
    using assms(11) unfolding split by (auto simp: sorted_wrt_append set_weave)
  then have less: "kv_less m mid" by (simp add: kv_less_def)
  have "length (map inorder ta) = length ka" "length (map inorder tb) = length kb" using assms(3,4) by simp_all
  note ord = ordered_middle [OF this, of m "inorder l" "inorder r"] ord
  have lt: "length (ka @ kb) < max_keys_size D" using assms(5,8) by (simp add: max_keys_size_def)
  have idx: "find_index_kv nl m = length ka"
    using find_index_split [OF sp(3), of m] ord lt by simp
  have h1: "?h1 p = Some nl" "?h1 q = Some nr" using pq by simp_all
  have nl: "node_holds D (ka @ kb) (map root_page ta @ root_page l # map root_page tb) False nl" using sp(3) by simp
  obtain nl' where nl': "insert_simple D p (root_page l) (root_page r) (length ka) m ?h1 = Inr (?h1(p \<mapsto> nl'))"
    "node_holds D (ka @ m # kb) (map root_page ta @ root_page l # root_page r # map root_page tb) False nl'"
    by (rule insert_simple_holds [where h = ?h1 and p = p and ka = ka and kb = kb and ra = "map root_page ta" and rb = "map root_page tb",
          OF h1(1) nl _ _ lt]) (simp_all add: assms(3,4))
  let ?h2 = "?h1(p \<mapsto> nl')"
  have "insert_separator D make_page p (length ka) (root_page l, root_page r, m) h = Inr (Some (p, q, mid), ?h2)"
    using assms(1) full sp(1) less idx nl'(1) h1(1) by (simp add: insert_separator_def node_at_def)
  moreover have kids: "one_tree D (D - 1) n ?h2 u" if "u \<in> set (ta @ l # r # tb @ tc)" for u
  proof (rule one_tree_frame [OF assms(9) [OF that]])
    show "?h2 x = h x" if "x \<in> set (tree_pages u)" for x
      using assms(10,12) sp(2) that \<open>u \<in> set (ta @ l # r # tb @ tc)\<close> by auto
  qed
  moreover have "one_tree D (D - 1) (Suc n) ?h2 (PNode p (ka @ m # kb) (ta @ l # r # tb))"
  proof (rule one_treeI [of _ _ nl'])
    show "distinct (p # concat (map tree_pages (ta @ l # r # tb)))" using assms(10) by auto
    show "one_tree D (D - 1) n ?h2 u" if "u \<in> set (ta @ l # r # tb)" for u using kids [of u] that by auto
  qed (use nl'(2) assms(3-5) lt in simp_all)
  moreover have "one_tree D (D - 1) (Suc n) ?h2 (PNode q kc tc)"
  proof (rule one_treeI [of _ _ nr])
    show "distinct (q # concat (map tree_pages tc))" using assms(10,12) sp(2) by auto
  qed (use sp(4) h1(2) pq kids assms(6-8) in \<open>simp_all add: max_keys_size_def\<close>)
  moreover have "grown h {p} ?h2" using assms(13) sp(2) by (auto simp: grown_def)
  ultimately show ?thesis using sp(2) by blast
qed

lemma separator_full_right:
  assumes "h p = Some nd" "node_holds D (kc @ mid # ka @ kb) (map root_page (tc @ ta) @ root_page l # map root_page tb) False nd"
    and "length ta = length ka" "length tb = length kb" "length (ka @ kb) = D - 1" "length kc = D - 1" "length tc = D" "2 \<le> D"
    and "\<And>u. u \<in> set (tc @ ta @ l # r # tb) \<Longrightarrow> one_tree D (D - 1) n h u"
    and "distinct (p # concat (map tree_pages (tc @ ta @ l # r # tb)))"
    and "ordered (weave (kc @ mid # ka @ m # kb) (map inorder (tc @ ta @ l # r # tb)))"
    and "set (p # concat (map tree_pages (tc @ ta @ l # r # tb))) \<subseteq> dom h" "finite (dom h)" "fresh_pages D make_page"
  shows "\<exists>q h'. insert_separator D make_page p i (root_page l, root_page r, m) h = Inr (Some (p, q, mid), h') \<and>
    grown h {p} h' \<and> q \<notin> dom h \<and> one_tree D (D - 1) (Suc n) h' (PNode p kc tc) \<and>
    one_tree D (D - 1) (Suc n) h' (PNode q (ka @ m # kb) (ta @ l # r # tb))"
proof -
  have len: "length (map root_page tc) = D" "length (map root_page (ta @ l # tb)) = D" "length (ka @ kb) = D - 1"
    using assms(3-8) by auto
  have nd: "node_holds D (kc @ mid # ka @ kb) (map root_page tc @ map root_page (ta @ l # tb)) False nd" using assms(2) by simp
  obtain q nl nr where sp: "split_half D make_page p h = Inr ((p, q, mid), h(p \<mapsto> nl, q \<mapsto> nr))" "q \<notin> dom h"
    "node_holds D kc (map root_page tc) False nl" "node_holds D (ka @ kb) (map root_page (ta @ l # tb)) False nr"
    by (rule split_half_holds [where h = h and p = p, OF assms(1) nd assms(6) len(3,1,2) assms(8,14,13)])
  let ?h1 = "h(p \<mapsto> nl, q \<mapsto> nr)"
  have pq: "p \<noteq> q" using sp(2) assms(1) by auto
  have full: "node_full D nd" using node_holds_full [OF assms(2)] assms(5,6,8) by (simp add: max_keys_size_def)
  have split: "weave (kc @ mid # ka @ m # kb) (map inorder (tc @ ta @ l # r # tb)) =
      weave kc (map inorder tc) @ mid # weave (ka @ m # kb) (map inorder (ta @ l # r # tb))"
    using weave_middle [of "map inorder tc" kc mid "ka @ m # kb" "map inorder (ta @ l # r # tb)"] assms(6-8) by simp
  have ord: "ordered (weave (ka @ m # kb) (map inorder (ta @ l # r # tb)))" and "kv_key mid < kv_key m"
    using assms(11) unfolding split by (auto simp: sorted_wrt_append set_weave)
  then have less: "\<not> kv_less m mid" by (simp add: kv_less_def)
  have "length (map inorder ta) = length ka" "length (map inorder tb) = length kb" using assms(3,4) by simp_all
  note ord = ordered_middle [OF this, of m "inorder l" "inorder r"] ord
  have lt: "length (ka @ kb) < max_keys_size D" using assms(5,8) by (simp add: max_keys_size_def)
  have idx: "find_index_kv nr m = length ka"
    using find_index_split [OF sp(4), of m] ord lt by simp
  have h1: "?h1 p = Some nl" "?h1 q = Some nr" using pq by simp_all
  have nr: "node_holds D (ka @ kb) (map root_page ta @ root_page l # map root_page tb) False nr" using sp(4) by simp
  obtain nr' where nr': "insert_simple D q (root_page l) (root_page r) (length ka) m ?h1 = Inr (?h1(q \<mapsto> nr'))"
    "node_holds D (ka @ m # kb) (map root_page ta @ root_page l # root_page r # map root_page tb) False nr'"
    by (rule insert_simple_holds [where h = ?h1 and p = q and ka = ka and kb = kb and ra = "map root_page ta" and rb = "map root_page tb",
          OF h1(2) nr _ _ lt]) (simp_all add: assms(3,4))
  let ?h2 = "?h1(q \<mapsto> nr')"
  have "insert_separator D make_page p i (root_page l, root_page r, m) h = Inr (Some (p, q, mid), ?h2)"
    using assms(1) full sp(1) less idx nr'(1) h1(2) by (simp add: insert_separator_def node_at_def)
  moreover have kids: "one_tree D (D - 1) n ?h2 u" if "u \<in> set (tc @ ta @ l # r # tb)" for u
  proof (rule one_tree_frame [OF assms(9) [OF that]])
    show "?h2 x = h x" if "x \<in> set (tree_pages u)" for x
      using assms(10,12) sp(2) that \<open>u \<in> set (tc @ ta @ l # r # tb)\<close> by auto
  qed
  moreover have "one_tree D (D - 1) (Suc n) ?h2 (PNode q (ka @ m # kb) (ta @ l # r # tb))"
  proof (rule one_treeI [of _ _ nr'])
    show "distinct (q # concat (map tree_pages (ta @ l # r # tb)))" using assms(10,12) sp(2) by auto
    show "one_tree D (D - 1) n ?h2 u" if "u \<in> set (ta @ l # r # tb)" for u using kids [of u] that by auto
  qed (use nr'(2) assms(3-5) lt in simp_all)
  moreover have "one_tree D (D - 1) (Suc n) ?h2 (PNode p kc tc)"
  proof (rule one_treeI [of _ _ nl])
    show "distinct (p # concat (map tree_pages tc))" using assms(10) by auto
  qed (use sp(3) h1(1) pq kids assms(6-8) in \<open>simp_all add: max_keys_size_def\<close>)
  moreover have "grown h {p} ?h2" using assms(13) sp(2) by (auto simp: grown_def)
  ultimately show ?thesis using sp(2) by blast
qed

lemma split_list_at:
  assumes "i \<le> length xs"
  obtains as bs where "xs = as @ bs" "length as = i"
  using assms that [of "take i xs" "drop i xs"] by simp

lemma separator_outcome:
  assumes "h p = Some nd" "node_holds D (ka @ kb) (map root_page ta @ root_page l # map root_page tb) False nd"
    and "length ta = length ka" "length tb = length kb" "length (ka @ kb) \<le> max_keys_size D" "lo \<le> length (ka @ kb)" "2 \<le> D"
    and "\<And>u. u \<in> set (ta @ l # r # tb) \<Longrightarrow> one_tree D (D - 1) n h u"
    and "distinct (p # concat (map tree_pages (ta @ l # r # tb)))"
    and "ordered (weave (ka @ m # kb) (map inorder (ta @ l # r # tb)))"
    and "set (p # concat (map tree_pages (ta @ l # r # tb))) \<subseteq> dom h" "finite (dom h)" "fresh_pages D make_page"
    and "set (p # concat (map tree_pages (ta @ l # r # tb))) \<subseteq> P" "- dom h \<subseteq> P"
  shows "\<exists>x h'. insert_separator D make_page p (length ka) (root_page l, root_page r, m) h = Inr (x, h') \<and>
    grown h {p} h' \<and> outcome D lo (Suc n) p P (weave (ka @ m # kb) (map inorder (ta @ l # r # tb))) x h'"
proof -
  consider "length (ka @ kb) < max_keys_size D" | "length (ka @ kb) = max_keys_size D" "length ka \<le> D - 1"
    | "length (ka @ kb) = max_keys_size D" "D \<le> length ka" using assms(5) by linarith
  then show ?thesis
  proof cases
    case 1
    obtain h' where "insert_separator D make_page p (length ka) (root_page l, root_page r, m) h = Inr (None, h')"
      "grown h {p} h'" "one_tree D lo (Suc n) h' (PNode p (ka @ m # kb) (ta @ l # r # tb))"
      using separator_room [where h = h and p = p, OF assms(1-4) 1 assms(6,8-12)] by blast
    moreover from this(3) have "outcome D lo (Suc n) p P (weave (ka @ m # kb) (map inorder (ta @ l # r # tb))) None h'"
      using assms(14) unfolding outcome_def option.case
      by (intro exI [of _ "PNode p (ka @ m # kb) (ta @ l # r # tb)"]) simp
    ultimately show ?thesis by blast
  next
    case 2
    have "D - 1 - length ka \<le> length kb" using 2 by (simp add: max_keys_size_def)
    then obtain kb1 k2 where k: "kb = kb1 @ k2" "length kb1 = D - 1 - length ka" by (rule split_list_at)
    then have "length k2 = D" using 2 assms(7) by (auto simp: max_keys_size_def)
    then obtain mid kc where k2: "k2 = mid # kc" "length kc = D - 1" using assms(7) by (cases k2) auto
    have "length kb1 \<le> length tb" using assms(4) k(1) by simp
    then obtain tb1 tc where tbc: "tb = tb1 @ tc" "length tb1 = length kb1" by (rule split_list_at)
    then have tc: "length tc = D" using assms(4) k(1) \<open>length k2 = D\<close> by simp
    have len: "length (ka @ kb1) = D - 1" using k(2) 2(2) by simp
    note eq = k(1) k2(1) tbc(1)
    obtain q h' where s: "insert_separator D make_page p (length ka) (root_page l, root_page r, m) h = Inr (Some (p, q, mid), h')"
      "grown h {p} h'" "q \<notin> dom h" "one_tree D (D - 1) (Suc n) h' (PNode p (ka @ m # kb1) (ta @ l # r # tb1))"
      "one_tree D (D - 1) (Suc n) h' (PNode q kc tc)"
      using separator_full_left [where h = h and p = p, OF assms(1) assms(2) [unfolded eq] assms(3) tbc(2) len k2(2) tc
          assms(7) assms(8) [unfolded eq] assms(9) [unfolded eq] assms(10) [unfolded eq] assms(11) [unfolded eq] assms(12,13)]
      by blast
    have "weave (ka @ m # kb) (map inorder (ta @ l # r # tb)) =
        inorder (PNode p (ka @ m # kb1) (ta @ l # r # tb1)) @ mid # inorder (PNode q kc tc)"
      using weave_middle [of "map inorder (ta @ l # r # tb1)" "ka @ m # kb1" mid kc "map inorder tc"] assms(3) tbc(2) eq by simp
    then have "outcome D lo (Suc n) p P (weave (ka @ m # kb) (map inorder (ta @ l # r # tb))) (Some (p, q, mid)) h'"
      using s(3-5) assms(9,11,14,15) unfolding outcome_def option.case prod.case
      by (intro exI [of _ "PNode p (ka @ m # kb1) (ta @ l # r # tb1)"] exI [of _ "PNode q kc tc"]) (auto simp: eq)
    then show ?thesis using s(1,2) by blast
  next
    case 3
    have "D - 1 \<le> length ka" "D \<le> length ta" using 3(2) assms(3) by simp_all
    then obtain kc k2 tc ta1 where k: "ka = kc @ k2" "length kc = D - 1" and tac: "ta = tc @ ta1" "length tc = D"
      by (metis split_list_at)
    then have "k2 \<noteq> []" using 3 assms(7) by auto
    then obtain mid ka1 where k2: "k2 = mid # ka1" by (cases k2) auto
    have len: "length ta1 = length ka1" "length (ka1 @ kb) = D - 1"
      using assms(3,7) k k2 tac 3(1) by (auto simp: max_keys_size_def)
    note eq = k(1) k2 tac(1)
    have a2: "node_holds D (kc @ mid # ka1 @ kb) (map root_page (tc @ ta1) @ root_page l # map root_page tb) False nd"
      using assms(2) eq by simp
    obtain q h' where s: "insert_separator D make_page p (length ka) (root_page l, root_page r, m) h = Inr (Some (p, q, mid), h')"
      "grown h {p} h'" "q \<notin> dom h" "one_tree D (D - 1) (Suc n) h' (PNode p kc tc)"
      "one_tree D (D - 1) (Suc n) h' (PNode q (ka1 @ m # kb) (ta1 @ l # r # tb))"
      using separator_full_right [where h = h and p = p and r = r and n = n and m = m and i = "length ka", OF assms(1) a2 len(1) assms(4) len(2) k(2) tac(2)
          assms(7) _ _ _ _ assms(12,13)] assms(8-11) eq by auto
    have "weave (ka @ m # kb) (map inorder (ta @ l # r # tb)) =
        inorder (PNode p kc tc) @ mid # inorder (PNode q (ka1 @ m # kb) (ta1 @ l # r # tb))"
      using weave_middle [of "map inorder tc" kc mid "ka1 @ m # kb" "map inorder (ta1 @ l # r # tb)"] k(2) tac(2) assms(7) eq by simp
    then have "outcome D lo (Suc n) p P (weave (ka @ m # kb) (map inorder (ta @ l # r # tb))) (Some (p, q, mid)) h'"
      using s(3-5) assms(9,11,14,15) unfolding outcome_def option.case prod.case
      by (intro exI [of _ "PNode p kc tc"] exI [of _ "PNode q (ka1 @ m # kb) (ta1 @ l # r # tb)"]) (auto simp: eq)
    then show ?thesis using s(1,2) by blast
  qed
qed

section \<open>The recursion\<close>

abbreviation insort_kv :: "('k :: linorder, 'v) KeyValueT \<Rightarrow> ('k, 'v) KeyValueT list \<Rightarrow> ('k, 'v) KeyValueT list" where
  "insort_kv \<equiv> insort_key kv_key"

lemma insort_middle:
  assumes "\<And>x. x \<in> set as \<Longrightarrow> kv_key x < kv_key kv" "\<And>x. x \<in> set bs \<Longrightarrow> kv_key kv < kv_key x"
  shows "insort_kv kv (as @ xs @ bs) = as @ insort_kv kv xs @ bs"
  using assms
proof (induction as)
  case Nil
  have "insort_kv kv bs = kv # bs" using Nil(2) by (cases bs) (auto simp: less_imp_le)
  then show ?case by (induction xs) auto
next
  case (Cons a as)
  then have "\<not> kv_key kv \<le> kv_key a" by (simp add: not_le)
  then show ?case using Cons by simp
qed

lemma insort_ordered:
  "ordered xs \<Longrightarrow> kv_key kv \<notin> kv_key ` set xs \<Longrightarrow> ordered (insort_kv kv xs)"
proof (induction xs)
  case (Cons y ys)
  show ?case
  proof (cases "kv_key kv \<le> kv_key y")
    case True
    then have "kv_key kv < kv_key y" using Cons.prems(2) by (simp add: order_less_le)
    then show ?thesis using Cons.prems True by (auto intro: less_trans)
  next
    case False
    then show ?thesis using Cons by (auto simp: set_insort_key not_le)
  qed
qed simp

text \<open>A page keeps its entries below, and above, the place of a new key.\<close>

lemma split_keys:
  assumes "ordered ks" "k \<notin> kv_key ` set ks"
  obtains ka kb where "ks = ka @ kb" "\<And>x. x \<in> set ka \<Longrightarrow> kv_key x < k" "\<And>x. x \<in> set kb \<Longrightarrow> k < kv_key x"
proof (rule that [of "takeWhile (\<lambda>x. kv_key x < k) ks" "dropWhile (\<lambda>x. kv_key x < k) ks"])
  show "k < kv_key x" if "x \<in> set (dropWhile (\<lambda>x. kv_key x < k) ks)" for x
    using assms that
  proof (induction ks)
    case (Cons y ys)
    then show ?case by (auto split: if_splits simp: not_less order_le_less dest: less_trans)
  qed simp
qed (auto dest: set_takeWhileD)

lemma ordered_node_keys: "ordered (weave ks xs) \<Longrightarrow> ordered ks"
  by (induction ks xs rule: weave.induct) (auto simp: sorted_wrt_append set_weave)

lemma put_in_leaf_holds:
  assumes "node_holds D (ka @ kb) [] True nd" "length (ka @ kb) < max_keys_size D"
    and "\<And>x. x \<in> set ka \<Longrightarrow> kv_key x < kv_key kv" "\<And>x. x \<in> set kb \<Longrightarrow> kv_key kv < kv_key x"
  shows "node_holds D (ka @ kv # kb) [] True (put_in_leaf kv nd)"
proof -
  let ?n = "length (ka @ kb)"
  have idx: "find_index_kv nd kv = length ka" using find_index_split [OF assms(1,3,4)] assms(2) by simp
  have nd: "length (keys_array nd) = max_keys_size D" "length (nodes_array nd) = max_childs_size D" "n_keys nd = ?n"
    "take ?n (keys_array nd) = ka @ kb" "is_leaf nd" using assms(1) by (simp_all add: node_holds_def)
  have lk: "?n < length (keys_array nd)" using nd(1) assms(2) by simp
  let ?ks = "(shift_right (length ka) ?n (keys_array nd))[length ka := kv]"
  note put = shift_right_put [OF nd(4) lk refl, of kv]
  have "(keys_array nd)[?n := kv] = ?ks" if "kb = []"
  proof -
    obtain c cs where "drop ?n (keys_array nd) = c # cs" using lk by (metis Cons_nth_drop_Suc)
    then have "keys_array nd = ka @ c # cs" using append_take_drop_id [of ?n "keys_array nd"] nd(4) that by simp
    then show ?thesis using that by (simp add: shift_right_def)
  qed
  then have "put_in_leaf kv nd = nd\<lparr>keys_array := ?ks, n_keys := ?n + 1\<rparr>"
    by (auto simp: put_in_leaf_def idx nd(3) Let_def)
  moreover have "length (ka @ kv # kb) = Suc ?n" by simp
  ultimately show ?thesis using put nd(1,2,5) by (simp add: node_holds_def)
qed

lemma leaf_room:
  assumes "h p = Some nd" "node_holds D ks [] True nd" "length ks < max_keys_size D"
    and "ordered ks" "kv_key kv \<notin> kv_key ` set ks"
  obtains nd' where "\<And>parent idx root. insert_impl D make_page kv p parent idx root h = Some (Inr (None, root, h(p \<mapsto> nd')))"
    "node_holds D (insort_kv kv ks) [] True nd'"
proof (cases "ks = []")
  case True
  have "node_holds D [kv] [] True (nd\<lparr>keys_array := (keys_array nd)[0 := kv], n_keys := 1\<rparr>)"
    using assms(2,3) True by (cases "keys_array nd") (auto simp: node_holds_def)
  moreover have "insert_impl D make_page kv p parent idx root h =
      Some (Inr (None, root, h(p \<mapsto> nd\<lparr>keys_array := (keys_array nd)[0 := kv], n_keys := 1\<rparr>)))" for parent idx root
    using assms(1,2) True by (subst insert_impl.simps) (simp add: node_holds_def)
  ultimately show thesis using that True by simp
next
  case False
  obtain ka kb where k: "ks = ka @ kb" "\<And>x. x \<in> set ka \<Longrightarrow> kv_key x < kv_key kv" "\<And>x. x \<in> set kb \<Longrightarrow> kv_key kv < kv_key x"
    by (rule split_keys [OF assms(4,5)]) blast
  have "insort_kv kv ks = ka @ kv # kb" using insort_middle [OF k(2,3), where xs = "[]"] k(1) by simp
  moreover have "node_holds D (ka @ kv # kb) [] True (put_in_leaf kv nd)"
    using put_in_leaf_holds [OF _ _ k(2,3)] assms(2,3) k(1) by simp
  moreover have "insert_impl D make_page kv p parent idx root h = Some (Inr (None, root, h(p \<mapsto> put_in_leaf kv nd)))" for parent idx root
    using assms(1-3) False by (subst insert_impl.simps) (simp add: node_holds_def node_full_def)
  ultimately show thesis using that by simp
qed

lemma split_leaf_holds:
  assumes "node_holds D (ka @ m # kb) [] True nd" "length ka = D - 1" "length kb = D - 1" "2 \<le> D"
    and "fresh_pages D make_page" "finite (dom h)"
  obtains q nl nr where "split_leaf D make_page p nd h = ((q, m), h(q \<mapsto> nr, p \<mapsto> nl))" "q \<notin> dom h"
    "node_holds D ka [] True nl" "node_holds D kb [] True nr"
proof -
  note nd = assms(1) [unfolded node_holds_def]
  obtain q ks ns where q: "make_page h = (q, ks, ns)" by (metis prod_cases3)
  note new = fresh_pagesD [OF assms(5,6) q]
  let ?nl = "nd\<lparr>n_keys := D - 1\<rparr>"
    and ?nr = "\<lparr>keys_array = copy_front kb ks, nodes_array = ns, n_keys = D - 1, is_leaf = True\<rparr>"
  have n: "length (ka @ m # kb) = max_keys_size D" using assms(2-4) by (simp add: max_keys_size_def)
  have arr: "keys_array nd = ka @ m # kb"
    using nd take_all [of "keys_array nd" "max_keys_size D"] unfolding n by simp
  have "max_keys_size D div 2 = D - 1" "max_keys_size D - (D - 1) - 1 = D - 1" using assms(4) by (auto simp: max_keys_size_def)
  then have "split_leaf D make_page p nd h = ((q, m), h(q \<mapsto> ?nr, p \<mapsto> ?nl))"
    using assms(2) q by (simp add: split_leaf_def arr nth_append Let_def)
  moreover have "node_holds D ka [] True ?nl" using assms(2) nd by (simp add: node_holds_def arr)
  moreover have "node_holds D kb [] True ?nr"
    using new(2,3) assms(3) by (simp add: node_holds_def copy_front_def max_keys_size_def)
  ultimately show thesis using that new(1) by blast
qed

text \<open>A call of \<open>insert_impl\<close> first updates or splits the node it is called on; what it does to the
  parent is \<open>place\<close>.\<close>

definition then_place :: "nat \<Rightarrow> ('k :: linorder, 'v) page_maker \<Rightarrow> page_id \<Rightarrow> page_id \<Rightarrow> nat \<Rightarrow> page_id \<Rightarrow>
    (page_id \<times> page_id \<times> ('k, 'v) KeyValueT) option \<Rightarrow> ('k, 'v) tree_store \<Rightarrow>
    btree_error + (page_id \<times> page_id \<times> ('k, 'v) KeyValueT) option \<times> page_id \<times> ('k, 'v) tree_store" where
  "then_place D make_page self parent idx root x h =
     (case x of None \<Rightarrow> Inr (None, root, h) | Some y \<Rightarrow> place D make_page self parent idx root y h)"

lemma one_leafI:
  assumes "h p = Some nd" "node_holds D ks [] True nd" "lo \<le> length ks" "length ks \<le> max_keys_size D"
  shows "one_tree D lo 0 h (PNode p ks [])"
  using assms by (simp add: one_tree_def)

lemma leaf_step:
  assumes "one_tree D lo 0 h (PNode p ks [])" "finite (dom h)" "fresh_pages D make_page" "2 \<le> D"
    and "ordered ks" "kv_key kv \<notin> kv_key ` set ks"
  shows "\<exists>x h'. (\<forall>parent idx root. insert_impl D make_page kv p parent idx root h =
      Some (then_place D make_page p parent idx root x h')) \<and>
    grown h {p} h' \<and> outcome D lo 0 p ({p} \<union> - dom h) (insort_kv kv ks) x h'"
proof -
  obtain nd where nd: "h p = Some nd" "node_holds D ks [] True nd" "lo \<le> length ks" "length ks \<le> max_keys_size D"
    using assms(1) by (auto simp: one_tree_def)
  show ?thesis
  proof (cases "length ks < max_keys_size D")
    case True
    obtain nd' where nd': "\<And>parent idx root. insert_impl D make_page kv p parent idx root h = Some (Inr (None, root, h(p \<mapsto> nd')))"
      "node_holds D (insort_kv kv ks) [] True nd'"
      by (rule leaf_room [where h = h and p = p, OF nd(1,2) True assms(5,6)]) blast
    have "one_tree D lo 0 (h(p \<mapsto> nd')) (PNode p (insort_kv kv ks) [])"
      using nd'(2) nd(3) True by (intro one_leafI) auto
    then have "outcome D lo 0 p ({p} \<union> - dom h) (insort_kv kv ks) None (h(p \<mapsto> nd'))"
      unfolding outcome_def option.case by (intro exI [of _ "PNode p (insort_kv kv ks) []"]) simp
    moreover have "grown h {p} (h(p \<mapsto> nd'))" using assms(2) by (auto simp: grown_def)
    ultimately show ?thesis using nd'(1) by (intro exI [of _ None] exI [of _ "h(p \<mapsto> nd')"]) (simp add: then_place_def)
  next
    case False
    then have full: "length ks = max_keys_size D" using nd(4) by simp
    then have "D - 1 \<le> length ks" by (simp add: max_keys_size_def)
    then obtain ka k2 where k: "ks = ka @ k2" "length ka = D - 1" by (rule split_list_at)
    then have "length k2 = D" using full assms(4) by (simp add: max_keys_size_def)
    then obtain m kb where k2: "k2 = m # kb" "length kb = D - 1" using assms(4) by (cases k2) auto
    note eq = k(1) k2(1)
    obtain q nl nr where s: "split_leaf D make_page p nd h = ((q, m), h(q \<mapsto> nr, p \<mapsto> nl))" "q \<notin> dom h"
      "node_holds D ka [] True nl" "node_holds D kb [] True nr"
      by (rule split_leaf_holds [OF nd(2) [unfolded eq] k(2) k2(2) assms(4,3,2)])
    let ?h1 = "h(q \<mapsto> nr, p \<mapsto> nl)"
    have pq: "p \<noteq> q" using s(2) nd(1) by auto
    have lt: "D - 1 < max_keys_size D" using assms(4) by (simp add: max_keys_size_def)
    have ord: "ordered ka" "ordered kb" "\<And>x. x \<in> set ka \<Longrightarrow> kv_key x < kv_key m" "\<And>x. x \<in> set kb \<Longrightarrow> kv_key m < kv_key x"
      using assms(5) unfolding eq by (auto simp: sorted_wrt_append)
    have mk: "kv_key kv \<noteq> kv_key m" "kv_key kv \<notin> kv_key ` set ka" "kv_key kv \<notin> kv_key ` set kb"
      using assms(6) unfolding eq by auto
    have step: "insert_impl D make_page kv p parent idx root h = Some (then_place D make_page p parent idx root (Some (p, q, m)) h2)"
      if "\<And>parent idx root. insert_impl D make_page kv (if kv_less kv m then p else q) parent idx root ?h1 = Some (Inr (None, root, h2))"
      for h2 parent idx root
      using nd(1,2) full s(1) that lt
      by (subst insert_impl.simps) (simp add: node_holds_def node_full_def then_place_def)
    show ?thesis
    proof (cases "kv_less kv m")
      case True
      have h1p: "?h1 p = Some nl" by simp
      obtain nl' where nl': "\<And>parent idx root. insert_impl D make_page kv p parent idx root ?h1 = Some (Inr (None, root, ?h1(p \<mapsto> nl')))"
        "node_holds D (insort_kv kv ka) [] True nl'"
        by (rule leaf_room [where h = ?h1 and p = p, OF h1p s(3) _ ord(1) mk(2)]) (use k(2) lt in auto)
      let ?h2 = "?h1(p \<mapsto> nl')"
      have "one_tree D (D - 1) 0 ?h2 (PNode p (insort_kv kv ka) [])" "one_tree D (D - 1) 0 ?h2 (PNode q kb [])"
        using nl'(2) s(4) k(2) k2(2) lt pq by (auto intro!: one_leafI)
      moreover have "insort_kv kv ks = insort_kv kv ka @ m # kb"
        using insort_middle [of "[]" kv "m # kb" ka] True ord(4) by (auto simp: eq kv_less_def intro: less_trans)
      ultimately have "outcome D lo 0 p ({p} \<union> - dom h) (insort_kv kv ks) (Some (p, q, m)) ?h2"
        using s(2) pq unfolding outcome_def option.case prod.case
        by (intro exI [of _ "PNode p (insort_kv kv ka) []"] exI [of _ "PNode q kb []"]) simp
      moreover have "grown h {p} ?h2" using assms(2) s(2) by (auto simp: grown_def)
      ultimately show ?thesis using step [OF _, of ?h2] nl'(1) True
        by (intro exI [of _ "Some (p, q, m)"] exI [of _ ?h2]) simp
    next
      case False
      have h1q: "?h1 q = Some nr" using pq by simp
      obtain nr' where nr': "\<And>parent idx root. insert_impl D make_page kv q parent idx root ?h1 = Some (Inr (None, root, ?h1(q \<mapsto> nr')))"
        "node_holds D (insort_kv kv kb) [] True nr'"
        by (rule leaf_room [where h = ?h1 and p = q, OF h1q s(4) _ ord(2) mk(3)]) (use k2(2) lt in auto)
      let ?h2 = "?h1(q \<mapsto> nr')"
      have "one_tree D (D - 1) 0 ?h2 (PNode p ka [])" "one_tree D (D - 1) 0 ?h2 (PNode q (insort_kv kv kb) [])"
        using nr'(2) s(3) k(2) k2(2) lt pq by (auto intro!: one_leafI)
      moreover have "kv_key m < kv_key kv" using False mk(1) by (simp add: kv_less_def not_less order_less_le)
      then have "insort_kv kv ks = ka @ m # insort_kv kv kb"
        using insort_middle [of "ka @ [m]" kv "[]" kb] ord(3) by (auto simp: eq intro: less_trans)
      ultimately have "outcome D lo 0 p ({p} \<union> - dom h) (insort_kv kv ks) (Some (p, q, m)) ?h2"
        using s(2) pq unfolding outcome_def option.case prod.case
        by (intro exI [of _ "PNode p ka []"] exI [of _ "PNode q (insort_kv kv kb) []"]) simp
      moreover have "grown h {p} ?h2" using assms(2) s(2) by (auto simp: grown_def)
      ultimately show ?thesis using step [OF _, of ?h2] nr'(1) False
        by (intro exI [of _ "Some (p, q, m)"] exI [of _ ?h2]) simp
    qed
  qed
qed

lemma weave_grow:
  "length ka = length xa \<Longrightarrow> length kb = length xb \<Longrightarrow>
    weave (ka @ kb) (xa @ (a @ k # b) # xb) = weave (ka @ k # kb) (xa @ a # b # xb)"
  using weave_append [of ka xa "[]" "[a @ k # b]"] by (cases kb) (simp_all add: weave_append)

lemma grown_trans:
  assumes "grown h P h1" "grown h1 Q h2" "Q \<inter> dom h \<subseteq> P"
  shows "grown h P h2"
proof -
  have "h2 q = h q" if "q \<in> dom h" "q \<notin> P" for q
  proof -
    have "q \<in> dom h1 - Q" using assms that by (auto simp: grown_def)
    then show ?thesis using assms(1,2) that by (simp add: grown_def)
  qed
  moreover have "dom h \<subseteq> dom h1" "dom h1 \<subseteq> dom h2" "finite (dom h2)" using assms(1,2) by (simp_all add: grown_def)
  ultimately show ?thesis unfolding grown_def by blast
qed

lemma apart: "N \<subseteq> S \<union> - H \<Longrightarrow> A \<subseteq> H \<Longrightarrow> A \<inter> S = {} \<Longrightarrow> N \<inter> A = {}"
  by blast

lemma grown_mono: "grown h P h1 \<Longrightarrow> P \<subseteq> Q \<Longrightarrow> grown h Q h1"
  by (auto simp: grown_def)

lemma one_treeD:
  assumes "one_tree D lo (Suc n) h (PNode p ks ts)"
  obtains nd where "h p = Some nd" "node_holds D ks (map root_page ts) False nd" "length ts = length ks + 1" "lo \<le> length ks"
    "length ks \<le> max_keys_size D" "\<And>t. t \<in> set ts \<Longrightarrow> one_tree D (D - 1) n h t" "distinct (p # concat (map tree_pages ts))"
    "set (p # concat (map tree_pages ts)) \<subseteq> dom h"
proof -
  have "distinct (tree_pages t)" if "t \<in> set ts" for t
    using assms that distinct_concat_iff [of "map tree_pages ts"] by (auto simp: one_tree_def)
  moreover have "set (tree_pages (PNode p ks ts)) \<subseteq> dom h" using assms stored_pages [of D h "PNode p ks ts"] by (simp add: one_tree_def)
  moreover have "ts \<noteq> []" using assms by (auto simp: one_tree_def)
  ultimately show thesis using assms that by (auto simp: one_tree_def)
qed

lemma child_step:
  assumes "one_tree D lo (Suc n) h (PNode p (ka @ kb) (ta @ t # tb))" "length ta = length ka" "finite (dom h)"
    and "fresh_pages D make_page" "2 \<le> D"
    and "grown h (set (tree_pages t)) h1" "outcome D (D - 1) n (root_page t) (set (tree_pages t) \<union> - dom h) xs x h1"
    and "ordered (weave (ka @ kb) (map inorder ta @ xs # map inorder tb))"
  defines "P \<equiv> set (tree_pages (PNode p (ka @ kb) (ta @ t # tb)))"
  shows "\<exists>y h2. (\<forall>root. then_place D make_page (root_page t) p (length ka) root x h1 = Inr (y, root, h2)) \<and> grown h P h2 \<and>
    outcome D lo (Suc n) p (P \<union> - dom h) (weave (ka @ kb) (map inorder ta @ xs # map inorder tb)) y h2"
proof -
  obtain nd where T: "h p = Some nd" "node_holds D (ka @ kb) (map root_page (ta @ t # tb)) False nd"
    "length (ta @ t # tb) = length (ka @ kb) + 1" "lo \<le> length (ka @ kb)" "length (ka @ kb) \<le> max_keys_size D"
    "\<And>u. u \<in> set (ta @ t # tb) \<Longrightarrow> one_tree D (D - 1) n h u" "distinct (p # concat (map tree_pages (ta @ t # tb)))"
    "set (p # concat (map tree_pages (ta @ t # tb))) \<subseteq> dom h"
    by (rule one_treeD [OF assms(1)]) blast
  have same: "h1 q = h q" if "q \<in> dom h" "q \<notin> set (tree_pages t)" for q using assms(6) that by (simp add: grown_def)
  have p: "p \<in> dom h" "p \<notin> set (tree_pages t)" "p \<noteq> root_page t" using T(1,7) root_in_pages [of t] by auto
  have lb: "length tb = length kb" using T(3) assms(2) by simp
  have dom: "dom h \<subseteq> dom h1" "finite (dom h1)" using assms(6) by (auto simp: grown_def)
  have nd: "h1 p = Some nd" using same [OF p(1,2)] T(1) by simp
  have far: "one_tree D (D - 1) n h1 u" if "u \<in> set ta \<union> set tb" for u
  proof (rule one_tree_frame [OF T(6)])
    show "h1 q = h q" if "q \<in> set (tree_pages u)" for q
      using T(7,8) that \<open>u \<in> set ta \<union> set tb\<close> by (intro same) auto
  qed (use that in auto)
  have PT: "set (tree_pages t) \<subseteq> P" by (auto simp: P_def)
  have away: "N \<inter> (\<Union>u \<in> set ta. set (tree_pages u)) = {}" "N \<inter> (\<Union>u \<in> set tb. set (tree_pages u)) = {}" "p \<notin> N"
    if "N \<subseteq> set (tree_pages t) \<union> - dom h" for N
  proof -
    have a: "(\<Union>u \<in> set ta. set (tree_pages u)) \<subseteq> dom h" "(\<Union>u \<in> set ta. set (tree_pages u)) \<inter> set (tree_pages t) = {}"
      and b: "(\<Union>u \<in> set tb. set (tree_pages u)) \<subseteq> dom h" "(\<Union>u \<in> set tb. set (tree_pages u)) \<inter> set (tree_pages t) = {}"
      using T(7,8) by auto
    show "N \<inter> (\<Union>u \<in> set ta. set (tree_pages u)) = {}" by (rule apart [OF that a])
    show "N \<inter> (\<Union>u \<in> set tb. set (tree_pages u)) = {}" by (rule apart [OF that b])
    show "p \<notin> N" using subsetD [OF that, of p] p(1,2) by auto
  qed
  have g1: "grown h P h1" by (rule grown_mono [OF assms(6) PT])
  show ?thesis
  proof (cases x)
    case None
    then obtain t' where t': "root_page t' = root_page t" "one_tree D (D - 1) n h1 t'"
      "set (tree_pages t') \<subseteq> set (tree_pages t) \<union> - dom h" "inorder t' = xs"
      using assms(7) by (auto simp: outcome_def)
    have "one_tree D lo (Suc n) h1 (PNode p (ka @ kb) (ta @ t' # tb))"
    proof (rule one_treeI [where h = h1 and p = p, OF nd])
      show "node_holds D (ka @ kb) (map root_page (ta @ t' # tb)) False nd" using T(2) t'(1) by simp
      show "distinct (p # concat (map tree_pages (ta @ t' # tb)))"
        using T(7) t'(2) away [OF t'(3)] by (simp add: one_tree_def Int_Un_distrib Int_commute)
    qed (use T(3-5) far t'(2) in auto)
    then have "outcome D lo (Suc n) p (P \<union> - dom h) (weave (ka @ kb) (map inorder ta @ xs # map inorder tb)) None h1"
      using t'(3,4) unfolding outcome_def option.case P_def
      by (intro exI [of _ "PNode p (ka @ kb) (ta @ t' # tb)"]) auto
    then show ?thesis using None g1 by (auto simp: then_place_def)
  next
    case (Some y)
    obtain k a b where y: "y = (root_page t, root_page b, k)" "root_page a = root_page t" "one_tree D (D - 1) n h1 a"
      "one_tree D (D - 1) n h1 b" "set (tree_pages a) \<inter> set (tree_pages b) = {}"
      "set (tree_pages a) \<union> set (tree_pages b) \<subseteq> set (tree_pages t) \<union> - dom h" "inorder a @ k # inorder b = xs"
      using assms(7) Some unfolding outcome_def by (cases y) auto
    have Y: "weave (ka @ kb) (map inorder ta @ xs # map inorder tb) = weave (ka @ k # kb) (map inorder (ta @ a # b # tb))"
      using weave_grow [of ka "map inorder ta" kb "map inorder tb" "inorder a" k "inorder b"] assms(2) lb y(7) by simp
    have holds: "node_holds D (ka @ kb) (map root_page ta @ root_page a # map root_page tb) False nd" using T(2) y(2) by simp
    have all: "one_tree D (D - 1) n h1 u" if "u \<in> set (ta @ a # b # tb)" for u using far y(3,4) that by auto
    have dist: "distinct (p # concat (map tree_pages (ta @ a # b # tb)))"
      using T(7) y(3-5) away [of "set (tree_pages a)"] away [of "set (tree_pages b)"] y(6)
      by (simp add: one_tree_def Int_Un_distrib Int_commute)
    have "set (tree_pages a) \<union> set (tree_pages b) \<subseteq> dom h1"
      using stored_pages [of D h1 a] stored_pages [of D h1 b] y(3,4) by (simp add: one_tree_def)
    then have sub: "set (p # concat (map tree_pages (ta @ a # b # tb))) \<subseteq> dom h1"
      using T(8) dom(1) by (simp add: subset_trans [OF _ dom(1)] subsetD [OF dom(1)])
    have subP: "set (p # concat (map tree_pages (ta @ a # b # tb))) \<subseteq> P \<union> - dom h" "- dom h1 \<subseteq> P \<union> - dom h"
      using y(6) PT dom(1) by (auto simp: P_def)
    obtain z h2 where z: "insert_separator D make_page p (length ka) (root_page a, root_page b, k) h1 = Inr (z, h2)"
      "grown h1 {p} h2" "outcome D lo (Suc n) p (P \<union> - dom h) (weave (ka @ k # kb) (map inorder (ta @ a # b # tb))) z h2"
      using separator_outcome [where h = h1 and p = p, OF nd holds assms(2) lb T(5,4) assms(5) all dist
          assms(8) [unfolded Y] sub dom(2) assms(4) subP] by blast
    have "grown h P h2" by (rule grown_trans [OF g1 z(2)]) (auto simp: P_def)
    then show ?thesis using z(1,3) y(1,2) Some p(3) Y by (auto simp: then_place_def place_def)
  qed
qed

lemma weave_last: "length ka = length xa \<Longrightarrow> ka \<noteq> [] \<Longrightarrow> \<exists>w. weave ka xa = w @ [last ka]"
proof (induction ka xa rule: list_induct2)
  case (Cons k ks x xs)
  show ?case
  proof (cases "ks = []")
    case False
    then obtain w where "weave ks xs = w @ [last ks]" using Cons.IH by blast
    then show ?thesis using False by (intro exI [of _ "x @ k # w"]) simp
  qed (use Cons.hyps in simp)
qed simp

text \<open>The entries on both sides of the child that a key belongs to.\<close>

lemma child_bounds:
  assumes "ordered (weave (ka @ kb) (xa @ x # xb))" "length ka = length xa" "length kb = length xb"
    and "\<And>y. y \<in> set ka \<Longrightarrow> kv_key y < k" "\<And>y. y \<in> set kb \<Longrightarrow> k < kv_key y"
  shows "\<exists>va vb. (\<forall>y. weave (ka @ kb) (xa @ y # xb) = va @ y @ vb) \<and> ordered x \<and>
    (\<forall>y \<in> set va. kv_key y < k) \<and> (\<forall>y \<in> set vb. k < kv_key y)"
proof -
  let ?b = "case kb of [] \<Rightarrow> [] | k # ks \<Rightarrow> k # weave ks xb"
  have w: "weave (ka @ kb) (xa @ y # xb) = weave ka xa @ y @ ?b" for y by (rule weave_node [OF assms(2,3)])
  have o: "ordered (weave ka xa)" "ordered x" "ordered ?b" using assms(1) unfolding w by (auto simp: sorted_wrt_append)
  have "kv_key y < k" if y: "y \<in> set (weave ka xa)" for y
  proof (cases "ka = []")
    case True
    then show ?thesis using y assms(2) by simp
  next
    case False
    then obtain v where v: "weave ka xa = v @ [last ka]" using weave_last [OF assms(2)] by blast
    have "kv_key (last ka) < k" using assms(4) False by simp
    moreover have "y = last ka \<or> kv_key y < kv_key (last ka)" using y o(1) unfolding v by (auto simp: sorted_wrt_append)
    ultimately show ?thesis by (auto intro: less_trans)
  qed
  moreover have "k < kv_key y" if y: "y \<in> set ?b" for y
  proof (cases kb)
    case (Cons l ks)
    then have "k < kv_key l" using assms(5) by simp
    moreover have "y = l \<or> kv_key l < kv_key y" using y o(3) Cons by auto
    ultimately show ?thesis by (auto intro: less_trans)
  qed (use y in simp)
  ultimately show ?thesis using w o(2) by blast
qed

lemma around_child:
  assumes "ordered (weave (ka @ kb) (xa @ x # xb))" "length ka = length xa" "length kb = length xb"
    and "\<And>y. y \<in> set ka \<Longrightarrow> kv_key y < kv_key kv" "\<And>y. y \<in> set kb \<Longrightarrow> kv_key kv < kv_key y"
  shows "ordered x" "insort_kv kv (weave (ka @ kb) (xa @ x # xb)) = weave (ka @ kb) (xa @ insort_kv kv x # xb)"
proof -
  obtain va vb where v: "\<And>y. weave (ka @ kb) (xa @ y # xb) = va @ y @ vb" "ordered x"
    "\<And>y. y \<in> set va \<Longrightarrow> kv_key y < kv_key kv" "\<And>y. y \<in> set vb \<Longrightarrow> kv_key kv < kv_key y"
    using child_bounds [OF assms] by blast
  show "ordered x" by (rule v(2))
  show "insort_kv kv (weave (ka @ kb) (xa @ x # xb)) = weave (ka @ kb) (xa @ insort_kv kv x # xb)"
    unfolding v(1) by (rule insort_middle [OF v(3,4)])
qed

lemma insert_impl_step:
  assumes "one_tree D lo n h t" "finite (dom h)" "fresh_pages D make_page" "2 \<le> D"
    and "ordered (inorder t)" "kv_key kv \<notin> kv_key ` set (inorder t)"
  shows "\<exists>x h'. (\<forall>parent idx root. insert_impl D make_page kv (root_page t) parent idx root h =
      Some (then_place D make_page (root_page t) parent idx root x h')) \<and>
    grown h (set (tree_pages t)) h' \<and>
    outcome D lo n (root_page t) (set (tree_pages t) \<union> - dom h) (insort_kv kv (inorder t)) x h'"
  using assms(1,5,6)
proof (induction n arbitrary: lo t)
  case 0
  obtain p ks ts where t: "t = PNode p ks ts" by (cases t)
  then have "ts = []" using 0(1) by (simp add: one_tree_def)
  then show ?case using leaf_step [of D lo h p ks make_page kv] 0 assms(2-4) t by simp
next
  case (Suc n)
  obtain p ks ts where t: "t = PNode p ks ts" by (cases t)
  obtain nd where T: "h p = Some nd" "node_holds D ks (map root_page ts) False nd"
    "length ts = length ks + 1" "lo \<le> length ks" "length ks \<le> max_keys_size D"
    "\<And>u. u \<in> set ts \<Longrightarrow> one_tree D (D - 1) n h u" "distinct (p # concat (map tree_pages ts))"
    "set (p # concat (map tree_pages ts)) \<subseteq> dom h"
    by (rule one_treeD [OF Suc.prems(1) [unfolded t]]) blast
  have "ordered ks" "kv_key kv \<notin> kv_key ` set ks"
    using Suc.prems(2,3) ordered_node_keys by (auto simp: t set_weave)
  then obtain ka kb where k: "ks = ka @ kb" "\<And>x. x \<in> set ka \<Longrightarrow> kv_key x < kv_key kv" "\<And>x. x \<in> set kb \<Longrightarrow> kv_key kv < kv_key x"
    by (rule split_keys) blast
  have "length ka \<le> length ts" using T(3) k(1) by simp
  then obtain ta ts2 where ta: "ts = ta @ ts2" "length ta = length ka" by (rule split_list_at)
  then obtain u tb where ts2: "ts2 = u # tb" using T(3) k(1) by (cases ts2) auto
  note eq = k(1) ta(1) ts2
  have T': "t = PNode p (ka @ kb) (ta @ u # tb)" by (simp add: t eq)
  have lb: "length tb = length kb" using T(3) ta(2) eq by simp
  have u: "one_tree D (D - 1) n h u" using T(6) eq by simp
  have i: "find_index_kv nd kv = length ka"
    using find_index_split [OF T(2) [unfolded k(1)] k(2,3)] T(5) k(1) by simp
  have "take (length ts) (nodes_array nd) = map root_page ts" using T(2) by (simp add: node_holds_def)
  then have "nodes_array nd ! length ka = map root_page ts ! length ka"
    using nth_take [of "length ka" "length ts" "nodes_array nd"] ta eq by simp
  then have child: "nodes_array nd ! length ka = root_page u" using ta(2) eq by (simp add: nth_append)
  have "ordered (weave (ka @ kb) (map inorder ta @ inorder u # map inorder tb))" using Suc.prems(2) by (simp add: t eq)
  note around = around_child [OF this _ _ k(2,3)]
  have uo: "ordered (inorder u)" and ins: "insort_kv kv (inorder t) = weave (ka @ kb) (map inorder ta @ insort_kv kv (inorder u) # map inorder tb)"
    using around ta(2) lb by (simp_all add: t eq)
  have "kv_key kv \<notin> kv_key ` set (inorder u)" using Suc.prems(3) by (auto simp: t eq set_weave)
  from Suc.IH [OF u uo this] obtain x h1 where x: "\<And>parent idx root. insert_impl D make_page kv (root_page u) parent idx root h =
      Some (then_place D make_page (root_page u) parent idx root x h1)" "grown h (set (tree_pages u)) h1"
    "outcome D (D - 1) n (root_page u) (set (tree_pages u) \<union> - dom h) (insort_kv kv (inorder u)) x h1" by blast
  have ord: "ordered (insort_kv kv (inorder t))" using Suc.prems(2,3) by (rule insort_ordered)
  obtain y h2 where y: "\<And>root. then_place D make_page (root_page u) p (length ka) root x h1 = Inr (y, root, h2)"
    "grown h (set (tree_pages t)) h2" "outcome D lo (Suc n) p (set (tree_pages t) \<union> - dom h) (insort_kv kv (inorder t)) y h2"
    using child_step [OF Suc.prems(1) [unfolded T'] ta(2) assms(2-4) x(2,3) ord [unfolded ins]]
    unfolding T' [symmetric] ins [symmetric] by (elim exE conjE) blast
  have "insert_impl D make_page kv p parent idx root h = Some (then_place D make_page p parent idx root y h2)" for parent idx root
    using T(1,2) x(1) y(1)
    by (subst insert_impl.simps) (simp add: node_holds_def i child then_place_def)
  then show ?case using y(2,3) t by auto
qed

section \<open>The tree is a map\<close>

definition kv_map :: "('k, 'v) KeyValueT list \<Rightarrow> 'k \<Rightarrow> 'v option" where
  "kv_map xs = map_of (map (\<lambda>x. (kv_key x, kv_value x)) xs)"

lemma kv_map_simps [simp]:
  "kv_map [] = Map.empty"
  "kv_map (x # xs) = (kv_map xs)(kv_key x \<mapsto> kv_value x)"
  "kv_map (xs @ ys) = kv_map ys ++ kv_map xs"
  by (simp_all add: kv_map_def)

lemma dom_kv_map: "dom (kv_map xs) = kv_key ` set xs"
  by (simp add: kv_map_def dom_map_of_conv_image_fst image_image)

lemma kv_map_None [simp]: "kv_map xs k = None \<longleftrightarrow> k \<notin> kv_key ` set xs"
  using dom_kv_map [of xs] by blast

lemma kv_map_insort:
  "kv_key kv \<notin> kv_key ` set xs \<Longrightarrow> kv_map (insort_kv kv xs) = (kv_map xs)(kv_key kv \<mapsto> kv_value kv)"
  by (induction xs) (auto simp: fun_upd_twist)

lemma split_search:
  assumes "ordered ks"
  obtains ka kb where "ks = ka @ kb" "\<And>x. x \<in> set ka \<Longrightarrow> kv_key x < k" "\<And>x. x \<in> set kb \<Longrightarrow> k \<le> kv_key x"
proof (rule that [of "takeWhile (\<lambda>x. kv_key x < k) ks" "dropWhile (\<lambda>x. kv_key x < k) ks"])
  show "k \<le> kv_key x" if "x \<in> set (dropWhile (\<lambda>x. kv_key x < k) ks)" for x
    using assms that
  proof (induction ks)
    case (Cons y ys)
    then show ?case by (auto split: if_splits simp: not_less dest: less_imp_le order_trans)
  qed simp
qed (auto dest: set_takeWhileD)

lemma node_search:
  assumes "node_holds D ks rs lf nd" "length ks \<le> max_keys_size D" "ordered ks"
  obtains (found) ka x kb where "ks = ka @ x # kb" "kv_key x = k" "keys_array nd ! length ka = x"
      "lower_bound (\<lambda>x. kv_key x < k) (keys_array nd) 0 (n_keys nd) = length ka" "length ka < n_keys nd"
  | (absent) ka kb where "ks = ka @ kb" "\<And>x. x \<in> set ka \<Longrightarrow> kv_key x < k" "\<And>x. x \<in> set kb \<Longrightarrow> k < kv_key x"
      "lower_bound (\<lambda>x. kv_key x < k) (keys_array nd) 0 (n_keys nd) = length ka"
      "length ka = n_keys nd \<or> kv_key (keys_array nd ! length ka) \<noteq> k"
proof -
  obtain ka kb where k: "ks = ka @ kb" "\<And>x. x \<in> set ka \<Longrightarrow> kv_key x < k" "\<And>x. x \<in> set kb \<Longrightarrow> k \<le> kv_key x"
    by (rule split_search [OF assms(3), of k], rule that)
  have nd: "take (n_keys nd) (keys_array nd) = ka @ kb" "n_keys nd \<le> length (keys_array nd)" "n_keys nd = length (ka @ kb)"
    using assms(1,2) k(1) by (simp_all add: node_holds_def)
  have lb: "lower_bound (\<lambda>x. kv_key x < k) (keys_array nd) 0 (n_keys nd) = length ka"
    by (rule lower_bound_split [OF _ _ nd(1,2)]) (use k(2,3) in \<open>auto simp: not_less\<close>)
  have at: "keys_array nd ! length ka = (ka @ kb) ! length ka" if "length ka < n_keys nd"
    using nth_take [OF that, of "keys_array nd"] nd(1) by simp
  show thesis
  proof (cases "kb \<noteq> [] \<and> kv_key (hd kb) = k")
    case True
    then obtain x kc where x: "kb = x # kc" "kv_key x = k" by (cases kb) auto
    then have "length ka < n_keys nd" using nd(3) by simp
    then show thesis using found [of ka x kc] k(1) x lb at by simp
  next
    case False
    have "k < kv_key x" if "x \<in> set kb" for x
    proof (cases kb)
      case (Cons y kc)
      then have "k < kv_key y" using k(3) [of y] False by (simp add: order_less_le)
      moreover have "x = y \<or> kv_key y < kv_key x" using assms(3) k(1) Cons that by (auto simp: sorted_wrt_append)
      ultimately show ?thesis by (auto intro: less_trans)
    qed (use that in simp)
    moreover have "length ka = n_keys nd \<or> kv_key (keys_array nd ! length ka) \<noteq> k"
      using False at nd(3) by (cases kb) auto
    ultimately show thesis using absent [of ka kb] k(1,2) lb by blast
  qed
qed

lemma kv_map_Some: "ordered xs \<Longrightarrow> x \<in> set xs \<Longrightarrow> kv_map xs (kv_key x) = Some (kv_value x)"
  by (induction xs) auto

lemma btree_find_spec:
  "one_tree D lo n h t \<Longrightarrow> ordered (inorder t) \<Longrightarrow> btree_find h (root_page t) k = Some (Inr (kv_map (inorder t) k))"
proof (induction n arbitrary: lo t)
  case 0
  obtain p ks ts where t: "t = PNode p ks ts" by (cases t)
  then have ts: "ts = []" using 0(1) by (simp add: one_tree_def)
  obtain nd where nd: "h p = Some nd" "node_holds D ks [] True nd" "length ks \<le> max_keys_size D" "is_leaf nd"
    using 0(1) by (auto simp: one_tree_def t ts node_holds_def)
  have o: "ordered ks" using 0(2) by (simp add: t ts)
  from nd(2,3) o show ?case
  proof (rule node_search [of D ks "[]" True nd k])
    fix ka x kb assume "ks = ka @ x # kb" "kv_key x = k" "keys_array nd ! length ka = x"
      "lower_bound (\<lambda>x. kv_key x < k) (keys_array nd) 0 (n_keys nd) = length ka" "length ka < n_keys nd"
    then show ?thesis using nd(1) kv_map_Some [OF o, of x] by (subst btree_find.simps) (simp add: t ts)
  next
    fix ka kb assume k: "ks = ka @ kb" "\<And>x. x \<in> set ka \<Longrightarrow> kv_key x < k" "\<And>x. x \<in> set kb \<Longrightarrow> k < kv_key x"
      "lower_bound (\<lambda>x. kv_key x < k) (keys_array nd) 0 (n_keys nd) = length ka"
      "length ka = n_keys nd \<or> kv_key (keys_array nd ! length ka) \<noteq> k"
    then have "kv_map ks k = None" by force
    then show ?thesis using k(4,5) nd(1,4) by (subst btree_find.simps) (auto simp: t ts simp del: kv_map_None)
  qed
next
  case (Suc n)
  obtain p ks ts where t: "t = PNode p ks ts" by (cases t)
  obtain nd where T: "h p = Some nd" "node_holds D ks (map root_page ts) False nd"
    "length ts = length ks + 1" "length ks \<le> max_keys_size D" "\<And>u. u \<in> set ts \<Longrightarrow> one_tree D (D - 1) n h u"
    by (rule one_treeD [OF Suc.prems(1) [unfolded t]]) blast
  have o: "ordered ks" using Suc.prems(2) ordered_node_keys by (auto simp: t)
  have leaf: "\<not> is_leaf nd" using T(2) by (simp add: node_holds_def)
  from T(2,4) o show ?case
  proof (rule node_search [of D ks "map root_page ts" False nd k])
    fix ka x kb assume "ks = ka @ x # kb" "kv_key x = k" "keys_array nd ! length ka = x"
      "lower_bound (\<lambda>x. kv_key x < k) (keys_array nd) 0 (n_keys nd) = length ka" "length ka < n_keys nd"
    moreover then have "x \<in> set (inorder t)" by (simp add: t set_weave)
    ultimately show ?thesis using T(1) kv_map_Some [OF Suc.prems(2), of x] by (subst btree_find.simps) (simp add: t)
  next
    fix ka kb assume k: "ks = ka @ kb" "\<And>x. x \<in> set ka \<Longrightarrow> kv_key x < k" "\<And>x. x \<in> set kb \<Longrightarrow> k < kv_key x"
      "lower_bound (\<lambda>x. kv_key x < k) (keys_array nd) 0 (n_keys nd) = length ka"
      "length ka = n_keys nd \<or> kv_key (keys_array nd ! length ka) \<noteq> k"
    have "length ka \<le> length ts" using T(3) k(1) by simp
    then obtain ta ts2 where ta: "ts = ta @ ts2" "length ta = length ka" by (rule split_list_at)
    then obtain u tb where ts2: "ts2 = u # tb" using T(3) k(1) by (cases ts2) auto
    note eq = k(1) ta(1) ts2
    have lb: "length (map inorder tb) = length kb" using T(3) ta(2) eq by simp
    have la: "length (map inorder ta) = length ka" using ta(2) by simp
    have "take (length ts) (nodes_array nd) = map root_page ts" using T(2) by (simp add: node_holds_def)
    then have "nodes_array nd ! length ka = map root_page ts ! length ka"
      using nth_take [of "length ka" "length ts" "nodes_array nd"] ta eq by simp
    then have child: "nodes_array nd ! length ka = root_page u" using ta(2) eq by (simp add: nth_append)
    have w: "inorder t = weave (ka @ kb) (map inorder ta @ inorder u # map inorder tb)" by (simp add: t eq)
    obtain va vb where v: "\<And>y. weave (ka @ kb) (map inorder ta @ y # map inorder tb) = va @ y @ vb" "ordered (inorder u)"
      "\<And>y. y \<in> set va \<Longrightarrow> kv_key y < k" "\<And>y. y \<in> set vb \<Longrightarrow> k < kv_key y"
      using child_bounds [OF Suc.prems(2) [unfolded w] la [symmetric] lb [symmetric] k(2,3)] by blast
    have "k \<notin> kv_key ` set va" "k \<notin> kv_key ` set vb" using v(3,4) by force+
    then have n: "kv_map va k = None" "kv_map vb k = None" by simp_all
    then have "kv_map (inorder t) k = kv_map (inorder u) k"
      unfolding w v(1) by (simp add: map_add_def n del: kv_map_None split: option.splits)
    moreover have "btree_find h (root_page u) k = Some (Inr (kv_map (inorder u) k))"
      by (rule Suc.IH [OF T(5) v(2)]) (simp add: eq)
    ultimately show ?thesis using k(4,5) T(1) leaf child by (subst btree_find.simps) (auto simp: t)
  qed
qed

text \<open>The tree \<open>t\<close> implements the map \<open>m\<close>.\<close>

definition tree_map :: "nat \<Rightarrow> ('k :: linorder, 'v) BTree \<Rightarrow> ('k \<rightharpoonup> 'v) \<Rightarrow> bool" where
  "tree_map D bt m \<longleftrightarrow> finite (dom (btree_pages bt)) \<and>
     (\<exists>n t. root_page t = btree_root bt \<and> one_tree D (if n = 0 then 0 else 1) n (btree_pages bt) t \<and>
        ordered (inorder t) \<and> m = kv_map (inorder t))"

lemma grow_root_holds:
  assumes "one_tree D (D - 1) n h a" "one_tree D (D - 1) n h b" "set (tree_pages a) \<inter> set (tree_pages b) = {}"
    and "finite (dom h)" "fresh_pages D make_page" "2 \<le> D"
  shows "\<exists>q h'. grow_root make_page (root_page a, root_page b, k) h = (q, h') \<and> q \<notin> dom h \<and> finite (dom h') \<and>
    dom h \<subseteq> dom h' \<and> (\<forall>x \<in> dom h. h' x = h x) \<and> one_tree D 1 (Suc n) h' (PNode q [k] [a, b])"
proof -
  obtain q ks ns where q: "make_page h = (q, ks, ns)" by (metis prod_cases3)
  note new = fresh_pagesD [OF assms(5,4) q]
  let ?nd = "\<lparr>keys_array = ks[0 := k], nodes_array = ns[0 := root_page a, 1 := root_page b], n_keys = 1, is_leaf = False\<rparr>"
  have pages: "set (tree_pages a) \<subseteq> dom h" "set (tree_pages b) \<subseteq> dom h"
    using assms(1,2) stored_pages [of D h a] stored_pages [of D h b] by (simp_all add: one_tree_def)
  have "1 < length ns" "0 < length ks" using new(2,3) assms(6) by (simp_all add: max_keys_size_def max_childs_size_def)
  then obtain k0 ks' n0 n1 ns' where "ks = k0 # ks'" "ns = n0 # n1 # ns'"
    by (cases ks; cases ns; cases "tl ns") auto
  then have "node_holds D [k] (map root_page [a, b]) False ?nd" using new(2,3) by (simp add: node_holds_def numeral_2_eq_2)
  moreover have "one_tree D (D - 1) n (h(q \<mapsto> ?nd)) u" if "one_tree D (D - 1) n h u" "set (tree_pages u) \<subseteq> dom h" for u
    by (rule one_tree_frame [OF that(1)]) (use that(2) new(1) in auto)
  then have "one_tree D (D - 1) n (h(q \<mapsto> ?nd)) u" if "u \<in> set [a, b]" for u using that assms(1,2) pages by auto
  ultimately have "one_tree D 1 (Suc n) (h(q \<mapsto> ?nd)) (PNode q [k] [a, b])"
    using pages new(1) assms(1-3,6) by (intro one_treeI [of _ _ ?nd]) (auto simp: one_tree_def max_keys_size_def)
  then show ?thesis using q new(1) assms(4) by (intro exI [of _ q] exI [of _ "h(q \<mapsto> ?nd)"]) (auto simp: grow_root_def)
qed

lemma btree_insert_spec:
  assumes "tree_map D bt m" "fresh_pages D make_page" "2 \<le> D"
  shows "\<exists>bt'. btree_insert D make_page kv bt = Some (Inr (m (kv_key kv) = None, bt')) \<and>
    tree_map D bt' (if m (kv_key kv) = None then m(kv_key kv \<mapsto> kv_value kv) else m)"
proof -
  obtain n t where t: "root_page t = btree_root bt" "one_tree D (if n = 0 then 0 else 1) n (btree_pages bt) t"
    "ordered (inorder t)" "m = kv_map (inorder t)" and fin: "finite (dom (btree_pages bt))"
    using assms(1) by (auto simp: tree_map_def)
  have found: "btree_find (btree_pages bt) (btree_root bt) (kv_key kv) = Some (Inr (m (kv_key kv)))"
    using btree_find_spec [OF t(2,3), of "kv_key kv"] t(1,4) by simp
  show ?thesis
  proof (cases "m (kv_key kv)")
    case (Some v)
    then show ?thesis using found assms(1) by (simp add: btree_insert_def)
  next
    case None
    then have new: "kv_key kv \<notin> kv_key ` set (inorder t)" using t(4) by simp
    note ord = insort_ordered [OF t(3) new]
    note map = kv_map_insort [OF new]
    obtain x h' where x: "\<And>parent idx root. insert_impl D make_page kv (root_page t) parent idx root (btree_pages bt) =
        Some (then_place D make_page (root_page t) parent idx root x h')" "grown (btree_pages bt) (set (tree_pages t)) h'"
      "outcome D (if n = 0 then 0 else 1) n (root_page t) (set (tree_pages t) \<union> - dom (btree_pages bt)) (insort_kv kv (inorder t)) x h'"
      using insert_impl_step [OF t(2) fin assms(2,3) t(3) new] by blast
    have fin': "finite (dom h')" using x(2) by (simp add: grown_def)
    show ?thesis
    proof (cases x)
      case None
      then obtain t' where "root_page t' = root_page t" "one_tree D (if n = 0 then 0 else 1) n h' t'" "inorder t' = insort_kv kv (inorder t)"
        using x(3) by (auto simp: outcome_def)
      then have "tree_map D \<lparr>btree_root = btree_root bt, btree_pages = h'\<rparr> (m(kv_key kv \<mapsto> kv_value kv))"
        using fin' ord map t(1,4) by (auto simp: tree_map_def intro!: exI [of _ n] exI [of _ t'])
      then show ?thesis using found \<open>m (kv_key kv) = None\<close> x(1) None t(1) by (simp add: btree_insert_def then_place_def)
    next
      case (Some y)
      then obtain a b k where y: "y = (root_page t, root_page b, k)" "one_tree D (D - 1) n h' a" "one_tree D (D - 1) n h' b"
        "set (tree_pages a) \<inter> set (tree_pages b) = {}" "inorder a @ k # inorder b = insort_kv kv (inorder t)" "root_page a = root_page t"
        using x(3) unfolding outcome_def by (cases y) auto
      obtain q h2 where g: "grow_root make_page y h' = (q, h2)" "finite (dom h2)" "one_tree D 1 (Suc n) h2 (PNode q [k] [a, b])"
        using grow_root_holds [OF y(2-4) fin' assms(2,3), of k] y(1,6) by auto
      have "tree_map D \<lparr>btree_root = q, btree_pages = h2\<rparr> (m(kv_key kv \<mapsto> kv_value kv))"
        using g(2,3) ord map t(4) y(5) by (auto simp: tree_map_def intro!: exI [of _ "Suc n"] exI [of _ "PNode q [k] [a, b]"])
      then show ?thesis using found \<open>m (kv_key kv) = None\<close> x(1) Some t(1) g(1)
        by (simp add: btree_insert_def then_place_def place_def)
    qed
  qed
qed

section \<open>The properties of the tree\<close>

text \<open>The abstract specification: a map that keeps its entries.\<close>

definition map_insert :: "('k, 'v) KeyValueT \<Rightarrow> ('k \<rightharpoonup> 'v) \<Rightarrow> ('k \<rightharpoonup> 'v)" where
  "map_insert kv m = (if m (kv_key kv) = None then m(kv_key kv \<mapsto> kv_value kv) else m)"

fun map_inserts :: "('k, 'v) KeyValueT list \<Rightarrow> ('k \<rightharpoonup> 'v) \<Rightarrow> bool list \<times> ('k \<rightharpoonup> 'v)" where
  "map_inserts [] m = ([], m)"
| "map_inserts (kv # kvs) m = (case map_inserts kvs (map_insert kv m) of (bs, m') \<Rightarrow> ((m (kv_key kv) = None) # bs, m'))"

lemma map_inserts_snd: "snd (map_inserts (kv # kvs) m) = snd (map_inserts kvs (map_insert kv m))"
  by (simp split: prod.splits)

lemma dom_map_insert: "dom (map_insert kv m) = insert (kv_key kv) (dom m)"
  by (auto simp: map_insert_def)

lemma dom_map_inserts: "dom (snd (map_inserts kvs m)) = dom m \<union> kv_key ` set kvs"
  by (induction kvs arbitrary: m) (auto simp del: map_inserts.simps(2) simp: map_inserts_snd dom_map_insert)

lemma new_tree_map:
  assumes "fresh_pages D make_page" "2 \<le> D"
  shows "tree_map D (new_tree make_page) Map.empty"
proof -
  obtain p ks ns where p: "make_page Map.empty = (p, ks, ns)" by (metis prod_cases3)
  note new = fresh_pagesD [OF assms(1) _ p]
  have "one_tree D 0 0 (btree_pages (new_tree make_page)) (PNode p [] [])"
    using new(2,3) by (simp add: new_tree_def p one_tree_def node_holds_def)
  then show ?thesis
    by (auto simp: tree_map_def new_tree_def p intro!: exI [of _ 0] exI [of _ "PNode p [] []"])
qed

lemma btree_inserts_spec:
  assumes "tree_map D bt m" "fresh_pages D make_page" "2 \<le> D"
  shows "\<exists>bt'. btree_inserts D make_page kvs bt = Some (Inr (fst (map_inserts kvs m), bt')) \<and>
    tree_map D bt' (snd (map_inserts kvs m))"
  using assms(1)
proof (induction kvs arbitrary: bt m)
  case (Cons kv kvs)
  obtain bt1 where b: "btree_insert D make_page kv bt = Some (Inr (m (kv_key kv) = None, bt1))" "tree_map D bt1 (map_insert kv m)"
    using btree_insert_spec [OF Cons.prems assms(2,3), of kv] by (auto simp: map_insert_def)
  show ?case using Cons.IH [OF b(2)] b(1) by (auto split: prod.splits)
qed simp

lemma weave_length: "length (weave ks xs) = length ks + sum_list (map length xs)"
  by (induction ks xs rule: weave.induct) simp_all

lemma balanced_size: "balanced D lo n t \<Longrightarrow> 2 \<le> D \<Longrightarrow> (lo + 1) * D ^ n \<le> length (inorder t) + 1"
proof (induction n arbitrary: lo t)
  case 0
  then show ?case by (cases t) simp
next
  case (Suc n)
  obtain p ks ts where t: "t = PNode p ks ts" by (cases t)
  have kids: "D ^ Suc n \<le> length (inorder u) + 1" if "u \<in> set ts" for u
    using Suc.IH [of "D - 1" u] Suc.prems that by (simp add: t)
  have "length ts * D ^ Suc n \<le> (\<Sum>u \<leftarrow> ts. length (inorder u) + 1)" using kids
  proof (induction ts)
    case (Cons u us)
    have "D ^ Suc n \<le> length (inorder u) + 1" "length us * D ^ Suc n \<le> (\<Sum>u \<leftarrow> us. length (inorder u) + 1)"
      using Cons.IH Cons.prems by simp_all
    then show ?case by (simp add: algebra_simps)
  qed simp
  also have "\<dots> = (\<Sum>u \<leftarrow> ts. length (inorder u)) + length ts" by (induction ts) simp_all
  also have "\<dots> = length (inorder t) + 1" using Suc.prems(1) by (simp add: t weave_length comp_def)
  finally have "length ts * D ^ Suc n \<le> length (inorder t) + 1" .
  moreover have "(lo + 1) * D ^ Suc n \<le> length ts * D ^ Suc n" using Suc.prems(1) by (intro mult_right_mono) (auto simp: t)
  ultimately show ?case by linarith
qed


text \<open>An example: \<open>Degree\<close> 2, the lowest free page, and keys whose insertion splits a leaf and the root.\<close>

definition demo_pages :: "(nat, nat) page_maker" where
  "demo_pages h = (LEAST p. p \<notin> dom h, replicate 3 \<lparr>kv_key = 0, kv_value = 0\<rparr>, replicate 4 0)"

abbreviation (input) demo_keys :: "(nat, nat) KeyValueT list" where
  "demo_keys \<equiv> map (\<lambda>k. \<lparr>kv_key = k, kv_value = 10 * k\<rparr>) [5, 1, 9, 5, 3, 7]"

lemma demo_pages_fresh: "fresh_pages 2 demo_pages"
  unfolding fresh_pages_def
proof (intro allI impI)
  fix h :: "(nat, nat) tree_store" assume "finite (dom h)"
  then have "\<exists>p. p \<notin> dom h" by (rule ex_new_if_finite [OF infinite_UNIV_nat])
  then have "(LEAST p. p \<notin> dom h) \<notin> dom h" by (rule LeastI_ex)
  then show "case demo_pages h of (q, ks, ns) \<Rightarrow> q \<notin> dom h \<and> length ks = max_keys_size 2 \<and> length ns = max_childs_size 2"
    by (simp add: demo_pages_def max_keys_size_def max_childs_size_def)
qed




end
