(* ===== verification/Idl_Types.thy ===== *)
theory Idl_Types
  imports Prelude
begin

text \<open>
  The types of the interface compiler npidl and their layout (\<open>nprpc/npidl/src/ast.hpp\<close>, \<open>utils.cpp\<close>,
  and the offsets that \<open>ts_builder.cpp\<close> writes into the generated code). A struct carries the size and
  the alignment that \<open>calc_struct_size_align\<close> stores in it, \<open>-1\<close> before. A failed assertion is \<open>None\<close>.
  Sizes are \<open>int\<close>s; their overflow is not modelled.
\<close>

section \<open>Types\<close>

datatype TokenId = Tok_Boolean | Tok_Int8 | Tok_UInt8 | Tok_Int16 | Tok_UInt16 | Tok_Int32 | Tok_UInt32
  | Tok_Int64 | Tok_UInt64 | Tok_Float32 | Tok_Float64
  | Tok_Unknown | Tok_Colon | Tok_Identifier | Tok_Number | Tok_String | Tok_Vector | Tok_Message | Tok_Exception
  | Tok_Eof | Tok_DoubleColon | Tok_Namespace | Tok_Interface | Tok_Object | Tok_Void | Tok_In | Tok_Out
  | Tok_Enum | Tok_Alias | Tok_Raises | Tok_OutDirect | Tok_Helper | Tok_Trusted | Tok_Async | Tok_Const
  | Tok_Module | Tok_Import | Tok_QuotedString

datatype AstType = Fundamental TokenId | Array AstType int | Vector AstType | StringType | Struct AstStruct
  | Optional AstType | Void | Object | Interface string | Alias string AstType | Enum string TokenId
and AstStruct = AstStructDecl (struct_name: string) (struct_fields: "(string \<times> AstType) list")
    (struct_size: int) (struct_align: int) (struct_flat: bool)

fun get_fundamental_size :: "TokenId \<Rightarrow> int option" where
  "get_fundamental_size Tok_Boolean = Some 1"
| "get_fundamental_size Tok_Int8 = Some 1"
| "get_fundamental_size Tok_UInt8 = Some 1"
| "get_fundamental_size Tok_Int16 = Some 2"
| "get_fundamental_size Tok_UInt16 = Some 2"
| "get_fundamental_size Tok_Int32 = Some 4"
| "get_fundamental_size Tok_UInt32 = Some 4"
| "get_fundamental_size Tok_Float32 = Some 4"
| "get_fundamental_size Tok_Int64 = Some 8"
| "get_fundamental_size Tok_UInt64 = Some 8"
| "get_fundamental_size Tok_Float64 = Some 8"
| "get_fundamental_size _ = None"

definition size_of_object :: int where "size_of_object = 48"
definition align_of_object :: int where "align_of_object = 8"

text \<open>\<open>get_real_type\<close> of an alias and \<open>real_type\<close> of a wrapper: the type behind all aliases.\<close>

fun real_type :: "AstType \<Rightarrow> AstType" where
  "real_type (Alias n t) = real_type t"
| "real_type t = t"

section \<open>Layout\<close>

text \<open>The offset of the next field and the new end of the last one.\<close>

definition align_offset :: "int \<Rightarrow> int \<Rightarrow> int \<Rightarrow> int \<Rightarrow> int \<times> int" where
  "align_offset align_of last_field_ended sz elements_size =
     (let unalign = last_field_ended mod align_of;
          offset = last_field_ended + (if unalign \<noteq> 0 then align_of - unalign else 0)
      in (offset, offset + sz * elements_size))"

definition add_member :: "int \<Rightarrow> int \<Rightarrow> int \<Rightarrow> int \<times> int \<Rightarrow> int \<times> int" where
  "add_member align_of sz elements_size st =
     (case st of (align, offset) \<Rightarrow>
      (if align < align_of then align_of else align, snd (align_offset align_of offset sz elements_size)))"

fun calc_field :: "AstType \<Rightarrow> int \<Rightarrow> int \<times> int \<Rightarrow> (int \<times> int) option" where
  "calc_field (Fundamental tok) n st = map_option (\<lambda>sz. add_member sz sz n st) (get_fundamental_size tok)"
| "calc_field (Struct s) n st =
     (if struct_align s \<noteq> - 1 \<and> struct_size s \<noteq> - 1 then Some (add_member (struct_align s) (struct_size s) n st) else None)"
| "calc_field (Array t len) n st = calc_field t len st"
| "calc_field (Alias a t) n st = calc_field t 1 st"
| "calc_field (Enum e tok) n st = map_option (\<lambda>sz. add_member sz sz n st) (get_fundamental_size tok)"
| "calc_field (Vector t) n st = Some (add_member 4 8 n st)"
| "calc_field StringType n st = Some (add_member 4 8 n st)"
| "calc_field (Optional t) n st = Some (add_member 4 4 n st)"
| "calc_field Object n st = Some (add_member align_of_object size_of_object n st)"
| "calc_field Void n st = None"
| "calc_field (Interface i) n st = None"

fun calc_fields :: "(string \<times> AstType) list \<Rightarrow> int \<times> int \<Rightarrow> (int \<times> int) option" where
  "calc_fields [] st = Some st"
| "calc_fields (f # fs) st = Option.bind (calc_field (snd f) 1 st) (calc_fields fs)"

definition calc_struct_size_align :: "AstStruct \<Rightarrow> AstStruct option" where
  "calc_struct_size_align s =
     map_option (\<lambda>(align, offset).
         AstStructDecl (struct_name s) (struct_fields s) (fst (align_offset align offset 0 1)) align (struct_flat s))
       (calc_fields (struct_fields s) (1, 0))"

fun get_type_size_align :: "AstType \<Rightarrow> (int \<times> int) option" where
  "get_type_size_align (Fundamental tok) = map_option (\<lambda>sz. (sz, sz)) (get_fundamental_size tok)"
| "get_type_size_align (Struct s) = Some (struct_size s, struct_align s)"
| "get_type_size_align (Array t len) = map_option (\<lambda>(sz, align). (sz * len, align)) (get_type_size_align t)"
| "get_type_size_align (Vector t) = Some (8, 4)"
| "get_type_size_align StringType = Some (8, 4)"
| "get_type_size_align (Optional t) = Some (4, 4)"
| "get_type_size_align (Enum e tok) = map_option (\<lambda>sz. (sz, sz)) (get_fundamental_size tok)"
| "get_type_size_align (Alias a t) = get_type_size_align t"
| "get_type_size_align Object = None"
| "get_type_size_align Void = None"
| "get_type_size_align (Interface i) = None"

fun is_fundamental :: "AstType \<Rightarrow> bool" where
  "is_fundamental (Fundamental tok) = True"
| "is_fundamental (Enum e tok) = True"
| "is_fundamental (Alias a t) = is_fundamental t"
| "is_fundamental t = False"

definition is_struct :: "AstType \<Rightarrow> bool" where
  "is_struct t = (case t of Struct s \<Rightarrow> True | _ \<Rightarrow> False)"

text \<open>
  The offset that \<open>emit_field_marshal\<close> of the TypeScript builder writes for a field, and the end of the
  field: aliases are resolved first, and element types that it cannot marshal fail an assertion.
\<close>

definition marshal_offset :: "AstType \<Rightarrow> int \<Rightarrow> (int \<times> int) option" where
  "marshal_offset t offset =
     (case real_type t of
        Fundamental tok \<Rightarrow> map_option (\<lambda>sz. align_offset sz offset sz 1) (get_fundamental_size tok)
      | Enum e tok \<Rightarrow> map_option (\<lambda>sz. align_offset sz offset sz 1) (get_fundamental_size tok)
      | StringType \<Rightarrow> Some (align_offset 4 offset 8 1)
      | Struct s \<Rightarrow> Some (align_offset (struct_align s) offset (struct_size s) 1)
      | Object \<Rightarrow> Some (align_offset align_of_object offset size_of_object 1)
      | Array u len \<Rightarrow>
          if is_fundamental (real_type u) \<or> is_struct (real_type u)
          then map_option (\<lambda>(sz, align). align_offset align offset sz 1) (get_type_size_align (Array u len))
          else None
      | Vector u \<Rightarrow>
          if is_fundamental (real_type u) \<or> is_struct (real_type u) then Some (align_offset 4 offset 8 1) else None
      | Optional u \<Rightarrow>
          (case real_type u of
             Vector w \<Rightarrow> if is_fundamental (real_type w) \<or> is_struct (real_type w) then Some (align_offset 4 offset 4 1) else None
           | Array w len \<Rightarrow> if is_fundamental (real_type w) \<or> is_struct (real_type w) then Some (align_offset 4 offset 4 1) else None
           | StringType \<Rightarrow> Some (align_offset 4 offset 4 1)
           | v \<Rightarrow> if is_fundamental v \<or> is_struct v then Some (align_offset 4 offset 4 1) else None)
      | _ \<Rightarrow> None)"

fun marshal_offsets :: "(string \<times> AstType) list \<Rightarrow> int \<Rightarrow> (int \<times> int) list option" where
  "marshal_offsets [] offset = Some []"
| "marshal_offsets (f # fs) offset =
     Option.bind (marshal_offset (snd f) offset) (\<lambda>(o1, end). map_option (\<lambda>os. (o1, end) # os) (marshal_offsets fs end))"

section \<open>Questions about types\<close>

fun is_flat :: "AstType \<Rightarrow> bool option" where
  "is_flat (Fundamental tok) = Some True"
| "is_flat (Enum e tok) = Some True"
| "is_flat (Struct s) = Some (struct_flat s)"
| "is_flat (Alias a t) = is_flat t"
| "is_flat (Array t n) = is_flat t"
| "is_flat (Vector t) = Some False"
| "is_flat StringType = Some False"
| "is_flat (Optional t) = Some False"
| "is_flat Object = Some False"
| "is_flat (Interface i) = Some False"
| "is_flat Void = None"

lemma size_real_type: "size (real_type t) \<le> size t"
  by (induction t rule: real_type.induct) simp_all

lemma size_field: "f \<in> set (struct_fields s) \<Longrightarrow> size (snd f) < size s"
proof -
  assume "f \<in> set (struct_fields s)"
  then have "size_prod (\<lambda>x. 0) size f \<le> size_list (size_prod (\<lambda>x. 0) size) (struct_fields s)" by (rule size_list_estimation') simp
  then show ?thesis by (cases s; cases f) simp
qed

function contains_object :: "AstType \<Rightarrow> bool" where
  "contains_object Object = True"
| "contains_object (Struct s) = (\<exists>f \<in> set (struct_fields s). contains_object (snd f))"
| "contains_object (Array t n) = contains_object t"
| "contains_object (Vector t) = contains_object t"
| "contains_object (Optional t) = contains_object (real_type t)"
| "contains_object (Alias a t) = contains_object t"
| "contains_object (Fundamental tok) = False"
| "contains_object StringType = False"
| "contains_object Void = False"
| "contains_object (Interface i) = False"
| "contains_object (Enum e tok) = False"
  by pat_completeness auto

termination contains_object
  by (relation "measure size") (auto simp: size_real_type less_Suc_eq_le le_less_trans [OF size_real_type] dest!: size_field)

section \<open>The structs of function arguments\<close>

fun to_string :: "nat \<Rightarrow> string" where
  "to_string n = (if n < 10 then [char_of (48 + n)] else to_string (n div 10) @ [char_of (48 + n mod 10)])"

declare to_string.simps [simp del]

fun fundamental_id :: "TokenId \<Rightarrow> string option" where
  "fundamental_id Tok_Boolean = Some ''Fb''"
| "fundamental_id Tok_Int8 = Some ''Fi8''"
| "fundamental_id Tok_UInt8 = Some ''Fu8''"
| "fundamental_id Tok_Int16 = Some ''Fi16''"
| "fundamental_id Tok_UInt16 = Some ''Fu16''"
| "fundamental_id Tok_Int32 = Some ''Fi32''"
| "fundamental_id Tok_UInt32 = Some ''Fu32''"
| "fundamental_id Tok_Int64 = Some ''Fi64''"
| "fundamental_id Tok_UInt64 = Some ''Fu64''"
| "fundamental_id Tok_Float32 = Some ''Ff32''"
| "fundamental_id Tok_Float64 = Some ''Ff64''"
| "fundamental_id _ = None"

fun get_type_id :: "AstType \<Rightarrow> string option \<Rightarrow> string option" where
  "get_type_id (Fundamental tok) fname = fundamental_id tok"
| "get_type_id (Struct s) fname = Some (struct_name s @ (case fname of None \<Rightarrow> [] | Some f \<Rightarrow> f))"
| "get_type_id (Array t n) fname = map_option (\<lambda>i. ''A'' @ i) (get_type_id t None)"
| "get_type_id (Vector t) fname = map_option (\<lambda>i. ''V'' @ i) (get_type_id t None)"
| "get_type_id StringType fname = Some ''S''"
| "get_type_id (Optional t) fname = map_option (\<lambda>i. ''?'' @ i) (get_type_id t None)"
| "get_type_id Object fname = Some ''O''"
| "get_type_id (Enum e tok) fname = Some (''E'' @ e)"
| "get_type_id (Alias a t) fname = Some (''L'' @ a)"
| "get_type_id Void fname = None"
| "get_type_id (Interface i) fname = None"

fun struct_id :: "nat \<Rightarrow> (string \<times> AstType) list \<Rightarrow> string option" where
  "struct_id n [] = Some []"
| "struct_id n ((f, t) # fs) =
     Option.bind (get_type_id t (Some f)) (\<lambda>i. map_option (\<lambda>is. to_string (n + 1) @ i @ is) (struct_id (n + 1) fs))"

definition get_function_struct_id :: "AstStruct \<Rightarrow> string option" where
  "get_function_struct_id s = struct_id 0 (struct_fields s)"

record idl_context =
  current_file :: string
  m_struct_n :: nat
  affa_list :: "string \<Rightarrow> AstStruct option"

text \<open>\<open>make_struct\<close> of \<open>make_arguments_structs\<close>: one struct for all functions with the same id.\<close>

definition argument_fields :: "AstType list \<Rightarrow> (string \<times> AstType) list" where
  "argument_fields ts = map (\<lambda>(ix, t). (''_'' @ to_string (ix + 1), t)) (zip [0 ..< length ts] ts)"

definition make_struct :: "AstType list \<Rightarrow> idl_context \<Rightarrow> (AstStruct option \<times> idl_context) option" where
  "make_struct ts ctx =
     (if ts = [] then Some (None, ctx)
      else
        let n = m_struct_n ctx + 1;
            name = current_file ctx @ ''_M'' @ to_string n;
            flats = map is_flat ts
        in if None \<in> set flats then None
           else
             Option.bind (calc_struct_size_align (AstStructDecl name (argument_fields ts) (- 1) (- 1) (set flats \<subseteq> {Some True})))
               (\<lambda>s. Option.bind (get_function_struct_id s) (\<lambda>id.
                  case affa_list ctx id of
                    Some p \<Rightarrow> Some (Some p, ctx)
                  | None \<Rightarrow> Some (Some s, ctx\<lparr>m_struct_n := n, affa_list := (affa_list ctx)(id \<mapsto> s)\<rparr>))))"

section \<open>Inheritance of interfaces\<close>

text \<open>An interface and the interfaces it inherits from; \<open>dfs_interface\<close> with its explicit stack. The
  result is the sequence of the calls of \<open>fn\<close>.\<close>

datatype AstInterface = AstInterfaceDecl (interface_name: string) (plist: "AstInterface list")

fun nodes :: "AstInterface \<Rightarrow> nat" where
  "nodes (AstInterfaceDecl n ps) = Suc (sum_list (map nodes ps))"

definition rest_nodes :: "nat \<times> AstInterface list \<Rightarrow> nat" where
  "rest_nodes fr = sum_list (map nodes (drop (fst fr) (snd fr)))"

lemma rest_nodes_step:
  "i < length ps \<Longrightarrow> rest_nodes (i, ps) = Suc (rest_nodes (0, plist (ps ! i)) + rest_nodes (i + 1, ps))"
  by (cases "ps ! i") (simp add: rest_nodes_def Cons_nth_drop_Suc [symmetric])

function dfs_loop :: "(nat \<times> AstInterface list) list \<Rightarrow> AstInterface list \<Rightarrow> AstInterface list" where
  "dfs_loop [] out = out"
| "dfs_loop ((i, ps) # stack) out =
     (if i < length ps then dfs_loop ((0, plist (ps ! i)) # (i + 1, ps) # stack) (out @ [ps ! i])
      else dfs_loop stack out)"
  by pat_completeness auto

termination
  by (relation "measures [\<lambda>(st, out). sum_list (map rest_nodes st), \<lambda>(st, out). length st]")
    (auto simp: rest_nodes_step)

definition dfs_interface :: "AstInterface \<Rightarrow> AstInterface list" where
  "dfs_interface start = dfs_loop [(0, plist start)] [start]"

end
