(* ===== verification/Idl_Layout.thy ===== *)
theory Idl_Layout
  imports Idl_Types
begin

text \<open>
  What the layout of npidl guarantees: the fields of a struct lie where the generated code looks for
  them, aligned and apart; where it fails (arrays of aliases, argument structs that differ in the
  length of an array); and the order in which inherited interfaces are visited.
\<close>

section \<open>Layout of structs\<close>

text \<open>The types a field may have: their leaves have a size, elements are fundamental or structs whose
  layout is known, and the element of an array is not itself an array or an alias.\<close>

definition struct_ok :: "AstStruct \<Rightarrow> bool" where
  "struct_ok s \<longleftrightarrow> struct_align s \<in> {1, 2, 4, 8} \<and> 0 \<le> struct_size s \<and> struct_align s dvd struct_size s"

definition element_ok :: "AstType \<Rightarrow> bool" where
  "element_ok t \<longleftrightarrow> is_fundamental (real_type t) \<or> is_struct (real_type t)"

fun wf_type :: "AstType \<Rightarrow> bool" where
  "wf_type (Fundamental tok) \<longleftrightarrow> get_fundamental_size tok \<noteq> None"
| "wf_type (Enum e tok) \<longleftrightarrow> get_fundamental_size tok \<noteq> None"
| "wf_type (Struct s) \<longleftrightarrow> struct_ok s"
| "wf_type StringType \<longleftrightarrow> True"
| "wf_type Object \<longleftrightarrow> True"
| "wf_type (Vector u) \<longleftrightarrow> element_ok u"
| "wf_type (Optional u) \<longleftrightarrow>
     (case real_type u of Vector w \<Rightarrow> element_ok w | Array w n \<Rightarrow> element_ok w | StringType \<Rightarrow> True | v \<Rightarrow> element_ok v)"
| "wf_type (Array u n) \<longleftrightarrow> 0 \<le> n \<and> wf_type u \<and> element_ok u \<and> real_type u = u"
| "wf_type (Alias a t) \<longleftrightarrow> wf_type t"
| "wf_type Void \<longleftrightarrow> False"
| "wf_type (Interface i) \<longleftrightarrow> False"

definition type_layout :: "AstType \<Rightarrow> (int \<times> int) option" where
  "type_layout t = (if real_type t = Object then Some (size_of_object, align_of_object) else get_type_size_align t)"

text \<open>The fields, from \<open>start\<close> to \<open>stop\<close>: each is aligned, as long as its type, and begins after the
  one before it has ended; its alignment divides that of the struct.\<close>

fun laid_out :: "AstType list \<Rightarrow> int \<Rightarrow> int \<Rightarrow> (int \<times> int) list \<Rightarrow> int \<Rightarrow> bool" where
  "laid_out [] align start [] stop \<longleftrightarrow> start \<le> stop"
| "laid_out (t # ts) align start ((first, fin) # os) stop \<longleftrightarrow>
     (case type_layout t of None \<Rightarrow> False
      | Some (sz, al) \<Rightarrow> start \<le> first \<and> al dvd first \<and> al dvd align \<and> fin = first + sz \<and> laid_out ts align fin os stop)"
| "laid_out _ _ _ _ _ \<longleftrightarrow> False"

lemma align_offset_spec:
  assumes "0 < al" "align_offset al off sz n = (first, fin)"
  shows "off \<le> first" "first < off + al" "al dvd first" "fin = first + sz * n"
proof -
  have r: "0 \<le> off mod al" "off mod al < al" using assms(1) by simp_all
  have f: "first = off + (if off mod al \<noteq> 0 then al - off mod al else 0)" and l: "fin = first + sz * n"
    using assms(2) by (auto simp: align_offset_def Let_def)
  show "off \<le> first" "first < off + al" using f r by auto
  show "fin = first + sz * n" by (rule l)
  have "off + (al - off mod al) = al * (off div al + 1)" using mult_div_mod_eq [of al off] by (simp add: algebra_simps)
  then show "al dvd first" using f by auto
qed

lemma fundamental_size: "get_fundamental_size tok = Some sz \<Longrightarrow> sz \<in> {1, 2, 4, 8}"
  by (cases tok) auto

lemma real_type_idem [simp]: "real_type (real_type t) = real_type t"
  by (induction t rule: real_type.induct) simp_all

lemma real_type_no_alias [simp]: "real_type t \<noteq> Alias a u"
  by (induction t rule: real_type.induct) simp_all

lemma alias_layout [simp]:
  "marshal_offset (Alias a t) off = marshal_offset t off" "type_layout (Alias a t) = type_layout t"
  by (simp_all add: marshal_offset_def type_layout_def)

lemma member_layout:
  assumes "wf_type t"
  shows "\<exists>sz al. type_layout t = Some (sz, al) \<and> al \<in> {1, 2, 4, 8} \<and> 0 \<le> sz \<and>
    (\<forall>a off. calc_field t 1 (a, off) = Some (if a < al then al else a, snd (align_offset al off sz 1))) \<and>
    (\<forall>off. marshal_offset t off = Some (align_offset al off sz 1))"
  using assms
proof (induction t rule: wf_type.induct)
  case (1 tok)
  then obtain sz where "get_fundamental_size tok = Some sz" by auto
  then show ?case using fundamental_size [of tok sz] by (auto simp: type_layout_def marshal_offset_def add_member_def)
next
  case (2 e tok)
  then obtain sz where "get_fundamental_size tok = Some sz" by auto
  then show ?case using fundamental_size [of tok sz] by (auto simp: type_layout_def marshal_offset_def add_member_def)
next
  case (3 s)
  then show ?case by (auto simp: type_layout_def marshal_offset_def add_member_def struct_ok_def)
next
  case (7 u)
  then show ?case by (auto simp: type_layout_def marshal_offset_def add_member_def element_ok_def split: AstType.splits)
next
  case (8 u n)
  have u: "real_type u = u" "0 \<le> n" using 8(2) by simp_all
  have el: "is_fundamental u \<or> is_struct u" proof -
    have "element_ok u" using 8(2) by simp
    then show ?thesis using u(1) by (simp add: element_ok_def)
  qed
  have "\<exists>sz al. get_type_size_align u = Some (sz, al) \<and> al \<in> {1, 2, 4, 8} \<and> 0 \<le> sz \<and>
    (\<forall>a off. calc_field u n (a, off) = Some (add_member al sz n (a, off)))"
  proof (cases u)
    case (Fundamental tok)
    then obtain sz where "get_fundamental_size tok = Some sz" using 8(2) by auto
    then show ?thesis using fundamental_size [of tok sz] Fundamental by auto
  next
    case (Enum e tok)
    then obtain sz where "get_fundamental_size tok = Some sz" using 8(2) by auto
    then show ?thesis using fundamental_size [of tok sz] Enum by auto
  qed (use el u(1) 8(2) in \<open>auto simp: is_struct_def struct_ok_def size_real_type\<close>)
  then obtain sz al where s: "get_type_size_align u = Some (sz, al)" "al \<in> {1, 2, 4, 8}" "0 \<le> sz"
    "\<And>a off. calc_field u n (a, off) = Some (add_member al sz n (a, off))" by blast
  have "align_offset al off (sz * n) 1 = align_offset al off sz n" for off by (simp add: align_offset_def)
  then show ?case using s u(2) el
    by (intro exI [of _ "sz * n"] exI [of _ al]) (auto simp: type_layout_def marshal_offset_def add_member_def u(1))
next
  case (9 a t)
  then show ?case by simp
qed (auto simp: type_layout_def marshal_offset_def add_member_def element_ok_def size_of_object_def align_of_object_def)

lemma laid_out_dvd: "laid_out ts a start os stop \<Longrightarrow> a dvd b \<Longrightarrow> laid_out ts b start os stop"
  by (induction ts a start os stop rule: laid_out.induct) (auto split: option.splits intro: dvd_trans)

lemma laid_out_stop: "laid_out ts a start os stop \<Longrightarrow> stop \<le> stop' \<Longrightarrow> laid_out ts a start os stop'"
  by (induction ts a start os stop rule: laid_out.induct) (auto split: option.splits)

lemma fields_layout:
  assumes "\<forall>f \<in> set fs. wf_type (snd f)" "a \<in> {1, 2, 4, 8}"
  shows "\<exists>a' off' os. calc_fields fs (a, off) = Some (a', off') \<and> marshal_offsets fs off = Some os \<and> a' \<in> {1, 2, 4, 8} \<and>
    a dvd a' \<and> off \<le> off' \<and> laid_out (map snd fs) a' off os off'"
  using assms
proof (induction fs arbitrary: a off)
  case (Cons f fs)
  obtain sz al where m: "type_layout (snd f) = Some (sz, al)" "al \<in> {1, 2, 4, 8}" "0 \<le> sz"
    "\<And>a off. calc_field (snd f) 1 (a, off) = Some (if a < al then al else a, snd (align_offset al off sz 1))"
    "\<And>off. marshal_offset (snd f) off = Some (align_offset al off sz 1)"
    using member_layout [of "snd f"] Cons.prems(1) by auto
  obtain first fin where al: "align_offset al off sz 1 = (first, fin)" by fastforce
  have pos: "0 < al" using m(2) by auto
  note o = align_offset_spec [OF pos al]
  let ?a = "if a < al then al else a"
  have a: "?a \<in> {1, 2, 4, 8}" "a dvd ?a" "al dvd ?a" using Cons.prems(2) m(2) by auto
  obtain a' off' os where r: "calc_fields fs (?a, fin) = Some (a', off')" "marshal_offsets fs fin = Some os"
    "a' \<in> {1, 2, 4, 8}" "?a dvd a'" "fin \<le> off'" "laid_out (map snd fs) a' fin os off'"
    using Cons.IH [OF _ a(1), of fin] Cons.prems(1) by auto
  have "calc_fields (f # fs) (a, off) = Some (a', off')" using m(4) r(1) al by simp
  moreover have "marshal_offsets (f # fs) off = Some ((first, fin) # os)" using m(5) r(2) al by simp
  moreover have "laid_out (map snd (f # fs)) a' off ((first, fin) # os) off'"
    using m(1) o r(4,6) a(3) by (auto intro: dvd_trans)
  moreover have "a dvd a'" using a(2) r(4) by (rule dvd_trans)
  moreover have "off \<le> off'" using o(1,4) r(5) m(3) by simp
  ultimately show ?case using r(3) by blast
qed auto


definition demo_struct :: AstStruct where
  "demo_struct = AstStructDecl ''S'' [(''a'', Fundamental Tok_UInt8), (''b'', Vector (Fundamental Tok_Int32)), (''c'', Object),
     (''d'', Array (Fundamental Tok_UInt16) 3)] (- 1) (- 1) True"


section \<open>Where the layout fails\<close>

text \<open>
  An array whose element type is an alias is counted as one element: the struct is given the size
  of one element, while the generated code writes all of them, past the end of the struct.
\<close>

theorem alias_array_too_small:
  assumes "get_fundamental_size tok = Some sz" "2 \<le> n"
  shows "\<exists>s. calc_struct_size_align (AstStructDecl name [(f, Array (Alias a (Fundamental tok)) n)] (- 1) (- 1) True) = Some s \<and>
    struct_size s = sz \<and> marshal_offsets (struct_fields s) 0 = Some [(0, sz * n)] \<and> struct_size s < sz * n"
proof -
  have "sz \<in> {1, 2, 4, 8}" using assms(1) by (rule fundamental_size)
  then show ?thesis using assms
    by (auto simp: calc_struct_size_align_def add_member_def align_offset_def marshal_offset_def)
qed

lemma alias_array_too_small_witness:
  "\<exists>s. calc_struct_size_align (AstStructDecl ''S'' [(''f'', Array (Alias ''id'' (Fundamental Tok_UInt32)) 16)] (- 1) (- 1) True) = Some s \<and>
    struct_size s = 4 \<and> marshal_offsets (struct_fields s) 0 = Some [(0, 64)]"
  using alias_array_too_small [of Tok_UInt32 4 16 "''S''" "''f''" "''id''"] by auto

text \<open>The same with an array of arrays: the length of the outer one is lost.\<close>

lemma nested_array_too_small:
  assumes "get_fundamental_size tok = Some sz" "2 \<le> n" "1 \<le> m"
  shows "\<exists>s. calc_struct_size_align (AstStructDecl name [(f, Array (Array (Fundamental tok) m) n)] (- 1) (- 1) True) = Some s \<and>
    get_type_size_align (Array (Array (Fundamental tok) m) n) = Some (sz * m * n, sz) \<and> struct_size s < sz * m * n"
proof -
  have sz: "sz \<in> {1, 2, 4, 8}" using assms(1) by (rule fundamental_size)
  then have "0 < sz * m" using assms(3) by auto
  then have "sz * m < sz * m * n" using mult_strict_left_mono [of 1 n "sz * m"] assms(2) by simp
  moreover have "(sz * m) mod sz = 0" by simp
  ultimately show ?thesis using assms sz
    by (auto simp: calc_struct_size_align_def add_member_def align_offset_def Let_def)
qed

text \<open>
  The identifier by which functions share their argument struct leaves out the length of arrays:
  after a function with an array argument, a second function with an array of the same element type
  and any other length is given the struct of the first one.
\<close>

theorem argument_struct_shared:
  assumes "fundamental_id tok = Some i" "affa_list ctx = Map.empty"
  shows "\<exists>s ctx'. make_struct [Array (Fundamental tok) n] ctx = Some (Some s, ctx') \<and>
    struct_fields s = [(''_1'', Array (Fundamental tok) n)] \<and>
    make_struct [Array (Fundamental tok) m] ctx' = Some (Some s, ctx')"
proof -
  obtain sz where "get_fundamental_size tok = Some sz" using assms(1) by (cases tok) auto
  moreover obtain a e a' e' where "add_member sz sz n (1, 0) = (a, e)" "add_member sz sz m (1, 0) = (a', e')" by fastforce
  moreover have "to_string (Suc 0) = ''1''" by code_simp
  ultimately show ?thesis using assms
    by (simp add: make_struct_def argument_fields_def calc_struct_size_align_def get_function_struct_id_def Let_def)
qed

definition demo_context :: idl_context where
  "demo_context = \<lparr>current_file = ''test'', m_struct_n = 0, affa_list = Map.empty\<rparr>"

lemma argument_struct_shared_witness:
  "\<exists>s ctx'. make_struct [Array (Fundamental Tok_UInt8) 4] demo_context = Some (Some s, ctx') \<and>
    make_struct [Array (Fundamental Tok_UInt8) 1024] ctx' = Some (Some s, ctx') \<and> struct_fields s = [(''_1'', Array (Fundamental Tok_UInt8) 4)]"
  using argument_struct_shared [of Tok_UInt8 "''Fu8''" demo_context 4 1024] by (auto simp: demo_context_def)

section \<open>The order of inherited interfaces\<close>

text \<open>The specification: an interface before what it inherits from, in the order of declaration.\<close>

fun preorder :: "AstInterface \<Rightarrow> AstInterface list" where
  "preorder (AstInterfaceDecl n ps) = AstInterfaceDecl n ps # concat (map preorder ps)"

lemma dfs_loop_spec:
  "dfs_loop st out = out @ concat (map (\<lambda>(i, ps). concat (map preorder (drop i ps))) st)"
proof (induction st out rule: dfs_loop.induct)
  case (2 i ps stack out)
  show ?case
  proof (cases "i < length ps")
    case True
    have "preorder (ps ! i) = ps ! i # concat (map preorder (plist (ps ! i)))" by (cases "ps ! i") simp
    then show ?thesis using 2(1) [OF True] True by (simp add: Cons_nth_drop_Suc [symmetric])
  qed (use 2 in simp)
qed simp

text \<open>
  \<open>dfs_interface\<close>, with its stack of positions instead of recursion, ends and calls its function
  for every interface once for each path of inheritance that leads to it, in preorder.
\<close>

theorem dfs_preorder: "dfs_interface i = preorder i"
  by (cases i) (simp add: dfs_interface_def dfs_loop_spec)

end
