(* ===== verification/Np_Flat.thy ===== *)
theory Np_Flat
  imports Prelude
begin

text \<open>
  The flat buffers of the RPC library (\<open>nprpc/include/nprpc/flat.hpp\<close>): a message is one growing run of
  bytes, in which a string, a vector or an optional value is a descriptor of offset and size whose data
  lies further behind. Positions are byte offsets from the start of the readable bytes of the buffer;
  a pointer of the code is such a position, since every use of one is relative to that start. The buffer
  of the boost library is a parameter: \<open>fresh b n\<close> are the \<open>n\<close> bytes that \<open>prepare\<close> hands out after \<open>b\<close>,
  with whatever they contain.
\<close>

type_synonym flat_buffer = "u8 list"

datatype flat_error = OutOfBuffer | AssertionFailed | Unsupported

section \<open>Memory\<close>

definition get_bytes :: "nat \<Rightarrow> nat \<Rightarrow> flat_buffer \<Rightarrow> flat_error + u8 list" where
  "get_bytes p n b = (if p + n \<le> length b then Inr (take n (drop p b)) else Inl OutOfBuffer)"

definition write_at :: "nat \<Rightarrow> u8 list \<Rightarrow> flat_buffer \<Rightarrow> flat_buffer" where
  "write_at p bs b = take p b @ bs @ drop (p + length bs) b"

definition put_bytes :: "nat \<Rightarrow> u8 list \<Rightarrow> flat_buffer \<Rightarrow> flat_error + flat_buffer" where
  "put_bytes p bs b = (if p + length bs \<le> length b then Inr (write_at p bs b) else Inl OutOfBuffer)"

definition get_u32 :: "nat \<Rightarrow> flat_buffer \<Rightarrow> flat_error + u32" where
  "get_u32 p b = (if p + 4 \<le> length b then Inr (u32_at p b) else Inl OutOfBuffer)"

definition put_u32 :: "nat \<Rightarrow> u32 \<Rightarrow> flat_buffer \<Rightarrow> flat_error + flat_buffer" where
  "put_u32 p w b = put_bytes p (bytes_of_u32 w) b"

text \<open>The class \<open>Boolean\<close>.\<close>

definition Boolean_set :: "nat \<Rightarrow> bool \<Rightarrow> flat_buffer \<Rightarrow> flat_error + flat_buffer" where
  "Boolean_set p v b = put_bytes p [if v then 1 else 0] b"

definition Boolean_get :: "nat \<Rightarrow> flat_buffer \<Rightarrow> flat_error + bool" where
  "Boolean_get p b = bindE (get_bytes p 1 b) (\<lambda>bs.
     if hd bs = 0 \<or> hd bs = 1 then Inr (hd bs = 1) else Inl AssertionFailed)"

section \<open>Allocation\<close>

text \<open>
  \<open>_alloc\<close> for elements of size \<open>sz\<close> and alignment \<open>al\<close>: the offset of the new space from the object at
  \<open>this\<close>, cut to 32 bits, and the longer buffer. The padding makes the position in the buffer a multiple
  of the alignment.
\<close>

definition flat_alloc ::
    "(flat_buffer \<Rightarrow> nat \<Rightarrow> u8 list) \<Rightarrow> nat \<Rightarrow> nat \<Rightarrow> nat \<Rightarrow> u32 \<Rightarrow> flat_buffer \<Rightarrow> u32 \<times> flat_buffer" where
  "flat_alloc fresh al sz this n b =
     (if n = 0 then (0, b)
      else let rem = length b mod al;
               padding = (if rem \<noteq> 0 then al - rem else 0);
               size_bytes = unat n * sz;
               ptr = length b + padding
           in (word_of_int (int ptr - int this), b @ fresh b (size_bytes + padding)))"

section \<open>Vectors and strings\<close>

text \<open>A \<open>Vector\<close> is the offset of its elements from itself and their number.\<close>

definition Vector_construct ::
    "(flat_buffer \<Rightarrow> nat \<Rightarrow> u8 list) \<Rightarrow> nat \<Rightarrow> nat \<Rightarrow> nat \<Rightarrow> u32 \<Rightarrow> flat_buffer \<Rightarrow> flat_error + flat_buffer" where
  "Vector_construct fresh al sz p n b =
     (let (offset, b) = flat_alloc fresh al sz p n b
      in bindE (put_u32 p offset b) (put_u32 (p + 4) n))"

definition Vector_size :: "nat \<Rightarrow> flat_buffer \<Rightarrow> flat_error + u32" where
  "Vector_size p b = get_u32 (p + 4) b"

definition Vector_begin :: "nat \<Rightarrow> flat_buffer \<Rightarrow> flat_error + nat" where
  "Vector_begin p b = mapE (\<lambda>offset. p + unat offset) (get_u32 p b)"

text \<open>\<open>range\<close>: the elements as absolute offsets of 32 bits.\<close>

definition Vector_range :: "bool \<Rightarrow> nat \<Rightarrow> nat \<Rightarrow> nat \<Rightarrow> flat_buffer \<Rightarrow> flat_error + u32 \<times> u32" where
  "Vector_range UseAssert al sz p b =
     bindE (Vector_begin p b) (\<lambda>data_offset_abs. bindE (Vector_size p b) (\<lambda>n.
       if UseAssert \<and> data_offset_abs mod al \<noteq> 0 then Inl AssertionFailed
       else Inr (word_of_nat data_offset_abs, word_of_nat (data_offset_abs + unat n * sz))))"

definition Vector_check_size_align :: "nat \<Rightarrow> nat \<Rightarrow> nat \<Rightarrow> u32 \<Rightarrow> flat_buffer \<Rightarrow> flat_error + bool" where
  "Vector_check_size_align al sz p max_buffer_size b =
     mapE (\<lambda>(first, bound). unat first mod al = 0 \<and> bound \<le> max_buffer_size) (Vector_range False al sz p b)"

text \<open>\<open>length\<close> of a \<open>Vector_Direct\<close> and the assignment of a \<open>String_Direct1\<close>: the length is cut to 32 bits.\<close>

definition Vector_length :: "(flat_buffer \<Rightarrow> nat \<Rightarrow> u8 list) \<Rightarrow> nat \<Rightarrow> nat \<Rightarrow> nat \<Rightarrow> nat \<Rightarrow> flat_buffer \<Rightarrow> flat_error + flat_buffer" where
  "Vector_length fresh al sz p n b = Vector_construct fresh al sz p (word_of_nat n) b"

definition String_assign :: "(flat_buffer \<Rightarrow> nat \<Rightarrow> u8 list) \<Rightarrow> nat \<Rightarrow> u8 list \<Rightarrow> flat_buffer \<Rightarrow> flat_error + flat_buffer" where
  "String_assign fresh p str b =
     bindE (Vector_length fresh 1 1 p (length str) b) (\<lambda>b.
     bindE (Vector_begin p b) (\<lambda>first. put_bytes first str b))"

text \<open>The conversion of a string to a \<open>std::string_view\<close>.\<close>

definition String_get :: "nat \<Rightarrow> flat_buffer \<Rightarrow> flat_error + u8 list" where
  "String_get p b = bindE (Vector_begin p b) (\<lambda>first. bindE (Vector_size p b) (\<lambda>n. get_bytes first (unat n) b))"

text \<open>
  A \<open>Span_ref\<close> between two offsets: its size, and the offsets that the iteration visits. The iterator is
  compared for equality; after as many steps as the vector has elements it is at the end.
\<close>

definition Span_ref_size :: "nat \<Rightarrow> u32 \<Rightarrow> u32 \<Rightarrow> nat" where
  "Span_ref_size sz first bound = unat (bound - first) div sz"

fun Span_ref_iterate :: "nat \<Rightarrow> nat \<Rightarrow> u32 \<Rightarrow> u32 \<Rightarrow> nat list" where
  "Span_ref_iterate 0 sz offset bound = []"
| "Span_ref_iterate (Suc n) sz offset bound =
     (if offset = bound then [] else unat offset # Span_ref_iterate n sz (offset + word_of_nat sz) bound)"

section \<open>Optional values\<close>

definition Optional_has_value :: "nat \<Rightarrow> flat_buffer \<Rightarrow> flat_error + bool" where
  "Optional_has_value p b = mapE (\<lambda>offset. offset \<noteq> 0) (get_u32 p b)"

definition Optional_value :: "nat \<Rightarrow> flat_buffer \<Rightarrow> flat_error + nat" where
  "Optional_value p b = bindE (get_u32 p b) (\<lambda>offset. if offset \<noteq> 0 then Inr (p + unat offset) else Inl AssertionFailed)"

definition Optional_alloc :: "(flat_buffer \<Rightarrow> nat \<Rightarrow> u8 list) \<Rightarrow> nat \<Rightarrow> nat \<Rightarrow> nat \<Rightarrow> flat_buffer \<Rightarrow> flat_error + flat_buffer" where
  "Optional_alloc fresh al sz p b = (let (offset, b) = flat_alloc fresh al sz p 1 b in put_u32 p offset b)"

definition Optional_set_nullopt :: "nat \<Rightarrow> flat_buffer \<Rightarrow> flat_error + flat_buffer" where
  "Optional_set_nullopt p b = put_u32 p 0 b"

definition Optional_check_size_align :: "nat \<Rightarrow> nat \<Rightarrow> nat \<Rightarrow> u32 \<Rightarrow> flat_buffer \<Rightarrow> flat_error + bool" where
  "Optional_check_size_align al sz p max_buffer_size b =
     mapE (\<lambda>offset. offset = 0 \<or> (p + unat offset) mod al = 0 \<and> p + unat offset + sz \<le> unat max_buffer_size) (get_u32 p b)"

section \<open>What is written can be read\<close>

lemma nth_write_at:
  "p + length bs \<le> length b \<Longrightarrow> write_at p bs b ! i = (if p \<le> i \<and> i < p + length bs then bs ! (i - p) else b ! i)"
  by (auto simp: write_at_def nth_append)

lemma length_write_at [simp]: "p + length bs \<le> length b \<Longrightarrow> length (write_at p bs b) = length b"
  by (simp add: write_at_def)

lemma get_bytes_eq:
  assumes "p + n \<le> length c" "length bs = n" "\<And>i. i < n \<Longrightarrow> c ! (p + i) = bs ! i"
  shows "get_bytes p n c = Inr bs"
  using assms by (auto simp: get_bytes_def intro!: nth_equalityI)

lemma get_u32_eq:
  assumes "p + 4 \<le> length c" "\<And>i. i < 4 \<Longrightarrow> c ! (p + i) = bytes_of_u32 w ! i"
  shows "get_u32 p c = Inr w"
proof -
  have "c ! p = bytes_of_u32 w ! 0" "c ! (p + 1) = bytes_of_u32 w ! 1" "c ! (p + 2) = bytes_of_u32 w ! 2" "c ! (p + 3) = bytes_of_u32 w ! 3"
    using assms(2) [of 0] assms(2) [of 1] assms(2) [of 2] assms(2) [of 3] by simp_all
  moreover have "u32_at 0 (bytes_of_u32 w) = w" using u32_at_bytes [of "[]" w "[]"] by simp
  ultimately have "u32_at p c = w" by (simp add: u32_at_def numeral_2_eq_2 numeral_3_eq_3)
  then show ?thesis using assms(1) by (simp add: get_u32_def)
qed

text \<open>
  \<open>codec al lo hi e w r\<close>: at a position that is a multiple of \<open>al\<close>, \<open>w\<close> writes only between \<open>lo\<close> and \<open>hi\<close>
  behind it and appends at most \<open>e\<close> bytes, as long as the buffer stays below 4 GB; and \<open>r\<close> holds of every
  later buffer that still has those bytes.
\<close>

definition codec ::
    "nat \<Rightarrow> nat \<Rightarrow> nat \<Rightarrow> nat \<Rightarrow> (nat \<Rightarrow> flat_buffer \<Rightarrow> flat_error + flat_buffer) \<Rightarrow> (nat \<Rightarrow> flat_buffer \<Rightarrow> bool) \<Rightarrow> bool" where
  "codec al lo hi e w r \<longleftrightarrow> (\<forall>p b. al dvd p \<longrightarrow> p + hi \<le> length b \<longrightarrow> length b + e < 2 ^ 32 \<longrightarrow>
     (\<exists>b'. w p b = Inr b' \<and> length b \<le> length b' \<and> length b' \<le> length b + e \<and>
       (\<forall>i < length b. i < p + lo \<or> p + hi \<le> i \<longrightarrow> b' ! i = b ! i) \<and>
       (\<forall>c. length b' \<le> length c \<longrightarrow> length c < 2 ^ 32 \<longrightarrow>
          (\<forall>i < length b'. p + lo \<le> i \<and> i < p + hi \<or> length b \<le> i \<longrightarrow> c ! i = b' ! i) \<longrightarrow> r p c)))"

lemma codecI:
  assumes "\<And>p b. al dvd p \<Longrightarrow> p + hi \<le> length b \<Longrightarrow> length b + e < 2 ^ 32 \<Longrightarrow>
     \<exists>b'. w p b = Inr b' \<and> length b \<le> length b' \<and> length b' \<le> length b + e \<and>
       (\<forall>i < length b. i < p + lo \<or> p + hi \<le> i \<longrightarrow> b' ! i = b ! i) \<and>
       (\<forall>c. length b' \<le> length c \<longrightarrow> length c < 2 ^ 32 \<longrightarrow>
          (\<forall>i < length b'. p + lo \<le> i \<and> i < p + hi \<or> length b \<le> i \<longrightarrow> c ! i = b' ! i) \<longrightarrow> r p c)"
  shows "codec al lo hi e w r"
  unfolding codec_def by (intro allI impI) (rule assms)

lemma codecE:
  assumes "codec al lo hi e w r" "al dvd p" "p + hi \<le> length b" "length b + e < 2 ^ 32"
  obtains b' where "w p b = Inr b'" "length b \<le> length b'" "length b' \<le> length b + e"
    "\<forall>i < length b. i < p + lo \<or> p + hi \<le> i \<longrightarrow> b' ! i = b ! i"
    "\<forall>c. length b' \<le> length c \<longrightarrow> length c < 2 ^ 32 \<longrightarrow>
       (\<forall>i < length b'. p + lo \<le> i \<and> i < p + hi \<or> length b \<le> i \<longrightarrow> c ! i = b' ! i) \<longrightarrow> r p c"
  using assms unfolding codec_def by blast

lemma codec_bytes:
  "codec 1 0 (length bs) 0 (\<lambda>p. put_bytes p bs) (\<lambda>p c. get_bytes p (length bs) c = Inr bs)"
proof (rule codecI)
  fix p :: nat and b :: flat_buffer assume l: "p + length bs \<le> length b"
  show "\<exists>b'. put_bytes p bs b = Inr b' \<and> length b \<le> length b' \<and> length b' \<le> length b + 0 \<and>
      (\<forall>i < length b. i < p + 0 \<or> p + length bs \<le> i \<longrightarrow> b' ! i = b ! i) \<and>
      (\<forall>c. length b' \<le> length c \<longrightarrow> length c < 2 ^ 32 \<longrightarrow>
         (\<forall>i < length b'. p + 0 \<le> i \<and> i < p + length bs \<or> length b \<le> i \<longrightarrow> c ! i = b' ! i) \<longrightarrow> get_bytes p (length bs) c = Inr bs)"
    using l by (auto simp: put_bytes_def nth_write_at intro!: get_bytes_eq)
qed

lemma codec_weaken:
  assumes c: "codec al lo hi e w r" and "al dvd al'" "lo' \<le> lo" "hi \<le> hi'" "e \<le> e'"
    and r: "\<And>p c. al' dvd p \<Longrightarrow> p + hi' \<le> length c \<Longrightarrow> length c < 2 ^ 32 \<Longrightarrow> r p c \<Longrightarrow> r' p c"
  shows "codec al' lo' hi' e' w r'"
proof (rule codecI)
  fix p :: nat and b :: flat_buffer assume a: "al' dvd p" "p + hi' \<le> length b" "length b + e' < 2 ^ 32"
  have "al dvd p" "p + hi \<le> length b" "length b + e < 2 ^ 32" using a assms(2,4,5) by (auto intro: dvd_trans)
  then obtain b' where b: "w p b = Inr b'" "length b \<le> length b'" "length b' \<le> length b + e"
    "\<forall>i < length b. i < p + lo \<or> p + hi \<le> i \<longrightarrow> b' ! i = b ! i"
    "\<forall>c. length b' \<le> length c \<longrightarrow> length c < 2 ^ 32 \<longrightarrow>
       (\<forall>i < length b'. p + lo \<le> i \<and> i < p + hi \<or> length b \<le> i \<longrightarrow> c ! i = b' ! i) \<longrightarrow> r p c"
    by (rule codecE [OF c])
  have "r' p c" if "length b' \<le> length c" "length c < 2 ^ 32"
    "\<forall>i < length b'. p + lo' \<le> i \<and> i < p + hi' \<or> length b \<le> i \<longrightarrow> c ! i = b' ! i" for c
  proof (rule r)
    show "r p c" by (rule b(5) [rule_format]) (use that assms(3,4) in auto)
  qed (use a(1,2) b(2) that in auto)
  then show "\<exists>b'. w p b = Inr b' \<and> length b \<le> length b' \<and> length b' \<le> length b + e' \<and>
      (\<forall>i < length b. i < p + lo' \<or> p + hi' \<le> i \<longrightarrow> b' ! i = b ! i) \<and>
      (\<forall>c. length b' \<le> length c \<longrightarrow> length c < 2 ^ 32 \<longrightarrow>
         (\<forall>i < length b'. p + lo' \<le> i \<and> i < p + hi' \<or> length b \<le> i \<longrightarrow> c ! i = b' ! i) \<longrightarrow> r' p c)"
    using b(1-4) assms(3-5) by (intro exI [of _ b']) auto
qed

lemma codec_cong:
  assumes c: "codec al lo hi e w r"
    and w: "\<And>p b. al dvd p \<Longrightarrow> p + hi \<le> length b \<Longrightarrow> length b < 2 ^ 32 \<Longrightarrow> w p b = w' p b"
  shows "codec al lo hi e w' r"
proof -
  have "w p b = w' p b" if "al dvd p" "p + hi \<le> length b" "length b + e < 2 ^ 32" for p b
    using w [OF that(1,2)] that(3) by simp
  then show ?thesis using c unfolding codec_def by presburger
qed

lemma codec_shift:
  assumes c: "codec al lo hi e w r" and "al dvd al'" "al dvd off"
  shows "codec al' (off + lo) (off + hi) e (\<lambda>p. w (p + off)) (\<lambda>p. r (p + off))"
proof (rule codecI)
  fix p :: nat and b :: flat_buffer assume a: "al' dvd p" "p + (off + hi) \<le> length b" "length b + e < 2 ^ 32"
  have "al dvd p + off" using a(1) assms(2,3) by (auto intro: dvd_trans)
  moreover have "p + off + hi \<le> length b" using a(2) by simp
  ultimately obtain b' where b: "w (p + off) b = Inr b'" "length b \<le> length b'" "length b' \<le> length b + e"
    "\<forall>i < length b. i < p + off + lo \<or> p + off + hi \<le> i \<longrightarrow> b' ! i = b ! i"
    "\<forall>c. length b' \<le> length c \<longrightarrow> length c < 2 ^ 32 \<longrightarrow>
       (\<forall>i < length b'. p + off + lo \<le> i \<and> i < p + off + hi \<or> length b \<le> i \<longrightarrow> c ! i = b' ! i) \<longrightarrow> r (p + off) c"
    using a(3) by (rule codecE [OF c])
  then show "\<exists>b'. w (p + off) b = Inr b' \<and> length b \<le> length b' \<and> length b' \<le> length b + e \<and>
      (\<forall>i < length b. i < p + (off + lo) \<or> p + (off + hi) \<le> i \<longrightarrow> b' ! i = b ! i) \<and>
      (\<forall>c. length b' \<le> length c \<longrightarrow> length c < 2 ^ 32 \<longrightarrow>
         (\<forall>i < length b'. p + (off + lo) \<le> i \<and> i < p + (off + hi) \<or> length b \<le> i \<longrightarrow> c ! i = b' ! i) \<longrightarrow> r (p + off) c)"
    by (intro exI [of _ b']) (auto simp: add.assoc)
qed

lemma codec_seq:
  assumes c1: "codec al lo m e1 w1 r1" and c2: "codec al m' hi e2 w2 r2" and m: "lo \<le> m" "m \<le> m'" "m' \<le> hi"
  shows "codec al lo hi (e1 + e2) (\<lambda>p b. bindE (w1 p b) (w2 p)) (\<lambda>p c. r1 p c \<and> r2 p c)"
proof (rule codecI)
  fix p :: nat and b :: flat_buffer assume a: "al dvd p" "p + hi \<le> length b" "length b + (e1 + e2) < 2 ^ 32"
  have "p + m \<le> length b" "length b + e1 < 2 ^ 32" using a m by auto
  then obtain b1 where b1: "w1 p b = Inr b1" "length b \<le> length b1" "length b1 \<le> length b + e1"
    "\<forall>i < length b. i < p + lo \<or> p + m \<le> i \<longrightarrow> b1 ! i = b ! i"
    "\<forall>c. length b1 \<le> length c \<longrightarrow> length c < 2 ^ 32 \<longrightarrow>
       (\<forall>i < length b1. p + lo \<le> i \<and> i < p + m \<or> length b \<le> i \<longrightarrow> c ! i = b1 ! i) \<longrightarrow> r1 p c"
    by (rule codecE [OF c1 a(1)])
  have "p + hi \<le> length b1" "length b1 + e2 < 2 ^ 32" using a b1(2,3) by auto
  then obtain b2 where b2: "w2 p b1 = Inr b2" "length b1 \<le> length b2" "length b2 \<le> length b1 + e2"
    "\<forall>i < length b1. i < p + m' \<or> p + hi \<le> i \<longrightarrow> b2 ! i = b1 ! i"
    "\<forall>c. length b2 \<le> length c \<longrightarrow> length c < 2 ^ 32 \<longrightarrow>
       (\<forall>i < length b2. p + m' \<le> i \<and> i < p + hi \<or> length b1 \<le> i \<longrightarrow> c ! i = b2 ! i) \<longrightarrow> r2 p c"
    by (rule codecE [OF c2 a(1)])
  have frame: "b2 ! i = b ! i" if "i < length b" "i < p + lo \<or> p + hi \<le> i" for i
    using b1(2,4) b2(4) that m by auto
  have read: "r1 p c \<and> r2 p c" if "length b2 \<le> length c" "length c < 2 ^ 32"
    "\<forall>i < length b2. p + lo \<le> i \<and> i < p + hi \<or> length b \<le> i \<longrightarrow> c ! i = b2 ! i" for c
  proof
    show "r1 p c"
    proof (rule b1(5) [rule_format])
      fix i assume i: "i < length b1" "p + lo \<le> i \<and> i < p + m \<or> length b \<le> i"
      have "c ! i = b2 ! i" using i that(3) b2(2) m by auto
      moreover have "b2 ! i = b1 ! i" by (rule b2(4) [rule_format]) (use i m a(2) in auto)
      ultimately show "c ! i = b1 ! i" by simp
    qed (use that b2(2) in auto)
    show "r2 p c" by (rule b2(5) [rule_format]) (use that m b1(2) in auto)
  qed
  show "\<exists>b'. bindE (w1 p b) (w2 p) = Inr b' \<and> length b \<le> length b' \<and> length b' \<le> length b + (e1 + e2) \<and>
      (\<forall>i < length b. i < p + lo \<or> p + hi \<le> i \<longrightarrow> b' ! i = b ! i) \<and>
      (\<forall>c. length b' \<le> length c \<longrightarrow> length c < 2 ^ 32 \<longrightarrow>
         (\<forall>i < length b'. p + lo \<le> i \<and> i < p + hi \<or> length b \<le> i \<longrightarrow> c ! i = b' ! i) \<longrightarrow> r1 p c \<and> r2 p c)"
    using b1(1-3) b2(1-3) frame read by (intro exI [of _ b2]) auto
qed

section \<open>Descriptors and their data\<close>

definition prepares :: "(flat_buffer \<Rightarrow> nat \<Rightarrow> u8 list) \<Rightarrow> bool" where
  "prepares fresh \<longleftrightarrow> (\<forall>b n. length (fresh b n) = n)"

lemma unat_of_nat_small: "n < 2 ^ 32 \<Longrightarrow> unat (word_of_nat n :: u32) = n"
  by (simp add: unsigned_of_nat take_bit_nat_eq_self)

lemma padding_dvd:
  fixes al n :: nat
  assumes "0 < al"
  shows "al dvd n + (if n mod al \<noteq> 0 then al - n mod al else 0)"
proof (cases "n mod al = 0")
  case False
  have "n + (al - n mod al) = (n - n mod al) + al"
    using mod_less_divisor [OF assms, of n] mod_less_eq_dividend [of n al] by linarith
  then have "al dvd n + (al - n mod al)" using dvd_add [OF dvd_minus_mod dvd_refl, of al n] by (simp only:)
  then show ?thesis using False by (simp only: if_True simp_thms)
qed (auto simp: mod_0_imp_dvd)

lemma flat_alloc_spec:
  assumes f: "prepares fresh" and n: "n \<noteq> 0" and al: "0 < al" and p: "p + 4 \<le> length b"
    and small: "length b + (unat n * sz + al) < 2 ^ 32" and r: "flat_alloc fresh al sz p n b = (offset, b1)"
  shows "al dvd p + unat offset" "length b \<le> p + unat offset" "length b1 = p + unat offset + unat n * sz" "0 < unat offset"
    "length b1 \<le> length b + (unat n * sz + al)" "\<forall>i < length b. b1 ! i = b ! i"
proof -
  define pad where "pad = (if length b mod al \<noteq> 0 then al - length b mod al else 0)"
  have pad: "pad \<le> al" by (simp add: pad_def)
  have o: "offset = word_of_int (int (length b + pad) - int p)" and b1: "b1 = b @ fresh b (unat n * sz + pad)"
    using r n by (auto simp: flat_alloc_def Let_def pad_def)
  have e: "int (length b + pad) - int p = int (length b + pad - p)" using p by simp
  have "offset = word_of_nat (length b + pad - p)" unfolding o e by (rule of_int_of_nat_eq)
  moreover have "length b + pad - p < 2 ^ 32" using small pad by simp
  ultimately have u: "unat offset = length b + pad - p" by (simp add: unat_of_nat_small)
  have d: "p + unat offset = length b + pad" using u p by simp
  have "al dvd length b + pad" using padding_dvd [OF al, of "length b"] by (simp add: pad_def)
  then show "al dvd p + unat offset" using d by simp
  show "length b \<le> p + unat offset" using d by simp
  show "0 < unat offset" using u p by simp
  show "length b1 = p + unat offset + unat n * sz" using d f by (simp add: b1 prepares_def)
  show "length b1 \<le> length b + (unat n * sz + al)" using f pad by (simp add: b1 prepares_def)
  show "\<forall>i < length b. b1 ! i = b ! i" by (simp add: b1 nth_append)
qed

lemma put_u32_spec:
  "p + 4 \<le> length b \<Longrightarrow> put_u32 p w b = Inr (write_at p (bytes_of_u32 w) b)"
  by (simp add: put_u32_def put_bytes_def)

text \<open>A vector with elements: its descriptor at \<open>p\<close>, its elements written by \<open>w\<close> into the new space.\<close>

lemma codec_vector:
  assumes f: "prepares fresh" and body: "codec al 0 (n * sz) e w r" and n: "0 < n" "n < 2 ^ 32" and al: "0 < al"
    and w: "\<And>p d b. Vector_begin p b = Inr d \<Longrightarrow> Vector_size p b = Inr (word_of_nat n) \<Longrightarrow> al dvd d \<Longrightarrow>
      d + n * sz \<le> length b \<Longrightarrow> length b < 2 ^ 32 \<Longrightarrow> w' p b = w d b"
  shows "codec 1 0 8 (n * sz + al + e)
    (\<lambda>p b. bindE (Vector_construct fresh al sz p (word_of_nat n) b) (w' p))
    (\<lambda>p c. \<exists>d. Vector_begin p c = Inr d \<and> Vector_size p c = Inr (word_of_nat n) \<and> al dvd d \<and> d + n * sz \<le> length c \<and> r d c)"
proof (rule codecI)
  fix p :: nat and b :: flat_buffer assume a: "p + 8 \<le> length b" "length b + (n * sz + al + e) < 2 ^ 32"
  let ?n = "word_of_nat n :: u32"
  have un: "unat ?n = n" using n(2) by (simp add: unat_of_nat_small)
  have n0: "?n \<noteq> 0" using un n(1) by auto
  obtain offset b1 where r1: "flat_alloc fresh al sz p ?n b = (offset, b1)" by fastforce
  have small: "length b + (unat ?n * sz + al) < 2 ^ 32" "p + 4 \<le> length b" using a by (simp_all add: un)
  note s = flat_alloc_spec [OF f n0 al small(2,1) r1, unfolded un]
  define b3 where "b3 = write_at (p + 4) (bytes_of_u32 ?n) (write_at p (bytes_of_u32 offset) b1)"
  let ?d = "p + unat offset"
  have l3: "length b3 = length b1" using s(2,3) a(1) by (simp add: b3_def)
  have con: "Vector_construct fresh al sz p ?n b = Inr b3"
    using s(2,3) a(1) by (simp add: Vector_construct_def r1 put_u32_spec b3_def)
  have n3: "b3 ! i = (if p \<le> i \<and> i < p + 4 then bytes_of_u32 offset ! (i - p)
      else if p + 4 \<le> i \<and> i < p + 8 then bytes_of_u32 ?n ! (i - (p + 4)) else b1 ! i)" for i
    using s(2,3) a(1) by (auto simp: b3_def nth_write_at)
  have desc: "get_u32 p c = Inr offset \<and> get_u32 (p + 4) c = Inr ?n"
    if "length b1 \<le> length c" "\<forall>i. p \<le> i \<and> i < p + 8 \<longrightarrow> c ! i = b3 ! i" for c
    using that s(2,3) a(1) by (intro conjI get_u32_eq) (auto simp: n3)
  have small3: "?d + n * sz \<le> length b3" "length b3 + e < 2 ^ 32" using s(3,5) l3 a(2) by auto
  have "Vector_begin p b3 = Inr ?d" "Vector_size p b3 = Inr ?n"
    using desc [of b3] l3 by (simp_all add: Vector_begin_def Vector_size_def)
  then have beg: "w' p b3 = w ?d b3" by (rule w) (use s(1) small3 in auto)
  from small3 obtain b4 where b4: "w ?d b3 = Inr b4" "length b3 \<le> length b4" "length b4 \<le> length b3 + e"
    "\<forall>i < length b3. i < ?d + 0 \<or> ?d + n * sz \<le> i \<longrightarrow> b4 ! i = b3 ! i"
    "\<forall>c. length b4 \<le> length c \<longrightarrow> length c < 2 ^ 32 \<longrightarrow>
       (\<forall>i < length b4. ?d + 0 \<le> i \<and> i < ?d + n * sz \<or> length b3 \<le> i \<longrightarrow> c ! i = b4 ! i) \<longrightarrow> r ?d c"
    by (rule codecE [OF body s(1)])
  have read: "\<exists>d. Vector_begin p c = Inr d \<and> Vector_size p c = Inr ?n \<and> al dvd d \<and> d + n * sz \<le> length c \<and> r d c"
    if c: "length b4 \<le> length c" "length c < 2 ^ 32"
      "\<forall>i < length b4. p + 0 \<le> i \<and> i < p + 8 \<or> length b \<le> i \<longrightarrow> c ! i = b4 ! i" for c
  proof -
    have "\<forall>i. p \<le> i \<and> i < p + 8 \<longrightarrow> c ! i = b3 ! i" using c(3) b4(2,4) l3 s(2,3) a(1) by auto
    then have "get_u32 p c = Inr offset \<and> get_u32 (p + 4) c = Inr ?n" using desc c(1) b4(2) l3 by auto
    moreover have "r ?d c" by (rule b4(5) [rule_format]) (use c s(2,3) l3 in auto)
    moreover have "?d + n * sz \<le> length c" using s(3) l3 b4(2) c(1) by auto
    ultimately show ?thesis using s(1) by (auto simp: Vector_begin_def Vector_size_def)
  qed
  have frame: "b4 ! i = b ! i" if "i < length b" "i < p + 0 \<or> p + 8 \<le> i" for i
    using that b4(4) l3 s(2,3,6) by (auto simp: n3)
  show "\<exists>b'. bindE (Vector_construct fresh al sz p ?n b) (w' p) = Inr b' \<and>
      length b \<le> length b' \<and> length b' \<le> length b + (n * sz + al + e) \<and>
      (\<forall>i < length b. i < p + 0 \<or> p + 8 \<le> i \<longrightarrow> b' ! i = b ! i) \<and>
      (\<forall>c. length b' \<le> length c \<longrightarrow> length c < 2 ^ 32 \<longrightarrow>
         (\<forall>i < length b'. p + 0 \<le> i \<and> i < p + 8 \<or> length b \<le> i \<longrightarrow> c ! i = b' ! i) \<longrightarrow>
         (\<exists>d. Vector_begin p c = Inr d \<and> Vector_size p c = Inr ?n \<and> al dvd d \<and> d + n * sz \<le> length c \<and> r d c))"
    using con beg b4(1-3) l3 s(2,3,5) frame read by (intro exI [of _ b4]) auto
qed

lemma codec_optional:
  assumes f: "prepares fresh" and body: "codec al 0 sz e w r" and al: "0 < al"
  shows "codec 1 0 4 (sz + al + e)
    (\<lambda>p b. bindE (Optional_alloc fresh al sz p b) (\<lambda>b. bindE (Optional_value p b) (\<lambda>d. w d b)))
    (\<lambda>p c. \<exists>d. Optional_value p c = Inr d \<and> al dvd d \<and> d + sz \<le> length c \<and> r d c)"
proof (rule codecI)
  fix p :: nat and b :: flat_buffer assume a: "p + 4 \<le> length b" "length b + (sz + al + e) < 2 ^ 32"
  obtain offset b1 where r1: "flat_alloc fresh al sz p 1 b = (offset, b1)" by fastforce
  have one: "(1 :: u32) \<noteq> 0" "unat (1 :: u32) * sz = sz" by simp_all
  have small: "length b + (unat (1 :: u32) * sz + al) < 2 ^ 32" using a by simp
  note s = flat_alloc_spec [OF f one(1) al a(1) small r1, unfolded one(2)]
  define b3 where "b3 = write_at p (bytes_of_u32 offset) b1"
  let ?d = "p + unat offset"
  have l3: "length b3 = length b1" using s(2,3) a(1) by (simp add: b3_def)
  have con: "Optional_alloc fresh al sz p b = Inr b3"
    using s(2,3) a(1) by (simp add: Optional_alloc_def r1 put_u32_spec b3_def)
  have n3: "b3 ! i = (if p \<le> i \<and> i < p + 4 then bytes_of_u32 offset ! (i - p) else b1 ! i)" for i
    using s(2,3) a(1) by (auto simp: b3_def nth_write_at)
  have off: "offset \<noteq> 0" using s(4) by auto
  have desc: "Optional_value p c = Inr ?d"
    if "length b1 \<le> length c" "\<forall>i. p \<le> i \<and> i < p + 4 \<longrightarrow> c ! i = b3 ! i" for c
  proof -
    have "get_u32 p c = Inr offset" using that s(2,3) a(1) by (intro get_u32_eq) (auto simp: n3)
    then show ?thesis using off by (simp add: Optional_value_def)
  qed
  have "?d + sz \<le> length b3" "length b3 + e < 2 ^ 32" using s(3,5) l3 a(2) by auto
  then obtain b4 where b4: "w ?d b3 = Inr b4" "length b3 \<le> length b4" "length b4 \<le> length b3 + e"
    "\<forall>i < length b3. i < ?d + 0 \<or> ?d + sz \<le> i \<longrightarrow> b4 ! i = b3 ! i"
    "\<forall>c. length b4 \<le> length c \<longrightarrow> length c < 2 ^ 32 \<longrightarrow>
       (\<forall>i < length b4. ?d + 0 \<le> i \<and> i < ?d + sz \<or> length b3 \<le> i \<longrightarrow> c ! i = b4 ! i) \<longrightarrow> r ?d c"
    by (rule codecE [OF body s(1)])
  have read: "\<exists>d. Optional_value p c = Inr d \<and> al dvd d \<and> d + sz \<le> length c \<and> r d c"
    if c: "length b4 \<le> length c" "length c < 2 ^ 32"
      "\<forall>i < length b4. p + 0 \<le> i \<and> i < p + 4 \<or> length b \<le> i \<longrightarrow> c ! i = b4 ! i" for c
  proof -
    have "\<forall>i. p \<le> i \<and> i < p + 4 \<longrightarrow> c ! i = b3 ! i" using c(3) b4(2,4) l3 s(2,3) a(1) by auto
    then have "Optional_value p c = Inr ?d" using desc c(1) b4(2) l3 by auto
    moreover have "r ?d c" by (rule b4(5) [rule_format]) (use c s(2,3) l3 in auto)
    moreover have "?d + sz \<le> length c" using s(3) l3 b4(2) c(1) by auto
    ultimately show ?thesis using s(1) by auto
  qed
  have frame: "b4 ! i = b ! i" if "i < length b" "i < p + 0 \<or> p + 4 \<le> i" for i
    using that b4(4) l3 s(2,3,6) by (auto simp: n3)
  show "\<exists>b'. bindE (Optional_alloc fresh al sz p b) (\<lambda>b. bindE (Optional_value p b) (\<lambda>d. w d b)) = Inr b' \<and>
      length b \<le> length b' \<and> length b' \<le> length b + (sz + al + e) \<and>
      (\<forall>i < length b. i < p + 0 \<or> p + 4 \<le> i \<longrightarrow> b' ! i = b ! i) \<and>
      (\<forall>c. length b' \<le> length c \<longrightarrow> length c < 2 ^ 32 \<longrightarrow>
         (\<forall>i < length b'. p + 0 \<le> i \<and> i < p + 4 \<or> length b \<le> i \<longrightarrow> c ! i = b' ! i) \<longrightarrow>
         (\<exists>d. Optional_value p c = Inr d \<and> al dvd d \<and> d + sz \<le> length c \<and> r d c))"
    using con desc [of b3] b4(1-3) l3 s(2,3,5) frame read by (intro exI [of _ b4]) auto
qed

lemma codec_u32: "codec 1 0 4 0 (\<lambda>p. put_u32 p w) (\<lambda>p c. get_u32 p c = Inr w)"
proof (rule codecI)
  fix p :: nat and b :: flat_buffer assume a: "p + 4 \<le> length b"
  show "\<exists>b'. put_u32 p w b = Inr b' \<and> length b \<le> length b' \<and> length b' \<le> length b + 0 \<and>
      (\<forall>i < length b. i < p + 0 \<or> p + 4 \<le> i \<longrightarrow> b' ! i = b ! i) \<and>
      (\<forall>c. length b' \<le> length c \<longrightarrow> length c < 2 ^ 32 \<longrightarrow>
         (\<forall>i < length b'. p + 0 \<le> i \<and> i < p + 4 \<or> length b \<le> i \<longrightarrow> c ! i = b' ! i) \<longrightarrow> get_u32 p c = Inr w)"
    using a by (auto simp: put_u32_spec nth_write_at intro!: get_u32_eq)
qed

lemma codec_nullopt: "codec 1 0 4 0 (\<lambda>p. Optional_set_nullopt p) (\<lambda>p c. get_u32 p c = Inr 0)"
  unfolding Optional_set_nullopt_def by (rule codec_u32)

text \<open>A vector without elements has no space of its own; its elements seem to begin at the descriptor.\<close>

lemma codec_vector_empty:
  assumes w: "\<And>p b. al0 dvd p \<Longrightarrow> Vector_begin p b = Inr p \<Longrightarrow> Vector_size p b = Inr 0 \<Longrightarrow> p + 8 \<le> length b \<Longrightarrow>
      length b < 2 ^ 32 \<Longrightarrow> w p b = Inr b"
  shows "codec al0 0 8 0
    (\<lambda>p b. bindE (Vector_construct fresh al sz p 0 b) (w p))
    (\<lambda>p c. Vector_begin p c = Inr p \<and> Vector_size p c = Inr 0 \<and> p + 8 \<le> length c)"
proof (rule codecI)
  fix p :: nat and b :: flat_buffer assume al0: "al0 dvd p" and a: "p + 8 \<le> length b" "length b + 0 < 2 ^ 32"
  define b' where "b' = write_at (p + 4) (bytes_of_u32 0) (write_at p (bytes_of_u32 0) b)"
  have l: "length b' = length b" using a by (simp add: b'_def)
  have n: "b' ! i = (if p \<le> i \<and> i < p + 4 then bytes_of_u32 0 ! (i - p)
      else if p + 4 \<le> i \<and> i < p + 8 then bytes_of_u32 0 ! (i - (p + 4)) else b ! i)" for i
    using a by (auto simp: b'_def nth_write_at)
  have read: "Vector_begin p c = Inr p \<and> Vector_size p c = Inr 0 \<and> p + 8 \<le> length c"
    if "length b' \<le> length c" "\<forall>i. p \<le> i \<and> i < p + 8 \<longrightarrow> c ! i = b' ! i" for c
  proof -
    have "get_u32 p c = Inr 0" "get_u32 (p + 4) c = Inr 0" using that a l by (auto simp: n intro!: get_u32_eq)
    then show ?thesis using that(1) a l by (simp add: Vector_begin_def Vector_size_def)
  qed
  have con: "Vector_construct fresh al sz p 0 b = Inr b'"
    using a by (simp add: Vector_construct_def flat_alloc_def put_u32_spec b'_def)
  have "w p b' = Inr b'" by (rule w [OF al0]) (use read [of b'] a l in simp_all)
  then have run: "bindE (Vector_construct fresh al sz p 0 b) (w p) = Inr b'" by (simp add: con)
  have frame: "b' ! i = b ! i" if "i < p + 0 \<or> p + 8 \<le> i" for i using that by (auto simp: n)
  show "\<exists>b'. bindE (Vector_construct fresh al sz p 0 b) (w p) = Inr b' \<and>
      length b \<le> length b' \<and> length b' \<le> length b + 0 \<and>
      (\<forall>i < length b. i < p + 0 \<or> p + 8 \<le> i \<longrightarrow> b' ! i = b ! i) \<and>
      (\<forall>c. length b' \<le> length c \<longrightarrow> length c < 2 ^ 32 \<longrightarrow>
         (\<forall>i < length b'. p + 0 \<le> i \<and> i < p + 8 \<or> length b \<le> i \<longrightarrow> c ! i = b' ! i) \<longrightarrow>
         Vector_begin p c = Inr p \<and> Vector_size p c = Inr 0 \<and> p + 8 \<le> length c)"
    using run frame read l a by (intro exI [of _ b']) auto
qed

text \<open>The check of a descriptor accepts what lies in the buffer, if the descriptor does not wrap.\<close>

lemma Vector_check:
  assumes "Vector_begin p c = Inr d" "Vector_size p c = Inr n" "al dvd d" "d + unat n * sz \<le> length c" "length c < 2 ^ 32"
  shows "Vector_check_size_align al sz p (word_of_nat (length c)) c = Inr True"
proof -
  have d: "unat (word_of_nat d :: u32) = d" "unat (word_of_nat (d + unat n * sz) :: u32) = d + unat n * sz"
    "unat (word_of_nat (length c) :: u32) = length c"
    by (rule unat_of_nat_small; use assms(4,5) in simp)+
  have "(word_of_nat (d + unat n * sz) :: u32) \<le> word_of_nat (length c)"
    unfolding word_le_nat_alt d(2,3) by (rule assms(4))
  moreover have "unat (word_of_nat d :: u32) mod al = 0" unfolding d(1) using assms(3) by (rule dvd_imp_mod_0)
  ultimately show ?thesis using assms(1,2) by (simp add: Vector_check_size_align_def Vector_range_def)
qed

lemma codec_string:
  assumes f: "prepares fresh"
  shows "codec 1 0 8 (length str + 1) (\<lambda>p. String_assign fresh p str)
    (\<lambda>p c. String_get p c = Inr str \<and> Vector_check_size_align 1 1 p (word_of_nat (length c)) c = Inr True)"
proof -
  have eq: "String_assign fresh p str = (\<lambda>b. bindE (Vector_construct fresh 1 1 p (word_of_nat (length str)) b)
      (\<lambda>b. bindE (Vector_begin p b) (\<lambda>first. put_bytes first str b)))" for p
    by (rule ext) (simp add: String_assign_def Vector_length_def)
  consider "str = []" | "0 < length str" "length str < 2 ^ 32" | "2 ^ 32 \<le> length str" by fastforce
  then show ?thesis
  proof cases
    case 1
    have "codec 1 0 8 0 (\<lambda>p. String_assign fresh p str) (\<lambda>p c. Vector_begin p c = Inr p \<and> Vector_size p c = Inr 0 \<and> p + 8 \<le> length c)"
      unfolding eq unfolding 1 list.size(3) semiring_1_class.of_nat_0 by (rule codec_vector_empty) (simp add: put_bytes_def write_at_def)
    then show ?thesis
      by (rule codec_weaken) (use Vector_check [of _ _ _ 0 1 1] 1 in \<open>auto simp: String_get_def get_bytes_def\<close>)
  next
    case 2
    have u: "unat (word_of_nat (length str) :: u32) = length str" by (rule unat_of_nat_small) (rule 2(2))
    have "codec 1 0 8 (length str * 1 + 1 + 0) (\<lambda>p. String_assign fresh p str)
        (\<lambda>p c. \<exists>d. Vector_begin p c = Inr d \<and> Vector_size p c = Inr (word_of_nat (length str)) \<and> 1 dvd d \<and>
          d + length str * 1 \<le> length c \<and> get_bytes d (length str) c = Inr str)"
      unfolding eq by (rule codec_vector [OF f, where w = "\<lambda>d. put_bytes d str"]) (use codec_bytes [of str] 2 in simp_all)
    then show ?thesis
    proof (rule codec_weaken)
      fix p c
      assume c: "length c < 2 ^ 32" and "\<exists>d. Vector_begin p c = Inr d \<and> Vector_size p c = Inr (word_of_nat (length str)) \<and> 1 dvd d \<and>
          d + length str * 1 \<le> length c \<and> get_bytes d (length str) c = Inr str"
      then obtain d where d: "Vector_begin p c = Inr d" "Vector_size p c = Inr (word_of_nat (length str))"
        "d + length str * 1 \<le> length c" "get_bytes d (length str) c = Inr str" by blast
      have "Vector_check_size_align 1 1 p (word_of_nat (length c)) c = Inr True"
        by (rule Vector_check [OF d(1,2)]) (use d(3) c u in simp_all)
      then show "String_get p c = Inr str \<and> Vector_check_size_align 1 1 p (word_of_nat (length c)) c = Inr True"
        using d u by (simp add: String_get_def)
    qed simp_all
  qed (auto simp: codec_def)
qed

end
