(* ===== verification/Idl_Marshal.thy ===== *)
theory Idl_Marshal
  imports Idl_Layout Np_Flat
begin

text \<open>
  What the code generated by \<open>nprpc/npidl/src/cpp_builder.cpp\<close> does: \<open>assign_from_cpp_type\<close> writes the
  statements that copy a C++ value into a flat buffer, \<open>assign_from_flat_type\<close> the statements that copy
  it back, \<open>emit_safety_checks_r\<close> the checks of a received buffer. Each definition executes the
  statements that the builder writes for a type, case by case, on the operations of \<open>flat.hpp\<close>; the
  fields of an emitted struct lie at the offsets of the platform's rule, which are those of
  \<open>marshal_offsets\<close>. \<open>Unsupported\<close> stands for an assertion of the builder, for output that does not
  compile, and for objects, whose copying is in a file that the build generates.
\<close>

section \<open>Values\<close>

text \<open>A value of a flat type is given by its bytes in memory.\<close>

datatype cpp_value = VBytes "u8 list" | VStruct "cpp_value list" | VSeq "cpp_value list" | VString "u8 list"
  | VOptional "cpp_value option"

fun raw_bytes :: "cpp_value \<Rightarrow> u8 list" where
  "raw_bytes (VBytes bs) = bs"
| "raw_bytes v = []"

section \<open>Statements over a list\<close>

fun foldE :: "('a \<Rightarrow> 's \<Rightarrow> 'e + 's) \<Rightarrow> 'a list \<Rightarrow> 's \<Rightarrow> 'e + 's" where
  "foldE f [] s = Inr s"
| "foldE f (x # xs) s = bindE (f x s) (foldE f xs)"

lemma foldE_cong [fundef_cong]:
  "xs = ys \<Longrightarrow> s = t \<Longrightarrow> (\<And>x s. x \<in> set ys \<Longrightarrow> f x s = g x s) \<Longrightarrow> foldE f xs s = foldE g ys t"
proof (induction xs arbitrary: ys s t)
  case (Cons x xs)
  have "foldE f xs = foldE g xs" by (rule ext) (rule Cons.IH, use Cons.prems in auto)
  then show ?case using Cons.prems by (cases ys) auto
qed auto

fun traverseE :: "('a \<Rightarrow> 'e + 'b) \<Rightarrow> 'a list \<Rightarrow> 'e + 'b list" where
  "traverseE f [] = Inr []"
| "traverseE f (x # xs) = bindE (f x) (\<lambda>y. mapE ((#) y) (traverseE f xs))"

lemma traverseE_cong [fundef_cong]:
  "xs = ys \<Longrightarrow> (\<And>x. x \<in> set ys \<Longrightarrow> f x = g x) \<Longrightarrow> traverseE f xs = traverseE g ys"
  by (induction xs arbitrary: ys) auto

text \<open>Checks in a row: the first one that fails ends them.\<close>

fun all_checks :: "('a \<Rightarrow> 'e + bool) \<Rightarrow> 'a list \<Rightarrow> 'e + bool" where
  "all_checks f [] = Inr True"
| "all_checks f (x # xs) = bindE (f x) (\<lambda>ok. if ok then all_checks f xs else Inr False)"

lemma all_checks_cong [fundef_cong]:
  "xs = ys \<Longrightarrow> (\<And>x. x \<in> set ys \<Longrightarrow> f x = g x) \<Longrightarrow> all_checks f xs = all_checks g ys"
  by (induction xs arbitrary: ys) (auto cong: if_cong)

section \<open>Sizes and elements\<close>

text \<open>\<open>sizeof\<close> and \<open>alignof\<close> of the flat type of \<open>t\<close>.\<close>

definition flat_size :: "AstType \<Rightarrow> nat" where
  "flat_size t = (case get_type_size_align t of None \<Rightarrow> 0 | Some (sz, al) \<Rightarrow> nat sz)"

definition flat_align :: "AstType \<Rightarrow> nat" where
  "flat_align t = (case get_type_size_align t of None \<Rightarrow> 1 | Some (sz, al) \<Rightarrow> nat al)"

text \<open>\<open>offsetof\<close> for the fields of a struct.\<close>

definition field_offsets :: "AstStruct \<Rightarrow> nat list option" where
  "field_offsets s = map_option (map (\<lambda>(first, fin). nat first)) (marshal_offsets (struct_fields s) 0)"

text \<open>
  Whether \<open>emit_accessors\<close> writes an accessor for vectors and arrays of \<open>t\<close>; an optional array names a
  class that does not exist, an optional string is assigned through a function that takes no argument.
\<close>

definition is_struct_type :: "AstType \<Rightarrow> bool" where
  "is_struct_type t \<longleftrightarrow> (case real_type t of Struct s \<Rightarrow> True | _ \<Rightarrow> False)"

definition is_array_type :: "AstType \<Rightarrow> bool" where
  "is_array_type t \<longleftrightarrow> (case real_type t of Array u n \<Rightarrow> True | _ \<Rightarrow> False)"

definition is_string_type :: "AstType \<Rightarrow> bool" where
  "is_string_type t \<longleftrightarrow> real_type t = StringType"

definition has_accessor :: "AstType \<Rightarrow> bool" where
  "has_accessor t \<longleftrightarrow> (case real_type t of Fundamental tok \<Rightarrow> True | Enum e tok \<Rightarrow> True | Struct s \<Rightarrow> True | _ \<Rightarrow> False)"

text \<open>
  The accessor of a vector at \<open>p\<close>: a \<open>Span\<close> of pointers for fundamental elements and a \<open>Span_ref\<close> of
  offsets for structs; where the elements begin, and the positions that a loop over them visits.
\<close>

definition vector_data :: "AstType \<Rightarrow> nat \<Rightarrow> flat_buffer \<Rightarrow> flat_error + nat" where
  "vector_data t p b =
     (if is_struct_type t then mapE (\<lambda>(first, bound). unat first) (Vector_range True (flat_align t) (flat_size t) p b)
      else Vector_begin p b)"

definition vector_count :: "AstType \<Rightarrow> nat \<Rightarrow> flat_buffer \<Rightarrow> flat_error + nat" where
  "vector_count t p b =
     (if is_struct_type t
      then mapE (\<lambda>(first, bound). Span_ref_size (flat_size t) first bound) (Vector_range True (flat_align t) (flat_size t) p b)
      else mapE unat (Vector_size p b))"

definition vector_elements :: "AstType \<Rightarrow> nat \<Rightarrow> flat_buffer \<Rightarrow> flat_error + nat list" where
  "vector_elements t p b =
     bindE (Vector_size p b) (\<lambda>n.
       mapE (\<lambda>(first, bound). Span_ref_iterate (unat n) (flat_size t) first bound)
         (Vector_range True (flat_align t) (flat_size t) p b))"

text \<open>The same for an array in place.\<close>

definition array_range :: "AstType \<Rightarrow> nat \<Rightarrow> nat \<Rightarrow> flat_error + u32 \<times> u32" where
  "array_range t n p =
     (if p mod flat_align t \<noteq> 0 then Inl AssertionFailed
      else Inr (word_of_nat p, word_of_nat (p + n * flat_size t)))"

definition array_data :: "AstType \<Rightarrow> nat \<Rightarrow> nat \<Rightarrow> flat_error + nat" where
  "array_data t n p = (if is_struct_type t then mapE (\<lambda>(first, bound). unat first) (array_range t n p) else Inr p)"

definition array_count :: "AstType \<Rightarrow> nat \<Rightarrow> nat \<Rightarrow> flat_error + nat" where
  "array_count t n p =
     (if is_struct_type t then mapE (\<lambda>(first, bound). Span_ref_size (flat_size t) first bound) (array_range t n p) else Inr n)"

definition array_elements :: "AstType \<Rightarrow> nat \<Rightarrow> nat \<Rightarrow> flat_error + nat list" where
  "array_elements t n p = mapE (\<lambda>(first, bound). Span_ref_iterate n (flat_size t) first bound) (array_range t n p)"

section \<open>Copying a value into the buffer\<close>

function assign_from_cpp_type ::
    "(flat_buffer \<Rightarrow> nat \<Rightarrow> u8 list) \<Rightarrow> AstType \<Rightarrow> cpp_value \<Rightarrow> nat \<Rightarrow> flat_buffer \<Rightarrow> flat_error + flat_buffer" where
  "assign_from_cpp_type fresh (Fundamental tok) v p b =
     (case v of
        VBytes bs \<Rightarrow> if tok = Tok_Boolean then Boolean_set p (bs \<noteq> [0]) b else put_bytes p bs b
      | _ \<Rightarrow> Inl Unsupported)"
| "assign_from_cpp_type fresh (Enum e tok) v p b = (case v of VBytes bs \<Rightarrow> put_bytes p bs b | _ \<Rightarrow> Inl Unsupported)"
| "assign_from_cpp_type fresh (Struct s) v p b =
     (if struct_flat s then (case v of VBytes bs \<Rightarrow> put_bytes p (take (nat (struct_size s)) bs) b | _ \<Rightarrow> Inl Unsupported)
      else case (v, field_offsets s) of
        (VStruct vs, Some os) \<Rightarrow>
          foldE (\<lambda>(f, v, off). assign_from_cpp_type fresh (snd f) v (p + off)) (zip (struct_fields s) (zip vs os)) b
      | _ \<Rightarrow> Inl Unsupported)"
| "assign_from_cpp_type fresh (Vector t) v p b =
     (case v of
        VSeq vs \<Rightarrow>
          if \<not> has_accessor t then Inl Unsupported
          else bindE (Vector_construct fresh (flat_align t) (flat_size t) p (word_of_nat (length vs)) b) (\<lambda>b.
            if is_flat t = Some True then bindE (vector_data t p b) (\<lambda>d. put_bytes d (concat (map raw_bytes vs)) b)
            else bindE (vector_elements t p b) (\<lambda>ps. foldE (\<lambda>(v, q). assign_from_cpp_type fresh t v q) (zip vs ps) b))
      | _ \<Rightarrow> Inl Unsupported)"
| "assign_from_cpp_type fresh (Array t n) v p b =
     (case v of
        VSeq vs \<Rightarrow>
          if \<not> has_accessor t then Inl Unsupported
          else if is_flat t = Some True then bindE (array_data t (nat n) p) (\<lambda>d. put_bytes d (concat (map raw_bytes vs)) b)
          else bindE (array_elements t (nat n) p) (\<lambda>ps. foldE (\<lambda>(v, q). assign_from_cpp_type fresh t v q) (zip vs ps) b)
      | _ \<Rightarrow> Inl Unsupported)"
| "assign_from_cpp_type fresh (Alias a t) v p b = assign_from_cpp_type fresh t v p b"
| "assign_from_cpp_type fresh StringType v p b = (case v of VString str \<Rightarrow> String_assign fresh p str b | _ \<Rightarrow> Inl Unsupported)"
| "assign_from_cpp_type fresh (Optional t) v p b =
     (case v of
        VOptional (Some v) \<Rightarrow>
          if is_string_type t \<or> is_array_type t then Inl Unsupported
          else bindE (Optional_alloc fresh (flat_align t) (flat_size t) p b) (\<lambda>b.
            bindE (Optional_value p b) (\<lambda>d. assign_from_cpp_type fresh (real_type t) v d b))
      | VOptional None \<Rightarrow> Optional_set_nullopt p b
      | _ \<Rightarrow> Inl Unsupported)"
| "assign_from_cpp_type fresh Object v p b = Inl Unsupported"
| "assign_from_cpp_type fresh Void v p b = Inl Unsupported"
| "assign_from_cpp_type fresh (Interface i) v p b = Inl Unsupported"
  by pat_completeness auto

termination assign_from_cpp_type
  by (relation "measure (\<lambda>(fresh, t, v, p, b). size t)")
    (auto simp: less_Suc_eq_le size_real_type dest!: size_field set_zip_leftD)

section \<open>Copying a value out of the buffer\<close>

text \<open>The \<open>memcpy\<close> of \<open>n\<close> flat elements of \<open>sz\<close> bytes.\<close>

definition read_flat_elements :: "nat \<Rightarrow> nat \<Rightarrow> nat \<Rightarrow> flat_buffer \<Rightarrow> flat_error + cpp_value" where
  "read_flat_elements sz n d b = mapE VSeq (traverseE (\<lambda>i. mapE VBytes (get_bytes (d + i * sz) sz b)) [0 ..< n])"

function assign_from_flat_type :: "AstType \<Rightarrow> nat \<Rightarrow> flat_buffer \<Rightarrow> flat_error + cpp_value" where
  "assign_from_flat_type (Fundamental tok) p b =
     (case get_fundamental_size tok of
        None \<Rightarrow> Inl Unsupported
      | Some sz \<Rightarrow>
          if tok = Tok_Boolean then mapE (\<lambda>v. VBytes [if v then 1 else 0]) (Boolean_get p b)
          else mapE VBytes (get_bytes p (nat sz) b))"
| "assign_from_flat_type (Enum e tok) p b =
     (case get_fundamental_size tok of None \<Rightarrow> Inl Unsupported | Some sz \<Rightarrow> mapE VBytes (get_bytes p (nat sz) b))"
| "assign_from_flat_type (Struct s) p b =
     (if struct_flat s then mapE VBytes (get_bytes p (nat (struct_size s)) b)
      else case field_offsets s of
        None \<Rightarrow> Inl Unsupported
      | Some os \<Rightarrow>
          mapE VStruct (traverseE (\<lambda>(f, off). assign_from_flat_type (snd f) (p + off) b) (zip (struct_fields s) os)))"
| "assign_from_flat_type (Vector t) p b =
     (if \<not> has_accessor t then Inl Unsupported
      else if is_flat t = Some True
        then bindE (vector_data t p b) (\<lambda>d. bindE (vector_count t p b) (\<lambda>n. read_flat_elements (flat_size t) n d b))
      else bindE (vector_elements t p b) (\<lambda>ps. mapE VSeq (traverseE (\<lambda>q. assign_from_flat_type t q b) ps)))"
| "assign_from_flat_type (Array t n) p b =
     (if \<not> has_accessor t then Inl Unsupported
      else if is_flat t = Some True
        then bindE (array_data t (nat n) p) (\<lambda>d. bindE (array_count t (nat n) p) (\<lambda>k. read_flat_elements (flat_size t) k d b))
      else bindE (array_elements t (nat n) p) (\<lambda>ps. mapE VSeq (traverseE (\<lambda>q. assign_from_flat_type t q b) ps)))"
| "assign_from_flat_type (Alias a t) p b = assign_from_flat_type (real_type t) p b"
| "assign_from_flat_type StringType p b = mapE VString (String_get p b)"
| "assign_from_flat_type (Optional t) p b =
     bindE (Optional_has_value p b) (\<lambda>has_value.
       if has_value then
         if is_array_type t then Inl Unsupported
         else bindE (Optional_value p b) (\<lambda>d. mapE (\<lambda>v. VOptional (Some v)) (assign_from_flat_type (real_type t) d b))
       else Inr (VOptional None))"
| "assign_from_flat_type Object p b = Inl Unsupported"
| "assign_from_flat_type Void p b = Inl Unsupported"
| "assign_from_flat_type (Interface i) p b = Inl Unsupported"
  by pat_completeness auto

termination assign_from_flat_type
  by (relation "measure (\<lambda>(t, p, b). size t)")
    (auto simp: less_Suc_eq_le size_real_type le_less_trans [OF size_real_type] dest!: size_field set_zip_leftD)

section \<open>Checking a received buffer\<close>

text \<open>
  The fields of a struct for which checks are written: an alias is resolved to decide, an array of flat
  elements leaves the loop over the fields.
\<close>

fun checked_fields :: "((string \<times> AstType) \<times> nat) list \<Rightarrow> ((string \<times> AstType) \<times> nat) list" where
  "checked_fields [] = []"
| "checked_fields (f # fs) =
     (case real_type (snd (fst f)) of
        Vector t \<Rightarrow> f # checked_fields fs
      | Optional t \<Rightarrow> f # checked_fields fs
      | Struct s \<Rightarrow> f # checked_fields fs
      | StringType \<Rightarrow> f # checked_fields fs
      | Array t n \<Rightarrow> if is_flat t = Some True then [] else checked_fields fs
      | _ \<Rightarrow> checked_fields fs)"

lemma checked_fields_subset: "set (checked_fields fs) \<subseteq> set fs"
  by (induction fs) (auto split: AstType.splits if_splits)

lemma checked_field_size:
  "(f, off) \<in> set (checked_fields (zip (struct_fields s) os)) \<Longrightarrow> size (snd f) < size s"
  using checked_fields_subset by (auto dest!: subsetD set_zip_leftD intro!: size_field)

function emit_safety_checks_r :: "AstType \<Rightarrow> bool \<Rightarrow> nat \<Rightarrow> flat_buffer \<Rightarrow> flat_error + bool" where
  "emit_safety_checks_r (Struct s) top_type p b =
     (if top_type \<and> (word_of_nat (length b) :: u32) < word_of_nat p + word_of_int (struct_size s) then Inr False
      else if struct_flat s then Inr True
      else case field_offsets s of
        None \<Rightarrow> Inl Unsupported
      | Some os \<Rightarrow>
          all_checks (\<lambda>(f, off). emit_safety_checks_r (snd f) (case real_type (snd f) of Struct s \<Rightarrow> False | _ \<Rightarrow> True) (p + off) b)
            (checked_fields (zip (struct_fields s) os)))"
| "emit_safety_checks_r StringType top_type p b = Vector_check_size_align 1 1 p (word_of_nat (length b)) b"
| "emit_safety_checks_r (Vector t) top_type p b =
     bindE (Vector_check_size_align (flat_align t) (flat_size t) p (word_of_nat (length b)) b) (\<lambda>ok.
       if \<not> ok then Inr False
       else if is_flat t = Some True then Inr True
       else bindE (vector_elements t p b) (all_checks (\<lambda>q. emit_safety_checks_r t True q b)))"
| "emit_safety_checks_r (Optional t) top_type p b =
     bindE (Optional_check_size_align (flat_align t) (flat_size t) p (word_of_nat (length b)) b) (\<lambda>ok.
       if \<not> ok then Inr False
       else if is_flat t = Some True then Inr True
       else bindE (Optional_has_value p b) (\<lambda>has_value.
         if has_value then bindE (Optional_value p b) (\<lambda>q. emit_safety_checks_r t True q b) else Inr True))"
| "emit_safety_checks_r (Fundamental tok) top_type p b = Inr True"
| "emit_safety_checks_r (Enum e tok) top_type p b = Inr True"
| "emit_safety_checks_r (Array t n) top_type p b = Inr True"
| "emit_safety_checks_r (Alias a t) top_type p b = Inr True"
| "emit_safety_checks_r Object top_type p b = Inr True"
| "emit_safety_checks_r Void top_type p b = Inr True"
| "emit_safety_checks_r (Interface i) top_type p b = Inr True"
  by pat_completeness auto

termination emit_safety_checks_r
  by (relation "measure (\<lambda>(t, top, p, b). size t)") (auto simp: less_Suc_eq dest: checked_field_size)

end
