(* ===== verification/Idl_Marshal_Spec.thy ===== *)
theory Idl_Marshal_Spec
  imports Idl_Marshal
begin

text \<open>
  The generated copying code is correct: a value that was copied into a flat buffer is copied out
  unchanged, whatever is allocated behind it, and passes the generated checks; and the inputs on which
  the checks fail to protect the receiver or reject a correct message.
\<close>

section \<open>Values of a type\<close>

text \<open>The types that the builder supports, with the sizes that it has computed.\<close>

function cpp_type :: "AstType \<Rightarrow> bool" where
  "cpp_type (Fundamental tok) \<longleftrightarrow> get_fundamental_size tok \<noteq> None"
| "cpp_type (Enum e tok) \<longleftrightarrow> get_fundamental_size tok \<noteq> None"
| "cpp_type (Struct s) \<longleftrightarrow> calc_struct_size_align s = Some s \<and> struct_fields s \<noteq> [] \<and> (\<forall>f \<in> set (struct_fields s). cpp_type (snd f))"
| "cpp_type (Vector t) \<longleftrightarrow> has_accessor t \<and> cpp_type t"
| "cpp_type (Array t n) \<longleftrightarrow> 1 \<le> n \<and> has_accessor t \<and> real_type t = t \<and> cpp_type t"
| "cpp_type (Alias a t) \<longleftrightarrow> cpp_type t"
| "cpp_type StringType \<longleftrightarrow> True"
| "cpp_type (Optional t) \<longleftrightarrow>
     (case real_type t of Fundamental tok \<Rightarrow> True | Enum e tok \<Rightarrow> True | Struct s \<Rightarrow> True | Vector u \<Rightarrow> True | _ \<Rightarrow> False) \<and> cpp_type t"
| "cpp_type Object \<longleftrightarrow> False"
| "cpp_type Void \<longleftrightarrow> False"
| "cpp_type (Interface i) \<longleftrightarrow> False"
  by pat_completeness auto

termination cpp_type
  by (relation "measure size") (auto simp: less_Suc_eq dest!: size_field)

text \<open>Values as the type has them; an empty vector whose elements need an alignment of 8 is excluded.\<close>

function typed :: "AstType \<Rightarrow> cpp_value \<Rightarrow> bool" where
  "typed (Fundamental tok) v \<longleftrightarrow>
     (case v of VBytes bs \<Rightarrow> get_fundamental_size tok = Some (int (length bs)) \<and> (tok = Tok_Boolean \<longrightarrow> bs = [0] \<or> bs = [1]) | _ \<Rightarrow> False)"
| "typed (Enum e tok) v \<longleftrightarrow> (case v of VBytes bs \<Rightarrow> get_fundamental_size tok = Some (int (length bs)) | _ \<Rightarrow> False)"
| "typed (Struct s) v \<longleftrightarrow>
     (if struct_flat s then (case v of VBytes bs \<Rightarrow> struct_size s = int (length bs) | _ \<Rightarrow> False)
      else case v of
        VStruct vs \<Rightarrow> length vs = length (struct_fields s) \<and> (\<forall>(f, v) \<in> set (zip (struct_fields s) vs). typed (snd f) v)
      | _ \<Rightarrow> False)"
| "typed (Vector t) v \<longleftrightarrow>
     (case v of VSeq vs \<Rightarrow> (\<forall>v \<in> set vs. typed t v) \<and> (vs = [] \<longrightarrow> flat_align t dvd 4) | _ \<Rightarrow> False)"
| "typed (Array t n) v \<longleftrightarrow> (case v of VSeq vs \<Rightarrow> int (length vs) = n \<and> (\<forall>v \<in> set vs. typed t v) | _ \<Rightarrow> False)"
| "typed (Alias a t) v \<longleftrightarrow> typed t v"
| "typed StringType v \<longleftrightarrow> (case v of VString str \<Rightarrow> True | _ \<Rightarrow> False)"
| "typed (Optional t) v \<longleftrightarrow>
     (case v of VOptional None \<Rightarrow> True | VOptional (Some v) \<Rightarrow> typed (real_type t) v | _ \<Rightarrow> False)"
| "typed Object v \<longleftrightarrow> False"
| "typed Void v \<longleftrightarrow> False"
| "typed (Interface i) v \<longleftrightarrow> False"
  by pat_completeness auto

termination typed
  by (relation "measure (\<lambda>(t, v). size t)") (auto simp: less_Suc_eq_le size_real_type le_less_trans [OF size_real_type] dest!: size_field set_zip_leftD)

text \<open>How much a value takes at most behind its own slot.\<close>

function extra :: "AstType \<Rightarrow> cpp_value \<Rightarrow> nat" where
  "extra (Struct s) v =
     (case v of VStruct vs \<Rightarrow> (\<Sum>(f, v) \<leftarrow> zip (struct_fields s) vs. extra (snd f) v) | _ \<Rightarrow> 0)"
| "extra (Vector t) v = (case v of VSeq vs \<Rightarrow> length vs * flat_size t + flat_align t + (\<Sum>v \<leftarrow> vs. extra t v) | _ \<Rightarrow> 0)"
| "extra (Array t n) v = (case v of VSeq vs \<Rightarrow> (\<Sum>v \<leftarrow> vs. extra t v) | _ \<Rightarrow> 0)"
| "extra (Alias a t) v = extra t v"
| "extra StringType v = (case v of VString str \<Rightarrow> length str + 1 | _ \<Rightarrow> 0)"
| "extra (Optional t) v =
     (case v of VOptional (Some v) \<Rightarrow> flat_size t + flat_align t + extra (real_type t) v | _ \<Rightarrow> 0)"
| "extra (Fundamental tok) v = 0"
| "extra (Enum e tok) v = 0"
| "extra Object v = 0"
| "extra Void v = 0"
| "extra (Interface i) v = 0"
  by pat_completeness auto

termination extra
  by (relation "measure (\<lambda>(t, v). size t)") (auto simp: less_Suc_eq_le size_real_type le_less_trans [OF size_real_type] dest!: size_field set_zip_leftD)

section \<open>Sizes\<close>

lemma cpp_type_real: "cpp_type (real_type t) = cpp_type t"
  by (induction t rule: real_type.induct) simp_all

lemma flat_real [simp]: "flat_size (real_type t) = flat_size t" "flat_align (real_type t) = flat_align t"
  "is_flat (real_type t) = is_flat t"
  by (induction t rule: real_type.induct) (simp_all add: flat_size_def flat_align_def)

lemma flat_alias [simp]: "flat_size (Alias a t) = flat_size t" "flat_align (Alias a t) = flat_align t"
  by (simp_all add: flat_size_def flat_align_def)

lemma accessor_element: "has_accessor t \<Longrightarrow> element_ok t"
  by (auto simp: has_accessor_def element_ok_def is_struct_def split: AstType.splits)

lemma element_ok_simps:
  "element_ok (Fundamental tok)" "element_ok (Enum e tok)" "element_ok (Struct s)"
  by (simp_all add: element_ok_def is_struct_def)

lemma cpp_type_wf: "cpp_type t \<Longrightarrow> wf_type t"
proof (induction t rule: cpp_type.induct)
  case (3 s)
  have "\<forall>f \<in> set (struct_fields s). wf_type (snd f)" using 3 by auto
  then obtain a stop os where c: "calc_fields (struct_fields s) (1, 0) = Some (a, stop)" "a \<in> {1, 2, 4, 8}" "0 \<le> stop"
    using fields_layout [of "struct_fields s" 1 0] by auto
  then have "struct_align s = a" "struct_size s = fst (align_offset a stop 0 1)"
    using 3(2) by (cases s; auto simp: calc_struct_size_align_def)+
  moreover obtain sz e where al: "align_offset a stop 0 1 = (sz, e)" by fastforce
  moreover have "0 < a" using c(2) by auto
  note o = align_offset_spec [OF this al]
  ultimately show ?case using c(2,3) o(1,3) by (simp add: struct_ok_def)
next
  case (8 t)
  then have "cpp_type (real_type t)" by (simp add: cpp_type_real)
  then show ?case using 8(2) by (cases "real_type t") (auto simp: accessor_element element_ok_simps)
qed (auto simp: accessor_element)

lemma struct_fields_layout:
  assumes "cpp_type (Struct s)"
  shows "\<exists>os. marshal_offsets (struct_fields s) 0 = Some os \<and>
    laid_out (map snd (struct_fields s)) (struct_align s) 0 os (struct_size s) \<and> struct_align s \<in> {1, 2, 4, 8}"
proof -
  have "\<forall>f \<in> set (struct_fields s). wf_type (snd f)" using assms cpp_type_wf by auto
  then obtain a stop os where c: "calc_fields (struct_fields s) (1, 0) = Some (a, stop)" "marshal_offsets (struct_fields s) 0 = Some os"
    "a \<in> {1, 2, 4, 8}" "laid_out (map snd (struct_fields s)) a 0 os stop"
    using fields_layout [of "struct_fields s" 1 0] by auto
  then have a: "struct_align s = a" "struct_size s = fst (align_offset a stop 0 1)"
    using assms by (cases s; auto simp: calc_struct_size_align_def)+
  obtain sz e where al: "align_offset a stop 0 1 = (sz, e)" by fastforce
  have "0 < a" using c(3) by auto
  note o = align_offset_spec [OF this al]
  have "laid_out (map snd (struct_fields s)) a 0 os sz" by (rule laid_out_stop [OF c(4) o(1)])
  then show ?thesis using a al c(2,3) by auto
qed

lemma laid_out_pos:
  assumes "laid_out ts al start os stop" "ts \<noteq> []" "\<forall>t \<in> set ts. \<forall>sz a. type_layout t = Some (sz, a) \<longrightarrow> 0 < sz" "0 \<le> start"
  shows "0 < stop"
  using assms
proof (induction ts al start os stop rule: laid_out.induct)
  case (2 t ts al start first fin os stop)
  then show ?case by (cases "ts = []"; cases os) (auto split: option.splits)
qed auto

lemma cpp_type_size:
  "cpp_type t \<Longrightarrow> \<exists>sz al. get_type_size_align t = Some (sz, al) \<and> type_layout t = Some (sz, al) \<and> 0 < sz \<and> al \<in> {1, 2, 4, 8}"
proof (induction t rule: cpp_type.induct)
  case (1 tok)
  then show ?case using fundamental_size [of tok] by (auto simp: type_layout_def)
next
  case (2 e tok)
  then show ?case using fundamental_size [of tok] by (auto simp: type_layout_def)
next
  case (3 s)
  obtain os where os: "laid_out (map snd (struct_fields s)) (struct_align s) 0 os (struct_size s)" "struct_align s \<in> {1, 2, 4, 8}"
    using struct_fields_layout [OF 3(2)] by blast
  have "0 < struct_size s"
    by (rule laid_out_pos [OF os(1)]) (use 3 in fastforce)+
  then show ?case using os(2) by (simp add: type_layout_def)
next
  case (5 t n)
  then show ?case by (auto simp: type_layout_def)
next
  case (6 a t)
  then show ?case by simp
qed (auto simp: type_layout_def)

lemma cpp_type_flat:
  assumes "cpp_type t"
  shows "get_type_size_align t = Some (int (flat_size t), int (flat_align t))" "0 < flat_size t" "flat_align t \<in> {1, 2, 4, 8}"
    "type_layout t = Some (int (flat_size t), int (flat_align t))"
  using cpp_type_size [OF assms] by (auto simp: flat_size_def flat_align_def)

lemma align_pos: "cpp_type t \<Longrightarrow> 0 < flat_align t"
  using cpp_type_flat(3) [of t] by auto

text \<open>In a run of elements each one is aligned.\<close>

lemma element_stride:
  assumes "cpp_type t" "has_accessor t"
  shows "flat_align t dvd flat_size t"
proof -
  have u: "cpp_type (real_type t)" using assms(1) by (simp add: cpp_type_real)
  show ?thesis
  proof (cases "real_type t")
    case (Fundamental tok)
    then have "flat_align (real_type t) dvd flat_size (real_type t)" by (cases "get_fundamental_size tok") (auto simp: flat_align_def flat_size_def)
    then show ?thesis by simp
  next
    case (Enum e tok)
    then have "flat_align (real_type t) dvd flat_size (real_type t)" by (cases "get_fundamental_size tok") (auto simp: flat_align_def flat_size_def)
    then show ?thesis by simp
  next
    case (Struct s)
    then have "struct_ok s" using cpp_type_wf [OF u] by simp
    then have "flat_align (real_type t) dvd flat_size (real_type t)"
      using Struct by (auto simp: flat_align_def flat_size_def struct_ok_def nat_dvd_iff)
    then show ?thesis by simp
  qed (use assms(2) in \<open>auto simp: has_accessor_def\<close>)
qed

section \<open>Runs of writes\<close>

fun spread :: "nat \<Rightarrow> (nat \<times> nat) list \<Rightarrow> nat \<Rightarrow> bool" where
  "spread lo [] hi \<longleftrightarrow> lo \<le> hi"
| "spread lo ((off, sz) # xs) hi \<longleftrightarrow> lo \<le> off \<and> spread (off + sz) xs hi"

lemma spread_le: "spread lo xs hi \<Longrightarrow> lo \<le> hi"
  by (induction lo xs hi rule: spread.induct) auto

lemma codec_skip: "codec al lo hi 0 (\<lambda>p b. Inr b) (\<lambda>p c. True)"
  by (auto simp: codec_def)

lemma codec_fold:
  assumes "\<And>x. x \<in> set xs \<Longrightarrow> codec al (off x) (off x + sz x) (e x) (w x) (r x)"
    and "spread lo (map (\<lambda>x. (off x, sz x)) xs) hi"
  shows "codec al lo hi (\<Sum>x \<leftarrow> xs. e x) (\<lambda>p. foldE (\<lambda>x. w x p) xs) (\<lambda>p c. \<forall>x \<in> set xs. r x p c)"
  using assms
proof (induction xs arbitrary: lo)
  case Nil
  then show ?case using codec_skip [of al lo hi] by simp
next
  case (Cons x xs)
  have s: "lo \<le> off x" "spread (off x + sz x) (map (\<lambda>x. (off x, sz x)) xs) hi" using Cons.prems(2) by simp_all
  have "codec al lo (off x + sz x) (e x) (w x) (r x)"
    by (rule codec_weaken [OF Cons.prems(1)]) (use s in auto)
  moreover have "codec al (off x + sz x) hi (\<Sum>x \<leftarrow> xs. e x) (\<lambda>p. foldE (\<lambda>x. w x p) xs) (\<lambda>p c. \<forall>x \<in> set xs. r x p c)"
    by (rule Cons.IH) (use Cons.prems(1) s in auto)
  ultimately show ?case using codec_seq [of al lo "off x + sz x" "e x" "w x" "r x" "off x + sz x" hi] s(1) spread_le [OF s(2)]
    by simp
qed

lemma traverseE_Inr: "traverseE f xs = Inr ys \<longleftrightarrow> list_all2 (\<lambda>x y. f x = Inr y) xs ys"
proof (induction xs arbitrary: ys)
  case (Cons x xs)
  then show ?case by (cases ys) (auto simp: bindE_Inr_iff mapE_Inr_iff)
qed (auto simp: eq_commute)

lemma all_checks_True: "\<forall>x \<in> set xs. f x = Inr True \<Longrightarrow> all_checks f xs = Inr True"
  by (induction xs) auto

lemma foldE_map: "foldE f (map g xs) s = foldE (\<lambda>x. f (g x)) xs s"
  by (induction xs arbitrary: s) (auto simp: fun_eq_iff bindE_def split: sum.splits)

section \<open>Elements of vectors and arrays\<close>

lemma span_iterate:
  "a + n * sz < 2 ^ 32 \<Longrightarrow> 0 < sz \<Longrightarrow>
   Span_ref_iterate n sz (word_of_nat a) (word_of_nat (a + n * sz)) = map (\<lambda>i. a + i * sz) [0 ..< n]"
proof (induction n arbitrary: a)
  case (Suc n)
  have u: "unat (word_of_nat a :: u32) = a" "unat (word_of_nat (a + Suc n * sz) :: u32) = a + Suc n * sz"
    by (rule unat_of_nat_small; use Suc.prems in simp)+
  have ne: "(word_of_nat a :: u32) \<noteq> word_of_nat (a + Suc n * sz)"
  proof
    assume "(word_of_nat a :: u32) = word_of_nat (a + Suc n * sz)"
    then have "a = a + Suc n * sz" using u by metis
    then show False using Suc.prems(2) by simp
  qed
  have "Span_ref_iterate n sz (word_of_nat (a + sz)) (word_of_nat ((a + sz) + n * sz)) = map (\<lambda>i. (a + sz) + i * sz) [0 ..< n]"
    by (rule Suc.IH) (use Suc.prems in \<open>simp_all add: algebra_simps\<close>)
  moreover have "(word_of_nat a :: u32) + word_of_nat sz = word_of_nat (a + sz)" by simp
  moreover have "(a + sz) + n * sz = a + Suc n * sz" by simp
  ultimately have "Span_ref_iterate (Suc n) sz (word_of_nat a) (word_of_nat (a + Suc n * sz)) =
      a # map (\<lambda>i. (a + sz) + i * sz) [0 ..< n]"
    using ne u(1) by (simp only: Span_ref_iterate.simps if_False)
  also have "\<dots> = map (\<lambda>i. a + i * sz) [0 ..< Suc n]"
    by (simp add: upt_conv_Cons map_Suc_upt [symmetric] comp_def del: upt_Suc)
  finally show ?case .
qed simp

lemma span_size:
  assumes "a + n * sz < 2 ^ 32" "0 < sz"
  shows "Span_ref_size sz (word_of_nat a) (word_of_nat (a + n * sz)) = n"
proof -
  have e: "(word_of_nat (a + n * sz) :: u32) - word_of_nat a = word_of_nat (n * sz)" by simp
  have "n * sz < 2 ^ 32" using assms(1) by simp
  then have "unat ((word_of_nat (a + n * sz) :: u32) - word_of_nat a) = n * sz" unfolding e by (rule unat_of_nat_small)
  then show ?thesis using assms(2) by (simp add: Span_ref_size_def)
qed

lemma vector_access:
  assumes t: "cpp_type t" and v: "Vector_begin p c = Inr d" "Vector_size p c = Inr n" "flat_align t dvd d"
    "d + unat n * flat_size t \<le> length c" "length c < 2 ^ 32"
  shows "vector_data t p c = Inr d" "vector_count t p c = Inr (unat n)"
    "vector_elements t p c = Inr (map (\<lambda>i. d + i * flat_size t) [0 ..< unat n])"
proof -
  have small: "d + unat n * flat_size t < 2 ^ 32" using v(4,5) by simp
  have r: "Vector_range True (flat_align t) (flat_size t) p c = Inr (word_of_nat d, word_of_nat (d + unat n * flat_size t))"
    using v(1-3) by (simp add: Vector_range_def dvd_imp_mod_0)
  have u: "unat (word_of_nat d :: u32) = d" by (rule unat_of_nat_small) (use small in simp)
  show "vector_data t p c = Inr d" using v(1) u by (simp add: vector_data_def r)
  show "vector_count t p c = Inr (unat n)"
    unfolding vector_count_def r using v(2) span_size [OF small cpp_type_flat(2) [OF t]] by (simp del: of_nat_add of_nat_mult)
  show "vector_elements t p c = Inr (map (\<lambda>i. d + i * flat_size t) [0 ..< unat n])"
    unfolding vector_elements_def r using v(2) span_iterate [OF small cpp_type_flat(2) [OF t]] by (simp del: of_nat_add of_nat_mult)
qed

lemma array_access:
  assumes t: "cpp_type t" and v: "flat_align t dvd p" "p + n * flat_size t < 2 ^ 32"
  shows "array_data t n p = Inr p" "array_count t n p = Inr n"
    "array_elements t n p = Inr (map (\<lambda>i. p + i * flat_size t) [0 ..< n])"
proof -
  have r: "array_range t n p = Inr (word_of_nat p, word_of_nat (p + n * flat_size t))"
    using v(1) by (simp add: array_range_def dvd_imp_mod_0)
  have u: "unat (word_of_nat p :: u32) = p" by (rule unat_of_nat_small) (use v(2) in simp)
  show "array_data t n p = Inr p" using u by (simp add: array_data_def r)
  show "array_count t n p = Inr n"
    unfolding array_count_def r using span_size [OF v(2) cpp_type_flat(2) [OF t]] by (simp del: of_nat_add of_nat_mult)
  show "array_elements t n p = Inr (map (\<lambda>i. p + i * flat_size t) [0 ..< n])"
    unfolding array_elements_def r using span_iterate [OF v(2) cpp_type_flat(2) [OF t]] by (simp del: of_nat_add of_nat_mult)
qed

lemma get_bytes_part:
  assumes "get_bytes p k c = Inr bs" "off + n \<le> k"
  shows "get_bytes (p + off) n c = Inr (take n (drop off bs))"
proof -
  have g: "p + k \<le> length c" "bs = take k (drop p c)" using assms(1) by (simp_all add: get_bytes_def split: if_splits)
  have "min n (k - off) = n" using assms(2) by simp
  then have "take n (drop off bs) = take n (drop (p + off) c)"
    unfolding g(2) drop_take take_take drop_drop by (simp add: add.commute)
  then show ?thesis using g(1) assms(2) by (simp add: get_bytes_def)
qed

lemma part_of_concat:
  "(\<forall>b \<in> set bss. length b = sz) \<Longrightarrow> i < length bss \<Longrightarrow> take sz (drop (i * sz) (concat bss)) = bss ! i"
proof (induction bss arbitrary: i)
  case (Cons b bss)
  then show ?case by (cases i) auto
qed simp

lemma length_concat_const: "(\<forall>b \<in> set bss. length b = sz) \<Longrightarrow> length (concat bss) = length bss * sz"
  by (induction bss) auto

lemma codec_flat_elements:
  assumes vs: "\<forall>v \<in> set vs. \<exists>bs. v = VBytes bs \<and> length bs = sz"
  shows "codec 1 0 (length vs * sz) 0 (\<lambda>d. put_bytes d (concat (map raw_bytes vs)))
    (\<lambda>d c. read_flat_elements sz (length vs) d c = Inr (VSeq vs))"
proof -
  let ?bss = "map raw_bytes vs"
  have len: "\<forall>b \<in> set ?bss. length b = sz" using vs by auto
  have l: "length (concat ?bss) = length vs * sz" using length_concat_const [OF len] by simp
  have "codec 1 0 (length vs * sz) 0 (\<lambda>d. put_bytes d (concat ?bss)) (\<lambda>d c. get_bytes d (length vs * sz) c = Inr (concat ?bss))"
    using codec_bytes [of "concat ?bss"] unfolding l .
  then show ?thesis
  proof (rule codec_weaken)
    fix d c assume g: "get_bytes d (length vs * sz) c = Inr (concat ?bss)"
    have "mapE VBytes (get_bytes (d + i * sz) sz c) = Inr (vs ! i)" if i: "i < length vs" for i
    proof -
      have "i * sz + sz \<le> length vs * sz" using i mult_le_mono1 [of "Suc i" "length vs" sz] by simp
      then have "get_bytes (d + i * sz) sz c = Inr (take sz (drop (i * sz) (concat ?bss)))" by (rule get_bytes_part [OF g])
      also have "take sz (drop (i * sz) (concat ?bss)) = raw_bytes (vs ! i)" using part_of_concat [OF len, of i] i by simp
      finally show ?thesis using vs i nth_mem [OF i] by fastforce
    qed
    then have "traverseE (\<lambda>i. mapE VBytes (get_bytes (d + i * sz) sz c)) [0 ..< length vs] = Inr vs"
      by (simp add: traverseE_Inr list_all2_conv_all_nth)
    then show "read_flat_elements sz (length vs) d c = Inr (VSeq vs)" by (simp add: read_flat_elements_def)
  qed simp_all
qed

section \<open>Copying in and out\<close>

abbreviation copied :: "AstType \<Rightarrow> cpp_value \<Rightarrow> nat \<Rightarrow> flat_buffer \<Rightarrow> bool" where
  "copied t v p c \<equiv> assign_from_flat_type t p c = Inr v \<and> (\<forall>top. emit_safety_checks_r t top p c = Inr True)"

abbreviation copies :: "(flat_buffer \<Rightarrow> nat \<Rightarrow> u8 list) \<Rightarrow> AstType \<Rightarrow> cpp_value \<Rightarrow> bool" where
  "copies fresh t v \<equiv> codec (flat_align t) 0 (flat_size t) (extra t v) (assign_from_cpp_type fresh t v) (copied t v)"

lemma typed_real: "typed (real_type t) v = typed t v"
  by (induction t arbitrary: v rule: real_type.induct) simp_all

lemma read_real: "assign_from_flat_type (real_type t) = assign_from_flat_type t"
  by (cases t) (auto simp: fun_eq_iff)

lemma check_real: "emit_safety_checks_r (real_type t) tt p c = Inr True \<Longrightarrow> emit_safety_checks_r t tt p c = Inr True"
  by (cases t) auto

lemma flat_element_bytes:
  assumes "cpp_type t" "has_accessor t" "is_flat t = Some True" "typed t v"
  shows "\<exists>bs. v = VBytes bs \<and> length bs = flat_size t"
proof -
  have "typed (real_type t) v" "is_flat (real_type t) = Some True" using assms by (simp_all add: typed_real)
  then have "\<exists>bs. v = VBytes bs \<and> length bs = flat_size (real_type t)"
    using assms(2) by (cases "real_type t") (auto simp: has_accessor_def flat_size_def split: cpp_value.splits)
  then show ?thesis by simp
qed

lemma copies_bytes:
  assumes "\<And>p b. assign_from_cpp_type fresh t (VBytes bs) p b = put_bytes p bs b"
    and "\<And>p c. get_bytes p (length bs) c = Inr bs \<Longrightarrow> p + length bs \<le> length c \<Longrightarrow> length c < 2 ^ 32 \<Longrightarrow> copied t (VBytes bs) p c"
    and "flat_size t = length bs"
  shows "copies fresh t (VBytes bs)"
proof -
  have "assign_from_cpp_type fresh t (VBytes bs) = (\<lambda>p. put_bytes p bs)" using assms(1) by (simp add: fun_eq_iff)
  then have "codec 1 0 (length bs) 0 (assign_from_cpp_type fresh t (VBytes bs)) (\<lambda>p c. get_bytes p (length bs) c = Inr bs)"
    using codec_bytes [of bs] by simp
  then show ?thesis
  proof (rule codec_weaken)
    fix p c assume "p + flat_size t \<le> length c" "length c < 2 ^ 32" "get_bytes p (length bs) c = Inr bs"
    then show "copied t (VBytes bs) p c" using assms(2,3) by simp
  qed (use assms(3) in simp_all)
qed

lemma copies_fundamental:
  assumes "cpp_type (Fundamental tok)" "typed (Fundamental tok) v"
  shows "copies fresh (Fundamental tok) v"
proof -
  obtain bs where v: "v = VBytes bs" "get_fundamental_size tok = Some (int (length bs))" "tok = Tok_Boolean \<Longrightarrow> bs = [0] \<or> bs = [1]"
    using assms(2) by (auto split: cpp_value.splits)
  show ?thesis unfolding v(1)
  proof (rule copies_bytes)
    show "assign_from_cpp_type fresh (Fundamental tok) (VBytes bs) p b = put_bytes p bs b" for p b
      using v(3) by (auto simp: Boolean_set_def)
    show "copied (Fundamental tok) (VBytes bs) p c" if "get_bytes p (length bs) c = Inr bs" for p c
      using that v by (auto simp: Boolean_get_def)
  qed (use v(2) in \<open>simp add: flat_size_def\<close>)
qed

lemma copies_enum:
  assumes "cpp_type (Enum e tok)" "typed (Enum e tok) v"
  shows "copies fresh (Enum e tok) v"
proof -
  obtain bs where v: "v = VBytes bs" "get_fundamental_size tok = Some (int (length bs))"
    using assms(2) by (auto split: cpp_value.splits)
  show ?thesis unfolding v(1) by (rule copies_bytes) (use v(2) in \<open>auto simp: flat_size_def\<close>)
qed

lemma struct_check:
  assumes "p + nat (struct_size s) \<le> length c" "length c < 2 ^ 32" "0 \<le> struct_size s"
  shows "\<not> (word_of_nat (length c) :: u32) < word_of_nat p + word_of_int (struct_size s)"
proof -
  have "(word_of_nat p + word_of_int (struct_size s) :: u32) = word_of_nat (p + nat (struct_size s))"
    using assms(3) by (metis of_int_of_nat_eq of_nat_add int_nat_eq)
  moreover have "unat (word_of_nat (p + nat (struct_size s)) :: u32) = p + nat (struct_size s)"
    "unat (word_of_nat (length c) :: u32) = length c"
    by (rule unat_of_nat_small; use assms in simp)+
  ultimately show ?thesis using assms(1) by (metis word_less_nat_alt not_le)
qed

lemma copies_flat_struct:
  assumes t: "cpp_type (Struct s)" and v: "typed (Struct s) v" and f: "struct_flat s"
  shows "copies fresh (Struct s) v"
proof -
  obtain bs where v: "v = VBytes bs" "struct_size s = int (length bs)"
    using v f by (auto split: cpp_value.splits)
  show ?thesis unfolding v(1)
  proof (rule copies_bytes)
    fix p c assume "get_bytes p (length bs) c = Inr bs" "p + length bs \<le> length c" "length c < 2 ^ 32"
    then show "copied (Struct s) (VBytes bs) p c" using f v(2) struct_check [of p s c] by simp
  qed (use v(2) f in \<open>auto simp: flat_size_def\<close>)
qed

text \<open>The fields of a laid out struct are spread over it.\<close>

lemma laid_out_spread:
  assumes "laid_out (map snd fs) al start os stop" "0 \<le> start"
    and "\<forall>f \<in> set fs. cpp_type (snd f)"
  shows "length os = length fs \<and> spread (nat start) (map (\<lambda>(f, o1). (nat (fst o1), flat_size (snd f))) (zip fs os)) (nat stop) \<and>
    (\<forall>(f, o1) \<in> set (zip fs os). int (flat_align (snd f)) dvd fst o1 \<and> 0 \<le> fst o1 \<and> int (flat_align (snd f)) dvd al)"
  using assms
proof (induction fs arbitrary: start os)
  case Nil
  then show ?case by (cases os) auto
next
  case (Cons f fs)
  obtain first fin os' where os: "os = (first, fin) # os'" using Cons.prems(1) by (cases os) auto
  have l: "type_layout (snd f) = Some (int (flat_size (snd f)), int (flat_align (snd f)))"
    using Cons.prems(3) cpp_type_flat(4) by simp
  have s: "start \<le> first" "int (flat_align (snd f)) dvd first" "int (flat_align (snd f)) dvd al"
    "fin = first + int (flat_size (snd f))" "laid_out (map snd fs) al fin os' stop"
    using Cons.prems(1) by (auto simp: os l)
  have fin: "nat fin = nat first + flat_size (snd f)" using s(1,4) Cons.prems(2) by simp
  show ?case using Cons.IH [OF s(5)] Cons.prems(2,3) s fin by (simp add: os)
qed

lemma int_dvd_nat: "int a dvd z \<Longrightarrow> 0 \<le> z \<Longrightarrow> a dvd nat z"
  by (cases z) auto

lemma copies_struct:
  assumes t: "cpp_type (Struct s)" and v: "typed (Struct s) v" and f: "\<not> struct_flat s"
    and IH: "\<And>f v. f \<in> set (struct_fields s) \<Longrightarrow> typed (snd f) v \<Longrightarrow> copies fresh (snd f) v"
  shows "copies fresh (Struct s) v"
proof -
  let ?fs = "struct_fields s"
  obtain vs where vs: "v = VStruct vs" "length vs = length ?fs" "\<forall>(f, v) \<in> set (zip ?fs vs). typed (snd f) v"
    using v f by (auto split: cpp_value.splits)
  obtain os where os: "marshal_offsets ?fs 0 = Some os" "laid_out (map snd ?fs) (struct_align s) 0 os (struct_size s)"
    "struct_align s \<in> {1, 2, 4, 8}"
    using struct_fields_layout [OF t] by blast
  have L: "length os = length ?fs" "spread 0 (map (\<lambda>(f, o1). (nat (fst o1), flat_size (snd f))) (zip ?fs os)) (nat (struct_size s))"
    "\<forall>(f, o1) \<in> set (zip ?fs os). int (flat_align (snd f)) dvd fst o1 \<and> 0 \<le> fst o1 \<and> int (flat_align (snd f)) dvd struct_align s"
    using laid_out_spread [OF os(2)] t by auto
  let ?offs = "map (\<lambda>(first, fin). nat first) os"
  have fo: "field_offsets s = Some ?offs" by (simp add: field_offsets_def os(1))
  let ?xs = "zip ?fs (zip vs ?offs)"
  have lens: "length ?offs = length ?fs" "length (zip vs ?offs) = length ?fs" using L(1) vs(2) by simp_all
  have nth: "?xs ! i = (?fs ! i, vs ! i, ?offs ! i)" if "i < length ?fs" for i using that L(1) vs(2) by simp
  have mem: "(?fs ! i, vs ! i, ?offs ! i) \<in> set ?xs" if "i < length ?fs" for i
  proof -
    have "i < length ?xs" using that lens(2) by simp
    then have "?xs ! i \<in> set ?xs" by (rule nth_mem)
    then show ?thesis unfolding nth [OF that] .
  qed
  let ?off = "\<lambda>x. snd (snd x)" and ?sz = "\<lambda>x. flat_size (snd (fst x))" and ?e = "\<lambda>x. extra (snd (fst x)) (fst (snd x))"
  let ?w = "\<lambda>x p. assign_from_cpp_type fresh (snd (fst x)) (fst (snd x)) (p + snd (snd x))"
    and ?r = "\<lambda>x p c. copied (snd (fst x)) (fst (snd x)) (p + snd (snd x)) c"
  have sp: "spread 0 (map (\<lambda>x. (?off x, ?sz x)) ?xs) (flat_size (Struct s))"
  proof -
    have "map (\<lambda>x. (?off x, ?sz x)) ?xs = map (\<lambda>(f, o1). (nat (fst o1), flat_size (snd f))) (zip ?fs os)"
      by (rule nth_equalityI) (use L(1) vs(2) in \<open>auto simp: case_prod_beta\<close>)
    then show ?thesis using L(2) by (simp add: flat_size_def)
  qed
  have one: "codec (flat_align (Struct s)) (?off x) (?off x + ?sz x) (?e x) (?w x) (?r x)" if x: "x \<in> set ?xs" for x
  proof -
    obtain i where "i < length ?xs" "x = ?xs ! i" using x unfolding in_set_conv_nth by blast
    then have i: "i < length ?fs" "x = (?fs ! i, vs ! i, ?offs ! i)" using nth [of i] by simp_all
    have "(?fs ! i, vs ! i) \<in> set (zip ?fs vs)" using vs(2) i(1) by (auto simp: set_zip)
    then have ty: "typed (snd (?fs ! i)) (vs ! i)" using vs(3) by auto
    have "(?fs ! i, os ! i) \<in> set (zip ?fs os)" using i(1) L(1) by (auto simp: set_zip)
    then have d: "int (flat_align (snd (?fs ! i))) dvd fst (os ! i)" "0 \<le> fst (os ! i)" "int (flat_align (snd (?fs ! i))) dvd struct_align s"
      using L(3) by auto
    have o: "?offs ! i = nat (fst (os ! i))" using i(1) L(1) by (simp add: case_prod_beta)
    have "flat_align (snd (?fs ! i)) dvd ?offs ! i" "flat_align (snd (?fs ! i)) dvd flat_align (Struct s)"
      using int_dvd_nat [OF d(1,2)] int_dvd_nat [OF d(3)] os(3) o by (auto simp: flat_align_def)
    then show ?thesis
      using codec_shift [OF IH [OF nth_mem [OF i(1)] ty], of "flat_align (Struct s)" "?offs ! i"] by (simp add: i(2))
  qed
  have c: "codec (flat_align (Struct s)) 0 (flat_size (Struct s)) (\<Sum>x \<leftarrow> ?xs. ?e x)
      (\<lambda>p. foldE (\<lambda>x. ?w x p) ?xs) (\<lambda>p c. \<forall>x \<in> set ?xs. ?r x p c)"
    by (rule codec_fold [OF one sp])
  have "map ?e ?xs = map (\<lambda>(f, v). extra (snd f) v) (zip ?fs vs)"
    by (rule nth_equalityI) (use L(1) vs(2) in \<open>auto simp: case_prod_beta\<close>)
  then have e: "(\<Sum>x \<leftarrow> ?xs. ?e x) = extra (Struct s) v" by (simp add: vs(1))
  have w: "assign_from_cpp_type fresh (Struct s) v = (\<lambda>p. foldE (\<lambda>x. ?w x p) ?xs)"
    using f by (simp add: fun_eq_iff vs(1) fo case_prod_unfold)
  show ?thesis unfolding w
  proof (rule codec_weaken [OF c])
    fix p c
    assume c: "p + flat_size (Struct s) \<le> length c" "length c < 2 ^ 32" "\<forall>x \<in> set ?xs. ?r x p c"
    have r: "copied (snd (?fs ! i)) (vs ! i) (p + ?offs ! i) c" if "i < length ?fs" for i
      using bspec [OF c(3) mem [OF that]] by simp
    have "traverseE (\<lambda>(f, off). assign_from_flat_type (snd f) (p + off) c) (zip ?fs ?offs) = Inr vs"
      unfolding traverseE_Inr list_all2_conv_all_nth using r lens vs(2) by simp
    then have rd: "assign_from_flat_type (Struct s) p c = Inr v" using f by (simp add: vs(1) fo)
    have "\<forall>x \<in> set (checked_fields (zip ?fs ?offs)). \<forall>top. emit_safety_checks_r (snd (fst x)) top (p + snd x) c = Inr True"
    proof (intro ballI allI)
      fix x top assume "x \<in> set (checked_fields (zip ?fs ?offs))"
      then have "x \<in> set (zip ?fs ?offs)" using checked_fields_subset by blast
      then obtain i where "i < length ?fs" "x = (?fs ! i, ?offs ! i)"
        using lens by (metis in_set_conv_nth length_zip min.idem nth_zip)
      then show "emit_safety_checks_r (snd (fst x)) top (p + snd x) c = Inr True" using r by simp
    qed
    then have "all_checks (\<lambda>(f, off). emit_safety_checks_r (snd f) (case real_type (snd f) of Struct s \<Rightarrow> False | _ \<Rightarrow> True) (p + off) c)
        (checked_fields (zip ?fs ?offs)) = Inr True"
      by (intro all_checks_True) (auto simp: case_prod_beta)
    moreover have "0 \<le> struct_size s" using cpp_type_wf [OF t] by (simp add: struct_ok_def)
    then have "\<not> (word_of_nat (length c) :: u32) < word_of_nat p + word_of_int (struct_size s)"
      using c(1,2) by (intro struct_check) (simp_all add: flat_size_def)
    ultimately show "copied (Struct s) v p c" using rd f by (simp add: fo)
  qed (use e in simp_all)
qed

text \<open>The elements of a vector or an array that are copied one by one.\<close>

lemma copies_elements:
  assumes t: "cpp_type t" and a: "has_accessor t" and vs: "\<forall>v \<in> set vs. copies fresh t v"
  shows "codec (flat_align t) 0 (length vs * flat_size t) (\<Sum>v \<leftarrow> vs. extra t v)
    (\<lambda>d. foldE (\<lambda>(v, q). assign_from_cpp_type fresh t v q) (zip vs (map (\<lambda>i. d + i * flat_size t) [0 ..< length vs])))
    (\<lambda>d c. \<forall>i < length vs. copied t (vs ! i) (d + i * flat_size t) c)"
proof -
  let ?xs = "zip vs (map (\<lambda>i. i * flat_size t) [0 ..< length vs])"
  have nth: "?xs ! i = (vs ! i, i * flat_size t)" if "i < length vs" for i using that by simp
  have "spread lo (map (\<lambda>x. (snd x, flat_size t)) (zip ws (map (\<lambda>i. i * flat_size t) [k ..< k + length ws]))) ((k + length ws) * flat_size t)"
    if "lo \<le> k * flat_size t" for lo k and ws :: "cpp_value list"
    using that
  proof (induction ws arbitrary: lo k)
    case (Cons w ws)
    have "[k ..< k + length (w # ws)] = k # [Suc k ..< Suc k + length ws]" by (simp add: upt_conv_Cons del: upt_Suc)
    then show ?case using Cons.IH [of "k * flat_size t + flat_size t" "Suc k"] Cons.prems by (simp del: upt_Suc)
  qed simp
  from this [of 0 0 vs] have sp: "spread 0 (map (\<lambda>x. (snd x, flat_size t)) ?xs) (length vs * flat_size t)" by simp
  have one: "codec (flat_align t) (snd x) (snd x + flat_size t) (extra t (fst x)) (\<lambda>p. assign_from_cpp_type fresh t (fst x) (p + snd x))
      (\<lambda>p c. copied t (fst x) (p + snd x) c)" if x: "x \<in> set ?xs" for x
  proof -
    obtain i where i: "i < length vs" "x = (vs ! i, i * flat_size t)" using x by (auto simp: in_set_conv_nth)
    have "flat_align t dvd i * flat_size t" using element_stride [OF t a] by simp
    then show ?thesis using codec_shift [OF bspec [OF vs nth_mem [OF i(1)]], of "flat_align t" "i * flat_size t"] by (simp add: i(2))
  qed
  have c: "codec (flat_align t) 0 (length vs * flat_size t) (\<Sum>x \<leftarrow> ?xs. extra t (fst x))
      (\<lambda>p. foldE (\<lambda>x. assign_from_cpp_type fresh t (fst x) (p + snd x)) ?xs)
      (\<lambda>p c. \<forall>x \<in> set ?xs. copied t (fst x) (p + snd x) c)"
    by (rule codec_fold [OF one sp])
  have "map (\<lambda>x. extra t (fst x)) ?xs = map (extra t) vs" by (rule nth_equalityI) auto
  then have e: "(\<Sum>x \<leftarrow> ?xs. extra t (fst x)) = (\<Sum>v \<leftarrow> vs. extra t v)" by simp
  have z: "zip vs (map (\<lambda>i. d + i * flat_size t) [0 ..< length vs]) = map (\<lambda>x. (fst x, d + snd x)) ?xs" for d
    by (rule nth_equalityI) auto
  have w: "(\<lambda>d. foldE (\<lambda>(v, q). assign_from_cpp_type fresh t v q) (zip vs (map (\<lambda>i. d + i * flat_size t) [0 ..< length vs]))) =
      (\<lambda>p. foldE (\<lambda>x. assign_from_cpp_type fresh t (fst x) (p + snd x)) ?xs)"
    unfolding z by (simp add: fun_eq_iff foldE_map)
  show ?thesis unfolding w
  proof (rule codec_weaken [OF c])
    fix p c assume r: "\<forall>x \<in> set ?xs. copied t (fst x) (p + snd x) c"
    show "\<forall>i < length vs. copied t (vs ! i) (p + i * flat_size t) c"
    proof (intro allI impI)
      fix i assume i: "i < length vs"
      have "?xs ! i \<in> set ?xs" using i by (intro nth_mem) simp
      then show "copied t (vs ! i) (p + i * flat_size t) c" using r nth [OF i] by fastforce
    qed
  qed (use e in simp_all)
qed

text \<open>Reading and checking them.\<close>

lemma read_elements:
  assumes "\<forall>i < length vs. copied t (vs ! i) (d + i * flat_size t) c"
  shows "traverseE (\<lambda>q. assign_from_flat_type t q c) (map (\<lambda>i. d + i * flat_size t) [0 ..< length vs]) = Inr vs"
    "all_checks (\<lambda>q. emit_safety_checks_r t True q c) (map (\<lambda>i. d + i * flat_size t) [0 ..< length vs]) = Inr True"
  using assms by (auto simp: traverseE_Inr list_all2_conv_all_nth intro!: all_checks_True)

text \<open>
  What the writer of elements does, for flat elements at once and for others in a loop, and what is read
  back: \<open>elements_at\<close> is the loop or the \<open>memcpy\<close> over the positions from \<open>d\<close>.
\<close>

definition put_elements ::
    "(flat_buffer \<Rightarrow> nat \<Rightarrow> u8 list) \<Rightarrow> AstType \<Rightarrow> cpp_value list \<Rightarrow> nat \<Rightarrow> flat_buffer \<Rightarrow> flat_error + flat_buffer" where
  "put_elements fresh t vs d =
     (if is_flat t = Some True then put_bytes d (concat (map raw_bytes vs))
      else foldE (\<lambda>(v, q). assign_from_cpp_type fresh t v q) (zip vs (map (\<lambda>i. d + i * flat_size t) [0 ..< length vs])))"

definition elements_ok :: "AstType \<Rightarrow> cpp_value list \<Rightarrow> nat \<Rightarrow> flat_buffer \<Rightarrow> bool" where
  "elements_ok t vs d c \<longleftrightarrow>
     (if is_flat t = Some True then read_flat_elements (flat_size t) (length vs) d c = Inr (VSeq vs)
      else \<forall>i < length vs. copied t (vs ! i) (d + i * flat_size t) c)"

lemma codec_elements:
  assumes t: "cpp_type t" "has_accessor t" and vs: "\<forall>v \<in> set vs. typed t v" "\<forall>v \<in> set vs. copies fresh t v"
  shows "codec (flat_align t) 0 (length vs * flat_size t) (\<Sum>v \<leftarrow> vs. extra t v) (put_elements fresh t vs) (elements_ok t vs)"
proof (cases "is_flat t = Some True")
  case True
  have "\<forall>v \<in> set vs. \<exists>bs. v = VBytes bs \<and> length bs = flat_size t" using flat_element_bytes [OF t True] vs(1) by blast
  note c = codec_flat_elements [OF this]
  have "put_elements fresh t vs = (\<lambda>d. put_bytes d (concat (map raw_bytes vs)))" using True by (simp add: put_elements_def fun_eq_iff)
  then show ?thesis
    using codec_weaken [OF c, of "flat_align t" 0 "length vs * flat_size t" "\<Sum>v \<leftarrow> vs. extra t v" "elements_ok t vs"] True
    by (simp add: elements_ok_def)
next
  case False
  have "put_elements fresh t vs = (\<lambda>d. foldE (\<lambda>(v, q). assign_from_cpp_type fresh t v q) (zip vs (map (\<lambda>i. d + i * flat_size t) [0 ..< length vs])))"
    "elements_ok t vs = (\<lambda>d c. \<forall>i < length vs. copied t (vs ! i) (d + i * flat_size t) c)"
    using False by (simp_all add: put_elements_def elements_ok_def fun_eq_iff)
  then show ?thesis using copies_elements [OF t vs(2)] by simp
qed

lemma copies_array:
  assumes t: "cpp_type (Array t n)" and v: "typed (Array t n) v" and IH: "\<And>v. typed t v \<Longrightarrow> copies fresh t v"
  shows "copies fresh (Array t n) v"
proof -
  obtain vs where vs: "v = VSeq vs" "int (length vs) = n" "\<forall>v \<in> set vs. typed t v" using v by (auto split: cpp_value.splits)
  have tt: "cpp_type t" "has_accessor t" using t by auto
  have n: "nat n = length vs" using vs(2) by simp
  have sz: "flat_size (Array t n) = length vs * flat_size t" "flat_align (Array t n) = flat_align t"
    using cpp_type_flat(1) [OF tt(1)] n vs(2)
    by (simp_all add: flat_size_def [of "Array t n"] flat_align_def [of "Array t n"] nat_mult_distrib mult.commute)
  have c: "codec (flat_align (Array t n)) 0 (flat_size (Array t n)) (extra (Array t n) v) (put_elements fresh t vs) (elements_ok t vs)"
    unfolding sz using codec_elements [OF tt vs(3)] vs(1,3) IH by simp
  have w: "assign_from_cpp_type fresh (Array t n) v p b = put_elements fresh t vs p b"
    if "flat_align t dvd p" "p + length vs * flat_size t < 2 ^ 32" for p b
    using array_access [OF tt(1) that] tt(2) by (simp add: vs(1) n put_elements_def)
  show ?thesis
  proof (rule codec_cong)
    show "codec (flat_align (Array t n)) 0 (flat_size (Array t n)) (extra (Array t n) v) (put_elements fresh t vs) (copied (Array t n) v)"
    proof (rule codec_weaken [OF c])
      fix p c assume a: "flat_align (Array t n) dvd p" "p + flat_size (Array t n) \<le> length c" "length c < 2 ^ 32" "elements_ok t vs p c"
      then have "p + length vs * flat_size t < 2 ^ 32" "flat_align t dvd p" by (simp_all add: sz)
      then show "copied (Array t n) v p c"
        using array_access [OF tt(1)] tt(2) a(4) read_elements(1) [of vs t p c] by (auto simp: vs(1) n elements_ok_def)
    qed simp_all
    show "put_elements fresh t vs p b = assign_from_cpp_type fresh (Array t n) v p b"
      if "flat_align (Array t n) dvd p" "p + flat_size (Array t n) \<le> length b" "length b < 2 ^ 32" for p b
      using w [of p b] that by (simp add: sz)
  qed
qed

lemma copies_vector:
  assumes f: "prepares fresh" and t: "cpp_type (Vector t)" and v: "typed (Vector t) v" and IH: "\<And>v. typed t v \<Longrightarrow> copies fresh t v"
  shows "copies fresh (Vector t) v"
proof -
  obtain vs where vs: "v = VSeq vs" "\<forall>v \<in> set vs. typed t v" "vs = [] \<Longrightarrow> flat_align t dvd 4" using v by (auto split: cpp_value.splits)
  have tt: "cpp_type t" "has_accessor t" using t by auto
  have sz: "flat_size (Vector t) = 8" "flat_align (Vector t) = 4" by (simp_all add: flat_size_def flat_align_def)
  let ?n = "length vs"
  let ?w = "\<lambda>p b. if is_flat t = Some True then bindE (vector_data t p b) (\<lambda>d. put_bytes d (concat (map raw_bytes vs)) b)
    else bindE (vector_elements t p b) (\<lambda>ps. foldE (\<lambda>(v, q). assign_from_cpp_type fresh t v q) (zip vs ps) b)"
  have w: "assign_from_cpp_type fresh (Vector t) v = (\<lambda>p b. bindE (Vector_construct fresh (flat_align t) (flat_size t) p (word_of_nat ?n) b) (?w p))"
    using tt(2) by (simp add: vs(1) fun_eq_iff)
  have body: "codec (flat_align t) 0 (?n * flat_size t) (\<Sum>v \<leftarrow> vs. extra t v) (put_elements fresh t vs) (elements_ok t vs)"
    by (rule codec_elements [OF tt vs(2)]) (use vs(2) IH in simp)
  have step: "?w p b = put_elements fresh t vs d b"
    if "Vector_begin p b = Inr d" "Vector_size p b = Inr (word_of_nat ?n)" "flat_align t dvd d" "d + ?n * flat_size t \<le> length b"
      "length b < 2 ^ 32" "?n < 2 ^ 32" for p d b
    using vector_access [OF tt(1) that(1-3) _ that(5)] that(4,6) by (simp add: unat_of_nat_small put_elements_def)
  have stored: "copied (Vector t) v p c"
    if "Vector_begin p c = Inr d" "Vector_size p c = Inr (word_of_nat ?n)" "flat_align t dvd d" "d + ?n * flat_size t \<le> length c"
      "elements_ok t vs d c" "length c < 2 ^ 32" "?n < 2 ^ 32" for p d c
  proof -
    have u: "unat (word_of_nat ?n :: u32) = ?n" by (rule unat_of_nat_small) (rule that(7))
    have l: "d + unat (word_of_nat ?n :: u32) * flat_size t \<le> length c" unfolding u by (rule that(4))
    note va = vector_access [OF tt(1) that(1-3) l that(6), unfolded u]
    have ch: "Vector_check_size_align (flat_align t) (flat_size t) p (word_of_nat (length c)) c = Inr True"
      by (rule Vector_check [OF that(1-3) l that(6)])
    show ?thesis using va ch tt(2) that(5) read_elements [of vs t d c] by (auto simp: vs(1) elements_ok_def)
  qed
  consider "vs = []" | "0 < ?n" "?n < 2 ^ 32" | "2 ^ 32 \<le> ?n" by fastforce
  then show ?thesis
  proof cases
    case 1
    have empty: "?w p b = Inr b" if "4 dvd p" "Vector_begin p b = Inr p" "Vector_size p b = Inr 0" "p + 8 \<le> length b" "length b < 2 ^ 32" for p b
    proof -
      have "?w p b = put_elements fresh t vs p b" by (rule step) (use that 1 vs(3) in \<open>auto intro: dvd_trans\<close>)
      also have "\<dots> = Inr b" using 1 that(4) by (simp add: put_elements_def put_bytes_def write_at_def)
      finally show ?thesis .
    qed
    have n0: "(word_of_nat ?n :: u32) = 0" using 1 by simp
    have "codec 4 0 8 0 (assign_from_cpp_type fresh (Vector t) v)
        (\<lambda>p c. Vector_begin p c = Inr p \<and> Vector_size p c = Inr 0 \<and> p + 8 \<le> length c)"
      unfolding w n0 by (rule codec_vector_empty) (rule empty)
    then show ?thesis unfolding sz
    proof (rule codec_weaken)
      fix p c assume a: "4 dvd p" "length c < 2 ^ 32" "Vector_begin p c = Inr p \<and> Vector_size p c = Inr 0 \<and> p + 8 \<le> length c"
      have "elements_ok t vs p c" using 1 by (simp add: elements_ok_def read_flat_elements_def)
      then show "copied (Vector t) v p c" by (intro stored [of p c p]) (use a 1 vs(3) in \<open>auto intro: dvd_trans\<close>)
    qed simp_all
  next
    case 2
    have "codec 1 0 8 (?n * flat_size t + flat_align t + (\<Sum>v \<leftarrow> vs. extra t v)) (assign_from_cpp_type fresh (Vector t) v)
        (\<lambda>p c. \<exists>d. Vector_begin p c = Inr d \<and> Vector_size p c = Inr (word_of_nat ?n) \<and> flat_align t dvd d \<and>
          d + ?n * flat_size t \<le> length c \<and> elements_ok t vs d c)"
      unfolding w by (rule codec_vector [OF f body 2 align_pos [OF tt(1)]]) (rule step [OF _ _ _ _ _ 2(2)]; assumption)
    then show ?thesis unfolding sz
    proof (rule codec_weaken)
      fix p c
      assume l: "length c < 2 ^ 32" and "\<exists>d. Vector_begin p c = Inr d \<and> Vector_size p c = Inr (word_of_nat ?n) \<and> flat_align t dvd d \<and>
          d + ?n * flat_size t \<le> length c \<and> elements_ok t vs d c"
      then obtain d where "Vector_begin p c = Inr d" "Vector_size p c = Inr (word_of_nat ?n)" "flat_align t dvd d"
        "d + ?n * flat_size t \<le> length c" "elements_ok t vs d c" by blast
      then show "copied (Vector t) v p c" by (rule stored) (rule l, rule 2(2))
    qed (simp_all add: vs(1))
  next
    case 3
    have "?n * 1 \<le> ?n * flat_size t" by (rule mult_le_mono2) (use cpp_type_flat(2) [OF tt(1)] in simp)
    then have "2 ^ 32 \<le> ?n * flat_size t" using 3 by linarith
    then have "2 ^ 32 \<le> extra (Vector t) v" by (simp add: vs(1))
    then show ?thesis by (simp add: codec_def)
  qed
qed

lemma optional_read:
  assumes "Optional_value p c = Inr d"
  shows "Optional_has_value p c = Inr True"
  using assms by (auto simp: Optional_value_def Optional_has_value_def bindE_Inr_iff split: if_splits)

lemma optional_check:
  assumes "Optional_value p c = Inr d" "al dvd d" "d + sz \<le> length c" "length c < 2 ^ 32"
  shows "Optional_check_size_align al sz p (word_of_nat (length c)) c = Inr True"
proof -
  have u: "unat (word_of_nat (length c) :: u32) = length c" by (rule unat_of_nat_small) (rule assms(4))
  obtain off where "get_u32 p c = Inr off" "d = p + unat off"
    using assms(1) by (auto simp: Optional_value_def bindE_Inr_iff split: if_splits)
  then show ?thesis using assms(2,3) by (simp add: Optional_check_size_align_def u dvd_imp_mod_0)
qed

lemma copies_optional:
  assumes f: "prepares fresh" and t: "cpp_type (Optional t)" and v: "typed (Optional t) v"
    and IH: "\<And>v. typed (real_type t) v \<Longrightarrow> copies fresh (real_type t) v"
  shows "copies fresh (Optional t) v"
proof -
  have sz: "flat_size (Optional t) = 4" "flat_align (Optional t) = 4" by (simp_all add: flat_size_def flat_align_def)
  have tt: "cpp_type t" "\<not> is_string_type t" "\<not> is_array_type t"
    using t by (auto simp: is_string_type_def is_array_type_def split: AstType.splits)
  obtain u where u: "v = VOptional u" "\<And>w. u = Some w \<Longrightarrow> typed (real_type t) w"
    using v by (auto split: cpp_value.splits option.splits)
  show ?thesis
  proof (cases u)
    case None
    have "assign_from_cpp_type fresh (Optional t) v = (\<lambda>p. Optional_set_nullopt p)" by (simp add: u(1) None fun_eq_iff)
    then have "codec 1 0 4 0 (assign_from_cpp_type fresh (Optional t) v) (\<lambda>p c. get_u32 p c = Inr 0)" using codec_nullopt by simp
    then show ?thesis unfolding sz
      by (rule codec_weaken) (auto simp: u(1) None Optional_has_value_def Optional_check_size_align_def)
  next
    case (Some w)
    have body: "codec (flat_align t) 0 (flat_size t) (extra (real_type t) w) (assign_from_cpp_type fresh (real_type t) w) (copied (real_type t) w)"
      using IH [OF u(2) [OF Some]] by simp
    have wr: "assign_from_cpp_type fresh (Optional t) v = (\<lambda>p b. bindE (Optional_alloc fresh (flat_align t) (flat_size t) p b)
        (\<lambda>b. bindE (Optional_value p b) (\<lambda>d. assign_from_cpp_type fresh (real_type t) w d b)))"
      using tt(2,3) by (simp add: u(1) Some fun_eq_iff)
    have c: "codec 1 0 4 (flat_size t + flat_align t + extra (real_type t) w) (assign_from_cpp_type fresh (Optional t) v)
        (\<lambda>p c. \<exists>d. Optional_value p c = Inr d \<and> flat_align t dvd d \<and> d + flat_size t \<le> length c \<and> copied (real_type t) w d c)"
      unfolding wr by (rule codec_optional [OF f body align_pos [OF tt(1)]])
    show ?thesis unfolding sz
    proof (rule codec_weaken [OF c])
      fix p c
      assume l: "length c < 2 ^ 32"
        and "\<exists>d. Optional_value p c = Inr d \<and> flat_align t dvd d \<and> d + flat_size t \<le> length c \<and> copied (real_type t) w d c"
      then obtain d where d: "Optional_value p c = Inr d" "flat_align t dvd d" "d + flat_size t \<le> length c"
        "assign_from_flat_type (real_type t) d c = Inr w" "\<forall>top. emit_safety_checks_r (real_type t) top d c = Inr True" by blast
      have "emit_safety_checks_r t True d c = Inr True" by (rule check_real) (use d(5) in simp)
      then show "copied (Optional t) v p c"
        using optional_read [OF d(1)] optional_check [OF d(1-3) l] d(1,4) tt(3) by (simp add: u(1) Some)
    qed (simp_all add: u(1) Some)
  qed
qed

lemma cpp_copies:
  assumes f: "prepares fresh"
  shows "cpp_type t \<Longrightarrow> typed t v \<Longrightarrow> copies fresh t v"
proof (induction "size t" arbitrary: t v rule: less_induct)
  case less
  show ?case
  proof (cases t)
    case (Fundamental tok)
    then show ?thesis using copies_fundamental less.prems by simp
  next
    case (Enum e tok)
    then show ?thesis using copies_enum less.prems by simp
  next
    case (Struct s)
    show ?thesis
    proof (cases "struct_flat s")
      case True
      then show ?thesis using copies_flat_struct less.prems Struct by simp
    next
      case False
      have "copies fresh (snd f) w" if "f \<in> set (struct_fields s)" "typed (snd f) w" for f w
        by (rule less.hyps) (use that less.prems(1) size_field [OF that(1)] Struct in auto)
      then show ?thesis using copies_struct [of s v fresh] less.prems False unfolding Struct by blast
    qed
  next
    case (Vector u)
    have "copies fresh u w" if "typed u w" for w by (rule less.hyps) (use that less.prems(1) Vector in auto)
    then show ?thesis using copies_vector [OF f] less.prems unfolding Vector by blast
  next
    case (Array u n)
    have "copies fresh u w" if "typed u w" for w by (rule less.hyps) (use that less.prems(1) Array in auto)
    then show ?thesis using copies_array less.prems unfolding Array by blast
  next
    case (Optional u)
    have "copies fresh (real_type u) w" if "typed (real_type u) w" for w
      by (rule less.hyps) (use that less.prems(1) Optional in \<open>auto simp: less_Suc_eq_le size_real_type cpp_type_real\<close>)
    then show ?thesis using copies_optional [OF f] less.prems unfolding Optional by blast
  next
    case StringType
    obtain str where v: "v = VString str" using less.prems(2) StringType by (auto split: cpp_value.splits)
    have "assign_from_cpp_type fresh StringType v = (\<lambda>p. String_assign fresh p str)" by (simp add: v fun_eq_iff)
    then show ?thesis unfolding StringType
      using codec_weaken [OF codec_string [OF f, of str], of 4 0 8 "length str + 1" "copied StringType v"]
      by (simp add: v flat_size_def flat_align_def)
  next
    case (Alias a u)
    have "copies fresh u v" by (rule less.hyps) (use less.prems Alias in auto)
    moreover have "assign_from_cpp_type fresh (Alias a u) v = assign_from_cpp_type fresh u v" by (simp add: fun_eq_iff)
    moreover have "copied (Alias a u) v p c" if "copied u v p c" for p c using that by (simp add: read_real)
    ultimately show ?thesis unfolding Alias
      using codec_weaken [of "flat_align u" 0 "flat_size u" "extra u v" "assign_from_cpp_type fresh u v" "copied u v"
          "flat_align u" 0 "flat_size u" "extra u v" "copied (Alias a u) v"] by simp
  qed (use less.prems in auto)
qed

section \<open>Properties of the generated code\<close>



text \<open>A message with a string, a vector of structs with strings, an optional value and a flat array.\<close>

definition demo_item :: AstStruct where
  "demo_item = AstStructDecl ''Item'' [(''name'', StringType), (''on'', Fundamental Tok_Boolean)] 12 4 False"

definition demo_message :: AstStruct where
  "demo_message = AstStructDecl ''M1'' [(''_1'', Fundamental Tok_UInt32), (''_2'', Vector (Struct demo_item)),
     (''_3'', Optional (Fundamental Tok_UInt16)), (''_4'', Array (Fundamental Tok_UInt8) 2)] 20 4 False"

definition demo_value :: cpp_value where
  "demo_value = VStruct [VBytes [1, 2, 3, 4],
     VSeq [VStruct [VString [72, 105], VBytes [1]], VStruct [VString [], VBytes [0]]],
     VOptional (Some (VBytes [7, 8])), VSeq [VBytes [5], VBytes [6]]]"

lemma demo_message_ok:
  "cpp_type (Struct demo_message)" "typed (Struct demo_message) demo_value" "flat_align (Struct demo_message) = 4"
  "flat_size (Struct demo_message) = 20" "extra (Struct demo_message) demo_value = 36"
  by code_simp+

lemma demo_fresh: "prepares (\<lambda>b n. replicate n 0xCD)"
  by (simp add: prepares_def)



section \<open>What the checks do not see\<close>

lemma traverse_all: "\<forall>x \<in> set xs. \<exists>y. f x = Inr y \<Longrightarrow> \<exists>ys. traverseE f xs = Inr ys"
  by (induction xs) auto

lemma read_flat_elements_in:
  assumes "d + n * sz \<le> length c"
  shows "\<exists>v. read_flat_elements sz n d c = Inr v"
proof -
  have "\<exists>y. mapE VBytes (get_bytes (d + i * sz) sz c) = Inr y" if "i < n" for i
  proof -
    have "Suc i * sz \<le> n * sz" by (rule mult_le_mono1) (use that in simp)
    then have "d + i * sz + sz \<le> length c" using assms by simp
    then show ?thesis by (simp add: get_bytes_def)
  qed
  then have "\<exists>ys. traverseE (\<lambda>i. mapE VBytes (get_bytes (d + i * sz) sz c)) [0 ..< n] = Inr ys" by (intro traverse_all) simp
  then show ?thesis by (auto simp: read_flat_elements_def)
qed

lemma array_size:
  assumes "cpp_type (Array t n)"
  shows "flat_size (Array t n) = nat n * flat_size t" "flat_align (Array t n) = flat_align t"
proof -
  have "cpp_type t" "1 \<le> n" using assms by auto
  then show "flat_size (Array t n) = nat n * flat_size t" "flat_align (Array t n) = flat_align t"
    using cpp_type_flat(1) [of t] by (simp_all add: flat_size_def [of "Array t n"] flat_align_def [of "Array t n"] nat_mult_distrib mult.commute)
qed

lemma read_flat_array:
  assumes t: "cpp_type (Array t n)" "is_flat t = Some True" and p: "flat_align (Array t n) dvd p" "p + flat_size (Array t n) \<le> length c"
    "length c < 2 ^ 32"
  shows "\<exists>v. assign_from_flat_type (Array t n) p c = Inr v"
proof -
  have A: "cpp_type t" "has_accessor t" using t by auto
  have s: "flat_align t dvd p" "p + nat n * flat_size t \<le> length c" using p array_size [OF t(1)] by simp_all
  have l: "p + nat n * flat_size t < 2 ^ 32" using s(2) p(3) by simp
  show ?thesis using array_access [OF A(1) s(1) l] A(2) t(2) read_flat_elements_in [OF s(2)] by simp
qed

lemma get_u32_write_at: "p + 4 \<le> length b \<Longrightarrow> get_u32 p (write_at p (bytes_of_u32 w) b) = Inr w"
  by (rule get_u32_eq) (simp_all add: nth_write_at)

text \<open>A buffer with a forged descriptor at \<open>p\<close>.\<close>

definition forge :: "nat \<Rightarrow> u32 \<Rightarrow> u32 \<Rightarrow> flat_buffer \<Rightarrow> flat_buffer" where
  "forge p offset n b = write_at p (bytes_of_u32 offset @ bytes_of_u32 n) b"

lemma forge_spec:
  assumes "p + 8 \<le> length b"
  shows "length (forge p offset n b) = length b" "get_u32 p (forge p offset n b) = Inr offset"
    "get_u32 (p + 4) (forge p offset n b) = Inr n" "i < p \<or> p + 8 \<le> i \<Longrightarrow> forge p offset n b ! i = b ! i"
proof -
  show l: "length (forge p offset n b) = length b" using assms by (simp add: forge_def)
  have nth: "forge p offset n b ! i = (if p \<le> i \<and> i < p + 8 then (bytes_of_u32 offset @ bytes_of_u32 n) ! (i - p) else b ! i)" for i
    using assms by (simp add: forge_def nth_write_at)
  show "get_u32 p (forge p offset n b) = Inr offset" "get_u32 (p + 4) (forge p offset n b) = Inr n"
    using assms by (auto simp: nth nth_append l intro!: get_u32_eq)
  show "i < p \<or> p + 8 \<le> i \<Longrightarrow> forge p offset n b ! i = b ! i" by (auto simp: nth)
qed

text \<open>
  C36. The range of a vector is computed with 32 bits: for every position of a string in every buffer
  there is a descriptor, leaving all other bytes as they are, that the check accepts and whose data
  lies 4 GB behind the buffer.
\<close>

theorem wrapping_descriptor:
  assumes "0 < p" "p + 8 \<le> length b" "length b < 2 ^ 32"
  shows "\<exists>b'. length b' = length b \<and> (\<forall>i. i < p \<or> p + 8 \<le> i \<longrightarrow> b' ! i = b ! i) \<and>
    emit_safety_checks_r StringType t p b' = Inr True \<and> assign_from_flat_type StringType p b' = Inl OutOfBuffer"
proof -
  let ?b = "forge p (word_of_nat (2 ^ 32 - p)) 1 b"
  note s = forge_spec [OF assms(2)]
  have "unat (word_of_nat (2 ^ 32 - p) :: u32) = 2 ^ 32 - p" by (rule unat_of_nat_small) (use assms in simp)
  then have beg: "Vector_begin p ?b = Inr (2 ^ 32)" using s(2) assms by (simp add: Vector_begin_def)
  have size: "Vector_size p ?b = Inr 1" using s(3) by (simp add: Vector_size_def)
  have "unat (word_of_nat (length b) :: u32) = length b" by (rule unat_of_nat_small) (rule assms(3))
  then have "(1 :: u32) \<le> word_of_nat (length b)" using assms(2) by (simp add: word_le_nat_alt)
  moreover have "Vector_range False 1 1 p ?b = Inr (0, 1)" using beg size by (simp add: Vector_range_def)
  ultimately have "emit_safety_checks_r StringType t p ?b = Inr True"
    using s(1) by (simp add: Vector_check_size_align_def)
  moreover have "assign_from_flat_type StringType p ?b = Inl OutOfBuffer"
    using beg size s(1) assms(3) by (simp add: String_get_def get_bytes_def)
  ultimately show ?thesis using s(1,4) by blast
qed

lemma wrapping_descriptor_witness:
  "\<exists>b'. length b' = 24 \<and> emit_safety_checks_r StringType True 16 b' = Inr True \<and> assign_from_flat_type StringType 16 b' = Inl OutOfBuffer"
  using wrapping_descriptor [of 16 "replicate 24 0" True] by auto

text \<open>
  C37. The loop over the fields is left at an array of flat elements: with such a field in front of a
  string every buffer can be given a descriptor, within the slot of the string, that points behind the
  buffer and is accepted.
\<close>

theorem array_hides_fields:
  assumes s: "cpp_type (Struct s)" "\<not> struct_flat s" "struct_fields s = [(f, Array t n), (g, StringType)]" "is_flat t = Some True"
    and p: "flat_align (Struct s) dvd p" "p + flat_size (Struct s) \<le> length b" "length b < 2 ^ 32"
  shows "\<exists>b'. length b' = length b \<and> (\<forall>i. i < p \<or> p + flat_size (Struct s) \<le> i \<longrightarrow> b' ! i = b ! i) \<and>
    emit_safety_checks_r (Struct s) True p b' = Inr True \<and> assign_from_flat_type (Struct s) p b' = Inl OutOfBuffer"
proof -
  obtain os where os: "marshal_offsets (struct_fields s) 0 = Some os"
    "laid_out (map snd (struct_fields s)) (struct_align s) 0 os (struct_size s)" "struct_align s \<in> {1, 2, 4, 8}"
    using struct_fields_layout [OF s(1)] by blast
  note L = laid_out_spread [OF os(2)]
  have A: "cpp_type (Array t n)" "has_accessor t" "cpp_type t" using s(1,3) by auto
  have "length os = 2" using L s(1,3) by auto
  then obtain x y where xy: "os = [x, y]" by (auto simp: numeral_2_eq_2 length_Suc_conv)
  obtain e0 o1 e1 where o: "os = [(e0, e0 + int (flat_size (Array t n))), (o1, e1)]" "0 \<le> e0" "e0 + int (flat_size (Array t n)) \<le> o1" "o1 + 8 \<le> struct_size s"
    "int (flat_align (Array t n)) dvd e0" "int (flat_align (Array t n)) dvd struct_align s"
    using os(2) s(3) cpp_type_flat(4) [OF A(1)] unfolding xy by (cases x; cases y) (auto simp: type_layout_def)
  have fo: "field_offsets s = Some [nat e0, nat o1]" using o(1) by (simp add: field_offsets_def os(1))
  have sz: "flat_size (Struct s) = nat (struct_size s)" by (simp add: flat_size_def)
  let ?q = "p + nat o1"
  have q: "?q + 8 \<le> length b" "p \<le> ?q" "?q + 8 \<le> p + flat_size (Struct s)" using o(2-4) p(2) sz by auto
  let ?b = "forge ?q (word_of_nat (length b)) 1 b"
  note f = forge_spec [OF q(1), where offset = "word_of_nat (length b)" and n = 1]
  have "\<not> (word_of_nat (length ?b) :: u32) < word_of_nat p + word_of_int (struct_size s)"
    by (rule struct_check) (use p sz f(1) o(2-4) in auto)
  then have chk: "emit_safety_checks_r (Struct s) True p ?b = Inr True" using s(2-4) by (simp add: fo)
  have "unat (word_of_nat (length b) :: u32) = length b" by (rule unat_of_nat_small) (rule p(3))
  then have str: "assign_from_flat_type StringType ?q ?b = Inl OutOfBuffer"
    using f(1-3) by (simp add: String_get_def Vector_begin_def Vector_size_def get_bytes_def)
  have "flat_align (Array t n) dvd p + nat e0"
    using int_dvd_nat [OF o(5,2)] int_dvd_nat [OF o(6)] p(1) os(3) by (auto simp: flat_align_def intro: dvd_trans dvd_add)
  moreover have "p + nat e0 + flat_size (Array t n) \<le> length ?b" "length ?b < 2 ^ 32" using o(2-4) p(2,3) sz f(1) by auto
  ultimately obtain v where v: "assign_from_flat_type (Array t n) (p + nat e0) ?b = Inr v"
    using read_flat_array [OF A(1) s(4)] by blast
  have "assign_from_flat_type (Struct s) p ?b =
      mapE VStruct (traverseE (\<lambda>(f, off). assign_from_flat_type (snd f) (p + off) ?b) (zip (struct_fields s) [nat e0, nat o1]))"
    using s(2) by (simp add: fo)
  also have "\<dots> = Inl OutOfBuffer"
    by (simp only: s(3) zip_Cons_Cons zip_Nil traverseE.simps prod.case snd_conv v str bindE_simps mapE_simps)
  finally have "assign_from_flat_type (Struct s) p ?b = Inl OutOfBuffer" .
  then show ?thesis using chk f(1,4) q(2,3) by (intro exI [of _ ?b]) auto
qed

definition demo_login :: AstStruct where
  "demo_login = AstStructDecl ''M2'' [(''_1'', Array (Fundamental Tok_UInt8) 16), (''_2'', StringType)] 24 4 False"

lemma array_hides_fields_witness:
  "\<exists>b'. length b' = 40 \<and> emit_safety_checks_r (Struct demo_login) True 16 b' = Inr True \<and>
    assign_from_flat_type (Struct demo_login) 16 b' = Inl OutOfBuffer"
proof -
  have d: "cpp_type (Struct demo_login)" "\<not> struct_flat demo_login" "flat_align (Struct demo_login) = 4" "flat_size (Struct demo_login) = 24"
    "struct_fields demo_login = [(''_1'', Array (Fundamental Tok_UInt8) 16), (''_2'', StringType)]"
    by code_simp+
  have "is_flat (Fundamental Tok_UInt8) = Some True" "flat_align (Struct demo_login) dvd 16"
    "16 + flat_size (Struct demo_login) \<le> length (replicate 40 (0 :: u8))" "length (replicate 40 (0 :: u8)) < 2 ^ 32"
    by (simp_all add: d(3,4))
  from array_hides_fields [OF d(1,2,5) this] show ?thesis unfolding length_replicate by blast
qed

text \<open>
  A vector without elements keeps the offset 0, so its elements seem to begin at the descriptor; with
  elements that need an alignment of 8 in a slot that is aligned to 4 the message of an honest sender is
  copied correctly but rejected.
\<close>

theorem empty_vector_rejected:
  assumes "get_fundamental_size tok = Some 8" "p mod 8 = 4" "p + 8 \<le> length b" "length b < 2 ^ 32"
  shows "\<exists>b'. assign_from_cpp_type fresh (Vector (Fundamental tok)) (VSeq []) p b = Inr b' \<and>
    assign_from_flat_type (Vector (Fundamental tok)) p b' = Inr (VSeq []) \<and>
    emit_safety_checks_r (Vector (Fundamental tok)) t p b' = Inr False"
proof -
  let ?t = "Fundamental tok"
  have ft: "flat_align ?t = 8" "flat_size ?t = 8" "has_accessor ?t" "\<not> is_struct_type ?t"
    using assms(1) by (simp_all add: flat_align_def flat_size_def has_accessor_def is_struct_type_def)
  have c: "codec 1 0 8 0 (\<lambda>p b. bindE (Vector_construct fresh 8 8 p 0 b) (\<lambda>b. bindE (vector_data ?t p b) (\<lambda>d. put_bytes d [] b)))
      (\<lambda>p c. Vector_begin p c = Inr p \<and> Vector_size p c = Inr 0 \<and> p + 8 \<le> length c)"
    by (rule codec_vector_empty) (simp add: vector_data_def ft put_bytes_def write_at_def)
  have "1 dvd p" "length b + 0 < 2 ^ 32" using assms(4) by simp_all
  then obtain b' where b': "bindE (Vector_construct fresh 8 8 p 0 b) (\<lambda>b. bindE (vector_data ?t p b) (\<lambda>d. put_bytes d [] b)) = Inr b'"
    "length b \<le> length b'" "length b' \<le> length b + 0"
    "\<forall>c. length b' \<le> length c \<longrightarrow> length c < 2 ^ 32 \<longrightarrow>
       (\<forall>i < length b'. p + 0 \<le> i \<and> i < p + 8 \<or> length b \<le> i \<longrightarrow> c ! i = b' ! i) \<longrightarrow>
       Vector_begin p c = Inr p \<and> Vector_size p c = Inr 0 \<and> p + 8 \<le> length c"
    by (rule codecE [OF c _ assms(3)])
  have r: "Vector_begin p b' = Inr p" "Vector_size p b' = Inr 0" using b'(2-4) assms(4) by auto
  have "unat (word_of_nat p :: u32) = p" by (rule unat_of_nat_small) (use assms(3,4) in simp)
  then have "Vector_check_size_align 8 8 p m b' = Inr False" for m
    using r assms(2) by (simp add: Vector_check_size_align_def Vector_range_def)
  moreover have "assign_from_flat_type (Vector ?t) p b' = Inr (VSeq [])"
    using r ft by (simp add: vector_data_def vector_count_def read_flat_elements_def)
  moreover have "assign_from_cpp_type fresh (Vector ?t) (VSeq []) p b = Inr b'" using b'(1) ft by simp
  ultimately show ?thesis using ft by auto
qed

lemma empty_vector_rejected_witness:
  "\<exists>b'. assign_from_cpp_type (\<lambda>b n. replicate n 0) (Vector (Fundamental Tok_Float64)) (VSeq []) 20 (replicate 28 0) = Inr b' \<and>
    emit_safety_checks_r (Vector (Fundamental Tok_Float64)) True 20 b' = Inr False"
proof -
  have "get_fundamental_size Tok_Float64 = Some 8" "20 mod 8 = (4 :: nat)" "20 + 8 \<le> length (replicate 28 (0 :: u8))"
    "length (replicate 28 (0 :: u8)) < 2 ^ 32" by simp_all
  then show ?thesis using empty_vector_rejected [of Tok_Float64 20 "replicate 28 0" "\<lambda>b n. replicate n 0" True] by blast
qed

section \<open>What the checks protect\<close>

text \<open>
  The types without the constructs that the checks pass over (aliases, and arrays in structs that are
  not flat), and the buffers in which no descriptor reaches beyond 4 GB.
\<close>

function checked_type :: "AstType \<Rightarrow> bool" where
  "checked_type (Struct s) \<longleftrightarrow> struct_flat s \<or> (\<forall>f \<in> set (struct_fields s). checked_type (snd f))"
| "checked_type (Vector t) \<longleftrightarrow> checked_type t"
| "checked_type (Optional t) \<longleftrightarrow> checked_type t"
| "checked_type (Array t n) \<longleftrightarrow> False"
| "checked_type (Alias a t) \<longleftrightarrow> False"
| "checked_type StringType \<longleftrightarrow> True"
| "checked_type (Fundamental tok) \<longleftrightarrow> True"
| "checked_type (Enum e tok) \<longleftrightarrow> True"
| "checked_type Object \<longleftrightarrow> False"
| "checked_type Void \<longleftrightarrow> False"
| "checked_type (Interface i) \<longleftrightarrow> False"
  by pat_completeness auto

termination checked_type
  by (relation "measure size") (auto dest!: size_field)

definition no_wrap :: "nat \<Rightarrow> nat \<Rightarrow> flat_buffer \<Rightarrow> bool" where
  "no_wrap sz p b \<longleftrightarrow>
     (case (Vector_begin p b, Vector_size p b) of (Inr d, Inr n) \<Rightarrow> d + unat n * sz < 2 ^ 32 | _ \<Rightarrow> True)"

function unwrapped :: "AstType \<Rightarrow> nat \<Rightarrow> flat_buffer \<Rightarrow> bool" where
  "unwrapped (Struct s) p b \<longleftrightarrow>
     struct_flat s \<or> (case field_offsets s of
       None \<Rightarrow> True
     | Some os \<Rightarrow> \<forall>(f, off) \<in> set (zip (struct_fields s) os). unwrapped (snd f) (p + off) b)"
| "unwrapped (Vector t) p b \<longleftrightarrow>
     no_wrap (flat_size t) p b \<and>
     (case (Vector_begin p b, Vector_size p b) of
        (Inr d, Inr n) \<Rightarrow> \<forall>i \<in> {0 ..< unat n}. unwrapped t (d + i * flat_size t) b
      | _ \<Rightarrow> True)"
| "unwrapped StringType p b \<longleftrightarrow> no_wrap 1 p b"
| "unwrapped (Optional t) p b \<longleftrightarrow> (case Optional_value p b of Inr d \<Rightarrow> unwrapped t d b | _ \<Rightarrow> True)"
| "unwrapped (Array t n) p b \<longleftrightarrow> True"
| "unwrapped (Alias a t) p b \<longleftrightarrow> True"
| "unwrapped (Fundamental tok) p b \<longleftrightarrow> True"
| "unwrapped (Enum e tok) p b \<longleftrightarrow> True"
| "unwrapped Object p b \<longleftrightarrow> True"
| "unwrapped Void p b \<longleftrightarrow> True"
| "unwrapped (Interface i) p b \<longleftrightarrow> True"
  by pat_completeness auto

termination unwrapped
  by (relation "measure (\<lambda>(t, p, b). size t)") (auto dest!: size_field set_zip_leftD)

lemma check_in_buffer:
  assumes c: "Vector_check_size_align al sz p (word_of_nat (length b)) b = Inr True" and w: "no_wrap sz p b" and l: "length b < 2 ^ 32"
  shows "\<exists>d n. Vector_begin p b = Inr d \<and> Vector_size p b = Inr n \<and> al dvd d \<and> d + unat n * sz \<le> length b"
proof -
  obtain d n where v: "Vector_begin p b = Inr d" "Vector_size p b = Inr n"
    using c by (auto simp: Vector_check_size_align_def Vector_range_def bindE_Inr_iff mapE_Inr_iff)
  then have small: "d + unat n * sz < 2 ^ 32" using w by (simp add: no_wrap_def)
  have u: "unat (word_of_nat d :: u32) = d" "unat (word_of_nat (d + unat n * sz) :: u32) = d + unat n * sz"
    "unat (word_of_nat (length b) :: u32) = length b"
    by (rule unat_of_nat_small; use small l in simp)+
  have "unat (word_of_nat d :: u32) mod al = 0 \<and> (word_of_nat (d + unat n * sz) :: u32) \<le> word_of_nat (length b)"
    using c v by (simp add: Vector_check_size_align_def Vector_range_def del: of_nat_add of_nat_mult)
  then show ?thesis using v unfolding word_le_nat_alt u by (auto simp: mod_0_imp_dvd)
qed

lemma traverse_safe: "\<forall>x \<in> set xs. f x \<noteq> Inl e \<Longrightarrow> traverseE f xs \<noteq> Inl e"
proof (induction xs)
  case (Cons x xs)
  then show ?case by (cases "f x"; cases "traverseE f xs") auto
qed simp

declare mapE_Inl_iff [simp]

lemma all_checks_all: "all_checks f xs = Inr True \<Longrightarrow> x \<in> set xs \<Longrightarrow> f x = Inr True"
  by (induction xs) (auto simp: bindE_Inr_iff split: if_splits)

lemma checked_real: "checked_type t \<Longrightarrow> real_type t = t"
  by (cases t) auto

lemma checked_fields_complete:
  assumes "\<forall>x \<in> set xs. checked_type (snd (fst x))" "x \<in> set xs" "\<not> is_fundamental (snd (fst x))"
  shows "x \<in> set (checked_fields xs)"
  using assms
proof (induction xs)
  case (Cons y ys)
  have "checked_type (snd (fst y))" using Cons.prems(1) by simp
  then show ?case using Cons checked_real [of "snd (fst y)"] by (cases "snd (fst y)") auto
qed simp

lemma spread_in: "spread lo xs hi \<Longrightarrow> (off, sz) \<in> set xs \<Longrightarrow> off + sz \<le> hi"
  by (induction lo xs hi rule: spread.induct) (auto dest: spread_le)

lemma safe_struct:
  assumes s: "cpp_type (Struct s)" "checked_type (Struct s)" "unwrapped (Struct s) p b" "flat_align (Struct s) dvd p"
    "p + flat_size (Struct s) \<le> length b" "length b < 2 ^ 32" "emit_safety_checks_r (Struct s) tt p b = Inr True"
    and IH: "\<And>f q tt. f \<in> set (struct_fields s) \<Longrightarrow> cpp_type (snd f) \<Longrightarrow> checked_type (snd f) \<Longrightarrow> unwrapped (snd f) q b \<Longrightarrow>
      flat_align (snd f) dvd q \<Longrightarrow> q + flat_size (snd f) \<le> length b \<Longrightarrow> emit_safety_checks_r (snd f) tt q b = Inr True \<Longrightarrow>
      assign_from_flat_type (snd f) q b \<noteq> Inl OutOfBuffer"
  shows "assign_from_flat_type (Struct s) p b \<noteq> Inl OutOfBuffer"
proof (cases "struct_flat s")
  case True
  then show ?thesis using s(5) by (simp add: get_bytes_def flat_size_def)
next
  case False
  let ?fs = "struct_fields s"
  obtain os where os: "marshal_offsets ?fs 0 = Some os" "laid_out (map snd ?fs) (struct_align s) 0 os (struct_size s)"
    "struct_align s \<in> {1, 2, 4, 8}"
    using struct_fields_layout [OF s(1)] by blast
  have L: "length os = length ?fs" "spread 0 (map (\<lambda>(f, o1). (nat (fst o1), flat_size (snd f))) (zip ?fs os)) (nat (struct_size s))"
    "\<forall>(f, o1) \<in> set (zip ?fs os). int (flat_align (snd f)) dvd fst o1 \<and> 0 \<le> fst o1 \<and> int (flat_align (snd f)) dvd struct_align s"
    using laid_out_spread [OF os(2)] s(1) by auto
  let ?offs = "map (\<lambda>(first, fin). nat first) os"
  have fo: "field_offsets s = Some ?offs" by (simp add: field_offsets_def os(1))
  have chk: "all_checks (\<lambda>(f, off). emit_safety_checks_r (snd f) (case real_type (snd f) of Struct s \<Rightarrow> False | _ \<Rightarrow> True) (p + off) b)
      (checked_fields (zip ?fs ?offs)) = Inr True"
    using s(7) False by (simp add: fo split: if_splits)
  have ck: "\<forall>x \<in> set (zip ?fs ?offs). checked_type (snd (fst x))" using s(2) False by (auto dest!: set_zip_leftD)
  have one: "assign_from_flat_type (snd (fst x)) (p + snd x) b \<noteq> Inl OutOfBuffer" if x: "x \<in> set (zip ?fs ?offs)" for x
  proof -
    obtain i where i: "i < length ?fs" "x = (?fs ! i, ?offs ! i)" using x L(1) by (auto simp: in_set_conv_nth)
    let ?f = "?fs ! i"
    have m: "(?f, os ! i) \<in> set (zip ?fs os)" using i(1) L(1) by (auto simp: set_zip)
    have o: "?offs ! i = nat (fst (os ! i))" using i(1) L(1) by (simp add: case_prod_beta)
    have d: "int (flat_align (snd ?f)) dvd fst (os ! i)" "0 \<le> fst (os ! i)" "int (flat_align (snd ?f)) dvd struct_align s" using L(3) m by auto
    have al: "flat_align (snd ?f) dvd p + ?offs ! i"
    proof (rule dvd_add)
      have "flat_align (snd ?f) dvd flat_align (Struct s)" using int_dvd_nat [OF d(3)] os(3) by (auto simp: flat_align_def)
      then show "flat_align (snd ?f) dvd p" using s(4) by (rule dvd_trans)
      show "flat_align (snd ?f) dvd ?offs ! i" unfolding o by (rule int_dvd_nat [OF d(1,2)])
    qed
    have "nat (fst (os ! i)) + flat_size (snd ?f) \<le> nat (struct_size s)"
      by (rule spread_in [OF L(2)]) (use m in force)
    then have sz: "p + ?offs ! i + flat_size (snd ?f) \<le> length b" using s(5) o by (simp add: flat_size_def [of "Struct s"])
    have mem: "?f \<in> set ?fs" using i(1) by simp
    have un: "unwrapped (snd ?f) (p + ?offs ! i) b" using s(3) False x i(2) by (auto simp: fo)
    have "\<exists>tt. emit_safety_checks_r (snd ?f) tt (p + ?offs ! i) b = Inr True"
    proof (cases "is_fundamental (snd ?f)")
      case True
      have "checked_type (snd ?f)" using ck x i(2) by auto
      then show ?thesis using True by (cases "snd ?f") auto
    next
      case False
      then have "x \<in> set (checked_fields (zip ?fs ?offs))" using checked_fields_complete [OF ck x] i(2) by simp
      then show ?thesis using all_checks_all [OF chk] i(2) by fastforce
    qed
    moreover have "cpp_type (snd ?f)" "checked_type (snd ?f)" using s(1) mem ck x i(2) by auto
    ultimately show ?thesis using IH [OF mem] un al sz i(2) by auto
  qed
  then have "traverseE (\<lambda>(f, off). assign_from_flat_type (snd f) (p + off) b) (zip ?fs ?offs) \<noteq> Inl OutOfBuffer"
    by (intro traverse_safe) (auto simp: case_prod_beta)
  then show ?thesis using False by (simp add: fo)
qed

lemma safe_vector:
  assumes t: "cpp_type (Vector t)" "checked_type (Vector t)" "unwrapped (Vector t) p b" "length b < 2 ^ 32"
    "emit_safety_checks_r (Vector t) tt p b = Inr True"
    and IH: "\<And>q. unwrapped t q b \<Longrightarrow> flat_align t dvd q \<Longrightarrow> q + flat_size t \<le> length b \<Longrightarrow>
      emit_safety_checks_r t True q b = Inr True \<Longrightarrow> assign_from_flat_type t q b \<noteq> Inl OutOfBuffer"
  shows "assign_from_flat_type (Vector t) p b \<noteq> Inl OutOfBuffer"
proof -
  have A: "cpp_type t" "has_accessor t" using t(1) by auto
  have c: "Vector_check_size_align (flat_align t) (flat_size t) p (word_of_nat (length b)) b = Inr True"
    using t(5) by (auto simp: bindE_Inr_iff split: if_splits)
  have w: "no_wrap (flat_size t) p b" using t(3) by simp
  obtain d n where v: "Vector_begin p b = Inr d" "Vector_size p b = Inr n" "flat_align t dvd d" "d + unat n * flat_size t \<le> length b"
    using check_in_buffer [OF c w t(4)] by blast
  note va = vector_access [OF A(1) v t(4)]
  show ?thesis
  proof (cases "is_flat t = Some True")
    case True
    then show ?thesis using va A(2) read_flat_elements_in [OF v(4)] by auto
  next
    case False
    have "assign_from_flat_type t (d + i * flat_size t) b \<noteq> Inl OutOfBuffer" if i: "i < unat n" for i
    proof (rule IH)
      show "unwrapped t (d + i * flat_size t) b" using t(3) v(1,2) i by simp
      show "flat_align t dvd d + i * flat_size t" using v(3) element_stride [OF A] by simp
      have "Suc i * flat_size t \<le> unat n * flat_size t" by (rule mult_le_mono1) (use i in simp)
      then show "d + i * flat_size t + flat_size t \<le> length b" using v(4) by simp
      have "all_checks (\<lambda>q. emit_safety_checks_r t True q b) (map (\<lambda>i. d + i * flat_size t) [0 ..< unat n]) = Inr True"
        using t(5) False va(3) c by simp
      then show "emit_safety_checks_r t True (d + i * flat_size t) b = Inr True" by (rule all_checks_all) (use i in auto)
    qed
    then have "traverseE (\<lambda>q. assign_from_flat_type t q b) (map (\<lambda>i. d + i * flat_size t) [0 ..< unat n]) \<noteq> Inl OutOfBuffer"
      by (intro traverse_safe) auto
    then show ?thesis using False va(3) A(2) by simp
  qed
qed

lemma safe_optional:
  assumes t: "cpp_type (Optional t)" "checked_type (Optional t)" "unwrapped (Optional t) p b" "p + 4 \<le> length b" "length b < 2 ^ 32"
    "emit_safety_checks_r (Optional t) tt p b = Inr True"
    and IH: "\<And>q. unwrapped t q b \<Longrightarrow> flat_align t dvd q \<Longrightarrow> q + flat_size t \<le> length b \<Longrightarrow>
      emit_safety_checks_r t True q b = Inr True \<Longrightarrow> assign_from_flat_type t q b \<noteq> Inl OutOfBuffer"
  shows "assign_from_flat_type (Optional t) p b \<noteq> Inl OutOfBuffer"
proof -
  have u: "unat (word_of_nat (length b) :: u32) = length b" by (rule unat_of_nat_small) (rule t(5))
  have r: "real_type t = t" "\<not> is_array_type t" "cpp_type t" using t(1,2) checked_real by (auto simp: is_array_type_def split: AstType.splits)
  obtain off where off: "get_u32 p b = Inr off" using t(4) by (simp add: get_u32_def)
  show ?thesis
  proof (cases "off = 0")
    case True
    then show ?thesis using off by (simp add: Optional_has_value_def)
  next
    case False
    let ?d = "p + unat off"
    have c: "Optional_check_size_align (flat_align t) (flat_size t) p (word_of_nat (length b)) b = Inr True"
      using t(6) by (auto simp: bindE_Inr_iff split: if_splits)
    then have d: "flat_align t dvd ?d" "?d + flat_size t \<le> length b" using off False u by (auto simp: Optional_check_size_align_def mod_0_imp_dvd)
    have hv: "Optional_has_value p b = Inr True" "Optional_value p b = Inr ?d" using off False by (simp_all add: Optional_has_value_def Optional_value_def)
    have "emit_safety_checks_r t True ?d b = Inr True"
    proof (cases "is_flat t = Some True")
      case True
      show ?thesis
      proof (cases t)
        case (Struct s)
        have "0 \<le> struct_size s" using cpp_type_wf [OF r(3)] by (simp add: Struct struct_ok_def)
        then show ?thesis using struct_check [of ?d s b] d(2) t(5) True by (simp add: Struct flat_size_def)
      qed (use True t(2) in auto)
    next
      case False
      then show ?thesis using t(6) c hv by simp
    qed
    then have "assign_from_flat_type t ?d b \<noteq> Inl OutOfBuffer" using IH d t(3) hv by simp
    then show ?thesis using hv r by simp
  qed
qed



end
