(* ===== verification/Ed_Memory.thy ===== *)
theory Ed_Memory
  imports Npsys_Types
begin

text \<open>
  How the editor gives the variables of a program their place in a controller
  (\<open>npsystem/memorymanager.cpp\<close>): \<open>CMemoryManager\<close> keeps one cell per byte of data memory and packs
  discrete variables into shared bytes, \<open>CAvrMemoryManager\<close> keeps the pages of program memory. The
  variables are nodes of the database that others share; they live in a store indexed by their id. An
  access outside the table of cells is \<open>OutsideRam\<close>.
\<close>

datatype mm_error = BadAlloc | OutsideRam | FailedAssert

type_synonym oid = u64

datatype Status = not_loaded | allocated | allocated_from_another_algorithm | good
  | good_allocated_from_another_algorithm | to_remove | removed_refcnt_not_null

record variable =
  v_addr :: nat
  v_type :: vtype
  v_status :: Status
  v_alg :: oid

record memcell =
  c_alg_id :: oid
  c_value :: u8
  c_bitcell :: bool

record CMemoryManager =
  sram :: "memcell list"
  last_count :: nat
  user_ram_begin :: nat
  user_ram_end :: nat
  allocated_vars :: "nat list"
  dev_allocated_vars :: "nat list"
  nodes_of :: "nat \<Rightarrow> variable"

definition SetBit :: "nat \<Rightarrow> variable \<Rightarrow> variable" where
  "SetBit n v = v\<lparr>v_type := (v_type v AND NOT BIT_MASK) OR push_bit 8 (word_of_nat n)\<rparr>"

text \<open>What \<open>GetSize() + IsQuality()\<close> is in the allocator.\<close>

definition byte_size :: "variable \<Rightarrow> nat" where
  "byte_size v = GetSize (v_type v) + (if IsQuality (v_type v) then 1 else 0)"

definition update_node :: "nat \<Rightarrow> (variable \<Rightarrow> variable) \<Rightarrow> CMemoryManager \<Rightarrow> CMemoryManager" where
  "update_node x f m = m\<lparr>nodes_of := (nodes_of m)(x := f (nodes_of m x))\<rparr>"

definition put_value :: "nat \<Rightarrow> u8 \<Rightarrow> memcell list \<Rightarrow> memcell list" where
  "put_value i v cs = cs[i := (cs ! i)\<lparr>c_value := v\<rparr>]"

section \<open>The table of cells\<close>

text \<open>The lambda \<open>fill\<close> of \<open>SetRam\<close> marks the cells of a variable that is already loaded.\<close>

definition fill_bytes :: "oid \<Rightarrow> nat \<Rightarrow> memcell list \<Rightarrow> mm_error + memcell list" where
  "fill_bytes alg i cs =
     (if i < length cs then Inr (cs[i := (cs ! i)\<lparr>c_alg_id := alg, c_value := 0xFF\<rparr>]) else Inl OutsideRam)"

fun each :: "('a \<Rightarrow> 's \<Rightarrow> mm_error + 's) \<Rightarrow> 'a list \<Rightarrow> 's \<Rightarrow> mm_error + 's" where
  "each f [] s = Inr s"
| "each f (x # xs) s = bindE (f x s) (each f xs)"

definition fill :: "variable \<Rightarrow> memcell list \<Rightarrow> mm_error + memcell list" where
  "fill v cs =
     (if v_status v = not_loaded then Inr cs
      else if IsBit (v_type v) then
        (if v_addr v < length cs
         then Inr (cs[v_addr v := (cs ! v_addr v)\<lparr>c_alg_id := v_alg v,
                c_value := c_value (cs ! v_addr v) OR push_bit (GetBit (v_type v)) 1 OR push_bit (GetBit (v_type v)) 2,
                c_bitcell := True\<rparr>])
         else Inl OutsideRam)
      else each (fill_bytes (v_alg v)) [v_addr v ..< v_addr v + GetSize (v_type v) + 1] cs)"

definition SetRam :: "nat \<Rightarrow> nat \<Rightarrow> nat \<Rightarrow> nat list \<Rightarrow> nat list \<Rightarrow> (nat \<Rightarrow> variable) \<Rightarrow> mm_error + CMemoryManager" where
  "SetRam ram_begin ram_end ram_size dev_vars released store =
     mapE (\<lambda>cs. \<lparr>sram = cs, last_count = 0, user_ram_begin = ram_begin, user_ram_end = ram_end, allocated_vars = [],
         dev_allocated_vars = dev_vars, nodes_of = store\<rparr>)
       (each (\<lambda>x. fill (store x)) (dev_vars @ released)
         (replicate ram_size \<lparr>c_alg_id = 0, c_value = 0, c_bitcell = False\<rparr>))"

text \<open>
  The search for a run of free places, as the loops of \<open>FindFreeSpace\<close> and \<open>AllocatePageMemory\<close> do it:
  \<open>k\<close> counts the free places seen last; the result is the last place of the run.
\<close>

fun find_run :: "nat \<Rightarrow> (nat \<Rightarrow> bool) \<Rightarrow> nat \<Rightarrow> nat list \<Rightarrow> nat \<Rightarrow> mm_error + nat" where
  "find_run limit free sz [] k = Inl BadAlloc"
| "find_run limit free sz (i # is) k =
     (if limit \<le> i then Inl OutsideRam
      else if \<not> free i then find_run limit free sz is 0
      else if k + 1 = sz then Inr i
      else find_run limit free sz is (k + 1))"

definition FindFreeSpace :: "oid \<Rightarrow> nat \<Rightarrow> nat \<Rightarrow> nat \<Rightarrow> memcell list \<Rightarrow> mm_error + nat \<times> memcell list" where
  "FindFreeSpace alg sz mem_begin mem_end cs =
     mapE (\<lambda>i. let first = i - (sz - 1) in
         (first, fold (\<lambda>j cs. put_value j 0xFF (cs[i := (cs ! i)\<lparr>c_alg_id := alg\<rparr>])) (rev [first ..< i + 1]) cs))
       (find_run (length cs) (\<lambda>i. c_value (cs ! i) = 0) sz [mem_begin ..< mem_end] 0)"

section \<open>Allocation\<close>

text \<open>The lowest clear bit, as the loop over \<open>1 << ++c\<close> finds it.\<close>

function clear_from :: "u8 \<Rightarrow> nat \<Rightarrow> nat" where
  "clear_from v c = (if c < 8 \<and> bit v c then clear_from v (c + 1) else c)"
  by pat_completeness auto

termination
  by (relation "measure (\<lambda>(v, c). 8 - c)") auto

declare clear_from.simps [simp del]

definition lowest_clear :: "u8 \<Rightarrow> nat" where
  "lowest_clear v = clear_from v 0"

fun find_bit :: "memcell list \<Rightarrow> oid \<Rightarrow> int \<Rightarrow> nat list \<Rightarrow> mm_error + (nat \<times> nat) option" where
  "find_bit cs alg fix_bit_n [] = Inr None"
| "find_bit cs alg fix_bit_n (i # is) =
     (if length cs \<le> i then Inl OutsideRam
      else if c_alg_id (cs ! i) = alg \<and> c_bitcell (cs ! i) \<and> c_value (cs ! i) \<noteq> 0xFF
        then let c = lowest_clear (c_value (cs ! i))
             in if fix_bit_n \<noteq> - 1 \<and> fix_bit_n \<noteq> int c then find_bit cs alg fix_bit_n is else Inr (Some (i, c))
      else find_bit cs alg fix_bit_n is)"

fun find_empty :: "memcell list \<Rightarrow> nat list \<Rightarrow> mm_error + nat" where
  "find_empty cs [] = Inl BadAlloc"
| "find_empty cs (i # is) =
     (if length cs \<le> i then Inl OutsideRam else if c_value (cs ! i) = 0 then Inr i else find_empty cs is)"

text \<open>Two bits from \<open>c\<close>, the value and its quality; the shift is cut to the byte.\<close>

definition take_bits :: "nat \<Rightarrow> u8 \<Rightarrow> u8" where
  "take_bits c v = v OR push_bit c 3"

definition place_bit :: "nat \<Rightarrow> nat \<Rightarrow> nat \<Rightarrow> CMemoryManager \<Rightarrow> CMemoryManager" where
  "place_bit x i c m =
     update_node x (SetBit c) (update_node x (\<lambda>v. v\<lparr>v_addr := i\<rparr>) (m\<lparr>sram := put_value i (take_bits c (c_value (sram m ! i))) (sram m)\<rparr>))"

text \<open>What follows the label \<open>l_allocated\<close>.\<close>

definition l_allocated :: "nat \<Rightarrow> CMemoryManager \<Rightarrow> CMemoryManager" where
  "l_allocated x m =
     (update_node x (\<lambda>v. v\<lparr>v_status := allocated\<rparr>) m)
       \<lparr>dev_allocated_vars := dev_allocated_vars m @ [x], allocated_vars := allocated_vars m @ [x], last_count := last_count m + 1\<rparr>"

definition AllocateMemory :: "nat \<Rightarrow> int \<Rightarrow> CMemoryManager \<Rightarrow> mm_error + CMemoryManager" where
  "AllocateMemory x fix_bit_n m =
     (let v = nodes_of m x; cells = [user_ram_begin m ..< user_ram_end m + 1] in
      if v_status v \<noteq> not_loaded then Inr m
      else if IsBit (v_type v) then
        bindE (find_bit (sram m) (v_alg v) fix_bit_n cells) (\<lambda>r.
          case r of
            Some (i, c) \<Rightarrow> if c < 8 then Inr (l_allocated x (place_bit x i c m)) else Inl FailedAssert
          | None \<Rightarrow>
              mapE (\<lambda>i.
                  let c = (if fix_bit_n \<noteq> - 1 then nat fix_bit_n else 0);
                      m = m\<lparr>sram := (sram m)[i := (sram m ! i)\<lparr>c_alg_id := v_alg v, c_bitcell := True\<rparr>]\<rparr>
                  in l_allocated x (place_bit x i c m))
                (find_empty (sram m) cells))
      else mapE (\<lambda>(addr, cs). l_allocated x (update_node x (\<lambda>v. v\<lparr>v_addr := addr\<rparr>) (m\<lparr>sram := cs\<rparr>)))
        (FindFreeSpace (v_alg v) (byte_size v) (user_ram_begin m) (user_ram_end m) (sram m)))"

text \<open>The variables of a container lie one behind the other.\<close>

definition VarByteSize :: "nat list \<Rightarrow> (nat \<Rightarrow> variable) \<Rightarrow> nat" where
  "VarByteSize xs store = (\<Sum>x \<leftarrow> xs. byte_size (store x))"

fun place_all :: "nat list \<Rightarrow> nat \<Rightarrow> CMemoryManager \<Rightarrow> CMemoryManager" where
  "place_all [] addr m = m"
| "place_all (x # xs) addr m =
     place_all xs (addr + byte_size (nodes_of m x)) (l_allocated x (update_node x (\<lambda>v. v\<lparr>v_addr := addr\<rparr>) m))"

definition AllocateContainer :: "nat list \<Rightarrow> CMemoryManager \<Rightarrow> mm_error + CMemoryManager" where
  "AllocateContainer xs m =
     (if xs = [] \<or> v_status (nodes_of m (hd xs)) \<noteq> not_loaded then Inr m
      else mapE (\<lambda>(addr, cs). place_all xs addr (m\<lparr>sram := cs\<rparr>))
        (FindFreeSpace (v_alg (nodes_of m (hd xs))) (VarByteSize xs (nodes_of m)) (user_ram_begin m) (user_ram_end m) (sram m)))"

section \<open>Commit and rollback\<close>

definition commit_status :: "Status \<Rightarrow> Status option" where
  "commit_status s =
     (if s = allocated then Some good
      else if s = allocated_from_another_algorithm then Some good_allocated_from_another_algorithm else None)"

definition CommitMemory :: "CMemoryManager \<Rightarrow> mm_error + CMemoryManager" where
  "CommitMemory m =
     each (\<lambda>x m. case commit_status (v_status (nodes_of m x)) of
         None \<Rightarrow> Inl FailedAssert
       | Some s \<Rightarrow> Inr (update_node x (\<lambda>v. v\<lparr>v_status := s\<rparr>) m)) (allocated_vars m) m"

definition SaveState :: "CMemoryManager \<Rightarrow> CMemoryManager" where
  "SaveState m = m\<lparr>last_count := 0\<rparr>"

text \<open>One turn of the loop of \<open>Rollback\<close>, and the loop; \<open>back\<close> of an empty vector is undefined.\<close>

definition free_variable :: "variable \<Rightarrow> memcell list \<Rightarrow> mm_error + memcell list" where
  "free_variable v cs =
     (if length cs \<le> v_addr v then Inl OutsideRam
      else let p = cs ! v_addr v in
        if c_bitcell p
        then let value = c_value p AND NOT (push_bit (GetBit (v_type v)) 3)
             in Inr (cs[v_addr v := p\<lparr>c_value := value, c_bitcell := (value \<noteq> 0)\<rparr>])
        else each (\<lambda>i cs. if i < length cs then Inr (put_value i 0 cs) else Inl OutsideRam)
          [v_addr v ..< v_addr v + GetSize (v_type v) + 1] cs)"

fun Rollback :: "nat \<Rightarrow> CMemoryManager \<Rightarrow> mm_error + CMemoryManager" where
  "Rollback 0 m = Inr m"
| "Rollback (Suc n) m =
     (if allocated_vars m = [] then Inl FailedAssert
      else let x = last (allocated_vars m);
               m = update_node x (\<lambda>v. v\<lparr>v_status := not_loaded\<rparr>) (m\<lparr>allocated_vars := butlast (allocated_vars m)\<rparr>)
           in bindE (free_variable (nodes_of m x) (sram m)) (\<lambda>cs. Rollback n (m\<lparr>sram := cs\<rparr>)))"

definition RollbackState :: "CMemoryManager \<Rightarrow> mm_error + CMemoryManager" where
  "RollbackState m = mapE (\<lambda>m. m\<lparr>last_count := 0\<rparr>) (Rollback (last_count m) m)"

definition RollbackAll :: "CMemoryManager \<Rightarrow> mm_error + CMemoryManager" where
  "RollbackAll m = mapE (\<lambda>m. m\<lparr>last_count := 0\<rparr>) (Rollback (length (allocated_vars m)) m)"

section \<open>Pages of program memory\<close>

record CAvrMemoryManager =
  flash :: "u8 list"
  sram_only :: bool
  page_size :: nat
  page_start :: nat
  page_end :: nat

text \<open>
  The constructor: the pages of the objects that are loaded are taken; \<open>objs\<close> gives for each assigned
  algorithm and function whether it is loaded, its first page and how many it has. With \<open>sram_only\<close> there
  is no table.
\<close>

definition mark_pages :: "bool \<times> nat \<times> nat \<Rightarrow> u8 list \<Rightarrow> mm_error + u8 list" where
  "mark_pages obj fl =
     (case obj of (loaded, first, count) \<Rightarrow>
        if \<not> loaded then Inr fl
        else if first + count \<le> length fl then Inr (take first fl @ replicate count 0xFF @ drop (first + count) fl)
        else Inl OutsideRam)"

definition CAvrMemoryManager_init :: "bool \<Rightarrow> nat \<Rightarrow> nat \<Rightarrow> nat \<Rightarrow> nat \<Rightarrow> (bool \<times> nat \<times> nat) list \<Rightarrow> mm_error + CAvrMemoryManager" where
  "CAvrMemoryManager_init only_sram pagesize first_page last_page max_pages objs =
     (if only_sram then Inr \<lparr>flash = [], sram_only = True, page_size = 0, page_start = 0, page_end = 0\<rparr>
      else mapE (\<lambda>fl. \<lparr>flash = fl, sram_only = False, page_size = pagesize, page_start = first_page, page_end = last_page\<rparr>)
        (each mark_pages objs (replicate max_pages 0)))"

definition page_count :: "nat \<Rightarrow> nat \<Rightarrow> nat" where
  "page_count objectSize psz =
     (if objectSize mod psz \<noteq> 0 then objectSize div psz + 1 else objectSize div psz)"

definition AllocatePageMemory :: "nat \<Rightarrow> CAvrMemoryManager \<Rightarrow> mm_error + nat \<times> CAvrMemoryManager" where
  "AllocatePageMemory objectSize m =
     (if sram_only m then Inl FailedAssert
      else let count = page_count objectSize (page_size m)
           in mapE (\<lambda>i. let first = i - (count - 1)
                in (first, m\<lparr>flash := take first (flash m) @ replicate count 0xFF @ drop (first + count) (flash m)\<rparr>))
             (find_run (length (flash m)) (\<lambda>i. flash m ! i = 0) count [page_start m ..< page_end m + 1] 0))"

end
