(* ===== verification/Ed_Memory_Spec.thy ===== *)
theory Ed_Memory_Spec
  imports Ed_Memory
begin

text \<open>
  What the memory manager of the editor guarantees: allocation is first fit, and variables that are
  allocated never share a bit as long as nothing is rolled back and discrete variables are paired; and
  the two ways in which variables do come to share memory.
\<close>

section \<open>First fit\<close>

definition free_run :: "(nat \<Rightarrow> bool) \<Rightarrow> nat \<Rightarrow> nat \<Rightarrow> bool" where
  "free_run free sz first \<longleftrightarrow> (\<forall>j. first \<le> j \<and> j < first + sz \<longrightarrow> free j)"

lemma find_run_first:
  assumes "k < sz" "k \<le> a" "\<forall>j. a - k \<le> j \<and> j < a \<longrightarrow> free j"
    and "\<forall>f. lo \<le> f \<and> free_run free sz f \<longrightarrow> a - k \<le> f" "lo \<le> a - k" "b \<le> limit"
  shows "case find_run limit free sz [a ..< b] k of
      Inr i \<Rightarrow> lo + sz \<le> i + 1 \<and> i < b \<and> free_run free sz (i + 1 - sz) \<and> (\<forall>f. lo \<le> f \<and> free_run free sz f \<longrightarrow> i + 1 - sz \<le> f)
    | Inl e \<Rightarrow> e = BadAlloc \<and> (\<forall>f. lo \<le> f \<and> f + sz \<le> b \<longrightarrow> \<not> free_run free sz f)"
  using assms
proof (induction "b - a" arbitrary: a k)
  case 0
  have "\<not> free_run free sz f" if "lo \<le> f" "f + sz \<le> b" for f
  proof
    assume "free_run free sz f"
    then have "a - k \<le> f" using 0(5) that(1) by blast
    then show False using 0(1,2,3) that(2) by arith
  qed
  then show ?case using 0(1) by simp
next
  case (Suc n)
  have u: "[a ..< b] = a # [Suc a ..< b]" using Suc.hyps(2) by (simp add: upt_conv_Cons)
  have n: "n = b - Suc a" using Suc.hyps(2) by simp
  show ?case
  proof (cases "free a")
    case False
    have "\<forall>f. lo \<le> f \<and> free_run free sz f \<longrightarrow> Suc a - 0 \<le> f"
    proof (intro allI impI)
      fix f assume f: "lo \<le> f \<and> free_run free sz f"
      then have "a - k \<le> f" using Suc.prems(4) by blast
      moreover have "\<not> (f \<le> a \<and> a < f + sz)" using f False by (auto simp: free_run_def)
      ultimately show "Suc a - 0 \<le> f" using Suc.prems(1,2) by linarith
    qed
    then have "case find_run limit free sz [Suc a ..< b] 0 of
        Inr i \<Rightarrow> lo + sz \<le> i + 1 \<and> i < b \<and> free_run free sz (i + 1 - sz) \<and> (\<forall>f. lo \<le> f \<and> free_run free sz f \<longrightarrow> i + 1 - sz \<le> f)
      | Inl e \<Rightarrow> e = BadAlloc \<and> (\<forall>f. lo \<le> f \<and> f + sz \<le> b \<longrightarrow> \<not> free_run free sz f)"
      by (intro Suc.hyps(1) [OF n]) (use Suc.prems in auto)
    then show ?thesis using False Suc.prems(6) Suc.hyps(2) by (simp add: u)
  next
    case True
    show ?thesis
    proof (cases "k + 1 = sz")
      case True
      have "free_run free sz (a - k)"
        unfolding free_run_def
      proof (intro allI impI)
        fix j assume "a - k \<le> j \<and> j < a - k + sz"
        then have "a - k \<le> j" "j < a \<or> j = a" using True Suc.prems(2) by auto
        then show "free j" using Suc.prems(3) \<open>free a\<close> by blast
      qed
      moreover have "a + 1 - sz = a - k" using True by simp
      ultimately show ?thesis using Suc.prems(2,4,5,6) Suc.hyps(2) \<open>free a\<close> True by (auto simp: u)
    next
      case False
      have "case find_run limit free sz [Suc a ..< b] (k + 1) of
          Inr i \<Rightarrow> lo + sz \<le> i + 1 \<and> i < b \<and> free_run free sz (i + 1 - sz) \<and> (\<forall>f. lo \<le> f \<and> free_run free sz f \<longrightarrow> i + 1 - sz \<le> f)
        | Inl e \<Rightarrow> e = BadAlloc \<and> (\<forall>f. lo \<le> f \<and> f + sz \<le> b \<longrightarrow> \<not> free_run free sz f)"
        by (intro Suc.hyps(1) [OF n]) (use Suc.prems \<open>free a\<close> False in \<open>auto simp: less_Suc_eq\<close>)
      then show ?thesis using False \<open>free a\<close> Suc.prems(6) Suc.hyps(2) by (simp add: u)
    qed
  qed
qed

text \<open>
  C38. The pages of an object are the first run of free pages that is long enough, and they are taken;
  there is no place for it exactly when there is no such run.
\<close>

theorem pages_first_fit:
  assumes "\<not> sram_only m" "0 < objectSize" "0 < page_size m" "page_end m < length (flash m)"
  shows "case AllocatePageMemory objectSize m of
      Inr (first, m') \<Rightarrow>
        page_start m \<le> first \<and> first + page_count objectSize (page_size m) \<le> page_end m + 1 \<and>
        objectSize \<le> page_count objectSize (page_size m) * page_size m \<and>
        free_run (\<lambda>i. flash m ! i = 0) (page_count objectSize (page_size m)) first \<and>
        (\<forall>f. page_start m \<le> f \<and> free_run (\<lambda>i. flash m ! i = 0) (page_count objectSize (page_size m)) f \<longrightarrow> first \<le> f) \<and>
        length (flash m') = length (flash m) \<and>
        (\<forall>i < length (flash m). flash m' ! i = (if first \<le> i \<and> i < first + page_count objectSize (page_size m) then 0xFF else flash m ! i))
    | Inl e \<Rightarrow>
        e = BadAlloc \<and> (\<forall>f. page_start m \<le> f \<and> f + page_count objectSize (page_size m) \<le> page_end m + 1 \<longrightarrow>
          \<not> free_run (\<lambda>i. flash m ! i = 0) (page_count objectSize (page_size m)) f)"
proof -
  let ?c = "page_count objectSize (page_size m)" and ?free = "\<lambda>i. flash m ! i = 0"
  have "objectSize \<le> page_size m + objectSize div page_size m * page_size m"
    using mod_less_divisor [OF assms(3), of objectSize] div_mult_mod_eq [of objectSize "page_size m"] by linarith
  then have c: "0 < ?c" "objectSize \<le> ?c * page_size m"
    using assms(2,3) by (auto simp: page_count_def intro: Nat.gr0I)
  have f: "case find_run (length (flash m)) ?free ?c [page_start m ..< page_end m + 1] 0 of
      Inr i \<Rightarrow> page_start m + ?c \<le> i + 1 \<and> i < page_end m + 1 \<and> free_run ?free ?c (i + 1 - ?c) \<and>
        (\<forall>f. page_start m \<le> f \<and> free_run ?free ?c f \<longrightarrow> i + 1 - ?c \<le> f)
    | Inl e \<Rightarrow> e = BadAlloc \<and> (\<forall>f. page_start m \<le> f \<and> f + ?c \<le> page_end m + 1 \<longrightarrow> \<not> free_run ?free ?c f)"
    by (rule find_run_first) (use c assms(4) in auto)
  show ?thesis
  proof (cases "find_run (length (flash m)) ?free ?c [page_start m ..< page_end m + 1] 0")
    case (Inl e)
    then show ?thesis using f assms(1) by (simp add: AllocatePageMemory_def Let_def del: upt_Suc)
  next
    case (Inr i)
    define first where "first = i + 1 - ?c"
    have e: "i - (?c - 1) = first" using c(1) by (simp add: first_def)
    let ?fl = "take first (flash m) @ replicate ?c 0xFF @ drop (first + ?c) (flash m)"
    have r: "AllocatePageMemory objectSize m = Inr (first, m\<lparr>flash := ?fl\<rparr>)"
      using assms(1) unfolding AllocatePageMemory_def Let_def Inr by (simp add: e [simplified])
    have b: "first + ?c \<le> page_end m + 1" "page_start m \<le> first" "free_run ?free ?c first"
      "\<forall>f. page_start m \<le> f \<and> free_run ?free ?c f \<longrightarrow> first \<le> f"
      using f unfolding Inr first_def by auto
    have len: "first + ?c \<le> length (flash m)" using b(1) assms(4) by simp
    have "length ?fl = length (flash m)" using len by simp
    moreover have "\<forall>i < length (flash m). ?fl ! i = (if first \<le> i \<and> i < first + ?c then 0xFF else flash m ! i)"
      using len by (auto simp: nth_append)
    ultimately show ?thesis unfolding r using b c(2) by simp
  qed
qed

definition demo_flash :: CAvrMemoryManager where
  "demo_flash = \<lparr>flash = [0xFF, 0, 0xFF, 0, 0, 0, 0, 0xFF], sram_only = False, page_size = 64, page_start = 1, page_end = 6\<rparr>"

lemma pages_first_fit_witness:
  "\<exists>m'. AllocatePageMemory 130 demo_flash = Inr (3, m') \<and> length (flash m') = 8"
proof -
  have "\<not> sram_only demo_flash" "(0 :: nat) < 130" "0 < page_size demo_flash" "page_end demo_flash < length (flash demo_flash)"
    by (simp_all add: demo_flash_def)
  note h = pages_first_fit [OF this]
  have "map_sum id fst (AllocatePageMemory 130 demo_flash) = Inr 3" by code_simp
  then show ?thesis using h by (cases "AllocatePageMemory 130 demo_flash") (auto simp: demo_flash_def)
qed

section \<open>The bits of a variable\<close>

text \<open>A place is a cell and a bit in it. A discrete variable has its bit and the next one for the quality.\<close>

definition foot :: "variable \<Rightarrow> (nat \<times> nat) set" where
  "foot v =
     (if IsBit (v_type v) then {(v_addr v, GetBit (v_type v)), (v_addr v, GetBit (v_type v) + 1)}
      else {v_addr v ..< v_addr v + byte_size v} \<times> {..< 8})"

definition taken :: "memcell list \<Rightarrow> (nat \<times> nat) set" where
  "taken cs = {(i, k). i < length cs \<and> k < 8 \<and> bit (c_value (cs ! i)) k}"

definition paired :: "memcell list \<Rightarrow> bool" where
  "paired cs \<longleftrightarrow> (\<forall>i < length cs. \<forall>k \<in> {0, 2, 4, 6}. bit (c_value (cs ! i)) k = bit (c_value (cs ! i)) (k + 1))"

definition live :: "nat list \<Rightarrow> CMemoryManager \<Rightarrow> nat set" where
  "live released m = {x \<in> set (dev_allocated_vars m) \<union> set released. v_status (nodes_of m x) \<noteq> not_loaded}"

definition separate :: "nat set \<Rightarrow> (nat \<Rightarrow> variable) \<Rightarrow> bool" where
  "separate xs store \<longleftrightarrow> (\<forall>x \<in> xs. \<forall>y \<in> xs. x \<noteq> y \<longrightarrow> foot (store x) \<inter> foot (store y) = {})"

definition memory_ok :: "nat list \<Rightarrow> CMemoryManager \<Rightarrow> bool" where
  "memory_ok released m \<longleftrightarrow> paired (sram m) \<and> separate (live released m) (nodes_of m) \<and>
     (\<forall>x \<in> live released m. foot (nodes_of m x) \<subseteq> taken (sram m)) \<and>
     (\<forall>x \<in> set (allocated_vars m). foot (nodes_of m x) \<subseteq> {user_ram_begin m .. user_ram_end m} \<times> {..< 8})"

lemma nth_put_value: "i < length cs \<Longrightarrow> put_value i v cs ! j = (if j = i then (cs ! i)\<lparr>c_value := v\<rparr> else cs ! j)"
  by (simp add: put_value_def)

lemma length_put_value [simp]: "length (put_value i v cs) = length cs"
  by (simp add: put_value_def)

lemma bit_FF: "bit (0xFF :: u8) k \<longleftrightarrow> k < 8"
proof -
  have "(0xFF :: u8) = mask 8" by (simp add: mask_eq_exp_minus_1)
  then show ?thesis unfolding \<open>(0xFF :: u8) = mask 8\<close> bit_mask_iff by simp
qed

text \<open>A new variable in places that no other variable has.\<close>

lemma memory_ok_place:
  assumes ok: "memory_ok released m" and x: "v_status (nodes_of m x) = not_loaded"
    and m': "nodes_of m' = (nodes_of m)(x := v)" "dev_allocated_vars m' = dev_allocated_vars m @ [x]"
      "allocated_vars m' = allocated_vars m @ [x]" "user_ram_begin m' = user_ram_begin m" "user_ram_end m' = user_ram_end m"
    and p: "paired (sram m')" and t: "taken (sram m) \<subseteq> taken (sram m')" "foot v \<subseteq> taken (sram m')"
    and d: "\<forall>y \<in> live released m. foot v \<inter> foot (nodes_of m y) = {}"
    and u: "foot v \<subseteq> {user_ram_begin m .. user_ram_end m} \<times> {..< 8}"
  shows "memory_ok released m'"
proof -
  have l: "y \<in> live released m" if "y \<in> live released m'" "y \<noteq> x" for y using that by (auto simp: live_def m')
  have f: "foot (nodes_of m y) \<subseteq> taken (sram m)" if "y \<in> live released m" for y using ok that by (simp add: memory_ok_def)
  have "foot (nodes_of m' y) \<inter> foot (nodes_of m' z) = {}" if "y \<in> live released m'" "z \<in> live released m'" "y \<noteq> z" for y z
  proof (cases "y = x \<or> z = x")
    case True
    then show ?thesis using that l d by (auto simp: m'(1))
  next
    case False
    then have "y \<in> live released m" "z \<in> live released m" using that l by auto
    then show ?thesis using ok that(3) False by (simp add: memory_ok_def separate_def m'(1))
  qed
  moreover have "foot (nodes_of m' y) \<subseteq> taken (sram m')" if "y \<in> live released m'" for y
    using that l f t(1,2) by (cases "y = x") (auto simp: m'(1))
  moreover have "foot (nodes_of m' y) \<subseteq> {user_ram_begin m' .. user_ram_end m'} \<times> {..< 8}" if "y \<in> set (allocated_vars m')" for y
    using that ok u by (cases "y = x") (auto simp: m' memory_ok_def)
  ultimately show ?thesis using p by (simp add: memory_ok_def separate_def)
qed

lemma memory_ok_add:
  assumes ok: "memory_ok released m" and x: "v_status (nodes_of m x) = not_loaded"
    and m': "nodes_of m' = (nodes_of m)(x := v)" "dev_allocated_vars m' = dev_allocated_vars m @ [x]"
      "allocated_vars m' = allocated_vars m @ [x]" "user_ram_begin m' = user_ram_begin m" "user_ram_end m' = user_ram_end m"
    and p: "paired (sram m')" and t: "taken (sram m) \<subseteq> taken (sram m')" "foot v \<subseteq> taken (sram m')" "foot v \<inter> taken (sram m) = {}"
    and u: "foot v \<subseteq> {user_ram_begin m .. user_ram_end m} \<times> {..< 8}"
  shows "memory_ok released m'"
proof (rule memory_ok_place [OF ok x m' p t(1,2) _ u])
  show "\<forall>y \<in> live released m. foot v \<inter> foot (nodes_of m y) = {}" using ok t(3) by (auto simp: memory_ok_def)
qed

section \<open>Bytes\<close>

lemma mark_run:
  assumes "i < length cs" "first + n \<le> length cs"
  shows "let cs' = fold (\<lambda>j cs. put_value j 0xFF (cs[i := (cs ! i)\<lparr>c_alg_id := alg\<rparr>])) (rev [first ..< first + n]) cs
    in length cs' = length cs \<and> (\<forall>j < length cs. c_value (cs' ! j) = (if first \<le> j \<and> j < first + n then 0xFF else c_value (cs ! j)) \<and>
       c_bitcell (cs' ! j) = c_bitcell (cs ! j))"
  using assms
proof (induction n arbitrary: cs)
  case (Suc n)
  let ?cs = "put_value (first + n) 0xFF (cs[i := (cs ! i)\<lparr>c_alg_id := alg\<rparr>])"
  have v: "c_value (?cs ! j) = (if j = first + n then 0xFF else c_value (cs ! j)) \<and> c_bitcell (?cs ! j) = c_bitcell (cs ! j)" if "j < length cs" for j
    using Suc.prems that by (auto simp: nth_put_value nth_list_update)
  have "i < length ?cs" "first + n \<le> length ?cs" using Suc.prems by simp_all
  from Suc.IH [OF this] show ?case using v by (auto simp: Let_def)
qed auto

lemma find_free_spec:
  assumes r: "FindFreeSpace alg sz b e cs = Inr (first, cs')" and sz: "0 < sz" and e: "e \<le> length cs"
  shows "b \<le> first" "first + sz \<le> e" "length cs' = length cs"
    "\<And>j. first \<le> j \<Longrightarrow> j < first + sz \<Longrightarrow> c_value (cs ! j) = 0"
    "\<And>j. j < length cs \<Longrightarrow> c_value (cs' ! j) = (if first \<le> j \<and> j < first + sz then 0xFF else c_value (cs ! j))"
    "\<And>j. j < length cs \<Longrightarrow> c_bitcell (cs' ! j) = c_bitcell (cs ! j)"
proof -
  let ?free = "\<lambda>i. c_value (cs ! i) = 0"
  obtain i where i: "find_run (length cs) ?free sz [b ..< e] 0 = Inr i" and f: "first = i - (sz - 1)"
    and cs': "cs' = fold (\<lambda>j cs. put_value j 0xFF (cs[i := (cs ! i)\<lparr>c_alg_id := alg\<rparr>])) (rev [first ..< i + 1]) cs"
    using r by (auto simp: FindFreeSpace_def mapE_Inr_iff Let_def)
  have s: "b + sz \<le> i + 1" "i < e" "free_run ?free sz (i + 1 - sz)"
  proof -
    have "\<forall>j. b - 0 \<le> j \<and> j < b \<longrightarrow> ?free j" "\<forall>f. b \<le> f \<and> free_run ?free sz f \<longrightarrow> b - 0 \<le> f" by auto
    then show "b + sz \<le> i + 1" "i < e" "free_run ?free sz (i + 1 - sz)"
      using find_run_first [of 0 sz b ?free b e "length cs"] i sz e by auto
  qed
  have fi: "first = i + 1 - sz" "first + sz = i + 1" using f s(1) sz by auto
  have "i < length cs" "first + sz \<le> length cs" using s(2) e fi by auto
  note m = mark_run [OF this, of alg, unfolded Let_def fi(2), folded cs']
  show "b \<le> first" "first + sz \<le> e" "length cs' = length cs" using s fi m by auto
  show "\<And>j. first \<le> j \<Longrightarrow> j < first + sz \<Longrightarrow> c_value (cs ! j) = 0" using s(3) fi(1) by (auto simp: free_run_def)
  show "\<And>j. j < length cs \<Longrightarrow> c_value (cs' ! j) = (if first \<le> j \<and> j < first + sz then 0xFF else c_value (cs ! j))"
    "\<And>j. j < length cs \<Longrightarrow> c_bitcell (cs' ! j) = c_bitcell (cs ! j)" using m fi(2) by auto
qed

lemma find_free_taken:
  assumes "FindFreeSpace alg sz b e cs = Inr (first, cs')" "0 < sz" "e \<le> length cs" "paired cs"
  shows "taken cs' = taken cs \<union> {first ..< first + sz} \<times> {..< 8}" "({first ..< first + sz} \<times> {..< 8}) \<inter> taken cs = {}" "paired cs'"
proof -
  note s = find_free_spec [OF assms(1-3)]
  have l: "first + sz \<le> length cs" using s(2) assms(3) by simp
  show "({first ..< first + sz} \<times> {..< 8}) \<inter> taken cs = {}" using s(4) by (auto simp: taken_def)
  show "taken cs' = taken cs \<union> {first ..< first + sz} \<times> {..< 8}"
  proof (rule set_eqI)
    fix p :: "nat \<times> nat"
    obtain i k where p: "p = (i, k)" by fastforce
    show "p \<in> taken cs' \<longleftrightarrow> p \<in> taken cs \<union> {first ..< first + sz} \<times> {..< 8}"
    proof (cases "i < length cs \<and> first \<le> i \<and> i < first + sz")
      case True
      then have "c_value (cs' ! i) = 0xFF" using s(5) by simp
      then have "bit (c_value (cs' ! i)) k \<longleftrightarrow> k < 8" by (simp only: bit_FF)
      then show ?thesis using True s(3) by (auto simp: p taken_def)
    next
      case False
      then show ?thesis using s(3) s(5) [of i] l by (auto simp: p taken_def)
    qed
  qed
  show "paired cs'" using assms(4) s(3) s(5) by (auto simp: paired_def bit_FF)
qed

lemma zero_run: "FindFreeSpace alg 0 b e cs \<noteq> Inr r"
proof -
  have "find_run limit free 0 is k \<noteq> Inr i" for limit free "is" k i by (induction "is" arbitrary: k) auto
  then show ?thesis by (auto simp: FindFreeSpace_def mapE_Inr_iff)
qed

section \<open>Bits\<close>

lemma clear_from_spec:
  "\<forall>j < c. bit v j \<Longrightarrow> c \<le> 8 \<Longrightarrow> clear_from v c \<le> 8 \<and> (clear_from v c < 8 \<longrightarrow> \<not> bit v (clear_from v c)) \<and> (\<forall>j < clear_from v c. bit v j)"
proof (induction v c rule: clear_from.induct)
  case (1 v c)
  show ?case
  proof (cases "c < 8 \<and> bit v c")
    case True
    have "\<forall>j < c + 1. bit v j" using 1(2) True by (auto simp: less_Suc_eq)
    then show ?thesis using 1(1) [OF True] True by (simp add: clear_from.simps [of v c])
  next
    case False
    then have "clear_from v c = c" by (simp only: clear_from.simps [of v c] if_False)
    then show ?thesis using False 1(2,3) by auto
  qed
qed

lemma lowest_clear_spec:
  fixes v :: u8
  assumes "v \<noteq> 0xFF"
  shows "lowest_clear v < 8" "\<not> bit v (lowest_clear v)" "\<forall>j < lowest_clear v. bit v j"
proof -
  have c: "lowest_clear v \<le> 8" "lowest_clear v < 8 \<Longrightarrow> \<not> bit v (lowest_clear v)" "\<forall>j < lowest_clear v. bit v j"
    using clear_from_spec [of 0 v] by (simp_all add: lowest_clear_def)
  have "lowest_clear v \<noteq> 8"
  proof
    assume "lowest_clear v = 8"
    then have "bit v n = bit (0xFF :: u8) n" if "n < 8" for n using that c(3) unfolding bit_FF by simp
    then have "v = 0xFF" by (intro bit_word_eqI) simp
    then show False using assms by simp
  qed
  then show "lowest_clear v < 8" "\<not> bit v (lowest_clear v)" "\<forall>j < lowest_clear v. bit v j" using c by simp_all
qed

lemma lowest_clear_even:
  fixes v :: u8
  assumes v: "v \<noteq> 0xFF" and p: "\<forall>k \<in> {0, 2, 4, 6}. bit v k = bit v (k + 1)"
  shows "lowest_clear v \<in> {0, 2, 4, 6}"
proof -
  note s = lowest_clear_spec [OF v]
  have "lowest_clear v \<noteq> k + 1" if "k \<in> {0, 2, 4, 6}" for k
    using s(2,3) p that by (metis less_add_one)
  from this [of 0] this [of 2] this [of 4] this [of 6] s(1) show ?thesis by auto
qed

lemma bit_take_bits:
  fixes v :: u8
  shows "k < 8 \<Longrightarrow> bit (take_bits c v) k \<longleftrightarrow> bit v k \<or> k = c \<or> k = c + 1"
proof -
  assume k: "k < 8"
  have "(3 :: u8) = mask 2" by (simp add: mask_eq_exp_minus_1)
  then have "take_bits c v = v OR push_bit c (mask 2)" by (simp add: take_bits_def)
  then show ?thesis using k by (auto simp: bit_simps)
qed

lemma SetBit_type:
  assumes "c < 8"
  shows "IsBit (v_type (SetBit c v)) = IsBit (v_type v)" "GetBit (v_type (SetBit c v)) = c"
proof -
  have "IsBit ((t AND NOT BIT_MASK) OR push_bit 8 (word_of_nat c)) = IsBit t \<and> GetBit ((t AND NOT BIT_MASK) OR push_bit 8 (word_of_nat c)) = c" for t
  proof -
    have c: "c \<in> {0, 1, 2, 3, 4, 5, 6, 7}" using assms by auto
    have "unat (word_of_nat c :: u32) = c" using c by auto
    have m: "(0xF00 :: u32) = push_bit 8 (mask 4)" by (simp add: mask_eq_exp_minus_1 push_bit_eq_mult)
    have "drop_bit 8 (((t AND NOT 0xF00) OR push_bit 8 w) AND 0xF00) = w AND mask 4" for w :: u32
      unfolding m by (rule bit_word_eqI) (auto simp: bit_simps)
    moreover have "(word_of_nat c :: u32) AND mask 4 = word_of_nat c" using c by (auto simp: mask_eq_exp_minus_1)
    ultimately have g: "GetBit ((t AND NOT BIT_MASK) OR push_bit 8 (word_of_nat c)) = c"
      using \<open>unat (word_of_nat c :: u32) = c\<close> by (simp add: GetBit_def BIT_MASK_def)
    have "(0x20 :: u32) = 2 ^ 5" by simp
    then have b: "bit (0x20 :: u32) n \<longleftrightarrow> n = 5" for n unfolding \<open>(0x20 :: u32) = 2 ^ 5\<close> bit_exp_iff by auto
    have "((t AND NOT 0xF00) OR push_bit 8 w) AND 0x20 = t AND 0x20" for w :: u32
      unfolding m by (rule bit_word_eqI) (simp only: bit_and_iff b, auto simp: bit_simps)
    then show ?thesis using g by (simp add: IsBit_def BIT_VALUE_def BIT_MASK_def)
  qed
  then show "IsBit (v_type (SetBit c v)) = IsBit (v_type v)" "GetBit (v_type (SetBit c v)) = c" by (simp_all add: SetBit_def)
qed

section \<open>Every operation keeps variables apart\<close>

definition manager_ok :: "nat list \<Rightarrow> CMemoryManager \<Rightarrow> bool" where
  "manager_ok released m \<longleftrightarrow> memory_ok released m \<and> user_ram_end m < length (sram m)"

lemma place_simps [simp]:
  "nodes_of (l_allocated x m) = (nodes_of m)(x := (nodes_of m x)\<lparr>v_status := allocated\<rparr>)"
  "dev_allocated_vars (l_allocated x m) = dev_allocated_vars m @ [x]"
  "allocated_vars (l_allocated x m) = allocated_vars m @ [x]"
  "user_ram_begin (l_allocated x m) = user_ram_begin m" "user_ram_end (l_allocated x m) = user_ram_end m"
  "sram (l_allocated x m) = sram m"
  "sram (update_node x f m) = sram m" "nodes_of (update_node x f m) = (nodes_of m)(x := f (nodes_of m x))"
  "dev_allocated_vars (update_node x f m) = dev_allocated_vars m" "allocated_vars (update_node x f m) = allocated_vars m"
  "user_ram_begin (update_node x f m) = user_ram_begin m" "user_ram_end (update_node x f m) = user_ram_end m"
  by (simp_all add: l_allocated_def update_node_def)

text \<open>Taking a pair of free bits of a cell.\<close>

lemma taken_pair:
  assumes i: "i < length cs" and c: "c \<in> {0, 2, 4, 6}" and p: "paired cs" and free: "\<not> bit (c_value (cs ! i)) c"
    and cs': "length cs' = length cs" "\<And>j. j < length cs \<Longrightarrow> c_value (cs' ! j) = (if j = i then take_bits c (c_value (cs ! i)) else c_value (cs ! j))"
  shows "taken cs' = taken cs \<union> {(i, c), (i, c + 1)}" "{(i, c), (i, c + 1)} \<inter> taken cs = {}" "paired cs'"
proof -
  have free': "\<not> bit (c_value (cs ! i)) (c + 1)" using p i c free by (auto simp: paired_def)
  show "{(i, c), (i, c + 1)} \<inter> taken cs = {}" using free free' by (auto simp: taken_def)
  show "taken cs' = taken cs \<union> {(i, c), (i, c + 1)}"
  proof (rule set_eqI)
    fix q :: "nat \<times> nat"
    obtain j k where q: "q = (j, k)" by fastforce
    show "q \<in> taken cs' \<longleftrightarrow> q \<in> taken cs \<union> {(i, c), (i, c + 1)}"
    proof (cases "j = i")
      case True
      have "c < 8" "c + 1 < 8" using c by auto
      then show ?thesis using cs' i bit_take_bits [of k c "c_value (cs ! i)"] True by (auto simp: q taken_def)
    next
      case False
      then show ?thesis using cs' by (auto simp: q taken_def)
    qed
  qed
  show "paired cs'"
    unfolding paired_def
  proof (intro allI impI ballI)
    fix j k assume j: "j < length cs'" and k: "k \<in> {0, 2, 4, 6 :: nat}"
    have e: "bit (c_value (cs ! j)) k = bit (c_value (cs ! j)) (k + 1)" using p [unfolded paired_def, rule_format, OF _ k] j cs'(1) by simp
    have "k < 8" "k + 1 < 8" "k \<noteq> c + 1" "k + 1 \<noteq> c" "k + 1 = c + 1 \<longleftrightarrow> k = c" using k c by auto
    then show "bit (c_value (cs' ! j)) k = bit (c_value (cs' ! j)) (k + 1)"
      using e j cs' by (cases "j = i") (simp_all add: bit_take_bits)
  qed
qed

lemma find_bit_spec:
  "find_bit cs alg f is = Inr (Some (i, c)) \<Longrightarrow>
   i \<in> set is \<and> i < length cs \<and> c_value (cs ! i) \<noteq> 0xFF \<and> c = lowest_clear (c_value (cs ! i)) \<and> (f = - 1 \<or> f = int c) \<and> c_bitcell (cs ! i)"
  by (induction cs alg f "is" rule: find_bit.induct) (auto simp: Let_def split: if_splits)

lemma find_empty_spec: "find_empty cs is = Inr i \<Longrightarrow> i \<in> set is \<and> i < length cs \<and> c_value (cs ! i) = 0"
  by (induction cs "is" rule: find_empty.induct) (auto split: if_splits)

text \<open>Placing a discrete variable at bit \<open>c\<close> of cell \<open>i\<close>.\<close>

lemma place_bit_ok:
  assumes ok: "manager_ok released m" and x: "v_status (nodes_of m x) = not_loaded" "IsBit (v_type (nodes_of m x))"
    and i: "user_ram_begin m \<le> i" "i \<le> user_ram_end m" and c: "c \<in> {0, 2, 4, 6}" and free: "\<not> bit (c_value (sram m ! i)) c"
    and cs: "length cs = length (sram m)" "\<And>j. j < length cs \<Longrightarrow> c_value (cs ! j) = c_value (sram m ! j)"
  shows "manager_ok released (l_allocated x (place_bit x i c (m\<lparr>sram := cs\<rparr>)))"
proof -
  let ?m' = "l_allocated x (place_bit x i c (m\<lparr>sram := cs\<rparr>))"
  let ?v = "(SetBit c ((nodes_of m x)\<lparr>v_addr := i\<rparr>))\<lparr>v_status := allocated\<rparr>"
  have il: "i < length (sram m)" using i(2) ok by (simp add: manager_ok_def)
  have s: "sram ?m' = put_value i (take_bits c (c_value (cs ! i))) cs" by (simp add: place_bit_def)
  have v: "length (sram ?m') = length (sram m)"
    "\<And>j. j < length (sram m) \<Longrightarrow> c_value (sram ?m' ! j) = (if j = i then take_bits c (c_value (sram m ! i)) else c_value (sram m ! j))"
    unfolding s using cs il by (simp_all add: nth_put_value)
  have p: "paired (sram m)" using ok by (simp add: manager_ok_def memory_ok_def)
  note t = taken_pair [OF il c p free v]
  have "c < 8" using c by auto
  have "IsBit (v_type ?v)" "GetBit (v_type ?v) = c" "v_addr ?v = i"
    using SetBit_type [OF \<open>c < 8\<close>, of "(nodes_of m x)\<lparr>v_addr := i\<rparr>"] x(2) by (simp_all add: SetBit_def)
  then have f: "foot ?v = {(i, c), (i, c + 1)}" by (simp add: foot_def)
  have "memory_ok released ?m'"
  proof (rule memory_ok_add [where m = m and x = x and v = ?v])
    show "memory_ok released m" using ok by (simp add: manager_ok_def)
    show "nodes_of ?m' = (nodes_of m)(x := ?v)" by (simp add: place_bit_def fun_eq_iff)
    show "foot ?v \<subseteq> {user_ram_begin m .. user_ram_end m} \<times> {..< 8}" unfolding f using i c by auto
  qed (use x t f in \<open>auto simp: place_bit_def\<close>)
  then show ?thesis using v(1) ok by (simp add: manager_ok_def place_bit_def)
qed

text \<open>What a successful allocation did: a pair of bits in one cell, or a run of cells.\<close>

lemma AllocateMemory_cases:
  assumes p: "paired (sram m)" and r: "AllocateMemory x f m = Inr m'" and f: "f = - 1 \<or> f \<in> {0, 2, 4, 6}"
    and nl: "v_status (nodes_of m x) = not_loaded"
  obtains (bits) i c cs where "IsBit (v_type (nodes_of m x))" "user_ram_begin m \<le> i" "i \<le> user_ram_end m" "i < length (sram m)"
      "c \<in> {0, 2, 4, 6}" "\<not> bit (c_value (sram m ! i)) c" "length cs = length (sram m)"
      "\<And>j. j < length cs \<Longrightarrow> c_value (cs ! j) = c_value (sram m ! j) \<and> c_bitcell (cs ! j) = (c_bitcell (sram m ! j) \<or> j = i)"
      "c_bitcell (sram m ! i) \<or> c_value (sram m ! i) = 0" "m' = l_allocated x (place_bit x i c (m\<lparr>sram := cs\<rparr>))"
    | (bytes) addr cs where "\<not> IsBit (v_type (nodes_of m x))" "0 < byte_size (nodes_of m x)"
      "FindFreeSpace (v_alg (nodes_of m x)) (byte_size (nodes_of m x)) (user_ram_begin m) (user_ram_end m) (sram m) = Inr (addr, cs)"
      "m' = l_allocated x (update_node x (\<lambda>v. v\<lparr>v_addr := addr\<rparr>) (m\<lparr>sram := cs\<rparr>))"
proof (cases "IsBit (v_type (nodes_of m x))")
  case bit: True
  let ?v = "nodes_of m x" and ?cells = "[user_ram_begin m ..< user_ram_end m + 1]"
  obtain res where res: "find_bit (sram m) (v_alg ?v) f ?cells = Inr res"
    using r nl bit by (cases "find_bit (sram m) (v_alg ?v) f ?cells") (auto simp: AllocateMemory_def Let_def)
  show thesis
  proof (cases res)
    case (Some ic)
    obtain i c where ic: "ic = (i, c)" by (cases ic)
    have s: "i \<in> set ?cells" "i < length (sram m)" "c_value (sram m ! i) \<noteq> 0xFF" "c = lowest_clear (c_value (sram m ! i))" "c_bitcell (sram m ! i)"
      using find_bit_spec [of "sram m" "v_alg ?v" f ?cells i c] res by (simp_all only: Some ic) auto
    have c: "c \<in> {0, 2, 4, 6}" using lowest_clear_even [OF s(3)] p s(2,4) by (simp add: paired_def)
    have "m' = l_allocated x (place_bit x i c (m\<lparr>sram := sram m\<rparr>))"
      using r nl bit res c by (auto simp: AllocateMemory_def Let_def Some ic split: if_splits)
    then show thesis by (rule bits [OF bit _ _ s(2) c, rotated 6]) (use s lowest_clear_spec(2) [OF s(3)] in auto)
  next
    case None
    let ?c = "if f \<noteq> - 1 then nat f else 0"
    obtain i where i: "find_empty (sram m) ?cells = Inr i"
      using r nl bit res by (cases "find_empty (sram m) ?cells") (auto simp: AllocateMemory_def Let_def None)
    let ?cs = "(sram m)[i := (sram m ! i)\<lparr>c_alg_id := v_alg ?v, c_bitcell := True\<rparr>]"
    have s: "i \<in> set ?cells" "i < length (sram m)" "c_value (sram m ! i) = 0" using find_empty_spec [OF i] by auto
    have m': "m' = l_allocated x (place_bit x i ?c (m\<lparr>sram := ?cs\<rparr>))"
      using r nl bit res i by (simp add: AllocateMemory_def Let_def None del: upt_Suc)
    have c: "?c \<in> {0, 2, 4, 6}" using f by auto
    show thesis by (rule bits [OF bit _ _ s(2) c _ _ _ _ m']) (use s in \<open>auto simp: nth_list_update\<close>)
  qed
next
  case byte: False
  obtain addr cs where fr: "FindFreeSpace (v_alg (nodes_of m x)) (byte_size (nodes_of m x)) (user_ram_begin m) (user_ram_end m) (sram m) = Inr (addr, cs)"
    and m': "m' = l_allocated x (update_node x (\<lambda>v. v\<lparr>v_addr := addr\<rparr>) (m\<lparr>sram := cs\<rparr>))"
    using r nl byte by (auto simp: AllocateMemory_def Let_def mapE_Inr_iff)
  have sz: "0 < byte_size (nodes_of m x)" using fr zero_run by (cases "byte_size (nodes_of m x)") auto
  show thesis by (rule bytes [OF byte sz fr m'])
qed

lemma AllocateMemory_ok:
  assumes ok: "manager_ok released m" and r: "AllocateMemory x f m = Inr m'" and f: "f = - 1 \<or> f \<in> {0, 2, 4, 6}"
  shows "manager_ok released m'"
proof (cases "v_status (nodes_of m x) = not_loaded")
  case False
  then show ?thesis using ok r by (simp add: AllocateMemory_def Let_def)
next
  case nl: True
  have p: "paired (sram m)" and e: "user_ram_end m < length (sram m)" using ok by (simp_all add: manager_ok_def memory_ok_def)
  let ?v = "nodes_of m x"
  from p r f nl show ?thesis
  proof (cases rule: AllocateMemory_cases)
    case (bits i c cs)
    then show ?thesis using place_bit_ok [OF ok nl bits(1-3,5-7)] by simp
  next
    case (bytes addr cs)
    have e': "user_ram_end m \<le> length (sram m)" using e by simp
    note s = find_free_spec [OF bytes(3,2) e'] and t = find_free_taken [OF bytes(3,2) e' p]
    let ?w = "?v\<lparr>v_addr := addr, v_status := allocated\<rparr>"
    have ft: "foot ?w = {addr ..< addr + byte_size ?v} \<times> {..< 8}" using bytes(1) by (simp add: foot_def byte_size_def)
    have "memory_ok released m'"
    proof (rule memory_ok_add [where m = m and x = x and v = ?w])
      show "memory_ok released m" using ok by (simp add: manager_ok_def)
      show "nodes_of m' = (nodes_of m)(x := ?w)" by (simp add: bytes(4) fun_eq_iff)
      show "foot ?w \<subseteq> {user_ram_begin m .. user_ram_end m} \<times> {..< 8}" unfolding ft using s(1,2) by auto
    qed (use nl t ft in \<open>auto simp: bytes(4)\<close>)
    then show ?thesis using s(3) e by (simp add: manager_ok_def bytes(4))
  qed
qed

text \<open>A container: its variables lie one behind the other in a block that is already marked.\<close>

lemma place_one_ok:
  fixes x a m
  defines "m' \<equiv> l_allocated x (update_node x (\<lambda>v. v\<lparr>v_addr := a\<rparr>) m)"
    and "w \<equiv> (nodes_of m x)\<lparr>v_addr := a, v_status := allocated\<rparr>"
  assumes "manager_ok released m" "v_status (nodes_of m x) = not_loaded"
    and "foot w \<subseteq> taken (sram m)" "\<forall>y \<in> live released m. foot w \<inter> foot (nodes_of m y) = {}"
    and "foot w \<subseteq> {user_ram_begin m .. user_ram_end m} \<times> {..< 8}"
  shows "manager_ok released m'" "nodes_of m' = (nodes_of m)(x := w)" "live released m' \<subseteq> insert x (live released m)"
    "sram m' = sram m" "user_ram_begin m' = user_ram_begin m" "user_ram_end m' = user_ram_end m"
proof -
  show nm: "nodes_of m' = (nodes_of m)(x := w)" by (simp add: m'_def w_def)
  show sr: "sram m' = sram m" "user_ram_begin m' = user_ram_begin m" "user_ram_end m' = user_ram_end m" by (simp_all add: m'_def)
  show "live released m' \<subseteq> insert x (live released m)" by (auto simp: live_def m'_def)
  have "memory_ok released m'"
  proof (rule memory_ok_place [where m = m and x = x and v = w])
    show "memory_ok released m" "paired (sram m')" using assms(3) by (simp_all add: manager_ok_def memory_ok_def sr)
    show "taken (sram m) \<subseteq> taken (sram m')" "foot w \<subseteq> taken (sram m')" using assms(5) by (simp_all add: sr)
    show "dev_allocated_vars m' = dev_allocated_vars m @ [x]" "allocated_vars m' = allocated_vars m @ [x]" by (simp_all add: m'_def)
  qed (rule assms nm sr)+
  then show "manager_ok released m'" using assms(3) by (simp add: manager_ok_def sr)
qed

definition block_of :: "nat \<Rightarrow> nat \<Rightarrow> (nat \<times> nat) set" where
  "block_of a n = {a ..< a + n} \<times> {..< 8}"

lemma block_of_split: "block_of a (n + k) = block_of a n \<union> block_of (a + n) k" "block_of a n \<inter> block_of (a + n) k = {}"
  by (auto simp: block_of_def)

lemma foot_bytes: "\<not> IsBit (v_type v) \<Longrightarrow> foot (v\<lparr>v_addr := a, v_status := s\<rparr>) = block_of a (byte_size v)"
  by (simp add: foot_def byte_size_def block_of_def)

lemma place_all_ok:
  assumes "manager_ok released m" "distinct xs" "\<forall>x \<in> set xs. v_status (nodes_of m x) = not_loaded \<and> \<not> IsBit (v_type (nodes_of m x))"
    and "block_of a (VarByteSize xs (nodes_of m)) \<subseteq> taken (sram m)"
    and "\<forall>y \<in> live released m. block_of a (VarByteSize xs (nodes_of m)) \<inter> foot (nodes_of m y) = {}"
    and "block_of a (VarByteSize xs (nodes_of m)) \<subseteq> {user_ram_begin m .. user_ram_end m} \<times> {..< 8}"
  shows "manager_ok released (place_all xs a m)"
  using assms
proof (induction xs arbitrary: a m)
  case (Cons x xs)
  define v where "v = nodes_of m x"
  define n where "n = VarByteSize xs (nodes_of m)"
  define w where "w = v\<lparr>v_addr := a, v_status := allocated\<rparr>"
  define m' where "m' = l_allocated x (update_node x (\<lambda>v. v\<lparr>v_addr := a\<rparr>) m)"
  have sz: "VarByteSize (x # xs) (nodes_of m) = byte_size v + n" by (simp add: VarByteSize_def v_def n_def)
  note prems = Cons.prems(4-6) [unfolded sz block_of_split]
  have x: "v_status (nodes_of m x) = not_loaded" "\<not> IsBit (v_type v)" using Cons.prems(3) by (auto simp: v_def)
  have f: "foot w = block_of a (byte_size v)" unfolding w_def by (rule foot_bytes [OF x(2)])
  have t: "foot w \<subseteq> taken (sram m)" "\<forall>y \<in> live released m. foot w \<inter> foot (nodes_of m y) = {}"
    "foot w \<subseteq> {user_ram_begin m .. user_ram_end m} \<times> {..< 8}"
    using prems unfolding f by (blast+)
  note p = place_one_ok [OF Cons.prems(1) x(1), where a = a, folded m'_def v_def, folded w_def, OF t]
  have rest: "VarByteSize xs (nodes_of m') = n"
    unfolding p(2) n_def VarByteSize_def by (intro arg_cong [where f = sum_list] map_cong) (use Cons.prems(2) in auto)
  have "manager_ok released (place_all xs (a + byte_size v) m')"
  proof (rule Cons.IH [OF p(1)])
    show "\<forall>y \<in> set xs. v_status (nodes_of m' y) = not_loaded \<and> \<not> IsBit (v_type (nodes_of m' y))"
      using Cons.prems(2,3) unfolding p(2) by auto
    show "\<forall>y \<in> live released m'. block_of (a + byte_size v) (VarByteSize xs (nodes_of m')) \<inter> foot (nodes_of m' y) = {}"
    proof
      fix y assume y: "y \<in> live released m'"
      show "block_of (a + byte_size v) (VarByteSize xs (nodes_of m')) \<inter> foot (nodes_of m' y) = {}"
      proof (cases "y = x")
        case True
        then show ?thesis unfolding rest p(2) True fun_upd_same f by (subst Int_commute) (rule block_of_split(2))
      next
        case False
        then have "y \<in> live released m" "nodes_of m' y = nodes_of m y" using y p(3) unfolding p(2) by auto
        then show ?thesis using prems(2) unfolding rest by fastforce
      qed
    qed
  qed (use Cons.prems(2) prems in \<open>auto simp: rest p(4-6)\<close>)
  then show ?case by (simp add: m'_def v_def)
qed simp

lemma AllocateContainer_ok:
  assumes ok: "manager_ok released m" and r: "AllocateContainer xs m = Inr m'"
    and xs: "distinct xs" "\<forall>x \<in> set xs. v_status (nodes_of m x) = not_loaded \<and> \<not> IsBit (v_type (nodes_of m x))"
  shows "manager_ok released m'"
proof (cases "xs = []")
  case True
  then show ?thesis using ok r by (simp add: AllocateContainer_def)
next
  case False
  let ?n = "VarByteSize xs (nodes_of m)" and ?alg = "v_alg (nodes_of m (hd xs))"
  have "v_status (nodes_of m (hd xs)) = not_loaded" using xs(2) False by simp
  then obtain a cs where fr: "FindFreeSpace ?alg ?n (user_ram_begin m) (user_ram_end m) (sram m) = Inr (a, cs)"
    and m': "m' = place_all xs a (m\<lparr>sram := cs\<rparr>)"
    using r False by (auto simp: AllocateContainer_def mapE_Inr_iff)
  have sz: "0 < ?n" using fr zero_run by (cases ?n) auto
  have p: "paired (sram m)" and e: "user_ram_end m < length (sram m)" using ok by (simp_all add: manager_ok_def memory_ok_def)
  then have e': "user_ram_end m \<le> length (sram m)" by simp
  note s = find_free_spec [OF fr sz e'] and t = find_free_taken [OF fr sz e' p]
  have lv: "live released (m\<lparr>sram := cs\<rparr>) = live released m" by (simp add: live_def)
  have "memory_ok released (m\<lparr>sram := cs\<rparr>)" using ok t(1,3) unfolding manager_ok_def memory_ok_def lv by auto
  then have ok': "manager_ok released (m\<lparr>sram := cs\<rparr>)" using s(3) e by (simp add: manager_ok_def)
  let ?m = "m\<lparr>sram := cs\<rparr>"
  show ?thesis unfolding m'
  proof (rule place_all_ok [OF ok' xs(1)])
    show "\<forall>x \<in> set xs. v_status (nodes_of ?m x) = not_loaded \<and> \<not> IsBit (v_type (nodes_of ?m x))" using xs(2) by simp
    show "\<forall>y \<in> live released ?m. block_of a (VarByteSize xs (nodes_of ?m)) \<inter> foot (nodes_of ?m y) = {}"
      unfolding lv block_of_def using t(2) ok by (auto simp: manager_ok_def memory_ok_def)
    show "block_of a (VarByteSize xs (nodes_of ?m)) \<subseteq> taken (sram ?m)" using t(1) by (simp add: block_of_def)
    show "block_of a (VarByteSize xs (nodes_of ?m)) \<subseteq> {user_ram_begin ?m .. user_ram_end ?m} \<times> {..< 8}"
      unfolding block_of_def using s(1,2) by auto
  qed
qed

text \<open>\<open>Commit\<close> changes the status of variables that are allocated.\<close>

lemma status_ok:
  assumes "manager_ok released m" "v_status (nodes_of m x) \<noteq> not_loaded" "s \<noteq> not_loaded"
  shows "manager_ok released (update_node x (\<lambda>v. v\<lparr>v_status := s\<rparr>) m)"
proof -
  have f: "foot ((nodes_of m x)\<lparr>v_status := s\<rparr>) = foot (nodes_of m x)" by (simp add: foot_def byte_size_def)
  have l: "live released (update_node x (\<lambda>v. v\<lparr>v_status := s\<rparr>) m) = live released m" using assms(2,3) by (auto simp: live_def)
  have "foot (nodes_of (update_node x (\<lambda>v. v\<lparr>v_status := s\<rparr>) m) y) = foot (nodes_of m y)" for y using f by simp
  then show ?thesis using assms(1) unfolding manager_ok_def memory_ok_def separate_def l by simp
qed

lemma each_invariant:
  assumes "each f xs s = Inr s'" "P s" "\<And>x s s'. f x s = Inr s' \<Longrightarrow> P s \<Longrightarrow> P s'"
  shows "P s'"
  using assms(1,2)
proof (induction xs arbitrary: s)
  case (Cons x xs)
  then obtain t where "f x s = Inr t" "each f xs t = Inr s'" by (auto simp: bindE_Inr_iff)
  then show ?case using Cons.IH Cons.prems(2) assms(3) by blast
qed simp

lemma commit_status_loaded: "commit_status s = Some t \<Longrightarrow> s \<noteq> not_loaded \<and> t \<noteq> not_loaded"
  by (auto simp: commit_status_def split: if_splits)

lemma CommitMemory_ok:
  assumes "manager_ok released m" "CommitMemory m = Inr m'"
  shows "manager_ok released m'"
  by (rule each_invariant [OF assms(2) [unfolded CommitMemory_def], where P = "manager_ok released"])
    (use assms(1) in \<open>auto split: option.splits dest!: commit_status_loaded intro: status_ok\<close>)

section \<open>The table from the loaded variables\<close>

text \<open>A loaded discrete variable has an even bit.\<close>

definition loadable :: "variable \<Rightarrow> bool" where
  "loadable v \<longleftrightarrow> (v_status v \<noteq> not_loaded \<and> IsBit (v_type v) \<longrightarrow> GetBit (v_type v) \<in> {0, 2, 4, 6})"

definition marks_more :: "memcell list \<Rightarrow> memcell list \<Rightarrow> bool" where
  "marks_more cs cs' \<longleftrightarrow> paired cs' \<and> length cs' = length cs \<and> taken cs \<subseteq> taken cs' \<and>
     (\<forall>i < length cs'. c_bitcell (cs' ! i) \<longrightarrow> c_value (cs' ! i) \<noteq> 0)"

lemma two_bits: "v OR push_bit c 1 OR push_bit c 2 = take_bits c (v :: u8)"
proof -
  have "(3 :: u8) = 1 OR 2" by simp
  then show ?thesis unfolding take_bits_def by (simp only: push_bit_or or.assoc)
qed

lemma taken_mono:
  assumes "length cs' = length cs" "\<And>j k. j < length cs \<Longrightarrow> k < 8 \<Longrightarrow> bit (c_value (cs ! j)) k \<Longrightarrow> bit (c_value (cs' ! j)) k"
  shows "taken cs \<subseteq> taken cs'"
  using assms by (auto simp: taken_def)

lemma nonzero_bit: "bit (v :: u8) k \<Longrightarrow> v \<noteq> 0"
  by auto

lemma fill_bytes_ok:
  assumes "each (fill_bytes alg) [a ..< b] cs = Inr cs'" "marks_more cs0 cs"
  shows "marks_more cs0 cs' \<and> taken cs \<subseteq> taken cs' \<and> {a ..< b} \<times> {..< 8} \<subseteq> taken cs'"
  using assms
proof (induction "b - a" arbitrary: a cs)
  case (Suc n)
  have u: "[a ..< b] = a # [Suc a ..< b]" using Suc.hyps(2) by (simp add: upt_conv_Cons)
  let ?cs = "cs[a := (cs ! a)\<lparr>c_alg_id := alg, c_value := 0xFF\<rparr>]"
  have a: "a < length cs" and r: "each (fill_bytes alg) [Suc a ..< b] ?cs = Inr cs'"
    using Suc.prems(1) by (auto simp: u fill_bytes_def split: if_splits)
  have v: "c_value (?cs ! j) = (if j = a then 0xFF else c_value (cs ! j))" if "j < length cs" for j using that a by (simp add: nth_list_update)
  have m: "taken cs \<subseteq> taken ?cs" 
  proof (rule taken_mono)
    fix j k assume "j < length cs" "k < (8 :: nat)" "bit (c_value (cs ! j)) k"
    then show "bit (c_value (?cs ! j)) k" unfolding v [OF \<open>j < length cs\<close>] using bit_FF [of k] by (cases "j = a") (simp_all only: if_True if_False simp_thms)
  qed simp
  have va: "bit (c_value (?cs ! a)) k" if "k < 8" for k unfolding v [OF a] using bit_FF [of k] that by (simp only: if_True simp_thms)
  then have ta: "{a} \<times> {..< 8} \<subseteq> taken ?cs" using a by (auto simp: taken_def)
  have "paired ?cs"
    unfolding paired_def
  proof (intro allI impI ballI)
    fix j k assume j: "j < length ?cs" and k: "k \<in> {0, 2, 4, 6 :: nat}"
    have "k < 8" "k + 1 < 8" using k by auto
    then show "bit (c_value (?cs ! j)) k = bit (c_value (?cs ! j)) (k + 1)"
      using va Suc.prems(2) [unfolded marks_more_def paired_def] j k by (cases "j = a") auto
  qed
  then have g: "marks_more cs0 ?cs" using Suc.prems(2) m a unfolding marks_more_def by (auto simp: nth_list_update)
  have "marks_more cs0 cs' \<and> taken ?cs \<subseteq> taken cs' \<and> {Suc a ..< b} \<times> {..< 8} \<subseteq> taken cs'"
    by (rule Suc.hyps(1)) (use Suc.hyps(2) r g in auto)
  moreover have "{a ..< b} = insert a {Suc a ..< b}" using Suc.hyps(2) by auto
  ultimately show ?case using m ta by (auto 0 3)
qed simp

lemma fill_ok:
  assumes r: "fill v cs = Inr cs'" and g: "marks_more cs0 cs" and l: "loadable v"
  shows "marks_more cs0 cs' \<and> taken cs \<subseteq> taken cs' \<and> (v_status v \<noteq> not_loaded \<longrightarrow> foot v \<subseteq> taken cs')"
proof (cases "v_status v = not_loaded")
  case True
  then show ?thesis using r g by (simp add: fill_def)
next
  case ld: False
  show ?thesis
  proof (cases "IsBit (v_type v)")
    case False
    then have "each (fill_bytes (v_alg v)) [v_addr v ..< v_addr v + GetSize (v_type v) + 1] cs = Inr cs'"
      using r ld by (simp add: fill_def del: upt_Suc)
    note f = fill_bytes_ok [OF this g]
    have "foot v \<subseteq> {v_addr v ..< v_addr v + GetSize (v_type v) + 1} \<times> {..< 8}"
      using False by (auto simp: foot_def byte_size_def split: if_splits)
    then show ?thesis using f by blast
  next
    case True
    let ?b = "GetBit (v_type v)" and ?i = "v_addr v"
    have b: "?b \<in> {0, 2, 4, 6}" using l ld True by (simp add: loadable_def)
    have i: "?i < length cs" and cs': "cs' = cs[?i := (cs ! ?i)\<lparr>c_alg_id := v_alg v, c_value := take_bits ?b (c_value (cs ! ?i)), c_bitcell := True\<rparr>]"
      using r ld True unfolding fill_def two_bits by (auto split: if_splits)
    have v: "c_value (cs' ! j) = (if j = ?i then take_bits ?b (c_value (cs ! ?i)) else c_value (cs ! j))" if "j < length cs" for j
      using that i by (simp add: cs' nth_list_update)
    have m: "taken cs \<subseteq> taken cs'" by (rule taken_mono) (use v in \<open>auto simp: bit_take_bits cs'\<close>)
    have b8: "?b < 8" "?b + 1 < 8" using b by auto
    have f: "foot v \<subseteq> taken cs'" using True i v [OF i] b8 by (auto simp: foot_def taken_def bit_take_bits cs')
    have "paired cs'"
      unfolding paired_def
    proof (intro allI impI ballI)
      fix j k assume j: "j < length cs'" and k: "k \<in> {0, 2, 4, 6 :: nat}"
      have e: "bit (c_value (cs ! j)) k = bit (c_value (cs ! j)) (k + 1)"
        using g [unfolded marks_more_def paired_def] j k by (auto simp: cs')
      have "k < 8" "k + 1 < 8" "k \<noteq> ?b + 1" "k + 1 \<noteq> ?b" "k + 1 = ?b + 1 \<longleftrightarrow> k = ?b" using k b by auto
      moreover have "j < length cs" using j by (simp add: cs')
      ultimately show "bit (c_value (cs' ! j)) k = bit (c_value (cs' ! j)) (k + 1)"
        using e v [of j] by (cases "j = ?i") (simp_all add: bit_take_bits)
    qed
    moreover have "take_bits ?b (c_value (cs ! ?i)) \<noteq> 0" by (rule nonzero_bit [of _ ?b]) (use b8 in \<open>simp add: bit_take_bits\<close>)
    moreover have "length cs' = length cs" by (simp add: cs')
    ultimately have "marks_more cs0 cs'" using g m v unfolding marks_more_def by (auto simp: cs' nth_list_update)
    then show ?thesis using m f by blast
  qed
qed

lemma fill_all_ok:
  assumes "each (\<lambda>x. fill (store x)) xs cs = Inr cs'" "marks_more cs0 cs" "\<forall>x \<in> set xs. loadable (store x)"
  shows "marks_more cs0 cs' \<and> taken cs \<subseteq> taken cs' \<and> (\<forall>x \<in> set xs. v_status (store x) \<noteq> not_loaded \<longrightarrow> foot (store x) \<subseteq> taken cs')"
  using assms
proof (induction xs arbitrary: cs)
  case (Cons x xs)
  obtain c1 where c: "fill (store x) cs = Inr c1" and r: "each (\<lambda>x. fill (store x)) xs c1 = Inr cs'"
    using Cons.prems(1) by (auto simp: bindE_Inr_iff)
  have f: "marks_more cs0 c1 \<and> taken cs \<subseteq> taken c1 \<and> (v_status (store x) \<noteq> not_loaded \<longrightarrow> foot (store x) \<subseteq> taken c1)"
    by (rule fill_ok [OF c Cons.prems(2)]) (use Cons.prems(3) in simp)
  have "marks_more cs0 cs' \<and> taken c1 \<subseteq> taken cs' \<and> (\<forall>x \<in> set xs. v_status (store x) \<noteq> not_loaded \<longrightarrow> foot (store x) \<subseteq> taken cs')"
    by (rule Cons.IH [OF r]) (use f Cons.prems(3) in auto)
  then show ?case using f by auto
qed simp

section \<open>Rollback\<close>

text \<open>
  What \<open>Rollback\<close> needs of the variables it frees: a discrete variable lies in a cell of bits, a variable
  of bytes in cells that are not, and a cell of bits is one in which a bit is taken.
\<close>

definition cell_kind :: "memcell list \<Rightarrow> variable \<Rightarrow> bool" where
  "cell_kind cs v \<longleftrightarrow>
     (if IsBit (v_type v) then GetBit (v_type v) \<in> {0, 2, 4, 6} \<and> c_bitcell (cs ! v_addr v)
      else \<forall>i \<in> {v_addr v ..< v_addr v + byte_size v}. \<not> c_bitcell (cs ! i))"

definition cells_used :: "memcell list \<Rightarrow> bool" where
  "cells_used cs \<longleftrightarrow> (\<forall>i < length cs. c_bitcell (cs ! i) \<longrightarrow> c_value (cs ! i) \<noteq> 0)"

definition roll_ok :: "CMemoryManager \<Rightarrow> bool" where
  "roll_ok m \<longleftrightarrow> distinct (allocated_vars m) \<and> set (allocated_vars m) \<subseteq> set (dev_allocated_vars m) \<and> cells_used (sram m) \<and>
     (\<forall>x \<in> set (allocated_vars m). v_status (nodes_of m x) \<noteq> not_loaded \<and> cell_kind (sram m) (nodes_of m x))"

lemma roll_place:
  assumes "roll_ok m" "v_status (nodes_of m x) = not_loaded" "nodes_of m' = (nodes_of m)(x := w)"
    "dev_allocated_vars m' = dev_allocated_vars m @ [x]" "allocated_vars m' = allocated_vars m @ [x]"
    "v_status w \<noteq> not_loaded" "cell_kind (sram m') w" "\<forall>y \<in> set (allocated_vars m). cell_kind (sram m') (nodes_of m y)" "cells_used (sram m')"
  shows "roll_ok m'"
  using assms unfolding roll_ok_def by auto

lemma allocated_foot:
  assumes "manager_ok released m" "roll_ok m" "y \<in> set (allocated_vars m)"
  shows "y \<in> live released m" "foot (nodes_of m y) \<subseteq> taken (sram m)"
    "foot (nodes_of m y) \<subseteq> {user_ram_begin m .. user_ram_end m} \<times> {..< 8}"
  using assms by (auto simp: roll_ok_def manager_ok_def memory_ok_def live_def)

lemma zero_cells:
  assumes "each (\<lambda>i cs. if i < length cs then Inr (put_value i 0 cs) else Inl OutsideRam) [a ..< b] cs = Inr cs'"
  shows "length cs' = length cs \<and> (\<forall>j < length cs. c_value (cs' ! j) = (if a \<le> j \<and> j < b then 0 else c_value (cs ! j)) \<and>
    c_bitcell (cs' ! j) = c_bitcell (cs ! j))"
  using assms
proof (induction "b - a" arbitrary: a cs)
  case (Suc n)
  have u: "[a ..< b] = a # [Suc a ..< b]" using Suc.hyps(2) by (simp add: upt_conv_Cons)
  have a: "a < length cs" and r: "each (\<lambda>i cs. if i < length cs then Inr (put_value i 0 cs) else Inl OutsideRam) [Suc a ..< b] (put_value a 0 cs) = Inr cs'"
    using Suc.prems by (auto simp: u split: if_splits)
  have n: "n = b - Suc a" using Suc.hyps(2) by simp
  have v: "c_value (put_value a 0 cs ! j) = (if j = a then 0 else c_value (cs ! j)) \<and> c_bitcell (put_value a 0 cs ! j) = c_bitcell (cs ! j)" for j
    using a by (simp add: nth_put_value)
  show ?case using Suc.hyps(1) [OF n r] v Suc.hyps(2) by auto
qed auto

lemma bit_clear_pair:
  fixes v :: u8
  shows "k < 8 \<Longrightarrow> bit (v AND NOT (push_bit c 3)) k \<longleftrightarrow> bit v k \<and> k \<noteq> c \<and> k \<noteq> c + 1"
proof -
  assume k: "k < 8"
  have "(3 :: u8) = mask 2" by (simp add: mask_eq_exp_minus_1)
  then have "v AND NOT (push_bit c 3) = v AND NOT (push_bit c (mask 2))" by simp
  then show ?thesis using k by (auto simp: bit_simps)
qed

lemma nonzero_iff: "(v :: u8) \<noteq> 0 \<longleftrightarrow> (\<exists>k < 8. bit v k)"
proof
  assume "v \<noteq> 0"
  then obtain k where "bit v k" by (metis bit_eqI bit_0_eq bot_apply bot_bool_def)
  then show "\<exists>k < 8. bit v k" using bit_imp_le_length [of v k] by auto
qed auto

text \<open>Freeing a variable clears exactly its bits.\<close>

lemma free_variable_ok:
  assumes r: "free_variable v cs = Inr cs'" and k: "cell_kind cs v" and q: "IsBit (v_type v) \<or> IsQuality (v_type v)"
    and p: "paired cs" and u: "cells_used cs"
  shows "length cs' = length cs" "taken cs' = taken cs - foot v" "paired cs'" "cells_used cs'"
    "\<And>j. j < length cs \<Longrightarrow> c_bitcell (cs' ! j) = (c_bitcell (cs ! j) \<and> c_value (cs' ! j) \<noteq> 0)"
proof -
  have a: "v_addr v < length cs" using r by (auto simp: free_variable_def split: if_splits)
  have *: "length cs' = length cs \<and> taken cs' = taken cs - foot v \<and> paired cs' \<and>
    (\<forall>j < length cs. c_bitcell (cs' ! j) = (c_bitcell (cs ! j) \<and> c_value (cs' ! j) \<noteq> 0))"
  proof (cases "IsBit (v_type v)")
    case True
    let ?b = "GetBit (v_type v)"
    have b: "?b \<in> {0, 2, 4, 6}" and bc: "c_bitcell (cs ! v_addr v)" using k True by (auto simp: cell_kind_def)
    have cs': "cs' = cs[v_addr v := (cs ! v_addr v)\<lparr>c_value := c_value (cs ! v_addr v) AND NOT (push_bit ?b 3),
        c_bitcell := (c_value (cs ! v_addr v) AND NOT (push_bit ?b 3) \<noteq> 0)\<rparr>]"
      using r a bc unfolding free_variable_def by (auto simp: Let_def)
    have v: "c_value (cs' ! j) = (if j = v_addr v then c_value (cs ! v_addr v) AND NOT (push_bit ?b 3) else c_value (cs ! j))" if "j < length cs" for j
      using that a by (simp add: cs' nth_list_update)
    have t: "taken cs' = taken cs - foot v"
      using True v by (auto simp: foot_def taken_def bit_clear_pair cs' split: if_splits)
    have "paired cs'"
      unfolding paired_def
    proof (intro allI impI ballI)
      fix j k assume j: "j < length cs'" and k: "k \<in> {0, 2, 4, 6 :: nat}"
      have j': "j < length cs" using j by (simp add: cs')
      have e: "bit (c_value (cs ! j)) k = bit (c_value (cs ! j)) (k + 1)" using p [unfolded paired_def, rule_format, OF j' k] .
      have "k < 8" "k + 1 < 8" "k \<noteq> ?b + 1" "k + 1 \<noteq> ?b" "k + 1 = ?b + 1 \<longleftrightarrow> k = ?b" using k b by auto
      then show "bit (c_value (cs' ! j)) k = bit (c_value (cs' ! j)) (k + 1)"
        using e v [OF j'] by (cases "j = v_addr v") (simp_all only: bit_clear_pair if_True if_False simp_thms)
    qed
    moreover have "c_bitcell (cs' ! j) = (c_bitcell (cs ! j) \<and> c_value (cs' ! j) \<noteq> 0)" if "j < length cs" for j
      using that a bc u by (auto simp: cs' nth_list_update cells_used_def)
    ultimately show ?thesis using t by (simp add: cs')
  next
    case False
    then have q': "byte_size v = GetSize (v_type v) + 1" using q by (simp add: byte_size_def)
    then have nb: "\<forall>i \<in> {v_addr v ..< v_addr v + byte_size v}. \<not> c_bitcell (cs ! i)" "\<not> c_bitcell (cs ! v_addr v)"
      using k False by (auto simp: cell_kind_def)
    have "each (\<lambda>i cs. if i < length cs then Inr (put_value i 0 cs) else Inl OutsideRam) [v_addr v ..< v_addr v + byte_size v] cs = Inr cs'"
      using r a nb(2) unfolding free_variable_def q' by (simp add: Let_def del: upt_Suc)
    note z = zero_cells [OF this]
    have t: "taken cs' = taken cs - foot v" using z False by (auto simp: foot_def taken_def split: if_splits)
    have "paired cs'" using p z by (auto simp: paired_def)
    moreover have "c_bitcell (cs' ! j) = (c_bitcell (cs ! j) \<and> c_value (cs' ! j) \<noteq> 0)" if "j < length cs" for j
      using that z nb(1) u by (auto simp: cells_used_def)
    ultimately show ?thesis using t z by simp
  qed
  then show "length cs' = length cs" "taken cs' = taken cs - foot v" "paired cs'"
    "\<And>j. j < length cs \<Longrightarrow> c_bitcell (cs' ! j) = (c_bitcell (cs ! j) \<and> c_value (cs' ! j) \<noteq> 0)" by auto
  then show "cells_used cs'" by (simp add: cells_used_def)
qed

definition rollable :: "variable \<Rightarrow> bool" where
  "rollable v \<longleftrightarrow> IsBit (v_type v) \<or> IsQuality (v_type v)"

lemma Rollback_one_ok:
  assumes ok: "manager_ok released m" "roll_ok m" and al: "allocated_vars m = xs @ [x]" and q: "rollable (nodes_of m x)"
    and r: "free_variable ((nodes_of m x)\<lparr>v_status := not_loaded\<rparr>) (sram m) = Inr cs"
  defines "m' \<equiv> (update_node x (\<lambda>v. v\<lparr>v_status := not_loaded\<rparr>) (m\<lparr>allocated_vars := xs\<rparr>))\<lparr>sram := cs\<rparr>"
  shows "manager_ok released m'" "roll_ok m'"
proof -
  let ?v = "nodes_of m x"
  let ?w = "?v\<lparr>v_status := not_loaded\<rparr>"
  have x: "x \<in> set (allocated_vars m)" "x \<notin> set xs" "set xs \<subseteq> set (allocated_vars m)" "distinct xs" using ok(2) al by (auto simp: roll_ok_def)
  have fw: "foot ?w = foot ?v" by (simp add: foot_def byte_size_def)
  have kw: "cell_kind (sram m) ?w" using ok(2) x(1) by (auto simp: roll_ok_def cell_kind_def byte_size_def)
  have qw: "IsBit (v_type ?w) \<or> IsQuality (v_type ?w)" using q by (simp add: rollable_def)
  have pu: "paired (sram m)" "cells_used (sram m)" using ok by (simp_all add: roll_ok_def manager_ok_def memory_ok_def)
  note f = free_variable_ok [OF r kw qw pu, unfolded fw]
  have nm: "nodes_of m' = (nodes_of m)(x := ?w)" "sram m' = cs" "allocated_vars m' = xs" "dev_allocated_vars m' = dev_allocated_vars m"
    "user_ram_begin m' = user_ram_begin m" "user_ram_end m' = user_ram_end m" by (simp_all add: m'_def)
  have lv: "live released m' = live released m - {x}" by (auto simp: live_def nm)
  note ax = allocated_foot [OF ok x(1)]
  have sep: "foot (nodes_of m y) \<inter> foot ?v = {}" if "y \<in> live released m" "y \<noteq> x" for y
    using ok(1) ax(1) that by (auto simp: manager_ok_def memory_ok_def separate_def)
  have ft: "foot (nodes_of m y) \<subseteq> taken cs" if "y \<in> live released m" "y \<noteq> x" for y
    using sep [OF that] that(1) ok(1) unfolding f(2) by (auto simp: manager_ok_def memory_ok_def)
  have "memory_ok released m'"
    unfolding memory_ok_def
  proof (intro conjI ballI)
    show "paired (sram m')" using f(3) by (simp add: nm)
    show "separate (live released m') (nodes_of m')" using ok(1) unfolding lv nm(1) separate_def manager_ok_def memory_ok_def by auto
    show "foot (nodes_of m' y) \<subseteq> taken (sram m')" if "y \<in> live released m'" for y using that ft [of y] by (auto simp: lv nm)
    show "foot (nodes_of m' y) \<subseteq> {user_ram_begin m'..user_ram_end m'} \<times> {..< 8}" if "y \<in> set (allocated_vars m')" for y
      using that x(2,3) allocated_foot(3) [OF ok, of y] by (auto simp: nm)
  qed
  then show "manager_ok released m'" using ok(1) f(1) by (simp add: manager_ok_def nm)
  have "cell_kind cs (nodes_of m y)" if "y \<in> set xs" for y
  proof -
    have y: "y \<in> set (allocated_vars m)" "y \<noteq> x" using that x by auto
    have k: "cell_kind (sram m) (nodes_of m y)" using ok(2) y(1) by (simp add: roll_ok_def)
    note t = ft [OF allocated_foot(1) [OF ok y(1)] y(2)]
    show ?thesis
    proof (cases "IsBit (v_type (nodes_of m y))")
      case True
      then have "(v_addr (nodes_of m y), GetBit (v_type (nodes_of m y))) \<in> taken cs" using t by (auto simp: foot_def)
      then have "v_addr (nodes_of m y) < length cs" "c_value (cs ! v_addr (nodes_of m y)) \<noteq> 0" by (auto simp: taken_def)
      then show ?thesis using k True f(1,5) by (simp add: cell_kind_def)
    next
      case False
      have "i < length cs" if "i \<in> {v_addr (nodes_of m y) ..< v_addr (nodes_of m y) + byte_size (nodes_of m y)}" for i

      proof -
        have "(i, 0) \<in> foot (nodes_of m y)" using that False by (simp add: foot_def)
        then show ?thesis using t by (auto simp: taken_def)
      qed
      then show ?thesis using k False f(1,5) by (auto simp: cell_kind_def)
    qed
  qed
  then show "roll_ok m'" using ok(2) x f(4) by (auto simp: roll_ok_def nm)
qed

lemma Rollback_ok:
  assumes "manager_ok released m" "roll_ok m" "\<forall>x \<in> set (allocated_vars m). rollable (nodes_of m x)" "Rollback n m = Inr m'"
  shows "manager_ok released m' \<and> roll_ok m'"
  using assms
proof (induction n arbitrary: m)
  case (Suc n)
  obtain xs x where al: "allocated_vars m = xs @ [x]" using Suc.prems(4) by (cases "allocated_vars m" rule: rev_cases) auto
  let ?u = "update_node x (\<lambda>v. v\<lparr>v_status := not_loaded\<rparr>) (m\<lparr>allocated_vars := xs\<rparr>)"
  obtain cs where f: "free_variable ((nodes_of m x)\<lparr>v_status := not_loaded\<rparr>) (sram m) = Inr cs" and r: "Rollback n (?u\<lparr>sram := cs\<rparr>) = Inr m'"
    using Suc.prems(4) al by (auto simp: Let_def bindE_Inr_iff)
  have "rollable (nodes_of m x)" using Suc.prems(3) al by simp
  note o = Rollback_one_ok [OF Suc.prems(1,2) al this f]
  have "\<forall>y \<in> set (allocated_vars (?u\<lparr>sram := cs\<rparr>)). rollable (nodes_of (?u\<lparr>sram := cs\<rparr>) y)"
    using Suc.prems(3) al by (auto simp: rollable_def)
  then show ?case using Suc.IH [OF o _ r] by simp
qed simp

section \<open>Allocation keeps the cells fit for a rollback\<close>

lemma foot_in_cells:
  assumes "foot v \<subseteq> taken cs"
  shows "IsBit (v_type v) \<Longrightarrow> v_addr v < length cs \<and> c_value (cs ! v_addr v) \<noteq> 0"
    "\<not> IsBit (v_type v) \<Longrightarrow> i \<in> {v_addr v ..< v_addr v + byte_size v} \<Longrightarrow> i < length cs \<and> c_value (cs ! i) \<noteq> 0"
proof -
  assume "IsBit (v_type v)"
  then have "(v_addr v, GetBit (v_type v)) \<in> taken cs" using assms by (auto simp: foot_def)
  then show "v_addr v < length cs \<and> c_value (cs ! v_addr v) \<noteq> 0" by (auto simp: taken_def)
next
  assume "\<not> IsBit (v_type v)" "i \<in> {v_addr v ..< v_addr v + byte_size v}"
  then have "(i, 0) \<in> foot v" by (simp add: foot_def)
  then show "i < length cs \<and> c_value (cs ! i) \<noteq> 0" using assms by (auto simp: taken_def)
qed

lemma AllocateMemory_roll:
  assumes ok: "manager_ok released m" "roll_ok m" and r: "AllocateMemory x f m = Inr m'" and f: "f = - 1 \<or> f \<in> {0, 2, 4, 6}"
  shows "roll_ok m'"
proof (cases "v_status (nodes_of m x) = not_loaded")
  case False
  then show ?thesis using ok r by (simp add: AllocateMemory_def Let_def)
next
  case nl: True
  have p: "paired (sram m)" and e: "user_ram_end m \<le> length (sram m)" and u: "cells_used (sram m)"
    using ok by (simp_all add: manager_ok_def memory_ok_def roll_ok_def)
  let ?v = "nodes_of m x"
  have k: "cell_kind (sram m) (nodes_of m y)" "foot (nodes_of m y) \<subseteq> taken (sram m)" if "y \<in> set (allocated_vars m)" for y
    using that ok(2) allocated_foot(2) [OF ok that] by (simp_all add: roll_ok_def)
  from p r f nl show ?thesis
  proof (cases rule: AllocateMemory_cases)
    case (bits i c cs)
    let ?w = "(SetBit c (?v\<lparr>v_addr := i\<rparr>))\<lparr>v_status := allocated\<rparr>"
    have c8: "c < 8" using bits(5) by auto
    have sm: "sram m' = put_value i (take_bits c (c_value (cs ! i))) cs" by (simp add: bits(10) place_bit_def)
    have cell: "c_bitcell (sram m' ! j) = (c_bitcell (sram m ! j) \<or> j = i) \<and>
        c_value (sram m' ! j) = (if j = i then take_bits c (c_value (sram m ! i)) else c_value (sram m ! j))" if "j < length (sram m)" for j
      using that bits(4,7,8) by (simp add: sm nth_put_value)
    have tb: "take_bits c (c_value (sram m ! i)) \<noteq> 0" by (rule nonzero_bit [of _ c]) (use c8 in \<open>simp add: bit_take_bits\<close>)
    show ?thesis
    proof (rule roll_place [OF ok(2) nl, of _ ?w])
      show "nodes_of m' = (nodes_of m)(x := ?w)" by (simp add: bits(10) place_bit_def fun_eq_iff)
      show "dev_allocated_vars m' = dev_allocated_vars m @ [x]" "allocated_vars m' = allocated_vars m @ [x]"
        by (simp_all add: bits(10) place_bit_def)
      have "IsBit (v_type ?w)" "GetBit (v_type ?w) = c" "v_addr ?w = i"
        using SetBit_type [OF c8, of "?v\<lparr>v_addr := i\<rparr>"] bits(1) by (simp_all add: SetBit_def)
      then show "cell_kind (sram m') ?w" using bits(5) cell [OF bits(4)] by (simp add: cell_kind_def)
      show "cells_used (sram m')" using u cell tb bits(7) by (auto simp: cells_used_def sm)
      show "\<forall>y \<in> set (allocated_vars m). cell_kind (sram m') (nodes_of m y)"
      proof
        fix y assume y: "y \<in> set (allocated_vars m)"
        note f = foot_in_cells [OF k(2) [OF y]]
        show "cell_kind (sram m') (nodes_of m y)"
        proof (cases "IsBit (v_type (nodes_of m y))")
          case True
          then show ?thesis using k(1) [OF y] f(1) cell by (simp add: cell_kind_def)
        next
          case False
          have "\<not> c_bitcell (sram m' ! j)" if "j \<in> {v_addr (nodes_of m y) ..< v_addr (nodes_of m y) + byte_size (nodes_of m y)}" for j
          proof -
            have "\<not> c_bitcell (sram m ! j)" using k(1) [OF y] False that by (simp add: cell_kind_def)
            then show ?thesis using f(2) [OF False that] bits(9) cell [of j] by auto
          qed
          then show ?thesis using False by (simp add: cell_kind_def)
        qed
      qed
    qed simp
  next
    case (bytes addr cs)
    note s = find_free_spec [OF bytes(3,2) e]
    let ?w = "?v\<lparr>v_addr := addr, v_status := allocated\<rparr>"
    have sm: "sram m' = cs" by (simp add: bytes(4))
    have bs: "byte_size ?w = byte_size ?v" by (simp add: byte_size_def)
    show ?thesis
    proof (rule roll_place [OF ok(2) nl, of _ ?w])
      show "nodes_of m' = (nodes_of m)(x := ?w)" by (simp add: bytes(4) fun_eq_iff)
      show "dev_allocated_vars m' = dev_allocated_vars m @ [x]" "allocated_vars m' = allocated_vars m @ [x]" by (simp_all add: bytes(4))
      have "\<not> c_bitcell (cs ! j)" if "addr \<le> j" "j < addr + byte_size ?v" for j
      proof -
        have "j < length (sram m)" "c_value (sram m ! j) = 0" using s(2,4) that e by auto
        then show ?thesis using s(6) u by (auto simp: cells_used_def)
      qed
      then show "cell_kind (sram m') ?w" using bytes(1) by (auto simp: cell_kind_def sm bs)
      show "cells_used (sram m')" using u s(3,5,6) by (auto simp: cells_used_def sm)
      show "\<forall>y \<in> set (allocated_vars m). cell_kind (sram m') (nodes_of m y)"
        using k foot_in_cells s(6) unfolding sm cell_kind_def by (metis (no_types, lifting))
    qed simp
  qed
qed

lemma cell_kinds_kept:
  assumes "\<And>j. j < length (sram m) \<Longrightarrow> c_bitcell (cs ! j) = c_bitcell (sram m ! j)"
    and "cell_kind (sram m) v" "foot v \<subseteq> taken (sram m)"
  shows "cell_kind cs v"
  using assms foot_in_cells [OF assms(3)] unfolding cell_kind_def by (metis (no_types, lifting))

lemma place_all_roll:
  assumes "roll_ok m" "distinct xs" "\<forall>x \<in> set xs. v_status (nodes_of m x) = not_loaded \<and> \<not> IsBit (v_type (nodes_of m x))"
    and "\<forall>i \<in> {a ..< a + VarByteSize xs (nodes_of m)}. \<not> c_bitcell (sram m ! i)"
  shows "roll_ok (place_all xs a m)"
  using assms
proof (induction xs arbitrary: a m)
  case (Cons x xs)
  define v where "v = nodes_of m x"
  define w where "w = v\<lparr>v_addr := a, v_status := allocated\<rparr>"
  define m' where "m' = l_allocated x (update_node x (\<lambda>v. v\<lparr>v_addr := a\<rparr>) m)"
  have nm: "nodes_of m' = (nodes_of m)(x := w)" "sram m' = sram m" by (simp_all add: m'_def w_def v_def)
  have sz: "VarByteSize (x # xs) (nodes_of m) = byte_size v + VarByteSize xs (nodes_of m)" by (simp add: VarByteSize_def v_def)
  have rest: "VarByteSize xs (nodes_of m') = VarByteSize xs (nodes_of m)"
    unfolding nm VarByteSize_def by (intro arg_cong [where f = sum_list] map_cong) (use Cons.prems(2) in auto)
  have "roll_ok m'"
  proof (rule roll_place [OF Cons.prems(1), where x = x and w = w])
    show "v_status (nodes_of m x) = not_loaded" using Cons.prems(3) by simp
    show "dev_allocated_vars m' = dev_allocated_vars m @ [x]" "allocated_vars m' = allocated_vars m @ [x]" by (simp_all add: m'_def)
    have "\<not> IsBit (v_type v)" using Cons.prems(3) by (simp add: v_def)
    then show "cell_kind (sram m') w" using Cons.prems(4) unfolding sz nm cell_kind_def w_def by (simp add: byte_size_def)
    show "\<forall>y \<in> set (allocated_vars m). cell_kind (sram m') (nodes_of m y)" "cells_used (sram m')"
      using Cons.prems(1) by (simp_all add: roll_ok_def nm)
  qed (simp_all add: nm w_def)
  then have "roll_ok (place_all xs (a + byte_size v) m')"
  proof (rule Cons.IH)
    show "\<forall>x \<in> set xs. v_status (nodes_of m' x) = not_loaded \<and> \<not> IsBit (v_type (nodes_of m' x))" using Cons.prems(2,3) by (auto simp: nm)
    show "\<forall>i \<in> {a + byte_size v ..< a + byte_size v + VarByteSize xs (nodes_of m')}. \<not> c_bitcell (sram m' ! i)"
      unfolding rest nm(2) using Cons.prems(4) unfolding sz by auto
  qed (use Cons.prems(2) in simp)
  then show ?case by (simp add: m'_def v_def)
qed simp

lemma AllocateContainer_roll:
  assumes ok: "manager_ok released m" "roll_ok m" and r: "AllocateContainer xs m = Inr m'"
    and xs: "distinct xs" "\<forall>x \<in> set xs. v_status (nodes_of m x) = not_loaded \<and> \<not> IsBit (v_type (nodes_of m x))"
  shows "roll_ok m'"
proof (cases "xs = []")
  case True
  then show ?thesis using ok r by (simp add: AllocateContainer_def)
next
  case False
  let ?n = "VarByteSize xs (nodes_of m)" and ?alg = "v_alg (nodes_of m (hd xs))"
  have "v_status (nodes_of m (hd xs)) = not_loaded" using xs(2) False by simp
  then obtain a cs where fr: "FindFreeSpace ?alg ?n (user_ram_begin m) (user_ram_end m) (sram m) = Inr (a, cs)"
    and m': "m' = place_all xs a (m\<lparr>sram := cs\<rparr>)"
    using r False by (auto simp: AllocateContainer_def mapE_Inr_iff)
  have sz: "0 < ?n" using fr zero_run by (cases ?n) auto
  have e: "user_ram_end m \<le> length (sram m)" and u: "cells_used (sram m)" using ok by (simp_all add: manager_ok_def roll_ok_def)
  note s = find_free_spec [OF fr sz e]
  have "cell_kind cs (nodes_of m y)" if "y \<in> set (allocated_vars m)" for y
    by (rule cell_kinds_kept [OF s(6)]) (use ok(2) allocated_foot(2) [OF ok that] that in \<open>simp_all add: roll_ok_def\<close>)
  moreover have "cells_used cs" using u s(3,5,6) by (auto simp: cells_used_def)
  ultimately have o: "roll_ok (m\<lparr>sram := cs\<rparr>)" using ok(2) by (simp add: roll_ok_def)
  have "\<not> c_bitcell (cs ! j)" if "a \<le> j" "j < a + ?n" for j
  proof -
    have "j < length (sram m)" "c_value (sram m ! j) = 0" using s(2,4) that e by auto
    then show ?thesis using s(6) u by (auto simp: cells_used_def)
  qed
  then show ?thesis unfolding m' by (intro place_all_roll [OF o xs(1)]) (use xs(2) in auto)
qed

lemma status_roll:
  assumes "roll_ok m" "s \<noteq> not_loaded"
  shows "roll_ok (update_node x (\<lambda>v. v\<lparr>v_status := s\<rparr>) m)"
  using assms by (auto simp: roll_ok_def cell_kind_def byte_size_def)

lemma CommitMemory_roll:
  assumes "roll_ok m" "CommitMemory m = Inr m'"
  shows "roll_ok m'"
  by (rule each_invariant [OF assms(2) [unfolded CommitMemory_def], where P = roll_ok])
    (use assms(1) in \<open>auto split: option.splits dest!: commit_status_loaded intro: status_roll\<close>)

section \<open>Sessions\<close>

text \<open>
  What the configurator does with a manager: it allocates single variables and containers, commits, and
  after a failure rolls back. A rollback step is one in which every variable it can free is discrete or
  has a quality byte.
\<close>

inductive session :: "CMemoryManager \<Rightarrow> CMemoryManager \<Rightarrow> bool" for m0 where
  start: "session m0 m0"
| one: "session m0 m \<Longrightarrow> f = - 1 \<or> f \<in> {0, 2, 4, 6} \<Longrightarrow> AllocateMemory x f m = Inr m' \<Longrightarrow> session m0 m'"
| container: "session m0 m \<Longrightarrow> distinct xs \<Longrightarrow> \<forall>x \<in> set xs. v_status (nodes_of m x) = not_loaded \<and> \<not> IsBit (v_type (nodes_of m x)) \<Longrightarrow>
    AllocateContainer xs m = Inr m' \<Longrightarrow> session m0 m'"
| save: "session m0 m \<Longrightarrow> session m0 (SaveState m)"
| commit: "session m0 m \<Longrightarrow> CommitMemory m = Inr m' \<Longrightarrow> session m0 m'"
| roll_state: "session m0 m \<Longrightarrow> \<forall>x \<in> set (allocated_vars m). rollable (nodes_of m x) \<Longrightarrow> RollbackState m = Inr m' \<Longrightarrow> session m0 m'"
| roll_all: "session m0 m \<Longrightarrow> \<forall>x \<in> set (allocated_vars m). rollable (nodes_of m x) \<Longrightarrow> RollbackAll m = Inr m' \<Longrightarrow> session m0 m'"

lemma last_count_ok [simp]:
  "manager_ok released (m\<lparr>last_count := n\<rparr>) = manager_ok released m" "roll_ok (m\<lparr>last_count := n\<rparr>) = roll_ok m"
  by (simp_all add: manager_ok_def memory_ok_def roll_ok_def live_def)

lemma session_ok:
  assumes "session m0 m" "manager_ok released m0" "roll_ok m0"
  shows "manager_ok released m \<and> roll_ok m"
  using assms
proof (induction rule: session.induct)
  case (one m f x m')
  then have "manager_ok released m" "roll_ok m" by simp_all
  then show ?case using AllocateMemory_ok [OF _ one(3,2)] AllocateMemory_roll [OF _ _ one(3,2)] by simp
next
  case (container m xs m')
  then have "manager_ok released m" "roll_ok m" by simp_all
  then show ?case using AllocateContainer_ok [OF _ container(4,2,3)] AllocateContainer_roll [OF _ _ container(4,2,3)] by simp
next
  case (commit m m')
  then have "manager_ok released m" "roll_ok m" by simp_all
  then show ?case using CommitMemory_ok [OF _ commit(2)] CommitMemory_roll [OF _ commit(2)] by simp
next
  case (roll_state m m')
  then have o: "manager_ok released m" "roll_ok m" by simp_all
  obtain n m1 where "Rollback n m = Inr m1" "m' = m1\<lparr>last_count := 0\<rparr>"
    using roll_state(3) by (auto simp: RollbackState_def mapE_Inr_iff)
  then show ?case using Rollback_ok [OF o roll_state(2)] by simp
next
  case (roll_all m m')
  then have o: "manager_ok released m" "roll_ok m" by simp_all
  obtain n m1 where "Rollback n m = Inr m1" "m' = m1\<lparr>last_count := 0\<rparr>"
    using roll_all(3) by (auto simp: RollbackAll_def mapE_Inr_iff)
  then show ?case using Rollback_ok [OF o roll_all(2)] by simp
qed (simp_all add: SaveState_def)

definition same_range :: "CMemoryManager \<Rightarrow> CMemoryManager \<Rightarrow> bool" where
  "same_range m0 m \<longleftrightarrow> user_ram_begin m = user_ram_begin m0 \<and> user_ram_end m = user_ram_end m0"

lemma place_all_range [simp]:
  "user_ram_begin (place_all xs a m) = user_ram_begin m" "user_ram_end (place_all xs a m) = user_ram_end m"
  by (induction xs arbitrary: a m) simp_all

lemma Rollback_range: "Rollback n m = Inr m' \<Longrightarrow> same_range m0 m \<Longrightarrow> same_range m0 m'"
  by (induction n arbitrary: m) (auto simp: same_range_def Let_def bindE_Inr_iff split: if_splits)

lemma AllocateMemory_range:
  assumes r: "AllocateMemory x f m = Inr m'"
  shows "same_range m m'"
proof (cases "v_status (nodes_of m x) = not_loaded \<and> IsBit (v_type (nodes_of m x))")
  case False
  then show ?thesis using r by (auto simp: AllocateMemory_def Let_def mapE_Inr_iff same_range_def split: if_splits)
next
  case True
  let ?cells = "[user_ram_begin m ..< user_ram_end m + 1]"
  obtain res where res: "find_bit (sram m) (v_alg (nodes_of m x)) f ?cells = Inr res"
    using r True by (cases "find_bit (sram m) (v_alg (nodes_of m x)) f ?cells") (simp_all add: AllocateMemory_def Let_def)
  show ?thesis
  proof (cases res)
    case None
    then show ?thesis using r True res
      by (simp add: AllocateMemory_def Let_def mapE_Inr_iff same_range_def place_bit_def del: upt_Suc) (elim exE conjE, simp)
  next
    case (Some ic)
    then show ?thesis using r True res
      by (cases ic) (simp add: AllocateMemory_def Let_def same_range_def place_bit_def del: upt_Suc split: if_splits, (elim conjE)?, (hypsubst)?, simp?)
  qed
qed

lemma session_range: "session m0 m \<Longrightarrow> same_range m0 m"
proof (induction rule: session.induct)
  case (one m f x m')
  then show ?case using AllocateMemory_range by (simp add: same_range_def)
next
  case (container m xs m')
  then show ?case by (auto simp: AllocateContainer_def mapE_Inr_iff same_range_def split: if_splits)
next
  case (commit m m')
  show ?case
    by (rule each_invariant [OF commit(2) [unfolded CommitMemory_def], where P = "same_range m0"])
      (use commit(3) in \<open>auto simp: same_range_def split: option.splits\<close>)
qed (auto simp: same_range_def SaveState_def RollbackState_def RollbackAll_def mapE_Inr_iff dest: Rollback_range [of _ _ _ m0, unfolded same_range_def])


text \<open>Two discrete variables and one of two bytes with quality, beside one that is loaded.\<close>

definition demo_store :: "nat \<Rightarrow> variable" where
  "demo_store x =
     (if x = 4 then \<lparr>v_addr = 3, v_type = 0x2041, v_status = good, v_alg = 7\<rparr>
      else \<lparr>v_addr = 0, v_type = (if x = 3 then 0x2042 else 0x2021), v_status = not_loaded, v_alg = 7\<rparr>)"

definition demo_start :: CMemoryManager where
  "demo_start = projr (SetRam 2 9 12 [4] [] demo_store)"

definition demo_session :: "mm_error + CMemoryManager" where
  "demo_session =
     bindE (AllocateMemory 1 (- 1) demo_start) (\<lambda>m1. bindE (AllocateContainer [3] (SaveState m1)) (\<lambda>m2.
     bindE (RollbackState m2) (\<lambda>m3. bindE (AllocateMemory 2 (- 1) m3) (\<lambda>m4. AllocateContainer [3] m4))))"

lemma demo_places:
  "mapE (\<lambda>m. map (\<lambda>x. (v_addr (nodes_of m x), GetBit (v_type (nodes_of m x)), v_status (nodes_of m x))) [1, 2, 3, 4]) demo_session =
     Inr [(2, 0, allocated), (2, 2, allocated), (5, 0, allocated), (3, 0, good)]"
  by code_simp

lemma demo_start_ok: "SetRam 2 9 12 [4] [] demo_store = Inr demo_start"
proof -
  have "mapE (\<lambda>_. ()) (SetRam 2 9 12 [4] [] demo_store) = Inr ()" by code_simp
  then show ?thesis unfolding demo_start_def by (auto simp: mapE_Inr_iff)
qed

lemma demo_reached:
  assumes "demo_session = Inr m"
  shows "session demo_start m"
proof -
  obtain m1 m2 m3 m4 where m: "AllocateMemory 1 (- 1) demo_start = Inr m1" "AllocateContainer [3] (SaveState m1) = Inr m2"
      "RollbackState m2 = Inr m3" "AllocateMemory 2 (- 1) m3 = Inr m4" "AllocateContainer [3] m4 = Inr m"
    using assms by (auto simp: demo_session_def bindE_Inr_iff)
  let ?s1 = "AllocateMemory 1 (- 1) demo_start"
  let ?s2 = "bindE ?s1 (\<lambda>m1. AllocateContainer [3] (SaveState m1))"
  let ?s4 = "bindE (bindE ?s2 RollbackState) (AllocateMemory 2 (- 1))"
  have f: "mapE (\<lambda>m. v_status (nodes_of m 3) = not_loaded \<and> \<not> IsBit (v_type (nodes_of m 3))) ?s1 = Inr True"
    "mapE (\<lambda>m. list_all (\<lambda>x. rollable (nodes_of m x)) (allocated_vars m)) ?s2 = Inr True"
    "mapE (\<lambda>m. v_status (nodes_of m 3) = not_loaded \<and> \<not> IsBit (v_type (nodes_of m 3))) ?s4 = Inr True"
    by code_simp+
  have "?s2 = Inr m2" "?s4 = Inr m4" using m by simp_all
  then have g: "\<forall>x \<in> set [3]. v_status (nodes_of (SaveState m1) x) = not_loaded \<and> \<not> IsBit (v_type (nodes_of (SaveState m1) x))"
    "\<forall>x \<in> set (allocated_vars m2). rollable (nodes_of m2 x)"
    "\<forall>x \<in> set [3]. v_status (nodes_of m4 x) = not_loaded \<and> \<not> IsBit (v_type (nodes_of m4 x))"
    using f unfolding m(1) by (auto simp: list_all_iff SaveState_def)
  have "session demo_start m1" by (rule session.one [OF session.start _ m(1)]) simp
  from session.container [OF session.save [OF this] _ g(1) m(2)] have "session demo_start m2" by simp
  from session.roll_state [OF this g(2) m(3)] have "session demo_start m3" .
  from session.one [OF this _ m(4)] have "session demo_start m4" by simp
  from session.container [OF this _ g(3) m(5)] show ?thesis by simp
qed


section \<open>How variables come to share memory\<close>

text \<open>
  C39. Taking back the allocation of a variable without a quality byte marks the byte behind it as free,
  whoever has it: a variable that lies there is still loaded but no longer protected, and the next
  allocation can be put over it.
\<close>

theorem rollback_frees_neighbour:
  assumes "AllocateMemory x (- 1) (SaveState m) = Inr m1" "v_status (nodes_of m x) = not_loaded"
    and "\<not> IsBit (v_type (nodes_of m x))" "\<not> IsQuality (v_type (nodes_of m x))"
    and "user_ram_end m < length (sram m)" "cells_used (sram m)"
    and "y \<in> live released m" "y \<noteq> x" "\<not> IsBit (v_type (nodes_of m y))" "0 < byte_size (nodes_of m y)"
    and "v_addr (nodes_of m y) = v_addr (nodes_of m1 x) + GetSize (v_type (nodes_of m x))"
    and "v_addr (nodes_of m y) < length (sram m)"
  shows "\<exists>m2. RollbackState m1 = Inr m2 \<and> y \<in> live released m2 \<and> nodes_of m2 y = nodes_of m y \<and>
    c_value (sram m2 ! v_addr (nodes_of m y)) = 0 \<and> \<not> foot (nodes_of m2 y) \<subseteq> taken (sram m2)"
proof -
  let ?v = "nodes_of m x" and ?b = "v_addr (nodes_of m y)"
  obtain a cs where fr: "FindFreeSpace (v_alg ?v) (byte_size ?v) (user_ram_begin m) (user_ram_end m) (sram m) = Inr (a, cs)"
    and m1: "m1 = l_allocated x (update_node x (\<lambda>v. v\<lparr>v_addr := a\<rparr>) ((SaveState m)\<lparr>sram := cs\<rparr>))"
    using assms(1-3) by (auto simp: AllocateMemory_def SaveState_def Let_def mapE_Inr_iff)
  have bs: "byte_size ?v = GetSize (v_type ?v)" using assms(4) by (simp add: byte_size_def)
  have sz: "0 < byte_size ?v" using fr zero_run by (cases "byte_size ?v") auto
  note s = find_free_spec [OF fr sz less_imp_le [OF assms(5)]]
  have a: "v_addr (nodes_of m1 x) = a" by (simp add: m1)
  have b: "?b = a + byte_size ?v" using assms(11) by (simp add: a bs)
  have "c_value (sram m ! a) = 0" "a < length (sram m)" using s(4) sz s(2) assms(5) by auto
  then have nb: "\<not> c_bitcell (cs ! a)" using assms(6) s(6) by (auto simp: cells_used_def)
  let ?w = "?v\<lparr>v_addr := a, v_status := not_loaded\<rparr>"
  have z: "\<exists>cs'. each (\<lambda>i cs. if i < length cs then Inr (put_value i 0 cs) else Inl OutsideRam) [i ..< n] cs = Inr cs'"
    if "n \<le> length cs" for i n cs
    using that
  proof (induction "n - i" arbitrary: i cs)
    case (Suc k)
    then have "[i ..< n] = i # [Suc i ..< n]" "i < length cs" "k = n - Suc i" by (simp_all add: upt_conv_Cons)
    then show ?case using Suc.hyps(1) [of "Suc i" "put_value i 0 cs"] Suc.prems by simp
  qed simp
  obtain cs' where cs': "each (\<lambda>i cs. if i < length cs then Inr (put_value i 0 cs) else Inl OutsideRam) [a ..< ?b + 1] cs = Inr cs'"
    using z [of "?b + 1" cs a] assms(12) s(3) by auto
  have "free_variable ?w cs = Inr cs'"
    using cs' nb b bs \<open>a < length (sram m)\<close> s(3) by (simp add: free_variable_def Let_def del: upt_Suc)
  then have r: "RollbackState m1 = Inr ((update_node x (\<lambda>v. v\<lparr>v_status := not_loaded\<rparr>) (m1\<lparr>allocated_vars := allocated_vars m\<rparr>))\<lparr>sram := cs', last_count := 0\<rparr>)"
    (is "_ = Inr ?m2") by (simp add: RollbackState_def m1 l_allocated_def update_node_def SaveState_def Let_def)
  have n: "nodes_of ?m2 y = nodes_of m y" using assms(8) by (simp add: m1 SaveState_def)
  have c0: "c_value (sram ?m2 ! ?b) = 0" using zero_cells [OF cs'] assms(12) s(3) b by simp
  have "(?b, 0) \<in> foot (nodes_of m y)" using assms(9,10) by (simp add: foot_def)
  then have "\<not> foot (nodes_of ?m2 y) \<subseteq> taken (sram ?m2)" using c0 n by (auto simp: taken_def)
  moreover have "y \<in> live released ?m2" using assms(7,8) by (auto simp: live_def m1 SaveState_def)
  ultimately show ?thesis using r n c0 by blast
qed

definition neighbour_store :: "nat \<Rightarrow> variable" where
  "neighbour_store x =
     (if x = 4 then \<lparr>v_addr = 4, v_type = 0x2041, v_status = good, v_alg = 7\<rparr>
      else \<lparr>v_addr = 0, v_type = 0x42, v_status = not_loaded, v_alg = 7\<rparr>)"

definition neighbour_start :: CMemoryManager where
  "neighbour_start = projr (SetRam 2 9 12 [4] [] neighbour_store)"

lemma rollback_frees_neighbour_witness:
  "\<exists>m1 m2. AllocateMemory 3 (- 1) (SaveState neighbour_start) = Inr m1 \<and> RollbackState m1 = Inr m2 \<and>
    v_status (nodes_of m2 4) = good \<and> c_value (sram m2 ! 4) = 0"
proof -
  let ?r = "AllocateMemory 3 (- 1) (SaveState neighbour_start)"
  have c: "mapE (\<lambda>m. v_addr (nodes_of m 3)) ?r = Inr 2" by code_simp
  then obtain m1 where m1: "?r = Inr m1" "v_addr (nodes_of m1 3) = 2" by (auto simp: mapE_Inr_iff)
  have k: "v_status (nodes_of neighbour_start 3) = not_loaded" "\<not> IsBit (v_type (nodes_of neighbour_start 3))"
    "\<not> IsQuality (v_type (nodes_of neighbour_start 3))" "user_ram_end neighbour_start < length (sram neighbour_start)"
    "\<not> IsBit (v_type (nodes_of neighbour_start 4))" "0 < byte_size (nodes_of neighbour_start 4)"
    "GetSize (v_type (nodes_of neighbour_start 3)) = 2" "v_addr (nodes_of neighbour_start 4) = 4" "length (sram neighbour_start) = 12"
    "v_status (nodes_of neighbour_start 4) = good" "dev_allocated_vars neighbour_start = [4]"
    by code_simp+
  have "list_all (\<lambda>c. \<not> c_bitcell c) (sram neighbour_start)" by code_simp
  then have u: "cells_used (sram neighbour_start)" by (simp add: cells_used_def list_all_length)
  have l: "4 \<in> live [] neighbour_start" using k(10,11) by (simp add: live_def)
  have n: "v_addr (nodes_of neighbour_start 4) = v_addr (nodes_of m1 3) + GetSize (v_type (nodes_of neighbour_start 3))"
    "v_addr (nodes_of neighbour_start 4) < length (sram neighbour_start)" using k m1(2) by simp_all
  have "(4 :: nat) \<noteq> 3" by simp
  from rollback_frees_neighbour [OF m1(1) k(1-4) u l this k(5,6) n] m1(1) k(8,10) show ?thesis by auto
qed

lemma find_bit_none:
  "find_bit cs alg (- 1) is = Inr None \<longleftrightarrow>
    (\<forall>i \<in> set is. i < length cs \<and> \<not> (c_alg_id (cs ! i) = alg \<and> c_bitcell (cs ! i) \<and> c_value (cs ! i) \<noteq> 0xFF))"
  by (induction "is") (auto simp: Let_def)

lemma find_bit_any:
  "\<forall>i \<in> set is. i < length cs \<and> \<not> (c_alg_id (cs ! i) = alg \<and> c_bitcell (cs ! i) \<and> c_value (cs ! i) \<noteq> 0xFF) \<Longrightarrow>
    find_bit cs alg f is = Inr None"
  by (induction "is") auto

lemma find_bit_first:
  assumes "i \<in> set is" "\<forall>j \<in> set is. j < length cs \<and> (j \<noteq> i \<longrightarrow> \<not> (c_alg_id (cs ! j) = alg \<and> c_bitcell (cs ! j) \<and> c_value (cs ! j) \<noteq> 0xFF))"
    and "c_alg_id (cs ! i) = alg" "c_bitcell (cs ! i)" "c_value (cs ! i) \<noteq> 0xFF"
  shows "find_bit cs alg (- 1) is = Inr (Some (i, lowest_clear (c_value (cs ! i))))"
  using assms by (induction "is") (auto simp: Let_def)

text \<open>
  C40. A discrete variable that is put at bit 1, as a copy of an input at an odd bit asks for, gets bits 1
  and 2; the next discrete variable of the program gets bits 0 and 1 of the same byte: its quality bit
  is the value of the first.
\<close>

theorem odd_bit_overlap:
  assumes "AllocateMemory x 1 m = Inr m1" "x \<noteq> y" "v_alg (nodes_of m x) = v_alg (nodes_of m y)"
    and "v_status (nodes_of m x) = not_loaded" "IsBit (v_type (nodes_of m x))"
    and "v_status (nodes_of m y) = not_loaded" "IsBit (v_type (nodes_of m y))"
    and "find_bit (sram m) (v_alg (nodes_of m x)) (- 1) [user_ram_begin m ..< user_ram_end m + 1] = Inr None"
  shows "\<exists>m2. AllocateMemory y (- 1) m1 = Inr m2 \<and> v_addr (nodes_of m2 y) = v_addr (nodes_of m2 x) \<and>
    GetBit (v_type (nodes_of m2 x)) = 1 \<and> GetBit (v_type (nodes_of m2 y)) = 0 \<and>
    foot (nodes_of m2 x) \<inter> foot (nodes_of m2 y) = {(v_addr (nodes_of m2 x), 1)}"
proof -
  let ?cells = "[user_ram_begin m ..< user_ram_end m + 1]" and ?alg = "v_alg (nodes_of m x)"
  have none: "\<forall>i \<in> set ?cells. i < length (sram m) \<and> \<not> (c_alg_id (sram m ! i) = ?alg \<and> c_bitcell (sram m ! i) \<and> c_value (sram m ! i) \<noteq> 0xFF)"
    using assms(8) unfolding find_bit_none .
  note n1 = find_bit_any [OF none, of 1]
  obtain i where i: "find_empty (sram m) ?cells = Inr i"
    using assms(1,4,5) n1 by (cases "find_empty (sram m) ?cells") (auto simp: AllocateMemory_def Let_def)
  let ?cs = "(sram m)[i := (sram m ! i)\<lparr>c_alg_id := ?alg, c_bitcell := True\<rparr>]"
  have s: "i \<in> set ?cells" "i < length (sram m)" "c_value (sram m ! i) = 0" using find_empty_spec [OF i] by auto
  have m1: "m1 = l_allocated x (place_bit x i 1 (m\<lparr>sram := ?cs\<rparr>))"
    using assms(1,4,5) n1 i by (simp add: AllocateMemory_def Let_def del: upt_Suc)
  have sm: "sram m1 = put_value i (take_bits 1 (c_value (?cs ! i))) ?cs" by (simp add: m1 place_bit_def)
  have six: "take_bits 1 (0 :: u8) = 6" by (simp add: take_bits_def)
  have ci: "c_alg_id (sram m1 ! i) = ?alg" "c_bitcell (sram m1 ! i)" "c_value (sram m1 ! i) = 6"
    using s(2,3) six by (simp_all add: sm nth_put_value)
  have cj: "sram m1 ! j = sram m ! j" if "j \<noteq> i" for j using s(2) that by (simp add: sm nth_put_value)
  have rg: "user_ram_begin m1 = user_ram_begin m" "user_ram_end m1 = user_ram_end m" "length (sram m1) = length (sram m)"
    by (simp_all add: m1 place_bit_def)
  have y: "nodes_of m1 y = nodes_of m y" using assms(2) by (simp add: m1 place_bit_def)
  have "lowest_clear (6 :: u8) = 0" by code_simp
  moreover have "(6 :: u8) \<noteq> 0xFF" by simp
  ultimately have fb: "find_bit (sram m1) ?alg (- 1) ?cells = Inr (Some (i, 0))"
    using find_bit_first [OF s(1), of "sram m1" ?alg] none ci cj by (simp add: rg)
  define m2 where "m2 = l_allocated y (place_bit y i 0 m1)"
  have a2: "AllocateMemory y (- 1) m1 = Inr m2"
    using assms(3,6,7) fb by (simp add: AllocateMemory_def Let_def y rg m2_def del: upt_Suc)
  have n2: "nodes_of m2 x = (SetBit 1 ((nodes_of m x)\<lparr>v_addr := i\<rparr>))\<lparr>v_status := allocated\<rparr>"
    "nodes_of m2 y = (SetBit 0 ((nodes_of m y)\<lparr>v_addr := i\<rparr>))\<lparr>v_status := allocated\<rparr>"
    using assms(2) y by (simp_all add: m2_def m1 place_bit_def)
  have t: "IsBit (v_type (nodes_of m2 x))" "GetBit (v_type (nodes_of m2 x)) = 1" "v_addr (nodes_of m2 x) = i"
    "IsBit (v_type (nodes_of m2 y))" "GetBit (v_type (nodes_of m2 y)) = 0" "v_addr (nodes_of m2 y) = i"
    using SetBit_type [of 1 "(nodes_of m x)\<lparr>v_addr := i\<rparr>"] SetBit_type [of 0 "(nodes_of m y)\<lparr>v_addr := i\<rparr>"] assms(5,7)
    unfolding n2 by (simp_all add: SetBit_def)
  then have "foot (nodes_of m2 x) \<inter> foot (nodes_of m2 y) = {(i, 1)}" by (auto simp: foot_def)
  then show ?thesis using a2 t by auto
qed

lemma odd_bit_overlap_witness:
  "\<exists>m1 m2. AllocateMemory 1 1 demo_start = Inr m1 \<and> AllocateMemory 2 (- 1) m1 = Inr m2 \<and>
    foot (nodes_of m2 1) \<inter> foot (nodes_of m2 2) \<noteq> {}"
proof -
  have "mapE (\<lambda>_. ()) (AllocateMemory 1 1 demo_start) = Inr ()" by code_simp
  then obtain m1 where m1: "AllocateMemory 1 1 demo_start = Inr m1" by (auto simp: mapE_Inr_iff)
  have k: "v_alg (nodes_of demo_start 1) = v_alg (nodes_of demo_start 2)"
    "v_status (nodes_of demo_start 1) = not_loaded" "IsBit (v_type (nodes_of demo_start 1))"
    "v_status (nodes_of demo_start 2) = not_loaded" "IsBit (v_type (nodes_of demo_start 2))"
    "find_bit (sram demo_start) (v_alg (nodes_of demo_start 1)) (- 1) [user_ram_begin demo_start ..< user_ram_end demo_start + 1] = Inr None"
    by code_simp+
  have "(1 :: nat) \<noteq> 2" by simp
  from odd_bit_overlap [OF m1 this k] m1 show ?thesis by auto
qed

end
