(* ===== verification/Spec2Isabelle.thy ===== *)
theory Spec2Isabelle
  imports Sim_System Sim_Pause Np_Frame Np_Ring Np_Trie Np_Listener Np_Tasks Db_Blob Db_Btree_Spec Idl_Marshal_Spec Ed_Memory_Spec
begin

text \<open>
  npsystem is a distributed control system. An editor (\<open>src/npsystem\<close>) builds block programs and turns
  them into firmware images for AVR controllers; a server (\<open>src/npserver\<close>) polls the controllers over
  a serial line and tells its clients the values of their variables; the processes talk through an
  RPC library with an interface compiler of its own (\<open>src/nprpc\<close>); data is kept in a paged database
  (\<open>src/npdatabase\<close>); a simulator (\<open>src/sim\<close>) runs the firmware of the controllers on the host. The
  development models the parts below, each translated operation by operation from its source file.

  \<^bold>\<open>The simulator\<close> (theories \<open>Avr_*\<close> and \<open>Sim_*\<close>; \<open>sim/src\<close>, \<open>sim/include/sim\<close>). The class \<open>AVRCore\<close> is
  the record \<open>core\<close>; the 96 bytes of registers are a window of the data memory, as in the source.
  \<^item> \<open>Avr_Chip\<close>: \<open>common.h\<close> and the constants of the two chips. \<open>Avr_Isa\<close>: the instruction table and the
    decoder; the search finds the row whose pattern fits, up to four shadowed rows.
  \<^item> \<open>Avr_Flash\<close>: class \<open>Flash\<close> and \<open>Decode\<close>. \<open>Avr_Core\<close>: the state, the host arithmetic (\<open>x86_adc\<close>,
    \<open>x86_sbb\<close>), EEPROM and self-programming. \<open>Avr_Exec\<close>: one definition per case of the switch in
    \<open>AVRCore::Step\<close>, the interrupt entry and \<open>Step\<close>. An access outside a host array is a value of the
    error type, so that the absence of such accesses is a theorem and not an assumption.
  \<^item> \<open>Avr_Alu\<close> (flags against the manual, 16-bit compares), \<open>Avr_Step\<close> (invariant and memory safety of
    every step, 1 to 4 cycles each), \<open>Avr_Control\<close> (calls and returns, interrupts, page programming).
  \<^item> \<open>Avr_Hex\<close>: both readers of Intel HEX files (\<open>nplib/utils/hexparser.h\<close>, \<open>sim/src/hexparser.cpp\<close>).
  \<^item> \<open>Sim_Medium\<close> (the serial line shared by the controllers), \<open>Sim_Peripherals\<close> (timers, UART, external
    interrupt), \<open>Sim_Mc\<close> (a controller), \<open>Sim_System\<close> (the two worker threads and the client calls as
    a step relation over the registry), \<open>Sim_Pause\<close> (the handshake that stops the threads, at the
    granularity of single atomic accesses).

  \<^bold>\<open>The server\<close> (\<open>Np_Frame\<close>, \<open>Np_Registers\<close>, \<open>Np_Subscriptions\<close>, \<open>Np_Poll\<close>, \<open>Np_Listener\<close>, \<open>Np_Tasks\<close>,
  \<open>Npsys_Types\<close>, \<open>Np_Trie\<close>, \<open>Nplib_Search\<close>; \<open>npserver/src\<close>, \<open>npsys/include\<close>, \<open>nplib/include\<close>).
  \<^item> \<open>Np_Frame\<close>: class \<open>frame\<close> and its CRC-16, against the polynomial bit by bit.
  \<^item> \<open>Np_Registers\<close> holds the state of \<open>protocol_service\<close>: per controller a table of registers sorted by
    address, whose cells live in an explicit store because listeners keep pointers to them, and the
    table of read requests built from it. \<open>Np_Subscriptions\<close> shows that every sequence of its tasks
    implements one counter per handle and that the requests cover the registers exactly.
  \<^item> \<open>Np_Poll\<close>: the round over the requests and the decoding of an answer (the bridge that carries
    the frames is a function parameter). \<open>Np_Listener\<close>: the handle maps of the clients over the same
    registers, with the interleavings of subscriptions, polls and disconnects as a step relation.
    \<open>Np_Tasks\<close>: the one-time tasks, their frames and how they judge an answer.
  \<^item> \<open>Npsys_Types\<close>: the variable types. \<open>Np_Trie\<close>: the name patterns, in one pool of nodes with 16-bit
    indices. \<open>Nplib_Search\<close>: the binary search that the register table and the B-tree share.

  \<^bold>\<open>The RPC library\<close> (\<open>Np_Ring\<close>, \<open>Np_Flat\<close>, \<open>Idl_Types\<close>, \<open>Idl_Layout\<close>, \<open>Idl_Marshal\<close>,
  \<open>Idl_Marshal_Spec\<close>; \<open>nprpc\<close>).
  \<^item> \<open>Np_Ring\<close>: the ring buffer in shared memory; it refines a bounded queue of messages, also when one
    writer and one reader interleave byte by byte.
  \<^item> \<open>Idl_Types\<close>: the types of the interface compiler, their sizes, alignments, identifiers and the
    walk over inherited interfaces (\<open>npidl/src/utils.cpp\<close>, \<open>ast.hpp\<close>); \<open>Idl_Layout\<close>: the offsets that
    the generated code uses agree with the layout, and the inputs where they do not.
  \<^item> \<open>Np_Flat\<close>: the buffers of \<open>flat.hpp\<close>, with self-relative offsets, vectors, strings and optionals;
    \<open>codec\<close> is the contract of a pair of a writer and a reader in such a buffer. \<open>Idl_Marshal\<close>: the meaning of
    the C++ code that \<open>cpp_builder.cpp\<close> emits to copy a value into a buffer, to copy it out and to check a
    received buffer, by recursion on the type as the builder recurses. \<open>Idl_Marshal_Spec\<close>: the round
    trip, that what was written passes the checks, that the checks keep a reader inside the buffer,
    and the messages for which they do not, or reject what is correct.

  \<^bold>\<open>The database\<close> (\<open>Db_Disk\<close>, \<open>Db_Lru\<close>, \<open>Db_Pool\<close>, \<open>Db_Blob\<close>, \<open>Db_Btree\<close>, \<open>Db_Btree_Spec\<close>; \<open>npdatabase/src\<close>).
  \<^item> \<open>Db_Disk\<close>: the file of pages with the fail bit of its stream. \<open>Db_Lru\<close>: the replacement policy.
    \<open>Db_Pool\<close>: the buffer pool; disk and pool both implement the interface \<open>page_store\<close>, an array of
    pages, and a pinned page stays where it is whatever the other clients do.
  \<^item> \<open>Db_Blob\<close>: chains of overflow pages through pool and file, down to the bytes of the headers.
  \<^item> \<open>Db_Btree\<close>: nodes, splits, insertion, search and verify over an explicit store of pages;
    \<open>Db_Btree_Spec\<close>: the abstraction to trees, with insertion as a map update and the balance.

  \<^bold>\<open>The editor\<close> (\<open>Ed_Memory\<close>, \<open>Ed_Memory_Spec\<close>; \<open>npsystem/memorymanager.cpp\<close>). \<open>CMemoryManager\<close> gives the variables
  of a block program their addresses in the memory of a controller, \<open>CAvrMemoryManager\<close> its programs their
  pages. \<open>Ed_Memory_Spec\<close> shows that no two variables share a bit after any session of allocations,
  commits and rollbacks, that pages are first fit, and the two ways in which variables come to overlap.

  \<^bold>\<open>Conventions.\<close> C++ integers have their width (\<open>u8\<close>, \<open>u16\<close>, \<open>u32\<close>, \<open>u64\<close> of \<open>Prelude\<close>); \<open>int\<close> and \<open>nat\<close>
  stand for values that the code keeps in range, with the wrap-around written out where it does not.
  Exceptions, failed assertions and accesses outside an array are \<open>Inl\<close> of a component's error type.
  Loops that may not end are \<open>partial_function (option)\<close> (\<open>ReadPageChain\<close> over a chain of pages,
  \<open>insert_impl\<close> and \<open>btree_find\<close> over a tree of pages), and the properties about them show that they
  return; \<open>btree_verify\<close> has fuel for the depth of the tree. The pause handshake and the simulator have
  no fuel: they are step relations, and progress is a bound on the number of steps.

  \<^bold>\<open>Parameters.\<close> Code that is not in the repository is an argument: the bridge of the controllers, the
  interrupt queue of the boost library, the clock, the allocators of registers and tree pages, the
  garbage in fresh memory. What is assumed of them is a named hypothesis of the theorem.

  \<^bold>\<open>Not modelled\<close>, and why: the windows, property grids and drawing of the editor (a graphical program
  for Windows, built on a toolkit outside the repository) and its code generator; the compiler of structured text (its
  parser is generated, its code generation is LLVM); the client library and the server of the
  database (templates over stubs that the build generates, and leveldb); sessions, sockets and
  HTTP of the RPC library (boost beast); the lexer and parser of npidl and the text it prints (what the
  C++ copying and checking code means is modelled, object references and TypeScript are not);
  the document store of the database (a header under construction); network bridges and history
  files of the server (I/O); the firmware (C and assembler).
\<close>

end
